(* ===== verification/Prelude.thy ===== *)
theory Prelude
  imports Main "HOL-Library.Word" "HOL-Library.Monad_Syntax"
begin

text \<open>
  The vocabulary shared by all components: machine integers, characters with the C
  locale's classification functions, NUL-terminated strings, and byte buffers that are
  read and written by index.

  A C string that is only read is a \<^typ>\<open>string\<close> without its terminator; a pointer
  into it is the suffix it points to, and reading the empty suffix reads the terminator.
  A buffer that is modified in place is the list of all its bytes; a pointer into it is an
  index, and an access outside the list is undefined behaviour in C, written \<open>None\<close>.
  The modelled target is the one the build file selects: Linux on a little-endian machine
  with 8-bit signed \<open>char\<close>, 32-bit \<open>int\<close> and 64-bit \<open>long\<close>, \<open>size_t\<close>.
\<close>

unbundle bit_operations_syntax

section \<open>Machine integers\<close>

type_synonym byte = "8 word"
type_synonym u16 = "16 word"
type_synonym u32 = "32 word"
type_synonym u64 = "64 word"

named_theorems ctype_defs \<open>the character classes, unfolded to character codes\<close>
named_theorems buffer_simps \<open>reads and writes of byte buffers\<close>

section \<open>Characters\<close>

abbreviation NUL :: char where "NUL \<equiv> CHR 0x00"
abbreviation TAB :: char where "TAB \<equiv> CHR 0x09"
abbreviation LF :: char where "LF \<equiv> CHR 0x0A"
abbreviation CR :: char where "CR \<equiv> CHR 0x0D"
abbreviation DQUOTE :: char where "DQUOTE \<equiv> CHR 0x22"
abbreviation BACKSLASH :: char where "BACKSLASH \<equiv> CHR 0x5C"

text \<open>The value of a character as \<open>unsigned char\<close>, and as the target's signed \<open>char\<close>.\<close>

definition ordc :: "char \<Rightarrow> nat" where
  "ordc c = of_char c"

definition schar :: "char \<Rightarrow> int" where
  "schar c = (if ordc c < 128 then int (ordc c) else int (ordc c) - 256)"

definition byte_of :: "char \<Rightarrow> byte" where
  "byte_of c = of_char c"

definition char_of_byte :: "byte \<Rightarrow> char" where
  "char_of_byte b = char_of (unat b)"

text \<open>The classification functions of \<^verbatim>\<open><ctype.h>\<close> in the C locale.\<close>

definition isspace :: "char \<Rightarrow> bool" where [ctype_defs]:
  "isspace c \<longleftrightarrow> ordc c = 32 \<or> 9 \<le> ordc c \<and> ordc c \<le> 13"

definition isdigit :: "char \<Rightarrow> bool" where [ctype_defs]:
  "isdigit c \<longleftrightarrow> 48 \<le> ordc c \<and> ordc c \<le> 57"

definition isupper :: "char \<Rightarrow> bool" where [ctype_defs]:
  "isupper c \<longleftrightarrow> 65 \<le> ordc c \<and> ordc c \<le> 90"

definition islower :: "char \<Rightarrow> bool" where [ctype_defs]:
  "islower c \<longleftrightarrow> 97 \<le> ordc c \<and> ordc c \<le> 122"

definition isalnum :: "char \<Rightarrow> bool" where [ctype_defs]:
  "isalnum c \<longleftrightarrow> isdigit c \<or> isupper c \<or> islower c"

definition isxdigit :: "char \<Rightarrow> bool" where [ctype_defs]:
  "isxdigit c \<longleftrightarrow> isdigit c \<or> 65 \<le> ordc c \<and> ordc c \<le> 70 \<or> 97 \<le> ordc c \<and> ordc c \<le> 102"

definition isgraph :: "char \<Rightarrow> bool" where [ctype_defs]:
  "isgraph c \<longleftrightarrow> 33 \<le> ordc c \<and> ordc c \<le> 126"

definition isprint :: "char \<Rightarrow> bool" where [ctype_defs]:
  "isprint c \<longleftrightarrow> 32 \<le> ordc c \<and> ordc c \<le> 126"

definition iscntrl :: "char \<Rightarrow> bool" where [ctype_defs]:
  "iscntrl c \<longleftrightarrow> ordc c < 32 \<or> ordc c = 127"

definition tolower :: "char \<Rightarrow> char" where
  "tolower c = (if isupper c then char_of (ordc c + 32) else c)"

lemma ordc_inj [simp]: "ordc c = ordc d \<longleftrightarrow> c = d"
  by (simp add: ordc_def)

lemma ordc_less [simp]: "ordc c < 256"
  by (simp add: ordc_def)

lemma ordc_char_of [simp]: "n < 256 \<Longrightarrow> ordc (char_of n) = n"
  by (simp add: ordc_def)

lemma char_of_ordc [simp]: "char_of (ordc c) = c"
  by (simp add: ordc_def)

lemma ordc_eq_char_of: "n < 256 \<Longrightarrow> ordc c = n \<longleftrightarrow> c = char_of n"
  by (metis char_of_ordc ordc_char_of)

lemma unat_byte_of [simp]: "unat (byte_of c) = ordc c"
proof -
  have "unat (byte_of c) = unat (word_of_nat (of_char c) :: byte)"
    by (simp add: byte_of_def of_char_def)
  also have "\<dots> = of_char c mod 2 ^ 8"
    by (simp add: unat_of_nat)
  also have "\<dots> = ordc c"
    using ordc_less [of c] by (simp add: ordc_def)
  finally show ?thesis .
qed

lemma char_of_byte_of [simp]: "char_of_byte (byte_of c) = c"
  by (simp add: char_of_byte_def)

lemma byte_of_char_of_byte [simp]: "byte_of (char_of_byte b) = b"
proof -
  have "unat b < 256" using unsigned_less [of b] by simp
  then have "unat (byte_of (char_of_byte b)) = unat b"
    by (simp add: char_of_byte_def)
  then show ?thesis by (simp only: unsigned_word_eqI)
qed

lemma tolower_idem [simp]: "tolower (tolower c) = tolower c"
proof (cases "isupper c")
  case True
  then have "ordc c + 32 < 256" and "65 \<le> ordc c"
    by (auto simp: isupper_def)
  then show ?thesis using True by (simp add: tolower_def isupper_def)
qed (simp add: tolower_def)

lemma tolower_NUL [simp]: "tolower c = NUL \<longleftrightarrow> c = NUL"
proof
  assume a: "tolower c = NUL"
  show "c = NUL"
  proof (cases "isupper c")
    case True
    then have "ordc (tolower c) = ordc c + 32"
      by (simp add: tolower_def isupper_def)
    with a show ?thesis by (simp add: ordc_def)
  qed (use a in \<open>simp add: tolower_def\<close>)
qed (simp add: tolower_def isupper_def ordc_def)

section \<open>Strings that are only read\<close>

text \<open>\<open>*p\<close> for a pointer \<open>p\<close> into a string, and \<open>p[i]\<close> up to the terminator.\<close>

definition deref :: "string \<Rightarrow> char" where
  "deref s = (case s of [] \<Rightarrow> NUL | c # _ \<Rightarrow> c)"

definition cat :: "string \<Rightarrow> nat \<Rightarrow> char" where
  "cat s i = (if i < length s then s ! i else NUL)"

text \<open>A list of characters is the contents of a C string when it holds no terminator.\<close>

definition cstring :: "string \<Rightarrow> bool" where
  "cstring s \<longleftrightarrow> NUL \<notin> set s"

text \<open>\<open>strchr\<close> and \<open>memchr\<close> return the suffix at the first occurrence;
  \<open>strcspn\<close> and \<open>strspn\<close> count.\<close>

fun strchr :: "string \<Rightarrow> char \<Rightarrow> string option" where
  "strchr [] c = None"
| "strchr (x # xs) c = (if x = c then Some (x # xs) else strchr xs c)"

definition strcspn :: "string \<Rightarrow> string \<Rightarrow> nat" where
  "strcspn s delims = length (takeWhile (\<lambda>c. c \<notin> set delims) s)"

definition strspn :: "string \<Rightarrow> string \<Rightarrow> nat" where
  "strspn s accept = length (takeWhile (\<lambda>c. c \<in> set accept) s)"

lemma deref_simps [simp]: "deref [] = NUL" "deref (c # s) = c"
  by (simp_all add: deref_def)

lemma cat_0 [simp]: "cat s 0 = deref s"
  by (cases s) (simp_all add: cat_def deref_def)

lemma cstring_simps [simp]:
  "cstring []" "cstring (c # s) \<longleftrightarrow> c \<noteq> NUL \<and> cstring s"
  "cstring (s @ t) \<longleftrightarrow> cstring s \<and> cstring t"
  by (auto simp: cstring_def)

lemma cstring_drop [intro]: "cstring s \<Longrightarrow> cstring (drop n s)"
  by (auto simp: cstring_def dest: in_set_dropD)

lemma strchr_None [simp]: "strchr s c = None \<longleftrightarrow> c \<notin> set s"
  by (induction s) auto

lemma strchr_Some: "strchr s c = Some t \<Longrightarrow> \<exists>u. s = u @ t \<and> c \<notin> set u \<and> t \<noteq> [] \<and> hd t = c"
proof (induction s)
  case (Cons x xs)
  show ?case
  proof (cases "x = c")
    case True
    with Cons.prems have "x # xs = [] @ t \<and> c \<notin> set [] \<and> t \<noteq> [] \<and> hd t = c" by auto
    then show ?thesis by blast
  next
    case False
    with Cons obtain u where "xs = u @ t \<and> c \<notin> set u \<and> t \<noteq> [] \<and> hd t = c" by auto
    with False have "x # xs = (x # u) @ t \<and> c \<notin> set (x # u) \<and> t \<noteq> [] \<and> hd t = c" by auto
    then show ?thesis by blast
  qed
qed simp

lemma strchr_append_Cons [simp]: "c \<notin> set u \<Longrightarrow> strchr (u @ c # t) c = Some (c # t)"
  by (induction u) auto

lemma strcspn_le [simp]: "strcspn s d \<le> length s"
  by (simp add: strcspn_def length_takeWhile_le)

section \<open>Buffers modified in place\<close>

text \<open>
  Reading and writing one byte; outside the buffer the access is undefined behaviour.
  \<open>scan P b i\<close> is the loop \<open>while (P(b[i])) i++\<close>.
\<close>

definition rd :: "char list \<Rightarrow> nat \<Rightarrow> char option" where
  "rd b i = (if i < length b then Some (b ! i) else None)"

definition wr :: "char list \<Rightarrow> nat \<Rightarrow> char \<Rightarrow> char list option" where
  "wr b i c = (if i < length b then Some (b[i := c]) else None)"

function scan :: "(char \<Rightarrow> bool) \<Rightarrow> char list \<Rightarrow> nat \<Rightarrow> nat option" where
  "scan P b i =
     (if i < length b then (if P (b ! i) then scan P b (Suc i) else Some i) else None)"
  by pat_completeness auto
termination
  by (relation "measure (\<lambda>(P, b, i). length b - i)") auto

declare scan.simps [simp del]

text \<open>The string a pointer into a buffer designates: the bytes before the next NUL.\<close>

definition str_at :: "char list \<Rightarrow> nat \<Rightarrow> string" where
  "str_at b i = takeWhile (\<lambda>c. c \<noteq> NUL) (drop i b)"

lemma rd_Some [simp]: "rd b i = Some c \<longleftrightarrow> i < length b \<and> b ! i = c"
  by (simp add: rd_def)

lemma rd_lt [buffer_simps]: "i < length b \<Longrightarrow> rd b i = Some (b ! i)"
  by (simp add: rd_def)

lemma wr_lt [buffer_simps]: "i < length b \<Longrightarrow> wr b i c = Some (b[i := c])"
  by (simp add: wr_def)

lemma wr_Some [simp]: "wr b i c = Some b' \<longleftrightarrow> i < length b \<and> b' = b[i := c]"
  by (auto simp: wr_def)

lemma scan_stops:
  assumes "i \<le> j" "j < length b" "\<not> P (b ! j)"
  shows "\<exists>k. scan P b i = Some k \<and> i \<le> k \<and> k \<le> j \<and> \<not> P (b ! k) \<and> (\<forall>m. i \<le> m \<and> m < k \<longrightarrow> P (b ! m))"
  using assms
proof (induction P b i rule: scan.induct)
  case (1 P b i)
  show ?case
  proof (cases "P (b ! i)")
    case True
    with "1.prems" have "i \<noteq> j" by auto
    with "1.prems" have le: "Suc i \<le> j" "i < length b" by simp_all
    with "1.IH" [OF le(2) True] "1.prems" obtain k where
      "scan P b (Suc i) = Some k" "Suc i \<le> k" "k \<le> j" "\<not> P (b ! k)"
      "\<forall>m. Suc i \<le> m \<and> m < k \<longrightarrow> P (b ! m)" by blast
    note k = this
    have "P (b ! m)" if "i \<le> m" "m < k" for m
      using that True k(5) by (cases "m = i") auto
    with True le k show ?thesis
      by (subst scan.simps) auto
  next
    case False
    with "1.prems" show ?thesis by (subst scan.simps) auto
  qed
qed

lemma scan_SomeD:
  "scan P b i = Some k \<Longrightarrow> i \<le> k \<and> k < length b \<and> \<not> P (b ! k) \<and> (\<forall>m. i \<le> m \<and> m < k \<longrightarrow> P (b ! m))"
proof (induction P b i rule: scan.induct)
  case (1 P b i)
  show ?case
  proof (cases "i < length b \<and> P (b ! i)")
    case True
    with "1.prems" have "scan P b (Suc i) = Some k" by (simp add: scan.simps [of P b i])
    with "1.IH" True have "Suc i \<le> k \<and> k < length b \<and> \<not> P (b ! k) \<and>
      (\<forall>m. Suc i \<le> m \<and> m < k \<longrightarrow> P (b ! m))" by blast
    note k = this
    have "P (b ! m)" if "i \<le> m" "m < k" for m
      using that True k by (cases "m = i") auto
    with k show ?thesis by auto
  next
    case False
    with "1.prems" show ?thesis by (auto simp: scan.simps [of P b i] split: if_splits)
  qed
qed

lemma scan_unique:
  assumes "i \<le> k" "k < length b" "\<not> P (b ! k)" "\<And>m. i \<le> m \<Longrightarrow> m < k \<Longrightarrow> P (b ! m)"
  shows "scan P b i = Some k"
proof -
  from scan_stops [of i k b P, OF assms(1-3)] obtain k' where
    "scan P b i = Some k'" "i \<le> k'" "k' \<le> k" "\<not> P (b ! k')" by blast
  with assms(4) [of k'] show ?thesis by (cases "k' = k") auto
qed

lemma str_at_0 [simp]: "cstring s \<Longrightarrow> str_at (s @ NUL # t) 0 = s"
  by (simp add: str_at_def) (subst takeWhile_append2; auto simp: cstring_def)

lemma str_atI: "cstring s \<Longrightarrow> drop p b = s @ NUL # t \<Longrightarrow> str_at b p = s"
  using str_at_0 [of s t] by (simp add: str_at_def)

lemma cstring_take [intro]: "cstring s \<Longrightarrow> cstring (take n s)"
  by (auto simp: cstring_def dest: in_set_takeD)

lemma cstring_str_at [simp]: "cstring (str_at b p)"
  by (auto simp: cstring_def str_at_def dest: set_takeWhileD)

lemma take_str_at:
  assumes "p + length (str_at b p) < length b"
  shows "take (length (str_at b p) + 1) (drop p b) = str_at b p @ [NUL]"
proof -
  define s where "s = drop p b"
  have l: "length (takeWhile (\<lambda>c. c \<noteq> NUL) s) < length s" using assms by (simp add: str_at_def s_def)
  then have "s ! length (takeWhile (\<lambda>c. c \<noteq> NUL) s) = NUL" using nth_length_takeWhile by blast
  moreover have "take (length (takeWhile (\<lambda>c. c \<noteq> NUL) s)) s = takeWhile (\<lambda>c. c \<noteq> NUL) s"
    by (metis takeWhile_eq_take)
  ultimately show ?thesis using l by (simp add: str_at_def s_def [symmetric] take_Suc_conv_app_nth)
qed

text \<open>The \<open>n\<close> bytes at offset \<open>p\<close> of a memory block.\<close>

definition slice :: "'a list \<Rightarrow> nat \<Rightarrow> nat \<Rightarrow> 'a list" where
  "slice b p n = take n (drop p b)"

lemma length_slice [simp]: "p + n \<le> length b \<Longrightarrow> length (slice b p n) = n"
  by (simp add: slice_def)

lemma slice_0 [simp]: "slice b p 0 = []"
  by (simp add: slice_def)

lemma slice_Suc: "p < length b \<Longrightarrow> slice b p (Suc n) = b ! p # slice b (Suc p) n"
  by (simp add: slice_def take_Suc_conv_app_nth Cons_nth_drop_Suc [symmetric])

lemma slice_update: "q < p \<or> p + n \<le> q \<Longrightarrow> slice (b[q := v]) p n = slice b p n"
  by (auto simp: slice_def drop_update_swap)

lemma takeWhile_drop: "k \<le> length (takeWhile P xs) \<Longrightarrow> takeWhile P (drop k xs) = drop k (takeWhile P xs)"
proof (induction k arbitrary: xs)
  case (Suc k)
  then obtain x ys where "xs = x # ys" "P x" by (cases xs) (auto split: if_splits)
  with Suc show ?case by simp
qed simp

lemma set_tl_subset: "set (tl xs) \<subseteq> set xs"
  by (cases xs) auto

lemma set_dropWhile_subset: "set (dropWhile P xs) \<subseteq> set xs"
  by (auto dest: set_dropWhileD)

lemma set_takeWhile_subset: "set (takeWhile P xs) \<subseteq> set xs"
  by (auto dest: set_takeWhileD)

lemma take_update_nth: "q < length b \<Longrightarrow> take (Suc q) (b[q := v]) = take q b @ [v]"
  by (simp add: take_Suc_conv_app_nth)

section \<open>Blocks of a byte stream\<close>

text \<open>
  What a block-wise consumer makes of a stream: it folds its block function over the full
  64-byte blocks and keeps the rest.
\<close>

function absorb :: "('s \<Rightarrow> 'b list \<Rightarrow> 's) \<Rightarrow> 's \<Rightarrow> 'b list \<Rightarrow> 's" where
  "absorb f s xs = (if length xs < 64 then s else absorb f (f s (take 64 xs)) (drop 64 xs))"
  by pat_completeness auto
termination
  by (relation "measure (\<lambda>(f, s, xs). length xs)") auto

declare absorb.simps [simp del]

definition leftover :: "'b list \<Rightarrow> 'b list" where
  "leftover xs = drop (64 * (length xs div 64)) xs"

lemma absorb_short [simp]: "length xs < 64 \<Longrightarrow> absorb f s xs = s"
  by (simp add: absorb.simps [of f s xs])

lemma leftover_short [simp]: "length xs < 64 \<Longrightarrow> leftover xs = xs"
  by (simp add: leftover_def)

lemma absorb_block: "length xs = 64 \<Longrightarrow> absorb f s (xs @ ys) = absorb f (f s xs) ys"
  by (simp add: absorb.simps [of f s "xs @ ys"])

lemma leftover_block:
  assumes "length xs = 64"
  shows "leftover (xs @ ys) = leftover ys"
proof -
  have "(64 + length ys) div 64 = Suc (length ys div 64)"
    using div_add_self1 [of "64::nat" "length ys"] by simp
  then show ?thesis using assms by (simp add: leftover_def)
qed

lemma length_leftover: "length (leftover xs) = length xs mod 64"
  by (simp add: leftover_def minus_mult_div_eq_mod)

lemma length_leftover_less [simp]: "length (leftover xs) < 64"
  by (simp add: length_leftover)

lemma absorb_append:
  "absorb f s (xs @ ys) = absorb f (absorb f s xs) (leftover xs @ ys)
   \<and> leftover (xs @ ys) = leftover (leftover xs @ ys)"
proof (induction f s xs rule: absorb.induct)
  case (1 f s xs)
  show ?case
  proof (cases "length xs < 64")
    case False
    define b where "b = take 64 xs"
    define r where "r = drop 64 xs"
    have xs: "xs = b @ r" and lb: "length b = 64"
      using False by (simp_all add: b_def r_def)
    have IH: "absorb f (f s b) (r @ ys) = absorb f (absorb f (f s b) r) (leftover r @ ys)"
      "leftover (r @ ys) = leftover (leftover r @ ys)"
      using "1.IH" False by (simp_all add: b_def r_def)
    show ?thesis
      by (simp add: xs lb absorb_block leftover_block IH)
  qed simp
qed

end
