(* ===== verification/Block_Stream.thy ===== *)
theory Block_Stream
  imports Prelude
begin

text \<open>
  What the two message digests of the server (\<^verbatim>\<open>md5.inl\<close>, \<^verbatim>\<open>sha1.inl\<close>) share: words
  read from and written to bytes, the 64-bit message length kept in two 32-bit counters,
  and the interface of a context that consumes a message in chunks. The locale states
  what one call of the update routine does to a context; its lemmas lift that to any
  sequence of calls.
\<close>

section \<open>Words and bytes\<close>

definition le32 :: "byte \<Rightarrow> byte \<Rightarrow> byte \<Rightarrow> byte \<Rightarrow> u32" where
  "le32 a b c d = ucast a OR push_bit 8 (ucast b) OR push_bit 16 (ucast c) OR push_bit 24 (ucast d)"

definition be32 :: "byte \<Rightarrow> byte \<Rightarrow> byte \<Rightarrow> byte \<Rightarrow> u32" where
  "be32 a b c d = le32 d c b a"

text \<open>The words of a byte sequence, as a little-endian machine loads them.\<close>

fun le_words :: "byte list \<Rightarrow> u32 list" where
  "le_words (a # b # c # d # xs) = le32 a b c d # le_words xs"
| "le_words _ = []"

fun be_words :: "byte list \<Rightarrow> u32 list" where
  "be_words (a # b # c # d # xs) = be32 a b c d # be_words xs"
| "be_words _ = []"

definition le_bytes :: "u32 \<Rightarrow> byte list" where
  "le_bytes w = [ucast w, ucast (drop_bit 8 w), ucast (drop_bit 16 w), ucast (drop_bit 24 w)]"

definition be_bytes :: "u32 \<Rightarrow> byte list" where
  "be_bytes w = rev (le_bytes w)"

text \<open>\<open>memcpy(&buf[j], src, n)\<close> for a source of \<open>n\<close> bytes.\<close>

definition blit :: "'a list \<Rightarrow> nat \<Rightarrow> 'a list \<Rightarrow> 'a list" where
  "blit buf j src = take j buf @ src @ drop (j + length src) buf"

lemma length_le_words: "length (le_words xs) = length xs div 4"
  by (induction xs rule: le_words.induct) auto

lemma length_be_words: "length (be_words xs) = length xs div 4"
  by (induction xs rule: be_words.induct) auto

lemma length_blit [simp]: "j + length src \<le> length buf \<Longrightarrow> length (blit buf j src) = length buf"
  by (simp add: blit_def)

lemma take_blit: "j \<le> length buf \<Longrightarrow> take (j + length src) (blit buf j src) = take j buf @ src"
  by (simp add: blit_def)

lemma blit_full: "j + length src = length buf \<Longrightarrow> blit buf j src = take j buf @ src"
  by (simp add: blit_def)

section \<open>The message length in bits\<close>

lemma unat_u32_less [simp]: "unat (w :: u32) < 4294967296"
proof -
  have "unat w < 2 ^ LENGTH(32)" by (rule unsigned_less)
  then show ?thesis by simp
qed

lemma unat_push3: "unat (push_bit 3 (w :: u32)) = (8 * unat w) mod 4294967296"
  by (simp add: push_bit_eq_mult unat_word_ariths mult.commute)

lemma unat_drop29: "unat (drop_bit 29 (w :: u32)) = unat w div 536870912"
  by (simp add: drop_bit_eq_div unat_div)

definition bit_count :: "u32 \<Rightarrow> u32 \<Rightarrow> nat" where
  "bit_count lo hi = unat lo + 4294967296 * unat hi"

lemma bit_count_less: "bit_count lo hi < 18446744073709551616"
proof -
  have "unat lo < 4294967296" "unat hi < 4294967296" by simp_all
  then show ?thesis unfolding bit_count_def by linarith
qed

lemma bit_count_mod: "bit_count lo hi mod 4294967296 = unat lo"
  by (simp add: bit_count_def)

lemma bit_count_div: "bit_count lo hi div 4294967296 = unat hi"
  by (simp add: bit_count_def)

lemma mod_one_wrap: "(x :: nat) < N \<Longrightarrow> y < N \<Longrightarrow> (x + y) mod N = (if x + y < N then x + y else x + y - N)"
  by (simp add: mod_if)

lemma add_carry:
  fixes a b :: u32
  shows "a + b < b \<longleftrightarrow> 4294967296 \<le> unat a + unat b"
    and "unat (a + b) + (if a + b < b then 4294967296 else 0) = unat a + unat b"
proof -
  have l: "unat a < 4294967296" "unat b < 4294967296" by simp_all
  have s: "unat (a + b) = (if unat a + unat b < 4294967296 then unat a + unat b
      else unat a + unat b - 4294967296)"
    using mod_one_wrap [OF l] by (simp add: unat_word_ariths)
  show c: "a + b < b \<longleftrightarrow> 4294967296 \<le> unat a + unat b"
    unfolding word_less_nat_alt s using l
    by (cases "unat a + unat b < 4294967296"; simp only: if_True if_False; linarith)
  show "unat (a + b) + (if a + b < b then 4294967296 else 0) = unat a + unat b"
    unfolding c s by auto
qed

text \<open>
  Adding the bits of \<open>n\<close> bytes with the carry between the counters, as both digests do.
\<close>

lemma bit_count_add:
  fixes lo hi nb :: u32
  assumes nb: "unat nb = (8 * n) mod 4294967296"
  defines "lo' \<equiv> lo + nb"
  defines "hi' \<equiv> hi + word_of_nat (n div 536870912) + (if lo' < nb then 1 else 0)"
  shows "bit_count lo' hi' = (bit_count lo hi + 8 * n) mod 18446744073709551616"
proof -
  define k :: nat where "k = (if lo' < nb then 1 else 0)"
  define q where "q = unat hi + n div 536870912 + k"
  have lo': "unat lo' + 4294967296 * k = unat lo + unat nb"
    using add_carry(2) [of lo nb] by (auto simp: k_def lo'_def)
  have "8 * n div 4294967296 = n div 536870912"
    using div_mult_mult1 [of "8::nat" n 536870912] by simp
  then have n8: "8 * n = 4294967296 * (n div 536870912) + unat nb"
    using nb mult_div_mod_eq [of 4294967296 "8 * n"] by simp
  have "hi' = word_of_nat q"
    by (simp add: hi'_def k_def q_def)
  then have hi': "unat hi' = q mod 4294967296"
    by (simp add: unat_of_nat)
  have "bit_count lo hi + 8 * n = unat lo' + 4294967296 * q"
    using lo' n8 unfolding bit_count_def q_def ring_distribs by linarith
  moreover have "(unat lo' + 4294967296 * q) mod (4294967296 * 4294967296)
      = unat lo' + 4294967296 * (q mod 4294967296)"
    by (simp only: mod_mult2_eq) simp
  ultimately show ?thesis by (simp add: bit_count_def hi')
qed

text \<open>The number of pending bytes, which both digests read off the low counter.\<close>

lemma unat_offset: "unat (drop_bit 3 (w :: u32) AND 63) = unat w div 8 mod 64"
proof -
  have "(drop_bit 3 w AND 63) = take_bit 6 (drop_bit 3 w)"
    by (simp add: take_bit_eq_mask mask_eq_exp_minus_1)
  then have "unat (drop_bit 3 w AND 63) = unat (drop_bit 3 w mod 64)"
    by (simp add: take_bit_eq_mod)
  then show ?thesis
    by (simp add: unat_mod unat_div drop_bit_eq_div)
qed

lemma bit_count_offset: "bit_count lo hi div 8 mod 64 = unat lo div 8 mod 64"
proof -
  have "bit_count lo hi div 8 = unat lo div 8 + 64 * (8388608 * unat hi)"
    unfolding bit_count_def by simp
  then show ?thesis by (simp only: mod_mult_self2)
qed

lemma offset_add: "(b + 8 * n) mod 18446744073709551616 div 8 mod 64 = (b div 8 mod 64 + n) mod (64 :: nat)"
proof -
  have "(b + 8 * n) mod (8 * 2305843009213693952) div 8 = (b + 8 * n) div 8 mod 2305843009213693952"
    by (simp only: mod_mult2_eq)
  moreover have "(x mod (64 * 36028797018963968)) mod 64 = x mod 64" for x :: nat
    by (rule mod_mod_cancel) simp
  ultimately show ?thesis by (simp add: mod_simps add.commute)
qed

lemma word_of_bit_count:
  assumes "bit_count lo hi = (8 * n) mod 18446744073709551616"
  shows "lo = word_of_nat (8 * n)" "hi = word_of_nat (8 * n div 4294967296)"
proof -
  have "unat lo = (8 * n) mod (4294967296 * 4294967296) mod 4294967296"
    using assms bit_count_mod [of lo hi] by simp
  then have "unat lo = 8 * n mod 4294967296" by (simp only: mod_mult_right_eq mod_mod_cancel dvd_triv_left)
  then have "unat lo = unat (word_of_nat (8 * n) :: u32)" unfolding unat_of_nat by simp
  then show "lo = word_of_nat (8 * n)" by (rule unsigned_word_eqI)
  have "unat hi = (8 * n) mod (4294967296 * 4294967296) div 4294967296"
    using assms bit_count_div [of lo hi] by simp
  then have "unat hi = 8 * n div 4294967296 mod 4294967296" by (simp only: mod_mult2_eq) simp
  then have "unat hi = unat (word_of_nat (8 * n div 4294967296) :: u32)" unfolding unat_of_nat by simp
  then show "hi = word_of_nat (8 * n div 4294967296)" by (rule unsigned_word_eqI)
qed

lemma ucast_255: "ucast (w AND 255 :: u32) = (ucast w :: byte)"
proof -
  have m: "(255 :: u32) = mask 8" by (simp add: mask_eq_exp_minus_1)
  show ?thesis unfolding m by (rule bit_word_eqI) (auto simp: bit_simps)
qed

section \<open>Contexts that consume a message in chunks\<close>

text \<open>
  \<open>upd\<close> is the update routine of a context: \<open>None\<close> where the C code leaves its buffers.
  \<open>good\<close> is the context's invariant, \<open>ok\<close> says that the routine can take a chunk of
  this length, \<open>hst\<close> is the chaining value, \<open>pend\<close> the bytes that wait for a full
  block, \<open>bits\<close> the length counter.
\<close>

fun feed :: "('c \<Rightarrow> byte list \<Rightarrow> 'c option) \<Rightarrow> 'c \<Rightarrow> byte list list \<Rightarrow> 'c option" where
  "feed upd c [] = Some c"
| "feed upd c (d # ds) = Option.bind (upd c d) (\<lambda>c'. feed upd c' ds)"

locale block_stream =
  fixes upd :: "'c \<Rightarrow> byte list \<Rightarrow> 'c option"
    and hst :: "'c \<Rightarrow> 's"
    and pend :: "'c \<Rightarrow> byte list"
    and bits :: "'c \<Rightarrow> nat"
    and good :: "'c \<Rightarrow> bool"
    and ok :: "byte list \<Rightarrow> bool"
    and compress :: "'s \<Rightarrow> byte list \<Rightarrow> 's"
  assumes upd_spec:
    "\<lbrakk>good c; ok d\<rbrakk> \<Longrightarrow> \<exists>c'. upd c d = Some c' \<and> good c'
       \<and> hst c' = absorb compress (hst c) (pend c @ d)
       \<and> pend c' = leftover (pend c @ d)
       \<and> bits c' = (bits c + 8 * length d) mod 18446744073709551616"
    and bits_less: "bits c < 18446744073709551616"
begin

definition consumed :: "'c \<Rightarrow> 'c \<Rightarrow> byte list \<Rightarrow> bool" where
  "consumed c c' m \<longleftrightarrow> good c' \<and> hst c' = absorb compress (hst c) (pend c @ m)
     \<and> pend c' = leftover (pend c @ m) \<and> bits c' = (bits c + 8 * length m) mod 18446744073709551616"

lemma upd_consumed: "good c \<Longrightarrow> ok d \<Longrightarrow> \<exists>c'. upd c d = Some c' \<and> consumed c c' d"
  using upd_spec by (fastforce simp: consumed_def)

lemma consumed_trans:
  assumes "consumed c c1 m1" and "consumed c1 c2 m2"
  shows "consumed c c2 (m1 @ m2)"
  using assms absorb_append [of compress "hst c" "pend c @ m1" m2]
  by (simp add: consumed_def mod_simps algebra_simps)

lemma consumed_Nil:
  assumes "good c" and "length (pend c) < 64"
  shows "consumed c c []"
  using assms bits_less [of c] by (simp add: consumed_def)

lemma feed_consumed:
  assumes "good c" and "length (pend c) < 64" and "\<forall>d \<in> set ds. ok d"
  shows "\<exists>c'. feed upd c ds = Some c' \<and> consumed c c' (concat ds)"
  using assms
proof (induction ds arbitrary: c)
  case Nil
  then show ?case by (simp add: consumed_Nil)
next
  case (Cons d ds)
  from Cons.prems upd_consumed [of c d] obtain c1 where
    c1: "upd c d = Some c1" "consumed c c1 d" by auto
  then have "good c1" "length (pend c1) < 64" by (simp_all add: consumed_def)
  with Cons obtain c2 where "feed upd c1 ds = Some c2" "consumed c1 c2 (concat ds)" by auto
  with c1 show ?case by (auto intro: consumed_trans)
qed

end

end
