(* ===== verification/Sha1.thy ===== *)
theory Sha1
  imports Block_Stream
begin

text \<open>
  SHA-1 as \<^verbatim>\<open>sha1.inl\<close> computes it (it keys the websocket handshake): the 16-word block
  that the rounds expand in place, the 80 unrolled rounds, the context's update and final
  routines. The reference is FIPS 180-1: an 80-word message schedule, the textbook round
  functions, and one padded message. The theorems show that the two agree for a message
  fed in any chunks.
\<close>

section \<open>The code\<close>

record sha_ctx =
  sstate :: "u32 list"
  scount0 :: u32
  scount1 :: u32
  sbuffer :: "byte list"

definition rol :: "u32 \<Rightarrow> nat \<Rightarrow> u32" where
  "rol value bits = push_bit bits value OR drop_bit (32 - bits) value"

text \<open>The working variables and the block the rounds read and write.\<close>

datatype sha_var = VA | VB | VC | VD | VE

type_synonym sha_work = "(sha_var \<Rightarrow> u32) \<times> u32 list"

text \<open>On the little-endian target \<open>blk0\<close> swaps the bytes of a word in place.\<close>

definition blk0 :: "u32 list \<Rightarrow> nat \<Rightarrow> u32 \<times> u32 list" where
  "blk0 block i =
     (let x = (rol (block ! i) 24 AND 0xFF00FF00) OR (rol (block ! i) 8 AND 0x00FF00FF)
      in (x, block[i := x]))"

definition blk :: "u32 list \<Rightarrow> nat \<Rightarrow> u32 \<times> u32 list" where
  "blk block i =
     (let x = rol (block ! ((i + 13) AND 15) XOR block ! ((i + 8) AND 15)
                   XOR block ! ((i + 2) AND 15) XOR block ! (i AND 15)) 1
      in (x, block[i AND 15 := x]))"

definition R0 :: "sha_var \<Rightarrow> sha_var \<Rightarrow> sha_var \<Rightarrow> sha_var \<Rightarrow> sha_var \<Rightarrow> nat \<Rightarrow> sha_work \<Rightarrow> sha_work" where
  "R0 v w x y z i = (\<lambda>(r, block).
     let (k, block) = blk0 block i;
         r = r(z := r z + (((r w AND (r x XOR r y)) XOR r y) + k + 0x5A827999 + rol (r v) 5));
         r = r(w := rol (r w) 30)
     in (r, block))"

definition R1 :: "sha_var \<Rightarrow> sha_var \<Rightarrow> sha_var \<Rightarrow> sha_var \<Rightarrow> sha_var \<Rightarrow> nat \<Rightarrow> sha_work \<Rightarrow> sha_work" where
  "R1 v w x y z i = (\<lambda>(r, block).
     let (k, block) = blk block i;
         r = r(z := r z + (((r w AND (r x XOR r y)) XOR r y) + k + 0x5A827999 + rol (r v) 5));
         r = r(w := rol (r w) 30)
     in (r, block))"

definition R2 :: "sha_var \<Rightarrow> sha_var \<Rightarrow> sha_var \<Rightarrow> sha_var \<Rightarrow> sha_var \<Rightarrow> nat \<Rightarrow> sha_work \<Rightarrow> sha_work" where
  "R2 v w x y z i = (\<lambda>(r, block).
     let (k, block) = blk block i;
         r = r(z := r z + ((r w XOR r x XOR r y) + k + 0x6ED9EBA1 + rol (r v) 5));
         r = r(w := rol (r w) 30)
     in (r, block))"

definition R3 :: "sha_var \<Rightarrow> sha_var \<Rightarrow> sha_var \<Rightarrow> sha_var \<Rightarrow> sha_var \<Rightarrow> nat \<Rightarrow> sha_work \<Rightarrow> sha_work" where
  "R3 v w x y z i = (\<lambda>(r, block).
     let (k, block) = blk block i;
         r = r(z := r z + ((((r w OR r x) AND r y) OR (r w AND r x)) + k + 0x8F1BBCDC + rol (r v) 5));
         r = r(w := rol (r w) 30)
     in (r, block))"

definition R4 :: "sha_var \<Rightarrow> sha_var \<Rightarrow> sha_var \<Rightarrow> sha_var \<Rightarrow> sha_var \<Rightarrow> nat \<Rightarrow> sha_work \<Rightarrow> sha_work" where
  "R4 v w x y z i = (\<lambda>(r, block).
     let (k, block) = blk block i;
         r = r(z := r z + ((r w XOR r x XOR r y) + k + 0xCA62C1D6 + rol (r v) 5));
         r = r(w := rol (r w) 30)
     in (r, block))"

text \<open>The 80 rounds, unrolled as in \<open>SHA1_Transform\<close>.\<close>

definition sha1_rounds :: "(sha_work \<Rightarrow> sha_work) list" where
  "sha1_rounds = [
     R0 VA VB VC VD VE 0, R0 VE VA VB VC VD 1, R0 VD VE VA VB VC 2, R0 VC VD VE VA VB 3,
     R0 VB VC VD VE VA 4, R0 VA VB VC VD VE 5, R0 VE VA VB VC VD 6, R0 VD VE VA VB VC 7,
     R0 VC VD VE VA VB 8, R0 VB VC VD VE VA 9, R0 VA VB VC VD VE 10, R0 VE VA VB VC VD 11,
     R0 VD VE VA VB VC 12, R0 VC VD VE VA VB 13, R0 VB VC VD VE VA 14, R0 VA VB VC VD VE 15,
     R1 VE VA VB VC VD 16, R1 VD VE VA VB VC 17, R1 VC VD VE VA VB 18, R1 VB VC VD VE VA 19,
     R2 VA VB VC VD VE 20, R2 VE VA VB VC VD 21, R2 VD VE VA VB VC 22, R2 VC VD VE VA VB 23,
     R2 VB VC VD VE VA 24, R2 VA VB VC VD VE 25, R2 VE VA VB VC VD 26, R2 VD VE VA VB VC 27,
     R2 VC VD VE VA VB 28, R2 VB VC VD VE VA 29, R2 VA VB VC VD VE 30, R2 VE VA VB VC VD 31,
     R2 VD VE VA VB VC 32, R2 VC VD VE VA VB 33, R2 VB VC VD VE VA 34, R2 VA VB VC VD VE 35,
     R2 VE VA VB VC VD 36, R2 VD VE VA VB VC 37, R2 VC VD VE VA VB 38, R2 VB VC VD VE VA 39,
     R3 VA VB VC VD VE 40, R3 VE VA VB VC VD 41, R3 VD VE VA VB VC 42, R3 VC VD VE VA VB 43,
     R3 VB VC VD VE VA 44, R3 VA VB VC VD VE 45, R3 VE VA VB VC VD 46, R3 VD VE VA VB VC 47,
     R3 VC VD VE VA VB 48, R3 VB VC VD VE VA 49, R3 VA VB VC VD VE 50, R3 VE VA VB VC VD 51,
     R3 VD VE VA VB VC 52, R3 VC VD VE VA VB 53, R3 VB VC VD VE VA 54, R3 VA VB VC VD VE 55,
     R3 VE VA VB VC VD 56, R3 VD VE VA VB VC 57, R3 VC VD VE VA VB 58, R3 VB VC VD VE VA 59,
     R4 VA VB VC VD VE 60, R4 VE VA VB VC VD 61, R4 VD VE VA VB VC 62, R4 VC VD VE VA VB 63,
     R4 VB VC VD VE VA 64, R4 VA VB VC VD VE 65, R4 VE VA VB VC VD 66, R4 VD VE VA VB VC 67,
     R4 VC VD VE VA VB 68, R4 VB VC VD VE VA 69, R4 VA VB VC VD VE 70, R4 VE VA VB VC VD 71,
     R4 VD VE VA VB VC 72, R4 VC VD VE VA VB 73, R4 VB VC VD VE VA 74, R4 VA VB VC VD VE 75,
     R4 VE VA VB VC VD 76, R4 VD VE VA VB VC 77, R4 VC VD VE VA VB 78, R4 VB VC VD VE VA 79]"

definition SHA1_Transform :: "u32 list \<Rightarrow> byte list \<Rightarrow> u32 list" where
  "SHA1_Transform state buffer =
     (let block = le_words (take 64 buffer);
          r = (\<lambda>v. case v of VA \<Rightarrow> state ! 0 | VB \<Rightarrow> state ! 1 | VC \<Rightarrow> state ! 2
                            | VD \<Rightarrow> state ! 3 | VE \<Rightarrow> state ! 4);
          (r, block) = fold (\<lambda>f. f) sha1_rounds (r, block)
      in [state ! 0 + r VA, state ! 1 + r VB, state ! 2 + r VC, state ! 3 + r VD, state ! 4 + r VE])"

definition SHA1_Init :: "sha_ctx \<Rightarrow> sha_ctx" where
  "SHA1_Init context = context\<lparr>
     sstate := [0x67452301, 0xEFCDAB89, 0x98BADCFE, 0x10325476, 0xC3D2E1F0],
     scount0 := 0, scount1 := 0\<rparr>"

text \<open>
  The loop over the full blocks of the input, with the index as the code's \<open>uint32_t\<close>.
  \<open>None\<close>: the loop reads beyond the \<open>len\<close> bytes of \<open>data\<close> (which it does when
  \<open>i + 63\<close> wraps around).
\<close>

function SHA1_Update_loop :: "u32 list \<Rightarrow> byte list \<Rightarrow> u32 \<Rightarrow> u32 \<Rightarrow> (u32 list \<times> u32) option" where
  "SHA1_Update_loop state data i len =
     (if i + 63 < len
      then (if unat i + 64 \<le> unat len
            then SHA1_Update_loop (SHA1_Transform state (drop (unat i) data)) data (i + 64) len
            else None)
      else Some (state, i))"
  by pat_completeness auto
termination
proof (relation "measure (\<lambda>(state, data, i, len). unat len - unat i)")
  fix state :: "u32 list" and data :: "byte list" and i len :: u32
  assume "unat i + 64 \<le> unat len"
  then have "unat i + 64 < 4294967296" by (rule le_less_trans) simp
  then have "unat (i + 64) = unat i + 64" by (simp add: unat_word_ariths)
  with \<open>unat i + 64 \<le> unat len\<close>
  show "((SHA1_Transform state (drop (unat i) data), data, i + 64, len), state, data, i, len)
    \<in> measure (\<lambda>(state, data, i, len). unat len - unat i)" by simp
qed simp

declare SHA1_Update_loop.simps [simp del]

definition SHA1_Update :: "sha_ctx \<Rightarrow> byte list \<Rightarrow> u32 \<Rightarrow> sha_ctx option" where
  "SHA1_Update context data len =
     (let j = scount0 context;
          context = context\<lparr>scount0 := scount0 context + push_bit 3 len\<rparr>;
          context = (if scount0 context < j
                     then context\<lparr>scount1 := scount1 context + 1\<rparr> else context);
          context = context\<lparr>scount1 := scount1 context + drop_bit 29 len\<rparr>;
          j = drop_bit 3 j AND 63
      in if 63 < j + len
         then (let i = 64 - j;
                   context = context\<lparr>sbuffer := blit (sbuffer context) (unat j) (take (unat i) data)\<rparr>;
                   state = SHA1_Transform (sstate context) (sbuffer context)
               in do {
                 (state, i) \<leftarrow> SHA1_Update_loop state data i len;
                 Some (context\<lparr>sstate := state,
                   sbuffer := blit (sbuffer context) 0 (take (unat (len - i)) (drop (unat i) data))\<rparr>)
               })
         else Some (context\<lparr>sbuffer := blit (sbuffer context) (unat j) (take (unat len) data)\<rparr>))"

text \<open>The padding loop of \<open>SHA1_Final\<close>: one zero byte at a time.\<close>

partial_function (option) SHA1_Final_pad :: "sha_ctx \<Rightarrow> sha_ctx option" where
  "SHA1_Final_pad context =
     (if scount0 context AND 504 \<noteq> 448
      then Option.bind (SHA1_Update context [0] 1) SHA1_Final_pad
      else Some context)"

declare SHA1_Final_pad.simps [code]

definition SHA1_Final :: "sha_ctx \<Rightarrow> (byte list \<times> sha_ctx) option" where
  "SHA1_Final context =
     (let finalcount = map (\<lambda>i. ucast (drop_bit ((3 - (i AND 3)) * 8)
            (if 4 \<le> i then scount0 context else scount1 context) AND 255)) [0..<8]
      in do {
        context \<leftarrow> SHA1_Update context [0x80] 1;
        context \<leftarrow> SHA1_Final_pad context;
        context \<leftarrow> SHA1_Update context finalcount 8;
        let digest = map (\<lambda>i. ucast (drop_bit ((3 - (i AND 3)) * 8)
              (sstate context ! drop_bit 2 i) AND 255)) [0..<20];
        Some (digest, \<lparr>sstate = replicate 5 0, scount0 = 0, scount1 = 0, sbuffer = replicate 64 0\<rparr>)
      })"

section \<open>The reference: FIPS 180-1\<close>

fun sha_W :: "u32 list \<Rightarrow> nat \<Rightarrow> u32" where
  "sha_W M t = (if t < 16 then M ! t
     else rol (sha_W M (t - 3) XOR sha_W M (t - 8) XOR sha_W M (t - 14) XOR sha_W M (t - 16)) 1)"

declare sha_W.simps [simp del]

definition sha_f :: "nat \<Rightarrow> u32 \<Rightarrow> u32 \<Rightarrow> u32 \<Rightarrow> u32" where
  "sha_f t b c d =
     (if t < 20 then (b AND c) OR (NOT b AND d)
      else if t < 40 then b XOR c XOR d
      else if t < 60 then (b AND c) XOR (b AND d) XOR (c AND d)
      else b XOR c XOR d)"

definition sha_K :: "nat \<Rightarrow> u32" where
  "sha_K t = (if t < 20 then 0x5A827999 else if t < 40 then 0x6ED9EBA1
              else if t < 60 then 0x8F1BBCDC else 0xCA62C1D6)"

fun sha_step :: "u32 list \<Rightarrow> nat \<Rightarrow> u32 \<times> u32 \<times> u32 \<times> u32 \<times> u32 \<Rightarrow> u32 \<times> u32 \<times> u32 \<times> u32 \<times> u32" where
  "sha_step M t (a, b, c, d, e) =
     (rol a 5 + sha_f t b c d + e + sha_W M t + sha_K t, a, rol b 30, c, d)"

definition sha_compress :: "u32 list \<Rightarrow> byte list \<Rightarrow> u32 list" where
  "sha_compress H block =
     (case fold (sha_step (be_words (take 64 block))) [0..<80] (H ! 0, H ! 1, H ! 2, H ! 3, H ! 4) of
        (a, b, c, d, e) \<Rightarrow> [H ! 0 + a, H ! 1 + b, H ! 2 + c, H ! 3 + d, H ! 4 + e])"

text \<open>The padded message: a one bit, zeros up to 56 bytes modulo 64, the length in bits.\<close>

definition sha_pad :: "byte list \<Rightarrow> byte list" where
  "sha_pad m = m @ [0x80] @ replicate ((119 - length m mod 64) mod 64) 0
     @ be_bytes (word_of_nat (8 * length m div 4294967296)) @ be_bytes (word_of_nat (8 * length m))"

definition sha_digest :: "byte list \<Rightarrow> byte list" where
  "sha_digest m = concat (map be_bytes (absorb sha_compress
     [0x67452301, 0xEFCDAB89, 0x98BADCFE, 0x10325476, 0xC3D2E1F0] (sha_pad m)))"

section \<open>One block\<close>

lemma rol_bit: "n < 32 \<Longrightarrow> bits < 32 \<Longrightarrow> bit (rol w bits) n = bit w (if bits \<le> n then n - bits else 32 + n - bits)"
  by (auto simp: rol_def bit_simps dest: bit_imp_le_length)

lemma le32_bit: "n < 32 \<Longrightarrow> bit (le32 a b c d) n =
   (if n < 8 then bit a n else if n < 16 then bit b (n - 8) else if n < 24 then bit c (n - 16) else bit d (n - 24))"
  by (auto simp: le32_def bit_simps dest: bit_imp_le_length)

lemma mask_high_bytes: 
  assumes "n < 32"
  shows "bit (0xFF00FF00 :: u32) n = (8 \<le> n \<and> n < 16 \<or> 24 \<le> n)"
proof -
  have eq: "(0xFF00FF00 :: u32) = push_bit 8 (mask 8) OR push_bit 24 (mask 8)"
    by (simp add: mask_eq_exp_minus_1)
  show ?thesis unfolding eq using assms by (auto simp: bit_simps)
qed
lemma mask_low_bytes: 
  assumes "n < 32"
  shows "bit (0x00FF00FF :: u32) n = (n < 8 \<or> 16 \<le> n \<and> n < 24)"
proof -
  have eq: "(0x00FF00FF :: u32) = mask 8 OR push_bit 16 (mask 8)"
    by (simp add: mask_eq_exp_minus_1)
  show ?thesis unfolding eq using assms by (auto simp: bit_simps)
qed

lemma bswap_masks:
  fixes ma mb :: u32
  assumes "\<And>n. n < 32 \<Longrightarrow> bit ma n = (8 \<le> n \<and> n < 16 \<or> 24 \<le> n)"
    and "\<And>n. n < 32 \<Longrightarrow> bit mb n = (n < 8 \<or> 16 \<le> n \<and> n < 24)"
  shows "(rol (le32 a b c d) 24 AND ma) OR (rol (le32 a b c d) 8 AND mb) = be32 a b c d"
  by (rule bit_word_eqI) (auto simp: bit_and_iff bit_or_iff rol_bit le32_bit assms be32_def)

lemma bswap: "(rol (le32 a b c d) 24 AND 0xFF00FF00) OR (rol (le32 a b c d) 8 AND 0x00FF00FF) = be32 a b c d"
  by (rule bswap_masks, erule mask_high_bytes, erule mask_low_bytes)

lemma sha_ch: "((w AND (x XOR y)) XOR y) = (w AND x) OR (NOT w AND (y::u32))"
  by (rule bit_word_eqI) (auto simp: bit_simps)
lemma sha_maj: "((w OR x) AND y) OR (w AND x) = (w AND x) XOR (w AND y) XOR (x AND (y::u32))"
  by (rule bit_word_eqI) (auto simp: bit_simps)
lemma and15: "(n::nat) AND 15 = n mod 16"
  using take_bit_eq_mask [of 4 n] by (simp add: take_bit_eq_mod mask_eq_exp_minus_1)

lemma le_words_bswap:
  "be_words xs = map (\<lambda>w. (rol w 24 AND 0xFF00FF00) OR (rol w 8 AND 0x00FF00FF)) (le_words xs)"
  by (induction xs rule: le_words.induct) (simp_all only: le_words.simps be_words.simps list.map bswap)

text \<open>The rotation of the variables' roles: which variables the round \<open>t\<close> names.\<close>

definition rot :: "nat \<Rightarrow> sha_var \<times> sha_var \<times> sha_var \<times> sha_var \<times> sha_var" where
  "rot t = (if t mod 5 = 0 then (VA, VB, VC, VD, VE)
            else if t mod 5 = 1 then (VE, VA, VB, VC, VD)
            else if t mod 5 = 2 then (VD, VE, VA, VB, VC)
            else if t mod 5 = 3 then (VC, VD, VE, VA, VB)
            else (VB, VC, VD, VE, VA))"

definition sha_round :: "nat \<Rightarrow> sha_work \<Rightarrow> sha_work" where
  "sha_round t = (case rot t of (v, w, x, y, z) \<Rightarrow>
     (if t < 16 then R0 else if t < 20 then R1 else if t < 40 then R2
      else if t < 60 then R3 else R4) v w x y z t)"

lemma upt_80:
  "[0..<80] = [
     0, 1, 2, 3, 4, 5, 6, 7, 8, 9, 10, 11, 12, 13, 14, 15, 16, 17, 18, 19, 20, 21, 22, 23,
     24, 25, 26, 27, 28, 29, 30, 31, 32, 33, 34, 35, 36, 37, 38, 39, 40, 41, 42, 43, 44,
     45, 46, 47, 48, 49, 50, 51, 52, 53, 54, 55, 56, 57, 58, 59, 60, 61, 62, 63, 64, 65,
     66, 67, 68, 69, 70, 71, 72, 73, 74, 75, 76, 77, 78, 79]"
  by code_simp

lemma sha1_rounds_eq: "sha1_rounds = map sha_round [0..<80]"
  unfolding upt_80 by (simp add: sha1_rounds_def sha_round_def rot_def)

lemma rot_Suc: "rot t = (v, w, x, y, z) \<Longrightarrow> rot (Suc t) = (z, v, w, x, y)"
  by (auto simp: rot_def mod_Suc split: if_splits)

lemma rot_distinct: "rot t = (v, w, x, y, z) \<Longrightarrow> distinct [v, w, x, y, z]"
  by (auto simp: rot_def split: if_splits)

text \<open>
  What holds before round \<open>t\<close>: the variables, read in their current roles, are the
  reference's registers, and the block holds the last 16 words of the schedule, its
  entries from \<open>t\<close> on still unswapped.
\<close>

definition sha_inv :: "u32 list \<Rightarrow> u32 list \<Rightarrow> nat \<Rightarrow> sha_work \<Rightarrow> u32 \<times> u32 \<times> u32 \<times> u32 \<times> u32 \<Rightarrow> bool" where
  "sha_inv raw M t s regs \<longleftrightarrow>
     (case (s, rot t) of ((r, block), (v, w, x, y, z)) \<Rightarrow>
        regs = (r v, r w, r x, r y, r z) \<and> length block = 16
        \<and> (\<forall>j. t \<le> j \<and> j < 16 \<longrightarrow> block ! j = raw ! j)
        \<and> (\<forall>k. k < t \<and> t \<le> k + 16 \<longrightarrow> block ! (k mod 16) = sha_W M k))"

lemma sha_W_low: "t < 16 \<Longrightarrow> sha_W M t = M ! t"
  by (simp add: sha_W.simps)

lemma sha_W_high:
  "16 \<le> t \<Longrightarrow> sha_W M t = rol (sha_W M (t - 3) XOR sha_W M (t - 8) XOR sha_W M (t - 14) XOR sha_W M (t - 16)) 1"
  by (subst sha_W.simps) simp

lemma blk0_inv:
  assumes "sha_inv raw M t (r, block) regs" "t < 16" "length raw = 16"
    and "\<And>j. j < 16 \<Longrightarrow> M ! j = (rol (raw ! j) 24 AND 0xFF00FF00) OR (rol (raw ! j) 8 AND 0x00FF00FF)"
  shows "blk0 block t = (sha_W M t, block[t mod 16 := sha_W M t])"
  using assms by (auto simp: blk0_def sha_inv_def sha_W_low Let_def split: prod.splits)

lemma blk_inv:
  assumes "sha_inv raw M t (r, block) regs" "16 \<le> t"
  shows "blk block t = (sha_W M t, block[t mod 16 := sha_W M t])"
proof -
  have old: "block ! (k mod 16) = sha_W M k" if "k < t" "t \<le> k + 16" for k
    using assms(1) that by (auto simp: sha_inv_def split: prod.splits)
  obtain u where u: "t = u + 16" using assms(2) by (metis add.commute le_Suc_ex)
  have m: "(t + 13) mod 16 = (t - 3) mod 16" "(t + 8) mod 16 = (t - 8) mod 16"
    "(t + 2) mod 16 = (t - 14) mod 16" "t mod 16 = (t - 16) mod 16"
    using mod_add_self2 [of "13 + u" 16] mod_add_self2 [of "8 + u" 16] mod_add_self2 [of "u + 2" 16]
    unfolding u by simp_all
  have "block ! ((t + 13) mod 16) = sha_W M (t - 3)" "block ! ((t + 8) mod 16) = sha_W M (t - 8)"
    "block ! ((t + 2) mod 16) = sha_W M (t - 14)" "block ! (t mod 16) = sha_W M (t - 16)"
    using assms(2) old [of "t - 3"] old [of "t - 8"] old [of "t - 14"] old [of "t - 16"]
    unfolding m by simp_all
  then show ?thesis
    using sha_W_high [OF assms(2), of M] by (simp only: blk_def Let_def and15)
qed

lemma sha_inv_step:
  assumes inv: "sha_inv raw M t (r, block) regs" and "t < 80" and raw: "length raw = 16"
    and M: "\<And>j. j < 16 \<Longrightarrow> M ! j = (rol (raw ! j) 24 AND 0xFF00FF00) OR (rol (raw ! j) 8 AND 0x00FF00FF)"
  shows "sha_inv raw M (Suc t) (sha_round t (r, block)) (sha_step M t regs)"
proof -
  obtain v w x y z where rt: "rot t = (v, w, x, y, z)" by (cases "rot t") auto
  note d = rot_distinct [OF rt]
  have regs: "regs = (r v, r w, r x, r y, r z)" and len: "length block = 16"
    and fut: "\<And>j. t \<le> j \<Longrightarrow> j < 16 \<Longrightarrow> block ! j = raw ! j"
    and past: "\<And>k. k < t \<Longrightarrow> t \<le> k + 16 \<Longrightarrow> block ! (k mod 16) = sha_W M k"
    using inv rt by (auto simp: sha_inv_def)
  define block' where "block' = block[t mod 16 := sha_W M t]"
  define z' where "z' = rol (r v) 5 + sha_f t (r w) (r x) (r y) + r z + sha_W M t + sha_K t"
  have "sha_round t (r, block) = (r(z := z', w := rol (r w) 30), block')"
  proof (cases "t < 16")
    case True
    with blk0_inv [OF inv True raw M] d show ?thesis
      by (simp add: sha_round_def rt R0_def z'_def block'_def sha_f_def sha_K_def sha_ch add_ac)
  next
    case False
    with blk_inv [OF inv] d show ?thesis
      by (simp add: sha_round_def rt R1_def R2_def R3_def R4_def z'_def block'_def sha_f_def sha_K_def
          sha_ch sha_maj add_ac)
  qed
  moreover have "block' ! (k mod 16) = sha_W M k" if "k < Suc t" "Suc t \<le> k + 16" for k
  proof (cases "k = t")
    case False
    with that have k: "k < t" "t \<le> k + 16" "t \<noteq> k + 16" by simp_all
    then have "k mod 16 \<noteq> t mod 16"
      using mod_eq_dvd_iff_nat [of k t 16] by (auto dest: dvd_imp_le)
    with k past show ?thesis by (simp add: block'_def)
  qed (simp add: block'_def len)
  moreover have "block' ! j = raw ! j" if "Suc t \<le> j" "j < 16" for j
    using that fut by (simp add: block'_def)
  ultimately show ?thesis
    using rot_Suc [OF rt] d by (auto simp: sha_inv_def regs z'_def block'_def len)
qed

lemma sha_inv_fold:
  assumes "sha_inv raw M 0 s regs" "length raw = 16" "n \<le> 80"
    and "\<And>j. j < 16 \<Longrightarrow> M ! j = (rol (raw ! j) 24 AND 0xFF00FF00) OR (rol (raw ! j) 8 AND 0x00FF00FF)"
  shows "sha_inv raw M n (fold sha_round [0..<n] s) (fold (sha_step M) [0..<n] regs)"
  using \<open>n \<le> 80\<close>
proof (induction n)
  case (Suc n)
  then have "sha_inv raw M n (fold sha_round [0..<n] s) (fold (sha_step M) [0..<n] regs)" by simp
  with Suc.prems sha_inv_step [of raw M n _ _ "fold (sha_step M) [0..<n] regs"] assms(2,4)
  show ?case by (cases "fold sha_round [0..<n] s") simp
qed (use assms(1) in simp)

lemma SHA1_Transform_compress:
  assumes "64 \<le> length block"
  shows "SHA1_Transform H block = sha_compress H block"
proof -
  define raw where "raw = le_words (take 64 block)"
  define M where "M = be_words (take 64 block)"
  define r where "r = (\<lambda>v. case v of VA \<Rightarrow> H ! 0 | VB \<Rightarrow> H ! 1 | VC \<Rightarrow> H ! 2 | VD \<Rightarrow> H ! 3 | VE \<Rightarrow> H ! 4)"
  have raw: "length raw = 16" using assms by (simp add: raw_def length_le_words)
  have M: "M ! j = (rol (raw ! j) 24 AND 0xFF00FF00) OR (rol (raw ! j) 8 AND 0x00FF00FF)" if "j < 16" for j
    using that raw by (simp add: M_def raw_def le_words_bswap)
  have "sha_inv raw M 0 (r, raw) (H ! 0, H ! 1, H ! 2, H ! 3, H ! 4)"
    by (simp add: sha_inv_def rot_def r_def raw)
  from sha_inv_fold [OF this raw _ M, of 80]
  have inv: "sha_inv raw M 80 (fold sha_round [0..<80] (r, raw)) (fold (sha_step M) [0..<80] (H ! 0, H ! 1, H ! 2, H ! 3, H ! 4))"
    by simp
  have "fold (\<lambda>f. f) sha1_rounds = fold sha_round [0..<80]"
    by (simp add: sha1_rounds_eq fold_map o_def)
  with inv show ?thesis
    by (auto simp: SHA1_Transform_def sha_compress_def sha_inv_def rot_def Let_def
        simp flip: raw_def M_def r_def split: prod.splits)
qed

section \<open>The context\<close>

definition sha_good :: "sha_ctx \<Rightarrow> bool" where
  "sha_good c \<longleftrightarrow> length (sbuffer c) = 64"

definition sha_pend :: "sha_ctx \<Rightarrow> byte list" where
  "sha_pend c = take (unat (drop_bit 3 (scount0 c) AND 63)) (sbuffer c)"

definition sha_bits :: "sha_ctx \<Rightarrow> nat" where
  "sha_bits c = bit_count (scount0 c) (scount1 c)"

text \<open>Chunks for which the code's 32-bit index arithmetic does not wrap around.\<close>

definition sha_chunk_ok :: "byte list \<Rightarrow> bool" where
  "sha_chunk_ok d \<longleftrightarrow> length d < 4294967232"

definition sha_append :: "sha_ctx \<Rightarrow> byte list \<Rightarrow> sha_ctx option" where
  "sha_append c d = SHA1_Update c d (word_of_nat (length d))"

lemma unat_len: "length d < 4294967296 \<Longrightarrow> unat (word_of_nat (length d) :: u32) = length d"
  by (simp add: unat_of_nat)

lemma length_sha_pend: "sha_good c \<Longrightarrow> length (sha_pend c) = sha_bits c div 8 mod 64"
  by (simp add: sha_pend_def sha_good_def sha_bits_def bit_count_offset unat_offset)

lemma SHA1_Transform_take [simp]: "SHA1_Transform H (take 64 b) = SHA1_Transform H b"
  by (simp add: SHA1_Transform_def)

lemma SHA1_Update_loop_spec:
  assumes "n = length data" "n < 4294967232" "unat i \<le> n" "len = word_of_nat n"
  shows "\<exists>i'. SHA1_Update_loop state data i len =
      Some (absorb SHA1_Transform state (drop (unat i) data), i')
    \<and> drop (unat i') data = leftover (drop (unat i) data) \<and> unat i' \<le> n"
  using assms
proof (induction state data i len rule: SHA1_Update_loop.induct)
  case (1 state data i len)
  have len: "unat len = n" using "1.prems" by (simp add: unat_len)
  have "unat i + 64 < 4294967296" using "1.prems" by linarith
  then have i63: "unat (i + 63) = unat i + 63" and i64: "unat (i + 64) = unat i + 64"
    by (simp_all add: unat_word_ariths)
  have c: "i + 63 < len \<longleftrightarrow> unat i + 64 \<le> n"
    by (auto simp: word_less_nat_alt i63 len)
  show ?case
  proof (cases "unat i + 64 \<le> n")
    case True
    define r where "r = drop (unat i) data"
    have r: "\<not> length r < 64" "drop (unat i + 64) data = drop 64 r"
      using True "1.prems" by (simp_all add: r_def add.commute)
    have a: "absorb SHA1_Transform state r = absorb SHA1_Transform (SHA1_Transform state r) (drop 64 r)"
      using r(1) by (subst absorb.simps) simp
    have l: "leftover r = leftover (drop 64 r)"
      using r(1) leftover_block [of "take 64 r" "drop 64 r"] by simp
    from "1.IH" c True len i64 "1.prems" r a l show ?thesis
      by (subst SHA1_Update_loop.simps) (simp flip: r_def)
  next
    case False
    with c "1.prems" show ?thesis by (subst SHA1_Update_loop.simps) simp
  qed
qed

lemma SHA1_Update_spec:
  assumes good: "sha_good c" and ok: "sha_chunk_ok d"
  shows "\<exists>c'. sha_append c d = Some c' \<and> sha_good c'
    \<and> sstate c' = absorb SHA1_Transform (sstate c) (sha_pend c @ d)
    \<and> sha_pend c' = leftover (sha_pend c @ d)
    \<and> sha_bits c' = (sha_bits c + 8 * length d) mod 18446744073709551616"
proof -
  define n where "n = length d"
  define len :: u32 where "len = word_of_nat n"
  define p where "p = unat (drop_bit 3 (scount0 c) AND 63)"
  define c0 where "c0 = scount0 c + push_bit 3 len"
  define c1 where "c1 = scount1 c + drop_bit 29 len + (if c0 < push_bit 3 len then 1 else 0)"
  have n: "n < 4294967232" using ok by (simp add: n_def sha_chunk_ok_def)
  have ulen: "unat len = n" using n by (simp add: len_def unat_of_nat)
  have p: "p < 64" "p = length (sha_pend c)" and pend: "sha_pend c = take p (sbuffer c)"
    and buf: "length (sbuffer c) = 64"
    using good by (simp_all add: p_def unat_offset sha_pend_def sha_good_def)
  have carry: "c0 < scount0 c \<longleftrightarrow> c0 < push_bit 3 len"
    using add_carry(1) [of "push_bit 3 len" "scount0 c"] add_carry(1) [of "scount0 c" "push_bit 3 len"]
    by (simp add: c0_def add.commute)
  define ctx where "ctx = c\<lparr>scount0 := c0, scount1 := c1\<rparr>"
  have bits: "bit_count c0 c1 = (sha_bits c + 8 * n) mod 18446744073709551616"
  proof -
    have "drop_bit 29 len = word_of_nat (n div 536870912)"
      using n by (intro unsigned_word_eqI [where 'a = nat]) (simp add: unat_drop29 ulen unat_of_nat)
    moreover have "unat (push_bit 3 len) = 8 * n mod 4294967296"
      by (simp add: unat_push3 ulen)
    ultimately show ?thesis
      using bit_count_add [of "push_bit 3 len" n "scount0 c" "scount1 c"]
      by (simp add: c0_def c1_def sha_bits_def)
  qed
  have off: "unat (drop_bit 3 c0 AND 63) = (p + n) mod 64"
    using bits bit_count_offset [of c0 c1] offset_add [of "sha_bits c" n] p(2) length_sha_pend [OF good]
    by (simp add: unat_offset)
  have upd: "SHA1_Update c d len =
    (let j = drop_bit 3 (scount0 c) AND 63
     in if 63 < j + len
        then (let i = 64 - j; buf = blit (sbuffer c) (unat j) (take (unat i) d)
              in map_option (\<lambda>(state, i). ctx\<lparr>sstate := state,
                   sbuffer := blit buf 0 (take (unat (len - i)) (drop (unat i) d))\<rparr>)
                 (SHA1_Update_loop (SHA1_Transform (sstate c) buf) d i len))
        else Some (ctx\<lparr>sbuffer := blit (sbuffer c) (unat j) (take (unat len) d)\<rparr>))"
    unfolding SHA1_Update_def Let_def ctx_def
    by (auto simp: carry c0_def [symmetric] c1_def map_option_case add.assoc add.left_commute add.commute
        split: option.splits bind_splits)
  show ?thesis
  proof (cases "p + n < 64")
    case True
    define c' where "c' = ctx\<lparr>sbuffer := blit (sbuffer c) p d\<rparr>"
    have "\<not> 63 < (drop_bit 3 (scount0 c) AND 63) + len"
      using True by (simp add: word_less_nat_alt unat_word_ariths ulen flip: p_def)
    then have "sha_append c d = Some c'"
      using n_def by (simp add: sha_append_def upd ulen c'_def len_def [symmetric] n_def [symmetric] flip: p_def)
    moreover have "sha_pend c' = sha_pend c @ d"
      using True off p buf take_blit [of p "sbuffer c" d]
      by (simp add: sha_pend_def c'_def ctx_def n_def pend [unfolded sha_pend_def, folded p_def])
    ultimately show ?thesis
      using True p bits buf by (simp add: c'_def ctx_def sha_good_def sha_bits_def n_def)
  next
    case False
    define i :: u32 where "i = 64 - (drop_bit 3 (scount0 c) AND 63)"
    have i: "unat i = 64 - p"
      using p(1) by (simp add: i_def unat_sub word_le_nat_alt flip: p_def)
    have "unat ((drop_bit 3 (scount0 c) AND 63) + len) = p + n"
      using n p(1) by (simp add: unat_word_ariths ulen flip: p_def)
    with False have c: "63 < (drop_bit 3 (scount0 c) AND 63) + len"
      by (simp add: word_less_nat_alt)
    define blk1 where "blk1 = take p (sbuffer c) @ take (64 - p) d"
    have l: "length blk1 = 64" using False p(1) buf by (simp add: blk1_def n_def)
    have b: "blit (sbuffer c) p (take (64 - p) d) = blk1"
      using False p(1) buf by (simp add: blk1_def blit_def n_def)
    obtain i' where i': "SHA1_Update_loop (SHA1_Transform (sstate c) blk1) d i len =
        Some (absorb SHA1_Transform (SHA1_Transform (sstate c) blk1) (drop (64 - p) d), i')"
      "drop (unat i') d = leftover (drop (64 - p) d)" "unat i' \<le> n"
      using SHA1_Update_loop_spec [of n d i len "SHA1_Transform (sstate c) blk1"] False n
      by (fastforce simp: n_def i len_def)
    define c' where "c' = ctx\<lparr>sstate := absorb SHA1_Transform (SHA1_Transform (sstate c) blk1) (drop (64 - p) d),
        sbuffer := blit blk1 0 (leftover (drop (64 - p) d))\<rparr>"
    have "unat (len - i') = n - unat i'" using i'(3) by (simp add: unat_sub word_le_nat_alt ulen)
    then have "take (unat (len - i')) (drop (unat i') d) = leftover (drop (64 - p) d)"
      unfolding i'(2) [symmetric] by (simp add: n_def)
    then have "SHA1_Update c d len = Some c'"
      unfolding upd Let_def using i'(1) c by (simp add: c'_def b i flip: p_def i_def)
    then have "sha_append c d = Some c'"
      by (simp add: sha_append_def len_def n_def)
    moreover have d: "sha_pend c @ d = blk1 @ drop (64 - p) d"
      by (simp add: blk1_def pend)
    moreover have "leftover (sha_pend c @ d) = leftover (drop (64 - p) d)"
      unfolding d by (rule leftover_block [OF l])
    then have "(p + n) mod 64 = length (leftover (drop (64 - p) d))"
      using length_leftover [of "sha_pend c @ d"] by (simp add: p(2) n_def)
    ultimately show ?thesis
      using off bits l length_leftover_less [of "drop (64 - p) d"]
      by (simp add: c'_def ctx_def sha_good_def sha_bits_def sha_pend_def n_def absorb_block leftover_block
          blit_def less_imp_le)
  qed
qed

interpretation sha: block_stream sha_append sstate sha_pend sha_bits sha_good sha_chunk_ok SHA1_Transform
proof unfold_locales
  show "sha_bits c < 18446744073709551616" for c
    by (simp add: sha_bits_def bit_count_less)
qed (rule SHA1_Update_spec)

section \<open>Padding and the digest\<close>

lemma and_push_bit: "w AND push_bit n m = push_bit n (drop_bit n w AND (m :: u32))"
  by (rule bit_word_eqI) (auto simp: bit_and_iff bit_push_bit_iff bit_drop_bit_eq)

lemma and_504: "(w :: u32) AND 504 = 448 \<longleftrightarrow> unat w div 8 mod 64 = 56"
proof -
  have "w AND 504 = push_bit 3 (drop_bit 3 w AND 63)"
    using and_push_bit [of w 3 63] by simp
  then have "unat (w AND 504) = 8 * (unat w div 8 mod 64)"
    by (simp only: unat_push3 unat_offset) simp
  moreover have "w AND 504 = 448 \<longleftrightarrow> unat (w AND 504) = unat (448 :: u32)"
    by (simp only: word_unat_eq_iff)
  ultimately show ?thesis by auto
qed

lemma SHA1_Final_pad_spec:
  assumes "sha_good c" and "z = (120 - length (sha_pend c)) mod 64"
  shows "\<exists>c'. SHA1_Final_pad c = Some c' \<and> sha.consumed c c' (replicate z 0)"
  using assms
proof (induction z arbitrary: c)
  case 0
  have "length (sha_pend c) < 64" using "0.prems" by (simp add: length_sha_pend)
  with "0.prems"(2) have "length (sha_pend c) = 56" by (auto simp: mod_if split: if_splits)
  then have "scount0 c AND 504 = 448"
    using "0.prems"(1) by (simp add: and_504 length_sha_pend sha_bits_def bit_count_offset)
  then show ?case
    using sha.consumed_Nil [of c] "0.prems"(1) \<open>length (sha_pend c) < 64\<close>
    by (simp add: SHA1_Final_pad.simps)
next
  case (Suc z)
  have p: "length (sha_pend c) < 64" using Suc.prems by (simp add: length_sha_pend)
  with Suc.prems(2) have p56: "length (sha_pend c) \<noteq> 56" by auto
  then have c: "scount0 c AND 504 \<noteq> 448"
    using Suc.prems(1) by (simp add: and_504 length_sha_pend sha_bits_def bit_count_offset)
  obtain c1 where c1: "SHA1_Update c [0] 1 = Some c1" "sha.consumed c c1 [0]"
    using sha.upd_consumed [of c "[0]"] Suc.prems(1) by (auto simp: sha_chunk_ok_def sha_append_def)
  have g1: "sha_good c1" and "length (sha_pend c1) = Suc (length (sha_pend c)) mod 64"
    using c1(2) by (simp_all add: sha.consumed_def length_leftover)
  with p p56 Suc.prems(2) have "z = (120 - length (sha_pend c1)) mod 64"
    by (auto simp: mod_if split: if_splits)
  from Suc.IH [OF g1 this] obtain c2 where "SHA1_Final_pad c1 = Some c2" "sha.consumed c1 c2 (replicate z 0)"
    by blast
  with c c1 show ?case
    using sha.consumed_trans [OF c1(2)] by (auto simp: SHA1_Final_pad.simps [of c])
qed

lemma length_sha_compress [simp]: "length (sha_compress H b) = 5"
  by (simp add: sha_compress_def split: prod.splits)

lemma length_absorb_sha: "length H = 5 \<Longrightarrow> length (absorb sha_compress H m) = 5"
proof (induction "sha_compress" H m rule: absorb.induct)
  case (1 s xs)
  then show ?case by (subst absorb.simps) simp
qed

lemma absorb_Transform: "absorb SHA1_Transform H m = absorb sha_compress H m"
proof (induction "sha_compress" H m rule: absorb.induct)
  case (1 s xs)
  then show ?case
    using SHA1_Transform_compress [of "take 64 xs" s]
    by (subst (1 2) absorb.simps) (simp del: SHA1_Transform_take)
qed


lemma sha_lists:
  "[0..<8] = [0, 1, 2, 3, 4, 5, 6, 7 :: nat]"
  "[0..<20] = [0, 1, 2, 3, 4, 5, 6, 7, 8, 9, 10, 11, 12, 13, 14, 15, 16, 17, 18, 19 :: nat]"
  by code_simp+

lemma finalcount_bytes:
  "map (\<lambda>i. ucast (drop_bit ((3 - (i AND 3)) * 8) (if 4 \<le> i then lo else hi) AND 255)) [0..<8]
   = be_bytes hi @ be_bytes lo"
  unfolding sha_lists by (simp add: be_bytes_def le_bytes_def ucast_255)

lemma digest_bytes:
  assumes "length H = 5"
  shows "map (\<lambda>i. ucast (drop_bit ((3 - (i AND 3)) * 8) (H ! drop_bit 2 i) AND 255)) [0..<20]
    = concat (map be_bytes H)"
proof -
  obtain a b c d e where "H = [a, b, c, d, e]"
    using assms by (auto simp: length_Suc_conv numeral_eq_Suc)
  then show ?thesis
    unfolding sha_lists by (simp add: be_bytes_def le_bytes_def ucast_255)
qed

lemma sha_pad_zeros: "(120 - Suc n mod 64) mod 64 = (119 - n mod 64) mod (64 :: nat)"
  by (auto simp: mod_Suc)

definition sha_wiped :: sha_ctx where
  "sha_wiped = \<lparr>sstate = replicate 5 0, scount0 = 0, scount1 = 0, sbuffer = replicate 64 0\<rparr>"

lemma SHA1_Final_spec:
  assumes "sha.consumed (SHA1_Init c0) c m" and "sha_good c0"
  shows "SHA1_Final c = Some (sha_digest m, sha_wiped)"
proof -
  have init: "sha_pend (SHA1_Init c0) = []" "sha_bits (SHA1_Init c0) = 0"
    by (simp_all add: sha_pend_def sha_bits_def SHA1_Init_def bit_count_def)
  have g: "sha_good c" and pend: "sha_pend c = leftover m"
    and bits: "sha_bits c = (8 * length m) mod 18446744073709551616"
    using assms(1) init by (simp_all add: sha.consumed_def)
  obtain c1 where c1: "SHA1_Update c [0x80] 1 = Some c1" "sha.consumed c c1 [0x80]"
    using sha.upd_consumed [OF g, of "[0x80]"] by (auto simp: sha_chunk_ok_def sha_append_def)
  then have "length (sha_pend c1) = Suc (length m) mod 64" and g1: "sha_good c1"
    by (simp_all add: sha.consumed_def length_leftover pend mod_Suc_eq)
  then have z: "(119 - length m mod 64) mod 64 = (120 - length (sha_pend c1)) mod 64"
    by (simp add: sha_pad_zeros)
  obtain c2 where c2: "SHA1_Final_pad c1 = Some c2"
      "sha.consumed c1 c2 (replicate ((119 - length m mod 64) mod 64) 0)"
    using SHA1_Final_pad_spec [OF g1 z] by blast
  define fin where "fin = be_bytes (scount1 c) @ be_bytes (scount0 c)"
  have fin: "fin = be_bytes (word_of_nat (8 * length m div 4294967296)) @ be_bytes (word_of_nat (8 * length m))"
    using word_of_bit_count [OF bits [unfolded sha_bits_def]] by (simp add: fin_def)
  have lfin: "length fin = 8" by (simp add: fin_def be_bytes_def le_bytes_def)
  obtain c3 where c3: "SHA1_Update c2 fin 8 = Some c3" "sha.consumed c2 c3 fin"
    using sha.upd_consumed [of c2 fin] c2(2) lfin by (auto simp: sha_chunk_ok_def sha_append_def sha.consumed_def)
  have "sha.consumed (SHA1_Init c0) c3 (sha_pad m)"
    using sha.consumed_trans [OF sha.consumed_trans [OF sha.consumed_trans [OF assms(1) c1(2)] c2(2)] c3(2)]
    by (simp add: sha_pad_def fin)
  then have "sstate c3 = absorb sha_compress
     [0x67452301, 0xEFCDAB89, 0x98BADCFE, 0x10325476, 0xC3D2E1F0] (sha_pad m)"
    by (simp add: sha.consumed_def init absorb_Transform) (simp add: SHA1_Init_def)
  then show ?thesis
    using c1(1) c2(1) c3(1) digest_bytes [of "sstate c3"]
    by (simp add: SHA1_Final_def finalcount_bytes fin_def Let_def sha_digest_def sha_wiped_def length_absorb_sha)
qed

lemma sha1_spec:
  assumes "length (sbuffer c) = 64" and "\<forall>d \<in> set ds. length d < 4294967232"
  shows "Option.bind (feed (\<lambda>c d. SHA1_Update c d (word_of_nat (length d))) (SHA1_Init c) ds) SHA1_Final
    = Some (sha_digest (concat ds), sha_wiped)"
proof -
  have g: "sha_good (SHA1_Init c)" "sha_good c" "length (sha_pend (SHA1_Init c)) < 64"
    using assms(1) by (simp_all add: sha_good_def SHA1_Init_def sha_pend_def)
  have "sha_append = (\<lambda>c d. SHA1_Update c d (word_of_nat (length d)))"
    by (intro ext) (simp add: sha_append_def)
  with sha.feed_consumed [OF g(1,3), of ds] assms(2) SHA1_Final_spec [OF _ g(2)]
  show ?thesis by (fastforce simp: sha_chunk_ok_def)
qed

text \<open>C27: SHA-1 is correct and independent of the chunking. A message fed to \<open>SHA1_Update\<close> in any
  chunks of less than \<open>2^32 - 64\<close> bytes, with \<open>SHA1_Final\<close> at the end, gives the FIPS 180-1
  digest of the concatenated message: no call reads out of its buffers, the padding loop
  ends, and the context is wiped.\<close>

theorem sha1_correct:
  assumes "length (sbuffer c) = 64" and "\<forall>d \<in> set ds. length d < 4294967232"
  shows "Option.bind (feed (\<lambda>c d. SHA1_Update c d (word_of_nat (length d))) (SHA1_Init c) ds) SHA1_Final
    = Some (sha_digest (concat ds), sha_wiped)"
  using assms by (rule sha1_spec)

theorem sha1_correct_witness:
  "Option.bind (feed (\<lambda>c d. SHA1_Update c d (word_of_nat (length d)))
      (SHA1_Init \<lparr>sstate = [], scount0 = 7, scount1 = 0, sbuffer = replicate 64 0\<rparr>)
      [[97], [98, 99]]) SHA1_Final
    = Some (sha_digest [97, 98, 99], sha_wiped)"
  using sha1_correct [of "\<lparr>sstate = [], scount0 = 7, scount1 = 0, sbuffer = replicate 64 0\<rparr>" "[[97], [98, 99]]"]
  by simp

end
