(* ===== verification/Md5.thy ===== *)
theory Md5
  imports Block_Stream
begin

text \<open>
  MD5 as \<^verbatim>\<open>md5.inl\<close> computes it for digest authentication: the constants written through
  \<open>T_MASK\<close>, the 64 unrolled operations on the words of a block, and the append and finish
  routines. The reference is RFC 1321: its table, its index and shift schedule, and one
  padded message.
\<close>

section \<open>The code\<close>

record md5_state =
  mcount0 :: u32
  mcount1 :: u32
  abcd :: "u32 list"
  mbuf :: "byte list"

definition T_MASK :: u32 where
  "T_MASK = NOT 0"

text \<open>The constants \<open>T1\<close> to \<open>T64\<close>; \<open>md5_T n\<close> is the constant \<open>Tn\<close>.\<close>

definition md5_constants :: "u32 list" where
  "md5_constants = [
     T_MASK XOR 0x28955b87, T_MASK XOR 0x173848a9, 0x242070db,
     T_MASK XOR 0x3e423111, T_MASK XOR 0x0a83f050, 0x4787c62a,
     T_MASK XOR 0x57cfb9ec, T_MASK XOR 0x02b96afe, 0x698098d8,
     T_MASK XOR 0x74bb0850, T_MASK XOR 0x0000a44e, T_MASK XOR 0x76a32841,
     0x6b901122, T_MASK XOR 0x02678e6c, T_MASK XOR 0x5986bc71,
     0x49b40821, T_MASK XOR 0x09e1da9d, T_MASK XOR 0x3fbf4cbf,
     0x265e5a51, T_MASK XOR 0x16493855, T_MASK XOR 0x29d0efa2,
     0x02441453, T_MASK XOR 0x275e197e, T_MASK XOR 0x182c0437,
     0x21e1cde6, T_MASK XOR 0x3cc8f829, T_MASK XOR 0x0b2af278,
     0x455a14ed, T_MASK XOR 0x561c16fa, T_MASK XOR 0x03105c07,
     0x676f02d9, T_MASK XOR 0x72d5b375, T_MASK XOR 0x0005c6bd,
     T_MASK XOR 0x788e097e, 0x6d9d6122, T_MASK XOR 0x021ac7f3,
     T_MASK XOR 0x5b4115bb, 0x4bdecfa9, T_MASK XOR 0x0944b49f,
     T_MASK XOR 0x4140438f, 0x289b7ec6, T_MASK XOR 0x155ed805,
     T_MASK XOR 0x2b10cf7a, 0x04881d05, T_MASK XOR 0x262b2fc6,
     T_MASK XOR 0x1924661a, 0x1fa27cf8, T_MASK XOR 0x3b53a99a,
     T_MASK XOR 0x0bd6ddbb, 0x432aff97, T_MASK XOR 0x546bdc58,
     T_MASK XOR 0x036c5fc6, 0x655b59c3, T_MASK XOR 0x70f3336d,
     T_MASK XOR 0x00100b82, T_MASK XOR 0x7a7ba22e, 0x6fa87e4f,
     T_MASK XOR 0x01d3191f, T_MASK XOR 0x5cfebceb, 0x4e0811a1,
     T_MASK XOR 0x08ac817d, T_MASK XOR 0x42c50dca, 0x2ad7d2bb,
     T_MASK XOR 0x14792c6e]"

definition md5_T :: "nat \<Rightarrow> u32" where
  "md5_T n = md5_constants ! (n - 1)"

definition ROTATE_LEFT :: "u32 \<Rightarrow> nat \<Rightarrow> u32" where
  "ROTATE_LEFT x n = push_bit n x OR drop_bit (32 - n) x"

datatype md5_var = MA | MB | MC | MD

type_synonym md5_regs = "md5_var \<Rightarrow> u32"

text \<open>The four \<open>SET\<close> macros with their round functions.\<close>

definition SET_F :: "md5_var \<Rightarrow> md5_var \<Rightarrow> md5_var \<Rightarrow> md5_var \<Rightarrow> nat \<Rightarrow> nat \<Rightarrow> nat \<Rightarrow> u32 list \<Rightarrow> md5_regs \<Rightarrow> md5_regs" where
  "SET_F a b c d k s n X r =
     (let t = r a + ((r b AND r c) OR (NOT (r b) AND r d)) + X ! k + md5_T n
      in r(a := ROTATE_LEFT t s + r b))"

definition SET_G :: "md5_var \<Rightarrow> md5_var \<Rightarrow> md5_var \<Rightarrow> md5_var \<Rightarrow> nat \<Rightarrow> nat \<Rightarrow> nat \<Rightarrow> u32 list \<Rightarrow> md5_regs \<Rightarrow> md5_regs" where
  "SET_G a b c d k s n X r =
     (let t = r a + ((r b AND r d) OR (r c AND NOT (r d))) + X ! k + md5_T n
      in r(a := ROTATE_LEFT t s + r b))"

definition SET_H :: "md5_var \<Rightarrow> md5_var \<Rightarrow> md5_var \<Rightarrow> md5_var \<Rightarrow> nat \<Rightarrow> nat \<Rightarrow> nat \<Rightarrow> u32 list \<Rightarrow> md5_regs \<Rightarrow> md5_regs" where
  "SET_H a b c d k s n X r =
     (let t = r a + (r b XOR r c XOR r d) + X ! k + md5_T n
      in r(a := ROTATE_LEFT t s + r b))"

definition SET_I :: "md5_var \<Rightarrow> md5_var \<Rightarrow> md5_var \<Rightarrow> md5_var \<Rightarrow> nat \<Rightarrow> nat \<Rightarrow> nat \<Rightarrow> u32 list \<Rightarrow> md5_regs \<Rightarrow> md5_regs" where
  "SET_I a b c d k s n X r =
     (let t = r a + (r c XOR (r b OR NOT (r d))) + X ! k + md5_T n
      in r(a := ROTATE_LEFT t s + r b))"

definition md5_ops :: "(u32 list \<Rightarrow> md5_regs \<Rightarrow> md5_regs) list" where
  "md5_ops = [
     SET_F MA MB MC MD 0 7 1, SET_F MD MA MB MC 1 12 2, SET_F MC MD MA MB 2 17 3,
     SET_F MB MC MD MA 3 22 4, SET_F MA MB MC MD 4 7 5, SET_F MD MA MB MC 5 12 6,
     SET_F MC MD MA MB 6 17 7, SET_F MB MC MD MA 7 22 8, SET_F MA MB MC MD 8 7 9,
     SET_F MD MA MB MC 9 12 10, SET_F MC MD MA MB 10 17 11, SET_F MB MC MD MA 11 22 12,
     SET_F MA MB MC MD 12 7 13, SET_F MD MA MB MC 13 12 14, SET_F MC MD MA MB 14 17 15,
     SET_F MB MC MD MA 15 22 16, SET_G MA MB MC MD 1 5 17, SET_G MD MA MB MC 6 9 18,
     SET_G MC MD MA MB 11 14 19, SET_G MB MC MD MA 0 20 20, SET_G MA MB MC MD 5 5 21,
     SET_G MD MA MB MC 10 9 22, SET_G MC MD MA MB 15 14 23, SET_G MB MC MD MA 4 20 24,
     SET_G MA MB MC MD 9 5 25, SET_G MD MA MB MC 14 9 26, SET_G MC MD MA MB 3 14 27,
     SET_G MB MC MD MA 8 20 28, SET_G MA MB MC MD 13 5 29, SET_G MD MA MB MC 2 9 30,
     SET_G MC MD MA MB 7 14 31, SET_G MB MC MD MA 12 20 32, SET_H MA MB MC MD 5 4 33,
     SET_H MD MA MB MC 8 11 34, SET_H MC MD MA MB 11 16 35, SET_H MB MC MD MA 14 23 36,
     SET_H MA MB MC MD 1 4 37, SET_H MD MA MB MC 4 11 38, SET_H MC MD MA MB 7 16 39,
     SET_H MB MC MD MA 10 23 40, SET_H MA MB MC MD 13 4 41, SET_H MD MA MB MC 0 11 42,
     SET_H MC MD MA MB 3 16 43, SET_H MB MC MD MA 6 23 44, SET_H MA MB MC MD 9 4 45,
     SET_H MD MA MB MC 12 11 46, SET_H MC MD MA MB 15 16 47, SET_H MB MC MD MA 2 23 48,
     SET_I MA MB MC MD 0 6 49, SET_I MD MA MB MC 7 10 50, SET_I MC MD MA MB 14 15 51,
     SET_I MB MC MD MA 5 21 52, SET_I MA MB MC MD 12 6 53, SET_I MD MA MB MC 3 10 54,
     SET_I MC MD MA MB 10 15 55, SET_I MB MC MD MA 1 21 56, SET_I MA MB MC MD 8 6 57,
     SET_I MD MA MB MC 15 10 58, SET_I MC MD MA MB 6 15 59, SET_I MB MC MD MA 13 21 60,
     SET_I MA MB MC MD 4 6 61, SET_I MD MA MB MC 11 10 62, SET_I MC MD MA MB 2 15 63,
     SET_I MB MC MD MA 9 21 64]"

text \<open>On the little-endian target the words are read from the data as they are.\<close>

definition md5_process :: "md5_state \<Rightarrow> byte list \<Rightarrow> md5_state" where
  "md5_process pms data =
     (let r0 = (\<lambda>v. case v of MA \<Rightarrow> abcd pms ! 0 | MB \<Rightarrow> abcd pms ! 1 | MC \<Rightarrow> abcd pms ! 2 | MD \<Rightarrow> abcd pms ! 3);
          X = le_words (take 64 data);
          r = fold (\<lambda>f. f X) md5_ops r0
      in pms\<lparr>abcd := [abcd pms ! 0 + r MA, abcd pms ! 1 + r MB, abcd pms ! 2 + r MC, abcd pms ! 3 + r MD]\<rparr>)"

definition md5_init :: "md5_state \<Rightarrow> md5_state" where
  "md5_init pms = pms\<lparr>mcount0 := 0, mcount1 := 0,
     abcd := [0x67452301, T_MASK XOR 0x10325476, T_MASK XOR 0x67452301, 0x10325476]\<rparr>"

text \<open>The loop over full blocks and the copy of the rest: the tail of \<open>md5_append\<close>.\<close>

function md5_append_blocks :: "md5_state \<Rightarrow> byte list \<Rightarrow> nat \<Rightarrow> md5_state" where
  "md5_append_blocks pms p left =
     (if 64 \<le> left then md5_append_blocks (md5_process pms p) (drop 64 p) (left - 64)
      else if left \<noteq> 0 then pms\<lparr>mbuf := blit (mbuf pms) 0 (take left p)\<rparr>
      else pms)"
  by pat_completeness auto
termination
  by (relation "measure (\<lambda>(pms, p, left). left)") auto

declare md5_append_blocks.simps [simp del]

text \<open>\<open>nbytes\<close> is a \<open>size_t\<close>, the size of an object in memory.\<close>

definition md5_append :: "md5_state \<Rightarrow> byte list \<Rightarrow> nat \<Rightarrow> md5_state" where
  "md5_append pms data nbytes =
     (let left = nbytes;
          offset = unat (drop_bit 3 (mcount0 pms) AND 63);
          nbits = word_of_nat (nbytes * 8)
      in if nbytes = 0 then pms
      else
        let pms = pms\<lparr>mcount1 := mcount1 pms + word_of_nat (nbytes div 2 ^ 29)\<rparr>;
            pms = pms\<lparr>mcount0 := mcount0 pms + nbits\<rparr>;
            pms = (if mcount0 pms < nbits then pms\<lparr>mcount1 := mcount1 pms + 1\<rparr> else pms)
        in if offset \<noteq> 0
           then let copy = (if 64 < offset + nbytes then 64 - offset else nbytes);
                    pms = pms\<lparr>mbuf := blit (mbuf pms) offset (take copy data)\<rparr>
                in if offset + copy < 64 then pms
                   else md5_append_blocks (md5_process pms (mbuf pms)) (drop copy data) (left - copy)
           else md5_append_blocks pms data left)"

definition md5_finish :: "md5_state \<Rightarrow> byte list \<times> md5_state" where
  "md5_finish pms =
     (let pad = 0x80 # replicate 63 0;
          data = map (\<lambda>i. ucast (drop_bit (push_bit 3 (i AND 3))
                  (if drop_bit 2 i = 0 then mcount0 pms else mcount1 pms))) [0..<8];
          pms = md5_append pms pad (unat ((55 - drop_bit 3 (mcount0 pms)) AND 63) + 1);
          pms = md5_append pms data 8;
          digest = map (\<lambda>i. ucast (drop_bit (push_bit 3 (i AND 3)) (abcd pms ! drop_bit 2 i))) [0..<16]
      in (digest, pms))"

section \<open>The reference: RFC 1321\<close>

definition rfc_T :: "u32 list" where
  "rfc_T = [
     0xd76aa478, 0xe8c7b756, 0x242070db, 0xc1bdceee, 0xf57c0faf, 0x4787c62a,
     0xa8304613, 0xfd469501, 0x698098d8, 0x8b44f7af, 0xffff5bb1, 0x895cd7be,
     0x6b901122, 0xfd987193, 0xa679438e, 0x49b40821, 0xf61e2562, 0xc040b340,
     0x265e5a51, 0xe9b6c7aa, 0xd62f105d, 0x02441453, 0xd8a1e681, 0xe7d3fbc8,
     0x21e1cde6, 0xc33707d6, 0xf4d50d87, 0x455a14ed, 0xa9e3e905, 0xfcefa3f8,
     0x676f02d9, 0x8d2a4c8a, 0xfffa3942, 0x8771f681, 0x6d9d6122, 0xfde5380c,
     0xa4beea44, 0x4bdecfa9, 0xf6bb4b60, 0xbebfbc70, 0x289b7ec6, 0xeaa127fa,
     0xd4ef3085, 0x04881d05, 0xd9d4d039, 0xe6db99e5, 0x1fa27cf8, 0xc4ac5665,
     0xf4292244, 0x432aff97, 0xab9423a7, 0xfc93a039, 0x655b59c3, 0x8f0ccc92,
     0xffeff47d, 0x85845dd1, 0x6fa87e4f, 0xfe2ce6e0, 0xa3014314, 0x4e0811a1,
     0xf7537e82, 0xbd3af235, 0x2ad7d2bb, 0xeb86d391]"

definition rfc_f :: "nat \<Rightarrow> u32 \<Rightarrow> u32 \<Rightarrow> u32 \<Rightarrow> u32" where
  "rfc_f i x y z =
     (if i < 16 then (x AND y) OR (NOT x AND z)
      else if i < 32 then (x AND z) OR (y AND NOT z)
      else if i < 48 then x XOR y XOR z
      else y XOR (x OR NOT z))"

definition rfc_k :: "nat \<Rightarrow> nat" where
  "rfc_k i = (if i < 16 then i else if i < 32 then (5 * i + 1) mod 16
              else if i < 48 then (3 * i + 5) mod 16 else 7 * i mod 16)"

definition rfc_s :: "nat \<Rightarrow> nat" where
  "rfc_s i = (if i < 16 then [7, 12, 17, 22] else if i < 32 then [5, 9, 14, 20]
              else if i < 48 then [4, 11, 16, 23] else [6, 10, 15, 21]) ! (i mod 4)"

fun rfc_step :: "u32 list \<Rightarrow> nat \<Rightarrow> u32 \<times> u32 \<times> u32 \<times> u32 \<Rightarrow> u32 \<times> u32 \<times> u32 \<times> u32" where
  "rfc_step X i (a, b, c, d) =
     (d, b + word_rotl (rfc_s i) (a + rfc_f i b c d + X ! rfc_k i + rfc_T ! i), b, c)"

definition md5_compress :: "u32 list \<Rightarrow> byte list \<Rightarrow> u32 list" where
  "md5_compress H block =
     (case fold (rfc_step (le_words (take 64 block))) [0..<64] (H ! 0, H ! 1, H ! 2, H ! 3) of
        (a, b, c, d) \<Rightarrow> [H ! 0 + a, H ! 1 + b, H ! 2 + c, H ! 3 + d])"

definition md5_pad :: "byte list \<Rightarrow> byte list" where
  "md5_pad m = m @ [0x80] @ replicate ((119 - length m mod 64) mod 64) 0
     @ le_bytes (word_of_nat (8 * length m)) @ le_bytes (word_of_nat (8 * length m div 4294967296))"

definition md5_digest :: "byte list \<Rightarrow> byte list" where
  "md5_digest m = concat (map le_bytes (absorb md5_compress
     [0x67452301, 0xefcdab89, 0x98badcfe, 0x10325476] (md5_pad m)))"

section \<open>One block\<close>

definition mrot :: "nat \<Rightarrow> md5_var \<times> md5_var \<times> md5_var \<times> md5_var" where
  "mrot i = (if i mod 4 = 0 then (MA, MB, MC, MD)
             else if i mod 4 = 1 then (MD, MA, MB, MC)
             else if i mod 4 = 2 then (MC, MD, MA, MB)
             else (MB, MC, MD, MA))"

definition md5_op :: "nat \<Rightarrow> u32 list \<Rightarrow> md5_regs \<Rightarrow> md5_regs" where
  "md5_op i = (case mrot i of (a, b, c, d) \<Rightarrow>
     (if i < 16 then SET_F else if i < 32 then SET_G else if i < 48 then SET_H else SET_I)
       a b c d (rfc_k i) (rfc_s i) (i + 1))"

lemma upt_64:
  "[0..<64] = [
     0, 1, 2, 3, 4, 5, 6, 7, 8, 9, 10, 11, 12, 13, 14, 15, 16, 17, 18, 19, 20, 21, 22, 23,
     24, 25, 26, 27, 28, 29, 30, 31, 32, 33, 34, 35, 36, 37, 38, 39, 40, 41, 42, 43, 44, 45,
     46, 47, 48, 49, 50, 51, 52, 53, 54, 55, 56, 57, 58, 59, 60, 61, 62, 63]"
  by code_simp

lemma md5_ops_eq: "md5_ops = map md5_op [0..<64]"
  unfolding upt_64 by (simp add: md5_ops_def md5_op_def mrot_def rfc_k_def rfc_s_def del: One_nat_def)

text \<open>The constants written with \<open>T_MASK\<close> are the table of the RFC.\<close>

lemma md5_constants_rfc: "md5_constants = rfc_T"
  by (simp add: md5_constants_def rfc_T_def T_MASK_def)

lemma md5_T_rfc: "md5_T (i + 1) = rfc_T ! i"
  by (simp add: md5_T_def md5_constants_rfc)

lemma ROTATE_LEFT_rotl:
  assumes "0 < n" "n < 32"
  shows "ROTATE_LEFT x n = word_rotl n x"
proof (rule bit_word_eqI)
  fix k assume "k < LENGTH(32)"
  then have k: "k < 32" by simp
  have rot: "bit (word_rotl n x) k \<longleftrightarrow> bit x ((k + (32 - n)) mod 32)"
    unfolding bit_word_rotl_iff using assms k by simp
  have left: "bit (ROTATE_LEFT x n) k \<longleftrightarrow> n \<le> k \<and> bit x (k - n) \<or> bit x (32 - n + k)"
    unfolding ROTATE_LEFT_def bit_or_iff bit_push_bit_iff bit_drop_bit_eq o_def using k by simp
  have out: "\<not> bit x j" if "32 \<le> j" for j
    using that bit_imp_le_length [of x j] by auto
  show "bit (ROTATE_LEFT x n) k = bit (word_rotl n x) k"
  proof (cases "n \<le> k")
    case True
    with assms k have "(k + (32 - n)) mod 32 = k - n" "32 \<le> 32 - n + k" by (simp_all add: mod_if)
    with True out show ?thesis unfolding rot left by simp
  next
    case False
    with assms k have "(k + (32 - n)) mod 32 = 32 - n + k" by simp
    with False show ?thesis unfolding rot left by simp
  qed
qed

lemma rfc_s_range: "0 < rfc_s i \<and> rfc_s i < 32"
proof -
  have "i mod 4 \<in> {0, 1, 2, 3}" by auto
  then show ?thesis by (auto simp: rfc_s_def)
qed

lemma mrot_Suc: "mrot i = (a, b, c, d) \<Longrightarrow> mrot (Suc i) = (d, a, b, c)"
  by (auto simp: mrot_def mod_Suc split: if_splits)

lemma mrot_distinct: "mrot i = (a, b, c, d) \<Longrightarrow> distinct [a, b, c, d]"
  by (auto simp: mrot_def split: if_splits)

definition md5_inv :: "nat \<Rightarrow> md5_regs \<Rightarrow> u32 \<times> u32 \<times> u32 \<times> u32 \<Rightarrow> bool" where
  "md5_inv i r regs \<longleftrightarrow> (case mrot i of (a, b, c, d) \<Rightarrow> regs = (r a, r b, r c, r d))"

lemma md5_op_rfc:
  assumes "mrot i = (a, b, c, d)"
  shows "md5_op i X r = r(a := word_rotl (rfc_s i) (r a + rfc_f i (r b) (r c) (r d) + X ! rfc_k i + rfc_T ! i) + r b)"
  using rfc_s_range [of i]
  by (simp add: md5_op_def assms SET_F_def SET_G_def SET_H_def SET_I_def rfc_f_def ROTATE_LEFT_rotl
      md5_T_rfc [simplified])

lemma md5_inv_step:
  assumes "md5_inv i r regs"
  shows "md5_inv (Suc i) (md5_op i X r) (rfc_step X i regs)"
proof -
  obtain a b c d where m: "mrot i = (a, b, c, d)" by (cases "mrot i") auto
  from mrot_distinct [OF m] mrot_Suc [OF m] md5_op_rfc [OF m] assms m show ?thesis
    by (auto simp: md5_inv_def add.commute)
qed

lemma md5_inv_fold:
  assumes "md5_inv 0 r regs"
  shows "md5_inv n (fold (\<lambda>i. md5_op i X) [0..<n] r) (fold (rfc_step X) [0..<n] regs)"
  using assms by (induction n) (simp_all add: md5_inv_step)

lemma md5_process_compress: "md5_process pms data = pms\<lparr>abcd := md5_compress (abcd pms) data\<rparr>"
proof -
  define X where "X = le_words (take 64 data)"
  define H where "H = abcd pms"
  define r where "r = (\<lambda>v. case v of MA \<Rightarrow> H ! 0 | MB \<Rightarrow> H ! 1 | MC \<Rightarrow> H ! 2 | MD \<Rightarrow> H ! 3)"
  have "md5_inv 0 r (H ! 0, H ! 1, H ! 2, H ! 3)" by (simp add: md5_inv_def mrot_def r_def)
  from md5_inv_fold [OF this, of 64 X]
  have "md5_inv 64 (fold (\<lambda>i. md5_op i X) [0..<64] r) (fold (rfc_step X) [0..<64] (H ! 0, H ! 1, H ! 2, H ! 3))" .
  moreover have "fold (\<lambda>f. f X) md5_ops = fold (\<lambda>i. md5_op i X) [0..<64]"
    by (simp add: md5_ops_eq fold_map o_def)
  ultimately have inv: "md5_inv 64 (fold (\<lambda>f. f X) md5_ops r)
      (fold (rfc_step X) [0..<64] (H ! 0, H ! 1, H ! 2, H ! 3))" by simp
  show ?thesis
    unfolding md5_process_def md5_compress_def Let_def X_def [symmetric] H_def [symmetric] r_def [symmetric]
    using inv by (simp add: md5_inv_def mrot_def)
qed

section \<open>The context\<close>

definition md5_good :: "md5_state \<Rightarrow> bool" where
  "md5_good c \<longleftrightarrow> length (mbuf c) = 64"

definition md5_pend :: "md5_state \<Rightarrow> byte list" where
  "md5_pend c = take (unat (drop_bit 3 (mcount0 c) AND 63)) (mbuf c)"

definition md5_bits :: "md5_state \<Rightarrow> nat" where
  "md5_bits c = bit_count (mcount0 c) (mcount1 c)"

definition md5_feed :: "md5_state \<Rightarrow> byte list \<Rightarrow> md5_state option" where
  "md5_feed c d = Some (md5_append c d (length d))"

lemma length_md5_pend: "md5_good c \<Longrightarrow> length (md5_pend c) = md5_bits c div 8 mod 64"
  by (simp add: md5_pend_def md5_good_def md5_bits_def bit_count_offset unat_offset)

lemma md5_compress_take [simp]: "md5_compress H (take 64 b) = md5_compress H b"
  by (simp add: md5_compress_def)

lemma md5_append_blocks_spec:
  assumes "left = length p" "length (mbuf pms) = 64"
  shows "md5_append_blocks pms p left
    = pms\<lparr>abcd := absorb md5_compress (abcd pms) p, mbuf := blit (mbuf pms) 0 (leftover p)\<rparr>"
  using assms
proof (induction pms p left rule: md5_append_blocks.induct)
  case (1 pms p left)
  show ?case
  proof (cases "64 \<le> left")
    case True
    then have "absorb md5_compress H p = absorb md5_compress (md5_compress H p) (drop 64 p)" for H
      using "1.prems" by (subst absorb.simps) simp
    moreover have "leftover p = leftover (drop 64 p)"
      using True "1.prems" leftover_block [of "take 64 p" "drop 64 p"] by simp
    ultimately show ?thesis
      using True 1 by (subst md5_append_blocks.simps) (simp add: md5_process_compress)
  next
    case False
    then show ?thesis
      using "1.prems" by (subst md5_append_blocks.simps) (auto simp: blit_def)
  qed
qed

lemma md5_append_spec:
  assumes good: "md5_good c"
  shows "\<exists>c'. md5_feed c d = Some c' \<and> md5_good c'
    \<and> abcd c' = absorb md5_compress (abcd c) (md5_pend c @ d)
    \<and> md5_pend c' = leftover (md5_pend c @ d)
    \<and> md5_bits c' = (md5_bits c + 8 * length d) mod 18446744073709551616"
proof -
  define n where "n = length d"
  define p where "p = unat (drop_bit 3 (mcount0 c) AND 63)"
  define nb :: u32 where "nb = word_of_nat (n * 8)"
  define c0 where "c0 = mcount0 c + nb"
  define c1 where "c1 = mcount1 c + word_of_nat (n div 536870912) + (if c0 < nb then 1 else 0)"
  define ctx where "ctx = c\<lparr>mcount0 := c0, mcount1 := c1\<rparr>"
  have p: "p < 64" "p = length (md5_pend c)" and pend: "md5_pend c = take p (mbuf c)"
    and buf: "length (mbuf c) = 64"
    using good by (simp_all add: p_def unat_offset md5_pend_def md5_good_def)
  have "unat nb = (8 * n) mod 4294967296"
    unfolding nb_def unat_of_nat by (simp add: mult.commute)
  then have bits: "bit_count c0 c1 = (md5_bits c + 8 * n) mod 18446744073709551616"
    using bit_count_add [of nb n "mcount0 c" "mcount1 c"] by (simp add: c0_def c1_def md5_bits_def)
  have off: "unat (drop_bit 3 c0 AND 63) = (p + n) mod 64"
    using bits bit_count_offset [of c0 c1] offset_add [of "md5_bits c" n] p(2) length_md5_pend [OF good]
    by (simp add: unat_offset)
  show ?thesis
  proof (cases "n = 0")
    case True
    then have "md5_append c d (length d) = c" "d = []" by (simp_all add: md5_append_def n_def)
    with p buf show ?thesis
      using bit_count_less [of "mcount0 c" "mcount1 c"] by (simp add: md5_feed_def md5_good_def md5_bits_def)
  next
    case n0: False
    define copy where "copy = (if 64 < p + n then 64 - p else n)"
    define bb where "bb = blit (mbuf c) p (take copy d)"
    have comm: "c\<lparr>mcount1 := a, mcount0 := b\<rparr> = c\<lparr>mcount0 := b, mcount1 := a\<rparr>" for a b
      by (cases c) simp
    have app: "md5_append c d n =
      (if p \<noteq> 0
       then if p + copy < 64 then ctx\<lparr>mbuf := bb\<rparr>
            else md5_append_blocks (md5_process (ctx\<lparr>mbuf := bb\<rparr>) bb) (drop copy d) (n - copy)
       else md5_append_blocks ctx d n)"
      unfolding md5_append_def Let_def nb_def [symmetric] p_def [symmetric]
      using n0 by (simp add: ctx_def c1_def c0_def [symmetric] bb_def copy_def comm)
    have key: "\<exists>c'. md5_append c d n = c' \<and> mcount0 c' = c0 \<and> mcount1 c' = c1 \<and> length (mbuf c') = 64
        \<and> abcd c' = absorb md5_compress (abcd c) (md5_pend c @ d)
        \<and> take ((p + n) mod 64) (mbuf c') = leftover (md5_pend c @ d)"
    proof (cases "p + n < 64")
      case True
      then have "copy = n" "p \<noteq> 0 \<Longrightarrow> md5_append c d n = ctx\<lparr>mbuf := bb\<rparr>" by (simp_all add: app copy_def)
      moreover have "p = 0 \<Longrightarrow> md5_append c d n = ctx\<lparr>mbuf := blit (mbuf c) 0 d\<rparr>"
        using md5_append_blocks_spec [of n d ctx] True buf by (simp add: app [unfolded n_def] n_def ctx_def)
      ultimately have "md5_append c d n = ctx\<lparr>mbuf := blit (mbuf c) p d\<rparr>"
        by (cases "p = 0") (simp_all add: bb_def n_def)
      then show ?thesis
        using True buf p(1) take_blit [of p "mbuf c" d]
        by (simp add: ctx_def pend n_def)
    next
      case False
      define b where "b = take p (mbuf c) @ take (64 - p) d"
      have b: "length b = 64" "md5_pend c @ d = b @ drop (64 - p) d"
        using False p(1) buf by (simp_all add: b_def pend n_def)
      have cp: "copy = 64 - p" "bb = b" "p + copy = 64"
        using False p(1) buf by (auto simp: copy_def bb_def b_def blit_def n_def)
      have l: "leftover (md5_pend c @ d) = leftover (drop (64 - p) d)"
        "absorb md5_compress (abcd c) (md5_pend c @ d) = absorb md5_compress (md5_compress (abcd c) b) (drop (64 - p) d)"
        unfolding b(2) using b(1) by (simp_all add: leftover_block absorb_block)
      have m: "(p + n) mod 64 = length (leftover (md5_pend c @ d))"
        using length_leftover [of "md5_pend c @ d"] by (simp add: p(2) n_def)
      define buf' where "buf' = blit (if p = 0 then mbuf c else b) 0 (leftover (md5_pend c @ d))"
      have "md5_append c d n = ctx\<lparr>abcd := absorb md5_compress (abcd c) (md5_pend c @ d), mbuf := buf'\<rparr>"
      proof (cases "p = 0")
        case True
        with md5_append_blocks_spec [of n d ctx] buf pend show ?thesis
          by (simp add: app [unfolded n_def] n_def ctx_def buf'_def)
      next
        case False
        have "n - copy = length (drop copy d)" by (simp add: n_def)
        from md5_append_blocks_spec [OF this, of "md5_process (ctx\<lparr>mbuf := b\<rparr>) b"] False cp b(1)
        show ?thesis by (simp add: app md5_process_compress buf'_def l ctx_def)
      qed
      moreover have "length buf' = 64" "take ((p + n) mod 64) buf' = leftover (md5_pend c @ d)"
        using b(1) buf length_leftover_less [of "md5_pend c @ d"] unfolding m buf'_def
        by (simp_all add: blit_def del: length_leftover_less)
      ultimately show ?thesis by (simp add: ctx_def)
    qed
    then show ?thesis
      using bits off by (auto simp: md5_feed_def md5_good_def md5_bits_def md5_pend_def n_def)
  qed
qed

interpretation md5: block_stream md5_feed abcd md5_pend md5_bits md5_good "\<lambda>_. True" md5_compress
proof unfold_locales
  show "md5_bits c < 18446744073709551616" for c
    by (simp add: md5_bits_def bit_count_less)
qed (rule md5_append_spec)

section \<open>The digest\<close>

lemma md5_pad_length:
  "unat ((55 - drop_bit 3 (w :: u32)) AND 63) + 1 = Suc ((119 - unat w div 8 mod 64) mod 64)"
proof -
  define v where "v = unat w div 8"
  have v: "v < 536870912" using unat_u32_less [of w] by (simp add: v_def del: unat_u32_less)
  have "(x :: u32) AND 63 = take_bit 6 x" for x
    by (simp add: take_bit_eq_mask mask_eq_exp_minus_1)
  then have a: "unat ((55 - drop_bit 3 w) AND 63) = unat (55 - drop_bit 3 w) mod 64"
    by (simp add: take_bit_eq_mod unat_mod)
  have "word_of_nat (55 + (4294967296 - v)) + drop_bit 3 w = (55 :: u32)"
  proof (rule unsigned_word_eqI [where 'a = nat])
    show "unat (word_of_nat (55 + (4294967296 - v)) + drop_bit 3 w) = unat (55 :: u32)"
      unfolding unat_word_ariths unat_of_nat using v
      by (simp add: drop_bit_eq_div unat_div v_def [symmetric] mod_simps)
  qed
  then have e: "55 - drop_bit 3 w = word_of_nat (55 + (4294967296 - v))"
    by (metis add_diff_cancel_right')
  have "unat (55 - drop_bit 3 w) = (55 + (4294967296 - v)) mod 4294967296"
    unfolding e unat_of_nat by simp
  then have b: "unat (55 - drop_bit 3 w) mod 64 = (55 + (4294967296 - v)) mod 64"
    by (simp add: mod_mod_cancel)
  have "\<exists>q. v = 64 * q + v mod 64" by (metis mult_div_mod_eq)
  then obtain q where q: "v = 64 * q + v mod 64" ..
  have "55 + (4294967296 - v) = (119 - v mod 64) + 64 * (67108863 - q)"
    using v q mod_less_divisor [of 64 v] by linarith
  then have "(55 + (4294967296 - v)) mod 64 = (119 - v mod 64) mod 64"
    by (simp only: mod_mult_self2)
  with a b show ?thesis by (simp add: v_def)
qed

lemma md5_length_bytes:
  "map (\<lambda>i. ucast (drop_bit (push_bit 3 (i AND 3)) (if drop_bit 2 i = 0 then lo else hi))) [0..<8]
    = le_bytes lo @ le_bytes (hi :: u32)"
proof -
  have u: "[0..<8] = [0, 1, 2, 3, 4, 5, 6, 7 :: nat]" by code_simp
  show ?thesis unfolding u le_bytes_def by simp
qed

lemma md5_digest_bytes:
  assumes "length h = 4"
  shows "map (\<lambda>i. ucast (drop_bit (push_bit 3 (i AND 3)) (h ! drop_bit 2 i))) [0..<16]
    = concat (map le_bytes (h :: u32 list))"
proof -
  have u: "[0..<16] = [0, 1, 2, 3, 4, 5, 6, 7, 8, 9, 10, 11, 12, 13, 14, 15 :: nat]" by code_simp
  obtain a b c d where h: "h = [a, b, c, d]"
    using assms by (auto simp: length_Suc_conv eval_nat_numeral)
  show ?thesis unfolding u le_bytes_def h by simp
qed

lemma length_absorb_md5: "length H = 4 \<Longrightarrow> length (absorb md5_compress H m) = 4"
proof (induction "md5_compress" H m rule: absorb.induct)
  case (1 H m)
  have "length (md5_compress H (take 64 m)) = 4"
    unfolding md5_compress_def by (simp split: prod.split)
  with 1 show ?case by (subst absorb.simps) simp
qed

text \<open>\<open>md5_append\<close> looks only at the first \<open>nbytes\<close> bytes of its buffer.\<close>

lemma md5_process_take: "md5_process pms (take 64 p) = md5_process pms p"
  by (simp add: md5_process_compress)

lemma md5_append_blocks_take: "md5_append_blocks pms (take left p) left = md5_append_blocks pms p left"
proof (induction pms p left rule: md5_append_blocks.induct)
  case (1 pms p left)
  have "md5_process pms (take left p) = md5_process pms p" if "64 \<le> left"
    using md5_process_take [of pms p] md5_process_take [of pms "take left p"] that by (simp add: min_def)
  with 1 show ?case
    by (subst (1 2) md5_append_blocks.simps) (simp add: drop_take)
qed

lemma md5_append_take: "md5_append pms (take n p) n = md5_append pms p n"
proof -
  have m: "min k n = k" if "k \<le> n" for k using that by simp
  have d: "md5_append_blocks q (drop k (take n p)) (n - k) = md5_append_blocks q (drop k p) (n - k)" for q k
    using md5_append_blocks_take [of q "n - k" "drop k p"] by (simp add: drop_take)
  have t: "take (if 64 < off + n then 64 - off else n) (take n p)
      = take (if 64 < off + n then 64 - off else n) p" for off
    by (auto simp: min_def)
  show ?thesis
    unfolding md5_append_def Let_def t d md5_append_blocks_take ..
qed

lemma md5_spec:
  assumes "length (mbuf c) = 64"
  shows "fst (md5_finish (fold (\<lambda>d c. md5_append c d (length d)) ds (md5_init c))) = md5_digest (concat ds)"
proof -
  define c0 where "c0 = md5_init c"
  define m where "m = concat ds"
  have init: "md5_pend c0 = []" "md5_bits c0 = 0" "md5_good c0"
    "abcd c0 = [0x67452301, 0xefcdab89, 0x98badcfe, 0x10325476]"
    using assms by (simp_all add: c0_def md5_pend_def md5_bits_def md5_init_def bit_count_def md5_good_def T_MASK_def)
  have fd: "feed md5_feed c0 ds = Some (fold (\<lambda>d c. md5_append c d (length d)) ds c0)" for c0
    by (induction ds arbitrary: c0) (simp_all add: md5_feed_def)
  define c1 where "c1 = fold (\<lambda>d c. md5_append c d (length d)) ds c0"
  have c1: "md5.consumed c0 c1 m"
    using md5.feed_consumed [OF init(3), of ds] fd [of c0] init by (simp add: c1_def m_def)
  have g1: "md5_good c1" and bits: "md5_bits c1 = (8 * length m) mod 18446744073709551616"
    using c1 init by (simp_all add: md5.consumed_def)
  define k where "k = (119 - length m mod 64) mod 64"
  have "unat (mcount0 c1) div 8 mod 64 = length m mod 64"
    using bit_count_offset [of "mcount0 c1" "mcount1 c1"] bits offset_add [of 0 "length m"]
    by (simp add: md5_bits_def)
  then have padlen: "unat ((55 - drop_bit 3 (mcount0 c1)) AND 63) + 1 = Suc k"
    by (simp add: md5_pad_length [simplified] k_def)
  have "k < 64" by (simp add: k_def)
  then have pad: "take (Suc k) (0x80 # replicate 63 (0 :: byte)) = 0x80 # replicate k 0" by simp
  define c2 where "c2 = md5_append c1 (0x80 # replicate k 0) (Suc k)"
  have app2: "md5_append c1 (0x80 # replicate 63 0) (Suc k) = c2"
    using md5_append_take [of c1 "Suc k" "0x80 # replicate 63 0"] unfolding pad c2_def by simp
  have c2: "md5.consumed c1 c2 (0x80 # replicate k 0)"
    using md5.upd_consumed [OF g1, of "0x80 # replicate k 0"] by (simp add: md5_feed_def c2_def)
  define l where "l = le_bytes (mcount0 c1) @ le_bytes (mcount1 c1)"
  have l: "l = le_bytes (word_of_nat (8 * length m)) @ le_bytes (word_of_nat (8 * length m div 4294967296))"
    using word_of_bit_count [OF bits [unfolded md5_bits_def]] by (simp add: l_def)
  have ll: "length l = 8" by (simp add: l_def le_bytes_def)
  define c3 where "c3 = md5_append c2 l 8"
  have c3: "md5.consumed c2 c3 l"
    using md5.upd_consumed [of c2 l] c2 ll by (simp add: md5_feed_def c3_def md5.consumed_def)
  have "md5.consumed c0 c3 (md5_pad m)"
    using md5.consumed_trans [OF md5.consumed_trans [OF c1 c2] c3]
    by (simp add: md5_pad_def l k_def)
  then have st: "abcd c3 = absorb md5_compress (abcd c0) (md5_pad m)"
    by (simp add: md5.consumed_def init)
  then have "length (abcd c3) = 4" using length_absorb_md5 init by simp
  then have "fst (md5_finish c1) = concat (map le_bytes (abcd c3))"
    unfolding md5_finish_def Let_def padlen app2 md5_length_bytes l_def [symmetric] c3_def [symmetric] fst_conv
    by (rule md5_digest_bytes)
  then show ?thesis by (simp add: st init md5_digest_def c1_def [symmetric] c0_def [symmetric] m_def [symmetric])
qed

text \<open>C28: MD5 is correct and independent of the chunking. A message fed to \<open>md5_append\<close> in
  chunks of any length, with \<open>md5_finish\<close> at the end, gives the RFC 1321 digest of the
  concatenated message, for lengths modulo \<open>2^64\<close> bits.\<close>

theorem md5_correct:
  assumes "length (mbuf c) = 64"
  shows "fst (md5_finish (fold (\<lambda>d c. md5_append c d (length d)) ds (md5_init c))) = md5_digest (concat ds)"
  using assms by (rule md5_spec)

theorem md5_correct_witness:
  "fst (md5_finish (fold (\<lambda>d c. md5_append c d (length d)) [[97], [98, 99]]
      (md5_init \<lparr>mcount0 = 7, mcount1 = 0, abcd = [], mbuf = replicate 64 0\<rparr>))) = md5_digest [97, 98, 99]"
  using md5_correct [of "\<lparr>mcount0 = 7, mcount1 = 0, abcd = [], mbuf = replicate 64 0\<rparr>" "[[97], [98, 99]]"]
  by simp

end
