(* ===== verification/Codec.thy ===== *)
theory Codec
  imports Prelude
begin

text \<open>
  The interface of an encoding the server writes and reads back: what \<open>enc\<close> makes of a
  value, \<open>dec\<close> turns back into it. It is interpreted on percent-encoding and on Base64.
\<close>

locale codec =
  fixes enc :: "'a \<Rightarrow> 'b" and dec :: "'b \<Rightarrow> 'a option" and valid :: "'a \<Rightarrow> bool"
  assumes dec_enc: "valid x \<Longrightarrow> dec (enc x) = Some x"
begin

lemma enc_inj: "valid x \<Longrightarrow> valid y \<Longrightarrow> enc x = enc y \<Longrightarrow> x = y"
  by (metis dec_enc option.inject)

lemma enc_eq_iff: "valid x \<Longrightarrow> valid y \<Longrightarrow> enc x = enc y \<longleftrightarrow> x = y"
  using enc_inj by blast

lemma dec_enc_map: "\<forall>x \<in> set xs. valid x \<Longrightarrow> map (dec \<circ> enc) xs = map Some xs"
  by (induction xs) (simp_all add: dec_enc)

end

end
