(* ===== verification/CString.thy ===== *)
theory CString
  imports Prelude "HOL-Library.Char_ord" "HOL-Library.List_Lexorder"
begin

text \<open>
  The string helpers of \<^verbatim>\<open>civetweb.c\<close> every parser of the server uses: bounded copy,
  and comparison and search without regard to case. A string that is only read is the list
  of its characters (\<open>cstring\<close>: none of them the terminator); the destination of the
  copy is a buffer, and \<open>None\<close> is a write outside it.
\<close>

section \<open>The code\<close>

fun mg_strlcpy :: "char list \<Rightarrow> nat \<Rightarrow> string \<Rightarrow> nat \<Rightarrow> char list option" where
  "mg_strlcpy dst j [] n = wr dst j NUL"
| "mg_strlcpy dst j (c # src) n =
     (if c \<noteq> NUL \<and> 1 < n
      then Option.bind (wr dst j c) (\<lambda>dst. mg_strlcpy dst (Suc j) src (n - 1))
      else wr dst j NUL)"

definition lowercase :: "string \<Rightarrow> int" where
  "lowercase s = int (ordc (tolower (deref s)))"

text \<open>The two \<open>do\<close> loops; \<open>tl\<close> is the increment of a pointer that is not at the
  terminator.\<close>

function mg_strncasecmp :: "string \<Rightarrow> string \<Rightarrow> nat \<Rightarrow> int" where
  "mg_strncasecmp s1 s2 len =
     (if 0 < len
      then let diff = lowercase s1 - lowercase s2
           in if diff = 0 \<and> deref s1 \<noteq> NUL \<and> 0 < len - 1
              then mg_strncasecmp (tl s1) (tl s2) (len - 1)
              else diff
      else 0)"
  by pat_completeness auto
termination
  by (relation "measure (\<lambda>(s1, s2, len). len)") auto

function mg_strcasecmp :: "string \<Rightarrow> string \<Rightarrow> int" where
  "mg_strcasecmp s1 s2 =
     (let diff = lowercase s1 - lowercase s2
      in if diff = 0 \<and> deref s1 \<noteq> NUL then mg_strcasecmp (tl s1) (tl s2) else diff)"
  by pat_completeness auto
termination
proof (relation "measure (\<lambda>(s1, s2). length s1)")
  fix s1 s2 :: string and diff :: int
  assume "diff = 0 \<and> deref s1 \<noteq> NUL"
  then show "((tl s1, tl s2), s1, s2) \<in> measure (\<lambda>(s1, s2). length s1)"
    by (cases s1) auto
qed simp

declare mg_strncasecmp.simps [simp del] mg_strcasecmp.simps [simp del]

text \<open>The search returns the index at which the pointer it returns stands.\<close>

function mg_strcasestr_loop :: "string \<Rightarrow> string \<Rightarrow> nat \<Rightarrow> nat option" where
  "mg_strcasestr_loop big_str small_str i =
     (if i \<le> length big_str - length small_str
      then (if mg_strncasecmp (drop i big_str) small_str (length small_str) = 0
            then Some i
            else mg_strcasestr_loop big_str small_str (Suc i))
      else None)"
  by pat_completeness auto
termination
  by (relation "measure (\<lambda>(b, s, i). Suc (length b - length s) - i)") auto

declare mg_strcasestr_loop.simps [simp del]

definition mg_strcasestr :: "string \<Rightarrow> string \<Rightarrow> nat option" where
  "mg_strcasestr big_str small_str =
     (if length small_str \<le> length big_str then mg_strcasestr_loop big_str small_str 0 else None)"

section \<open>Copying\<close>

lemma mg_strlcpy_spec:
  assumes "cstring src" "0 < n" "j + n \<le> length dst"
  shows "mg_strlcpy dst j src n
    = Some (take j dst @ take (n - 1) src @ NUL # drop (Suc (j + length (take (n - 1) src))) dst)"
  using assms
proof (induction dst j src n rule: mg_strlcpy.induct)
  case (1 dst j n)
  then show ?case by (simp add: wr_lt upd_conv_take_nth_drop)
next
  case (2 dst j c src n)
  show ?case
  proof (cases "1 < n")
    case True
    then obtain k where n: "n = Suc (Suc k)" by (auto simp: less_iff_Suc_add)
    with 2 have j: "j < length dst" and c: "c \<noteq> NUL" by simp_all
    have "mg_strlcpy (dst[j := c]) (Suc j) src (Suc k)
      = Some (take (Suc j) (dst[j := c]) @ take k src @ NUL # drop (Suc (Suc j + length (take k src))) (dst[j := c]))"
      using "2.IH" [of "dst[j := c]"] 2(2-) n by simp
    moreover have "take (Suc j) (dst[j := c]) = take j dst @ [c]"
      using j by (simp add: take_Suc_conv_app_nth)
    ultimately show ?thesis
      using j c n by (simp add: wr_lt)
  next
    case False
    with 2 have "n = 1" by simp
    with 2 show ?thesis by (simp add: wr_lt upd_conv_take_nth_drop)
  qed
qed

text \<open>\<open>mg_strlcpy\<close> is a bounded copy. With a destination of at least \<open>n > 0\<close> bytes it
  writes the first \<open>n - 1\<close> characters of the source and a terminator, touches nothing
  beyond them, and never leaves the buffer.\<close>

theorem mg_strlcpy_correct:
  assumes "cstring src" "0 < n" "n \<le> length dst"
  shows "\<exists>dst'. mg_strlcpy dst 0 src n = Some dst' \<and> str_at dst' 0 = take (n - 1) src
    \<and> length dst' = length dst \<and> drop n dst' = drop n dst"
proof -
  define xs where "xs = take (n - 1) src"
  have n: "n = Suc (n - Suc (length xs) + length xs)" using assms(2) by (auto simp: xs_def)
  have copy: "mg_strlcpy dst 0 src n = Some (xs @ NUL # drop (Suc (length xs)) dst)"
    using mg_strlcpy_spec [of src n 0 dst] assms by (simp add: xs_def)
  have "cstring xs" using assms(1) by (auto simp: xs_def cstring_def dest: in_set_takeD)
  then have "str_at (xs @ NUL # ys) 0 = xs" for ys
    by (simp add: str_at_def) (subst takeWhile_append2; auto simp: cstring_def)
  moreover have "drop n (xs @ NUL # drop (Suc (length xs)) dst) = drop n dst"
    by (subst (1 2) n) simp
  moreover have "length (xs @ NUL # drop (Suc (length xs)) dst) = length dst"
    using n assms(3) by simp
  ultimately show ?thesis
    unfolding copy xs_def [symmetric] by blast
qed

theorem mg_strlcpy_correct_witness:
  "\<exists>dst'. mg_strlcpy ''xxxxxx'' 0 ''GET'' 3 = Some dst' \<and> str_at dst' 0 = take (3 - 1) ''GET''
    \<and> length dst' = length ''xxxxxx'' \<and> drop 3 dst' = drop 3 ''xxxxxx''"
  by (rule mg_strlcpy_correct) (simp_all add: cstring_def)

section \<open>Comparison\<close>

abbreviation fold_case :: "string \<Rightarrow> string" where
  "fold_case \<equiv> map tolower"

lemma lowercase_simps [simp]:
  "lowercase [] = 0" "lowercase (c # s) = int (ordc (tolower c))"
  by (simp_all add: lowercase_def tolower_def isupper_def ordc_def)

lemma ordc_0 [simp]: "ordc c = 0 \<longleftrightarrow> c = NUL" "0 < ordc c \<longleftrightarrow> c \<noteq> NUL"
  using ordc_inj [of c NUL] by (auto simp: ordc_def)

lemma mg_strncasecmp_0 [simp]: "mg_strncasecmp s t 0 = 0"
  by (simp add: mg_strncasecmp.simps)

lemma mg_strncasecmp_Nil:
  "cstring s \<Longrightarrow> 0 < n \<Longrightarrow> mg_strncasecmp s [] n = lowercase s"
  "cstring s \<Longrightarrow> 0 < n \<Longrightarrow> mg_strncasecmp [] s n = - lowercase s"
  by (cases s; simp add: mg_strncasecmp.simps [of _ _ n] Let_def)+

lemma mg_strncasecmp_Cons:
  assumes "c \<noteq> NUL"
  shows "mg_strncasecmp (c # s) (d # t) (Suc n)
    = (if tolower c = tolower d then mg_strncasecmp s t n else int (ordc (tolower c)) - int (ordc (tolower d)))"
  using assms by (subst mg_strncasecmp.simps) (auto simp: Let_def)

lemma mg_strncasecmp_eq:
  assumes "cstring s" "cstring t"
  shows "mg_strncasecmp s t n = 0 \<longleftrightarrow> fold_case (take n s) = fold_case (take n t)"
  using assms
proof (induction n arbitrary: s t)
  case (Suc n)
  show ?case
  proof (cases s)
    case Nil
    then show ?thesis using Suc.prems by (cases t) (auto simp: mg_strncasecmp_Nil)
  next
    case (Cons c s')
    with Suc.prems Suc.IH [of s'] show ?thesis
      by (cases t) (auto simp: mg_strncasecmp_Nil mg_strncasecmp_Cons)
  qed
qed simp

lemma mg_strcasecmp_Nil:
  assumes "cstring s"
  shows "mg_strcasecmp s [] = lowercase s" "mg_strcasecmp [] s = - lowercase s"
proof -
  show "mg_strcasecmp s [] = lowercase s"
    using assms by (cases s; subst mg_strcasecmp.simps; simp add: Let_def)
  show "mg_strcasecmp [] s = - lowercase s"
    by (subst mg_strcasecmp.simps) (simp add: Let_def)
qed

lemma mg_strcasecmp_Cons:
  assumes "c \<noteq> NUL"
  shows "mg_strcasecmp (c # s) (d # t)
    = (if tolower c = tolower d then mg_strcasecmp s t else int (ordc (tolower c)) - int (ordc (tolower d)))"
  using assms by (subst mg_strcasecmp.simps) (auto simp: Let_def)

lemma char_less_ordc: "c < d \<longleftrightarrow> ordc c < ordc d"
  by (simp add: less_char_def ordc_def)

lemma mg_strcasecmp_order:
  assumes "cstring s" "cstring t"
  shows "sgn (mg_strcasecmp s t)
    = (if fold_case s < fold_case t then -1 else if fold_case s = fold_case t then 0 else 1)"
  using assms
proof (induction s arbitrary: t)
  case Nil
  then show ?case by (cases t) (auto simp: mg_strcasecmp_Nil)
next
  case (Cons c s)
  show ?case
  proof (cases t)
    case Nil
    with Cons show ?thesis by (auto simp: mg_strcasecmp_Nil)
  next
    case (Cons d t')
    with Cons.prems Cons.IH [of t'] show ?thesis
      by (cases rule: linorder_cases [of "ordc (tolower c)" "ordc (tolower d)"])
        (auto simp: mg_strcasecmp_Cons char_less_ordc)
  qed
qed

lemma mg_strcasecmp_eq: "cstring s \<Longrightarrow> cstring t \<Longrightarrow> mg_strcasecmp s t = 0 \<longleftrightarrow> fold_case s = fold_case t"
  using mg_strcasecmp_order [of s t] by (auto simp: sgn_if split: if_splits)

text \<open>\<open>mg_strcasecmp\<close> is the lexicographic order of the strings folded to lower case:
  its sign says which of the two comes first, and it is zero exactly when they are equal up to
  case; \<open>mg_strncasecmp\<close> is zero exactly when the first \<open>len\<close> characters are.\<close>

theorem casecmp_correct:
  assumes "cstring s" "cstring t"
  shows "(mg_strcasecmp s t < 0 \<longleftrightarrow> fold_case s < fold_case t)
    \<and> (mg_strcasecmp s t = 0 \<longleftrightarrow> fold_case s = fold_case t)
    \<and> (0 < mg_strcasecmp s t \<longleftrightarrow> fold_case t < fold_case s)
    \<and> (mg_strncasecmp s t len = 0 \<longleftrightarrow> fold_case (take len s) = fold_case (take len t))"
  using mg_strcasecmp_order [OF assms] mg_strncasecmp_eq [OF assms, of len]
  by (auto simp: sgn_if split: if_splits)

theorem casecmp_correct_witness:
  "(mg_strcasecmp ''Host'' ''hosT'' < 0 \<longleftrightarrow> fold_case ''Host'' < fold_case ''hosT'')
    \<and> (mg_strcasecmp ''Host'' ''hosT'' = 0 \<longleftrightarrow> fold_case ''Host'' = fold_case ''hosT'')
    \<and> (0 < mg_strcasecmp ''Host'' ''hosT'' \<longleftrightarrow> fold_case ''hosT'' < fold_case ''Host'')
    \<and> (mg_strncasecmp ''Host'' ''hosT'' 3 = 0 \<longleftrightarrow> fold_case (take 3 ''Host'') = fold_case (take 3 ''hosT''))"
  by (rule casecmp_correct) (simp_all add: cstring_def)

section \<open>Search\<close>

definition occurs_at :: "string \<Rightarrow> string \<Rightarrow> nat \<Rightarrow> bool" where
  "occurs_at s b i \<longleftrightarrow> i + length s \<le> length b \<and> fold_case (take (length s) (drop i b)) = fold_case s"

lemma mg_strcasestr_loop_spec:
  assumes "cstring b" "cstring s" "length s \<le> length b"
  shows "case mg_strcasestr_loop b s i of
      Some k \<Rightarrow> i \<le> k \<and> occurs_at s b k \<and> (\<forall>m. i \<le> m \<and> m < k \<longrightarrow> \<not> occurs_at s b m)
    | None \<Rightarrow> \<forall>m \<ge> i. \<not> occurs_at s b m"
  using assms
proof (induction b s i rule: mg_strcasestr_loop.induct)
  case (1 b s i)
  have e: "mg_strncasecmp (drop i b) s (length s) = 0 \<longleftrightarrow> occurs_at s b i" if "i \<le> length b - length s"
  proof -
    have "i + length s \<le> length b" using that 1(4) by linarith
    then show ?thesis
      using 1(2,3) mg_strncasecmp_eq [of "drop i b" s "length s"] by (simp add: cstring_drop occurs_at_def)
  qed
  have o: "\<not> occurs_at s b m" if "length b - length s < m" for m
    using that 1(4) by (auto simp: occurs_at_def)
  consider "length b - length s < i" | "i \<le> length b - length s" "occurs_at s b i"
    | "i \<le> length b - length s" "\<not> occurs_at s b i" by linarith
  then show ?case
  proof cases
    case 1
    with o show ?thesis by (subst mg_strcasestr_loop.simps) auto
  next
    case 2
    with e show ?thesis by (subst mg_strcasestr_loop.simps) auto
  next
    case 3
    then have "case mg_strcasestr_loop b s (Suc i) of
        Some k \<Rightarrow> Suc i \<le> k \<and> occurs_at s b k \<and> (\<forall>m. Suc i \<le> m \<and> m < k \<longrightarrow> \<not> occurs_at s b m)
      | None \<Rightarrow> \<forall>m \<ge> Suc i. \<not> occurs_at s b m"
      using 1 e by simp
    moreover have "mg_strcasestr_loop b s i = mg_strcasestr_loop b s (Suc i)"
      using 3 e by (subst mg_strcasestr_loop.simps) simp
    ultimately show ?thesis
      using 3(2) by (cases "mg_strcasestr_loop b s (Suc i)")
        (simp_all, metis Suc_leI le_eq_less_or_eq, metis Suc_leD Suc_leI le_eq_less_or_eq)
  qed
qed

text \<open>\<open>mg_strcasestr\<close> returns the first position at which the needle occurs up to case,
  and \<open>NULL\<close> exactly when it occurs nowhere.\<close>

theorem mg_strcasestr_correct:
  assumes "cstring b" "cstring s"
  shows "mg_strcasestr b s
    = (if \<exists>i. occurs_at s b i then Some (LEAST i. occurs_at s b i) else None)"
proof (cases "length s \<le> length b")
  case False
  then have "\<not> occurs_at s b i" for i by (simp add: occurs_at_def)
  with False show ?thesis by (simp add: mg_strcasestr_def)
next
  case True
  note loop = mg_strcasestr_loop_spec [OF assms True, of 0]
  show ?thesis
  proof (cases "mg_strcasestr_loop b s 0")
    case None
    with loop True show ?thesis by (simp add: mg_strcasestr_def)
  next
    case (Some k)
    with loop have k: "occurs_at s b k" "\<And>m. m < k \<Longrightarrow> \<not> occurs_at s b m" by auto
    then have "(LEAST i. occurs_at s b i) = k"
      by (intro Least_equality) (metis leI)+
    with k Some True show ?thesis by (auto simp: mg_strcasestr_def)
  qed
qed

theorem mg_strcasestr_correct_witness:
  "mg_strcasestr ''Upgrade: WebSocket'' ''websocket''
    = (if \<exists>i. occurs_at ''websocket'' ''Upgrade: WebSocket'' i
       then Some (LEAST i. occurs_at ''websocket'' ''Upgrade: WebSocket'' i) else None)"
  by (rule mg_strcasestr_correct) (simp_all add: cstring_def)

text \<open>When the first string has at least \<open>n\<close> characters, the second may hold anything.\<close>

lemma mg_strncasecmp_eq_prefix:
  assumes "cstring s" "n \<le> length s"
  shows "mg_strncasecmp s t n = 0 \<longleftrightarrow> fold_case (take n s) = fold_case (take n t)"
  using assms
proof (induction n arbitrary: s t)
  case (Suc n)
  then obtain c s' where s: "s = c # s'" by (cases s) auto
  show ?case
  proof (cases t)
    case Nil
    with s Suc.prems show ?thesis by (auto simp: mg_strncasecmp_Nil)
  next
    case (Cons d t')
    with s Suc.prems Suc.IH [of s' t'] show ?thesis by (auto simp: mg_strncasecmp_Cons)
  qed
qed simp

section \<open>Splitting\<close>

text \<open>The fields of a string between the occurrences of a separator.\<close>

fun split_on :: "char \<Rightarrow> string \<Rightarrow> string list" where
  "split_on d [] = [[]]"
| "split_on d (c # s) = (if c = d then [] # split_on d s else (c # hd (split_on d s)) # tl (split_on d s))"

lemma split_on_not_Nil [simp]: "split_on d s \<noteq> []"
  by (cases s) auto

lemma hd_split_on: "hd (split_on d s) = takeWhile (\<lambda>c. c \<noteq> d) s"
  by (induction s) auto

lemma tl_split_on: "tl (split_on d s) = (case dropWhile (\<lambda>c. c \<noteq> d) s of [] \<Rightarrow> [] | c # t \<Rightarrow> split_on d t)"
  by (induction s) auto

lemma split_on_no_sep: "d \<notin> set s \<Longrightarrow> split_on d s = [s]"
  by (induction s) auto

lemma split_on_append_sep: "d \<notin> set s \<Longrightarrow> split_on d (s @ d # t) = s # split_on d t"
  by (induction s) auto

lemma split_on_length: "f \<in> set (split_on d s) \<Longrightarrow> length f \<le> length s"
proof (induction s)
  case (Cons c s)
  have "hd (split_on d s) \<in> set (split_on d s)" by simp
  with Cons.IH have "length (hd (split_on d s)) \<le> length s"
    by (metis hd_split_on length_takeWhile_le)
  moreover have "f \<in> set (tl (split_on d s)) \<Longrightarrow> length f \<le> length s"
    using Cons.IH list.set_sel(2) [of "split_on d s" f] by simp
  ultimately show ?case using Cons by (auto split: if_splits)
qed simp

lemma split_on_mem_sep: "f \<in> set (split_on d s) \<Longrightarrow> d \<notin> set f"
proof (induction s)
  case (Cons c s)
  have "d \<notin> set (hd (split_on d s))" by (auto simp: hd_split_on dest: set_takeWhileD)
  moreover have "f \<in> set (tl (split_on d s)) \<Longrightarrow> f \<in> set (split_on d s)"
    using list.set_sel(2) [of "split_on d s" f] by simp
  ultimately show ?case using Cons by (auto split: if_splits)
qed simp

section \<open>Numbers in strings\<close>

text \<open>\<open>strtoul(s, &end, 10)\<close>: the value and the rest of the string at \<open>end\<close>.\<close>

definition digits_value :: "string \<Rightarrow> nat" where
  "digits_value ds = foldl (\<lambda>n d. 10 * n + (ordc d - 48)) 0 ds"

definition strtoul10 :: "string \<Rightarrow> nat \<times> string" where
  "strtoul10 s =
     (let ws = dropWhile isspace s;
          neg = (deref ws = CHR ''-'');
          t = (if deref ws = CHR ''-'' \<or> deref ws = CHR ''+'' then tl ws else ws);
          ds = takeWhile isdigit t;
          n = digits_value ds
      in if ds = [] then (0, s)
         else (if 18446744073709551616 \<le> n then 18446744073709551615
               else if neg then (18446744073709551616 - n) mod 18446744073709551616 else n,
               dropWhile isdigit t))"

text \<open>\<open>strtol(s, &end, 10)\<close>.\<close>

definition strtol10 :: "string \<Rightarrow> int \<times> string" where
  "strtol10 s =
     (let ws = dropWhile isspace s;
          neg = (deref ws = CHR ''-'');
          t = (if deref ws = CHR ''-'' \<or> deref ws = CHR ''+'' then tl ws else ws);
          ds = takeWhile isdigit t;
          n = (if neg then - int (digits_value ds) else int (digits_value ds))
      in if ds = [] then (0, s)
         else (max (-9223372036854775808) (min 9223372036854775807 n), dropWhile isdigit t))"

lemma strtoul10_length: "length (snd (strtoul10 s)) \<le> length s"
proof -
  have "length (dropWhile isdigit (tl (dropWhile isspace s))) \<le> length (tl (dropWhile isspace s))"
    "length (dropWhile isdigit (dropWhile isspace s)) \<le> length (dropWhile isspace s)"
    "length (dropWhile isspace s) \<le> length s"
    by (rule length_dropWhile_le)+
  moreover have "length (tl (dropWhile isspace s)) \<le> length (dropWhile isspace s)" by simp
  ultimately have "length (dropWhile isdigit (tl (dropWhile isspace s))) \<le> length s"
    "length (dropWhile isdigit (dropWhile isspace s)) \<le> length s" by linarith+
  then show ?thesis by (simp add: strtoul10_def Let_def)
qed


text \<open>\<open>printf("%u")\<close>.\<close>

definition digit :: "nat \<Rightarrow> char" where
  "digit n = char_of (48 + n)"

function decimal :: "nat \<Rightarrow> string" where
  "decimal n = (if n < 10 then [digit n] else decimal (n div 10) @ [digit (n mod 10)])"
  by pat_completeness auto
termination
  by (relation "measure (\<lambda>n. n)") auto

declare decimal.simps [simp del]

lemma ordc_digit: "n < 10 \<Longrightarrow> ordc (digit n) = 48 + n"
  by (simp add: digit_def)

lemma isdigit_digit: "n < 10 \<Longrightarrow> isdigit (digit n)"
  by (simp add: isdigit_def ordc_digit)

lemma digits_value_snoc: "digits_value (ds @ [d]) = 10 * digits_value ds + (ordc d - 48)"
  by (simp add: digits_value_def)

lemma decimal_digits: "decimal n \<noteq> [] \<and> list_all isdigit (decimal n) \<and> digits_value (decimal n) = n"
proof (induction n rule: decimal.induct)
  case (1 n)
  show ?case
  proof (cases "n < 10")
    case True
    then show ?thesis by (subst (1 2 3) decimal.simps) (simp add: isdigit_digit digits_value_def ordc_digit)
  next
    case False
    have m: "n mod 10 < 10" by simp
    have v: "digits_value (decimal n) = 10 * (n div 10) + n mod 10"
      using False 1 by (subst decimal.simps) (simp add: digits_value_snoc ordc_digit [OF m])
    show ?thesis
      using False 1 isdigit_digit [OF m] v by (subst (1 2) decimal.simps) simp
  qed
qed

lemma decimal_length3:
  assumes "100 \<le> n" "n < 1000"
  shows "length (decimal n) = 3"
proof -
  have "\<not> n < 10" "\<not> n div 10 < 10" "n div 10 div 10 < 10" using assms by (simp_all add: div_mult2_eq [symmetric])
  then show ?thesis
    by (subst decimal.simps, simp) (subst decimal.simps, simp, subst decimal.simps, simp)
qed

lemma isdigit_facts: "isdigit c \<Longrightarrow> \<not> isspace c \<and> c \<noteq> CHR ''-'' \<and> c \<noteq> CHR ''+'' \<and> c \<noteq> NUL \<and> isgraph c"
  by (auto simp: ctype_defs ordc_def)

lemma strtol10_digits:
  assumes "ds \<noteq> []" "list_all isdigit ds" "digits_value ds < 9223372036854775808"
  shows "strtol10 ds = (int (digits_value ds), [])"
proof -
  obtain d ds' where d: "ds = d # ds'" using assms(1) by (cases ds) auto
  then have nd: "\<not> isspace d" "d \<noteq> CHR ''-''" "d \<noteq> CHR ''+''" using isdigit_facts [of d] assms(2) by auto
  have tw: "takeWhile isdigit ds = ds" "dropWhile isdigit ds = []"
    using assms(2) by (simp_all add: list_all_iff)
  moreover have "dropWhile isspace ds = ds" using d nd by simp
  moreover have "deref ds = d" by (simp add: d)
  ultimately show ?thesis
    using nd assms(1,3) unfolding strtol10_def Let_def by (simp add: tw del: takeWhile_eq_all_conv)
qed

end
