(* ===== verification/UrlCodec.thy ===== *)
theory UrlCodec
  imports Codec CString
begin

text \<open>
  Percent-encoding and the parsers of URL-encoded forms: \<open>mg_url_encode\<close>,
  \<open>mg_url_decode\<close> (also with source and destination in the same buffer),
  \<open>mg_get_var2\<close> and \<open>mg_get_cookie\<close>.
\<close>

section \<open>The code of the decoder\<close>

definition HEXTOI :: "char \<Rightarrow> nat" where
  "HEXTOI x = (if isdigit x then ordc x - 48 else ordc x - 87)"

text \<open>
  \<open>src\<close> and \<open>dst\<close> are offsets into one memory block, so that a call with overlapping
  arguments is one of the cases. The result is the block, \<open>i\<close> and \<open>j\<close> at the end of
  the loop.
\<close>

function mg_url_decode_loop ::
  "char list \<Rightarrow> nat \<Rightarrow> nat \<Rightarrow> nat \<Rightarrow> nat \<Rightarrow> bool \<Rightarrow> nat \<Rightarrow> nat \<Rightarrow> (char list \<times> nat \<times> nat) option" where
  "mg_url_decode_loop mem src src_len dst dst_len form i j =
     (if i < src_len \<and> j + 1 < dst_len
      then do {
        c \<leftarrow> rd mem (src + i);
        (hex, x, y) \<leftarrow> (if i + 2 < src_len \<and> c = CHR ''%''
          then do {
            x \<leftarrow> rd mem (src + i + 1);
            y \<leftarrow> rd mem (src + i + 2);
            Some (isxdigit x \<and> isxdigit y, x, y)
          }
          else Some (False, NUL, NUL));
        if hex
        then do {
          let a = tolower x;
          let b = tolower y;
          mem \<leftarrow> wr mem (dst + j) (char_of (push_bit 4 (HEXTOI a) OR HEXTOI b));
          mg_url_decode_loop mem src src_len dst dst_len form (i + 3) (j + 1)
        }
        else do {
          mem \<leftarrow> wr mem (dst + j) (if form \<and> c = CHR ''+'' then CHR '' '' else c);
          mg_url_decode_loop mem src src_len dst dst_len form (i + 1) (j + 1)
        }
      }
      else Some (mem, i, j))"
  by pat_completeness auto
termination
  by (relation "measure (\<lambda>(mem, src, src_len, dst, dst_len, form, i, j). src_len - i)") auto

declare mg_url_decode_loop.simps [simp del]

definition mg_url_decode ::
  "char list \<Rightarrow> nat \<Rightarrow> nat \<Rightarrow> nat \<Rightarrow> nat \<Rightarrow> bool \<Rightarrow> (char list \<times> int) option" where
  "mg_url_decode mem src src_len dst dst_len form =
     do {
       (mem, i, j) \<leftarrow> mg_url_decode_loop mem src src_len dst dst_len form 0 0;
       mem \<leftarrow> wr mem (dst + j) NUL;
       Some (mem, if src_len \<le> i then int j else -1)
     }"

text \<open>The whole string at \<open>buf\<close>, decoded onto itself.\<close>

definition url_decode_in_place :: "char list \<Rightarrow> nat \<Rightarrow> char list option" where
  "url_decode_in_place mem buf =
     do {
       end \<leftarrow> scan (\<lambda>c. c \<noteq> NUL) mem buf;
       let len = end - buf;
       (mem, _) \<leftarrow> mg_url_decode mem buf len buf (len + 1) True;
       Some mem
     }"

section \<open>What it decodes\<close>

definition hex_char :: "char \<Rightarrow> char \<Rightarrow> char" where
  "hex_char x y = char_of (push_bit 4 (HEXTOI (tolower x)) OR HEXTOI (tolower y))"

fun url_decoded :: "bool \<Rightarrow> string \<Rightarrow> string" where
  "url_decoded form (c # x # y # s) =
     (if c = CHR ''%'' \<and> isxdigit x \<and> isxdigit y
      then hex_char x y # url_decoded form s
      else (if form \<and> c = CHR ''+'' then CHR '' '' else c) # url_decoded form (x # y # s))"
| "url_decoded form (c # s) = (if form \<and> c = CHR ''+'' then CHR '' '' else c) # url_decoded form s"
| "url_decoded form [] = []"

lemma url_decoded_plain:
  "\<not> (c = CHR ''%'' \<and> 2 \<le> length s \<and> isxdigit (s ! 0) \<and> isxdigit (s ! 1)) \<Longrightarrow>
   url_decoded form (c # s) = (if form \<and> c = CHR ''+'' then CHR '' '' else c) # url_decoded form s"
  by (cases s; cases "tl s") (auto simp: neq_Nil_conv)

definition decoded_to ::
  "char list \<Rightarrow> nat \<Rightarrow> nat \<Rightarrow> nat \<Rightarrow> nat \<Rightarrow> string \<Rightarrow> (char list \<times> nat \<times> nat) option \<Rightarrow> bool" where
  "decoded_to mem src_len dst dst_len j out r \<longleftrightarrow>
     (\<exists>mem' i' k. k = min (length out) (dst_len - 1 - j) \<and> r = Some (mem', i', j + k)
        \<and> length mem' = length mem \<and> take (dst + j + k) mem' = take (dst + j) mem @ take k out
        \<and> drop (dst + j + k) mem' = drop (dst + j + k) mem
        \<and> (src_len \<le> i' \<longleftrightarrow> length out \<le> dst_len - 1 - j))"

lemma decoded_to_step:
  assumes "decoded_to (mem[dst + j := v]) src_len dst dst_len (j + 1) out r"
    and "dst + j < length mem" "j + 1 < dst_len"
  shows "decoded_to mem src_len dst dst_len j (v # out) r"
proof -
  obtain mem' i' k where k: "k = min (length out) (dst_len - 1 - (j + 1))"
    and r: "r = Some (mem', i', j + 1 + k)"
    and mem': "length mem' = length mem"
      "take (dst + (j + 1) + k) mem' = take (dst + (j + 1)) (mem[dst + j := v]) @ take k out"
      "drop (dst + (j + 1) + k) mem' = drop (dst + (j + 1) + k) (mem[dst + j := v])"
      "src_len \<le> i' \<longleftrightarrow> length out \<le> dst_len - 1 - (j + 1)"
    using assms(1) unfolding decoded_to_def by auto
  have "Suc k = min (length (v # out)) (dst_len - 1 - j)"
    using k assms(3) by auto
  moreover have "r = Some (mem', i', j + Suc k)" using r by simp
  moreover have "take (dst + j + Suc k) mem' = take (dst + j) mem @ take (Suc k) (v # out)"
    using mem'(2) take_update_nth [OF assms(2), of v] by simp
  moreover have "drop (dst + j + Suc k) mem' = drop (dst + j + Suc k) mem"
    using mem'(3) by simp
  moreover have "src_len \<le> i' \<longleftrightarrow> length (v # out) \<le> dst_len - 1 - j"
    using mem'(4) assms(3) by auto
  ultimately show ?thesis
    unfolding decoded_to_def using mem'(1) by blast
qed

lemma decoded_to_end:
  "out = [] \<or> dst_len = j + 1 \<Longrightarrow> (src_len \<le> i \<longleftrightarrow> out = []) \<Longrightarrow>
   decoded_to mem src_len dst dst_len j out (Some (mem, i, j))"
  by (auto simp: decoded_to_def)

lemma slice_None: "url_decoded form (slice mem p n) = [] \<longleftrightarrow> slice mem p n = []"
  by (rule url_decoded.cases [of "(form, slice mem p n)"]) auto

lemma mg_url_decode_loop_spec:
  assumes "src + src_len \<le> length mem" "dst + dst_len \<le> length mem" "i \<le> src_len" "j < dst_len"
    and "dst + j \<le> src + i \<or> src + src_len \<le> dst"
  shows "decoded_to mem src_len dst dst_len j (url_decoded form (slice mem (src + i) (src_len - i)))
    (mg_url_decode_loop mem src src_len dst dst_len form i j)"
  using assms
proof (induction "src_len - i" arbitrary: mem i j rule: less_induct)
  case less
  show ?case
  proof (cases "i < src_len \<and> j + 1 < dst_len")
    case False
    then have "mg_url_decode_loop mem src src_len dst dst_len form i j = Some (mem, i, j)"
      by (subst mg_url_decode_loop.simps) auto
    moreover have "slice mem (src + i) (src_len - i) = [] \<longleftrightarrow> src_len \<le> i"
      using less.prems by (auto simp: slice_def)
    ultimately show ?thesis
      using False less.prems by (auto intro!: decoded_to_end simp: slice_None)
  next
    case True
    define c where "c = mem ! (src + i)"
    define n where "n = src_len - (i + 1)"
    define s where "s = slice mem (src + i + 1) n"
    have len: "src + i < length mem" "dst + j < length mem" "length s = n"
      using True less.prems by (auto simp: s_def n_def)
    have sl: "slice mem (src + i) (src_len - i) = c # s"
    proof -
      have "src_len - i = Suc n" using True by (auto simp: n_def)
      then show ?thesis using len(1) by (simp add: slice_Suc c_def s_def)
    qed
    show ?thesis
    proof (cases "i + 2 < src_len \<and> c = CHR ''%'' \<and> isxdigit (mem ! (src + i + 1)) \<and> isxdigit (mem ! (src + i + 2))")
      case hex: True
      define x where "x = mem ! (src + i + 1)"
      define y where "y = mem ! (src + i + 2)"
      have lxy: "src + i + 1 < length mem" "src + i + 2 < length mem" using hex less.prems by auto
      have "n = Suc (Suc (src_len - (i + 3)))" using hex by (auto simp: n_def)
      then have s: "s = x # y # slice mem (src + (i + 3)) (src_len - (i + 3))"
        using lxy by (simp add: s_def slice_Suc x_def y_def numeral_3_eq_3)
      have out: "url_decoded form (c # s) = hex_char x y # url_decoded form (slice mem (src + (i + 3)) (src_len - (i + 3)))"
        using hex by (simp add: s x_def y_def)
      have "mg_url_decode_loop mem src src_len dst dst_len form i j
        = mg_url_decode_loop (mem[dst + j := hex_char x y]) src src_len dst dst_len form (i + 3) (j + 1)"
        using True hex len lxy
        by (subst mg_url_decode_loop.simps) (simp add: rd_lt wr_lt c_def x_def y_def hex_char_def)
      moreover have "slice (mem[dst + j := hex_char x y]) (src + (i + 3)) (src_len - (i + 3))
        = slice mem (src + (i + 3)) (src_len - (i + 3))"
        using less.prems hex by (intro slice_update) auto
      moreover have "decoded_to (mem[dst + j := hex_char x y]) src_len dst dst_len (j + 1)
          (url_decoded form (slice (mem[dst + j := hex_char x y]) (src + (i + 3)) (src_len - (i + 3))))
          (mg_url_decode_loop (mem[dst + j := hex_char x y]) src src_len dst dst_len form (i + 3) (j + 1))"
        using less.prems True hex by (intro less.hyps) auto
      ultimately show ?thesis
        unfolding sl out using decoded_to_step [OF _ len(2)] True by metis
    next
      case plain: False
      define v where "v = (if form \<and> c = CHR ''+'' then CHR '' '' else c)"
      have "s ! k = mem ! (src + i + 1 + k)" if "k < n" for k
        using that len(3) less.prems True by (simp add: s_def slice_def n_def)
      then have "url_decoded form (c # s) = v # url_decoded form s"
        unfolding v_def using plain len(3) by (intro url_decoded_plain) (auto simp: n_def)
      then have out: "url_decoded form (c # s) = v # url_decoded form (slice mem (src + (i + 1)) (src_len - (i + 1)))"
        by (simp add: s_def n_def)
      have "mg_url_decode_loop mem src src_len dst dst_len form i j
        = mg_url_decode_loop (mem[dst + j := v]) src src_len dst dst_len form (i + 1) (j + 1)"
        using True plain len less.prems
        by (subst mg_url_decode_loop.simps) (auto simp: rd_lt wr_lt c_def v_def)
      moreover have "slice (mem[dst + j := v]) (src + (i + 1)) (src_len - (i + 1))
        = slice mem (src + (i + 1)) (src_len - (i + 1))"
        using less.prems True by (intro slice_update) auto
      moreover have "decoded_to (mem[dst + j := v]) src_len dst dst_len (j + 1)
          (url_decoded form (slice (mem[dst + j := v]) (src + (i + 1)) (src_len - (i + 1))))
          (mg_url_decode_loop (mem[dst + j := v]) src src_len dst dst_len form (i + 1) (j + 1))"
        using less.prems True by (intro less.hyps) auto
      ultimately show ?thesis
        unfolding sl out using decoded_to_step [OF _ len(2)] True by metis
    qed
  qed
qed

lemma str_at_take:
  assumes "take (p + k) b = take p b @ xs" "length xs = k" "p + k < length b" "cstring xs" "b ! (p + k) = NUL"
  shows "str_at b p = xs"
proof -
  have "drop p b = drop p (take (p + k) b @ drop (p + k) b)" by simp
  also have "\<dots> = xs @ NUL # drop (Suc (p + k)) b"
    using assms(3,5) unfolding assms(1) by (simp add: Cons_nth_drop_Suc [symmetric])
  finally have "drop p b = xs @ NUL # drop (Suc (p + k)) b" .
  then show ?thesis
    using assms(4) unfolding str_at_def cstring_def by (simp, subst takeWhile_append2) auto
qed

lemma mg_url_decode_spec:
  assumes "src + src_len \<le> length mem" "dst + dst_len \<le> length mem" "0 < dst_len"
    and "dst \<le> src \<or> src + src_len \<le> dst"
    and "out = url_decoded form (slice mem src src_len)" and "k = min (length out) (dst_len - 1)"
  shows "\<exists>mem'. mg_url_decode mem src src_len dst dst_len form
      = Some (mem', if length out < dst_len then int (length out) else -1)
    \<and> slice mem' dst (k + 1) = take k out @ [NUL] \<and> take dst mem' = take dst mem
    \<and> drop (dst + k + 1) mem' = drop (dst + k + 1) mem \<and> length mem' = length mem"
proof -
  have "decoded_to mem src_len dst dst_len 0 out (mg_url_decode_loop mem src src_len dst dst_len form 0 0)"
    using mg_url_decode_loop_spec [of src src_len mem dst dst_len 0 0 form] assms by simp
  then obtain mem' i' where
    r: "mg_url_decode_loop mem src src_len dst dst_len form 0 0 = Some (mem', i', k)"
    and m: "length mem' = length mem" "take (dst + k) mem' = take dst mem @ take k out"
      "drop (dst + k) mem' = drop (dst + k) mem" "src_len \<le> i' \<longleftrightarrow> length out \<le> dst_len - 1"
    using assms(6) unfolding decoded_to_def by auto
  define mem2 where "mem2 = mem'[dst + k := NUL]"
  have lk: "dst + k < length mem'" "length out < dst_len \<longleftrightarrow> src_len \<le> i'" "src_len \<le> i' \<Longrightarrow> k = length out"
    using assms m by auto
  then have "mg_url_decode mem src src_len dst dst_len form
      = Some (mem2, if length out < dst_len then int (length out) else -1)"
    by (simp add: mg_url_decode_def r wr_lt mem2_def)
  moreover have t: "take (dst + (k + 1)) mem2 = take dst mem @ take k out @ [NUL]"
    using take_update_nth [OF lk(1), of NUL] m(2) by (simp add: mem2_def)
  have "slice mem2 dst (k + 1) = drop dst (take (dst + (k + 1)) mem2)"
    by (simp add: slice_def drop_take)
  then have "slice mem2 dst (k + 1) = take k out @ [NUL]"
    unfolding t using assms by simp
  moreover have "take dst mem2 = take dst (take (dst + (k + 1)) mem2)" by (simp add: min_def)
  then have "take dst mem2 = take dst mem"
    unfolding t using assms by simp
  moreover have "drop (dst + k + 1) mem2 = drop 1 (drop (dst + k) mem')"
    by (simp add: mem2_def add.commute)
  then have "drop (dst + k + 1) mem2 = drop (dst + k + 1) mem"
    unfolding m(3) by (simp add: add.commute)
  moreover have "length mem2 = length mem" using m(1) by (simp add: mem2_def)
  ultimately show ?thesis by blast
qed

text \<open>C31: \<open>mg_url_decode\<close> decodes into any destination that starts no later than its
  source, or behind it, so in particular onto itself: it never leaves the two buffers,
  writes the decoded characters cut at \<open>dst_len - 1\<close> and a terminator, changes
  nothing behind that, and returns the decoded length, or \<open>-1\<close> exactly when the
  destination is too small.\<close>

theorem mg_url_decode_correct:
  assumes "src + src_len \<le> length mem" "dst + dst_len \<le> length mem" "0 < dst_len"
    and "dst \<le> src \<or> src + src_len \<le> dst"
    and "out = url_decoded form (slice mem src src_len)" and "k = min (length out) (dst_len - 1)"
  shows "\<exists>mem'. mg_url_decode mem src src_len dst dst_len form
      = Some (mem', if length out < dst_len then int (length out) else -1)
    \<and> slice mem' dst (k + 1) = take k out @ [NUL] \<and> take dst mem' = take dst mem
    \<and> drop (dst + k + 1) mem' = drop (dst + k + 1) mem \<and> length mem' = length mem"
  using assms by (rule mg_url_decode_spec)

theorem mg_url_decode_correct_witness:
  "\<exists>mem'. mg_url_decode ''a%20b+c'' 0 7 0 6 True
      = Some (mem', if length (url_decoded True (slice ''a%20b+c'' 0 7)) < 6
          then int (length (url_decoded True (slice ''a%20b+c'' 0 7))) else -1)
    \<and> slice mem' 0 (5 + 1) = take 5 (url_decoded True (slice ''a%20b+c'' 0 7)) @ [NUL]
    \<and> take 0 mem' = take 0 ''a%20b+c''
    \<and> drop (0 + 5 + 1) mem' = drop (0 + 5 + 1) ''a%20b+c'' \<and> length mem' = length ''a%20b+c''"
  by (rule mg_url_decode_correct) (simp_all add: slice_def isxdigit_def isdigit_def ordc_def)

section \<open>The encoder\<close>

definition dont_escape :: string where
  "dont_escape = ''._-$,;~()''"

definition hexdigit :: "nat \<Rightarrow> char" where
  "hexdigit n = ''0123456789abcdef'' ! n"

text \<open>\<open>pos\<close> and \<open>en\<close> are offsets into the destination; the rest of the source is
  part of the result.\<close>

fun mg_url_encode_loop :: "char list \<Rightarrow> nat \<Rightarrow> nat \<Rightarrow> string \<Rightarrow> (char list \<times> nat \<times> string) option" where
  "mg_url_encode_loop dst pos en [] = Some (dst, pos, [])"
| "mg_url_encode_loop dst pos en (c # src) =
     (if c \<noteq> NUL \<and> pos < en
      then if isalnum c \<or> c \<in> set dont_escape
           then do {
             dst \<leftarrow> wr dst pos c;
             mg_url_encode_loop dst (pos + 1) en src
           }
           else if pos + 2 < en
           then do {
             dst \<leftarrow> wr dst pos CHR ''%'';
             dst \<leftarrow> wr dst (pos + 1) (hexdigit (drop_bit 4 (ordc c)));
             dst \<leftarrow> wr dst (pos + 2) (hexdigit (ordc c AND 15));
             mg_url_encode_loop dst (pos + 3) en src
           }
           else Some (dst, pos, c # src)
      else Some (dst, pos, c # src))"

text \<open>The conversion of the length to \<open>int\<close> is exact for destinations of less than 2 GB, as everywhere in this model.\<close>

definition mg_url_encode :: "string \<Rightarrow> char list \<Rightarrow> nat \<Rightarrow> (char list \<times> int) option" where
  "mg_url_encode src dst dst_len =
     do {
       (dst, pos, src) \<leftarrow> mg_url_encode_loop dst 0 (dst_len - 1) src;
       dst \<leftarrow> wr dst pos NUL;
       Some (dst, if deref src = NUL then int pos else -1)
     }"

definition url_escape :: "char \<Rightarrow> string" where
  "url_escape c = (if isalnum c \<or> c \<in> set dont_escape then [c]
     else [CHR ''%'', hexdigit (drop_bit 4 (ordc c)), hexdigit (ordc c AND 15)])"

definition url_encoded :: "string \<Rightarrow> string" where
  "url_encoded s = concat (map url_escape s)"

lemma url_encoded_simps [simp]:
  "url_encoded [] = []" "url_encoded (c # s) = url_escape c @ url_encoded s"
  by (simp_all add: url_encoded_def)

lemma hexdigit_facts:
  assumes "n < 16"
  shows "isxdigit (hexdigit n)" "HEXTOI (tolower (hexdigit n)) = n" "hexdigit n \<noteq> NUL"
proof -
  have "\<forall>n \<in> set [0..<16]. isxdigit (hexdigit n) \<and> HEXTOI (tolower (hexdigit n)) = n \<and> hexdigit n \<noteq> NUL"
    by code_simp
  moreover have "n \<in> set [0..<16]" using assms by simp
  ultimately show "isxdigit (hexdigit n)" "HEXTOI (tolower (hexdigit n)) = n" "hexdigit n \<noteq> NUL"
    by blast+
qed

lemma nibbles:
  fixes n :: nat
  assumes "n < 256"
  shows "drop_bit 4 n < 16" "n AND 15 < 16" "push_bit 4 (drop_bit 4 n) OR (n AND 15) = n"
proof -
  have a: "n AND 15 = take_bit 4 n" by (simp add: take_bit_eq_mask mask_eq_exp_minus_1)
  show "drop_bit 4 n < 16" using assms by (simp add: drop_bit_eq_div)
  show "n AND 15 < 16" by (simp add: a take_bit_eq_mod)
  show "push_bit 4 (drop_bit 4 n) OR (n AND 15) = n" unfolding a by (rule bit_eqI) (auto simp: bit_simps)
qed

lemma hex_char_digits:
  "isxdigit (hexdigit (drop_bit 4 (ordc c)))" "isxdigit (hexdigit (ordc c AND 15))"
  "hex_char (hexdigit (drop_bit 4 (ordc c))) (hexdigit (ordc c AND 15)) = c"
  "hexdigit (drop_bit 4 (ordc c)) \<noteq> NUL" "hexdigit (ordc c AND 15) \<noteq> NUL"
  using nibbles [OF ordc_less, of c] by (simp_all add: hexdigit_facts hex_char_def)

lemma cstring_url_encoded: "cstring s \<Longrightarrow> cstring (url_encoded s)"
  using hex_char_digits by (induction s) (auto simp: url_escape_def)

lemma url_decoded_escape:
  assumes "c \<noteq> NUL"
  shows "url_decoded form (url_escape c @ s) = c # url_decoded form s"
proof (cases "isalnum c \<or> c \<in> set dont_escape")
  case True
  then have "c \<noteq> CHR ''%''" "c \<noteq> CHR ''+''"
    by (auto simp: ctype_defs ordc_def dont_escape_def)
  then show ?thesis using True url_decoded_plain [of c s form] by (simp add: url_escape_def)
next
  case False
  then show ?thesis using hex_char_digits [of c] by (simp add: url_escape_def)
qed

lemma url_decoded_encoded: "cstring s \<Longrightarrow> url_decoded form (url_encoded s) = s"
  by (induction s) (simp_all add: url_decoded_escape)

interpretation url: codec url_encoded "\<lambda>s. Some (url_decoded form s)" cstring for form
  by unfold_locales (simp add: url_decoded_encoded)

definition encoded_to :: "char list \<Rightarrow> nat \<Rightarrow> nat \<Rightarrow> string \<Rightarrow> (char list \<times> nat \<times> string) option \<Rightarrow> bool" where
  "encoded_to dst pos en src r \<longleftrightarrow>
     (\<exists>dst' k. r = Some (dst', pos + length (url_encoded (take k src)), drop k src) \<and> k \<le> length src
        \<and> length dst' = length dst \<and> pos + length (url_encoded (take k src)) \<le> en
        \<and> take (pos + length (url_encoded (take k src))) dst' = take pos dst @ url_encoded (take k src)
        \<and> (k = length src \<longleftrightarrow> pos + length (url_encoded src) \<le> en))"

lemma encoded_to_step:
  assumes "encoded_to dst1 (pos + length (url_escape c)) en src r"
    and "length dst1 = length dst" "take (pos + length (url_escape c)) dst1 = take pos dst @ url_escape c"
  shows "encoded_to dst pos en (c # src) r"
proof -
  obtain dst' k where
    "r = Some (dst', pos + length (url_escape c) + length (url_encoded (take k src)), drop k src)" "k \<le> length src"
    "length dst' = length dst1" "pos + length (url_escape c) + length (url_encoded (take k src)) \<le> en"
    "take (pos + length (url_escape c) + length (url_encoded (take k src))) dst'
      = take (pos + length (url_escape c)) dst1 @ url_encoded (take k src)"
    "k = length src \<longleftrightarrow> pos + length (url_escape c) + length (url_encoded src) \<le> en"
    using assms(1) unfolding encoded_to_def by blast
  with assms(2,3) show ?thesis
    unfolding encoded_to_def by (intro exI [of _ dst'] exI [of _ "Suc k"]) (simp add: add.assoc)
qed

lemma url_escape_length: "0 < length (url_escape c)"
  by (simp add: url_escape_def)

lemma url_encoded_length: "length s \<le> length (url_encoded s)"
proof (induction s)
  case (Cons c s)
  then show ?case using url_escape_length [of c] by (simp del: length_greater_0_conv)
qed simp

lemma mg_url_encode_loop_spec:
  assumes "cstring src" "pos \<le> en" "en < length dst"
  shows "encoded_to dst pos en src (mg_url_encode_loop dst pos en src)"
  using assms
proof (induction src arbitrary: dst pos)
  case Nil
  then show ?case by (simp add: encoded_to_def)
next
  case (Cons c src)
  show ?case
  proof (cases "pos + length (url_escape c) \<le> en")
    case True
    have "\<exists>dst1. mg_url_encode_loop dst pos en (c # src) = mg_url_encode_loop dst1 (pos + length (url_escape c)) en src
      \<and> length dst1 = length dst \<and> take (pos + length (url_escape c)) dst1 = take pos dst @ url_escape c"
    proof (cases "isalnum c \<or> c \<in> set dont_escape")
      case plain: True
      with True Cons.prems show ?thesis
        by (intro exI [of _ "dst[pos := c]"]) (simp add: url_escape_def wr_lt take_update_nth)
    next
      case esc: False
      let ?h = "hexdigit (drop_bit 4 (ordc c))" and ?l = "hexdigit (ordc c AND 15)"
      have "take (Suc (Suc (Suc pos))) (dst[pos := CHR ''%'', Suc pos := ?h, Suc (Suc pos) := ?l])
        = take pos dst @ [CHR ''%'', ?h, ?l]"
        using esc True Cons.prems by (simp add: url_escape_def take_update_nth)
      with esc True Cons.prems show ?thesis
        by (intro exI [of _ "dst[pos := CHR ''%'', Suc pos := ?h, Suc (Suc pos) := ?l]"])
          (simp add: url_escape_def wr_lt numeral_3_eq_3)
    qed
    then obtain dst1 where d: "mg_url_encode_loop dst pos en (c # src) = mg_url_encode_loop dst1 (pos + length (url_escape c)) en src"
      "length dst1 = length dst" "take (pos + length (url_escape c)) dst1 = take pos dst @ url_escape c" by blast
    have "encoded_to dst1 (pos + length (url_escape c)) en src (mg_url_encode_loop dst1 (pos + length (url_escape c)) en src)"
      using Cons True d by (intro Cons.IH) auto
    with d show ?thesis by (auto intro: encoded_to_step)
  next
    case False
    then have "mg_url_encode_loop dst pos en (c # src) = Some (dst, pos, c # src)"
      by (auto simp: url_escape_def split: if_splits)
    with False Cons.prems url_escape_length [of c] show ?thesis
      by (auto simp: encoded_to_def intro!: exI [of _ dst] exI [of _ 0])
  qed
qed

lemma mg_url_encode_spec:
  assumes "cstring src" "0 < dst_len" "dst_len \<le> length dst"
  shows "\<exists>dst' k. mg_url_encode src dst dst_len
      = Some (dst', if length (url_encoded src) < dst_len then int (length (url_encoded src)) else -1)
    \<and> str_at dst' 0 = url_encoded (take k src) \<and> length dst' = length dst
    \<and> (length (url_encoded src) < dst_len \<longleftrightarrow> length src \<le> k)"
proof -
  have "encoded_to dst 0 (dst_len - 1) src (mg_url_encode_loop dst 0 (dst_len - 1) src)"
    using assms by (intro mg_url_encode_loop_spec) auto
  then obtain dst' k where
    r: "mg_url_encode_loop dst 0 (dst_len - 1) src = Some (dst', length (url_encoded (take k src)), drop k src)"
    and d: "k \<le> length src" "length dst' = length dst" "length (url_encoded (take k src)) \<le> dst_len - 1"
      "take (length (url_encoded (take k src))) dst' = url_encoded (take k src)"
      "k = length src \<longleftrightarrow> length (url_encoded src) \<le> dst_len - 1"
    unfolding encoded_to_def by auto
  define e where "e = length (url_encoded (take k src))"
  have e: "e < length dst'" using d assms by (simp add: e_def)
  have "cstring (take k src)" using assms(1) by (auto simp: cstring_def dest: in_set_takeD)
  then have "str_at (dst'[e := NUL]) 0 = url_encoded (take k src)"
    using e d(4) by (intro str_at_take [where k = e]) (simp_all add: e_def cstring_url_encoded)
  moreover have fit: "length (url_encoded src) < dst_len \<longleftrightarrow> length src \<le> k"
    using d(1,5) assms(2) by auto
  moreover have "deref (drop k src) = NUL \<longleftrightarrow> length src \<le> k"
    using assms(1) in_set_dropD [of NUL k src] by (cases "drop k src") (auto simp: cstring_def)
  then have "mg_url_encode src dst dst_len
      = Some (dst'[e := NUL], if length (url_encoded src) < dst_len then int (length (url_encoded src)) else -1)"
    unfolding mg_url_encode_def r using e d(1) fit by (simp add: e_def wr_lt)
  ultimately show ?thesis using d(2) by (metis length_list_update)
qed

text \<open>\<open>mg_url_encode\<close> escapes exactly the characters other than letters, digits and
  \<open>._-$,;~()\<close>, whole escapes only: the destination gets the encoding of as many
  characters as fit, terminated, within its \<open>dst_len\<close> bytes, and the result is the length
  of the encoding or \<open>-1\<close> exactly when that does not fit.\<close>

theorem mg_url_encode_correct:
  assumes "cstring src" "0 < dst_len" "dst_len \<le> length dst"
  shows "\<exists>dst' k. mg_url_encode src dst dst_len
      = Some (dst', if length (url_encoded src) < dst_len then int (length (url_encoded src)) else -1)
    \<and> str_at dst' 0 = url_encoded (take k src) \<and> length dst' = length dst
    \<and> (length (url_encoded src) < dst_len \<longleftrightarrow> length src \<le> k)"
  using assms by (rule mg_url_encode_spec)

theorem mg_url_encode_correct_witness:
  "\<exists>dst' k. mg_url_encode ''a b'' ''xxxxxx'' 6
      = Some (dst', if length (url_encoded ''a b'') < 6 then int (length (url_encoded ''a b'')) else -1)
    \<and> str_at dst' 0 = url_encoded (take k ''a b'') \<and> length dst' = length ''xxxxxx''
    \<and> (length (url_encoded ''a b'') < 6 \<longleftrightarrow> length ''a b'' \<le> k)"
  by (rule mg_url_encode_correct) simp_all

text \<open>C30: what \<open>mg_url_encode\<close> writes, \<open>mg_url_decode\<close> reads back, with and without
  form encoding and onto the same buffer.\<close>

theorem url_encode_decode:
  assumes "cstring src" "dst_len \<le> length dst" "mg_url_encode src dst dst_len = Some (buf, r)"
    and "0 < dst_len" "0 \<le> r"
  shows "\<exists>buf'. mg_url_decode buf 0 (nat r) 0 (nat r + 1) form = Some (buf', int (length src))
    \<and> str_at buf' 0 = src"
proof -
  define e where "e = url_encoded src"
  obtain dst' k where
    q: "mg_url_encode src dst dst_len = Some (dst', if length e < dst_len then int (length e) else -1)"
    "str_at dst' 0 = url_encoded (take k src)" "length dst' = length dst" "length e < dst_len \<longleftrightarrow> length src \<le> k"
    using mg_url_encode_spec [OF assms(1,4,2)] unfolding e_def by blast
  then have r: "r = (if length e < dst_len then int (length e) else -1)" "str_at buf 0 = url_encoded (take k src)"
    "length buf = length dst" "length e < dst_len \<longleftrightarrow> length src \<le> k"
    using assms(3) by simp_all
  with assms(5) have l: "length e < dst_len" "r = int (length e)" "str_at buf 0 = e"
    by (auto simp: e_def split: if_splits)
  then have sl: "slice buf 0 (length e) = e"
    using takeWhile_eq_take [of "\<lambda>c. c \<noteq> NUL" buf] by (simp add: str_at_def slice_def)
  have dec: "url_decoded form e = src"
    using url_decoded_encoded [OF assms(1)] by (simp add: e_def)
  have "length src \<le> length e" unfolding e_def by (rule url_encoded_length)
  obtain buf' where b: "mg_url_decode buf 0 (length e) 0 (length e + 1) form = Some (buf', int (length src))"
    "slice buf' 0 (length src + 1) = src @ [NUL]"
    using mg_url_decode_spec [of 0 "length e" buf 0 "length e + 1" src form "length src"] sl dec l(1) r(3) assms(2)
      \<open>length src \<le> length e\<close> by auto
  have "drop 0 buf' = take (length src + 1) buf' @ drop (length src + 1) buf'"
    by (simp only: append_take_drop_id drop0)
  then have "drop 0 buf' = (src @ [NUL]) @ drop (length src + 1) buf'"
    by (simp only: b(2) [unfolded slice_def drop0])
  then have "drop 0 buf' = src @ NUL # drop (length src + 1) buf'"
    by (simp only: append.assoc append_Cons append_Nil)
  with assms(1) have "str_at buf' 0 = src" by (rule str_atI)
  with b(1) l(2) show ?thesis by auto
qed

theorem url_encode_decode_witness:
  "\<exists>buf'. mg_url_decode [CHR ''a'', NUL] 0 (nat 1) 0 (nat 1 + 1) True = Some (buf', int (length ''a''))
    \<and> str_at buf' 0 = ''a''"
  by (rule url_encode_decode [where dst = "''xx''" and dst_len = 2])
    (simp_all add: mg_url_encode_def wr_def ctype_defs ordc_def)

section \<open>Form variables\<close>

text \<open>
  The search of \<open>mg_get_var2\<close>: \<open>data\<close> is the \<open>data_len\<close> bytes of the form, the result
  the position of the variable. The code's \<open>occurrence--\<close> runs only for a match.
\<close>

function mg_get_var2_loop :: "string \<Rightarrow> string \<Rightarrow> nat \<Rightarrow> nat \<Rightarrow> nat option" where
  "mg_get_var2_loop data name occurrence p =
     (if p + length name < length data
      then if (p = 0 \<or> data ! (p - 1) = CHR ''&'') \<and> data ! (p + length name) = CHR ''=''
              \<and> mg_strncasecmp name (drop p data) (length name) = 0
           then if occurrence = 0 then Some p
                else mg_get_var2_loop data name (occurrence - 1) (p + 1)
           else mg_get_var2_loop data name occurrence (p + 1)
      else None)"
  by pat_completeness auto
termination
  by (relation "measure (\<lambda>(data, name, occurrence, p). length data - p)") auto

declare mg_get_var2_loop.simps [simp del]

text \<open>The conversion of a \<open>size_t\<close> to \<open>int\<close>. A negative length is for \<open>mg_url_decode\<close> the same as 0.\<close>

definition to_int32 :: "nat \<Rightarrow> int" where
  "to_int32 n = (int n + 2147483648) mod 4294967296 - 2147483648"

lemma to_int32_small [simp]: "n < 2147483648 \<Longrightarrow> to_int32 n = int n"
  by (simp add: to_int32_def)

text \<open>\<open>None\<close> for a pointer is \<open>NULL\<close>; the destination is behind the data in memory.\<close>

definition mg_get_var2 ::
  "string option \<Rightarrow> string option \<Rightarrow> char list option \<Rightarrow> nat \<Rightarrow> nat \<Rightarrow> (char list option \<times> int) option" where
  "mg_get_var2 data name dst dst_len occurrence =
     (case dst of
        None \<Rightarrow> Some (None, -2)
      | Some dst \<Rightarrow>
          if dst_len = 0 then Some (Some dst, -2)
          else case (data, name) of
            (Some data, Some name) \<Rightarrow>
              if data = [] then Option.bind (wr dst 0 NUL) (\<lambda>dst. Some (Some dst, -1))
              else do {
                dst \<leftarrow> wr dst 0 NUL;
                case mg_get_var2_loop data name occurrence 0 of
                  None \<Rightarrow> Some (Some dst, -1)
                | Some p \<Rightarrow>
                    let p = p + length name + 1;
                        s = p + length (takeWhile (\<lambda>c. c \<noteq> CHR ''&'') (drop p data))
                    in if s < p then Some (Some dst, -3)
                       else do {
                         (mem, len) \<leftarrow> mg_url_decode (data @ dst) p (nat (to_int32 (s - p))) (length data) (nat (to_int32 dst_len)) True;
                         Some (Some (drop (length data) mem), if len = -1 then -2 else len)
                       }
              }
          | _ \<Rightarrow> Option.bind (wr dst 0 NUL) (\<lambda>dst. Some (Some dst, -1)))"

definition mg_get_var ::
  "string option \<Rightarrow> string option \<Rightarrow> char list option \<Rightarrow> nat \<Rightarrow> (char list option \<times> int) option" where
  "mg_get_var data name dst dst_len = mg_get_var2 data name dst dst_len 0"

text \<open>The reference: the fields between the ampersands.\<close>

definition is_var :: "string \<Rightarrow> string \<Rightarrow> bool" where
  "is_var name f \<longleftrightarrow> length name < length f \<and> f ! length name = CHR ''=''
     \<and> fold_case (take (length name) f) = fold_case name"

definition form_values :: "string \<Rightarrow> string \<Rightarrow> string list" where
  "form_values name data =
     map (\<lambda>f. url_decoded True (drop (length name + 1) f)) (filter (is_var name) (split_on CHR ''&'' data))"

abbreviation field_start :: "string \<Rightarrow> nat \<Rightarrow> bool" where
  "field_start data p \<equiv> p = 0 \<or> data ! (p - 1) = CHR ''&''"

definition fields_from :: "string \<Rightarrow> nat \<Rightarrow> string list" where
  "fields_from data p = (if field_start data p then split_on CHR ''&'' (drop p data)
     else tl (split_on CHR ''&'' (drop p data)))"

lemma fields_from_Suc:
  assumes "p < length data"
  shows "fields_from data p
    = (if field_start data p then [takeWhile (\<lambda>c. c \<noteq> CHR ''&'') (drop p data)] else []) @ fields_from data (p + 1)"
proof -
  have "drop p data = data ! p # drop (p + 1) data" using assms by (simp add: Cons_nth_drop_Suc)
  then show ?thesis by (auto simp: fields_from_def hd_split_on)
qed

lemma fields_from_length: "f \<in> set (fields_from data p) \<Longrightarrow> length f \<le> length data - p"
  using split_on_length [of f "CHR ''&''" "drop p data"] list.set_sel(2) [of "split_on CHR ''&'' (drop p data)" f]
  by (auto simp: fields_from_def split: if_splits)

lemma tolower_ne_upper: "tolower c = d \<Longrightarrow> \<not> islower d \<Longrightarrow> c = d"
  by (auto simp: tolower_def islower_def isupper_def split: if_splits)

lemma is_var_at:
  assumes "p + length name < length data" "CHR ''&'' \<notin> set name" "cstring name"
  shows "is_var name (takeWhile (\<lambda>c. c \<noteq> CHR ''&'') (drop p data))
    \<longleftrightarrow> data ! (p + length name) = CHR ''='' \<and> mg_strncasecmp name (drop p data) (length name) = 0"
proof -
  define n where "n = length name"
  define d where "d = drop p data"
  define f where "f = takeWhile (\<lambda>c. c \<noteq> CHR ''&'') d"
  have cmp: "mg_strncasecmp name d n = 0 \<longleftrightarrow> fold_case (take n d) = fold_case name"
    using mg_strncasecmp_eq_prefix [of name n d] assms(3) by (auto simp: n_def)
  have nth: "data ! (p + n) = d ! n" "n < length d" using assms(1) by (auto simp: d_def n_def)
  have pre: "take (length f) d = f" using takeWhile_eq_take [of _ d] by (simp add: f_def)
  have long: "n < length f" if "d ! n = CHR ''=''" "fold_case (take n d) = fold_case name"
  proof (rule ccontr)
    assume "\<not> n < length f"
    then have le: "length f \<le> n" by simp
    with nth have lt: "length f < length d" by simp
    then have amp: "d ! length f = CHR ''&''"
      unfolding f_def using nth_length_takeWhile by blast
    with that(1) le have "length f < n" by (cases "length f = n") auto
    then have "d ! length f \<in> set (take n d)"
      using nth(2) nth_mem [of "length f" "take n d"] by simp
    then have "tolower (d ! length f) \<in> set (fold_case name)"
      unfolding that(2) [symmetric] by simp
    then obtain c where c: "c \<in> set name" "tolower c = tolower (CHR ''&'')" unfolding amp by auto
    have "tolower (CHR ''&'') = CHR ''&''" "\<not> islower CHR ''&''"
      by (simp_all add: tolower_def isupper_def islower_def ordc_def)
    with c assms(2) show False using tolower_ne_upper by metis
  qed
  have "f ! n = d ! n" "take n f = take n d" if "n < length f"
    using that pre by (metis nth_take, metis take_take min.strict_order_iff)
  then have "is_var name f \<longleftrightarrow> d ! n = CHR ''='' \<and> fold_case (take n d) = fold_case name"
    using long by (auto simp: is_var_def n_def [symmetric])
  then show ?thesis
    unfolding f_def [symmetric] d_def [symmetric] n_def [symmetric] cmp nth(1) .
qed

lemma mg_get_var2_loop_spec:
  assumes "CHR ''&'' \<notin> set name" "cstring name"
  shows "case mg_get_var2_loop data name occurrence p of
      None \<Rightarrow> length (filter (is_var name) (fields_from data p)) \<le> occurrence
    | Some q \<Rightarrow> occurrence < length (filter (is_var name) (fields_from data p))
        \<and> takeWhile (\<lambda>c. c \<noteq> CHR ''&'') (drop q data) = filter (is_var name) (fields_from data p) ! occurrence
        \<and> q + length name < length data"
  using assms
proof (induction data name occurrence p rule: mg_get_var2_loop.induct)
  case (1 data name occurrence p)
  let ?fs = "\<lambda>p. filter (is_var name) (fields_from data p)"
  let ?f = "takeWhile (\<lambda>c. c \<noteq> CHR ''&'') (drop p data)"
  show ?case
  proof (cases "p + length name < length data")
    case False
    then have "\<not> is_var name f" if "f \<in> set (fields_from data p)" for f
      using fields_from_length [OF that] by (auto simp: is_var_def)
    then have "?fs p = []" by (simp add: filter_empty_conv)
    with False show ?thesis by (subst mg_get_var2_loop.simps) simp
  next
    case True
    then have step: "?fs p = (if field_start data p \<and> is_var name ?f then [?f] else []) @ ?fs (p + 1)"
      using fields_from_Suc [of p data] by simp
    show ?thesis
    proof (cases "field_start data p \<and> is_var name ?f")
      case hit: True
      then have loop: "mg_get_var2_loop data name occurrence p
        = (if occurrence = 0 then Some p else mg_get_var2_loop data name (occurrence - 1) (p + 1))"
        using True is_var_at [OF True "1.prems"] by (subst mg_get_var2_loop.simps) simp
      show ?thesis
      proof (cases "occurrence = 0")
        case zero: True
        with step hit True loop show ?thesis by simp
      next
        case False
        have "data ! (p + length name) = CHR ''='' \<and> mg_strncasecmp name (drop p data) (length name) = 0"
          using hit is_var_at [OF True "1.prems"] by simp
        with "1.IH"(1) [OF True _ False "1.prems"] hit
        have "case mg_get_var2_loop data name (occurrence - 1) (p + 1) of
            None \<Rightarrow> length (?fs (p + 1)) \<le> occurrence - 1
          | Some q \<Rightarrow> occurrence - 1 < length (?fs (p + 1))
              \<and> takeWhile (\<lambda>c. c \<noteq> CHR ''&'') (drop q data) = ?fs (p + 1) ! (occurrence - 1)
              \<and> q + length name < length data" by blast
        with step hit loop False show ?thesis
          by (cases "mg_get_var2_loop data name (occurrence - 1) (p + 1)") auto
      qed
    next
      case miss: False
      then have loop: "mg_get_var2_loop data name occurrence p = mg_get_var2_loop data name occurrence (p + 1)"
        using True is_var_at [OF True "1.prems"] by (subst mg_get_var2_loop.simps) auto
      have "\<not> (field_start data p \<and> data ! (p + length name) = CHR ''=''
          \<and> mg_strncasecmp name (drop p data) (length name) = 0)"
        using miss is_var_at [OF True "1.prems"] by blast
      from "1.IH"(2) [OF True this "1.prems"] show ?thesis
        unfolding loop step if_not_P [OF miss] append_Nil .
    qed
  qed
qed

lemma mg_get_var2_spec:
  assumes "cstring name" "CHR ''&'' \<notin> set name" "data \<noteq> []" "0 < dst_len" "dst_len \<le> length dst"
    and "vs = form_values name data" "dst_len < 2147483648" "length data < 2147483648"
  shows "\<exists>dst'. mg_get_var2 (Some data) (Some name) (Some dst) dst_len occurrence
      = Some (Some dst', if length vs \<le> occurrence then -1
          else if length (vs ! occurrence) < dst_len then int (length (vs ! occurrence)) else -2)
    \<and> length dst' = length dst
    \<and> (let out = take (dst_len - 1) (if occurrence < length vs then vs ! occurrence else [])
       in take (length out + 1) dst' = out @ [NUL])"
proof -
  define fs where "fs = filter (is_var name) (split_on CHR ''&'' data)"
  have vs: "vs = map (\<lambda>f. url_decoded True (drop (length name + 1) f)) fs"
    using assms(6) by (simp add: form_values_def fs_def)
  have ff: "filter (is_var name) (fields_from data 0) = fs" by (simp add: fs_def fields_from_def)
  define dst1 where "dst1 = dst[0 := NUL]"
  have d1: "wr dst 0 NUL = Some dst1" "length dst1 = length dst" "take 1 dst1 = [NUL]"
    using assms(4,5) by (cases dst; simp add: wr_def dst1_def)+
  note loop = mg_get_var2_loop_spec [OF assms(2,1), where data = data and occurrence = occurrence and p = 0, unfolded ff]
  show ?thesis
  proof (cases "mg_get_var2_loop data name occurrence 0")
    case None
    with loop have "length vs \<le> occurrence" by (simp add: vs)
    then show ?thesis
      using None assms(3,4) d1(2,3) by (simp add: mg_get_var2_def d1(1))
  next
    case (Some q)
    with loop have q: "occurrence < length fs" "takeWhile (\<lambda>c. c \<noteq> CHR ''&'') (drop q data) = fs ! occurrence"
      "q + length name < length data" by simp_all
    define p where "p = q + length name + 1"
    define v where "v = takeWhile (\<lambda>c. c \<noteq> CHR ''&'') (drop p data)"
    define out where "out = url_decoded True v"
    have "fs ! occurrence \<in> set fs" using q(1) by simp
    then have var: "is_var name (fs ! occurrence)" by (simp add: fs_def)
    have v: "drop (length name + 1) (fs ! occurrence) = v"
    proof -
      have l: "length name < length (fs ! occurrence)" using var by (simp add: is_var_def)
      with takeWhile_drop [of "length name + 1" "\<lambda>c. c \<noteq> CHR ''&''" "drop q data"] show ?thesis
        by (simp add: v_def p_def q(2) add.commute)
    qed
    define mem where "mem = data @ dst1"
    have lv: "p + length v \<le> length data"
      using q(3) length_takeWhile_le [of "\<lambda>c. c \<noteq> CHR ''&''" "drop p data"] by (auto simp: v_def p_def)
    have sl: "slice mem p (length v) = v"
      using takeWhile_eq_take [of "\<lambda>c. c \<noteq> CHR ''&''" "drop p data"] lv by (simp add: slice_def mem_def v_def)
    define k where "k = min (length out) (dst_len - 1)"
    obtain mem' where m: "mg_url_decode mem p (length v) (length data) dst_len True
        = Some (mem', if length out < dst_len then int (length out) else -1)"
      "slice mem' (length data) (k + 1) = take k out @ [NUL]" "length mem' = length mem"
      using mg_url_decode_spec [of p "length v" mem "length data" dst_len out True k] lv sl assms(4,5) d1(2)
      by (auto simp: mem_def out_def k_def)
    have kt: "take k out = take (dst_len - 1) out" "length (take (dst_len - 1) out) = k"
      by (auto simp: k_def min_def)
    have "mg_get_var2 (Some data) (Some name) (Some dst) dst_len occurrence
        = Some (Some (drop (length data) mem'), if length out < dst_len then int (length out) else -2)"
      using m(1) assms(3,4,7,8) Some lv by (simp add: mg_get_var2_def d1(1) p_def [symmetric, simplified] v_def [symmetric]
          mem_def [symmetric] Let_def)
    moreover have "vs ! occurrence = out" "occurrence < length vs"
      using q(1) v by (simp_all add: vs out_def)
    moreover have "take (k + 1) (drop (length data) mem') = take k out @ [NUL]"
      using m(2) by (simp add: slice_def)
    ultimately show ?thesis
      using m(3) d1(2) kt by (auto simp: Let_def mem_def)
  qed
qed

text \<open>C29: \<open>mg_get_var2\<close> returns the decoded value of the variable's \<open>occurrence\<close>-th field
  among the fields between the ampersands (names compared without case); \<open>-2\<close> exactly when there is
  no destination, or one of length 0, or the value does not fit; and \<open>-1\<close> exactly when there is no such
  field, no data or no name. A destination always holds a terminated string, the value cut to its
  size. Data and destination have less than 2 GB, for the code passes their lengths as \<open>int\<close>.\<close>

theorem mg_get_var2_correct:
  assumes "\<forall>n. name = Some n \<longrightarrow> cstring n \<and> CHR ''&'' \<notin> set n" "\<forall>d. dst = Some d \<longrightarrow> dst_len \<le> length d"
    and "dst_len < 2147483648" "\<forall>d. data = Some d \<longrightarrow> length d < 2147483648"
    and "vs = (case (data, name) of (Some d, Some n) \<Rightarrow> if d = [] then [] else form_values n d | _ \<Rightarrow> [])"
  shows "case dst of
      None \<Rightarrow> mg_get_var2 data name dst dst_len occurrence = Some (None, -2)
    | Some d \<Rightarrow> \<exists>dst'. mg_get_var2 data name dst dst_len occurrence
        = Some (Some dst', if dst_len = 0 then -2 else if length vs \<le> occurrence then -1
            else if length (vs ! occurrence) < dst_len then int (length (vs ! occurrence)) else -2)
      \<and> length dst' = length d
      \<and> (if dst_len = 0 then dst' = d
         else let out = take (dst_len - 1) (if occurrence < length vs then vs ! occurrence else [])
              in take (length out + 1) dst' = out @ [NUL])"
proof (cases "dst = None \<or> dst_len = 0")
  case True
  then show ?thesis by (cases dst) (auto simp: mg_get_var2_def)
next
  case False
  then obtain d where d: "dst = Some d" "0 < dst_len" "dst_len \<le> length d" using assms(2) by auto
  then have w: "wr d 0 NUL = Some (d[0 := NUL])" "take (Suc 0) (d[0 := NUL]) = [NUL]" by (cases d; simp add: wr_def)+
  show ?thesis
  proof (cases "data = None \<or> name = None \<or> data = Some []")
    case True
    then have "vs = []" using assms(5) by (auto split: option.split)
    with True d w show ?thesis by (cases data; cases name) (auto simp: mg_get_var2_def wr_def)
  next
    case False
    then obtain x n where x: "data = Some x" "name = Some n" "x \<noteq> []" by auto
    then show ?thesis using mg_get_var2_spec [of n x dst_len d vs occurrence] assms d by auto
  qed
qed

theorem mg_get_var2_correct_witness:
  "(\<exists>dst'. mg_get_var2 (Some ''a=1&B=2&b=x%20y'') (Some ''b'') (Some ''........'') 8 1 = Some (Some dst', 3)
      \<and> take 4 dst' = ''x y'' @ [NUL])
   \<and> (\<exists>dst'. mg_get_var2 None (Some ''b'') (Some ''........'') 8 1 = Some (Some dst', -1))"
proof -
  define data where "data = ''a=1&B=2&b=x%20y''"
  define dst where "dst = ''........''"
  have vs: "form_values ''b'' data = [''2'', ''x y'']" unfolding data_def by code_simp
  have l: "length dst = 8" "length data = 15" by (simp_all add: dst_def data_def)
  then have vals: "(case (Some data, Some ''b'') of (Some d, Some n) \<Rightarrow> if d = [] then [] else form_values n d | _ \<Rightarrow> []) = [''2'', ''x y'']"
    using vs by auto
  have n: "\<forall>n. Some ''b'' = Some n \<longrightarrow> cstring n \<and> CHR ''&'' \<notin> set n" by (simp add: cstring_def)
  have d: "\<forall>d. Some dst = Some d \<longrightarrow> 8 \<le> length d" "(8 :: nat) < 2147483648" using l by simp_all
  have len: "\<forall>d. Some data = Some d \<longrightarrow> length d < 2147483648" by (simp add: l)
  let ?vs = "[''2'', ''x y'']"
  obtain dst' where "mg_get_var2 (Some data) (Some ''b'') (Some dst) 8 1
      = Some (Some dst', if (8 :: nat) = 0 then -2 else if length ?vs \<le> 1 then -1
          else if length (?vs ! 1) < 8 then int (length (?vs ! 1)) else -2)"
    "if (8 :: nat) = 0 then dst' = dst else let out = take (8 - 1) (if 1 < length ?vs then ?vs ! 1 else []) in take (length out + 1) dst' = out @ [NUL]"
    using mg_get_var2_correct [OF n d len vals [symmetric], of 1, unfolded option.case] by blast
  then have "mg_get_var2 (Some data) (Some ''b'') (Some dst) 8 1 = Some (Some dst', 3) \<and> take 4 dst' = ''x y'' @ [NUL]"
    by (simp add: Let_def eval_nat_numeral)
  moreover obtain dst' where "mg_get_var2 None (Some ''b'') (Some dst) 8 1
      = Some (Some dst', if (8 :: nat) = 0 then -2 else if length [] \<le> 1 then -1
          else if length ([] ! 1) < 8 then int (length ([] ! 1)) else -2)"
    using mg_get_var2_correct [OF n d, of None "[]" 1, unfolded option.case] by fastforce
  then have "mg_get_var2 None (Some ''b'') (Some dst) 8 1 = Some (Some dst', -1)" by simp
  ultimately show ?thesis unfolding data_def dst_def by blast
qed

section \<open>Cookies\<close>

text \<open>
  The part of \<open>mg_get_cookie\<close> behind the name and \<open>=\<close>: \<open>s\<close> and \<open>p\<close> are positions
  in the header.
\<close>

definition mg_get_cookie_value :: "string \<Rightarrow> nat \<Rightarrow> char list \<Rightarrow> nat \<Rightarrow> (char list \<times> int) option" where
  "mg_get_cookie_value h s dst dst_size =
     (let p = s + length (takeWhile (\<lambda>c. c \<noteq> CHR '' '') (drop s h));
          p = (if cat h (p - 1) = CHR '';'' then p - 1 else p);
          (s, p) = (if cat h s = DQUOTE \<and> cat h (p - 1) = DQUOTE \<and> s + 1 < p then (s + 1, p - 1) else (s, p))
      in if p - s < dst_size
         then do {
           dst \<leftarrow> mg_strlcpy dst 0 (drop s h) (p - s + 1);
           Some (dst, int (p - s))
         }
         else Some (dst, -3))"

text \<open>The search, from position \<open>s\<close>: \<open>None\<close> also when it never ends.\<close>

partial_function (option) mg_get_cookie_loop ::
  "string \<Rightarrow> string \<Rightarrow> char list \<Rightarrow> nat \<Rightarrow> nat \<Rightarrow> (char list \<times> int) option" where
  "mg_get_cookie_loop h name dst dst_size s =
     (case mg_strcasestr (drop s h) name of
        None \<Rightarrow> Some (dst, -1)
      | Some k \<Rightarrow>
          if cat h (s + k + length name) = CHR ''='' \<and> (s + k = 0 \<or> cat h (s + k - 1) = CHR '' '')
          then mg_get_cookie_value h (s + k + length name + 1) dst dst_size
          else mg_get_cookie_loop h name dst dst_size (s + k + length name))"

definition mg_get_cookie ::
  "string option \<Rightarrow> string option \<Rightarrow> char list option \<Rightarrow> nat \<Rightarrow> (char list option \<times> int) option" where
  "mg_get_cookie cookie_header var_name dst dst_size =
     (case dst of
        None \<Rightarrow> Some (None, -2)
      | Some dst \<Rightarrow>
          if dst_size = 0 then Some (Some dst, -2)
          else do {
            dst \<leftarrow> wr dst 0 NUL;
            case (var_name, cookie_header) of
              (Some name, Some h) \<Rightarrow>
                do { (dst, len) \<leftarrow> mg_get_cookie_loop h name dst dst_size 0; Some (Some dst, len) }
            | _ \<Rightarrow> Some (Some dst, -1)
          })"

text \<open>The reference: where a cookie of this name starts, and its value.\<close>

definition cookie_at :: "string \<Rightarrow> string \<Rightarrow> nat \<Rightarrow> bool" where
  "cookie_at h name s \<longleftrightarrow> occurs_at name h s \<and> cat h (s + length name) = CHR ''=''
     \<and> (s = 0 \<or> cat h (s - 1) = CHR '' '')"

definition cookie_value :: "string \<Rightarrow> string" where
  "cookie_value t =
     (let v = takeWhile (\<lambda>c. c \<noteq> CHR '' '') t;
          v = (if v \<noteq> [] \<and> last v = CHR '';'' then butlast v else v)
      in if 2 \<le> length v \<and> hd v = DQUOTE \<and> last v = DQUOTE then butlast (tl v) else v)"

lemma mg_strcasestr_spec:
  assumes "cstring b" "cstring s"
  shows "case mg_strcasestr b s of
      Some k \<Rightarrow> occurs_at s b k \<and> (\<forall>m < k. \<not> occurs_at s b m)
    | None \<Rightarrow> \<forall>m. \<not> occurs_at s b m"
  using mg_strcasestr_loop_spec [OF assms, of 0]
  by (cases "mg_strcasestr_loop b s 0") (auto simp: mg_strcasestr_def occurs_at_def)

lemma occurs_at_drop: "s \<le> length h \<Longrightarrow> occurs_at name (drop s h) k \<longleftrightarrow> occurs_at name h (s + k)"
  by (auto simp: occurs_at_def add.commute)

lemma occurs_at_le: "occurs_at name h s \<Longrightarrow> s + length name \<le> length h"
  by (simp add: occurs_at_def)

lemma mg_get_cookie_loop_spec:
  assumes "cstring h" "cstring name" "name \<noteq> []" "CHR '' '' \<notin> set name" "s \<le> length h"
    and "\<And>m. m < s \<Longrightarrow> \<not> cookie_at h name m"
  shows "mg_get_cookie_loop h name dst dst_size s
    = (if \<exists>m. cookie_at h name m
       then mg_get_cookie_value h ((LEAST m. cookie_at h name m) + length name + 1) dst dst_size
       else Some (dst, -1))"
  using assms(5,6)
proof (induction "length h - s" arbitrary: s rule: less_induct)
  case less
  note search = mg_strcasestr_spec [OF cstring_drop [OF assms(1), of s] assms(2)]
  show ?case
  proof (cases "mg_strcasestr (drop s h) name")
    case None
    with search have "\<not> occurs_at name h (s + k)" for k
      using occurs_at_drop [OF less.prems(1), of name] by auto
    then have "\<not> cookie_at h name m" if "s \<le> m" for m
      using that by (metis cookie_at_def le_add_diff_inverse)
    with less.prems have "\<not> cookie_at h name m" for m by (metis linorder_le_less_linear)
    then show ?thesis using None by (subst mg_get_cookie_loop.simps) auto
  next
    case (Some k)
    with search have k: "occurs_at name h (s + k)" "\<And>m. m < k \<Longrightarrow> \<not> occurs_at name h (s + m)"
      using occurs_at_drop [OF less.prems(1), of name] by auto
    have before: "\<not> cookie_at h name m" if "m < s + k" for m
    proof (cases "m < s")
      case False
      with that k(2) [of "m - s"] show ?thesis by (auto simp: cookie_at_def)
    qed (use less.prems in blast)
    show ?thesis
    proof (cases "cookie_at h name (s + k)")
      case True
      with before have "(LEAST m. cookie_at h name m) = s + k"
        by (intro Least_equality) (metis leI)+
      moreover have "cat h (s + k + length name) = CHR ''='' \<and> (s + k = 0 \<or> cat h (s + k - 1) = CHR '' '')"
        using True by (simp add: cookie_at_def)
      ultimately show ?thesis using True Some by (subst mg_get_cookie_loop.simps) auto
    next
      case False
      have l: "s + k + length name \<le> length h" using k(1) by (rule occurs_at_le)
      have inside: "\<not> cookie_at h name m" if m: "s + k < m" "m < s + k + length name" for m
      proof
        assume "cookie_at h name m"
        with m have sp: "h ! (m - 1) = CHR '' ''" using l by (auto simp: cookie_at_def cat_def split: if_splits)
        have "fold_case (take (length name) (drop (s + k) h)) = fold_case name" using k(1) by (simp add: occurs_at_def)
        moreover have "h ! (m - 1) \<in> set (take (length name) (drop (s + k) h))"
          using m l nth_mem [of "m - 1 - (s + k)" "take (length name) (drop (s + k) h)"] by simp
        ultimately have "tolower (CHR '' '') \<in> set (fold_case name)"
          unfolding sp by (metis image_eqI list.set_map)
        moreover have "tolower (CHR '' '') = CHR '' ''" by (simp add: tolower_def isupper_def ordc_def)
        moreover have "\<not> islower CHR '' ''" by (simp add: islower_def ordc_def)
        ultimately show False using assms(4) tolower_ne_upper by (metis (no_types, lifting) image_iff list.set_map)
      qed
      have "\<not> cookie_at h name m" if "m < s + k + length name" for m
        using that before inside False by (metis linorder_neqE_nat)
      with less.hyps [of "s + k + length name"] l assms(3)
      have IH: "mg_get_cookie_loop h name dst dst_size (s + k + length name)
        = (if \<exists>m. cookie_at h name m
           then mg_get_cookie_value h ((LEAST m. cookie_at h name m) + length name + 1) dst dst_size
           else Some (dst, -1))" by (cases name) auto
      have "mg_get_cookie_loop h name dst dst_size s = mg_get_cookie_loop h name dst dst_size (s + k + length name)"
        using Some False k(1) by (subst mg_get_cookie_loop.simps) (auto simp: cookie_at_def)
      with IH show ?thesis by simp
    qed
  qed
qed

lemma cat_last_prefix:
  assumes "v = take (length v) (drop s h)" "v \<noteq> []"
  shows "cat h (s + length v - 1) = last v" "cat h s = hd v"
proof -
  have "length v \<le> length (drop s h)" by (subst assms(1)) simp
  moreover have "0 < length v" using assms(2) by simp
  ultimately have l: "s + length v \<le> length h" unfolding length_drop by linarith
  from l \<open>0 < length v\<close> have l1: "s + length v - 1 < length h" "s + (length v - 1) = s + length v - 1" by linarith+
  have "last v = take (length v) (drop s h) ! (length v - 1)"
    using assms by (metis last_conv_nth)
  then show "cat h (s + length v - 1) = last v"
    using l l1 \<open>0 < length v\<close> by (simp add: cat_def)
  have "hd v = take (length v) (drop s h) ! 0" using assms by (metis hd_conv_nth)
  moreover have "s < length h" using l \<open>0 < length v\<close> by linarith
  ultimately show "cat h s = hd v" using \<open>0 < length v\<close> by (simp add: cat_def)
qed

lemma mg_get_cookie_value_spec:
  assumes "0 < s" "s \<le> length h" "h ! (s - 1) = CHR ''=''" "cstring h" "0 < dst_size" "dst_size \<le> length dst"
    and "v = cookie_value (drop s h)"
  shows "if length v < dst_size
    then \<exists>dst'. mg_get_cookie_value h s dst dst_size = Some (dst', int (length v)) \<and> str_at dst' 0 = v
    else mg_get_cookie_value h s dst dst_size = Some (dst, -3)"
proof -
  define w where "w = takeWhile (\<lambda>c. c \<noteq> CHR '' '') (drop s h)"
  define w1 where "w1 = (if w \<noteq> [] \<and> last w = CHR '';'' then butlast w else w)"
  have w: "w = take (length w) (drop s h)" using takeWhile_eq_take [of _ "drop s h"] by (simp add: w_def)
  have w1: "w1 = take (length w1) (drop s h)"
    using w by (auto simp: w1_def butlast_conv_take) (metis diff_le_self min.absorb1 take_take)
  define p0 where "p0 = s + length w"
  define p1 where "p1 = s + length w1"
  have eq: "cat h (s - 1) = CHR ''=''" using assms(1-3) by (simp add: cat_def)
  have "cat h (p0 - 1) = (if w = [] then CHR ''='' else last w)"
    using cat_last_prefix [OF w] eq by (auto simp: p0_def)
  then have p1: "(if cat h (p0 - 1) = CHR '';'' then p0 - 1 else p0) = p1"
    by (cases w) (auto simp: p0_def p1_def w1_def)
  have q: "cat h s = DQUOTE \<and> cat h (p1 - 1) = DQUOTE \<and> s + 1 < p1
      \<longleftrightarrow> 2 \<le> length w1 \<and> hd w1 = DQUOTE \<and> last w1 = DQUOTE"
    using cat_last_prefix [OF w1] by (cases "w1 = []") (auto simp: p1_def)
  define q1 where "q1 = (if 2 \<le> length w1 \<and> hd w1 = DQUOTE \<and> last w1 = DQUOTE then (s + 1, p1 - 1) else (s, p1))"
  have v: "v = (if 2 \<le> length w1 \<and> hd w1 = DQUOTE \<and> last w1 = DQUOTE then butlast (tl w1) else w1)"
    by (simp add: assms(7) cookie_value_def w_def [symmetric] w1_def Let_def)
  obtain s' p' where sp: "q1 = (s', p')" by (cases q1)
  have vs: "p' = s' + length v" "take (length v) (drop s' h) = v"
  proof -
    have g: "butlast (tl (take k t)) = take (k - 2) (tl t)" if "k \<le> length t" for k and t :: string
      using that by (cases k; cases t) (auto simp: butlast_take numeral_2_eq_2)
    have "length w1 \<le> length (drop s h)" by (subst w1) simp
    from g [OF this] have "butlast (tl w1) = take (length w1 - 2) (drop (s + 1) h)"
      unfolding w1 [symmetric] by (simp add: tl_drop [symmetric] drop_Suc)
    moreover have "length (butlast (tl w1)) = length w1 - 2" by simp
    ultimately have b: "take (length (butlast (tl w1))) (drop (s + 1) h) = butlast (tl w1)"
      "s + length w1 - 1 = s + 1 + length (butlast (tl w1))" if "2 \<le> length w1"
      using that by simp_all
    show "p' = s' + length v" "take (length v) (drop s' h) = v"
      using sp w1 b by (auto simp: q1_def v p1_def simp del: length_butlast split: if_splits)
  qed
  have run: "mg_get_cookie_value h s dst dst_size
    = (if length v < dst_size
       then Option.bind (mg_strlcpy dst 0 (drop s' h) (length v + 1)) (\<lambda>dst. Some (dst, int (length v)))
       else Some (dst, -3))"
    unfolding mg_get_cookie_value_def Let_def w_def [symmetric] p0_def [symmetric] p1 q q1_def [symmetric] sp
    by (simp add: vs(1))
  show ?thesis
  proof (cases "length v < dst_size")
    case True
    have "mg_strlcpy dst 0 (drop s' h) (length v + 1) = Some (v @ NUL # drop (Suc (length v)) dst)"
      using mg_strlcpy_spec [of "drop s' h" "length v + 1" 0 dst] assms(4,6) True vs(2) by (simp add: cstring_drop)
    moreover have "cstring v" using assms(4) vs(2) by (metis cstring_drop cstring_take)
    ultimately show ?thesis using True by (simp add: run)
  qed (simp add: run)
qed

text \<open>\<open>mg_get_cookie\<close> returns the value of the first cookie of the name (compared
  without case, at the start of the header or behind a space): the characters up to the next
  space, without a final semicolon and without enclosing quotes; \<open>-3\<close> when they do not fit
  and \<open>-1\<close> when there is no such cookie.\<close>

theorem mg_get_cookie_correct:
  assumes "cstring h" "cstring name" "name \<noteq> []" "CHR '' '' \<notin> set name"
    and "0 < dst_size" "dst_size \<le> length dst"
    and "v = (if \<exists>s. cookie_at h name s
      then Some (cookie_value (drop ((LEAST s. cookie_at h name s) + length name + 1) h)) else None)"
  shows "\<exists>dst'. mg_get_cookie (Some h) (Some name) (Some dst) dst_size
      = Some (Some dst', case v of None \<Rightarrow> -1 | Some v \<Rightarrow> if length v < dst_size then int (length v) else -3)
    \<and> str_at dst' 0 = (case v of None \<Rightarrow> [] | Some v \<Rightarrow> if length v < dst_size then v else [])"
proof -
  define dst1 where "dst1 = dst[0 := NUL]"
  have "dst = hd dst # tl dst" using assms(5,6) by (cases dst) auto
  then have d1: "wr dst 0 NUL = Some dst1" "length dst1 = length dst" "str_at dst1 0 = []"
    unfolding dst1_def by (metis length_Cons wr_lt zero_less_Suc, simp, metis list_update_code(2) str_at_0 append_Nil cstring_simps(1))
  note loop = mg_get_cookie_loop_spec [OF assms(1-4), of 0 dst1 dst_size, simplified]
  show ?thesis
  proof (cases "\<exists>s. cookie_at h name s")
    case False
    with loop assms(5,7) d1(3) show ?thesis by (simp add: mg_get_cookie_def d1(1))
  next
    case True
    define s where "s = (LEAST s. cookie_at h name s)"
    from True have s: "cookie_at h name s" unfolding s_def by (auto intro: LeastI)
    then have "s + length name < length h" "h ! (s + length name) = CHR ''=''"
      by (auto simp: cookie_at_def cat_def split: if_splits)
    with mg_get_cookie_value_spec [of "s + length name + 1" h dst_size dst1] assms d1 True loop
    show ?thesis
      by (auto simp: mg_get_cookie_def d1(1) s_def [symmetric] Let_def split: if_splits)
  qed
qed

theorem mg_get_cookie_correct_witness:
  "\<exists>dst'. mg_get_cookie (Some ''a=1; sid=x'') (Some ''sid'') (Some ''....'') 4
      = Some (Some dst', case (if \<exists>s. cookie_at ''a=1; sid=x'' ''sid'' s
          then Some (cookie_value (drop ((LEAST s. cookie_at ''a=1; sid=x'' ''sid'' s) + length ''sid'' + 1) ''a=1; sid=x''))
          else None) of None \<Rightarrow> -1 | Some v \<Rightarrow> if length v < 4 then int (length v) else -3)
    \<and> str_at dst' 0 = (case (if \<exists>s. cookie_at ''a=1; sid=x'' ''sid'' s
          then Some (cookie_value (drop ((LEAST s. cookie_at ''a=1; sid=x'' ''sid'' s) + length ''sid'' + 1) ''a=1; sid=x''))
          else None) of None \<Rightarrow> [] | Some v \<Rightarrow> if length v < 4 then v else [])"
  by (rule mg_get_cookie_correct) simp_all

text \<open>With an empty cookie name \<open>mg_get_cookie\<close> does not return, unless the header
  starts with \<open>=\<close>: the search finds the empty name where it stands and advances by zero.\<close>

theorem mg_get_cookie_diverges:
  assumes "cstring h" "deref h \<noteq> CHR ''=''"
  shows "mg_get_cookie (Some h) (Some []) (Some dst) dst_size
    = (if dst_size = 0 then Some (Some dst, -2) else None)"
proof -
  have search: "mg_strcasestr h [] = Some 0"
    using mg_strcasestr_spec [of h "[]"] assms(1)
    by (cases "mg_strcasestr h []") (auto simp: occurs_at_def gr0_conv_Suc)
  have "\<not> (h' = h \<and> name = [] \<and> s = 0)" if "mg_get_cookie_loop h' name d n s = Some r" for h' name d n s r
  proof (rule mg_get_cookie_loop.raw_induct [OF _ that, where P = "\<lambda>h' name d n s r. \<not> (h' = h \<and> name = [] \<and> s = 0)"])
    fix f h' name d n s r
    assume ih: "\<And>h' name d n s r. f h' name d n s = Some r \<Longrightarrow> \<not> (h' = h \<and> name = [] \<and> s = 0)"
      and step: "(case mg_strcasestr (drop s h') name of None \<Rightarrow> Some (d, -1)
        | Some k \<Rightarrow> if cat h' (s + k + length name) = CHR ''='' \<and> (s + k = 0 \<or> cat h' (s + k - 1) = CHR '' '')
            then mg_get_cookie_value h' (s + k + length name + 1) d n
            else f h' name d n (s + k + length name)) = Some r"
    show "\<not> (h' = h \<and> name = [] \<and> s = 0)"
    proof
      assume "h' = h \<and> name = [] \<and> s = 0"
      with step search assms(2) have "f h [] d n 0 = Some r" by simp
      with ih show False by blast
    qed
  qed
  then have "mg_get_cookie_loop h [] d n 0 = None" for d n
    by (metis not_None_eq)
  then show ?thesis
    by (cases dst) (simp_all add: mg_get_cookie_def wr_def)
qed

theorem mg_get_cookie_diverges_witness:
  "mg_get_cookie (Some ''a=b'') (Some []) (Some ''....'') 4 = (if (4 :: nat) = 0 then Some (Some ''....'', -2) else None)"
  by (rule mg_get_cookie_diverges) simp_all

end
