(* ===== verification/Uri.thy ===== *)
theory Uri
  imports CString
begin

text \<open>
  Normalisation of request paths, the server's defence against directory traversal:
  \<open>remove_dot_segments\<close>, which works in place on the buffer of the URI. The detailed
  model runs on that buffer with the code's two pointers; an abstract one works on an input
  and an output string, as RFC 3986 describes it, and the first is shown to refine the second.
\<close>

section \<open>The code\<close>

text \<open>\<open>strncmp(in, pre, strlen(pre)) == 0\<close>.\<close>

definition starts_with :: "string \<Rightarrow> string \<Rightarrow> bool" where
  "starts_with s pre \<longleftrightarrow> take (length pre) s = pre"

partial_function (option) rds_backslash :: "char list \<Rightarrow> nat \<Rightarrow> char list option" where
  "rds_backslash mem i =
     do {
       c \<leftarrow> rd mem i;
       if c = NUL then Some mem
       else do {
         mem \<leftarrow> (if c = BACKSLASH then wr mem i CHR ''/'' else Some mem);
         rds_backslash mem (i + 1)
       }
     }"

text \<open>\<open>do out_end--; while (inout != out_end && *out_end != '/')\<close>\<close>

fun rds_pop :: "char list \<Rightarrow> nat \<Rightarrow> nat option" where
  "rds_pop mem 0 = Some 0"
| "rds_pop mem (Suc out) =
     do {
       c \<leftarrow> rd mem out;
       if out \<noteq> 0 \<and> c \<noteq> CHR ''/'' then rds_pop mem out else Some out
     }"

text \<open>\<open>do *out_end++ = *in++; while (*in != 0 && *in != '/')\<close>\<close>

partial_function (option) rds_move :: "char list \<Rightarrow> nat \<Rightarrow> nat \<Rightarrow> (char list \<times> nat \<times> nat) option" where
  "rds_move mem out i =
     do {
       c \<leftarrow> rd mem i;
       mem \<leftarrow> wr mem out c;
       d \<leftarrow> rd mem (i + 1);
       if d \<noteq> NUL \<and> d \<noteq> CHR ''/'' then rds_move mem (out + 1) (i + 1)
       else Some (mem, out + 1, i + 1)
     }"

partial_function (option) rds_dots :: "char list \<Rightarrow> nat \<Rightarrow> nat \<Rightarrow> (char list \<times> nat) option" where
  "rds_dots mem out i =
     do {
       c \<leftarrow> rd mem i;
       let s = str_at mem i;
       if c = NUL then Some (mem, out)
       else if starts_with s ''../'' then rds_dots mem out (i + 3)
       else if starts_with s ''./'' then rds_dots mem out (i + 2)
       else if starts_with s ''/./'' then rds_dots mem out (i + 2)
       else if s = ''/.'' then do {
         mem \<leftarrow> wr mem (i + 1) NUL;
         rds_dots mem out i
       }
       else if starts_with s ''/../'' then do {
         out \<leftarrow> rds_pop mem out;
         rds_dots mem out (i + 3)
       }
       else if s = ''/..'' then do {
         mem \<leftarrow> wr mem (i + 1) NUL;
         out \<leftarrow> rds_pop mem out;
         rds_dots mem out i
       }
       else if s = ''.'' \<or> s = ''..'' then do {
         mem \<leftarrow> wr mem i NUL;
         rds_dots mem out i
       }
       else do {
         (mem, out, i) \<leftarrow> rds_move mem out i;
         rds_dots mem out i
       }
     }"

text \<open>\<open>do *out_end++ = '.'; in++; while (in != in_ahead)\<close>, \<open>k\<close> times.\<close>

fun rds_put_dots :: "char list \<Rightarrow> nat \<Rightarrow> nat \<Rightarrow> (char list \<times> nat) option" where
  "rds_put_dots mem out 0 = Some (mem, out)"
| "rds_put_dots mem out (Suc k) = Option.bind (wr mem out CHR ''.'') (\<lambda>mem. rds_put_dots mem (out + 1) k)"

partial_function (option) rds_squeeze :: "char list \<Rightarrow> nat \<Rightarrow> nat \<Rightarrow> (char list \<times> nat) option" where
  "rds_squeeze mem out i =
     do {
       c \<leftarrow> rd mem i;
       if c = NUL then Some (mem, out)
       else if c = CHR ''.'' then do {
         in_ahead \<leftarrow> scan (\<lambda>c. c = CHR ''.'') mem (i + 1);
         d \<leftarrow> rd mem in_ahead;
         if d = CHR ''/'' then do {
           out \<leftarrow> (if out = 0 then Some out
                   else do { e \<leftarrow> rd mem (out - 1); Some (if e = CHR ''/'' then out - 1 else out) });
           rds_squeeze mem out in_ahead
         }
         else if d = NUL then rds_squeeze mem out in_ahead
         else do {
           (mem, out) \<leftarrow> rds_put_dots mem out (in_ahead - i);
           rds_squeeze mem out in_ahead
         }
       }
       else if c = CHR ''/'' then do {
         mem \<leftarrow> wr mem out CHR ''/'';
         i \<leftarrow> scan (\<lambda>c. c = CHR ''/'') mem (i + 1);
         rds_squeeze mem (out + 1) i
       }
       else do {
         mem \<leftarrow> wr mem out c;
         rds_squeeze mem (out + 1) (i + 1)
       }
     }"

definition remove_dot_segments :: "char list option \<Rightarrow> char list option option" where
  "remove_dot_segments inout =
     (case inout of
        None \<Rightarrow> Some None
      | Some mem \<Rightarrow>
          do {
            mem \<leftarrow> rds_backslash mem 0;
            (mem, out_end) \<leftarrow> rds_dots mem 0 0;
            mem \<leftarrow> wr mem out_end NUL;
            (mem, out_end) \<leftarrow> rds_squeeze mem 0 0;
            mem \<leftarrow> wr mem out_end NUL;
            Some (Some mem)
          })"

section \<open>The specification on strings\<close>

text \<open>The output is kept in reverse. The first pass is section 5.2.4 of RFC 3986.\<close>

definition pop_segment :: "string \<Rightarrow> string" where
  "pop_segment out = tl (dropWhile (\<lambda>c. c \<noteq> CHR ''/'') out)"

function rfc_dots :: "string \<Rightarrow> string \<Rightarrow> string" where
  "rfc_dots out s =
     (if s = [] then out
      else if starts_with s ''../'' then rfc_dots out (drop 3 s)
      else if starts_with s ''./'' then rfc_dots out (drop 2 s)
      else if starts_with s ''/./'' then rfc_dots out (drop 2 s)
      else if s = ''/.'' then rfc_dots out ''/''
      else if starts_with s ''/../'' then rfc_dots (pop_segment out) (drop 3 s)
      else if s = ''/..'' then rfc_dots (pop_segment out) ''/''
      else if s = ''.'' \<or> s = ''..'' then rfc_dots out []
      else rfc_dots (rev (hd s # takeWhile (\<lambda>c. c \<noteq> CHR ''/'') (tl s)) @ out)
             (dropWhile (\<lambda>c. c \<noteq> CHR ''/'') (tl s)))"
  by pat_completeness auto
termination
proof (relation "measure (\<lambda>(out, s). length s)")
  fix out s :: string
  assume "s \<noteq> []"
  then show "((rev (hd s # takeWhile (\<lambda>c. c \<noteq> CHR ''/'') (tl s)) @ out, dropWhile (\<lambda>c. c \<noteq> CHR ''/'') (tl s)),
    out, s) \<in> measure (\<lambda>(out, s). length s)"
    using length_dropWhile_le [of "\<lambda>c. c \<noteq> CHR ''/''" "tl s"] by (cases s) auto
qed auto

declare rfc_dots.simps [simp del]

function squeeze :: "string \<Rightarrow> string \<Rightarrow> string" where
  "squeeze out s =
     (case s of
        [] \<Rightarrow> out
      | c # t \<Rightarrow>
          if c = CHR ''.'' then
            (case dropWhile (\<lambda>c. c = CHR ''.'') t of
               [] \<Rightarrow> out
             | d # u \<Rightarrow>
                 if d = CHR ''/'' then squeeze (if out \<noteq> [] \<and> hd out = CHR ''/'' then tl out else out) (d # u)
                 else squeeze (takeWhile (\<lambda>c. c = CHR ''.'') s @ out) (d # u))
          else if c = CHR ''/'' then squeeze (c # out) (dropWhile (\<lambda>c. c = CHR ''/'') t)
          else squeeze (c # out) t)"
  by pat_completeness auto
termination
proof (relation "measure (\<lambda>(out, s). length s)")
  show "\<And>out s c t d u. s = c # t \<Longrightarrow> dropWhile (\<lambda>c. c = CHR ''.'') t = d # u \<Longrightarrow>
    ((if out \<noteq> [] \<and> hd out = CHR ''/'' then tl out else out, d # u), out, s) \<in> measure (\<lambda>(out, s). length s)"
    by (metis (no_types, lifting) case_prod_conv in_measure le_imp_less_Suc length_Cons length_dropWhile_le)
  show "\<And>out s c t d u. s = c # t \<Longrightarrow> dropWhile (\<lambda>c. c = CHR ''.'') t = d # u \<Longrightarrow>
    ((takeWhile (\<lambda>c. c = CHR ''.'') s @ out, d # u), out, s) \<in> measure (\<lambda>(out, s). length s)"
    by (metis (no_types, lifting) case_prod_conv in_measure le_imp_less_Suc length_Cons length_dropWhile_le)
qed (auto simp: le_imp_less_Suc length_dropWhile_le)

declare squeeze.simps [simp del]

definition normal_path :: "string \<Rightarrow> string" where
  "normal_path s =
     rev (squeeze [] (rev (rfc_dots [] (map (\<lambda>c. if c = BACKSLASH then CHR ''/'' else c) s))))"

section \<open>The buffer refines the strings\<close>

text \<open>
  The output is in front of the input in the same buffer; nothing behind \<open>e\<close>, where the
  string ended at the start, changes.
\<close>

definition uri_rel :: "nat \<Rightarrow> string \<Rightarrow> char list \<Rightarrow> nat \<Rightarrow> nat \<Rightarrow> string \<Rightarrow> string \<Rightarrow> bool" where
  "uri_rel e T mem out i acc s \<longleftrightarrow> out \<le> i \<and> i + length s \<le> e \<and> e < length mem \<and> drop (Suc e) mem = T
     \<and> cstring s \<and> take (length s + 1) (drop i mem) = s @ [NUL] \<and> take out mem = rev acc \<and> length acc = out"

lemma uri_rel_nth:
  assumes "uri_rel e T mem out i acc s" "k \<le> length s"
  shows "rd mem (i + k) = Some (cat s k)"
proof -
  have "take (length s + 1) (drop i mem) ! k = (s @ [NUL]) ! k" using assms by (simp add: uri_rel_def)
  moreover have "i + k < length mem" using assms by (auto simp: uri_rel_def)
  ultimately show ?thesis using assms(2) by (auto simp: rd_lt cat_def nth_append)
qed

lemma uri_rel_0: "uri_rel e T mem out i acc s \<Longrightarrow> rd mem i = Some (deref s)"
  using uri_rel_nth [of e T mem out i acc s 0] by simp

lemma uri_rel_str:
  assumes "uri_rel e T mem out i acc s"
  shows "str_at mem i = s"
proof -
  have "drop i mem = take (length s + 1) (drop i mem) @ drop (length s + 1) (drop i mem)" by (simp only: append_take_drop_id)
  with assms have "drop i mem = s @ NUL # drop (length s + 1) (drop i mem)"
    unfolding uri_rel_def by (metis append.assoc append_Cons append_Nil)
  then show ?thesis using assms by (intro str_atI) (auto simp: uri_rel_def)
qed

lemma uri_rel_advance:
  assumes "uri_rel e T mem out i acc (a @ s)"
  shows "uri_rel e T mem out (i + length a) acc s"
proof -
  have "take (length (a @ s) + 1) (drop i mem) = (a @ s) @ [NUL]" using assms by (simp add: uri_rel_def)
  then have "drop (length a) (take (length (a @ s) + 1) (drop i mem)) = s @ [NUL]" by simp
  then have "take (length s + 1) (drop (i + length a) mem) = s @ [NUL]"
    by (simp add: drop_take add.commute)
  with assms show ?thesis by (auto simp: uri_rel_def)
qed

lemma uri_rel_drop: "uri_rel e T mem out i acc s \<Longrightarrow> n \<le> length s \<Longrightarrow> uri_rel e T mem out (i + n) acc (drop n s)"
  using uri_rel_advance [of e T mem out i acc "take n s" "drop n s"] by simp

lemma uri_rel_put:
  assumes "uri_rel e T mem out i acc (c # s)"
  shows "uri_rel e T (mem[out := d]) (out + 1) (i + 1) (d # acc) s"
proof -
  have "out < i + 1" "i + 1 + length s \<le> e" "e < length mem" using assms by (auto simp: uri_rel_def)
  moreover have "take (Suc (length s)) (drop (i + 1) mem) = s @ [NUL]"
    using uri_rel_drop [OF assms, of 1] by (simp add: uri_rel_def)
  ultimately show ?thesis using assms
    by (simp add: uri_rel_def take_update_nth)
qed

lemma uri_rel_cut:
  assumes "uri_rel e T mem out i acc (a @ s)"
  shows "uri_rel e T (mem[i + length a := NUL]) out i acc a"
proof -
  have l: "i + length a \<le> e" "e < length mem" "out \<le> i" using assms by (auto simp: uri_rel_def)
  have "take (length a) (drop i mem) = take (length a) (take (length (a @ s) + 1) (drop i mem))"
    by (simp add: min_def)
  also have "\<dots> = a" using assms unfolding uri_rel_def by simp
  finally have "take (Suc (length a)) (drop i (mem[i + length a := NUL])) = a @ [NUL]"
    using l by (simp add: drop_update_swap take_update_nth)
  then show ?thesis using assms l by (simp add: uri_rel_def)
qed

lemma rds_pop_eq: "take out mem = rev acc \<Longrightarrow> length acc = out \<Longrightarrow> out \<le> length mem \<Longrightarrow>
   rds_pop mem out = Some (length (pop_segment acc)) \<and> take (length (pop_segment acc)) mem = rev (pop_segment acc)"
proof (induction out arbitrary: acc)
  case 0
  then show ?case by (simp add: pop_segment_def)
next
  case (Suc out)
  then obtain c acc' where acc: "acc = c # acc'" by (cases acc) auto
  then have c: "mem ! out = c" "take out mem = rev acc'" "length acc' = out"
    using Suc.prems by (simp_all add: take_Suc_conv_app_nth)
  show ?case
  proof (cases "out \<noteq> 0 \<and> c \<noteq> CHR ''/''")
    case True
    with Suc c show ?thesis by (simp add: acc rd_lt pop_segment_def)
  next
    case False
    with c have "pop_segment acc = acc'" by (auto simp: acc pop_segment_def)
    with False Suc.prems c show ?thesis by (auto simp: rd_lt)
  qed
qed

lemma pop_segment_length: "length (pop_segment acc) \<le> length acc"
  using length_dropWhile_le [of "\<lambda>c. c \<noteq> CHR ''/''" acc] by (simp add: pop_segment_def)

lemma uri_rel_pop:
  assumes "uri_rel e T mem out i acc s"
  shows "\<exists>out'. rds_pop mem out = Some out' \<and> uri_rel e T mem out' i (pop_segment acc) s"
  using assms rds_pop_eq [of out mem acc] pop_segment_length [of acc] by (auto simp: uri_rel_def)

lemma uri_rel_scan:
  assumes "uri_rel e T mem out i acc s" "\<not> P NUL"
  shows "scan P mem i = Some (i + length (takeWhile P s))"
proof (rule scan_unique)
  define k where "k = length (takeWhile P s)"
  have k: "k \<le> length s" by (simp add: k_def length_takeWhile_le)
  note nth = uri_rel_nth [OF assms(1), simplified]
  show "i + k < length mem" using nth [OF k] by simp
  have "cat s k = s ! k \<and> \<not> P (s ! k)" if "k < length s"
    using that nth_length_takeWhile [of P s] by (simp add: k_def cat_def)
  with nth [OF k] assms(2) show "\<not> P (mem ! (i + k))" by (cases "k < length s") (auto simp: cat_def)
  fix m assume m: "i \<le> m" "m < i + k"
  with k nth [of "m - i"] have "mem ! m = s ! (m - i)" by (auto simp: cat_def)
  moreover have "takeWhile P s ! (m - i) \<in> set (takeWhile P s)"
    using m by (intro nth_mem) (auto simp: k_def)
  then have "P (takeWhile P s ! (m - i))" by (rule set_takeWhileD [THEN conjunct2])
  ultimately show "P (mem ! m)" using m by (auto simp: k_def takeWhile_nth)
qed simp

lemma rds_move_spec:
  "uri_rel e T mem out i acc (c # s) \<Longrightarrow>
   \<exists>mem' out' i'. rds_move mem out i = Some (mem', out', i')
     \<and> uri_rel e T mem' out' i' (rev (c # takeWhile (\<lambda>c. c \<noteq> CHR ''/'') s) @ acc) (dropWhile (\<lambda>c. c \<noteq> CHR ''/'') s)"
proof (induction s arbitrary: mem out i acc c)
  case Nil
  have put: "uri_rel e T (mem[out := c]) (out + 1) (i + 1) (c # acc) []" by (rule uri_rel_put [OF Nil])
  from Nil have "rd mem i = Some c" "out < length mem"
    using uri_rel_0 [OF Nil] by (auto simp: uri_rel_def simp del: rd_Some)
  then have "rds_move mem out i = Some (mem[out := c], out + 1, i + 1)"
    using uri_rel_0 [OF put] by (subst rds_move.simps) (simp add: wr_lt del: rd_Some)
  with put show ?case by auto
next
  case (Cons d s)
  have put: "uri_rel e T (mem[out := c]) (out + 1) (i + 1) (c # acc) (d # s)" by (rule uri_rel_put [OF Cons.prems])
  have rd: "rd mem i = Some c" "out < length mem" "d \<noteq> NUL"
    using uri_rel_0 [OF Cons.prems] Cons.prems by (auto simp: uri_rel_def simp del: rd_Some)
  show ?case
  proof (cases "d = CHR ''/''")
    case True
    with rd put have "rds_move mem out i = Some (mem[out := c], out + 1, i + 1)"
      using uri_rel_0 [OF put] by (subst rds_move.simps) (simp add: wr_lt del: rd_Some)
    with put True show ?thesis by auto
  next
    case False
    with rd have "rds_move mem out i = rds_move (mem[out := c]) (out + 1) (i + 1)"
      using uri_rel_0 [OF put] by (subst rds_move.simps) (simp add: wr_lt del: rd_Some)
    with Cons.IH [OF put] False show ?thesis by auto
  qed
qed

text \<open>Both passes end with the output in front of the old end of the string.\<close>

definition uri_done :: "nat \<Rightarrow> string \<Rightarrow> char list \<Rightarrow> string \<Rightarrow> (char list \<times> nat) option \<Rightarrow> bool" where
  "uri_done e T mem acc r \<longleftrightarrow> (\<exists>mem'. r = Some (mem', length acc) \<and> length mem' = length mem
     \<and> length acc \<le> e \<and> drop (Suc e) mem' = T \<and> take (length acc) mem' = rev acc)"

lemma uri_rel_length: "uri_rel e T mem out i acc s \<Longrightarrow> length T + Suc e = length mem"
  by (auto simp: uri_rel_def)

lemma uri_rel_Nil_done:
  assumes "uri_rel e T mem out i acc []"
  shows "uri_done e T mem acc (Some (mem, out))"
  using assms by (auto simp: uri_rel_def uri_done_def)

lemma starts_with_length: "starts_with s p \<Longrightarrow> length p \<le> length s"
  unfolding starts_with_def by (metis length_take min.cobounded1)

lemma rds_dots_spec:
  assumes "uri_rel e T mem out i acc s"
  shows "uri_done e T mem (rfc_dots acc s) (rds_dots mem out i)"
  using assms
proof (induction acc s arbitrary: mem out i rule: rfc_dots.induct)
  case (1 acc s)
  note rel = "1.prems"
  note rd0 = uri_rel_0 [OF rel] and str = uri_rel_str [OF rel]
  have len: "length mem' = length mem" if "uri_rel e T mem' out' i' acc' s'" for mem' out' i' acc' s'
    using uri_rel_length [OF rel] uri_rel_length [OF that] by simp
  show ?case
  proof (cases "s = []")
    case True
    with rel rd0 show ?thesis
      by (subst rds_dots.simps, subst rfc_dots.simps) (simp add: uri_rel_Nil_done del: rd_Some)
  next
    case s0: False
    then have nn: "deref s \<noteq> NUL" using rel by (cases s) (auto simp: uri_rel_def)
    have run: "rds_dots mem out i = (if starts_with s ''../'' then rds_dots mem out (i + 3)
       else if starts_with s ''./'' then rds_dots mem out (i + 2)
       else if starts_with s ''/./'' then rds_dots mem out (i + 2)
       else if s = ''/.'' then Option.bind (wr mem (i + 1) NUL) (\<lambda>mem. rds_dots mem out i)
       else if starts_with s ''/../'' then Option.bind (rds_pop mem out) (\<lambda>out. rds_dots mem out (i + 3))
       else if s = ''/..'' then Option.bind (wr mem (i + 1) NUL)
         (\<lambda>mem. Option.bind (rds_pop mem out) (\<lambda>out. rds_dots mem out i))
       else if s = ''.'' \<or> s = ''..'' then Option.bind (wr mem i NUL) (\<lambda>mem. rds_dots mem out i)
       else Option.bind (rds_move mem out i) (\<lambda>(mem, out, i). rds_dots mem out i))"
      using nn by (subst rds_dots.simps) (simp add: rd0 str Let_def del: rd_Some)
    note spec = rfc_dots.simps [of acc s]
    have fin: "uri_done e T mem (rfc_dots acc s) (rds_dots mem out i)"
      if "rds_dots mem out i = rds_dots mem1 out1 i1" "rfc_dots acc s = rfc_dots acc1 s1"
        and "uri_rel e T mem1 out1 i1 acc1 s1"
        and "uri_rel e T mem1 out1 i1 acc1 s1 \<Longrightarrow> uri_done e T mem1 (rfc_dots acc1 s1) (rds_dots mem1 out1 i1)"
      for mem1 out1 i1 acc1 s1
      using that len [OF that(3)] by (simp add: uri_done_def)
    have ilt: "i < length mem" "i + 1 < length mem" using rel s0 by (cases s; auto simp: uri_rel_def)+
    consider
        (a) "starts_with s ''../''"
      | (b) "\<not> starts_with s ''../''" "starts_with s ''./''"
      | (c) "\<not> starts_with s ''../''" "\<not> starts_with s ''./''" "starts_with s ''/./''"
      | (d) "\<not> starts_with s ''../''" "\<not> starts_with s ''./''" "\<not> starts_with s ''/./''" "s = ''/.''"
      | (e) "\<not> starts_with s ''../''" "\<not> starts_with s ''./''" "\<not> starts_with s ''/./''" "s \<noteq> ''/.''"
          "starts_with s ''/../''"
      | (f) "\<not> starts_with s ''../''" "\<not> starts_with s ''./''" "\<not> starts_with s ''/./''" "s \<noteq> ''/.''"
          "\<not> starts_with s ''/../''" "s = ''/..''"
      | (g) "\<not> starts_with s ''../''" "\<not> starts_with s ''./''" "\<not> starts_with s ''/./''" "s \<noteq> ''/.''"
          "\<not> starts_with s ''/../''" "s \<noteq> ''/..''" "s = ''.'' \<or> s = ''..''"
      | (h) "\<not> starts_with s ''../''" "\<not> starts_with s ''./''" "\<not> starts_with s ''/./''" "s \<noteq> ''/.''"
          "\<not> starts_with s ''/../''" "s \<noteq> ''/..''" "\<not> (s = ''.'' \<or> s = ''..'')"
      by blast
    then show ?thesis
    proof cases
      case a
      have "3 \<le> length s" using starts_with_length [OF a] by simp
      with run spec s0 a uri_rel_drop [OF rel, of 3] show ?thesis
        by (intro fin [OF _ _ _ "1.IH"(1) [OF s0 a]]) simp_all
    next
      case b
      have "2 \<le> length s" using starts_with_length [OF b(2)] by simp
      with run spec s0 b uri_rel_drop [OF rel, of 2] show ?thesis
        by (intro fin [OF _ _ _ "1.IH"(2) [OF s0 b]]) simp_all
    next
      case c
      have "2 \<le> length s" using starts_with_length [OF c(3)] by simp
      with run spec s0 c uri_rel_drop [OF rel, of 2] show ?thesis
        by (intro fin [OF _ _ _ "1.IH"(3) [OF s0 c]]) simp_all
    next
      case d
      have "uri_rel e T (mem[i + 1 := NUL]) out i acc ''/''"
        using rel uri_rel_cut [of e T mem out i acc "''/''" "''.''"] unfolding d(4) by simp
      with run spec s0 d ilt show ?thesis
        by (intro fin [OF _ _ _ "1.IH"(4) [OF s0 d]]) (simp_all add: wr_lt)
    next
      case e
      obtain out' where o: "rds_pop mem out = Some out'" "uri_rel e T mem out' i (pop_segment acc) s"
        using uri_rel_pop [OF rel] by blast
      have "4 \<le> length s" using starts_with_length [OF e(5)] by simp
      with run spec s0 e o uri_rel_drop [OF o(2), of 3] show ?thesis
        by (intro fin [OF _ _ _ "1.IH"(5) [OF s0 e]]) simp_all
    next
      case f
      have "uri_rel e T (mem[i + 1 := NUL]) out i acc ''/''"
        using rel uri_rel_cut [of e T mem out i acc "''/''" "''..''"] unfolding f(6) by simp
      then obtain out' where o: "rds_pop (mem[i + 1 := NUL]) out = Some out'"
        "uri_rel e T (mem[i + 1 := NUL]) out' i (pop_segment acc) ''/''"
        using uri_rel_pop by blast
      with run spec s0 f ilt show ?thesis
        by (intro fin [OF _ _ _ "1.IH"(6) [OF s0 f]]) (simp_all add: wr_lt)
    next
      case g
      have "uri_rel e T (mem[i := NUL]) out i acc []"
        using rel uri_rel_cut [of e T mem out i acc "[]" s] by simp
      with run spec s0 g ilt show ?thesis
        by (intro fin [OF _ _ _ "1.IH"(7) [OF s0 g]]) (simp_all add: wr_lt)
    next
      case h
      obtain c s' where s: "s = c # s'" using s0 by (cases s) auto
      obtain mem' out' i' where "rds_move mem out i = Some (mem', out', i')"
        "uri_rel e T mem' out' i' (rev (hd s # takeWhile (\<lambda>c. c \<noteq> CHR ''/'') (tl s)) @ acc)
          (dropWhile (\<lambda>c. c \<noteq> CHR ''/'') (tl s))"
        using rds_move_spec [of e T mem out i acc c s'] rel s by auto
      with run spec s0 h show ?thesis
        by (intro fin [OF _ _ _ "1.IH"(8) [OF s0 h]]) simp_all
    qed
  qed
qed

lemma rds_put_dots_spec:
  "uri_rel e T mem out i acc (replicate k CHR ''.'' @ s) \<Longrightarrow>
   \<exists>mem'. rds_put_dots mem out k = Some (mem', out + k)
     \<and> uri_rel e T mem' (out + k) (i + k) (replicate k CHR ''.'' @ acc) s"
proof (induction k arbitrary: mem out i acc)
  case (Suc k)
  then have rel: "uri_rel e T mem out i acc (CHR ''.'' # replicate k CHR ''.'' @ s)" by simp
  then have "out < length mem" by (auto simp: uri_rel_def)
  with Suc.IH [OF uri_rel_put [OF rel, of "CHR ''.''"]] show ?case
    by (auto simp: wr_lt replicate_app_Cons_same)
qed simp

lemma takeWhile_replicate: "takeWhile (\<lambda>c. c = d) s = replicate (length (takeWhile (\<lambda>c. c = d) s)) d"
  by (induction s) auto

lemma rds_squeeze_spec:
  assumes "uri_rel e T mem out i acc s"
  shows "uri_done e T mem (squeeze acc s) (rds_squeeze mem out i)"
  using assms
proof (induction acc s arbitrary: mem out i rule: squeeze.induct)
  case (1 acc s)
  note rel = "1.prems"
  note rd0 = uri_rel_0 [OF rel]
  have fin: "uri_done e T mem (squeeze acc s) (rds_squeeze mem out i)"
    if "rds_squeeze mem out i = rds_squeeze mem1 out1 i1" "squeeze acc s = squeeze acc1 s1"
      and "uri_rel e T mem1 out1 i1 acc1 s1"
      and "uri_rel e T mem1 out1 i1 acc1 s1 \<Longrightarrow> uri_done e T mem1 (squeeze acc1 s1) (rds_squeeze mem1 out1 i1)"
    for mem1 out1 i1 acc1 s1
    using that uri_rel_length [OF rel] uri_rel_length [OF that(3)] by (simp add: uri_done_def)
  show ?case
  proof (cases s)
    case Nil
    with rel rd0 show ?thesis
      by (subst rds_squeeze.simps, subst squeeze.simps) (simp add: uri_rel_Nil_done del: rd_Some)
  next
    case (Cons c t)
    note s = this
    have rel1: "uri_rel e T mem out (i + 1) acc t" using uri_rel_drop [OF rel, of 1] by (simp add: s)
    have nn: "c \<noteq> NUL" "out < length mem" using rel by (auto simp: uri_rel_def s)
    define n where "n = length (takeWhile (\<lambda>c. c = CHR ''.'') t)"
    have dots: "scan (\<lambda>c. c = CHR ''.'') mem (i + 1) = Some (i + 1 + n)"
      using uri_rel_scan [OF rel1, of "\<lambda>c. c = CHR ''.''"] by (simp add: n_def)
    have dw: "dropWhile (\<lambda>c. c = CHR ''.'') t = drop n t" by (simp add: n_def dropWhile_eq_drop)
    have rel2: "uri_rel e T mem out (i + 1 + n) acc (drop n t)"
      using uri_rel_drop [OF rel1, of n] by (simp add: n_def length_takeWhile_le)
    show ?thesis
    proof (cases "c = CHR ''.''")
      case dot: True
      show ?thesis
      proof (cases "drop n t")
        case Nil
        have "rds_squeeze mem out i = rds_squeeze mem out (i + 1 + n)"
          using rd0 nn dot dots uri_rel_0 [OF rel2] Nil
          by (subst rds_squeeze.simps) (simp add: s del: rd_Some)
        also have "\<dots> = Some (mem, out)"
          using uri_rel_0 [OF rel2] Nil by (subst rds_squeeze.simps) (simp del: rd_Some)
        finally show ?thesis
          using uri_rel_Nil_done [of e T mem out "i + 1 + n" acc] rel2 Nil dot
          by (subst squeeze.simps) (simp add: s dw)
      next
        case (Cons d u)
        then have du: "dropWhile (\<lambda>c. c = CHR ''.'') t = d # u" by (simp add: dw)
        have d: "d \<noteq> NUL" "rd mem (i + 1 + n) = Some d"
          using rel2 uri_rel_0 [OF rel2] Cons by (auto simp: uri_rel_def simp del: rd_Some)
        show ?thesis
        proof (cases "d = CHR ''/''")
          case True
          define acc1 where "acc1 = (if acc \<noteq> [] \<and> hd acc = CHR ''/'' then tl acc else acc)"
          define out1 where "out1 = length acc1"
          have ma: "take out mem = rev acc" "length acc = out" "out \<le> length mem" using rel by (auto simp: uri_rel_def)
          have step_back: "(if out = 0 then Some out
              else Option.bind (rd mem (out - 1)) (\<lambda>e. Some (if e = CHR ''/'' then out - 1 else out))) = Some out1"
          proof (cases acc)
            case Nil
            with ma show ?thesis by (simp add: out1_def acc1_def)
          next
            case (Cons b acc')
            with ma have "mem ! (out - 1) = b" by (cases out) (auto simp: take_Suc_conv_app_nth)
            with Cons ma show ?thesis by (auto simp: out1_def acc1_def rd_lt)
          qed
          have "take out1 mem = rev acc1"
            using ma by (cases acc) (auto simp: out1_def acc1_def take_Suc_conv_app_nth)
          with rel2 ma Cons have r: "uri_rel e T mem out1 (i + 1 + n) acc1 (d # u)"
            by (auto simp: uri_rel_def out1_def acc1_def)
          have "rds_squeeze mem out i = rds_squeeze mem out1 (i + 1 + n)"
            using rd0 nn dot dots d True step_back
            by (subst rds_squeeze.simps) (simp add: s del: rd_Some)
          moreover have "squeeze acc s = squeeze acc1 (d # u)"
            using True dot du by (subst squeeze.simps) (simp add: s acc1_def)
          ultimately show ?thesis
            using r "1.IH"(1) [OF s dot du True, folded acc1_def] by (rule fin)
        next
          case False
          have "s = replicate (n + 1) CHR ''.'' @ d # u"
            using takeWhile_dropWhile_id [of "\<lambda>c. c = CHR ''.''" t] takeWhile_replicate [of "CHR ''.''" t] du dot
            by (simp add: s n_def)
          with rel rds_put_dots_spec [of e T mem out i acc "n + 1" "d # u"] obtain mem1 where
            p: "rds_put_dots mem out (n + 1) = Some (mem1, out + (n + 1))"
            "uri_rel e T mem1 (out + (n + 1)) (i + (n + 1)) (replicate (n + 1) CHR ''.'' @ acc) (d # u)" by auto
          have tw: "takeWhile (\<lambda>c. c = CHR ''.'') s = replicate (n + 1) CHR ''.''"
            using takeWhile_replicate [of "CHR ''.''" t] dot by (simp add: s n_def)
          have "rds_squeeze mem out i = rds_squeeze mem1 (out + (n + 1)) (i + (n + 1))"
            using rd0 nn dot dots d False p(1)
            by (subst rds_squeeze.simps) (simp add: s del: rd_Some)
          moreover have "squeeze acc s = squeeze (takeWhile (\<lambda>c. c = CHR ''.'') s @ acc) (d # u)"
            using False dot du by (subst squeeze.simps) (simp add: s)
          ultimately show ?thesis
            using p(2) "1.IH"(2) [OF s dot du False] unfolding tw by (rule fin)
        qed
      qed
    next
      case False
      have put: "uri_rel e T (mem[out := c]) (out + 1) (i + 1) (c # acc) t"
        using rel unfolding s by (rule uri_rel_put)
      show ?thesis
      proof (cases "c = CHR ''/''")
        case True
        define k where "k = length (takeWhile (\<lambda>c. c = CHR ''/'') t)"
        have "scan (\<lambda>c. c = CHR ''/'') (mem[out := c]) (i + 1) = Some (i + 1 + k)"
          using uri_rel_scan [OF put, of "\<lambda>c. c = CHR ''/''"] by (simp add: k_def)
        then have "rds_squeeze mem out i = rds_squeeze (mem[out := c]) (out + 1) (i + 1 + k)"
          using rd0 nn True by (subst rds_squeeze.simps) (simp add: s wr_lt del: rd_Some)
        moreover have "squeeze acc s = squeeze (c # acc) (dropWhile (\<lambda>c. c = CHR ''/'') t)"
          using True by (subst squeeze.simps) (simp add: s)
        moreover have "uri_rel e T (mem[out := c]) (out + 1) (i + 1 + k) (c # acc) (dropWhile (\<lambda>c. c = CHR ''/'') t)"
          using uri_rel_drop [OF put, of k] by (simp add: k_def length_takeWhile_le dropWhile_eq_drop)
        ultimately show ?thesis using "1.IH"(3) [OF s False True] by (rule fin)
      next
        case slash: False
        have "rds_squeeze mem out i = rds_squeeze (mem[out := c]) (out + 1) (i + 1)"
          using rd0 nn False slash by (subst rds_squeeze.simps) (simp add: s wr_lt del: rd_Some)
        moreover have "squeeze acc s = squeeze (c # acc) t"
          using False slash by (subst squeeze.simps) (simp add: s)
        ultimately show ?thesis using put "1.IH"(4) [OF s False slash] by (rule fin)
      qed
    qed
  qed
qed

abbreviation to_slash :: "char \<Rightarrow> char" where
  "to_slash c \<equiv> (if c = BACKSLASH then CHR ''/'' else c)"

lemma rds_backslash_spec:
  assumes "cstring s" "i + length s < length mem" "take (length s + 1) (drop i mem) = s @ [NUL]"
  shows "rds_backslash mem i = Some (take i mem @ map to_slash s @ drop (i + length s) mem)"
  using assms
proof (induction s arbitrary: mem i)
  case Nil
  then have "mem ! i = NUL" by (cases "drop i mem") (auto simp: nth_via_drop)
  then show ?case using Nil by (subst rds_backslash.simps) (simp add: rd_lt)
next
  case (Cons c s)
  have d: "drop i mem = mem ! i # drop (i + 1) mem" using Cons.prems by (simp add: Cons_nth_drop_Suc)
  with Cons.prems have c: "mem ! i = c" "take (length s + 1) (drop (i + 1) mem) = s @ [NUL]" by simp_all
  define mem1 where "mem1 = mem[i := to_slash c]"
  have w: "(if c = BACKSLASH then wr mem i CHR ''/'' else Some mem) = Some mem1"
    using Cons.prems c by (auto simp: mem1_def wr_lt)
  have t: "take (i + 1) mem1 = take i mem @ [to_slash c]" "drop (i + 1) mem1 = drop (i + 1) mem"
    using Cons.prems by (simp_all add: mem1_def take_update_nth)
  have "rds_backslash mem i = rds_backslash mem1 (i + 1)"
    using Cons.prems c w by (subst rds_backslash.simps) (simp add: rd_lt)
  also have "\<dots> = Some (take (i + 1) mem1 @ map to_slash s @ drop (i + 1 + length s) mem1)"
    using Cons.prems c(2) t by (intro Cons.IH) (auto simp: mem1_def)
  also have "drop (i + 1 + length s) mem1 = drop (i + length (c # s)) mem"
    using arg_cong [OF t(2), of "drop (length s)"] by (simp add: add.commute)
  finally show ?case using t by simp
qed

text \<open>One round of the first pass on a non-empty input.\<close>

definition rfc_round :: "string \<Rightarrow> string \<Rightarrow> string \<times> string" where
  "rfc_round acc s =
     (if starts_with s ''../'' then (acc, drop 3 s)
      else if starts_with s ''./'' then (acc, drop 2 s)
      else if starts_with s ''/./'' then (acc, drop 2 s)
      else if s = ''/.'' then (acc, ''/'')
      else if starts_with s ''/../'' then (pop_segment acc, drop 3 s)
      else if s = ''/..'' then (pop_segment acc, ''/'')
      else if s = ''.'' \<or> s = ''..'' then (acc, [])
      else (rev (hd s # takeWhile (\<lambda>c. c \<noteq> CHR ''/'') (tl s)) @ acc, dropWhile (\<lambda>c. c \<noteq> CHR ''/'') (tl s)))"

lemma rfc_dots_round: "s \<noteq> [] \<Longrightarrow> rfc_round acc s = (acc1, s1) \<Longrightarrow> rfc_dots acc s = rfc_dots acc1 s1"
  by (subst rfc_dots.simps) (auto simp: rfc_round_def split: if_splits)

lemma rfc_round_length: "s \<noteq> [] \<Longrightarrow> rfc_round acc s = (acc1, s1) \<Longrightarrow> length s1 < length s"
  using length_dropWhile_le [of "\<lambda>c. c \<noteq> CHR ''/''" "tl s"]
  by (cases s) (auto simp: rfc_round_def split: if_splits)

lemma set_pop_segment: "set (pop_segment acc) \<subseteq> set acc"
  using set_tl_subset set_dropWhile_subset unfolding pop_segment_def by fast

lemma set_rfc_round:
  assumes "s \<noteq> []" "rfc_round acc s = (acc1, s1)"
  shows "set acc1 \<subseteq> set acc \<union> set s" "set s1 \<subseteq> set s"
proof -
  obtain c t where s: "s = c # t" using assms(1) by (cases s) auto
  note sub = set_drop_subset [of 3 s] set_drop_subset [of 2 s] set_pop_segment [of acc]
    set_takeWhile_subset [of "\<lambda>c. c \<noteq> CHR ''/''" t] set_dropWhile_subset [of "\<lambda>c. c \<noteq> CHR ''/''" t]
  show "set acc1 \<subseteq> set acc \<union> set s" "set s1 \<subseteq> set s"
    using assms(2) sub unfolding rfc_round_def s by (auto split: if_splits)
qed

lemma set_rfc_dots: "set (rfc_dots acc s) \<subseteq> set acc \<union> set s"
proof (induction "length s" arbitrary: acc s rule: less_induct)
  case less
  show ?case
  proof (cases "s = []")
    case False
    obtain acc1 s1 where r: "rfc_round acc s = (acc1, s1)" by (cases "rfc_round acc s")
    have "set (rfc_dots acc1 s1) \<subseteq> set acc1 \<union> set s1"
      using less rfc_round_length [OF False r] by blast
    with set_rfc_round [OF False r] show ?thesis
      unfolding rfc_dots_round [OF False r] by blast
  qed (simp add: rfc_dots.simps)
qed

text \<open>The rounds of the second pass, and the induction over them.\<close>

abbreviation skip :: "char \<Rightarrow> string \<Rightarrow> string" where
  "skip d \<equiv> dropWhile (\<lambda>c. c = d)"

abbreviation unslash :: "string \<Rightarrow> string" where
  "unslash acc \<equiv> (if acc \<noteq> [] \<and> hd acc = CHR ''/'' then tl acc else acc)"

lemma squeeze_simps:
  "squeeze acc [] = acc"
  "skip CHR ''.'' t = [] \<Longrightarrow> squeeze acc (CHR ''.'' # t) = acc"
  "skip CHR ''.'' t = CHR ''/'' # u \<Longrightarrow> squeeze acc (CHR ''.'' # t) = squeeze (unslash acc) (CHR ''/'' # u)"
  "skip CHR ''.'' t = d # u \<Longrightarrow> d \<noteq> CHR ''/'' \<Longrightarrow>
    squeeze acc (CHR ''.'' # t) = squeeze (takeWhile (\<lambda>c. c = CHR ''.'') (CHR ''.'' # t) @ acc) (d # u)"
  "squeeze acc (CHR ''/'' # t) = squeeze (CHR ''/'' # acc) (skip CHR ''/'' t)"
  "c \<noteq> CHR ''.'' \<Longrightarrow> c \<noteq> CHR ''/'' \<Longrightarrow> squeeze acc (c # t) = squeeze (c # acc) t"
proof -
  show "squeeze acc [] = acc" by (subst squeeze.simps) simp
  show "squeeze acc (CHR ''/'' # t) = squeeze (CHR ''/'' # acc) (skip CHR ''/'' t)"
    by (subst squeeze.simps) simp
  show "c \<noteq> CHR ''.'' \<Longrightarrow> c \<noteq> CHR ''/'' \<Longrightarrow> squeeze acc (c # t) = squeeze (c # acc) t"
    by (subst squeeze.simps) simp
  show "skip CHR ''.'' t = [] \<Longrightarrow> squeeze acc (CHR ''.'' # t) = acc"
    by (subst squeeze.simps) (simp del: dropWhile_eq_Nil_conv)
  show "skip CHR ''.'' t = CHR ''/'' # u \<Longrightarrow> squeeze acc (CHR ''.'' # t) = squeeze (unslash acc) (CHR ''/'' # u)"
    by (subst squeeze.simps) simp
  show "skip CHR ''.'' t = d # u \<Longrightarrow> d \<noteq> CHR ''/'' \<Longrightarrow>
    squeeze acc (CHR ''.'' # t) = squeeze (takeWhile (\<lambda>c. c = CHR ''.'') (CHR ''.'' # t) @ acc) (d # u)"
    by (subst squeeze.simps) simp
qed


lemma squeeze_induct [case_names Nil dots_end dots_slash dots slash other]:
  assumes "\<And>acc. P acc [] acc"
    and "\<And>acc t. skip CHR ''.'' t = [] \<Longrightarrow> P acc (CHR ''.'' # t) acc"
    and "\<And>acc t u r. skip CHR ''.'' t = CHR ''/'' # u \<Longrightarrow> P (unslash acc) (CHR ''/'' # u) r \<Longrightarrow> P acc (CHR ''.'' # t) r"
    and "\<And>acc t d u r. skip CHR ''.'' t = d # u \<Longrightarrow> d \<noteq> CHR ''/'' \<Longrightarrow>
      P (takeWhile (\<lambda>c. c = CHR ''.'') (CHR ''.'' # t) @ acc) (d # u) r \<Longrightarrow> P acc (CHR ''.'' # t) r"
    and "\<And>acc t r. P (CHR ''/'' # acc) (skip CHR ''/'' t) r \<Longrightarrow> P acc (CHR ''/'' # t) r"
    and "\<And>acc c t r. c \<noteq> CHR ''.'' \<Longrightarrow> c \<noteq> CHR ''/'' \<Longrightarrow> P (c # acc) t r \<Longrightarrow> P acc (c # t) r"
  shows "P acc s (squeeze acc s)"
proof (induction acc s rule: squeeze.induct)
  case (1 acc s)
  show ?case
  proof (cases s)
    case Nil
    then show ?thesis using assms(1) by (simp add: squeeze_simps)
  next
    case s: (Cons c t)
    show ?thesis
    proof (cases "c = CHR ''.''")
      case True
      show ?thesis
      proof (cases "skip CHR ''.'' t")
        case Nil
        with True s assms(2) show ?thesis by (simp add: squeeze_simps)
      next
        case du: (Cons d u)
        show ?thesis
        proof (cases "d = CHR ''/''")
          case slash: True
          from assms(3) [OF du [unfolded slash]] "1.IH"(1) [OF s True du slash]
          show ?thesis unfolding s True squeeze_simps(3) [OF du [unfolded slash]] slash .
        next
          case False
          from assms(4) [OF du False] "1.IH"(2) [OF s True du False]
          show ?thesis unfolding s True squeeze_simps(4) [OF du False] .
        qed
      qed
    next
      case False
      show ?thesis
      proof (cases "c = CHR ''/''")
        case True
        from assms(5) "1.IH"(3) [OF s False True] show ?thesis
          unfolding s True squeeze_simps(5) .
      next
        case other: False
        from assms(6) [OF False other] "1.IH"(4) [OF s False other] show ?thesis
          unfolding s squeeze_simps(6) [OF False other] .
      qed
    qed
  qed
qed

lemma set_squeeze: "set (squeeze acc s) \<subseteq> set acc \<union> set s"
proof (induction rule: squeeze_induct)
  case (dots_slash acc t u r)
  then show ?case
    using set_dropWhile_subset [of "\<lambda>c. c = CHR ''.''" t] set_tl_subset [of acc] by (auto split: if_splits)
next
  case (dots acc t d u r)
  then show ?case
    using set_dropWhile_subset [of "\<lambda>c. c = CHR ''.''" t] set_takeWhile_subset [of "\<lambda>c. c = CHR ''.''" t] by auto
next
  case (slash acc t r)
  then show ?case using set_dropWhile_subset [of "\<lambda>c. c = CHR ''/''" t] by auto
qed auto

section \<open>Clean paths\<close>

text \<open>
  A clean path has no backslash, no empty segment but the first and the last, and no segment
  that ends in a dot, so in particular no \<open>.\<close> and no \<open>..\<close> segment.
\<close>

definition ok_pair :: "char \<Rightarrow> char \<Rightarrow> bool" where
  "ok_pair a b \<longleftrightarrow> b = CHR ''/'' \<longrightarrow> a \<noteq> CHR ''/'' \<and> a \<noteq> CHR ''.''"

definition clean_path :: "string \<Rightarrow> bool" where
  "clean_path s \<longleftrightarrow> BACKSLASH \<notin> set s \<and> successively ok_pair s \<and> (s = [] \<or> last s \<noteq> CHR ''.'')"

fun ok_rev :: "string \<Rightarrow> bool" where
  "ok_rev [] = True"
| "ok_rev (b # acc) \<longleftrightarrow> (acc = [] \<or> ok_pair (hd acc) b) \<and> ok_rev acc"

lemma ok_rev_successively: "ok_rev acc \<longleftrightarrow> successively ok_pair (rev acc)"
proof (induction acc)
  case (Cons b acc)
  have "successively ok_pair (rev (b # acc)) \<longleftrightarrow>
      (rev acc = [] \<or> ok_pair (last (rev acc)) b) \<and> successively ok_pair (rev acc)"
    unfolding rev.simps successively_append_iff by auto
  then show ?case using Cons by (simp add: last_rev)
qed simp

definition squeeze_inv :: "string \<Rightarrow> string \<Rightarrow> bool" where
  "squeeze_inv acc s \<longleftrightarrow> ok_rev acc \<and>
     (acc \<noteq> [] \<longrightarrow> (hd acc = CHR ''/'' \<longrightarrow> s = [] \<or> hd s \<noteq> CHR ''/'')
       \<and> (hd acc = CHR ''.'' \<longrightarrow> s \<noteq> [] \<and> hd s \<noteq> CHR ''/'' \<and> hd s \<noteq> CHR ''.''))"

lemma ok_rev_dots: "ok_rev acc \<Longrightarrow> ok_rev (replicate n CHR ''.'' @ acc)"
  by (induction n) (auto simp: ok_pair_def)

lemma skip_hd: "skip c t = d # u \<Longrightarrow> d \<noteq> c"
  using hd_dropWhile [of "\<lambda>x. x = c" t] by simp

lemma squeeze_ok: "squeeze_inv acc s \<longrightarrow> ok_rev (squeeze acc s) \<and> (squeeze acc s = [] \<or> hd (squeeze acc s) \<noteq> CHR ''.'')"
proof (induction rule: squeeze_induct)
  case (dots_slash acc t u r)
  show ?case
  proof
    assume inv: "squeeze_inv acc (CHR ''.'' # t)"
    have "squeeze_inv (unslash acc) (CHR ''/'' # u)"
      using inv by (cases acc; cases "tl acc") (auto simp: squeeze_inv_def ok_pair_def)
    with dots_slash show "ok_rev r \<and> (r = [] \<or> hd r \<noteq> CHR ''.'')" by blast
  qed
next
  case (dots acc t d u r)
  have tw: "takeWhile (\<lambda>c. c = CHR ''.'') (CHR ''.'' # t) @ acc = CHR ''.'' # replicate (length (takeWhile (\<lambda>c. c = CHR ''.'') t)) CHR ''.'' @ acc"
    using takeWhile_replicate [of "CHR ''.''" t] by simp
  show ?case
  proof
    assume inv: "squeeze_inv acc (CHR ''.'' # t)"
    then have "ok_rev (takeWhile (\<lambda>c. c = CHR ''.'') (CHR ''.'' # t) @ acc)"
      unfolding tw using ok_rev_dots [of acc "Suc (length (takeWhile (\<lambda>c. c = CHR ''.'') t))"]
      by (simp add: squeeze_inv_def)
    moreover have "d \<noteq> CHR ''.''" using dots(1) by (rule skip_hd)
    ultimately have "squeeze_inv (takeWhile (\<lambda>c. c = CHR ''.'') (CHR ''.'' # t) @ acc) (d # u)"
      using dots(2) by (simp add: squeeze_inv_def)
    with dots show "ok_rev r \<and> (r = [] \<or> hd r \<noteq> CHR ''.'')" by blast
  qed
next
  case (slash acc t r)
  have "skip CHR ''/'' t = [] \<or> hd (skip CHR ''/'' t) \<noteq> CHR ''/''"
    by (cases "skip CHR ''/'' t") (auto dest: skip_hd)
  then have "squeeze_inv acc (CHR ''/'' # t) \<longrightarrow> squeeze_inv (CHR ''/'' # acc) (skip CHR ''/'' t)"
    by (auto simp: squeeze_inv_def ok_pair_def)
  with slash show ?case by blast
qed (auto simp: squeeze_inv_def ok_pair_def)

lemma clean_normal_path: "clean_path (normal_path s)"
proof -
  define t where "t = rev (rfc_dots [] (map to_slash s))"
  have "squeeze_inv [] t" by (simp add: squeeze_inv_def)
  with squeeze_ok have ok: "ok_rev (squeeze [] t)" "squeeze [] t = [] \<or> hd (squeeze [] t) \<noteq> CHR ''.''" by auto
  have "set (squeeze [] t) \<subseteq> set (map to_slash s)"
    using set_squeeze [of "[]" t] set_rfc_dots [of "[]" "map to_slash s"] by (auto simp: t_def)
  then have "BACKSLASH \<notin> set (squeeze [] t)" by (auto split: if_splits)
  with ok show ?thesis
    by (simp only: clean_path_def normal_path_def t_def [symmetric] ok_rev_successively last_rev set_rev
        rev_is_Nil_conv simp_thms)
qed

lemma clean_Cons:
  assumes "clean_path (c # s)"
  shows "clean_path s" "c \<noteq> BACKSLASH" "s \<noteq> [] \<Longrightarrow> ok_pair c (hd s)" "s = [] \<Longrightarrow> c \<noteq> CHR ''.''"
  using assms by (cases s; auto simp: clean_path_def)+

lemma clean_drop: "clean_path s \<Longrightarrow> clean_path (drop n s)"
proof (induction n arbitrary: s)
  case (Suc n)
  then show ?case by (cases s) (auto dest: clean_Cons)
qed simp

text \<open>No segment of a clean path is \<open>.\<close> or \<open>..\<close>.\<close>

lemma clean_segments: "clean_path s \<Longrightarrow> f \<in> set (split_on CHR ''/'' s) \<Longrightarrow> f = [] \<or> last f \<noteq> CHR ''.''"
proof (induction s arbitrary: f)
  case (Cons c s)
  note cl = clean_Cons [OF Cons.prems(1)]
  note IH = Cons.IH [OF cl(1)]
  show ?case
  proof (cases "c = CHR ''/''")
    case True
    with Cons.prems IH show ?thesis by auto
  next
    case False
    have hd: "hd (split_on CHR ''/'' s) = [] \<Longrightarrow> s = [] \<or> hd s = CHR ''/''"
      by (cases s) (auto simp: hd_split_on split: if_splits)
    have "last (c # hd (split_on CHR ''/'' s)) \<noteq> CHR ''.''"
    proof (cases "hd (split_on CHR ''/'' s) = []")
      case True
      with hd cl show ?thesis by (auto simp: ok_pair_def)
    next
      case False
      with IH [of "hd (split_on CHR ''/'' s)"] show ?thesis by simp
    qed
    moreover have "g \<in> set (tl (split_on CHR ''/'' s)) \<Longrightarrow> g = [] \<or> last g \<noteq> CHR ''.''" for g
      using IH [of g] set_tl_subset by fast
    ultimately show ?thesis using Cons.prems(2) False by auto
  qed
qed simp

text \<open>A clean path is left as it is.\<close>

lemma clean_dot: "clean_path (CHR ''.'' # s) \<Longrightarrow> s \<noteq> [] \<and> hd s \<noteq> CHR ''/''"
  using clean_Cons [of "CHR ''.''" s] by (auto simp: ok_pair_def)

lemma clean_slash: "clean_path (CHR ''/'' # s) \<Longrightarrow> s = [] \<or> hd s \<noteq> CHR ''/''"
  by (auto dest: clean_Cons simp: ok_pair_def)

lemma not_clean: "\<not> clean_path (u @ [CHR ''.''])" "\<not> clean_path (u @ CHR ''.'' # CHR ''/'' # v)"
  using clean_drop [of _ "length u"] clean_dot by fastforce+

lemma starts_withD: "starts_with s p \<Longrightarrow> \<exists>r. s = p @ r"
  unfolding starts_with_def by (metis append_take_drop_id)

lemma clean_rfc_round:
  assumes "clean_path s" "s \<noteq> []"
  shows "rfc_round acc s =
    (rev (hd s # takeWhile (\<lambda>c. c \<noteq> CHR ''/'') (tl s)) @ acc, dropWhile (\<lambda>c. c \<noteq> CHR ''/'') (tl s))"
proof -
  have "\<not> starts_with s ''../''" "\<not> starts_with s ''./''" "\<not> starts_with s ''/./''" "\<not> starts_with s ''/../''"
    using assms(1) not_clean(2) [of "''.''"] not_clean(2) [of "[]"] not_clean(2) [of "''/''"] not_clean(2) [of "''/.''"]
    by (auto dest!: starts_withD)
  moreover have "s \<noteq> ''/.''" "s \<noteq> ''/..''" "\<not> (s = ''.'' \<or> s = ''..'')"
    using assms(1) not_clean(1) [of "''/''"] not_clean(1) [of "''/.''"] not_clean(1) [of "[]"] not_clean(1) [of "''.''"]
    by auto
  ultimately show ?thesis by (simp add: rfc_round_def)
qed

lemma rfc_dots_clean: "clean_path s \<Longrightarrow> rfc_dots acc s = rev s @ acc"
proof (induction "length s" arbitrary: acc s rule: less_induct)
  case less
  show ?case
  proof (cases s)
    case Nil
    then show ?thesis by (simp add: rfc_dots.simps)
  next
    case (Cons c t)
    define w where "w = takeWhile (\<lambda>c. c \<noteq> CHR ''/'') t"
    define d where "d = dropWhile (\<lambda>c. c \<noteq> CHR ''/'') t"
    have r: "rfc_round acc s = (rev (c # w) @ acc, d)"
      using clean_rfc_round [OF less.prems] Cons by (simp add: w_def d_def)
    have "clean_path d" using clean_drop [of s "Suc (length w)"] less.prems Cons
      by (simp add: d_def w_def dropWhile_eq_drop)
    moreover have "length d < length s" using rfc_round_length [OF _ r] Cons by simp
    moreover have "t = w @ d" by (simp add: w_def d_def)
    ultimately show ?thesis using less.hyps [of d] rfc_dots_round [OF _ r] Cons by simp
  qed
qed

lemma squeeze_clean: "clean_path s \<longrightarrow> squeeze acc s = rev s @ acc"
proof (induction rule: squeeze_induct [where P = "\<lambda>acc s r. clean_path s \<longrightarrow> r = rev s @ acc"])
  case (dots_end acc t)
  define n where "n = length (takeWhile (\<lambda>c. c = CHR ''.'') t)"
  have tw: "takeWhile (\<lambda>c. c = CHR ''.'') t = replicate n CHR ''.''"
    unfolding n_def by (rule takeWhile_replicate)
  have "takeWhile (\<lambda>c. c = CHR ''.'') t @ skip CHR ''.'' t = t" by simp
  then have "t = replicate n CHR ''.''" unfolding tw dots_end by simp
  then have s: "CHR ''.'' # t = replicate n CHR ''.'' @ [CHR ''.'']" by (simp add: replicate_append_same)
  have "\<not> clean_path (CHR ''.'' # t)" unfolding s by (rule not_clean)
  then show ?case by blast
next
  case (dots_slash acc t u r)
  define n where "n = length (takeWhile (\<lambda>c. c = CHR ''.'') t)"
  have tw: "takeWhile (\<lambda>c. c = CHR ''.'') t = replicate n CHR ''.''"
    unfolding n_def by (rule takeWhile_replicate)
  have "takeWhile (\<lambda>c. c = CHR ''.'') t @ skip CHR ''.'' t = t" by simp
  then have "t = replicate n CHR ''.'' @ CHR ''/'' # u" unfolding tw dots_slash(1) by simp
  then have s: "CHR ''.'' # t = replicate n CHR ''.'' @ CHR ''.'' # CHR ''/'' # u" by (simp add: replicate_app_Cons_same)
  have "\<not> clean_path (CHR ''.'' # t)" unfolding s by (rule not_clean)
  then show ?case by blast
next
  case (dots acc t d u r)
  define n where "n = length (takeWhile (\<lambda>c. c = CHR ''.'') t)"
  have tw: "takeWhile (\<lambda>c. c = CHR ''.'') t = replicate n CHR ''.''"
    unfolding n_def by (rule takeWhile_replicate)
  have "takeWhile (\<lambda>c. c = CHR ''.'') t @ skip CHR ''.'' t = t" by simp
  then have "replicate n CHR ''.'' @ d # u = t" unfolding tw dots(1) .
  then have t: "CHR ''.'' # t = replicate (Suc n) CHR ''.'' @ d # u" by simp
  have "clean_path (d # u)" if "clean_path (CHR ''.'' # t)"
    using clean_drop [OF that, of "Suc n"] unfolding t by simp
  moreover have "takeWhile (\<lambda>c. c = CHR ''.'') (CHR ''.'' # t) = replicate (Suc n) CHR ''.''"
    using tw by simp
  ultimately show ?case
    using dots(3) unfolding t rev_append rev_replicate append.assoc by metis
next
  case (slash acc t r)
  have "skip CHR ''/'' t = t" "clean_path t" if "clean_path (CHR ''/'' # t)"
    using clean_slash [OF that] clean_Cons(1) [OF that] by (cases t; simp)+
  with slash show ?case by auto
next
  case (other acc c t r)
  then show ?case using clean_Cons(1) [of c t] by auto
qed simp

lemma normal_path_clean:
  assumes "clean_path s"
  shows "normal_path s = s"
proof -
  have "map to_slash s = s" using assms by (intro map_idI) (auto simp: clean_path_def)
  then show ?thesis using assms by (simp add: normal_path_def rfc_dots_clean squeeze_clean)
qed

section \<open>The whole routine\<close>

lemma cstring_normal_path: "cstring s \<Longrightarrow> cstring (normal_path s)"
  using set_squeeze [of "[]" "rev (rfc_dots [] (map to_slash s))"] set_rfc_dots [of "[]" "map to_slash s"]
  by (fastforce simp: cstring_def normal_path_def)

lemma uri_done_terminated:
  assumes "uri_done e T mem acc r" "e < length mem" "cstring acc"
  shows "\<exists>mem'. r = Some (mem', length acc) \<and> length mem' = length mem
    \<and> uri_rel e T (mem'[length acc := NUL]) 0 0 [] (rev acc)"
proof -
  obtain mem' where m: "r = Some (mem', length acc)" "length mem' = length mem" "length acc \<le> e"
    "drop (Suc e) mem' = T" "take (length acc) mem' = rev acc"
    using assms(1) by (auto simp: uri_done_def)
  then have "uri_rel e T (mem'[length acc := NUL]) 0 0 [] (rev acc)"
    using assms(2,3) by (simp add: uri_rel_def take_update_nth cstring_def)
  with m show ?thesis by blast
qed

lemma remove_dot_segments_spec:
  assumes "cstring s" "take (length s + 1) mem = s @ [NUL]"
  shows "\<exists>mem'. remove_dot_segments (Some mem) = Some (Some mem') \<and> length mem' = length mem
    \<and> drop (length s + 1) mem' = drop (length s + 1) mem \<and> str_at mem' 0 = normal_path s
    \<and> length (normal_path s) \<le> length s"
proof -
  define e where "e = length s"
  define T where "T = drop (Suc e) mem"
  define t where "t = map to_slash s"
  have l: "e < length mem" using assms(2) by (metis e_def length_append_singleton length_take min.cobounded1 Suc_eq_plus1 Suc_le_eq)
  have ct: "cstring t" using assms(1) by (auto simp: t_def cstring_def)
  define mem1 where "mem1 = t @ drop e mem"
  have d: "drop e mem = NUL # T"
  proof -
    have "drop e mem = mem ! e # T" using l by (simp add: T_def Cons_nth_drop_Suc)
    moreover have "mem ! e = take (length s + 1) mem ! e" by (simp add: e_def)
    ultimately show ?thesis unfolding assms(2) by (simp add: e_def)
  qed
  have run1: "rds_backslash mem 0 = Some mem1"
    using rds_backslash_spec [of s 0 mem] assms l by (simp add: mem1_def t_def e_def)
  have lt: "length t = e" "length mem1 = length mem" using l by (simp_all add: t_def e_def mem1_def)
  have "uri_rel e T mem1 0 0 [] t"
    using ct lt l d by (simp add: uri_rel_def mem1_def)
  from uri_done_terminated [OF rds_dots_spec [OF this]] l lt ct set_rfc_dots [of "[]" t]
  obtain mem2 where run2: "rds_dots mem1 0 0 = Some (mem2, length (rfc_dots [] t))" "length mem2 = length mem"
    "uri_rel e T (mem2[length (rfc_dots [] t) := NUL]) 0 0 [] (rev (rfc_dots [] t))"
    by (auto simp: cstring_def)
  define mem3 where "mem3 = mem2[length (rfc_dots [] t) := NUL]"
  define n where "n = squeeze [] (rev (rfc_dots [] t))"
  have n: "normal_path s = rev n" by (simp add: normal_path_def n_def t_def)
  have rel3: "uri_rel e T mem3 0 0 [] (rev (rfc_dots [] t))" using run2(3) by (simp add: mem3_def)
  have w3: "wr mem2 (length (rfc_dots [] t)) NUL = Some mem3"
    using rel3 run2(2) by (auto simp: uri_rel_def mem3_def wr_lt)
  have cn: "cstring n" using cstring_normal_path [OF assms(1)] by (simp add: n cstring_def)
  from uri_done_terminated [OF rds_squeeze_spec [OF rel3], folded n_def] l run2(2) cn
  obtain mem4 where run4: "rds_squeeze mem3 0 0 = Some (mem4, length n)" "length mem4 = length mem"
    "uri_rel e T (mem4[length n := NUL]) 0 0 [] (rev n)"
    by (auto simp: mem3_def)
  have w5: "wr mem4 (length n) NUL = Some (mem4[length n := NUL])"
    using run4 by (auto simp: uri_rel_def wr_lt)
  have "remove_dot_segments (Some mem) = Some (Some (mem4[length n := NUL]))"
    by (simp add: remove_dot_segments_def run1 run2(1) w3 run4(1) w5)
  moreover have "str_at (mem4[length n := NUL]) 0 = normal_path s"
    using uri_rel_str [OF run4(3)] by (simp add: n)
  ultimately show ?thesis
    using run4(2,3) by (auto simp: uri_rel_def n e_def T_def)
qed

text \<open>C23: \<open>remove_dot_segments\<close> returns for every string, never leaves the string's buffer, and
  implements the normalisation of the abstract specification: backslashes become slashes,
  the dot segments are removed as RFC 3986 does, then dots in front of a slash and repeated
  slashes are squeezed out. Nothing behind the string changes.\<close>

theorem remove_dot_segments_refines:
  assumes "cstring s" "take (length s + 1) mem = s @ [NUL]"
  shows "\<exists>mem'. remove_dot_segments (Some mem) = Some (Some mem') \<and> length mem' = length mem
    \<and> drop (length s + 1) mem' = drop (length s + 1) mem \<and> str_at mem' 0 = normal_path s
    \<and> length (normal_path s) \<le> length s"
  using assms by (rule remove_dot_segments_spec)

theorem remove_dot_segments_refines_witness:
  "\<exists>mem'. remove_dot_segments (Some (''/a/../b'' @ [NUL] @ ''xy'')) = Some (Some mem')
    \<and> length mem' = length (''/a/../b'' @ [NUL] @ ''xy'')
    \<and> drop (length ''/a/../b'' + 1) mem' = drop (length ''/a/../b'' + 1) (''/a/../b'' @ [NUL] @ ''xy'')
    \<and> str_at mem' 0 = normal_path ''/a/../b'' \<and> length (normal_path ''/a/../b'') \<le> length ''/a/../b''"
  by (rule remove_dot_segments_refines [where s = "''/a/../b''"]) simp_all

text \<open>C22: no directory traversal. In the path that \<open>remove_dot_segments\<close> leaves there is no
  backslash, no \<open>.\<close> and no \<open>..\<close> segment, and no segment ending in a dot (which some file
  systems drop).\<close>

theorem remove_dot_segments_safe:
  assumes "cstring s" "take (length s + 1) mem = s @ [NUL]"
  shows "\<exists>mem'. remove_dot_segments (Some mem) = Some (Some mem') \<and> BACKSLASH \<notin> set (str_at mem' 0)
    \<and> (\<forall>f \<in> set (split_on CHR ''/'' (str_at mem' 0)). f \<noteq> ''.'' \<and> f \<noteq> ''..'' \<and> (f = [] \<or> last f \<noteq> CHR ''.''))"
proof -
  obtain mem' where m: "remove_dot_segments (Some mem) = Some (Some mem')" "str_at mem' 0 = normal_path s"
    using remove_dot_segments_spec [OF assms] by blast
  have "f \<noteq> ''.'' \<and> f \<noteq> ''..'' \<and> (f = [] \<or> last f \<noteq> CHR ''.'')"
    if "f \<in> set (split_on CHR ''/'' (normal_path s))" for f
    using clean_segments [OF clean_normal_path that] by auto
  moreover have "BACKSLASH \<notin> set (normal_path s)"
    using clean_normal_path [of s] by (simp add: clean_path_def)
  ultimately show ?thesis using m by auto
qed

theorem remove_dot_segments_safe_witness:
  "\<exists>mem'. remove_dot_segments (Some (''/x/../../y'' @ [NUL])) = Some (Some mem') \<and> BACKSLASH \<notin> set (str_at mem' 0)
    \<and> (\<forall>f \<in> set (split_on CHR ''/'' (str_at mem' 0)). f \<noteq> ''.'' \<and> f \<noteq> ''..'' \<and> (f = [] \<or> last f \<noteq> CHR ''.''))"
  by (rule remove_dot_segments_safe [where s = "''/x/../../y''"]) simp_all

text \<open>Normalising is idempotent, and it leaves exactly the clean paths as they are: a path
  is changed only where it has a backslash, an empty inner segment or a segment ending in a
  dot.\<close>

theorem remove_dot_segments_idempotent:
  assumes "cstring s" "take (length s + 1) mem = s @ [NUL]"
  shows "\<exists>mem' mem''. remove_dot_segments (Some mem) = Some (Some mem')
    \<and> remove_dot_segments (Some mem') = Some (Some mem'') \<and> str_at mem'' 0 = str_at mem' 0
    \<and> (str_at mem' 0 = s \<longleftrightarrow> clean_path s)"
proof -
  have "length (take (length s + 1) mem) = length s + 1" unfolding assms(2) by simp
  then have l: "length s < length mem" by simp
  obtain mem' where m: "remove_dot_segments (Some mem) = Some (Some mem')" "length mem' = length mem"
    "str_at mem' 0 = normal_path s" "length (normal_path s) \<le> length s"
    using remove_dot_segments_spec [OF assms] by blast
  have "take (length (normal_path s) + 1) mem' = normal_path s @ [NUL]"
    using take_str_at [of 0 mem'] m l by simp
  from remove_dot_segments_spec [OF cstring_normal_path [OF assms(1)] this] obtain mem'' where
    "remove_dot_segments (Some mem') = Some (Some mem'')" "str_at mem'' 0 = normal_path (normal_path s)" by blast
  moreover have "normal_path (normal_path s) = normal_path s"
    by (rule normal_path_clean [OF clean_normal_path])
  moreover have "normal_path s = s \<longleftrightarrow> clean_path s"
    using normal_path_clean [of s] clean_normal_path [of s] by auto
  ultimately show ?thesis using m by auto
qed

theorem remove_dot_segments_idempotent_witness:
  "\<exists>mem' mem''. remove_dot_segments (Some (''/a//b/.'' @ [NUL])) = Some (Some mem')
    \<and> remove_dot_segments (Some mem') = Some (Some mem'') \<and> str_at mem'' 0 = str_at mem' 0
    \<and> (str_at mem' 0 = ''/a//b/.'' \<longleftrightarrow> clean_path ''/a//b/.'')"
  by (rule remove_dot_segments_idempotent [where s = "''/a//b/.''"]) simp_all

section \<open>Absolute URIs\<close>

definition is_valid_port :: "nat \<Rightarrow> bool" where
  "is_valid_port port \<longleftrightarrow> port \<le> 65535"

definition abs_uri_protocols :: "(string \<times> nat \<times> nat) list" where
  "abs_uri_protocols = [(''http://'', 7, 80), (''https://'', 8, 443), (''ws://'', 5, 80), (''wss://'', 6, 443)]"

text \<open>The loop over the protocols stops at the first that matches.\<close>

definition find_protocol :: "string \<Rightarrow> (string \<times> nat \<times> nat) option" where
  "find_protocol uri = find (\<lambda>(proto, proto_len, default_port). mg_strncasecmp uri proto proto_len = 0) abs_uri_protocols"

definition get_uri_type :: "string \<Rightarrow> nat" where
  "get_uri_type uri =
     (if uri = ''*'' then 1
      else if \<exists>c \<in> set uri. schar c < 33 then 0
      else if deref uri = CHR ''/'' then 2
      else case find_protocol uri of
        None \<Rightarrow> 0
      | Some (proto, proto_len, default_port) \<Rightarrow>
          let host = drop proto_len uri
          in case strchr host CHR ''/'' of
               None \<Rightarrow> 0
             | Some hostend \<Rightarrow>
                 (case strchr host CHR '':'' of
                    None \<Rightarrow> 3
                  | Some portbegin \<Rightarrow>
                      let (port, portend) = strtoul10 (tl portbegin)
                      in if portend \<noteq> hostend \<or> port = 0 \<or> \<not> is_valid_port port then 0 else 4))"

text \<open>
  The pointers are suffixes of one string, so they are equal exactly when the suffixes are, and
  \<open>portbegin > hostend\<close> says that the suffix at \<open>portbegin\<close> is shorter. \<open>lsa_port\<close> is the port
  the request came in on; \<open>check\<close> and \<open>domain\<close> are the two settings.
\<close>

definition domain_matches :: "string \<Rightarrow> nat \<Rightarrow> string \<Rightarrow> bool" where
  "domain_matches hostbegin request_domain_len server_domain =
     (let server_domain_len = length server_domain
      in if server_domain_len = 0 then False
         else if request_domain_len = server_domain_len \<and> take server_domain_len hostbegin = server_domain then True
         else if request_domain_len < server_domain_len + 2 then False
         else if cat hostbegin (request_domain_len - server_domain_len - 1) \<noteq> CHR ''.'' then False
         else take server_domain_len (drop (request_domain_len - server_domain_len) hostbegin) = server_domain)"

definition get_rel_url_at_current_server :: "string \<Rightarrow> string \<Rightarrow> string \<Rightarrow> nat \<Rightarrow> string option" where
  "get_rel_url_at_current_server uri check domain lsa_port =
     (case find_protocol uri of
        None \<Rightarrow> None
      | Some (proto, proto_len, default_port) \<Rightarrow>
          let hostbegin = drop proto_len uri
          in do {
            hostend \<leftarrow> strchr hostbegin CHR ''/'';
            (port, request_domain_len) \<leftarrow>
              (case strchr hostbegin CHR '':'' of
                 None \<Rightarrow> Some (default_port, length hostbegin - length hostend)
               | Some portbegin \<Rightarrow>
                   if length portbegin < length hostend
                   then Some (default_port, length hostbegin - length hostend)
                   else let (port, portend) = strtoul10 (tl portbegin)
                        in if portend \<noteq> hostend \<or> port = 0 \<or> \<not> is_valid_port port then None
                           else Some (port, length hostbegin - length portbegin));
            if lsa_port \<noteq> port then None
            else if mg_strcasecmp check ''yes'' = 0 \<and> \<not> domain_matches hostbegin request_domain_len domain then None
            else Some hostend
          })"

text \<open>What a URI that addresses this server looks like: \<open>p\<close> is what stands between host and
  path.\<close>

definition port_suffix :: "string \<Rightarrow> string \<Rightarrow> nat \<Rightarrow> nat \<Rightarrow> bool" where
  "port_suffix p rest default_port port \<longleftrightarrow> p = [] \<and> port = default_port
     \<or> deref p = CHR '':'' \<and> 0 < port \<and> is_valid_port port \<and> strtoul10 (tl p @ rest) = (port, rest)"

definition in_domain :: "string \<Rightarrow> string \<Rightarrow> bool" where
  "in_domain domain host \<longleftrightarrow> domain \<noteq> [] \<and> (host = domain \<or> (\<exists>sub. sub \<noteq> [] \<and> host = sub @ ''.'' @ domain))"

definition server_url :: "string \<Rightarrow> string \<Rightarrow> string \<Rightarrow> nat \<Rightarrow> string \<Rightarrow> bool" where
  "server_url uri check domain port rest \<longleftrightarrow>
     (\<exists>proto n d host p. (fold_case proto, n, d) \<in> set abs_uri_protocols \<and> uri = proto @ host @ p @ rest
        \<and> deref rest = CHR ''/'' \<and> CHR ''/'' \<notin> set (host @ p) \<and> CHR '':'' \<notin> set host \<and> port_suffix p rest d port
        \<and> (fold_case check = ''yes'' \<longrightarrow> in_domain domain host))"

lemma domain_matches_eq: "domain_matches (host @ rest) (length host) domain \<longleftrightarrow> in_domain domain host"
proof -
  define k where "k = length host - length domain"
  consider "domain = []" | "domain \<noteq> []" "length host = length domain" | "domain \<noteq> []" "length host \<noteq> length domain" "length host < length domain + 2"
    | "domain \<noteq> []" "length domain + 2 \<le> length host" by linarith
  then show ?thesis
  proof cases
    case 2
    then show ?thesis by (auto simp: domain_matches_def in_domain_def Let_def)
  next
    case 3
    have "host \<noteq> sub @ CHR ''.'' # domain" if "sub \<noteq> []" for sub
      using 3 that by (cases sub) auto
    with 3 show ?thesis by (auto simp: domain_matches_def in_domain_def Let_def)
  next
    case 4
    then have k: "2 \<le> k" "k \<le> length host" "length host = k + length domain" by (simp_all add: k_def)
    have split: "host = take (k - 1) host @ host ! (k - 1) # drop k host"
      using k id_take_nth_drop [of "k - 1" host] by simp
    have nonempty: "take (k - 1) host \<noteq> []" using k by auto
    have unique: "c = host ! (k - 1) \<and> domain = drop k host" if "host = sub @ c # domain" for sub c
    proof -
      have "length sub = k - 1" using k that by simp
      then show ?thesis using k that by (cases k) (auto simp: nth_append)
    qed
    have ex: "(\<exists>sub. sub \<noteq> [] \<and> host = sub @ ''.'' @ domain) \<longleftrightarrow> host ! (k - 1) = CHR ''.'' \<and> drop k host = domain"
    proof
      assume "\<exists>sub. sub \<noteq> [] \<and> host = sub @ ''.'' @ domain"
      then obtain sub where "host = sub @ CHR ''.'' # domain" by auto
      from unique [OF this] show "host ! (k - 1) = CHR ''.'' \<and> drop k host = domain" by simp
    next
      assume a: "host ! (k - 1) = CHR ''.'' \<and> drop k host = domain"
      have "host = take (k - 1) host @ CHR ''.'' # domain"
        using split unfolding conjunct1 [OF a] conjunct2 [OF a] .
      with nonempty show "\<exists>sub. sub \<noteq> [] \<and> host = sub @ ''.'' @ domain"
        by (intro exI [of _ "take (k - 1) host"]) simp
    qed
    have "cat (host @ rest) (k - 1) = host ! (k - 1)"
    proof -
      have "k - 1 < length host" using k by linarith
      then show ?thesis by (simp add: cat_def nth_append)
    qed
    moreover have "take (length domain) (drop k (host @ rest)) = drop k host" using k by simp
    moreover have "length host \<noteq> length domain" "\<not> length host < length domain + 2" "host \<noteq> domain" using 4 by auto
    ultimately show ?thesis
      using 4(1) unfolding domain_matches_def in_domain_def Let_def k_def [symmetric] ex by simp
  qed (simp_all add: domain_matches_def in_domain_def)
qed

lemma find_protocol_eq:
  assumes "cstring uri"
  shows "find_protocol uri = find (\<lambda>(proto, n, d). take n (fold_case uri) = proto) abs_uri_protocols"
proof -
  have "mg_strncasecmp uri p n = 0 \<longleftrightarrow> take n (fold_case uri) = p" if "(p, n, d) \<in> set abs_uri_protocols" for p n d
  proof -
    have "cstring p" "fold_case (take n p) = p"
      using that by (auto simp: abs_uri_protocols_def tolower_def isupper_def ordc_def)
    then show ?thesis using mg_strncasecmp_eq [of uri p n] assms by (simp add: take_map)
  qed
  then show ?thesis
    unfolding find_protocol_def by (intro find_cong) auto
qed

lemma find_protocol_Some:
  assumes "cstring uri" "find_protocol uri = Some (pr, n, d)"
  shows "(fold_case (take n uri), n, d) \<in> set abs_uri_protocols"
  using assms(2) unfolding find_protocol_eq [OF assms(1)]
  by (auto simp: find_Some_iff take_map in_set_conv_nth)

lemma find_listed:
  assumes "(P, n, d) \<in> set abs_uri_protocols"
  shows "find (\<lambda>(proto, n, d). take n (P @ f) = proto) abs_uri_protocols = Some (P, n, d) \<and> n = length P"
  using assms unfolding abs_uri_protocols_def set_simps insert_iff prod.inject empty_iff
  by (elim disjE conjE FalseE; hypsubst; simp)

lemma find_protocol_unique:
  assumes "cstring uri" "(fold_case proto, n, d) \<in> set abs_uri_protocols" "uri = proto @ r"
  shows "find_protocol uri = Some (fold_case proto, n, d) \<and> n = length proto"
  using find_listed [OF assms(2), of "fold_case r"] unfolding find_protocol_eq [OF assms(1)] by (simp add: assms(3))

lemma strchr_eq: "strchr s c = Some t \<longleftrightarrow> (\<exists>u. s = u @ t \<and> c \<notin> set u \<and> t \<noteq> [] \<and> hd t = c)"
proof
  assume "\<exists>u. s = u @ t \<and> c \<notin> set u \<and> t \<noteq> [] \<and> hd t = c"
  then show "strchr s c = Some t" by (cases t) auto
qed (rule strchr_Some)

lemma strchr_SomeE:
  assumes "strchr s c = Some t"
  obtains u where "s = u @ t" "c \<notin> set u" "deref t = c" "t \<noteq> []"
  using assms unfolding strchr_eq by (auto simp: deref_def split: list.splits)

lemma strcasecmp_yes: "cstring check \<Longrightarrow> mg_strcasecmp check ''yes'' = 0 \<longleftrightarrow> fold_case check = ''yes''"
  using mg_strcasecmp_eq [of check "''yes''"] by (simp add: tolower_def isupper_def ordc_def)

lemma rel_url_unfold:
  assumes "find_protocol uri = Some (pr, n, d)" "drop n uri = hb" "strchr hb CHR ''/'' = Some he"
  shows "get_rel_url_at_current_server uri check domain port
    = Option.bind (case strchr hb CHR '':'' of None \<Rightarrow> Some (d, length hb - length he)
      | Some pb \<Rightarrow> if length pb < length he then Some (d, length hb - length he)
          else let (port, portend) = strtoul10 (tl pb)
               in if portend \<noteq> he \<or> port = 0 \<or> \<not> is_valid_port port then None
                  else Some (port, length hb - length pb))
      (\<lambda>(port', len). if port \<noteq> port' then None
         else if mg_strcasecmp check ''yes'' = 0 \<and> \<not> domain_matches hb len domain then None else Some he)"
  unfolding get_rel_url_at_current_server_def assms(1) option.case prod.case Let_def assms(2) assms(3)
    Option.bind_lunit ..

lemma rel_url_spec:
  assumes "cstring uri" "cstring check"
  shows "get_rel_url_at_current_server uri check domain port = Some rest \<longleftrightarrow> server_url uri check domain port rest"
proof
  assume get: "get_rel_url_at_current_server uri check domain port = Some rest"
  then obtain pr n d where f: "find_protocol uri = Some (pr, n, d)"
    by (auto simp: get_rel_url_at_current_server_def split: option.splits)
  define proto where "proto = take n uri"
  define hb where "hb = drop n uri"
  have pm: "(fold_case proto, n, d) \<in> set abs_uri_protocols" and uri: "uri = proto @ hb"
    using find_protocol_Some [OF assms(1) f] by (simp_all add: proto_def hb_def)
  from get f obtain he where he: "strchr hb CHR ''/'' = Some he"
    by (auto simp: get_rel_url_at_current_server_def Let_def hb_def bind_eq_Some_conv)
  then obtain u where u: "hb = u @ he" "CHR ''/'' \<notin> set u" "deref he = CHR ''/''"
    by (elim strchr_SomeE)
  have body: "Option.bind (case strchr hb CHR '':'' of None \<Rightarrow> Some (d, length hb - length he)
      | Some pb \<Rightarrow> if length pb < length he then Some (d, length hb - length he)
          else let (port, portend) = strtoul10 (tl pb)
               in if portend \<noteq> he \<or> port = 0 \<or> \<not> is_valid_port port then None
                  else Some (port, length hb - length pb))
      (\<lambda>(port', len). if port \<noteq> port' then None
         else if mg_strcasecmp check ''yes'' = 0 \<and> \<not> domain_matches hb len domain then None else Some he) = Some rest"
    using get unfolding rel_url_unfold [OF f hb_def [symmetric] he] .
  have lu: "length hb - length he = length u" by (simp add: u(1))
  have finish: "server_url uri check domain port rest"
    if "u = host @ p" "CHR '':'' \<notin> set host" "port_suffix p he d port" "he = rest"
      "mg_strcasecmp check ''yes'' = 0 \<longrightarrow> domain_matches hb (length host) domain" for host p
    using that pm uri u strcasecmp_yes [OF assms(2)] domain_matches_eq [of host "p @ he" domain]
    unfolding server_url_def by (intro exI [of _ proto] exI [of _ n] exI [of _ d] exI [of _ host] exI [of _ p]) auto
  show "server_url uri check domain port rest"
  proof (cases "strchr hb CHR '':''")
    case None
    then have "CHR '':'' \<notin> set u" using u(1) by simp
    with body None lu show ?thesis
      by (intro finish [of u "[]"]) (auto simp: port_suffix_def split: if_splits)
  next
    case (Some pb)
    then obtain v where v: "hb = v @ pb" "CHR '':'' \<notin> set v" "deref pb = CHR '':''"
      by (elim strchr_SomeE)
    show ?thesis
    proof (cases "length pb < length he")
      case True
      with u v have "CHR '':'' \<notin> set u" by (auto simp: append_eq_append_conv2)
      with body Some True lu show ?thesis
        by (intro finish [of u "[]"]) (auto simp: port_suffix_def split: if_splits)
    next
      case False
      then obtain p where p: "u = v @ p" "pb = p @ he"
        using u v by (auto simp: append_eq_append_conv2)
      then have "p \<noteq> []" using u(3) v(3) by auto
      with p v have tp: "tl pb = tl p @ he" "deref p = CHR '':''" by (cases p; simp)+
      have lv: "length hb - length pb = length v" using v(1) by simp
      obtain port' portend where st: "strtoul10 (tl p @ he) = (port', portend)" by (cases "strtoul10 (tl p @ he)")
      with body Some False lv have b: "portend = he" "0 < port'" "is_valid_port port'" "port' = port" "he = rest"
        "mg_strcasecmp check ''yes'' = 0 \<longrightarrow> domain_matches hb (length v) domain"
        by (auto simp: tp(1) split: if_splits)
      with st tp(2) have "port_suffix p he d port" by (simp add: port_suffix_def)
      with finish [OF p(1) v(2)] b show ?thesis by blast
    qed
  qed
next
  assume "server_url uri check domain port rest"
  then obtain proto n d host p where s: "(fold_case proto, n, d) \<in> set abs_uri_protocols" "uri = proto @ host @ p @ rest"
    "deref rest = CHR ''/''" "CHR ''/'' \<notin> set (host @ p)" "CHR '':'' \<notin> set host" "port_suffix p rest d port"
    "fold_case check = ''yes'' \<longrightarrow> in_domain domain host"
    unfolding server_url_def by blast
  have f: "find_protocol uri = Some (fold_case proto, n, d)" "drop n uri = host @ p @ rest"
    using find_protocol_unique [OF assms(1) s(1), of "host @ p @ rest"] s(2) by auto
  obtain rt where rt: "rest = CHR ''/'' # rt" using s(3) by (cases rest) auto
  have he: "strchr (host @ p @ rest) CHR ''/'' = Some rest"
    using s(4) strchr_append_Cons [of "CHR ''/''" "host @ p" rt] by (simp add: rt)
  have dm: "\<not> (mg_strcasecmp check ''yes'' = 0 \<and> \<not> domain_matches (host @ p @ rest) (length host) domain)"
    using s(7) strcasecmp_yes [OF assms(2)] domain_matches_eq by blast
  show "get_rel_url_at_current_server uri check domain port = Some rest"
  proof (cases "p = []")
    case True
    with s(6) have "port = d" by (auto simp: port_suffix_def)
    moreover have "length pb < length rest" if "strchr (host @ rest) CHR '':'' = Some pb" for pb
    proof -
      from that obtain v where v: "host @ rest = v @ pb" "deref pb = CHR '':''" by (elim strchr_SomeE)
      show ?thesis
      proof (rule ccontr)
        assume "\<not> length pb < length rest"
        with v(1) obtain x where x: "host = v @ x" "pb = x @ rest" by (auto simp: append_eq_append_conv2)
        with v(2) s(3,5) show False by (cases x) auto
      qed
    qed
    ultimately show ?thesis
      using f he dm True by (auto simp: get_rel_url_at_current_server_def Let_def split: option.splits)
  next
    case False
    with s(6) have ps: "deref p = CHR '':''" "0 < port" "is_valid_port port" "strtoul10 (tl p @ rest) = (port, rest)"
      by (auto simp: port_suffix_def)
    then obtain pt where pt: "p = CHR '':'' # pt" using False by (cases p) auto
    have "strchr (host @ p @ rest) CHR '':'' = Some (p @ rest)"
      using s(5) strchr_append_Cons [of "CHR '':''" host "pt @ rest"] by (simp add: pt)
    then show ?thesis
      using f he dm ps pt by (auto simp: get_rel_url_at_current_server_def Let_def)
  qed
qed

text \<open>\<open>get_rel_url_at_current_server\<close> accepts exactly the absolute URIs of this server:
  a known protocol (without regard to case), a host, the port of the connection (explicit or
  the protocol's default), and a path, which is the result. With the domain check switched on
  the host is the authentication domain or a subdomain of it, so neither
  \<open>notmydomain.com\<close> nor \<open>mydomain.com.fake\<close> passes for \<open>mydomain.com\<close>.\<close>

theorem rel_url_correct:
  assumes "cstring uri" "cstring check"
  shows "get_rel_url_at_current_server uri check domain port = Some rest \<longleftrightarrow> server_url uri check domain port rest"
  using assms by (rule rel_url_spec)

theorem rel_url_correct_witness:
  "get_rel_url_at_current_server ''http://www.a.org:81/x'' ''yes'' ''a.org'' 81 = Some ''/x''
    \<longleftrightarrow> server_url ''http://www.a.org:81/x'' ''yes'' ''a.org'' 81 ''/x''"
  by (rule rel_url_correct) simp_all

text \<open>An absolute URI without a port is classified as invalid when its path or query has a
  colon, although \<open>get_rel_url_at_current_server\<close> accepts the same URI: the search for the
  port in \<open>get_uri_type\<close> does not stop at the end of the host.\<close>

theorem uri_type_colon_in_path:
  assumes "cstring uri" "uri = proto @ host @ CHR ''/'' # path" "(fold_case proto, n, d) \<in> set abs_uri_protocols"
    and "CHR ''/'' \<notin> set host" "CHR '':'' \<notin> set host" "CHR '':'' \<in> set path" "cstring check" "fold_case check \<noteq> ''yes''"
  shows "get_uri_type uri = 0 \<and> get_rel_url_at_current_server uri check domain d = Some (CHR ''/'' # path)"
proof
  define rest where "rest = CHR ''/'' # path"
  have f: "find_protocol uri = Some (fold_case proto, n, d)" "drop n uri = host @ rest"
    using find_protocol_unique [OF assms(1,3), of "host @ rest"] assms(2) by (auto simp: rest_def)
  have he: "strchr (host @ rest) CHR ''/'' = Some rest"
    using assms(4) by (simp add: rest_def)
  obtain u t where path: "path = u @ CHR '':'' # t" "CHR '':'' \<notin> set u"
    using assms(6) by (meson split_list_first)
  have pb: "strchr (host @ rest) CHR '':'' = Some (CHR '':'' # t)"
    using strchr_append_Cons [of "CHR '':''" "host @ CHR ''/'' # u" t] assms(5) path by (simp add: rest_def)
  have "length (snd (strtoul10 t)) < length rest"
    using strtoul10_length [of t] by (simp add: rest_def path(1))
  then have ne: "snd (strtoul10 t) \<noteq> rest" by auto
  have "uri \<noteq> ''*'' \<and> deref uri \<noteq> CHR ''/''"
    using assms(2,3) by (cases proto) (auto simp: abs_uri_protocols_def tolower_def isupper_def ordc_def)
  then show "get_uri_type uri = 0"
    using ne by (cases "strtoul10 t") (simp add: get_uri_type_def f he pb Let_def)
  have "server_url uri check domain d rest"
    using assms(2-5,8) unfolding server_url_def
    by (intro exI [of _ proto] exI [of _ n] exI [of _ d] exI [of _ host] exI [of _ "[]"])
      (simp add: rest_def port_suffix_def)
  then show "get_rel_url_at_current_server uri check domain d = Some (CHR ''/'' # path)"
    using rel_url_spec [OF assms(1,7), of domain d rest] by (simp add: rest_def)
qed

theorem uri_type_colon_in_path_witness:
  "get_uri_type ''http://h/a:b'' = 0 \<and> get_rel_url_at_current_server ''http://h/a:b'' ''no'' [] 80 = Some ''/a:b''"
  by (rule uri_type_colon_in_path [where proto = "''http://''" and host = "''h''" and n = 7])
    (simp_all add: abs_uri_protocols_def tolower_def isupper_def ordc_def)

text \<open>A URI classified as absolute (3 or 4) is accepted by \<open>get_rel_url_at_current_server\<close> on
  some port when the domain check is off, with a path that starts with a slash.\<close>

theorem uri_type_absolute:
  assumes "cstring uri" "get_uri_type uri = 3 \<or> get_uri_type uri = 4" "cstring check" "fold_case check \<noteq> ''yes''"
  shows "\<exists>port path. get_rel_url_at_current_server uri check domain port = Some (CHR ''/'' # path) \<and> is_valid_port port"
proof -
  from assms(2) have nz: "get_uri_type uri \<noteq> 0" "get_uri_type uri \<noteq> 1" "get_uri_type uri \<noteq> 2" by auto
  then obtain pr n d where f: "find_protocol uri = Some (pr, n, d)"
    by (auto simp: get_uri_type_def split: if_splits option.splits)
  then have "is_valid_port d"
    using find_protocol_Some [OF assms(1) f] by (auto simp: abs_uri_protocols_def is_valid_port_def)
  define hb where "hb = drop n uri"
  from nz f obtain he where he: "strchr hb CHR ''/'' = Some he"
    by (auto simp: get_uri_type_def hb_def Let_def split: if_splits option.splits)
  then obtain path where path: "he = CHR ''/'' # path" by (elim strchr_SomeE) (cases he; auto)
  have chk: "mg_strcasecmp check ''yes'' \<noteq> 0" using strcasecmp_yes [OF assms(3)] assms(4) by simp
  show ?thesis
  proof (cases "strchr hb CHR '':''")
    case None
    then have "get_rel_url_at_current_server uri check domain d = Some he"
      using chk by (simp add: rel_url_unfold [OF f hb_def [symmetric] he] None)
    with \<open>is_valid_port d\<close> path show ?thesis by blast
  next
    case (Some pb)
    obtain port pe where st: "strtoul10 (tl pb) = (port, pe)" by (cases "strtoul10 (tl pb)")
    from nz f he Some st have p: "pe = he" "port \<noteq> 0" "is_valid_port port"
      by (auto simp: get_uri_type_def hb_def [symmetric] Let_def split: if_splits)
    then have "get_rel_url_at_current_server uri check domain (if length pb < length he then d else port) = Some he"
      using chk Some st p by (simp add: rel_url_unfold [OF f hb_def [symmetric] he])
    with \<open>is_valid_port d\<close> p(3) path show ?thesis by (metis (full_types))
  qed
qed

theorem uri_type_absolute_witness:
  "\<exists>port path. get_rel_url_at_current_server ''ws://h/c'' ''no'' [] port = Some (CHR ''/'' # path) \<and> is_valid_port port"
  by (rule uri_type_absolute)
    (simp_all add: get_uri_type_def find_protocol_def abs_uri_protocols_def mg_strncasecmp.simps lowercase_def
      tolower_def isupper_def schar_def ordc_def)

end
