(* ===== verification/Connection.thy ===== *)
theory Connection
  imports CString
begin

text \<open>
  The connection: the fields of \<open>struct mg_connection\<close> (and the settings of its domain) that
  the modelled routines read and write, and its channel to the peer.

  The socket is described by what the system calls on it will return. \<open>net_in\<close> lists the
  results of the coming polls and receives: data, or silence that does (\<open>Quiet False\<close>) or does
  not yet (\<open>Quiet True\<close>) exceed the request timeout; when the list is used up the peer has
  closed the connection. \<open>net_accept\<close> lists how many bytes the coming sends accept, \<open>net_out\<close>
  is what has been sent. Every segmentation and every failure of the network is some such
  list, and the theorems hold for all of them.
\<close>

type_synonym mg_header = "string \<times> string"

datatype connection_type = CONNECTION_TYPE_INVALID | CONNECTION_TYPE_REQUEST | CONNECTION_TYPE_RESPONSE

text \<open>\<open>PROTOCOL_TYPE_UNKNOWN\<close> is the value \<open>-1\<close> of \<open>protocol_type\<close>.\<close>

datatype protocol_type = PROTOCOL_TYPE_HTTP1 | PROTOCOL_TYPE_WEBSOCKET | PROTOCOL_TYPE_HTTP2 | PROTOCOL_TYPE_UNKNOWN

datatype recv_event = Data "char list" | Quiet bool

text \<open>What has been parsed of a request or response; for a response to be sent, the buffered
  header fields.\<close>

record parsed_info =
  info_version :: "string option"
  info_headers :: "mg_header list"

record mg_connection =
  conn_type :: connection_type
  proto_type :: protocol_type
  request_state :: int
  request_info :: parsed_info
  response_info :: parsed_info
  num_bytes_sent :: int
  content_len :: int
  consumed_content :: int
  is_chunked :: int
  conn_buf :: "char list"
  data_len :: nat
  request_len :: nat
  must_close :: bool
  conn_status_code :: int
  throttle :: int
  last_throttle_time :: int
  last_throttle_bytes :: int
  stop_flag :: bool
  ENABLE_KEEP_ALIVE :: string
  DECODE_URL :: string
  DECODE_QUERY_STRING :: string
  net_in :: "recv_event list"
  net_out :: "char list"
  net_accept :: "nat list"
  clock :: "int list"

section \<open>Reading from and writing to the socket\<close>

text \<open>One poll and receive: the code's result (\<open>> 0\<close> bytes read, \<open>-1\<close> timeout, \<open>-2\<close> error or
  closed), the bytes, and whether waiting may go on.\<close>

definition pull_inner :: "recv_event list \<Rightarrow> nat \<Rightarrow> int \<times> char list \<times> bool \<times> recv_event list" where
  "pull_inner net len =
     (case net of
        [] \<Rightarrow> (-2, [], False, [])
      | Quiet again # net' \<Rightarrow> (-1, [], again, net')
      | Data bs # net' \<Rightarrow>
          if bs = [] then (-2, [], False, net')
          else if len = 0 then (-2, [], False, net)
          else (int (length (take len bs)), take len bs, False,
                if length bs \<le> len then net' else Data (drop len bs) # net'))"

lemma pull_inner_length:
  assumes "pull_inner net len = (n, bs, again, net')" "n \<noteq> -2" "n \<noteq> 0" "0 < len"
  shows "n = -1 \<and> bs = [] \<and> length net' < length net
    \<or> 0 < length bs \<and> length bs \<le> len \<and> n = int (length bs) \<and> length net' \<le> length net"
  using assms by (auto simp: pull_inner_def split: list.splits recv_event.splits if_splits)

function pull_all :: "bool \<Rightarrow> recv_event list \<Rightarrow> nat \<Rightarrow> char list \<Rightarrow> int \<times> char list \<times> recv_event list" where
  "pull_all stop net len acc =
     (if 0 < len \<and> \<not> stop
      then let (n, bs, again, net') = pull_inner net len
           in if n = -2 then (if acc = [] then -1 else int (length acc), acc, net')
              else if n = -1 then (if again then pull_all stop net' len acc else (int (length acc), acc, net'))
              else if n = 0 then (int (length acc), acc, net')
              else pull_all stop net' (len - length bs) (acc @ bs)
      else (int (length acc), acc, net))"
  by pat_completeness auto

termination
proof (relation "measures [\<lambda>(stop, net, len, acc). len, \<lambda>(stop, net, len, acc). length net]", goal_cases)
  case 1
  show ?case by simp
next
  case (2 stop net len acc x n y bs z again net')
  then have "pull_inner net len = (n, bs, again, net')" by simp
  from pull_inner_length [OF this] 2 show ?case by auto
next
  case (3 stop net len acc x n y bs z again net')
  then have "pull_inner net len = (n, bs, again, net')" by simp
  from pull_inner_length [OF this] 3 have "0 < length bs \<and> length bs \<le> len" by auto
  then have "len - length bs < len" by linarith
  then show ?case by simp
qed

declare pull_all.simps [simp del]

text \<open>Sending: each send takes a part of the data; when none is accepted any more the send
  fails.\<close>

fun push_all :: "bool \<Rightarrow> nat list \<Rightarrow> char list \<Rightarrow> char list \<Rightarrow> int \<times> char list \<times> nat list" where
  "push_all stop [] data sent =
     (if data \<noteq> [] \<and> \<not> stop then (if sent = [] then -1 else int (length sent)) else int (length sent), sent, [])"
| "push_all stop (k # ks) data sent =
     (if data \<noteq> [] \<and> \<not> stop
      then if k = 0 then (if sent = [] then -1 else int (length sent), sent, ks)
           else push_all stop ks (drop k data) (sent @ take k data)
      else (int (length sent), sent, k # ks))"

end
