(* ===== verification/Body.thy ===== *)
theory Body
  imports Connection UrlCodec
begin

text \<open>
  The message body: reading it within the announced length and through the chunked transfer
  encoding (\<open>mg_read\<close>), writing with the bandwidth limit (\<open>mg_write\<close>), sending chunks.
\<close>

section \<open>The code\<close>

subsection \<open>Reading\<close>

definition INT_MAX :: int where
  "INT_MAX = 2147483647"

definition INT64_MAX :: int where
  "INT64_MAX = 9223372036854775807"

text \<open>The result is the return value and the bytes that are stored in the caller's buffer.\<close>

definition mg_read_inner :: "mg_connection \<Rightarrow> nat \<Rightarrow> int \<times> char list \<times> mg_connection" where
  "mg_read_inner conn len =
     (let len64 = min (int len) INT_MAX;
          clen = (if content_len conn < 0 then INT64_MAX else content_len conn)
      in if consumed_content conn < clen
         then let left_to_read = clen - consumed_content conn;
                  len64 = (if left_to_read < len64 then left_to_read else len64);
                  buffered_len = int (data_len conn) - int (request_len conn) - consumed_content conn;
                  buffered_len = (if 0 < buffered_len then min len64 buffered_len else 0);
                  got = take (nat buffered_len) (drop (request_len conn + nat (consumed_content conn)) (conn_buf conn));
                  conn = conn\<lparr>consumed_content := consumed_content conn + buffered_len\<rparr>;
                  (n, bs, net) = pull_all (stop_flag conn) (net_in conn) (nat (len64 - buffered_len)) [];
                  conn = conn\<lparr>net_in := net\<rparr>
              in if 0 \<le> n
                 then (buffered_len + n, got @ bs, conn\<lparr>consumed_content := consumed_content conn + n\<rparr>)
                 else (if 0 < buffered_len then buffered_len else n, got, conn)
         else (0, [], conn))"

text \<open>\<open>strtoul(s, &end, 16)\<close> for a string that begins with a hexadecimal digit and holds no
  \<open>x\<close>: the value, limited to \<open>ULONG_MAX\<close>, and the rest. The conversion to \<open>int64_t\<close> wraps.\<close>

definition hex_value :: "string \<Rightarrow> nat" where
  "hex_value ds = foldl (\<lambda>n d. 16 * n + HEXTOI (tolower d)) 0 ds"

definition strtoul16 :: "string \<Rightarrow> nat \<times> string" where
  "strtoul16 s = (min 18446744073709551615 (hex_value (takeWhile isxdigit s)), dropWhile isxdigit s)"

definition to_int64 :: "nat \<Rightarrow> int" where
  "to_int64 n = (if n < 9223372036854775808 then int n else int n - 18446744073709551616)"

text \<open>The loop that reads the line with the size of the next chunk: \<open>k\<close> counts the bytes left
  in \<open>lenbuf\<close>. \<open>Bad\<close> is the early return, \<open>Unfinished\<close> leaves \<open>end\<close> at \<open>NULL\<close>, \<open>Size\<close> is
  \<open>chunkSize\<close> and \<open>*end\<close>.\<close>

datatype chunk_head = Bad | Unfinished | Size nat char

fun chunk_head_loop :: "nat \<Rightarrow> mg_connection \<Rightarrow> char list \<Rightarrow> chunk_head \<times> mg_connection" where
  "chunk_head_loop 0 conn lenbuf = (Unfinished, conn)"
| "chunk_head_loop (Suc k) conn lenbuf =
     (let i = length lenbuf;
          (r, bs, conn) = mg_read_inner (conn\<lparr>content_len := content_len conn + 1\<rparr>) 1;
          c = (if r \<noteq> 1 then NUL else deref bs)
      in if 0 < i \<and> c = CR \<and> lenbuf ! (i - 1) \<noteq> CR then chunk_head_loop k conn (lenbuf @ [c])
         else if 1 < i \<and> c = LF \<and> lenbuf ! (i - 1) = CR
         then let (chunkSize, end') = strtoul16 (lenbuf @ [c])
              in (Size chunkSize (deref end'), if chunkSize = 0 then conn\<lparr>is_chunked := 3\<rparr> else conn)
         else if \<not> isxdigit c then (Bad, conn\<lparr>is_chunked := 2\<rparr>)
         else chunk_head_loop k conn (lenbuf @ [c]))"

lemma pull_all_length:
  "pull_all stop net len acc = (n, bs, net') \<Longrightarrow>
   n = -1 \<and> acc = [] \<and> bs = [] \<or> n = int (length bs) \<and> length acc \<le> length bs \<and> length bs \<le> length acc + len"
proof (induction stop net len acc arbitrary: n bs net' rule: pull_all.induct)
  case (1 stop net len acc)
  show ?case
  proof (cases "0 < len \<and> \<not> stop")
    case False
    have "pull_all stop net len acc = (int (length acc), acc, net)"
      unfolding pull_all.simps [of stop net len acc] if_not_P [OF False] by (rule refl)
    with "1.prems" show ?thesis by auto
  next
    case True
    obtain m d again net1 where p: "pull_inner net len = (m, d, again, net1)" by (metis prod_cases4)
    note run = "1.prems" [unfolded pull_all.simps [of stop net len acc], unfolded p]
    consider "m = -2" | "m = 0" | "m = -1" | "0 < length d" "length d \<le> len" "m = int (length d)" "m \<noteq> -2" "m \<noteq> -1" "m \<noteq> 0"
      using pull_inner_length [OF p] True by fastforce
    then show ?thesis
    proof cases
      case 3
      then show ?thesis
        using run True "1.IH"(1) [OF True p [symmetric] refl refl refl] by (auto split: if_splits)
    next
      case 4
      then have "pull_all stop net1 (len - length d) (acc @ d) = (n, bs, net')" using run True by simp
      from "1.IH"(2) [OF True p [symmetric] refl refl refl 4(4,5,6) this] 4 show ?thesis by auto
    qed (use run True in \<open>auto split: if_splits\<close>)
  qed
qed

lemma mg_read_inner_facts:
  assumes "mg_read_inner conn len = (r, bs, conn')"
  shows "content_len conn' = content_len conn" "is_chunked conn' = is_chunked conn"
    and "r \<le> int len" "consumed_content conn' = consumed_content conn + max r 0"
proof -
  define len64 where "len64 = min (int len) INT_MAX"
  define clen where "clen = (if content_len conn < 0 then INT64_MAX else content_len conn)"
  define left where "left = clen - consumed_content conn"
  define l where "l = (if left < len64 then left else len64)"
  define b0 where "b0 = int (data_len conn) - int (request_len conn) - consumed_content conn"
  define b where "b = (if 0 < b0 then min l b0 else 0)"
  obtain n ds net where p: "pull_all (stop_flag conn) (net_in conn) (nat (l - b)) [] = (n, ds, net)" by (metis prod_cases3)
  have "content_len conn' = content_len conn \<and> is_chunked conn' = is_chunked conn \<and>
        r \<le> int len \<and> consumed_content conn' = consumed_content conn + max r 0"
  proof (cases "consumed_content conn < clen")
    case False
    with assms show ?thesis
      by (auto simp: mg_read_inner_def clen_def Let_def)
  next
    case True
    then have l: "0 \<le> l" "l \<le> int len" "0 \<le> b" "b \<le> l"
      by (auto simp: l_def left_def len64_def b_def INT_MAX_def)
    have "n = -1 \<or> n \<le> l - b \<and> 0 \<le> n" using pull_all_length [OF p] l by auto
    with assms True l show ?thesis
      unfolding mg_read_inner_def Let_def clen_def [symmetric] left_def [symmetric] len64_def [symmetric]
        l_def [symmetric] b0_def [symmetric] b_def [symmetric]
      by (auto simp: p split: if_splits)
  qed
  then show "content_len conn' = content_len conn" "is_chunked conn' = is_chunked conn"
    "r \<le> int len" "consumed_content conn' = consumed_content conn + max r 0" by simp_all
qed

lemma chunk_head_loop_facts:
  "chunk_head_loop k conn lenbuf = (Size n e, conn') \<Longrightarrow>
   consumed_content conn' - content_len conn' = consumed_content conn - content_len conn
   \<and> (n \<noteq> 0 \<longrightarrow> is_chunked conn' = is_chunked conn)"
proof (induction k arbitrary: conn lenbuf)
  case (Suc k)
  obtain r bs conn1 where r: "mg_read_inner (conn\<lparr>content_len := content_len conn + 1\<rparr>) 1 = (r, bs, conn1)"
    by (metis prod_cases3)
  define c where "c = (if r \<noteq> 1 then NUL else deref bs)"
  have f: "content_len conn1 = content_len conn + 1" "is_chunked conn1 = is_chunked conn"
    "consumed_content conn1 = consumed_content conn + max r 0"
    using mg_read_inner_facts [OF r] by simp_all
  note run = Suc.prems [unfolded chunk_head_loop.simps(2), unfolded r Let_def prod.case c_def [symmetric]]
  show ?case
  proof (cases "r = 1")
    case False
    then have "c = NUL" by (simp add: c_def)
    then show ?thesis using run by (simp add: isxdigit_def isdigit_def ordc_def)
  next
    case True
    show ?thesis
      using run Suc.IH [of conn1 "lenbuf @ [c]"] f True by (auto split: if_splits prod.splits)
  qed
qed simp

lemma to_int64_0: "n \<le> 18446744073709551615 \<Longrightarrow> to_int64 n = 0 \<longleftrightarrow> n = 0"
  by (auto simp: to_int64_def)

lemma chunk_head_loop_size:
  "chunk_head_loop k conn lenbuf = (Size n e, conn') \<Longrightarrow> n \<le> 18446744073709551615"
proof (induction k arbitrary: conn lenbuf)
  case (Suc k)
  obtain r bs conn1 where r: "mg_read_inner (conn\<lparr>content_len := content_len conn + 1\<rparr>) 1 = (r, bs, conn1)"
    by (metis prod_cases3)
  show ?case
    using Suc.prems Suc.IH [of conn1] by (auto simp: r Let_def strtoul16_def simp del: One_nat_def split: if_splits)
qed simp

text \<open>The loop of \<open>mg_read\<close> for a chunked body; \<open>acc\<close> holds the \<open>all_read\<close> bytes so far. An
  error gives the bytes that were stored before it, and the result \<open>-1\<close>.\<close>

function read_chunked :: "mg_connection \<Rightarrow> nat \<Rightarrow> char list \<Rightarrow> int \<times> char list \<times> mg_connection" where
  "read_chunked conn len acc =
     (if len = 0 then (int (length acc), acc, conn)
      else if 3 \<le> is_chunked conn then (0, acc, conn)
      else if is_chunked conn \<noteq> 1 then (-1, acc, conn)
      else if consumed_content conn \<noteq> content_len conn
      then let (read_ret, bs, conn) = mg_read_inner conn len
           in if read_ret < 1 then (-1, acc @ bs, conn\<lparr>is_chunked := 2\<rparr>)
              else if consumed_content conn = content_len conn
              then let (r, x, conn) = mg_read_inner (conn\<lparr>content_len := content_len conn + 2\<rparr>) 2
                   in if r \<noteq> 2 \<or> x \<noteq> [CR, LF] then (-1, acc @ bs, conn\<lparr>is_chunked := 2\<rparr>)
                      else read_chunked conn (len - nat read_ret) (acc @ bs)
              else read_chunked conn (len - nat read_ret) (acc @ bs)
      else let (h, conn) = chunk_head_loop 63 conn []
           in (case h of
                 Bad \<Rightarrow> (-1, acc, conn)
               | Unfinished \<Rightarrow> (-1, acc, conn\<lparr>is_chunked := 2\<rparr>)
               | Size chunkSize e \<Rightarrow>
                   if e \<noteq> CR then (-1, acc, conn\<lparr>is_chunked := 2\<rparr>)
                   else if chunkSize = 0
                   then let (r, x, conn) = mg_read_inner (conn\<lparr>content_len := content_len conn + 2\<rparr>) 2
                        in (int (length acc), acc, if r = 2 \<and> x = [CR, LF] then conn\<lparr>is_chunked := 4\<rparr> else conn)
                   else read_chunked (conn\<lparr>content_len := content_len conn + to_int64 chunkSize\<rparr>) len acc))"
  by pat_completeness auto

termination
proof (relation "measures [\<lambda>(conn, len, acc). len, \<lambda>(conn, len, acc). if consumed_content conn = content_len conn then 1 else 0]",
    goal_cases)
  case 1
  show ?case by simp
next
  case (2 conn len acc a read_ret b bs conn1 a' r b' x conn2)
  then have "mg_read_inner conn len = (read_ret, bs, conn1)" by simp
  from mg_read_inner_facts(3) [OF this] 2 show ?case by (simp add: nat_less_iff)
next
  case (3 conn len acc a read_ret b bs conn1)
  then have "mg_read_inner conn len = (read_ret, bs, conn1)" by simp
  from mg_read_inner_facts(3) [OF this] 3 show ?case by (simp add: nat_less_iff)
next
  case (4 conn len acc a h conn1 n e)
  then have h: "chunk_head_loop 63 conn [] = (Size n e, conn1)" by simp
  have "to_int64 n \<noteq> 0" using to_int64_0 [OF chunk_head_loop_size [OF h]] 4 by simp
  with chunk_head_loop_facts [OF h] 4 show ?case by simp
qed

declare read_chunked.simps [simp del]

definition mg_read :: "mg_connection option \<Rightarrow> nat \<Rightarrow> int \<times> char list \<times> mg_connection option" where
  "mg_read conn len =
     (let len = min len (nat INT_MAX)
      in case conn of None \<Rightarrow> (0, [], None)
         | Some c \<Rightarrow>
             let (r, bs, c) = (if is_chunked c \<noteq> 0 then read_chunked c len [] else mg_read_inner c len)
             in (r, bs, Some c))"

subsection \<open>Writing\<close>

text \<open>\<open>push conn data\<close> is the call of \<open>push_all\<close> on the connection's socket.\<close>

definition push :: "mg_connection \<Rightarrow> char list \<Rightarrow> int \<times> mg_connection" where
  "push conn data =
     (let (n, sent, acc) = push_all (stop_flag conn) (net_accept conn) data []
      in (n, conn\<lparr>net_out := net_out conn @ sent, net_accept := acc\<rparr>))"

text \<open>\<open>time(NULL)\<close>: the next value of the clock.\<close>

definition read_clock :: "mg_connection \<Rightarrow> int \<times> mg_connection" where
  "read_clock conn = (case clock conn of [] \<Rightarrow> (last_throttle_time conn, conn) | t # ts \<Rightarrow> (t, conn\<lparr>clock := ts\<rparr>))"

text \<open>The loop of the throttled writer; \<open>fuel\<close> bounds its rounds, each of which sends at least
  one byte.\<close>

fun throttle_loop :: "nat \<Rightarrow> mg_connection \<Rightarrow> char list \<Rightarrow> int \<Rightarrow> int \<Rightarrow> int \<times> mg_connection" where
  "throttle_loop 0 conn data total' len = (total', conn)"
| "throttle_loop (Suc fuel) conn data total' len =
     (if total' < len \<and> \<not> stop_flag conn
      then let allowed = (if len - total' < throttle conn then len - total' else throttle conn);
               (n, conn) = push conn (take (nat allowed) data)
           in if n \<noteq> allowed then (total', conn)
              else let conn = conn\<lparr>last_throttle_bytes := allowed\<rparr>;
                       (now, conn) = read_clock conn
                   in throttle_loop fuel (conn\<lparr>last_throttle_time := now\<rparr>) (drop (nat n) data) (total' + n) len
      else (total', conn))"

text \<open>The two branches of \<open>mg_write\<close>, with and without a limit.\<close>

definition write_limited :: "mg_connection \<Rightarrow> char list \<Rightarrow> int \<times> mg_connection" where
  "write_limited c data =
     (if 0 < throttle c
      then let len = int (length data);
               (now, c) = read_clock c;
               c = (if now \<noteq> last_throttle_time c then c\<lparr>last_throttle_time := now, last_throttle_bytes := 0\<rparr> else c);
               allowed = throttle c - last_throttle_bytes c;
               allowed = (if len < allowed then len else allowed);
               (total', c) = push c (take (nat allowed) data)
           in if total' = allowed
              then throttle_loop (length data) (c\<lparr>last_throttle_bytes := last_throttle_bytes c + total'\<rparr>)
                (drop (nat total') data) total' len
              else (total', c)
      else push c data)"

definition mg_write :: "mg_connection option \<Rightarrow> char list \<Rightarrow> int \<times> mg_connection option" where
  "mg_write conn data =
     (case conn of None \<Rightarrow> (0, None)
      | Some c \<Rightarrow>
          if INT_MAX < int (length data) then (-1, Some c)
          else let (total', c) = write_limited (c\<lparr>request_state := 10\<rparr>) data
               in (total', Some (if 0 < total' then c\<lparr>num_bytes_sent := num_bytes_sent c + total'\<rparr> else c)))"

text \<open>\<open>printf("%x")\<close>.\<close>

function hexadecimal :: "nat \<Rightarrow> string" where
  "hexadecimal n = (if n < 16 then [hexdigit n] else hexadecimal (n div 16) @ [hexdigit (n mod 16)])"
  by pat_completeness auto
termination
  by (relation "measure (\<lambda>n. n)") auto

declare hexadecimal.simps [simp del]

definition mg_send_chunk :: "mg_connection option \<Rightarrow> char list \<Rightarrow> int \<times> mg_connection option" where
  "mg_send_chunk conn chunk =
     (let lenbuf = hexadecimal (length chunk) @ [CR, LF];
          (ret, conn) = mg_write conn lenbuf
      in if ret \<noteq> int (length lenbuf) then (-1, conn)
         else let t = ret; (ret, conn) = mg_write conn chunk
         in if ret \<noteq> int (length chunk) then (-1, conn)
            else let t = t + ret; (ret, conn) = mg_write conn [CR, LF]
            in if ret \<noteq> 2 then (-1, conn) else (t + ret, conn))"

section \<open>The bytes that are still to be read\<close>

text \<open>A network that delivers: data, and silence within the request timeout.\<close>

definition reliable :: "recv_event list \<Rightarrow> bool" where
  "reliable net \<longleftrightarrow> list_all (\<lambda>e. case e of Data bs \<Rightarrow> bs \<noteq> [] | Quiet again \<Rightarrow> again) net"

definition incoming :: "recv_event list \<Rightarrow> char list" where
  "incoming net = concat (map (\<lambda>e. case e of Data bs \<Rightarrow> bs | Quiet again \<Rightarrow> []) net)"

lemma reliable_simps [simp]:
  "reliable []" "reliable (Data bs # net) \<longleftrightarrow> bs \<noteq> [] \<and> reliable net" "reliable (Quiet a # net) \<longleftrightarrow> a \<and> reliable net"
  by (simp_all add: reliable_def)

lemma incoming_simps [simp]:
  "incoming [] = []" "incoming (Data bs # net) = bs @ incoming net" "incoming (Quiet a # net) = incoming net"
  by (simp_all add: incoming_def)

lemma pull_all_done: "pull_all stop net 0 acc = (int (length acc), acc, net)"
  by (simp add: pull_all.simps [of stop net 0])

lemmas pull_all_Cons = pull_all.simps [of stop "e # net" for stop e net]

lemma pull_all_reliable:
  "reliable net \<Longrightarrow> len \<le> length (incoming net) \<Longrightarrow>
   \<exists>net'. pull_all False net len acc = (int (length acc + len), acc @ take len (incoming net), net')
     \<and> reliable net' \<and> incoming net' = drop len (incoming net)"
proof (induction net arbitrary: len acc)
  case Nil
  then show ?case by (simp add: pull_all_done)
next
  case (Cons e net)
  show ?case
  proof (cases "len = 0")
    case True
    with Cons.prems show ?thesis by (simp add: pull_all_done)
  next
    case False
    show ?thesis
    proof (cases e)
      case (Quiet a)
      then show ?thesis
        using Cons False by (simp add: pull_all_Cons pull_inner_def)
    next
      case (Data bs)
      have bs: "bs \<noteq> []" using Cons.prems Data by simp
      show ?thesis
      proof (cases "length bs \<le> len")
        case True
        have "len - length bs \<le> length (incoming net)" using Cons.prems Data True by simp
        with Cons.IH [of "len - length bs" "acc @ bs"] Cons.prems
        obtain net' where "pull_all False net (len - length bs) (acc @ bs)
            = (int (length (acc @ bs) + (len - length bs)), (acc @ bs) @ take (len - length bs) (incoming net), net')"
          "reliable net'" "incoming net' = drop (len - length bs) (incoming net)" by (auto simp: Data)
        then show ?thesis
          using False True bs by (simp add: Data pull_all_Cons pull_inner_def)
      next
        case more: False
        then have "pull_all False (e # net) len acc
          = (int (length acc + len), acc @ take len bs, Data (drop len bs) # net)"
          using False bs by (simp add: Data pull_all_Cons pull_inner_def pull_all_done)
        then show ?thesis using more Cons.prems by (simp add: Data)
      qed
    qed
  qed
qed

definition body_stream :: "mg_connection \<Rightarrow> char list" where
  "body_stream conn = drop (request_len conn + nat (consumed_content conn)) (take (data_len conn) (conn_buf conn))
     @ incoming (net_in conn)"

definition body_ok :: "mg_connection \<Rightarrow> bool" where
  "body_ok conn \<longleftrightarrow> \<not> stop_flag conn \<and> 0 \<le> consumed_content conn \<and> data_len conn \<le> length (conn_buf conn)
     \<and> reliable (net_in conn)"

lemma mg_read_inner_stream:
  assumes "body_ok conn" "consumed_content conn < content_len conn" "int len \<le> INT_MAX"
    and "n = min len (nat (content_len conn - consumed_content conn))" "n \<le> length (body_stream conn)"
  shows "\<exists>conn'. mg_read_inner conn len = (int n, take n (body_stream conn), conn') \<and> body_ok conn'
    \<and> body_stream conn' = drop n (body_stream conn) \<and> consumed_content conn' = consumed_content conn + int n
    \<and> content_len conn' = content_len conn \<and> is_chunked conn' = is_chunked conn"
proof -
  define k where "k = request_len conn + nat (consumed_content conn)"
  define B where "B = drop k (take (data_len conn) (conn_buf conn))"
  define I where "I = incoming (net_in conn)"
  define b where "b = min n (length B)"
  have ok: "\<not> stop_flag conn" "0 \<le> consumed_content conn" "data_len conn \<le> length (conn_buf conn)" "reliable (net_in conn)"
    using assms(1) by (auto simp: body_ok_def)
  have lB: "length B = data_len conn - k" using ok(3) by (simp add: B_def)
  have S: "body_stream conn = B @ I" by (simp add: body_stream_def B_def I_def k_def)
  have "n - b \<le> length (incoming (net_in conn))" using assms(5) unfolding S by (auto simp: b_def I_def)
  then obtain net' where net: "pull_all False (net_in conn) (n - b) [] = (int (n - b), take (n - b) I, net')"
    "reliable net'" "incoming net' = drop (n - b) I"
    using pull_all_reliable [OF ok(4), of "n - b" "[]"] by (auto simp: I_def)
  have int_n: "(if content_len conn - consumed_content conn < min (int len) INT_MAX
      then content_len conn - consumed_content conn else min (int len) INT_MAX) = int n"
    using assms(2,3,4) by (auto simp: min_def nat_less_iff split: if_splits)
  have int_b: "(if 0 < int (data_len conn) - int (request_len conn) - consumed_content conn
      then min (int n) (int (data_len conn) - int (request_len conn) - consumed_content conn) else 0) = int b"
    using ok(2) lB by (auto simp: b_def k_def)
  have got: "take b (drop k (conn_buf conn)) = take b B"
    using lB by (simp add: B_def b_def drop_take take_take min.absorb1)
  have tk: "take n (B @ I) = take b B @ take (n - b) I" "drop n (B @ I) = drop b B @ drop (n - b) I"
    by (auto simp: b_def min_def)
  define conn' where "conn' = conn\<lparr>consumed_content := consumed_content conn + int n, net_in := net'\<rparr>"
  have nn: "int n = int b + int (n - b)" by (simp add: b_def)
  have "mg_read_inner conn len = (int n, take n (body_stream conn), conn')"
  proof -
    have c1: "(if content_len conn < 0 then INT64_MAX else content_len conn) = content_len conn"
      using assms(2) ok(2) by simp
    have d: "nat (int n - int b) = n - b" by (simp add: b_def)
    show ?thesis
      unfolding mg_read_inner_def Let_def c1 if_P [OF assms(2)] int_n int_b S tk conn'_def d
      using ok(1) net(1) got by (simp add: k_def [symmetric] nn del: of_nat_diff)
  qed
  moreover have "body_stream conn' = drop n (body_stream conn)"
  proof -
    have "drop (request_len conn + nat (consumed_content conn + int n)) (take (data_len conn) (conn_buf conn)) = drop b B"
      using ok(2) lB by (auto simp: B_def b_def nat_add_distrib k_def min_def add.commute add.left_commute)
    then show ?thesis unfolding S tk by (simp add: body_stream_def conn'_def net(3))
  qed
  moreover have "body_ok conn'" using ok net(2) by (simp add: body_ok_def conn'_def)
  ultimately show ?thesis by (simp add: conn'_def)
qed

section \<open>Chunks\<close>

lemma isxdigit_hexdigit: "n < 16 \<Longrightarrow> isxdigit (hexdigit n) \<and> HEXTOI (tolower (hexdigit n)) = n"
  using hexdigit_facts by blast

lemma hex_value_snoc: "hex_value (ds @ [d]) = 16 * hex_value ds + HEXTOI (tolower d)"
  by (simp add: hex_value_def)

lemma hexadecimal_digits:
  "hexadecimal n \<noteq> [] \<and> list_all isxdigit (hexadecimal n) \<and> hex_value (hexadecimal n) = n"
proof (induction n rule: hexadecimal.induct)
  case (1 n)
  have m: "n mod 16 < 16" by simp
  show ?case
  proof (cases "n < 16")
    case True
    then show ?thesis
      using isxdigit_hexdigit [OF True] by (subst (1 2 3) hexadecimal.simps) (simp add: hex_value_def)
  next
    case False
    have v: "hex_value (hexadecimal n) = 16 * (n div 16) + n mod 16"
      using False 1 isxdigit_hexdigit [OF m] by (subst hexadecimal.simps) (simp add: hex_value_snoc)
    show ?thesis
      using False 1 isxdigit_hexdigit [OF m] v by (subst (1 2) hexadecimal.simps) simp
  qed
qed

lemma hexadecimal_length: "n < 16 ^ k \<Longrightarrow> 0 < k \<Longrightarrow> length (hexadecimal n) \<le> k"
proof (induction k arbitrary: n)
  case (Suc k)
  show ?case
  proof (cases "n < 16")
    case True
    then show ?thesis by (subst hexadecimal.simps) simp
  next
    case False
    then have "0 < k" using Suc.prems by (cases k) auto
    moreover have "n div 16 < 16 ^ k" using Suc.prems by (simp add: less_mult_imp_div_less)
    ultimately show ?thesis using Suc.IH False by (subst hexadecimal.simps) simp
  qed
qed simp

definition chunk :: "char list \<Rightarrow> char list" where
  "chunk c = hexadecimal (length c) @ [CR, LF] @ c @ [CR, LF]"

text \<open>A chunked body: its chunks, the last one empty.\<close>

definition chunked :: "char list list \<Rightarrow> char list" where
  "chunked cs = concat (map chunk cs) @ chunk []"

lemma isxdigit_not: "isxdigit d \<Longrightarrow> d \<noteq> CR \<and> d \<noteq> LF \<and> d \<noteq> NUL"
  by (auto simp: isxdigit_def isdigit_def ordc_def)

text \<open>One byte of the size line.\<close>

lemma chunk_head_byte:
  assumes "body_ok conn" "consumed_content conn = content_len conn" "body_stream conn = c # s"
  shows "\<exists>conn'. mg_read_inner (conn\<lparr>content_len := content_len conn + 1\<rparr>) 1 = (1, [c], conn') \<and> body_ok conn'
    \<and> body_stream conn' = s \<and> consumed_content conn' = content_len conn' \<and> is_chunked conn' = is_chunked conn
    \<and> 0 \<le> content_len conn'"
proof -
  define conn0 where "conn0 = conn\<lparr>content_len := content_len conn + 1\<rparr>"
  have s0: "body_stream conn0 = c # s" "body_ok conn0" "content_len conn0 - consumed_content conn0 = 1"
    using assms by (simp_all add: conn0_def body_stream_def body_ok_def)
  have "0 \<le> consumed_content conn0" using s0(2) by (simp add: body_ok_def)
  with mg_read_inner_stream [OF s0(2), of 1 1] s0 show ?thesis
    unfolding conn0_def [symmetric] by (auto simp: conn0_def assms(2) INT_MAX_def)
qed

lemma chunk_head_loop_digits:
  assumes "body_ok conn" "consumed_content conn = content_len conn" "body_stream conn = h @ CR # LF # s"
    and "list_all isxdigit (ds @ h)" "ds @ h \<noteq> []" "hex_value (ds @ h) \<le> 18446744073709551615" "length h + 2 \<le> k"
  shows "\<exists>conn'. chunk_head_loop k conn ds
      = (Size (hex_value (ds @ h)) CR, if hex_value (ds @ h) = 0 then conn'\<lparr>is_chunked := 3\<rparr> else conn')
    \<and> body_ok conn' \<and> body_stream conn' = s \<and> consumed_content conn' = content_len conn'
    \<and> is_chunked conn' = is_chunked conn"
  using assms
proof (induction h arbitrary: conn ds k)
  case Nil
  define k' where "k' = k - 2"
  have k: "k = Suc (Suc k')" using Nil.prems(7) by (simp add: k'_def)
  obtain conn1 where c1: "mg_read_inner (conn\<lparr>content_len := content_len conn + 1\<rparr>) 1 = (1, [CR], conn1)" "body_ok conn1"
    "body_stream conn1 = LF # s" "consumed_content conn1 = content_len conn1" "is_chunked conn1 = is_chunked conn"
    using chunk_head_byte [of conn CR "LF # s"] Nil.prems by auto
  obtain conn2 where c2: "mg_read_inner (conn1\<lparr>content_len := content_len conn1 + 1\<rparr>) 1 = (1, [LF], conn2)" "body_ok conn2"
    "body_stream conn2 = s" "consumed_content conn2 = content_len conn2" "is_chunked conn2 = is_chunked conn"
    using chunk_head_byte [of conn1 LF s] c1 by auto
  have ds: "ds \<noteq> []" "list_all isxdigit ds" using Nil.prems by simp_all
  then have l: "isxdigit (ds ! (length ds - 1))" by (simp add: list_all_length)
  have nx: "\<not> isxdigit CR" "\<not> isxdigit LF" by (auto dest: isxdigit_not)
  have "takeWhile isxdigit (ds @ CR # [LF]) = ds" "dropWhile isxdigit (ds @ CR # [LF]) = [CR, LF]"
    using ds(2) nx by (simp_all add: list_all_iff)
  then have str: "strtoul16 (ds @ [CR, LF]) = (hex_value ds, [CR, LF])"
    using Nil.prems(6) by (simp add: strtoul16_def)
  have step1: "chunk_head_loop k conn ds = chunk_head_loop (Suc k') conn1 (ds @ [CR])"
    unfolding k chunk_head_loop.simps(2) [of "Suc k'"] c1(1) Let_def prod.case
    using ds isxdigit_not [OF l] by simp
  have "(ds @ [CR]) ! length ds = CR" by simp
  then have "chunk_head_loop (Suc k') conn1 (ds @ [CR])
    = (Size (hex_value ds) CR, if hex_value ds = 0 then conn2\<lparr>is_chunked := 3\<rparr> else conn2)"
    unfolding chunk_head_loop.simps(2) [of k'] c2(1) Let_def prod.case using ds str by simp
  with step1 c2 show ?case by auto
next
  case (Cons d h)
  obtain k' where k: "k = Suc k'" using Cons.prems(7) by (cases k) auto
  obtain conn1 where c1: "mg_read_inner (conn\<lparr>content_len := content_len conn + 1\<rparr>) 1 = (1, [d], conn1)" "body_ok conn1"
    "body_stream conn1 = h @ CR # LF # s" "consumed_content conn1 = content_len conn1" "is_chunked conn1 = is_chunked conn"
    using chunk_head_byte [of conn d "h @ CR # LF # s"] Cons.prems by auto
  have "isxdigit d" using Cons.prems(4) by simp
  then have "chunk_head_loop k conn ds = chunk_head_loop k' conn1 (ds @ [d])"
    unfolding k chunk_head_loop.simps(2) c1(1) Let_def prod.case using isxdigit_not [of d] by simp
  moreover have "length h + 2 \<le> k'" using Cons.prems(7) k by simp
  ultimately show ?case
    using Cons.IH [OF c1(2,4,3), of "ds @ [d]" k'] Cons.prems(4,6) c1(5) by simp
qed

section \<open>Reading a chunked body\<close>

definition sendable :: "char list \<Rightarrow> bool" where
  "sendable c \<longleftrightarrow> c \<noteq> [] \<and> length c < 4294967296"

text \<open>In the middle of chunk \<open>c\<close>, with the chunks \<open>cs\<close> to come.\<close>

definition in_chunk :: "mg_connection \<Rightarrow> char list \<Rightarrow> char list list \<Rightarrow> char list \<Rightarrow> bool" where
  "in_chunk conn c cs r \<longleftrightarrow> body_ok conn \<and> is_chunked conn = 1
     \<and> content_len conn - consumed_content conn = int (length c)
     \<and> body_stream conn = c @ (if c = [] then [] else [CR, LF]) @ chunked cs @ r
     \<and> (\<forall>x \<in> set cs. sendable x)"

definition after_body :: "mg_connection \<Rightarrow> char list \<Rightarrow> bool" where
  "after_body conn r \<longleftrightarrow> is_chunked conn = 4 \<and> body_ok conn \<and> body_stream conn = r"

lemma chunk_head_size:
  assumes "body_ok conn" "consumed_content conn = content_len conn" "n < 4294967296"
    and "body_stream conn = hexadecimal n @ CR # LF # s"
  shows "\<exists>conn'. chunk_head_loop 63 conn [] = (Size n CR, if n = 0 then conn'\<lparr>is_chunked := 3\<rparr> else conn')
    \<and> body_ok conn' \<and> body_stream conn' = s \<and> consumed_content conn' = content_len conn'
    \<and> is_chunked conn' = is_chunked conn"
proof -
  have "length (hexadecimal n) \<le> 8" using hexadecimal_length [of n 8] assms(3) by simp
  with chunk_head_loop_digits [OF assms(1,2,4), of "[]" 63] hexadecimal_digits [of n] assms(3) show ?thesis by simp
qed

lemma body_stream_flags [simp]:
  "body_stream (conn\<lparr>is_chunked := x\<rparr>) = body_stream conn" "body_stream (conn\<lparr>content_len := y\<rparr>) = body_stream conn"
  "body_ok (conn\<lparr>is_chunked := x\<rparr>) = body_ok conn" "body_ok (conn\<lparr>content_len := y\<rparr>) = body_ok conn"
  by (simp_all add: body_stream_def body_ok_def)

text \<open>The line break after a chunk, and after the last one.\<close>

lemma read_line_break:
  assumes "body_ok conn" "consumed_content conn = content_len conn" "body_stream conn = CR # LF # s"
  shows "\<exists>conn'. mg_read_inner (conn\<lparr>content_len := content_len conn + 2\<rparr>) 2 = (2, [CR, LF], conn') \<and> body_ok conn'
    \<and> body_stream conn' = s \<and> consumed_content conn' = content_len conn' \<and> is_chunked conn' = is_chunked conn"
proof -
  define conn0 where "conn0 = conn\<lparr>content_len := content_len conn + 2\<rparr>"
  have s0: "body_stream conn0 = CR # LF # s" "body_ok conn0" "content_len conn0 - consumed_content conn0 = 2"
    using assms by (simp_all add: conn0_def) 
  with mg_read_inner_stream [OF s0(2), of 2 2] show ?thesis
    unfolding conn0_def [symmetric] by (auto simp: conn0_def assms(2) INT_MAX_def numeral_2_eq_2)
qed

lemma read_chunked_body:
  assumes "in_chunk conn c cs r" "int len \<le> INT_MAX"
  defines "p \<equiv> c @ concat cs"
  shows "\<exists>conn'. read_chunked conn len acc = (int (length (acc @ take len p)), acc @ take len p, conn')
    \<and> (if len \<le> length p then \<exists>c' cs'. in_chunk conn' c' cs' r \<and> c' @ concat cs' = drop len p else after_body conn' r)"
  using assms(1,2) unfolding p_def
proof (induction "2 * length cs + (if c = [] then 0 else 1)" arbitrary: conn len acc c cs rule: less_induct)
  case less
  have st: "body_ok conn" "is_chunked conn = 1" "content_len conn - consumed_content conn = int (length c)"
    "body_stream conn = c @ (if c = [] then [] else [CR, LF]) @ chunked cs @ r" "\<forall>x \<in> set cs. sendable x"
    using less.prems(1) by (auto simp: in_chunk_def)
  have pos: "0 \<le> consumed_content conn" using st(1) by (simp add: body_ok_def)
  show ?case
  proof (cases "len = 0")
    case True
    with less.prems(1) show ?thesis by (auto simp: read_chunked.simps [of conn 0])
  next
    case len: False
    show ?thesis
    proof (cases "c = []")
      case True
      then have eq: "consumed_content conn = content_len conn" using st(3) by simp
      show ?thesis
      proof (cases cs)
        case Nil
        have "body_stream conn = hexadecimal 0 @ CR # LF # CR # LF # r"
          using st(4) True by (simp add: Nil chunked_def chunk_def)
        from chunk_head_size [OF st(1) eq _ this] obtain conn1 where
          h: "chunk_head_loop 63 conn [] = (Size 0 CR, conn1\<lparr>is_chunked := 3\<rparr>)" "body_ok conn1"
          "body_stream conn1 = CR # LF # r" "consumed_content conn1 = content_len conn1" by auto
        have "body_ok (conn1\<lparr>is_chunked := 3\<rparr>)" "consumed_content (conn1\<lparr>is_chunked := 3\<rparr>) = content_len (conn1\<lparr>is_chunked := 3\<rparr>)"
          "body_stream (conn1\<lparr>is_chunked := 3\<rparr>) = CR # LF # r" using h by simp_all
        from read_line_break [OF this] obtain conn2 where
          b: "mg_read_inner (conn1\<lparr>is_chunked := 3, content_len := content_len (conn1\<lparr>is_chunked := 3\<rparr>) + 2\<rparr>) 2 = (2, [CR, LF], conn2)"
            "body_ok conn2" "body_stream conn2 = r" by auto
        have "read_chunked conn len acc = (int (length acc), acc, conn2\<lparr>is_chunked := 4\<rparr>)"
          using len st(2) eq h(1) b(1) by (subst read_chunked.simps) simp
        then show ?thesis using len True b by (simp add: Nil after_body_def)
      next
        case (Cons x cs')
        have x: "sendable x" "\<forall>y \<in> set cs'. sendable y" using st(5) by (simp_all add: Cons)
        have "body_stream conn = hexadecimal (length x) @ CR # LF # x @ [CR, LF] @ chunked cs' @ r"
          using st(4) True by (simp add: Cons chunked_def chunk_def)
        from chunk_head_size [OF st(1) eq _ this] x(1) obtain conn1 where
          h: "chunk_head_loop 63 conn [] = (Size (length x) CR, conn1)" "body_ok conn1"
          "body_stream conn1 = x @ [CR, LF] @ chunked cs' @ r" "consumed_content conn1 = content_len conn1" "is_chunked conn1 = 1"
          using st(2) by (auto simp: sendable_def)
        define conn2 where "conn2 = conn1\<lparr>content_len := content_len conn1 + to_int64 (length x)\<rparr>"
        have i64: "to_int64 (length x) = int (length x)" using x(1) by (simp add: to_int64_def sendable_def)
        have in2: "in_chunk conn2 x cs' r"
          using h x i64 by (simp add: in_chunk_def conn2_def sendable_def)
        have run: "read_chunked conn len acc = read_chunked conn2 len acc"
          using len st(2) eq h(1) x(1) by (subst read_chunked.simps) (simp add: conn2_def sendable_def)
        have p: "c @ concat cs = x @ concat cs'" by (simp add: True Cons)
        show ?thesis
          unfolding run p by (rule less.hyps [OF _ in2 less.prems(2)]) (use x(1) True in \<open>simp add: Cons sendable_def\<close>)
      qed
    next
      case c: False
      define n where "n = min len (length c)"
      have lt: "consumed_content conn < content_len conn" using st(3) c by (cases c) auto
      have n: "n = min len (nat (content_len conn - consumed_content conn))" "n \<le> length (body_stream conn)" "0 < n"
        using st(3,4) len c by (auto simp: n_def)
      obtain conn1 where r1: "mg_read_inner conn len = (int n, take n (body_stream conn), conn1)" "body_ok conn1"
        "body_stream conn1 = drop n (body_stream conn)" "consumed_content conn1 = consumed_content conn + int n"
        "content_len conn1 = content_len conn" "is_chunked conn1 = is_chunked conn"
        using mg_read_inner_stream [OF st(1) lt less.prems(2) n(1,2)] by blast
      have tk: "take n (body_stream conn) = take n c" using st(4) by (simp add: n_def)
      have ne: "consumed_content conn \<noteq> content_len conn" using lt by simp
      show ?thesis
      proof (cases "n = length c")
        case False
        then have nl: "n = len" "len < length c" by (auto simp: n_def)
        have d: "drop len (body_stream conn) = drop len c @ [CR, LF] @ chunked cs @ r" using st(4) c nl(2) by simp
        have "consumed_content conn1 \<noteq> content_len conn1" using False st(3) r1(4,5) by simp
        then have "read_chunked conn len acc = read_chunked conn1 0 (acc @ take len c)"
          using len st(2) ne r1(1) n(3) tk nl(1) by (subst read_chunked.simps) simp
        then have "read_chunked conn len acc = (int (length (acc @ take len c)), acc @ take len c, conn1)"
          by (simp add: read_chunked.simps [of conn1 0])
        moreover have "in_chunk conn1 (drop len c) cs r"
          using r1 nl d st st(3) by (auto simp: in_chunk_def)
        ultimately show ?thesis using nl(2) by auto
      next
        case True
        have d: "body_stream conn1 = CR # LF # chunked cs @ r" using st(4) c r1(3) True by simp
        have eq: "consumed_content conn1 = content_len conn1" using st(3) r1(4,5) True by simp
        obtain conn2 where b: "mg_read_inner (conn1\<lparr>content_len := content_len conn1 + 2\<rparr>) 2 = (2, [CR, LF], conn2)" "body_ok conn2"
          "body_stream conn2 = chunked cs @ r" "consumed_content conn2 = content_len conn2" "is_chunked conn2 = 1"
          using read_line_break [OF r1(2) eq d] r1(6) st(2) by auto
        have in2: "in_chunk conn2 [] cs r" using b st(5) by (simp add: in_chunk_def)
        have le: "length c \<le> len" using True by (simp add: n_def)
        have run: "read_chunked conn len acc = read_chunked conn2 (len - length c) (acc @ c)"
          using len st(2) ne r1(1) n(3) tk eq b(1) True by (subst read_chunked.simps) simp
        have m: "2 * length cs + (if [] = [] then 0 else 1) < 2 * length cs + (if c = [] then 0 else 1)" using c by simp
        have le': "int (len - length c) \<le> INT_MAX" using less.prems(2) by simp
        obtain conn' where r: "read_chunked conn2 (len - length c) (acc @ c)
            = (int (length ((acc @ c) @ take (len - length c) (concat cs))), (acc @ c) @ take (len - length c) (concat cs), conn')"
            "if len - length c \<le> length (concat cs) then \<exists>c' cs'. in_chunk conn' c' cs' r
                \<and> c' @ concat cs' = drop (len - length c) (concat cs) else after_body conn' r"
          using less.hyps [OF m in2 le', of "acc @ c"] unfolding append_Nil by blast
        have e: "acc @ take len (c @ concat cs) = (acc @ c) @ take (len - length c) (concat cs)"
          "drop len (c @ concat cs) = drop (len - length c) (concat cs)"
          "len \<le> length (c @ concat cs) \<longleftrightarrow> len - length c \<le> length (concat cs)" using le by auto
        show ?thesis unfolding e run using r by blast
      qed
    qed
  qed
qed

definition body_left :: "mg_connection \<Rightarrow> char list \<Rightarrow> char list \<Rightarrow> bool" where
  "body_left conn p r \<longleftrightarrow> (\<exists>c cs. in_chunk conn c cs r \<and> p = c @ concat cs) \<or> after_body conn r \<and> p = []"

lemma mg_read_body:
  assumes "body_left conn p r" "int len \<le> INT_MAX"
  shows "\<exists>conn'. mg_read (Some conn) len = (int (length (take len p)), take len p, Some conn')
    \<and> body_left conn' (drop len p) r"
proof -
  have len: "min len (nat INT_MAX) = len" using assms(2) by (simp add: min_def nat_le_iff INT_MAX_def)
  show ?thesis
  proof (cases "after_body conn r \<and> p = []")
    case True
    then have "read_chunked conn len [] = (0, [], conn)"
      by (subst read_chunked.simps) (simp add: after_body_def)
    with True show ?thesis by (auto simp: mg_read_def Let_def len after_body_def body_left_def)
  next
    case False
    then obtain c cs where c: "in_chunk conn c cs r" "p = c @ concat cs" using assms(1) by (auto simp: body_left_def)
    have ch: "is_chunked conn \<noteq> 0" using c(1) by (simp add: in_chunk_def)
    obtain conn' where r: "read_chunked conn len [] = (int (length (take len p)), take len p, conn')"
      "if len \<le> length p then \<exists>c' cs'. in_chunk conn' c' cs' r \<and> c' @ concat cs' = drop len p else after_body conn' r"
      using read_chunked_body [OF c(1) assms(2), of "[]"] c(2) by auto
    have "body_left conn' (drop len p) r"
      using r(2) unfolding body_left_def by (cases "len \<le> length p") (simp_all, metis)
    with r(1) ch show ?thesis by (auto simp: mg_read_def Let_def len)
  qed
qed

text \<open>A sequence of reads with the given sizes, and the pieces they should return.\<close>

fun mg_reads :: "mg_connection option \<Rightarrow> nat list \<Rightarrow> (int \<times> char list) list" where
  "mg_reads conn [] = []"
| "mg_reads conn (len # lens) = (let (r, bs, conn) = mg_read conn len in (r, bs) # mg_reads conn lens)"

fun cut :: "nat list \<Rightarrow> 'a list \<Rightarrow> 'a list list" where
  "cut [] xs = []"
| "cut (n # ns) xs = take n xs # cut ns (drop n xs)"

lemma mg_reads_body:
  "body_left conn p r \<Longrightarrow> \<forall>len \<in> set lens. int len \<le> INT_MAX \<Longrightarrow>
   mg_reads (Some conn) lens = map (\<lambda>b. (int (length b), b)) (cut lens p)"
proof (induction lens arbitrary: conn p)
  case (Cons len lens)
  then obtain conn' where "mg_read (Some conn) len = (int (length (take len p)), take len p, Some conn')"
    "body_left conn' (drop len p) r" using mg_read_body [of conn p r len] by auto
  with Cons show ?case by simp
qed simp

section \<open>Writing a body\<close>

text \<open>The peer takes at least one byte of each send, and the limit has been respected so far.\<close>

definition accepts :: "nat \<Rightarrow> nat list \<Rightarrow> bool" where
  "accepts n ks \<longleftrightarrow> list_all (\<lambda>k. 0 < k) ks \<and> n \<le> length ks"

lemma push_all_accepts:
  "accepts (length data + m) ks \<Longrightarrow>
   \<exists>ks'. push_all False ks data sent = (int (length (sent @ data)), sent @ data, ks') \<and> accepts m ks'"
proof (induction ks arbitrary: data sent)
  case (Cons k ks)
  show ?case
  proof (cases "data = []")
    case True
    with Cons.prems show ?thesis by simp
  next
    case False
    have k: "0 < k" using Cons.prems by (simp add: accepts_def)
    have "accepts (length (drop k data) + m) ks" using Cons.prems False k by (cases data; cases k) (auto simp: accepts_def)
    from Cons.IH [OF this, of "sent @ take k data"] False k show ?thesis by simp
  qed
qed (simp add: accepts_def)

definition writer_ok :: "nat \<Rightarrow> mg_connection \<Rightarrow> bool" where
  "writer_ok n conn \<longleftrightarrow> \<not> stop_flag conn \<and> accepts n (net_accept conn)
     \<and> (0 < throttle conn \<longrightarrow> 0 \<le> last_throttle_bytes conn \<and> last_throttle_bytes conn \<le> throttle conn)"

lemma push_accepts:
  assumes "\<not> stop_flag conn" "accepts (length data + m) (net_accept conn)"
  shows "\<exists>ks. push conn data = (int (length data), conn\<lparr>net_out := net_out conn @ data, net_accept := ks\<rparr>) \<and> accepts m ks"
proof -
  obtain ks' where "push_all False (net_accept conn) data [] = (int (length ([] @ data)), [] @ data, ks')" "accepts m ks'"
    using push_all_accepts [OF assms(2)] by blast
  then show ?thesis using assms(1) by (intro exI [of _ ks']) (simp add: push_def)
qed


lemma throttle_loop_accepts:
  "writer_ok (length data + m) conn \<Longrightarrow> 0 < throttle conn \<Longrightarrow> length data \<le> fuel \<Longrightarrow> len - total' = int (length data) \<Longrightarrow>
   \<exists>conn'. throttle_loop fuel conn data total' len = (len, conn') \<and> net_out conn' = net_out conn @ data
     \<and> writer_ok m conn'"
proof (induction fuel arbitrary: conn data total')
  case 0
  then show ?case by simp
next
  case (Suc fuel)
  show ?case
  proof (cases "data = []")
    case True
    with Suc.prems show ?thesis by simp
  next
    case False
    define allowed where "allowed = (if len - total' < throttle conn then len - total' else throttle conn)"
    define k where "k = nat allowed"
    have k: "allowed = int k" "0 < k" "k \<le> length data"
      using Suc.prems(2,4) False by (auto simp: allowed_def k_def split: if_splits)
    have lt: "total' < len" using Suc.prems(4) False by (cases data) auto
    have ok: "\<not> stop_flag conn" "accepts (length data + m) (net_accept conn)" using Suc.prems(1) by (auto simp: writer_ok_def)
    have "accepts (length (take k data) + (length (drop k data) + m)) (net_accept conn)" using ok(2) k(3) by simp
    from push_accepts [OF ok(1) this] obtain ks where
      p: "push conn (take k data) = (int k, conn\<lparr>net_out := net_out conn @ take k data, net_accept := ks\<rparr>)"
        "accepts (length (drop k data) + m) ks" using k(3) by (auto simp: min_absorb2)
    define conn1 where "conn1 = conn\<lparr>net_out := net_out conn @ take k data, net_accept := ks, last_throttle_bytes := allowed\<rparr>"
    obtain now conn2 where now: "read_clock conn1 = (now, conn2)" by fastforce
    define conn3 where "conn3 = conn2\<lparr>last_throttle_time := now\<rparr>"
    have c3: "stop_flag conn3 = stop_flag conn" "net_accept conn3 = ks" "throttle conn3 = throttle conn"
      "last_throttle_bytes conn3 = allowed" "net_out conn3 = net_out conn @ take k data"
      using now by (auto simp: conn3_def conn1_def read_clock_def split: list.splits)
    have "allowed \<le> throttle conn" by (simp add: allowed_def)
    then have w3: "writer_ok (length (drop k data) + m) conn3"
      using ok p(2) k(1) c3 by (simp add: writer_ok_def)
    have "throttle_loop (Suc fuel) conn data total' len = throttle_loop fuel conn3 (drop k data) (total' + int k) len"
      using lt ok(1) p(1) now k(1) unfolding throttle_loop.simps(2) [of fuel conn] allowed_def [symmetric] Let_def
      by (simp add: conn1_def conn3_def)
    moreover have "length (drop k data) \<le> fuel" "len - (total' + int k) = int (length (drop k data))"
      using k(2,3) Suc.prems(3,4) by auto
    ultimately show ?thesis using Suc.IH [OF w3 _ _ _] c3 Suc.prems(2) by simp
  qed
qed

lemma write_limited_accepts:
  assumes "writer_ok (length data + m) c0"
  shows "\<exists>c. write_limited c0 data = (int (length data), c) \<and> net_out c = net_out c0 @ data \<and> writer_ok m c"
proof (cases "0 < throttle c0")
  case False
  have "\<not> stop_flag c0" "accepts (length data + m) (net_accept c0)" using assms by (auto simp: writer_ok_def)
  from push_accepts [OF this] obtain ks where
    "push c0 data = (int (length data), c0\<lparr>net_out := net_out c0 @ data, net_accept := ks\<rparr>)" "accepts m ks" by blast
  with False assms show ?thesis by (simp add: writer_ok_def write_limited_def)
next
  case True
  have ok: "\<not> stop_flag c0" "accepts (length data + m) (net_accept c0)" using assms by (auto simp: writer_ok_def)
  obtain now c1 where now: "read_clock c0 = (now, c1)" by fastforce
  define c2 where "c2 = (if now \<noteq> last_throttle_time c1 then c1\<lparr>last_throttle_time := now, last_throttle_bytes := 0\<rparr> else c1)"
  have c2: "stop_flag c2 = stop_flag c0" "net_accept c2 = net_accept c0" "throttle c2 = throttle c0"
    "0 \<le> last_throttle_bytes c2" "last_throttle_bytes c2 \<le> throttle c2" "net_out c2 = net_out c0"
    using now assms True by (auto simp: c2_def read_clock_def writer_ok_def split: list.splits if_splits)
  define allowed where "allowed = (if int (length data) < throttle c2 - last_throttle_bytes c2
      then int (length data) else throttle c2 - last_throttle_bytes c2)"
  define k where "k = nat allowed"
  have k: "allowed = int k" "k \<le> length data" using c2(4,5) by (auto simp: allowed_def k_def)
  have "accepts (length (take k data) + (length (drop k data) + m)) (net_accept c2)" using ok(2) c2(2) k(2) by simp
  from push_accepts [OF _ this] obtain ks where
    p: "push c2 (take k data) = (int k, c2\<lparr>net_out := net_out c2 @ take k data, net_accept := ks\<rparr>)"
      "accepts (length (drop k data) + m) ks" using k(2) c2(1) ok(1) by (auto simp: min_absorb2)
  define c3 where "c3 = c2\<lparr>net_out := net_out c2 @ take k data, net_accept := ks,
      last_throttle_bytes := last_throttle_bytes c2 + int k\<rparr>"
  have w3: "writer_ok (length (drop k data) + m) c3" "0 < throttle c3"
    using c2 p(2) ok(1) k True by (auto simp: writer_ok_def c3_def allowed_def split: if_splits)
  have "length (drop k data) \<le> length data" "int (length data) - int k = int (length (drop k data))" using k(2) by auto
  from throttle_loop_accepts [OF w3 this] obtain c4 where
    c4: "throttle_loop (length data) c3 (drop k data) (int k) (int (length data)) = (int (length data), c4)"
    "net_out c4 = net_out c3 @ drop k data" "writer_ok m c4" by blast
  have "write_limited c0 data = throttle_loop (length data) c3 (drop k data) (int k) (int (length data))"
    unfolding write_limited_def Let_def if_P [OF True] now prod.case c2_def [symmetric] allowed_def [symmetric]
    using p(1) k(1) by (simp add: c3_def)
  then show ?thesis using c4 c2(6) by (simp add: c3_def)
qed

lemma mg_write_accepts:
  assumes "writer_ok (length data + m) conn" "int (length data) \<le> INT_MAX"
  shows "\<exists>conn'. mg_write (Some conn) data = (int (length data), Some conn')
    \<and> net_out conn' = net_out conn @ data \<and> writer_ok m conn'"
proof -
  have "writer_ok (length data + m) (conn\<lparr>request_state := 10\<rparr>)" using assms(1) by (simp add: writer_ok_def)
  from write_limited_accepts [OF this] obtain c where
    "write_limited (conn\<lparr>request_state := 10\<rparr>) data = (int (length data), c)" "net_out c = net_out conn @ data" "writer_ok m c"
    by auto
  then show ?thesis using assms(2) by (simp add: mg_write_def writer_ok_def)
qed

text \<open>C35: \<open>mg_write\<close> sends all of the data, in order and nothing else, whatever the sizes the peer
  takes at a time and however the bandwidth limit cuts it into pieces: when the peer keeps
  reading and the server is not stopped, the result is the number of bytes and exactly these
  bytes have gone out. The limit's accounting stays within the limit.\<close>

theorem mg_write_complete:
  assumes "\<not> stop_flag conn" "list_all (\<lambda>k. 0 < k) (net_accept conn)" "length data \<le> length (net_accept conn)"
    and "0 < throttle conn \<longrightarrow> 0 \<le> last_throttle_bytes conn \<and> last_throttle_bytes conn \<le> throttle conn"
    and "int (length data) \<le> INT_MAX"
  shows "\<exists>conn'. mg_write (Some conn) data = (int (length data), Some conn') \<and> net_out conn' = net_out conn @ data
    \<and> (0 < throttle conn' \<longrightarrow> 0 \<le> last_throttle_bytes conn' \<and> last_throttle_bytes conn' \<le> throttle conn')"
proof -
  have "writer_ok (length data + 0) conn" using assms(1-4) by (simp add: writer_ok_def accepts_def)
  from mg_write_accepts [OF this assms(5)] show ?thesis by (auto simp: writer_ok_def)
qed


definition example_writer :: mg_connection where
  "example_writer = \<lparr>conn_type = CONNECTION_TYPE_REQUEST, proto_type = PROTOCOL_TYPE_HTTP1, request_state = 0,
     request_info = \<lparr>info_version = Some ''1.1'', info_headers = []\<rparr>,
     response_info = \<lparr>info_version = None, info_headers = []\<rparr>,
     num_bytes_sent = 0, content_len = 0, consumed_content = 0, is_chunked = 0, conn_buf = [], data_len = 0,
     request_len = 0, must_close = False, conn_status_code = 0, throttle = 2, last_throttle_time = 0,
     last_throttle_bytes = 1, stop_flag = False, ENABLE_KEEP_ALIVE = ''yes'', DECODE_URL = ''yes'',
     DECODE_QUERY_STRING = ''no'', net_in = [], net_out = [], net_accept = replicate 20 3, clock = [7, 8, 9]\<rparr>"

theorem mg_write_complete_witness:
  "\<exists>conn'. mg_write (Some example_writer) ''hello'' = (int (length ''hello''), Some conn')
    \<and> net_out conn' = net_out example_writer @ ''hello''"
  using mg_write_complete [of example_writer "''hello''"] by (auto simp: example_writer_def INT_MAX_def list_all_iff)

section \<open>Sending chunks\<close>

text \<open>The calls of \<open>mg_send_chunk\<close> for a list of chunks.\<close>

fun send_chunks :: "mg_connection option \<Rightarrow> char list list \<Rightarrow> int list \<times> mg_connection option" where
  "send_chunks conn [] = ([], conn)"
| "send_chunks conn (c # cs) =
     (let (r, conn) = mg_send_chunk conn c; (rs, conn) = send_chunks conn cs in (r # rs, conn))"

lemma mg_send_chunk_accepts:
  assumes "writer_ok (length (chunk c) + m) conn" "int (length c) + 34 \<le> INT_MAX"
  shows "\<exists>conn'. mg_send_chunk (Some conn) c = (int (length (chunk c)), Some conn')
    \<and> net_out conn' = net_out conn @ chunk c \<and> writer_ok m conn'"
proof -
  define l where "l = hexadecimal (length c) @ [CR, LF]"
  have "length (hexadecimal (length c)) \<le> 32"
    using hexadecimal_length [of "length c" 32] assms(2) by (simp add: INT_MAX_def)
  then have il: "int (length l) \<le> INT_MAX" by (simp add: l_def INT_MAX_def)
  have "length (chunk c) + m = length l + (length c + (length [CR, LF] + m))" by (simp add: chunk_def l_def)
  then have w: "writer_ok (length l + (length c + (length [CR, LF] + m))) conn" using assms(1) by metis
  obtain c1 where c1: "mg_write (Some conn) l = (int (length l), Some c1)" "net_out c1 = net_out conn @ l"
    "writer_ok (length c + (length [CR, LF] + m)) c1" using mg_write_accepts [OF w il] by blast
  have ic: "int (length c) \<le> INT_MAX" using assms(2) by simp
  obtain c2 where c2: "mg_write (Some c1) c = (int (length c), Some c2)" "net_out c2 = net_out c1 @ c"
    "writer_ok (length [CR, LF] + m) c2" using mg_write_accepts [OF c1(3) ic] by blast
  obtain c3 where c3: "mg_write (Some c2) [CR, LF] = (2, Some c3)" "net_out c3 = net_out c2 @ [CR, LF]" "writer_ok m c3"
    using mg_write_accepts [OF c2(3)] by (auto simp: INT_MAX_def)
  show ?thesis
    using c1(1,2) c2(1,2) c3 by (simp add: mg_send_chunk_def Let_def l_def [symmetric]) (simp add: chunk_def l_def)
qed

lemma send_chunks_accepts:
  "writer_ok (length (concat (map chunk cs)) + m) conn \<Longrightarrow> \<forall>c \<in> set cs. int (length c) + 34 \<le> INT_MAX \<Longrightarrow>
   \<exists>conn'. send_chunks (Some conn) cs = (map (\<lambda>c. int (length (chunk c))) cs, Some conn')
     \<and> net_out conn' = net_out conn @ concat (map chunk cs) \<and> writer_ok m conn'"
proof (induction cs arbitrary: conn)
  case (Cons c cs)
  have "writer_ok (length (chunk c) + (length (concat (map chunk cs)) + m)) conn" using Cons.prems(1) by (simp add: add.assoc)
  then obtain c1 where "mg_send_chunk (Some conn) c = (int (length (chunk c)), Some c1)" "net_out c1 = net_out conn @ chunk c"
    "writer_ok (length (concat (map chunk cs)) + m) c1" using mg_send_chunk_accepts Cons.prems(2) by fastforce
  with Cons.IH [of c1] Cons.prems(2) show ?case by auto
qed simp

text \<open>C10: the chunked transfer encoding carries a body of any length from \<open>mg_send_chunk\<close> to
  \<open>mg_read\<close>. The calls of \<open>mg_send_chunk\<close> for the chunks and the empty last chunk put exactly
  the encoded body on the wire; and reading it back, with the encoded bytes in any
  segmentation partly in the receive buffer and partly still in the network (with pauses), by
  reads of any sizes, returns the concatenation of the chunks cut at these sizes, each read
  with the number of its bytes, and 0 after the end.\<close>

theorem chunked_transfer:
  assumes "\<forall>c \<in> set cs. c \<noteq> [] \<and> int (length c) + 34 \<le> INT_MAX"
    and "\<not> stop_flag s" "list_all (\<lambda>k. 0 < k) (net_accept s)" "length (chunked cs) \<le> length (net_accept s)"
    and "0 < throttle s \<longrightarrow> 0 \<le> last_throttle_bytes s \<and> last_throttle_bytes s \<le> throttle s"
    and "\<not> stop_flag r" "is_chunked r = 1" "content_len r = 0" "consumed_content r = 0"
    and "data_len r \<le> length (conn_buf r)" "reliable (net_in r)"
    and "drop (request_len r) (take (data_len r) (conn_buf r)) @ incoming (net_in r) = chunked cs @ rest"
    and "\<forall>len \<in> set lens. int len \<le> INT_MAX"
  shows "(\<exists>s'. send_chunks (Some s) (cs @ [[]]) = (map (\<lambda>c. int (length (chunk c))) (cs @ [[]]), Some s')
      \<and> net_out s' = net_out s @ chunked cs)
    \<and> mg_reads (Some r) lens = map (\<lambda>b. (int (length b), b)) (cut lens (concat cs))"
proof
  have "writer_ok (length (concat (map chunk (cs @ [[]]))) + 0) s"
    using assms(2-5) by (simp add: writer_ok_def accepts_def chunked_def)
  from send_chunks_accepts [OF this] assms(1)
  show "\<exists>s'. send_chunks (Some s) (cs @ [[]]) = (map (\<lambda>c. int (length (chunk c))) (cs @ [[]]), Some s')
      \<and> net_out s' = net_out s @ chunked cs"
    by (auto simp: INT_MAX_def chunked_def)
  have "\<forall>x \<in> set cs. sendable x" using assms(1) by (auto simp: sendable_def INT_MAX_def)
  then have "in_chunk r [] cs rest"
    using assms(6-12) by (simp add: in_chunk_def body_ok_def body_stream_def)
  then have "body_left r (concat cs) rest" by (auto simp: body_left_def)
  from mg_reads_body [OF this assms(13)]
  show "mg_reads (Some r) lens = map (\<lambda>b. (int (length b), b)) (cut lens (concat cs))" .
qed

definition example_reader :: mg_connection where
  "example_reader = example_writer\<lparr>is_chunked := 1, conn_buf := ''GET2'', request_len := 3, data_len := 4,
     net_in := [Data [CR, LF, CHR ''a''], Quiet True, Data (CHR ''b'' # [CR, LF] @ ''1'' @ [CR, LF] @ ''c'' @ [CR, LF] @ ''0'' @ [CR, LF, CR, LF])]\<rparr>"

theorem chunked_transfer_witness:
  "(\<exists>s'. send_chunks (Some example_writer) ([''ab'', ''c''] @ [[]])
      = (map (\<lambda>c. int (length (chunk c))) ([''ab'', ''c''] @ [[]]), Some s')
      \<and> net_out s' = net_out example_writer @ chunked [''ab'', ''c''])
    \<and> mg_reads (Some example_reader) [1, 5, 5] = map (\<lambda>b. (int (length b), b)) (cut [1, 5, 5] (concat [''ab'', ''c'']))"
proof (rule chunked_transfer [where rest = "[]"])
  have "chunked [''ab'', ''c''] = ''2'' @ [CR, LF] @ ''ab'' @ [CR, LF] @ ''1'' @ [CR, LF] @ ''c'' @ [CR, LF] @ ''0'' @ [CR, LF, CR, LF]"
    by (simp add: chunked_def chunk_def hexadecimal.simps hexdigit_def)
  then show "length (chunked [''ab'', ''c'']) \<le> length (net_accept example_writer)"
    "drop (request_len example_reader) (take (data_len example_reader) (conn_buf example_reader)) @ incoming (net_in example_reader)
      = chunked [''ab'', ''c''] @ []"
    by (simp_all add: example_writer_def example_reader_def)
qed (simp_all add: example_writer_def example_reader_def INT_MAX_def list_all_iff)

section \<open>Bodies with a length\<close>

text \<open>A body with a known length is never read past its end: \<open>mg_read\<close> keeps the invariant
  that the consumed bytes do not exceed the content length, whatever the network does, and
  the result tells exactly how many bytes were stored, at most as many as the caller's buffer
  takes (or is negative).\<close>

theorem mg_read_within_content:
  assumes "is_chunked conn = 0" "0 \<le> consumed_content conn" "consumed_content conn \<le> content_len conn"
    and "data_len conn \<le> length (conn_buf conn)" "mg_read (Some conn) len = (r, bs, Some conn')"
  shows "consumed_content conn \<le> consumed_content conn' \<and> consumed_content conn' \<le> content_len conn'
    \<and> content_len conn' = content_len conn \<and> r \<le> int len
    \<and> (r < 0 \<longrightarrow> r = -1 \<and> consumed_content conn' = consumed_content conn)
    \<and> (0 \<le> r \<longrightarrow> length bs = nat r \<and> consumed_content conn' = consumed_content conn + r)"
proof -
  define l' where "l' = min len (nat INT_MAX)"
  have run: "mg_read_inner conn l' = (r, bs, conn')"
    using assms(1,5) by (simp add: mg_read_def l'_def Let_def split: prod.splits)
  define len64 where "len64 = min (int l') INT_MAX"
  define left where "left = content_len conn - consumed_content conn"
  define l where "l = (if left < len64 then left else len64)"
  define b0 where "b0 = int (data_len conn) - int (request_len conn) - consumed_content conn"
  define b where "b = (if 0 < b0 then min l b0 else 0)"
  obtain n ds net where p: "pull_all (stop_flag conn) (net_in conn) (nat (l - b)) [] = (n, ds, net)" by (metis prod_cases3)
  have c: "(if content_len conn < 0 then INT64_MAX else content_len conn) = content_len conn" using assms(2,3) by simp
  show ?thesis
  proof (cases "consumed_content conn < content_len conn")
    case False
    with run have "r = 0" "bs = []" "conn' = conn" by (auto simp: mg_read_inner_def c Let_def)
    then show ?thesis using assms(3) by simp
  next
    case True
    have l: "0 \<le> l" "l \<le> int len" "0 \<le> b" "b \<le> l" "l \<le> left"
      using True by (auto simp: l_def left_def len64_def l'_def b_def INT_MAX_def)
    have got: "length (take (nat b) (drop (request_len conn + nat (consumed_content conn)) (conn_buf conn))) = nat b"
      using assms(2,4) l(3) by (auto simp: b_def b0_def min_def)
    have n: "n = -1 \<and> ds = [] \<or> n = int (length ds) \<and> n \<le> l - b" using pull_all_length [OF p] l by auto
    from run True show ?thesis
      unfolding mg_read_inner_def Let_def c if_P [OF True] left_def [symmetric] len64_def [symmetric]
        l_def [symmetric] b0_def [symmetric] b_def [symmetric]
      using n l got assms(2,3) by (auto simp: p left_def nat_add_distrib split: if_splits)
  qed
qed

definition example_sized :: mg_connection where
  "example_sized = example_reader\<lparr>is_chunked := 0, content_len := 2\<rparr>"

theorem mg_read_within_content_witness:
  "\<exists>r bs conn'. mg_read (Some example_sized) 9 = (r, bs, Some conn') \<and> consumed_content conn' \<le> 2 \<and> r \<le> 9"
proof -
  have "\<exists>r bs conn'. mg_read (Some c) len = (r, bs, Some conn')" for c len
    by (simp add: mg_read_def Let_def split_beta)
  then obtain r bs conn' where run: "mg_read (Some example_sized) 9 = (r, bs, Some conn')" by blast
  have "is_chunked example_sized = 0" "0 \<le> consumed_content example_sized"
    "consumed_content example_sized \<le> content_len example_sized" "data_len example_sized \<le> length (conn_buf example_sized)"
    "content_len example_sized = 2"
    by (simp_all add: example_sized_def example_reader_def example_writer_def)
  with mg_read_within_content [OF this(1-4) run] run show ?thesis by auto
qed


section \<open>What writing leaves alone\<close>

text \<open>Everything but the send side and the state that \<open>mg_write\<close> sets.\<close>

definition frame :: "mg_connection \<Rightarrow> mg_connection" where
  "frame c = c\<lparr>request_state := 0, num_bytes_sent := 0, last_throttle_time := 0, last_throttle_bytes := 0,
     net_out := [], net_accept := [], clock := []\<rparr>"

lemma frame_fields:
  assumes "frame c = frame c'"
  shows "conn_type c = conn_type c'" "proto_type c = proto_type c'" "request_info c = request_info c'"
    "response_info c = response_info c'" "must_close c = must_close c'" "conn_status_code c = conn_status_code c'"
    "ENABLE_KEEP_ALIVE c = ENABLE_KEEP_ALIVE c'" "net_in c = net_in c'" "conn_buf c = conn_buf c'"
    "data_len c = data_len c'" "request_len c = request_len c'" "stop_flag c = stop_flag c'"
    "throttle c = throttle c'"
  using arg_cong [OF assms, of conn_type]
    arg_cong [OF assms, of proto_type] arg_cong [OF assms, of request_info] arg_cong [OF assms, of response_info] arg_cong [OF assms, of must_close] arg_cong [OF assms, of conn_status_code] arg_cong [OF assms, of ENABLE_KEEP_ALIVE] arg_cong [OF assms, of net_in] arg_cong [OF assms, of conn_buf] arg_cong [OF assms, of data_len] arg_cong [OF assms, of request_len] arg_cong [OF assms, of stop_flag] arg_cong [OF assms, of throttle]
  by (simp_all add: frame_def)

lemma frame_push: "push conn data = (n, conn') \<Longrightarrow> frame conn' = frame conn"
  by (auto simp: push_def frame_def split: prod.splits)

lemma frame_clock: "read_clock conn = (now, conn') \<Longrightarrow> frame conn' = frame conn"
  by (auto simp: read_clock_def frame_def split: list.splits)

lemma frame_update [simp]:
  "frame (c\<lparr>last_throttle_bytes := x\<rparr>) = frame c" "frame (c\<lparr>last_throttle_time := y\<rparr>) = frame c"
  "frame (c\<lparr>request_state := z\<rparr>) = frame c" "frame (c\<lparr>num_bytes_sent := n\<rparr>) = frame c"
  by (simp_all add: frame_def)

lemma frame_throttle_loop: "throttle_loop fuel conn data t len = (n, conn') \<Longrightarrow> frame conn' = frame conn"
proof (induction fuel arbitrary: conn data t)
  case (Suc fuel)
  define allowed where "allowed = (if len - t < throttle conn then len - t else throttle conn)"
  obtain m c1 where p: "push conn (take (nat allowed) data) = (m, c1)" by fastforce
  obtain now c2 where r: "read_clock (c1\<lparr>last_throttle_bytes := allowed\<rparr>) = (now, c2)" by fastforce
  have f: "frame c1 = frame conn" "frame c2 = frame conn" using frame_push [OF p] frame_clock [OF r] by simp_all
  from Suc.prems show ?case
    unfolding throttle_loop.simps(2) Let_def allowed_def [symmetric] p prod.case r
    using f Suc.IH [of "c2\<lparr>last_throttle_time := now\<rparr>"] by (auto split: if_splits)
qed simp

lemma frame_write_limited: "write_limited c data = (n, c') \<Longrightarrow> frame c' = frame c"
  unfolding write_limited_def Let_def
  by (auto split: if_splits prod.splits dest!: frame_push frame_clock frame_throttle_loop)

lemma frame_mg_write: "frame (the (snd (mg_write (Some c) data))) = frame c"
  by (auto simp: mg_write_def Let_def split: prod.splits dest: frame_write_limited)

text \<open>Writing only ever appends to what has been sent.\<close>

definition extends :: "mg_connection \<Rightarrow> mg_connection \<Rightarrow> bool" where
  "extends c c' \<longleftrightarrow> take (length (net_out c)) (net_out c') = net_out c"

lemma extends_refl [simp]: "extends c c"
  by (simp add: extends_def)

lemma extends_trans [trans]: "extends c c' \<Longrightarrow> extends c' c'' \<Longrightarrow> extends c c''"
  unfolding extends_def by (metis append_eq_conv_conj append.assoc)

lemma extends_append: "net_out c' = net_out c @ s \<Longrightarrow> extends c c'"
  by (simp add: extends_def)

lemma extends_fields:
  "extends (c\<lparr>last_throttle_bytes := x\<rparr>) c' = extends c c'" "extends (c\<lparr>last_throttle_time := x\<rparr>) c' = extends c c'"
  "extends (c\<lparr>request_state := x\<rparr>) c' = extends c c'"
  "extends c (c'\<lparr>last_throttle_bytes := x\<rparr>) = extends c c'" "extends c (c'\<lparr>last_throttle_time := x\<rparr>) = extends c c'"
  "extends c (c'\<lparr>num_bytes_sent := x\<rparr>) = extends c c'"
  by (simp_all add: extends_def)

lemma extends_push: "push c data = (n, c') \<Longrightarrow> extends c c'"
  by (auto simp: push_def extends_def split: prod.splits)

lemma extends_clock: "read_clock c = (now, c') \<Longrightarrow> extends c c'"
  by (auto simp: read_clock_def extends_def split: list.splits)

lemma extends_throttle_loop: "throttle_loop fuel c data t len = (n, c') \<Longrightarrow> extends c c'"
proof (induction fuel arbitrary: c data t)
  case (Suc fuel)
  define allowed where "allowed = (if len - t < throttle c then len - t else throttle c)"
  obtain m c1 where p: "push c (take (nat allowed) data) = (m, c1)" by fastforce
  obtain now c2 where r: "read_clock (c1\<lparr>last_throttle_bytes := allowed\<rparr>) = (now, c2)" by fastforce
  have e: "extends c c1" "extends c1 c2" using extends_push [OF p] extends_clock [OF r] by (simp_all add: extends_fields)
  from Suc.prems show ?case
    unfolding throttle_loop.simps(2) Let_def allowed_def [symmetric] p prod.case r
    using e Suc.IH [of "c2\<lparr>last_throttle_time := now\<rparr>"] extends_trans [of c c1 c2] extends_trans [of c c2 c']
    by (auto simp: extends_fields split: if_splits)
qed simp

lemma extends_write_limited: "write_limited c data = (n, c') \<Longrightarrow> extends c c'"
  unfolding write_limited_def Let_def
  by (auto simp: extends_fields split: if_splits prod.splits
      dest!: extends_push extends_clock extends_throttle_loop intro: extends_trans) (meson extends_trans)+

lemma extends_mg_write: "extends c (the (snd (mg_write (Some c) data)))"
  by (auto simp: mg_write_def Let_def extends_fields split: prod.splits dest: extends_write_limited)

end
