(* ===== verification/Headers.thy ===== *)
theory Headers
  imports Connection
begin

text \<open>
  What the server does with a parsed header: looking up a field by name, splitting a comma
  separated value into its items, deciding whether the connection is kept alive; and the
  pattern matcher of the configuration (\<open>match_prefix\<close>).
\<close>

section \<open>The code\<close>

subsection \<open>Lookup of header fields\<close>

fun get_header :: "mg_header list \<Rightarrow> string \<Rightarrow> string option" where
  "get_header [] name = None"
| "get_header (h # hdr) name = (if mg_strcasecmp name (fst h) = 0 then Some (snd h) else get_header hdr name)"

text \<open>The values that are written to \<open>output\<close>, at most \<open>output_max_size\<close>.\<close>

fun get_req_headers :: "mg_header list \<Rightarrow> string \<Rightarrow> nat \<Rightarrow> string list" where
  "get_req_headers [] name output_max_size = []"
| "get_req_headers (h # hdr) name output_max_size =
     (case output_max_size of 0 \<Rightarrow> []
      | Suc n \<Rightarrow> if mg_strcasecmp name (fst h) = 0 then snd h # get_req_headers hdr name n
                 else get_req_headers hdr name output_max_size)"

subsection \<open>Lists of options\<close>

definition blank :: "char \<Rightarrow> bool" where
  "blank c \<longleftrightarrow> c = CHR '' '' \<or> c = TAB"

text \<open>The loop that adjusts the length for trailing white space, and the split at \<open>=\<close>.\<close>

definition trim_end :: "string \<Rightarrow> string" where
  "trim_end s = rev (dropWhile blank (rev s))"

definition split_eq :: "string \<Rightarrow> string \<times> string option" where
  "split_eq val = (case strchr val CHR ''='' of Some p \<Rightarrow> (take (length val - length p) val, Some (tl p)) | None \<Rightarrow> (val, None))"

text \<open>The value up to the comma, and \<open>list\<close> after it.\<close>

definition split_comma :: "string \<Rightarrow> string \<times> string" where
  "split_comma ptr = (case strchr ptr CHR '','' of
     Some comma \<Rightarrow> (take (length ptr - length comma) ptr, tl comma)
   | None \<Rightarrow> (ptr, []))"

lemma strchr_length: "strchr s c = Some t \<Longrightarrow> length t \<le> length s \<and> t \<noteq> []"
  using strchr_Some [of s c t] by auto

lemma split_comma_shorter: "list \<noteq> [] \<Longrightarrow> length (snd (split_comma (dropWhile blank list))) < length list"
proof (cases "strchr (dropWhile blank list) CHR '',''")
  case None
  assume "list \<noteq> []"
  then show ?thesis unfolding split_comma_def None by simp
next
  case (Some t)
  then have "length t \<le> length (dropWhile blank list)" "t \<noteq> []" using strchr_length by blast+
  then show ?thesis
    unfolding split_comma_def Some using length_dropWhile_le [of blank list] by (cases t) auto
qed

text \<open>
  The result is \<open>val\<close>, \<open>eq_val\<close> and the rest of the list; \<open>eq\<close> is \<open>eq_val \<noteq> NULL\<close>, the
  recursive call is the jump to \<open>reparse\<close>.
\<close>

function next_option :: "bool \<Rightarrow> string \<Rightarrow> (string \<times> string option \<times> string) option" where
  "next_option eq list =
     (if list = [] then None
      else let (raw, list') = split_comma (dropWhile blank list);
               val = trim_end raw
           in if val = [] then next_option eq list'
              else if eq then let (x, y) = split_eq val in Some (x, y, list')
              else Some (val, None, list'))"
  by pat_completeness auto

termination
proof (relation "measure (\<lambda>(eq, list). length list)", goal_cases)
  case (2 eq list p raw list' val)
  then show ?case using split_comma_shorter [of list] by (metis in_measure case_prod_conv snd_conv)
qed simp

declare next_option.simps [simp del]

lemma next_option_shorter: "next_option eq list = Some (x, y, list') \<Longrightarrow> length list' < length list"
proof (induction eq list rule: next_option.induct)
  case (1 eq list)
  obtain raw rest where s: "split_comma (dropWhile blank list) = (raw, rest)" by fastforce
  have l: "list \<noteq> []" using "1.prems" by (subst (asm) next_option.simps) (auto split: if_splits)
  have short: "length rest < length list" using split_comma_shorter [OF l] s by simp
  show ?case
  proof (cases "trim_end raw = []")
    case True
    with "1.prems" l s have "next_option eq rest = Some (x, y, list')"
      by (subst (asm) next_option.simps) (simp add: Let_def)
    with "1.IH" [OF l s [symmetric] refl refl True] short show ?thesis by simp
  next
    case False
    with "1.prems" l s short show ?thesis
      by (subst (asm) next_option.simps) (auto simp: Let_def split: if_splits prod.splits)
  qed
qed

function header_has_option :: "string \<Rightarrow> string \<Rightarrow> bool" where
  "header_has_option header option =
     (case next_option True header of None \<Rightarrow> False
      | Some (opt, eq, header') \<Rightarrow>
          if mg_strncasecmp option opt (length opt) = 0 then True else header_has_option header' option)"
  by pat_completeness auto

termination
  by (relation "measure (\<lambda>(header, option). length header)") (auto dest: next_option_shorter)

declare header_has_option.simps [simp del]

subsection \<open>Keeping the connection\<close>

text \<open>A header is looked up in the message the connection has parsed.\<close>

definition mg_get_header :: "mg_connection option \<Rightarrow> string \<Rightarrow> string option" where
  "mg_get_header conn name = (case conn of None \<Rightarrow> None
     | Some c \<Rightarrow> (case conn_type c of
           CONNECTION_TYPE_REQUEST \<Rightarrow> get_header (info_headers (request_info c)) name
         | CONNECTION_TYPE_RESPONSE \<Rightarrow> get_header (info_headers (response_info c)) name
         | CONNECTION_TYPE_INVALID \<Rightarrow> None))"

definition get_http_version :: "mg_connection option \<Rightarrow> string option" where
  "get_http_version conn = (case conn of None \<Rightarrow> None
     | Some c \<Rightarrow> (case conn_type c of
           CONNECTION_TYPE_REQUEST \<Rightarrow> info_version (request_info c)
         | CONNECTION_TYPE_RESPONSE \<Rightarrow> info_version (response_info c)
         | CONNECTION_TYPE_INVALID \<Rightarrow> None))"

definition should_keep_alive :: "mg_connection option \<Rightarrow> bool" where
  "should_keep_alive conn =
     (case conn of None \<Rightarrow> False
      | Some c \<Rightarrow>
          if must_close c then False
          else if mg_strcasecmp (ENABLE_KEEP_ALIVE c) ''yes'' \<noteq> 0 then False
          else (case mg_get_header conn ''Connection'' of
              Some header \<Rightarrow> header_has_option header ''keep-alive''
            | None \<Rightarrow> get_http_version conn = Some ''1.1''))"

definition should_decode_url :: "mg_connection option \<Rightarrow> bool" where
  "should_decode_url conn = (case conn of None \<Rightarrow> False | Some c \<Rightarrow> mg_strcasecmp (DECODE_URL c) ''yes'' = 0)"

definition should_decode_query_string :: "mg_connection option \<Rightarrow> bool" where
  "should_decode_query_string conn = (case conn of None \<Rightarrow> False | Some c \<Rightarrow> mg_strcasecmp (DECODE_QUERY_STRING c) ''yes'' = 0)"

definition suggest_connection_header :: "mg_connection option \<Rightarrow> string" where
  "suggest_connection_header conn = (if should_keep_alive conn then ''keep-alive'' else ''close'')"

subsection \<open>Patterns\<close>

lemma or_shorter:
  assumes "strchr pattern c = Some or_str"
  shows "length pattern - length or_str < length pattern" "length or_str - Suc 0 < length pattern"
proof -
  have "length or_str \<le> length pattern" "0 < length or_str" using strchr_length [OF assms] by auto
  then show "length pattern - length or_str < length pattern" "length or_str - Suc 0 < length pattern" by linarith+
qed

lemma star_shorter:
  assumes "pattern \<noteq> []"
    and "(p, len) = (if deref (tl pattern) = CHR ''*'' then (tl (tl pattern), m) else (tl pattern, n))"
  shows "length p < length pattern"
proof -
  have "length p \<le> length (tl pattern)" using assms(2) by (auto split: if_splits)
  also have "\<dots> < length pattern" using assms(1) by simp
  finally show ?thesis .
qed

text \<open>
  \<open>pattern\<close> is the list of the \<open>pattern_len\<close> characters (the character behind them, which the
  code looks at after a trailing \<open>*\<close>, is in every call the end of a string, a \<open>|\<close> or a
  separator of \<open>next_option\<close>, never another \<open>*\<close>). \<open>match_prefix_loop\<close> is the \<open>for\<close> loop with
  the pointers \<open>pattern + i\<close> and \<open>str + j\<close>; \<open>match_prefix_star\<close> is the \<open>do\<close> loop, which returns
  \<open>res\<close> and the last \<open>len\<close>.
\<close>

function match_prefix :: "string \<Rightarrow> string \<Rightarrow> int"
  and match_prefix_loop :: "string \<Rightarrow> string \<Rightarrow> int \<Rightarrow> int"
  and match_prefix_star :: "string \<Rightarrow> string \<Rightarrow> nat \<Rightarrow> int \<times> nat"
where
  "match_prefix pattern str =
     (case strchr pattern CHR ''|'' of
        Some or_str \<Rightarrow>
          let res = match_prefix (take (length pattern - length or_str) pattern) str
          in if 0 < res then res else match_prefix (tl or_str) str
      | None \<Rightarrow> match_prefix_loop pattern str 0)"
| "match_prefix_loop pattern str j =
     (if pattern = [] then j
      else if deref pattern = CHR ''?'' \<and> deref str \<noteq> NUL then match_prefix_loop (tl pattern) (tl str) (j + 1)
      else if deref pattern = CHR ''$'' then (if deref str = NUL then j else -1)
      else if deref pattern = CHR ''*'' then
        let (p, len) = (if deref (tl pattern) = CHR ''*'' then (tl (tl pattern), length str)
                        else (tl pattern, strcspn str ''/''))
        in if p = [] then j + int len
           else let (res, len) = match_prefix_star p str len
                in if res = -1 then -1 else j + res + int len
      else if lowercase pattern \<noteq> lowercase str then -1
      else match_prefix_loop (tl pattern) (tl str) (j + 1))"
| "match_prefix_star p str len =
     (let res = match_prefix p (drop len str)
      in if res = -1 \<and> 0 < len then match_prefix_star p str (len - 1) else (res, len))"
  by pat_completeness auto

termination
  by (relation "inv_image (less_than <*lex*> less_than)
      (\<lambda>x. case x of Inl (p, s) \<Rightarrow> (length p, 1) | Inr (Inl (p, s, j)) \<Rightarrow> (length p, 0)
        | Inr (Inr (p, s, len)) \<Rightarrow> (length p, 2 + len))")
    (auto simp: or_shorter dest: star_shorter)

declare match_prefix.simps [simp del] match_prefix_loop.simps [simp del] match_prefix_star.simps [simp del]

definition match_prefix_strlen :: "string option \<Rightarrow> string \<Rightarrow> int" where
  "match_prefix_strlen pattern str = (case pattern of None \<Rightarrow> -1 | Some p \<Rightarrow> match_prefix p str)"

section \<open>What a pattern matches\<close>

text \<open>
  The declarative meaning of a pattern without alternatives: \<open>matches p s k\<close> when \<open>p\<close> can match
  the first \<open>k\<close> characters of \<open>s\<close>. A single star stops at a slash, two stars do not, \<open>$\<close> is the
  end of the string.
\<close>

inductive matches :: "string \<Rightarrow> string \<Rightarrow> nat \<Rightarrow> bool" where
  m_end: "matches [] s 0"
| m_any: "matches p s k \<Longrightarrow> matches (CHR ''?'' # p) (d # s) (Suc k)"
| m_dollar: "matches (CHR ''$'' # p) [] 0"
| m_star: "deref p \<noteq> CHR ''*'' \<Longrightarrow> CHR ''/'' \<notin> set u \<Longrightarrow> matches p s k \<Longrightarrow> matches (CHR ''*'' # p) (u @ s) (length u + k)"
| m_stars: "matches p s k \<Longrightarrow> matches (CHR ''*'' # CHR ''*'' # p) (u @ s) (length u + k)"
| m_char: "c \<notin> {CHR ''?'', CHR ''$'', CHR ''*''} \<Longrightarrow> tolower c = tolower d \<Longrightarrow> matches p s k \<Longrightarrow> matches (c # p) (d # s) (Suc k)"

inductive_simps matches_Nil [simp]: "matches [] s k"
inductive_simps matches_any: "matches (CHR ''?'' # p) s k"
inductive_simps matches_dollar: "matches (CHR ''$'' # p) s k"
inductive_cases matches_starE: "matches (CHR ''*'' # p) s k"
inductive_simps matches_Cons: "matches (c # p) s k"

lemma matches_starD:
  "matches (CHR ''*'' # p) s k \<Longrightarrow>
    deref p \<noteq> CHR ''*'' \<and> (\<exists>u t k'. s = u @ t \<and> k = length u + k' \<and> CHR ''/'' \<notin> set u \<and> matches p t k')
    \<or> (\<exists>q u t k'. p = CHR ''*'' # q \<and> s = u @ t \<and> k = length u + k' \<and> matches q t k')"
  by (erule matches_starE) ((rule disjI1 disjI2, intro conjI exI; assumption) | simp)+

text \<open>The result that the code computes: the length of a match, \<open>-1\<close> when there is none, and
  \<open>0\<close> only when nothing longer can match.\<close>

definition best :: "string \<Rightarrow> string \<Rightarrow> int \<Rightarrow> bool" where
  "best p s r \<longleftrightarrow> r = -1 \<and> (\<forall>k. \<not> matches p s k)
     \<or> 0 \<le> r \<and> matches p s (nat r) \<and> (r = 0 \<longrightarrow> (\<forall>k. matches p s k \<longrightarrow> k = 0))"

lemma matches_star_drop:
  assumes "deref p \<noteq> CHR ''*''"
  shows "matches (CHR ''*'' # p) s k \<longleftrightarrow> (\<exists>l \<le> strcspn s ''/''. \<exists>k'. k = l + k' \<and> matches p (drop l s) k')"
proof
  assume "matches (CHR ''*'' # p) s k"
  from matches_starD [OF this] assms
  have "\<exists>u t k'. s = u @ t \<and> k = length u + k' \<and> CHR ''/'' \<notin> set u \<and> matches p t k'"
    by (metis deref_simps(2))
  then obtain u s' k' where u: "s = u @ s'" "k = length u + k'" "matches p s' k'" "CHR ''/'' \<notin> set u" by blast
  have w: "takeWhile (\<lambda>c. c \<notin> set ''/'') (u @ s') = u @ takeWhile (\<lambda>c. c \<notin> set ''/'') s'"
    using u(4) by (intro takeWhile_append2) auto
  have "length u \<le> strcspn s ''/''"
    unfolding u(1) strcspn_def w by simp
  with u show "\<exists>l \<le> strcspn s ''/''. \<exists>k'. k = l + k' \<and> matches p (drop l s) k'"
    by (intro exI [of _ "length u"]) simp
next
  assume "\<exists>l \<le> strcspn s ''/''. \<exists>k'. k = l + k' \<and> matches p (drop l s) k'"
  then obtain l k' where l: "l \<le> strcspn s ''/''" "k = l + k'" "matches p (drop l s) k'" by blast
  define w where "w = takeWhile (\<lambda>c. c \<notin> set ''/'') s"
  have "take (length w) s = w" unfolding w_def by (rule takeWhile_eq_take [symmetric])
  moreover have "l \<le> length w" using l(1) by (simp add: strcspn_def w_def)
  ultimately have "take l s = take l w" by (metis min_absorb1 take_take)
  moreover have "CHR ''/'' \<notin> set w" unfolding w_def by (auto dest: set_takeWhileD)
  ultimately have "CHR ''/'' \<notin> set (take l s)" by (metis in_set_takeD)
  with m_star [OF assms _ l(3)] have "matches (CHR ''*'' # p) (take l s @ drop l s) (length (take l s) + k')" by blast
  moreover have "l \<le> length s" using l(1) strcspn_le [of s "''/''"] by (rule le_trans)
  then have "length (take l s) = l" by simp
  ultimately show "matches (CHR ''*'' # p) s k" by (simp add: l(2))
qed

lemma matches_stars_drop:
  "matches (CHR ''*'' # CHR ''*'' # p) s k \<longleftrightarrow> (\<exists>l \<le> length s. \<exists>k'. k = l + k' \<and> matches p (drop l s) k')"
proof
  assume "matches (CHR ''*'' # CHR ''*'' # p) s k"
  from matches_starD [OF this]
  have "\<exists>u t k'. s = u @ t \<and> k = length u + k' \<and> matches p t k'"
    by (metis deref_simps(2) list.inject)
  then obtain u s' k' where "s = u @ s'" "k = length u + k'" "matches p s' k'" by blast
  then show "\<exists>l \<le> length s. \<exists>k'. k = l + k' \<and> matches p (drop l s) k'"
    by (intro exI [of _ "length u"]) auto
next
  assume "\<exists>l \<le> length s. \<exists>k'. k = l + k' \<and> matches p (drop l s) k'"
  then obtain l k' where l: "l \<le> length s" "k = l + k'" "matches p (drop l s) k'" by blast
  from m_stars [OF l(3), of "take l s"] l(1,2) show "matches (CHR ''*'' # CHR ''*'' # p) s k" by simp
qed

lemma best_shift:
  assumes "best p' s' r" "\<And>k. matches p s k \<longleftrightarrow> (\<exists>k'. k = Suc k' \<and> matches p' s' k')"
  shows "best p s (if r = -1 then -1 else r + 1)"
  using assms by (auto simp: best_def nat_add_distrib)

lemmas match_prefix_loop_Cons = match_prefix_loop.simps [of "c # p" for c p]

lemma match_prefix_best_aux:
  shows "cstring p \<and> cstring s \<and> CHR ''|'' \<notin> set p \<Longrightarrow> best p s (match_prefix p s)"
    and "cstring p \<and> cstring s \<and> CHR ''|'' \<notin> set p \<and> 0 \<le> j \<Longrightarrow>
      \<exists>r. match_prefix_loop p s j = (if r = -1 then -1 else j + r) \<and> best p s r"
    and "cstring p \<and> cstring s \<and> CHR ''|'' \<notin> set p \<and> len \<le> length s \<Longrightarrow>
      \<exists>r l. match_prefix_star p s len = (r, l) \<and> l \<le> len \<and> best p (drop l s) r
        \<and> (\<forall>l' k. (if r = -1 then 0 else Suc l) \<le> l' \<and> l' \<le> len \<longrightarrow> \<not> matches p (drop l' s) k)"
proof (induction p s and p s j and p s len rule: match_prefix_match_prefix_loop_match_prefix_star.induct)
  case (1 p s)
  then have n: "strchr p CHR ''|'' = None" by simp
  with 1 obtain r where "match_prefix_loop p s 0 = (if r = -1 then -1 else 0 + r)" "best p s r" by blast
  with n show ?case by (subst match_prefix.simps) (auto simp del: strchr_None)
next
  case (2 p s j)
  have cs: "cstring p" "cstring s" "CHR ''|'' \<notin> set p" "0 \<le> j" using "2.prems" by auto
  show ?case
  proof (cases p)
    case Nil
    then show ?thesis by (intro exI [of _ 0]) (simp add: best_def match_prefix_loop.simps [of "[]"])
  next
    case p: (Cons c p')
    have c: "c \<noteq> NUL" "cstring p'" "CHR ''|'' \<notin> set p'" using cs p by auto
    have step: "\<exists>r. match_prefix_loop p s j = (if r = -1 then -1 else j + r) \<and> best p s r"
      if st: "match_prefix_loop p s j = match_prefix_loop p' s' (j + 1)"
        "\<exists>r. match_prefix_loop p' s' (j + 1) = (if r = -1 then -1 else j + 1 + r) \<and> best p' s' r"
        "\<And>k. matches p s k \<longleftrightarrow> (\<exists>k'. k = Suc k' \<and> matches p' s' k')" for s'
    proof -
      obtain r where r: "match_prefix_loop p' s' (j + 1) = (if r = -1 then -1 else j + 1 + r)" "best p' s' r"
        using st(2) by blast
      have "best p s (if r = -1 then -1 else r + 1)" using best_shift [OF r(2) st(3)] .
      moreover have "(if r = -1 then -1 else r + 1) = -1 \<longleftrightarrow> r = -1"
        using r(2) by (auto simp: best_def)
      ultimately show ?thesis
        using r(1) st(1) by (intro exI [of _ "if r = -1 then -1 else r + 1"]) auto
    qed
    consider (any) d s' where "c = CHR ''?''" "s = d # s'" | (dollar) "c = CHR ''$''" | (star) "c = CHR ''*''"
      | (char) "c \<noteq> CHR ''$''" "c \<noteq> CHR ''*''" "c = CHR ''?'' \<longrightarrow> s = []"
      by (cases s) auto
    then show ?thesis
    proof cases
      case any
      have "d \<noteq> NUL" using cs any by simp
      then show ?thesis
        using any p c cs "2.IH"(1) by (intro step [of s']) (simp_all add: match_prefix_loop_Cons matches_any)
    next
      case dollar
      then show ?thesis
        using p cs by (intro exI [of _ "if s = [] then 0 else -1"]; cases s)
          (simp_all add: match_prefix_loop_Cons best_def matches_dollar)
    next
      case star
      obtain q m where q: "(if deref (tl p) = CHR ''*'' then (tl (tl p), length s) else (tl p, strcspn s ''/'')) = (q, m)"
        by fastforce
      have m: "matches p s k \<longleftrightarrow> (\<exists>l \<le> m. \<exists>k'. k = l + k' \<and> matches q (drop l s) k')" for k
      proof (cases "deref p' = CHR ''*''")
        case True
        then have "p = CHR ''*'' # CHR ''*'' # q" using star p q by (cases p') auto
        then show ?thesis using q True p matches_stars_drop [of q s k] by simp
      next
        case False
        then show ?thesis using matches_star_drop [OF False, of s k] star p q by simp
      qed
      have q': "cstring q" "CHR ''|'' \<notin> set q" "m \<le> length s"
        using q c p by (cases p'; auto split: if_splits)+
      have run: "match_prefix_loop p s j = (if q = [] then j + int m
          else let (res, len) = match_prefix_star q s m in if res = -1 then -1 else j + res + int len)"
        using star p q by (subst match_prefix_loop.simps) simp
      show ?thesis
      proof (cases "q = []")
        case True
        then have "best p s (int m)" by (auto simp: best_def m)
        then show ?thesis using run True by (intro exI [of _ "int m"]) simp
      next
        case False
        then obtain res l where star_res: "match_prefix_star q s m = (res, l)" "l \<le> m" "best q (drop l s) res"
          "\<forall>l' k. (if res = -1 then 0 else Suc l) \<le> l' \<and> l' \<le> m \<longrightarrow> \<not> matches q (drop l' s) k"
          using "2.IH"(2) [OF _ _ _ _ q [symmetric] refl] star p q' cs by auto
        show ?thesis
        proof (cases "res = -1")
          case True
          then have "best p s (-1)" using star_res(4) by (auto simp: best_def m)
          then show ?thesis using run False star_res(1) True by (intro exI [of _ "-1"]) simp
        next
          case found: False
          then have r: "0 \<le> res" "matches q (drop l s) (nat res)" using star_res(3) by (auto simp: best_def)
          have "matches p s (nat (int l + res))"
            unfolding m using r star_res(2) by (intro exI [of _ l] conjI exI [of _ "nat res"]) (auto simp: nat_add_distrib)
          moreover have "k = 0" if kk: "int l + res = 0" "matches p s k" for k
          proof -
            have z: "l = 0" "res = 0" using kk(1) r(1) by auto
            obtain l' k' where k: "l' \<le> m" "k = l' + k'" "matches q (drop l' s) k'" using kk(2) unfolding m by blast
            then have "l' = 0" using star_res(4) z found by (cases l') auto
            then show ?thesis using k star_res(3) z by (auto simp: best_def)
          qed
          ultimately have "best p s (int l + res)" using r(1) by (auto simp: best_def)
          then show ?thesis
            using run False star_res(1) found r(1) by (intro exI [of _ "int l + res"]) simp
        qed
      qed
    next
      case char
      show ?thesis
      proof (cases "s \<noteq> [] \<and> tolower c = tolower (deref s)")
        case True
        then obtain d s' where s: "s = d # s'" "tolower c = tolower d" by (cases s) auto
        then show ?thesis
          using char p c cs "2.IH"(3) by (intro step [of s']) (auto simp: match_prefix_loop_Cons matches_Cons)
      next
        case False
        then have "lowercase p \<noteq> lowercase s" using c by (cases s) (auto simp: p)
        moreover have "\<not> matches p s k" for k using False char by (cases s) (auto simp: p matches_Cons)
        ultimately show ?thesis
          using char p by (auto simp: match_prefix_loop_Cons best_def)
      qed
    qed
  qed
next
  case (3 p s len)
  define r where "r = match_prefix p (drop len s)"
  have b: "best p (drop len s) r" using 3 by (auto simp: r_def)
  show ?case
  proof (cases "r = -1 \<and> 0 < len")
    case True
    have "len - 1 \<le> length s" using "3.prems" by linarith
    with "3.IH"(2) [OF r_def True] "3.prems" obtain r' l where l: "match_prefix_star p s (len - 1) = (r', l)" "l \<le> len - 1"
      "best p (drop l s) r'" "\<forall>l' k. (if r' = -1 then 0 else Suc l) \<le> l' \<and> l' \<le> len - 1 \<longrightarrow> \<not> matches p (drop l' s) k"
      by blast
    have "\<not> matches p (drop l' s) k" if "(if r' = -1 then 0 else Suc l) \<le> l'" "l' \<le> len" for l' k
    proof (cases "l' = len")
      case True
      then show ?thesis using b \<open>r = -1 \<and> 0 < len\<close> by (auto simp: best_def)
    next
      case False
      then show ?thesis using l(4) that by auto
    qed
    then show ?thesis
      using l(1-3) True unfolding r_def
      by (subst match_prefix_star.simps) (auto simp: Let_def)
  next
    case False
    then have "match_prefix_star p s len = (r, len)"
      unfolding r_def by (subst match_prefix_star.simps) (auto simp: Let_def)
    moreover have "\<not> matches p (drop l' s) k" if "(if r = -1 then 0 else Suc len) \<le> l'" "l' \<le> len" for l' k
      using that False b by (auto simp: best_def split: if_splits)
    ultimately show ?thesis using b by auto
  qed
qed

lemma match_prefix_best:
  "cstring p \<Longrightarrow> cstring s \<Longrightarrow> CHR ''|'' \<notin> set p \<Longrightarrow> best p s (match_prefix p s)"
  using match_prefix_best_aux(1) by blast

lemma match_prefix_or:
  "match_prefix (u @ CHR ''|'' # p) s = (let res = match_prefix u s in if 0 < res then res else match_prefix p s)"
  if "CHR ''|'' \<notin> set u"
  using that by (subst match_prefix.simps) (simp add: Let_def)

text \<open>All alternatives: the first one with a match that is not empty decides, otherwise the
  last alternative.\<close>

lemma match_prefix_alternatives:
  "cstring p \<Longrightarrow> cstring s \<Longrightarrow>
   0 < match_prefix p s \<and> (\<exists>a \<in> set (split_on CHR ''|'' p). matches a s (nat (match_prefix p s)))
   \<or> match_prefix p s \<le> 0 \<and> (\<forall>a \<in> set (split_on CHR ''|'' p). \<forall>k. matches a s k \<longrightarrow> k = 0)
      \<and> match_prefix p s = (if matches (last (split_on CHR ''|'' p)) s 0 then 0 else -1)"
proof (induction "length p" arbitrary: p rule: less_induct)
  case less
  show ?case
  proof (cases "CHR ''|'' \<in> set p")
    case False
    have "best p s (match_prefix p s)" using match_prefix_best less.prems False by blast
    then show ?thesis by (auto simp: split_on_no_sep [OF False] best_def)
  next
    case True
    then obtain u q where p: "p = u @ CHR ''|'' # q" "CHR ''|'' \<notin> set u" by (meson split_list_first)
    have b: "best u s (match_prefix u s)" using match_prefix_best [of u s] less.prems p by simp
    have split: "split_on CHR ''|'' p = u # split_on CHR ''|'' q" unfolding p(1) by (rule split_on_append_sep [OF p(2)])
    note IH = less.hyps [of q]
    show ?thesis
    proof (cases "0 < match_prefix u s")
      case True
      then show ?thesis
        using b unfolding split by (auto simp: p(1) match_prefix_or [OF p(2)] best_def)
    next
      case False
      then have eq: "match_prefix p s = match_prefix q s" by (simp add: p(1) match_prefix_or [OF p(2)] Let_def)
      have "k = 0" if "matches u s k" for k
        using b False that by (auto simp: best_def)
      then show ?thesis using IH less.prems unfolding split eq by (auto simp: p(1))
    qed
  qed
qed

lemma match_prefix_spec:
  assumes "cstring p" "cstring s"
  shows "(0 < match_prefix p s \<longrightarrow> (\<exists>a \<in> set (split_on CHR ''|'' p). matches a s (nat (match_prefix p s))))
    \<and> (0 \<le> match_prefix p s \<longleftrightarrow> (\<exists>a \<in> set (split_on CHR ''|'' p). \<exists>k > 0. matches a s k)
        \<or> matches (last (split_on CHR ''|'' p)) s 0)
    \<and> -1 \<le> match_prefix p s"
proof (cases "0 < match_prefix p s")
  case True
  then have e: "\<exists>a \<in> set (split_on CHR ''|'' p). matches a s (nat (match_prefix p s))"
    using match_prefix_alternatives [OF assms] by linarith
  moreover have "0 < nat (match_prefix p s)" using True by simp
  ultimately have "\<exists>a \<in> set (split_on CHR ''|'' p). \<exists>k > 0. matches a s k" by blast
  with e show ?thesis using True by simp
next
  case False
  then have "\<forall>a \<in> set (split_on CHR ''|'' p). \<forall>k. matches a s k \<longrightarrow> k = 0"
    "match_prefix p s = (if matches (last (split_on CHR ''|'' p)) s 0 then 0 else -1)"
    using match_prefix_alternatives [OF assms] by simp_all
  then show ?thesis by auto
qed

text \<open>C37: what \<open>match_prefix\<close> finds, against the declarative meaning of patterns: a positive
  result is the length of a prefix that one of the alternatives separated by \<open>|\<close> matches; the
  result is not negative exactly when some alternative matches a prefix that is not empty or
  the last alternative matches the empty prefix; and a failure is always \<open>-1\<close>. So an alternative before the last that matches only the
  empty prefix does not count, although the manual says that the left side or the right side may match.\<close>

theorem match_prefix_correct:
  assumes "cstring p" "cstring s"
  shows "(0 < match_prefix p s \<longrightarrow> (\<exists>a \<in> set (split_on CHR ''|'' p). matches a s (nat (match_prefix p s))))
    \<and> (0 \<le> match_prefix p s \<longleftrightarrow> (\<exists>a \<in> set (split_on CHR ''|'' p). \<exists>k > 0. matches a s k)
        \<or> matches (last (split_on CHR ''|'' p)) s 0)
    \<and> -1 \<le> match_prefix p s"
  using assms by (rule match_prefix_spec)

lemma left_empty_match_overridden: "matches ''$'' [] 0 \<and> match_prefix ''$|x'' [] = -1"
proof -
  have "match_prefix ''$|x'' [] = -1" by code_simp
  then show ?thesis by (simp add: m_dollar)
qed

theorem match_prefix_correct_witness: "0 \<le> match_prefix ''x|/a*'' ''/ab''"
proof -
  have "matches ''*'' (''b'' @ []) (length ''b'' + 0)" by (rule m_star) (simp_all add: m_end)
  then have "matches ''/a*'' ''/ab'' 3"
    using m_char [of "CHR ''a''" "CHR ''a''" "''*''" "''b''" 1] m_char [of "CHR ''/''" "CHR ''/''" "''a*''" "''ab''" 2]
    by (simp add: eval_nat_numeral)
  then have "\<exists>a \<in> set (split_on CHR ''|'' ''x|/a*''). \<exists>k > 0. matches a ''/ab'' k" by (intro bexI [of _ "''/a*''"] exI [of _ 3]) simp_all
  then show ?thesis using match_prefix_correct [of "''x|/a*''" "''/ab''"] by simp
qed

section \<open>Items of a list of options\<close>

text \<open>The items between the commas, without the white space around them; empty ones do not
  count.\<close>

definition trim :: "string \<Rightarrow> string" where
  "trim s = trim_end (dropWhile blank s)"

definition items :: "string \<Rightarrow> string list" where
  "items list = filter (\<lambda>v. v \<noteq> []) (map trim (split_on CHR '','' list))"

lemma blank_comma: "\<not> blank CHR '',''"
  by (simp add: blank_def)

lemma strchr_split: "strchr s c = (case dropWhile (\<lambda>x. x \<noteq> c) s of [] \<Rightarrow> None | d # t \<Rightarrow> Some (c # t))"
  by (induction s) auto

lemma dropWhile_takeWhile_blank:
  "takeWhile (\<lambda>c. c \<noteq> CHR '','') (dropWhile blank s) = dropWhile blank (takeWhile (\<lambda>c. c \<noteq> CHR '','') s)"
  "dropWhile (\<lambda>c. c \<noteq> CHR '','') (dropWhile blank s) = dropWhile (\<lambda>c. c \<noteq> CHR '','') s"
  by (induction s) (auto simp: blank_def)

lemma take_strchr: "strchr s c = Some t \<Longrightarrow> take (length s - length t) s = takeWhile (\<lambda>x. x \<noteq> c) s"
  by (induction s) (auto split: if_splits dest: strchr_length simp: Suc_diff_le)

lemma split_comma_eq:
  "fst (split_comma (dropWhile blank s)) = dropWhile blank (takeWhile (\<lambda>c. c \<noteq> CHR '','') s)"
  "items s = (let v = trim_end (fst (split_comma (dropWhile blank s))); r = items (snd (split_comma (dropWhile blank s)))
              in if v = [] then r else v # r)"
proof -
  let ?t = "dropWhile blank s" and ?u = "takeWhile (\<lambda>c. c \<noteq> CHR '','') s"
  show f: "fst (split_comma ?t) = dropWhile blank ?u"
  proof (cases "strchr ?t CHR '',''")
    case None
    then have w: "takeWhile (\<lambda>c. c \<noteq> CHR '','') ?t = ?t" by (auto simp: takeWhile_eq_all_conv)
    show ?thesis unfolding split_comma_def None option.case fst_conv dropWhile_takeWhile_blank(1) [symmetric]
      by (rule w [symmetric])
  next
    case (Some t)
    show ?thesis
      unfolding split_comma_def Some option.case fst_conv dropWhile_takeWhile_blank(1) [symmetric]
      by (rule take_strchr [OF Some])
  qed
  define r where "r = tl (split_on CHR '','' s)"
  have "split_on CHR '','' s = ?u # r"
    unfolding r_def by (metis hd_split_on list.collapse split_on_not_Nil)
  then have "items s = (if trim ?u = [] then [] else [trim ?u]) @ filter (\<lambda>v. v \<noteq> []) (map trim r)"
    unfolding items_def by simp
  moreover have "items (snd (split_comma ?t)) = filter (\<lambda>v. v \<noteq> []) (map trim r)"
  proof (cases "dropWhile (\<lambda>c. c \<noteq> CHR '','') s")
    case Nil
    show ?thesis
      unfolding split_comma_def strchr_split dropWhile_takeWhile_blank(2) r_def tl_split_on Nil
      by (simp add: items_def trim_def trim_end_def)
  next
    case (Cons c t)
    show ?thesis
      unfolding split_comma_def strchr_split dropWhile_takeWhile_blank(2) r_def tl_split_on Cons
      by (simp add: items_def)
  qed
  ultimately show "items s = (let v = trim_end (fst (split_comma ?t)); r = items (snd (split_comma ?t))
      in if v = [] then r else v # r)"
    unfolding f by (simp add: trim_def Let_def)
qed

lemma next_option_items:
  "case items list of
     [] \<Rightarrow> next_option eq list = None
   | v # vs \<Rightarrow> \<exists>list'. next_option eq list = Some (if eq then fst (split_eq v) else v, if eq then snd (split_eq v) else None, list')
       \<and> items list' = vs"
proof (induction eq list rule: next_option.induct)
  case (1 eq list)
  obtain raw rest where s: "split_comma (dropWhile blank list) = (raw, rest)" by fastforce
  have i: "items list = (if trim_end raw = [] then items rest else trim_end raw # items rest)"
    using split_comma_eq(2) [of list] by (simp add: s Let_def)
  show ?case
  proof (cases "list = []")
    case True
    then show ?thesis by (simp add: items_def trim_def trim_end_def next_option.simps)
  next
    case False
    show ?thesis
    proof (cases "trim_end raw = []")
      case True
      then have "next_option eq list = next_option eq rest"
        using False s by (subst next_option.simps) simp
      with "1.IH" [OF False s [symmetric] refl refl True] i True show ?thesis by (cases "items rest") simp_all
    next
      case ne: False
      then have "next_option eq list = Some (if eq then fst (split_eq (trim_end raw)) else trim_end raw,
          if eq then snd (split_eq (trim_end raw)) else None, rest)"
        using False s by (subst next_option.simps) (simp add: Let_def split_beta)
      with i ne show ?thesis by simp
    qed
  qed
qed

text \<open>Repeated calls of \<open>next_option\<close>, as its callers make them.\<close>

fun options :: "nat \<Rightarrow> string \<Rightarrow> (string \<times> string option) list" where
  "options 0 list = []"
| "options (Suc n) list = (case next_option True list of None \<Rightarrow> [] | Some (x, y, list') \<Rightarrow> (x, y) # options n list')"

lemma options_items: "length list \<le> n \<Longrightarrow> options n list = map split_eq (items list)"
proof (induction n arbitrary: list)
  case 0
  then show ?case by (simp add: items_def trim_def trim_end_def)
next
  case (Suc n)
  show ?case
  proof (cases "items list")
    case Nil
    then show ?thesis using next_option_items [where list = list and eq = True] by simp
  next
    case (Cons v vs)
    then obtain list' where n: "next_option True list = Some (fst (split_eq v), snd (split_eq v), list')" "items list' = vs"
      using next_option_items [where list = list and eq = True] by auto
    with next_option_shorter [OF n(1)] Suc show ?thesis by (simp add: Cons)
  qed
qed

text \<open>\<open>next_option\<close> parses a comma separated list: its repeated calls return the items
  between the commas, trimmed of white space, in their order and without the empty ones, each
  split at its first equals sign; then the end of the list.\<close>

theorem next_option_correct: "options (length list) list = map split_eq (items list)"
  by (rule options_items) simp

lemma set_split_on: "v \<in> set (split_on d s) \<Longrightarrow> set v \<subseteq> set s"
proof (induction s)
  case (Cons c s)
  have "set (hd (split_on d s)) \<subseteq> set s" by (auto simp: hd_split_on dest: set_takeWhileD)
  moreover have "v \<in> set (tl (split_on d s)) \<Longrightarrow> set v \<subseteq> set s"
    using Cons.IH list.set_sel(2) [of "split_on d s" v] by simp
  ultimately show ?case using Cons by (auto split: if_splits)
qed simp

lemma set_trim: "set (trim s) \<subseteq> set s"
  by (auto simp: trim_def trim_end_def dest!: set_dropWhileD)

lemma cstring_items: "v \<in> set (items list) \<Longrightarrow> cstring list \<Longrightarrow> cstring v"
  using set_split_on set_trim unfolding items_def cstring_def by fastforce

lemma cstring_split_eq: "cstring v \<Longrightarrow> cstring (fst (split_eq v))"
  by (auto simp: split_eq_def split: option.split)

lemma header_has_option_items:
  "cstring header \<Longrightarrow> cstring option \<Longrightarrow>
   header_has_option header option \<longleftrightarrow>
     (\<exists>v \<in> set (items header). let k = fst (split_eq v) in fold_case k = fold_case (take (length k) option))"
proof (induction header option rule: header_has_option.induct)
  case (1 header option)
  show ?case
  proof (cases "items header")
    case Nil
    then have "next_option True header = None"
      using next_option_items [where list = header and eq = True] by simp
    then show ?thesis using Nil by (simp add: header_has_option.simps)
  next
    case (Cons v vs)
    define k where "k = fst (split_eq v)"
    obtain header' where n: "next_option True header = Some (k, snd (split_eq v), header')" "items header' = vs"
      using next_option_items [where list = header and eq = True] Cons by (auto simp: k_def)
    have k: "cstring k" using cstring_split_eq cstring_items [of v header] "1.prems" Cons by (simp add: k_def)
    have c': "cstring header'"
      using n(1) "1.prems"(1)
    proof (induction "True" header rule: next_option.induct)
      case (1 list)
      obtain raw rest where s: "split_comma (dropWhile blank list) = (raw, rest)" by fastforce
      have "set rest \<subseteq> set (dropWhile blank list)"
        using s strchr_Some [of "dropWhile blank list" "CHR '',''"]
        by (auto simp: split_comma_def split: option.splits) (metis Un_iff list.set_sel(2) set_append)
      then have r: "cstring rest"
        using "1.prems"(2) set_dropWhileD [of _ blank list] by (auto simp: cstring_def)
      have l: "list \<noteq> []" using "1.prems"(1) by (auto simp: next_option.simps)
      show ?case
      proof (cases "trim_end raw = []")
        case True
        then have "next_option True list = next_option True rest"
          using l s by (subst next_option.simps) simp
        with "1.hyps" [OF l s [symmetric] refl refl True] "1.prems" r show ?thesis by simp
      next
        case False
        then show ?thesis
          using "1.prems"(1) l s r by (subst (asm) next_option.simps) (auto simp: Let_def split_beta)
      qed
    qed
    have cmp: "mg_strncasecmp option k (length k) = 0 \<longleftrightarrow> fold_case k = fold_case (take (length k) option)"
      using mg_strncasecmp_eq [OF "1.prems"(2) k, of "length k"] by auto
    show ?thesis
    proof (cases "mg_strncasecmp option k (length k) = 0")
      case True
      then show ?thesis
        using cmp n(1) by (subst header_has_option.simps) (simp add: Cons k_def [symmetric] Let_def)
    next
      case False
      then have "header_has_option header option = header_has_option header' option"
        using n(1) by (subst header_has_option.simps) simp
      with "1.IH" [OF n(1) refl refl False c' "1.prems"(2)] False cmp show ?thesis
        by (simp add: Cons n(2) k_def [symmetric] Let_def)
    qed
  qed
qed

lemma get_header_find:
  "cstring name \<Longrightarrow> \<forall>h \<in> set hdr. cstring (fst h) \<Longrightarrow>
   get_header hdr name = map_option snd (find (\<lambda>h. fold_case (fst h) = fold_case name) hdr)"
  by (induction hdr) (auto simp: mg_strcasecmp_eq)

lemma get_req_headers_filter:
  "cstring name \<Longrightarrow> \<forall>h \<in> set hdr. cstring (fst h) \<Longrightarrow>
   get_req_headers hdr name n = take n (map snd (filter (\<lambda>h. fold_case (fst h) = fold_case name) hdr))"
  by (induction hdr name n rule: get_req_headers.induct) (auto simp: mg_strcasecmp_eq split: nat.split)

text \<open>C38: keep-alive negotiation, from the parsed header to the decision. A request's connection
  is kept exactly when the server does not have to close it, the option is enabled, and the
  first \<open>Connection\<close> field (of any case) has an item that is, up to case, a prefix of
  \<open>keep-alive\<close>, or, without such a field, the version is 1.1. (That every prefix counts, also
  the empty key of an item like \<open>=x\<close>, comes from the length that \<open>header_has_option\<close> compares.)\<close>

theorem keep_alive_correct:
  assumes "conn_type c = CONNECTION_TYPE_REQUEST" "cstring (ENABLE_KEEP_ALIVE c)"
    and "\<forall>h \<in> set (info_headers (request_info c)). cstring (fst h) \<and> cstring (snd h)"
  shows "should_keep_alive (Some c) \<longleftrightarrow> \<not> must_close c \<and> fold_case (ENABLE_KEEP_ALIVE c) = ''yes''
    \<and> (case find (\<lambda>h. fold_case (fst h) = ''connection'') (info_headers (request_info c)) of
        Some h \<Rightarrow> \<exists>v \<in> set (items (snd h)). let k = fst (split_eq v) in fold_case k = take (length k) ''keep-alive''
      | None \<Rightarrow> info_version (request_info c) = Some ''1.1'')"
proof -
  have lower: "fold_case ''yes'' = ''yes''" "fold_case ''Connection'' = ''connection''" "fold_case ''keep-alive'' = ''keep-alive''"
    by code_simp+
  have yes: "mg_strcasecmp (ENABLE_KEEP_ALIVE c) ''yes'' = 0 \<longleftrightarrow> fold_case (ENABLE_KEEP_ALIVE c) = ''yes''"
    using mg_strcasecmp_eq [OF assms(2), of "''yes''"] lower(1) by simp
  have hdr: "mg_get_header (Some c) ''Connection''
    = map_option snd (find (\<lambda>h. fold_case (fst h) = ''connection'') (info_headers (request_info c)))"
    using get_header_find [of "''Connection''" "info_headers (request_info c)"] assms(1,3)
    unfolding lower by (simp add: mg_get_header_def)
  have opt: "header_has_option h ''keep-alive'' \<longleftrightarrow>
      (\<exists>v \<in> set (items h). let k = fst (split_eq v) in fold_case k = take (length k) ''keep-alive'')" if "cstring h" for h
    using header_has_option_items [OF that, of "''keep-alive''"] unfolding take_map [symmetric] lower(3) by simp
  show ?thesis
  proof (cases "find (\<lambda>h. fold_case (fst h) = ''connection'') (info_headers (request_info c))")
    case None
    then show ?thesis
      unfolding should_keep_alive_def using assms(1) yes by (simp add: hdr get_http_version_def)
  next
    case (Some h)
    then have "cstring (snd h)" using assms(3) by (auto simp: find_Some_iff)
    with Some show ?thesis
      unfolding should_keep_alive_def using yes opt by (simp add: hdr)
  qed
qed

definition example_conn :: mg_connection where
  "example_conn = \<lparr>conn_type = CONNECTION_TYPE_REQUEST, proto_type = PROTOCOL_TYPE_HTTP1, request_state = 0,
     request_info = \<lparr>info_version = Some ''1.0'', info_headers = [(''Host'', ''a''), (''connection'', ''x, Keep-Alive'')]\<rparr>,
     response_info = \<lparr>info_version = None, info_headers = []\<rparr>,
     num_bytes_sent = 0, content_len = 0, consumed_content = 0, is_chunked = 0, conn_buf = [], data_len = 0,
     request_len = 0, must_close = False, conn_status_code = 0, throttle = 0, last_throttle_time = 0,
     last_throttle_bytes = 0, stop_flag = False, ENABLE_KEEP_ALIVE = ''Yes'', DECODE_URL = ''yes'',
     DECODE_QUERY_STRING = ''no'', net_in = [], net_out = [], net_accept = [], clock = []\<rparr>"

theorem keep_alive_correct_witness:
  "should_keep_alive (Some example_conn) \<longleftrightarrow> \<not> must_close example_conn \<and> fold_case (ENABLE_KEEP_ALIVE example_conn) = ''yes''
    \<and> (case find (\<lambda>h. fold_case (fst h) = ''connection'') (info_headers (request_info example_conn)) of
        Some h \<Rightarrow> \<exists>v \<in> set (items (snd h)). let k = fst (split_eq v) in fold_case k = take (length k) ''keep-alive''
      | None \<Rightarrow> info_version (request_info example_conn) = Some ''1.1'')"
  by (rule keep_alive_correct) (simp_all add: example_conn_def)

end
