(* ===== verification/HttpParse.thy ===== *)
theory HttpParse
  imports CString
begin

text \<open>
  The HTTP/1 message parser: the search for the end of the header, the splitting of the
  request and status line into words, the header fields, the table of methods. The parser
  works in place: it writes terminators into the receive buffer, and what it returns are
  pointers into it, here offsets. \<open>None\<close> is an access outside the buffer.
\<close>

section \<open>The code\<close>

text \<open>\<open>buf\<close> is the \<open>buflen\<close> bytes that were read.\<close>

function get_http_header_len_loop :: "char list \<Rightarrow> nat \<Rightarrow> int" where
  "get_http_header_len_loop buf i =
     (if i < length buf
      then let c = buf ! i
           in if ordc c < 128 \<and> c \<noteq> CR \<and> c \<noteq> LF \<and> \<not> isprint c then -1
              else if i + 1 < length buf \<and> buf ! i = LF \<and> buf ! (i + 1) = LF then int (i + 2)
              else if i + 3 < length buf \<and> buf ! i = CR \<and> buf ! (i + 1) = LF \<and> buf ! (i + 2) = CR
                \<and> buf ! (i + 3) = LF then int (i + 4)
              else get_http_header_len_loop buf (i + 1)
      else 0)"
  by pat_completeness auto
termination
  by (relation "measure (\<lambda>(buf, i). length buf - i)") auto

declare get_http_header_len_loop.simps [simp del]

definition get_http_header_len :: "char list \<Rightarrow> int" where
  "get_http_header_len buf = get_http_header_len_loop buf 0"

text \<open>\<open>do **ppw = 0; (*ppw)++; while (isspace(**ppw))\<close>\<close>

function zero_spaces :: "char list \<Rightarrow> nat \<Rightarrow> (char list \<times> nat) option" where
  "zero_spaces mem p =
     (if p < length mem
      then let mem = mem[p := NUL]
           in if p + 1 < length mem
              then if isspace (mem ! (p + 1)) then zero_spaces mem (p + 1) else Some (mem, p + 1)
              else None
      else None)"
  by pat_completeness auto
termination
  by (relation "measure (\<lambda>(mem, p). length mem - p)") auto

declare zero_spaces.simps [simp del]

definition skip_to_end_of_word_and_terminate :: "char list \<Rightarrow> nat \<Rightarrow> bool \<Rightarrow> (char list \<times> nat \<times> int) option" where
  "skip_to_end_of_word_and_terminate mem p eol =
     do {
       p \<leftarrow> scan isgraph mem p;
       c \<leftarrow> rd mem p;
       if (if eol then c \<noteq> CR \<and> c \<noteq> LF else c \<noteq> CHR '' '') then Some (mem, p, -1)
       else do {
         (mem, p) \<leftarrow> zero_spaces mem p;
         c \<leftarrow> rd mem p;
         if \<not> eol \<and> \<not> isgraph c then Some (mem, p, -1) else Some (mem, p, 1)
       }
     }"

definition MG_MAX_HEADERS :: nat where
  "MG_MAX_HEADERS = 64"

text \<open>\<open>while (*dp == ' ') *dp++ = 0\<close>\<close>

function zero_blanks :: "char list \<Rightarrow> nat \<Rightarrow> (char list \<times> nat) option" where
  "zero_blanks mem dp =
     (if dp < length mem
      then if mem ! dp = CHR '' '' then zero_blanks (mem[dp := NUL]) (dp + 1) else Some (mem, dp)
      else None)"
  by pat_completeness auto
termination
  by (relation "measure (\<lambda>(mem, dp). length mem - dp)") auto

declare zero_blanks.simps [simp del]

text \<open>
  The header loop; \<open>k\<close> counts the entries that are left in the table, \<open>hdr\<close> are the name
  and value pointers so far. The result is the buffer, \<open>*buf\<close>, the headers and the
  return value.
\<close>

type_synonym header = "nat \<times> nat"

fun parse_http_headers_loop :: "nat \<Rightarrow> char list \<Rightarrow> nat \<Rightarrow> header list \<Rightarrow> (char list \<times> nat \<times> header list \<times> int) option" where
  "parse_http_headers_loop 0 mem buf hdr = Some (mem, buf, hdr, int (length hdr))"
| "parse_http_headers_loop (Suc k) mem buf hdr =
     do {
       dp \<leftarrow> scan (\<lambda>c. c \<noteq> CHR '':'' \<and> 33 \<le> schar c \<and> schar c \<le> 126) mem buf;
       if dp = buf then Some (mem, buf, hdr, int (length hdr))
       else do {
         (mem, dp) \<leftarrow> zero_blanks mem dp;
         c \<leftarrow> rd mem dp;
         if c \<noteq> CHR '':'' then Some (mem, buf, hdr, -1)
         else do {
           mem \<leftarrow> wr mem dp NUL;
           dp \<leftarrow> scan (\<lambda>c. c = CHR '' '' \<or> c = TAB) mem (dp + 1);
           let value = dp;
           dp \<leftarrow> scan (\<lambda>c. c \<noteq> NUL \<and> c \<noteq> CR \<and> c \<noteq> LF) mem dp;
           c \<leftarrow> rd mem dp;
           (mem, dp, ok) \<leftarrow> (if c = CR
             then do {
               mem \<leftarrow> wr mem dp NUL;
               d \<leftarrow> rd mem (dp + 1);
               Some (mem, dp + 1, d = LF)
             }
             else Some (mem, dp, True));
           if \<not> ok then Some (mem, buf, hdr, -1)
           else do {
             let hdr = hdr @ [(buf, value)];
             c \<leftarrow> rd mem dp;
             if c \<noteq> NUL
             then do {
               mem \<leftarrow> wr mem dp NUL;
               d \<leftarrow> rd mem (dp + 1);
               if d = CR \<or> d = LF then Some (mem, dp + 1, hdr, int (length hdr))
               else parse_http_headers_loop k mem (dp + 1) hdr
             }
             else Some (mem, dp, hdr, int (length hdr))
           }
         }
       }
     }"

definition parse_http_headers :: "char list \<Rightarrow> nat \<Rightarrow> (char list \<times> nat \<times> header list \<times> int) option" where
  "parse_http_headers mem buf = parse_http_headers_loop MG_MAX_HEADERS mem buf []"

record mg_http_method_info =
  name :: string
  request_has_body :: bool
  response_has_body :: bool
  is_safe :: bool
  is_idempotent :: bool
  is_cacheable :: bool

definition http_methods :: "mg_http_method_info list" where
  "http_methods = map (\<lambda>(n, a, b, c, d, e). \<lparr>name = n, request_has_body = (a = (1::nat)), response_has_body = (b = (1::nat)),
       is_safe = (c = (1::nat)), is_idempotent = (d = (1::nat)), is_cacheable = (e = (1::nat))\<rparr>)
     [(''GET'', 0, 1, 1, 1, 1), (''POST'', 1, 1, 0, 0, 0), (''PUT'', 1, 0, 0, 1, 0),
      (''DELETE'', 0, 0, 0, 1, 0), (''HEAD'', 0, 0, 1, 1, 1), (''OPTIONS'', 0, 0, 1, 1, 0),
      (''CONNECT'', 1, 1, 0, 0, 0), (''PATCH'', 1, 0, 0, 0, 0), (''PROPFIND'', 0, 1, 1, 1, 0),
      (''MKCOL'', 0, 0, 0, 1, 0), (''LOCK'', 1, 1, 0, 0, 0), (''UNLOCK'', 1, 0, 0, 0, 0),
      (''PROPPATCH'', 1, 1, 0, 0, 0), (''REPORT'', 1, 1, 1, 1, 1)]"

definition get_http_method_info :: "string \<Rightarrow> mg_http_method_info option" where
  "get_http_method_info method = find (\<lambda>m. name m = method) http_methods"

definition is_valid_http_method :: "string \<Rightarrow> bool" where
  "is_valid_http_method method \<longleftrightarrow> get_http_method_info method \<noteq> None"

record mg_request_info =
  remote_user :: "nat option"
  request_method :: "nat option"
  request_uri :: "nat option"
  http_version :: "nat option"
  num_headers :: int
  http_headers :: "header list"

text \<open>\<open>while (len > 0 && isspace(*buf)) buf++, len--, init_skip++\<close>; \<open>init_skip\<close> is how
  far \<open>buf\<close> has moved.\<close>

fun skip_init :: "char list \<Rightarrow> nat \<Rightarrow> nat \<Rightarrow> (nat \<times> nat) option" where
  "skip_init mem buf 0 = Some (buf, 0)"
| "skip_init mem buf (Suc len) =
     do {
       c \<leftarrow> rd mem buf;
       if isspace c then skip_init mem (buf + 1) len else Some (buf, Suc len)
     }"

text \<open>The part of \<open>parse_http_request\<close> from the first character of the method on, with the
  header terminated; the return value is \<open>ok\<close> unless it is \<open>-1\<close>.\<close>

definition parse_request_header :: "char list \<Rightarrow> nat \<Rightarrow> int \<Rightarrow> mg_request_info \<Rightarrow> (char list \<times> mg_request_info \<times> int) option" where
  "parse_request_header mem buf ok ri =
     do {
       c \<leftarrow> rd mem buf;
       if c = NUL \<or> c = CR \<or> c = LF then Some (mem, ri, -1)
       else do {
         let ri = ri\<lparr>request_method := Some buf\<rparr>;
         let meth = buf;
         (mem, buf, r) \<leftarrow> skip_to_end_of_word_and_terminate mem buf False;
         if r \<le> 0 then Some (mem, ri, -1)
         else do {
           let ri = ri\<lparr>request_uri := Some buf\<rparr>;
           (mem, buf, r) \<leftarrow> skip_to_end_of_word_and_terminate mem buf False;
           if r \<le> 0 then Some (mem, ri, -1)
           else do {
             let ri = ri\<lparr>http_version := Some buf\<rparr>;
             let version = buf;
             (mem, buf, r) \<leftarrow> skip_to_end_of_word_and_terminate mem buf True;
             if r \<le> 0 then Some (mem, ri, -1)
             else if take 5 (str_at mem version) \<noteq> ''HTTP/'' then Some (mem, ri, -1)
             else let ri = ri\<lparr>http_version := Some (version + 5)\<rparr>
             in if \<not> is_valid_http_method (str_at mem meth) then Some (mem, ri, -1)
             else do {
               (mem, buf, hdr, n) \<leftarrow> parse_http_headers mem buf;
               let ri = ri\<lparr>num_headers := n, http_headers := hdr\<rparr>;
               if n < 0 then Some (mem, ri, -1) else Some (mem, ri, ok)
             }
           }
         }
       }
     }"

definition parse_http_request :: "char list \<Rightarrow> nat \<Rightarrow> mg_request_info \<Rightarrow> (char list \<times> mg_request_info \<times> int) option" where
  "parse_http_request mem len ri =
     (let ri = ri\<lparr>remote_user := None, request_method := None, request_uri := None, http_version := None,
            num_headers := 0\<rparr>
      in do {
        (buf, len) \<leftarrow> skip_init mem 0 len;
        let init_skip = buf;
        if len = 0 then Some (mem, ri, 0)
        else do {
          c \<leftarrow> rd mem buf;
          if iscntrl c then Some (mem, ri, -1)
          else let request_length = get_http_header_len (slice mem buf len)
          in if request_length \<le> 0 then Some (mem, ri, request_length)
          else do {
            mem \<leftarrow> wr mem (buf + nat request_length - 1) NUL;
            parse_request_header mem buf (request_length + int init_skip) ri
          }
        }
      })"

section \<open>Memory safety\<close>

text \<open>
  The terminator that is written at \<open>E\<close>, the last byte of the header, stops every scan. The
  bytes behind it, the body, are \<open>T\<close>.
\<close>

definition guarded :: "nat \<Rightarrow> char list \<Rightarrow> nat \<Rightarrow> char list \<Rightarrow> nat \<Rightarrow> bool" where
  "guarded E T L mem p \<longleftrightarrow> p \<le> E \<and> E < length mem \<and> mem ! E = NUL \<and> drop (Suc E) mem = T \<and> length mem = L"

lemma guarded_rd: "guarded E T L mem p \<Longrightarrow> rd mem p = Some (mem ! p)"
  by (simp add: guarded_def rd_lt)

lemma guarded_next: "guarded E T L mem p \<Longrightarrow> mem ! p \<noteq> NUL \<Longrightarrow> guarded E T L mem (p + 1)"
  by (cases "p = E") (auto simp: guarded_def)

lemma guarded_write: "guarded E T L mem p \<Longrightarrow> wr mem p NUL = Some (mem[p := NUL]) \<and> guarded E T L (mem[p := NUL]) p"
  by (auto simp: guarded_def wr_lt nth_list_update)

lemma guarded_write_next:
  "guarded E T L mem p \<Longrightarrow> mem ! p \<noteq> NUL \<Longrightarrow> guarded E T L (mem[p := NUL]) (p + 1)"
  by (cases "p = E") (auto simp: guarded_def nth_list_update)

lemma guarded_scan:
  assumes "guarded E T L mem p" "\<not> P NUL"
  shows "\<exists>k. scan P mem p = Some k \<and> guarded E T L mem k \<and> \<not> P (mem ! k) \<and> p \<le> k"
  using scan_stops [of p E mem P] assms unfolding guarded_def by auto

lemma guarded_zero_spaces:
  "guarded E T L mem p \<Longrightarrow> mem ! p \<noteq> NUL \<Longrightarrow> \<exists>mem' p'. zero_spaces mem p = Some (mem', p') \<and> guarded E T L mem' p'"
proof (induction mem p rule: zero_spaces.induct)
  case (1 mem p)
  have g: "guarded E T L (mem[p := NUL]) (p + 1)" by (rule guarded_write_next [OF "1.prems"])
  then have l: "p + 1 < length mem" by (auto simp: guarded_def)
  then have nx: "mem[p := NUL] ! (p + 1) = mem ! (p + 1)" by simp
  show ?case
  proof (cases "isspace (mem ! (p + 1))")
    case True
    then have "mem ! (p + 1) \<noteq> NUL" by (auto simp: isspace_def ordc_def)
    with "1.IH" [OF _ refl _ _ g] True l nx obtain mem' p' where
      "zero_spaces (mem[p := NUL]) (p + 1) = Some (mem', p')" "guarded E T L mem' p'" by auto
    then show ?thesis using True l nx by (subst zero_spaces.simps) (simp add: Let_def)
  next
    case False
    then show ?thesis using l nx g by (subst zero_spaces.simps) (simp add: Let_def)
  qed
qed

lemma guarded_zero_blanks:
  "guarded E T L mem p \<Longrightarrow> \<exists>mem' p'. zero_blanks mem p = Some (mem', p') \<and> guarded E T L mem' p'"
proof (induction mem p rule: zero_blanks.induct)
  case (1 mem p)
  have l: "p < length mem" using "1.prems" by (auto simp: guarded_def)
  show ?case
  proof (cases "mem ! p = CHR '' ''")
    case True
    then have "guarded E T L (mem[p := NUL]) (p + 1)" using guarded_write_next [OF "1.prems"] by simp
    with "1.IH" [OF l True] True l show ?thesis by (subst zero_blanks.simps) simp
  next
    case False
    with "1.prems" l show ?thesis by (subst zero_blanks.simps) simp
  qed
qed

lemma isgraph_NUL [simp]: "\<not> isgraph NUL" "\<not> isspace NUL" "\<not> isprint NUL" "iscntrl NUL"
  by (simp_all add: ctype_defs ordc_def)

lemma guarded_skip:
  assumes "guarded E T L mem p"
  shows "\<exists>mem' p' r. skip_to_end_of_word_and_terminate mem p eol = Some (mem', p', r) \<and> guarded E T L mem' p'"
proof -
  obtain k where k: "scan isgraph mem p = Some k" "guarded E T L mem k"
    using guarded_scan [OF assms, of isgraph] by auto
  show ?thesis
  proof (cases "if eol then mem ! k \<noteq> CR \<and> mem ! k \<noteq> LF else mem ! k \<noteq> CHR '' ''")
    case True
    with k show ?thesis
      by (auto simp: skip_to_end_of_word_and_terminate_def guarded_rd simp del: rd_Some)
  next
    case False
    then have "mem ! k \<noteq> NUL" by (auto split: if_splits)
    with k(2) obtain mem' p' where z: "zero_spaces mem k = Some (mem', p')" "guarded E T L mem' p'"
      using guarded_zero_spaces by blast
    with k False show ?thesis
      by (auto simp: skip_to_end_of_word_and_terminate_def guarded_rd simp del: rd_Some split: if_splits)
  qed
qed

lemma schar_NUL [simp]: "schar NUL = 0"
  by (simp add: schar_def ordc_def)

lemma guarded_headers:
  "guarded E T L mem buf \<Longrightarrow>
   \<exists>mem' buf' hdr' n. parse_http_headers_loop k mem buf hdr = Some (mem', buf', hdr', n) \<and> guarded E T L mem' buf'"
proof (induction k arbitrary: mem buf hdr)
  case 0
  then show ?case by simp
next
  case (Suc k)
  obtain dp where dp: "scan (\<lambda>c. c \<noteq> CHR '':'' \<and> 33 \<le> schar c \<and> schar c \<le> 126) mem buf = Some dp" "guarded E T L mem dp"
    using guarded_scan [OF Suc.prems, of "\<lambda>c. c \<noteq> CHR '':'' \<and> 33 \<le> schar c \<and> schar c \<le> 126"] by auto
  show ?case
  proof (cases "dp = buf")
    case True
    with dp show ?thesis by simp
  next
    case False
    obtain mem1 dp1 where b: "zero_blanks mem dp = Some (mem1, dp1)" "guarded E T L mem1 dp1"
      using guarded_zero_blanks [OF dp(2)] by blast
    have buf1: "guarded E T L mem1 buf" using b(2) Suc.prems by (auto simp: guarded_def)
    show ?thesis
    proof (cases "mem1 ! dp1 = CHR '':''")
      case False
      with dp b buf1 \<open>dp \<noteq> buf\<close> show ?thesis by (auto simp: guarded_rd simp del: rd_Some)
    next
      case colon: True
      define mem2 where "mem2 = mem1[dp1 := NUL]"
      have m2: "wr mem1 dp1 NUL = Some mem2" "guarded E T L mem2 (dp1 + 1)"
        using guarded_write [OF b(2)] guarded_write_next [OF b(2)] colon by (simp_all add: mem2_def)
      obtain v where v: "scan (\<lambda>c. c = CHR '' '' \<or> c = TAB) mem2 (dp1 + 1) = Some v" "guarded E T L mem2 v"
        using guarded_scan [OF m2(2), of "\<lambda>c. c = CHR '' '' \<or> c = TAB"] by auto
      obtain e where e: "scan (\<lambda>c. c \<noteq> NUL \<and> c \<noteq> CR \<and> c \<noteq> LF) mem2 v = Some e" "guarded E T L mem2 e"
        "mem2 ! e = NUL \<or> mem2 ! e = CR \<or> mem2 ! e = LF"
        using guarded_scan [OF v(2), of "\<lambda>c. c \<noteq> NUL \<and> c \<noteq> CR \<and> c \<noteq> LF"] by auto
      note head = dp(1) b m2 v(1) e(1) \<open>dp \<noteq> buf\<close> colon
      have buf2: "guarded E T L mem2 buf" using e(2) Suc.prems by (auto simp: guarded_def)
      define mem3 where "mem3 = (if mem2 ! e = CR then mem2[e := NUL] else mem2)"
      define e3 where "e3 = (if mem2 ! e = CR then e + 1 else e)"
      have m3: "guarded E T L mem3 e3"
        using guarded_write_next [OF e(2)] e(2) by (auto simp: mem3_def e3_def)
      have cr: "(if mem2 ! e = CR then Option.bind (wr mem2 e NUL) (\<lambda>mem. Option.bind (rd mem (e + 1)) (\<lambda>d. Some (mem, e + 1, d = LF)))
          else Some (mem2, e, True)) = Some (mem3, e3, mem2 ! e = CR \<longrightarrow> mem3 ! e3 = LF)"
        using guarded_write [OF e(2)] guarded_rd [OF m3] by (auto simp: mem3_def e3_def simp del: rd_Some wr_Some split: if_splits)
      show ?thesis
      proof (cases "mem2 ! e = CR \<longrightarrow> mem3 ! e3 = LF")
        case False
        have "guarded E T L mem3 buf" using m3 Suc.prems by (auto simp: guarded_def)
        with False head cr e(2) show ?thesis
          by (auto simp: guarded_rd simp del: rd_Some wr_Some)
      next
        case ok: True
        show ?thesis
        proof (cases "mem3 ! e3 = NUL")
          case True
          with head cr ok m3 e(2) show ?thesis
            by (auto simp: guarded_rd simp del: rd_Some wr_Some)
        next
          case False
          define mem4 where "mem4 = mem3[e3 := NUL]"
          have m4: "wr mem3 e3 NUL = Some mem4" "guarded E T L mem4 (e3 + 1)"
            using guarded_write [OF m3] guarded_write_next [OF m3 False] by (simp_all add: mem4_def)
          with Suc.IH [OF m4(2)] head cr ok m3 e(2) False show ?thesis
            by (auto simp: guarded_rd Let_def simp del: rd_Some wr_Some)
        qed
      qed
    qed
  qed
qed

lemma get_http_header_len_bounds:
  "get_http_header_len_loop buf i = r \<Longrightarrow> r = -1 \<or> r = 0 \<or> int i + 2 \<le> r \<and> r \<le> int (length buf)"
proof (induction buf i rule: get_http_header_len_loop.induct)
  case (1 buf i)
  define c where "c = buf ! i"
  show ?case
  proof (cases "i < length buf \<and> \<not> (ordc c < 128 \<and> c \<noteq> CR \<and> c \<noteq> LF \<and> \<not> isprint c)
      \<and> \<not> (i + 1 < length buf \<and> buf ! i = LF \<and> buf ! (i + 1) = LF)
      \<and> \<not> (i + 3 < length buf \<and> buf ! i = CR \<and> buf ! (i + 1) = LF \<and> buf ! (i + 2) = CR \<and> buf ! (i + 3) = LF)")
    case True
    then have "get_http_header_len_loop buf i = get_http_header_len_loop buf (i + 1)"
      unfolding c_def by (subst get_http_header_len_loop.simps) (auto simp: Let_def)
    with "1.IH" [OF _ c_def] True "1.prems" show ?thesis by auto
  next
    case False
    with "1.prems" show ?thesis
      unfolding c_def by (subst (asm) get_http_header_len_loop.simps) (auto simp: Let_def split: if_splits)
  qed
qed

text \<open>What a header is: it ends with an empty line, the first that there is.\<close>

definition ends_header :: "string \<Rightarrow> bool" where
  "ends_header h \<longleftrightarrow> (\<exists>d. h = d @ [LF, LF] \<or> h = d @ [CR, LF, CR, LF])"

definition header_length :: "string \<Rightarrow> nat \<Rightarrow> bool" where
  "header_length m n \<longleftrightarrow> n \<le> length m \<and> ends_header (take n m) \<and> (\<forall>k < n. \<not> ends_header (take k m))"

lemma take_split2: "i + 2 \<le> length m \<Longrightarrow> take (i + 2) m = take i m @ [m ! i, m ! (i + 1)]"
  by (simp add: take_Suc_conv_app_nth)

lemma take_split4: "i + 4 \<le> length m \<Longrightarrow> take (i + 4) m = take i m @ [m ! i, m ! (i + 1), m ! (i + 2), m ! (i + 3)]"
  using take_split2 [of "i + 2" m] take_split2 [of i m] by (simp add: eval_nat_numeral)

lemma ends_header_take:
  assumes "k \<le> length m"
  shows "ends_header (take k m) \<longleftrightarrow> (\<exists>i. k = i + 2 \<and> m ! i = LF \<and> m ! (i + 1) = LF)
    \<or> (\<exists>i. k = i + 4 \<and> m ! i = CR \<and> m ! (i + 1) = LF \<and> m ! (i + 2) = CR \<and> m ! (i + 3) = LF)"
proof -
  have "(\<exists>d. take k m = d @ [LF, LF]) \<longleftrightarrow> (\<exists>i. k = i + 2 \<and> m ! i = LF \<and> m ! (i + 1) = LF)"
  proof
    assume "\<exists>d. take k m = d @ [LF, LF]"
    then obtain d where d: "take k m = d @ [LF, LF]" by blast
    then have k: "k = length d + 2" using assms by (auto dest: arg_cong [of _ _ length])
    then show "\<exists>i. k = i + 2 \<and> m ! i = LF \<and> m ! (i + 1) = LF" using take_split2 [of "length d" m] assms d by auto
  next
    assume "\<exists>i. k = i + 2 \<and> m ! i = LF \<and> m ! (i + 1) = LF"
    then obtain i where "k = i + 2" "m ! i = LF" "m ! (i + 1) = LF" by blast
    then show "\<exists>d. take k m = d @ [LF, LF]" using assms take_split2 [of i m] by (intro exI [of _ "take i m"]) metis
  qed
  moreover have "(\<exists>d. take k m = d @ [CR, LF, CR, LF])
    \<longleftrightarrow> (\<exists>i. k = i + 4 \<and> m ! i = CR \<and> m ! (i + 1) = LF \<and> m ! (i + 2) = CR \<and> m ! (i + 3) = LF)"
  proof
    assume "\<exists>d. take k m = d @ [CR, LF, CR, LF]"
    then obtain d where d: "take k m = d @ [CR, LF, CR, LF]" by blast
    then have k: "k = length d + 4" using assms by (auto dest: arg_cong [of _ _ length])
    then show "\<exists>i. k = i + 4 \<and> m ! i = CR \<and> m ! (i + 1) = LF \<and> m ! (i + 2) = CR \<and> m ! (i + 3) = LF"
      using take_split4 [of "length d" m] assms d by auto
  next
    assume "\<exists>i. k = i + 4 \<and> m ! i = CR \<and> m ! (i + 1) = LF \<and> m ! (i + 2) = CR \<and> m ! (i + 3) = LF"
    then obtain i where "k = i + 4" "m ! i = CR" "m ! (i + 1) = LF" "m ! (i + 2) = CR" "m ! (i + 3) = LF" by blast
    then show "\<exists>d. take k m = d @ [CR, LF, CR, LF]" using assms take_split4 [of i m] by (intro exI [of _ "take i m"]) metis
  qed
  ultimately show ?thesis unfolding ends_header_def by auto
qed

lemma get_http_header_len_loop_first:
  "get_http_header_len_loop buf i = r \<Longrightarrow> 0 < r \<Longrightarrow> \<exists>j \<ge> i. ends_header (take (nat r) buf)
     \<and> (nat r = j + 2 \<and> buf ! j = LF \<or> nat r = j + 4 \<and> buf ! j = CR \<and> buf ! (j + 1) = LF \<and> buf ! (j + 2) = CR) \<and> nat r \<le> length buf
     \<and> (\<forall>k. i \<le> k \<longrightarrow> k < j \<longrightarrow> \<not> (k + 1 < length buf \<and> buf ! k = LF \<and> buf ! (k + 1) = LF)
       \<and> \<not> (k + 3 < length buf \<and> buf ! k = CR \<and> buf ! (k + 1) = LF \<and> buf ! (k + 2) = CR \<and> buf ! (k + 3) = LF))"
proof (induction buf i rule: get_http_header_len_loop.induct)
  case (1 buf i)
  define two where "two = (i + 1 < length buf \<and> buf ! i = LF \<and> buf ! (i + 1) = LF)"
  define four where "four = (i + 3 < length buf \<and> buf ! i = CR \<and> buf ! (i + 1) = LF \<and> buf ! (i + 2) = CR \<and> buf ! (i + 3) = LF)"
  have ok: "i < length buf \<and> \<not> (ordc (buf ! i) < 128 \<and> buf ! i \<noteq> CR \<and> buf ! i \<noteq> LF \<and> \<not> isprint (buf ! i))"
    using "1.prems" by (subst (asm) get_http_header_len_loop.simps) (auto simp: Let_def split: if_splits)
  then have run: "get_http_header_len_loop buf i
      = (if two then int (i + 2) else if four then int (i + 4) else get_http_header_len_loop buf (i + 1))"
    unfolding two_def four_def by (subst get_http_header_len_loop.simps) (auto simp: Let_def)
  consider two | "\<not> two" four | "\<not> two" "\<not> four" by blast
  then show ?case
  proof cases
    case 1
    then have "nat r = i + 2" using run "1.prems"(1) by simp
    then show ?thesis using 1 ends_header_take [of "i + 2" buf] by (intro exI [of _ i]) (auto simp: two_def)
  next
    case 2
    then have "nat r = i + 4" using run "1.prems"(1) by simp
    then show ?thesis using 2 ends_header_take [of "i + 4" buf] by (intro exI [of _ i]) (auto simp: four_def)
  next
    case 3
    then have "get_http_header_len_loop buf (i + 1) = r" using run "1.prems"(1) by simp
    from "1.IH" [OF _ refl _ _ _ this "1.prems"(2)] ok 3 obtain j where j: "i + 1 \<le> j" "ends_header (take (nat r) buf)"
      "nat r = j + 2 \<and> buf ! j = LF \<or> nat r = j + 4 \<and> buf ! j = CR \<and> buf ! (j + 1) = LF \<and> buf ! (j + 2) = CR" "nat r \<le> length buf"
      "\<And>k. i + 1 \<le> k \<Longrightarrow> k < j \<Longrightarrow> \<not> (k + 1 < length buf \<and> buf ! k = LF \<and> buf ! (k + 1) = LF)
       \<and> \<not> (k + 3 < length buf \<and> buf ! k = CR \<and> buf ! (k + 1) = LF \<and> buf ! (k + 2) = CR \<and> buf ! (k + 3) = LF)"
      unfolding two_def four_def by blast
    have "\<not> (k + 1 < length buf \<and> buf ! k = LF \<and> buf ! (k + 1) = LF)
       \<and> \<not> (k + 3 < length buf \<and> buf ! k = CR \<and> buf ! (k + 1) = LF \<and> buf ! (k + 2) = CR \<and> buf ! (k + 3) = LF)" if "i \<le> k" "k < j" for k
      using j(5) [of k] 3 that unfolding two_def four_def by (cases "k = i") simp_all
    then show ?thesis using j(1-4) by (intro exI [of _ j]) simp
  qed
qed

text \<open>The scan finds the header.\<close>

lemma get_http_header_len_spec:
  assumes "0 < get_http_header_len buf"
  shows "header_length buf (nat (get_http_header_len buf))"
proof -
  define r where "r = get_http_header_len buf"
  obtain j where j: "ends_header (take (nat r) buf)" "nat r \<le> length buf"
      "nat r = j + 2 \<and> buf ! j = LF \<or> nat r = j + 4 \<and> buf ! j = CR \<and> buf ! (j + 1) = LF \<and> buf ! (j + 2) = CR"
      "\<And>k. k < j \<Longrightarrow> \<not> (k + 1 < length buf \<and> buf ! k = LF \<and> buf ! (k + 1) = LF)
       \<and> \<not> (k + 3 < length buf \<and> buf ! k = CR \<and> buf ! (k + 1) = LF \<and> buf ! (k + 2) = CR \<and> buf ! (k + 3) = LF)"
    using get_http_header_len_loop_first [of buf 0 r] assms by (auto simp: r_def get_http_header_len_def)
  have "\<not> ends_header (take k buf)" if k: "k < nat r" for k
  proof
    assume "ends_header (take k buf)"
    moreover have "k \<le> length buf" using k j(2) by simp
    ultimately consider i where "k = i + 2" "buf ! i = LF" "buf ! (i + 1) = LF"
      | i where "k = i + 4" "buf ! i = CR" "buf ! (i + 1) = LF" "buf ! (i + 2) = CR" "buf ! (i + 3) = LF"
      using ends_header_take by blast
    then show False
    proof cases
      case 1
      then have "\<not> i < j" using j(4) [of i] k j(2) by auto
      with 1 k j(3) have "nat r = j + 4" "buf ! j = CR" "buf ! (j + 2) = CR" "i = j \<or> i = j + 1" by auto
      with 1 show False by auto
    next
      case 2
      then have "i < j" using k j(3) by auto
      then show False using 2 j(4) [of i] k j(2) by auto
    qed
  qed
  then show ?thesis using j(1,2) by (simp add: header_length_def r_def [symmetric])
qed

lemma skip_init_blanks:
  "buf + len \<le> length mem \<Longrightarrow> skip_init mem buf len = Some (buf', len') \<Longrightarrow>
   slice mem buf' len' = dropWhile isspace (slice mem buf len)"
proof (induction len arbitrary: buf)
  case (Suc len)
  have "slice mem buf (Suc len) = mem ! buf # slice mem (buf + 1) len"
    using Suc.prems(1) by (simp add: slice_def Cons_nth_drop_Suc [symmetric])
  then show ?case using Suc.IH [of "buf + 1"] Suc.prems by (auto simp: rd_lt split: if_splits)
qed (simp add: slice_def)

lemma skip_init_spec:
  "buf + len \<le> length mem \<Longrightarrow> \<exists>buf' len'. skip_init mem buf len = Some (buf', len') \<and> buf' + len' = buf + len
     \<and> (len' \<noteq> 0 \<longrightarrow> \<not> isspace (mem ! buf'))"
proof (induction len arbitrary: buf)
  case (Suc len)
  then have "buf < length mem" by simp
  then show ?case using Suc.IH [of "buf + 1"] Suc.prems by (auto simp: rd_lt)
qed simp

lemma guarded_request:
  assumes g: "guarded e T L mem1 buf"
  shows "\<exists>mem' ri' p r'. parse_request_header mem1 buf ok ri = Some (mem', ri', r') \<and> guarded e T L mem' p
    \<and> (r' = -1 \<or> r' = ok)"
proof -
  obtain mem2 p2 r2 where s2: "skip_to_end_of_word_and_terminate mem1 buf False = Some (mem2, p2, r2)"
    "guarded e T L mem2 p2" using guarded_skip [OF g] by blast
  obtain mem3 p3 r3 where s3: "skip_to_end_of_word_and_terminate mem2 p2 False = Some (mem3, p3, r3)"
    "guarded e T L mem3 p3" using guarded_skip [OF s2(2)] by blast
  obtain mem4 p4 r4 where s4: "skip_to_end_of_word_and_terminate mem3 p3 True = Some (mem4, p4, r4)"
    "guarded e T L mem4 p4" using guarded_skip [OF s3(2)] by blast
  obtain mem5 p5 hdr k where s5: "parse_http_headers mem4 p4 = Some (mem5, p5, hdr, k)"
    "guarded e T L mem5 p5" using guarded_headers [OF s4(2)] unfolding parse_http_headers_def by blast
  show ?thesis
    unfolding parse_request_header_def guarded_rd [OF g] Option.bind_lunit Let_def s2(1) prod.case s3(1) s4(1) s5(1)
    using g s2(2) s3(2) s4(2) s5(2) by (simp only: split: if_split) blast
qed

text \<open>What both parsers share: after the terminator is written the part that follows only
  works on the guarded header.\<close>

lemma guarded_message:
  assumes "buf + n = len" "len \<le> length mem" "2 \<le> r" "r \<le> int n"
  defines "e \<equiv> buf + nat r - 1"
  shows "wr mem e NUL = Some (mem[e := NUL])"
    and "guarded e (drop (Suc e) mem) (length mem) (mem[e := NUL]) buf"
    and "guarded e (drop (Suc e) mem) (length mem) mem' p \<Longrightarrow>
      length mem' = length mem \<and> drop len mem' = drop len mem \<and> drop (nat (r + int buf)) mem' = drop (nat (r + int buf)) mem"
proof -
  have e: "buf \<le> e" "e < len" "Suc e = nat (r + int buf)" using assms by (auto simp: e_def)
  show "wr mem e NUL = Some (mem[e := NUL])" using e assms(2) by (simp add: wr_lt)
  show "guarded e (drop (Suc e) mem) (length mem) (mem[e := NUL]) buf" using e assms(2) by (simp add: guarded_def)
  assume a: "guarded e (drop (Suc e) mem) (length mem) mem' p"
  then have d: "drop (Suc e) mem' = drop (Suc e) mem" by (simp add: guarded_def)
  then have "drop (len - Suc e) (drop (Suc e) mem') = drop (len - Suc e) (drop (Suc e) mem)" by simp
  then show "length mem' = length mem \<and> drop len mem' = drop len mem \<and> drop (nat (r + int buf)) mem' = drop (nat (r + int buf)) mem"
    using a e d by (simp add: guarded_def)
qed

lemma parse_request_memory:
  assumes "len \<le> length mem"
  shows "\<exists>mem' ri' r. parse_http_request mem len ri = Some (mem', ri', r) \<and> length mem' = length mem
    \<and> r \<le> int len \<and> drop len mem' = drop len mem \<and> (r \<le> 0 \<or> drop (nat r) mem' = drop (nat r) mem)
    \<and> (0 < r \<longrightarrow> mem \<noteq> [] \<longrightarrow> \<not> isspace (mem ! 0) \<longrightarrow> r = get_http_header_len (take len mem))
    \<and> (0 < r \<longrightarrow> (\<exists>k. header_length (dropWhile isspace (take len mem)) k
        \<and> nat r = len - length (dropWhile isspace (take len mem)) + k))"
proof -
  obtain buf n where s: "skip_init mem 0 len = Some (buf, n)" "buf + n = len" "n \<noteq> 0 \<longrightarrow> \<not> isspace (mem ! buf)"
    using skip_init_spec [of 0 len mem] assms by auto
  define r where "r = get_http_header_len (slice mem buf n)"
  define ri1 where "ri1 = ri\<lparr>remote_user := None, request_method := None, request_uri := None, http_version := None,
      num_headers := 0\<rparr>"
  show ?thesis
  proof (cases "n = 0 \<or> iscntrl (mem ! buf) \<or> r \<le> 0")
    case True
    have "r \<le> int len" if "r \<le> 0" using that by simp
    with True s assms show ?thesis
      by (auto simp: parse_http_request_def Let_def rd_lt r_def [symmetric])
  next
    case False
    have r: "2 \<le> r" "r \<le> int n"
      using get_http_header_len_bounds [of "slice mem buf n" 0 r] False s(2) assms
      by (auto simp: r_def get_http_header_len_def)
    note m = guarded_message [OF s(2) assms r]
    have c0: "rd mem buf = Some (mem ! buf)" using s(2) False assms by (simp add: rd_lt)
    have bound: "r + int buf \<le> int len" using r s(2) by simp
    have n: "n \<noteq> 0" "\<not> iscntrl (mem ! buf)" "\<not> r \<le> 0" using False by auto
    note run = s(1) c0 n r_def [symmetric] m(1) [unfolded One_nat_def]
    have "parse_http_request mem len ri
      = parse_request_header (mem[buf + nat r - 1 := NUL]) buf (r + int buf) ri1"
      by (simp add: parse_http_request_def Let_def run ri1_def del: rd_Some wr_Some)
    with guarded_request [OF m(2), of "r + int buf" ri1]
    obtain mem' ri' p r' where res: "parse_http_request mem len ri = Some (mem', ri', r')"
      "guarded (buf + nat r - 1) (drop (Suc (buf + nat r - 1)) mem) (length mem) mem' p"
      "r' = -1 \<or> r' = r + int buf" by metis
    have "r' = get_http_header_len (take len mem)" if "0 < r'" "mem \<noteq> []" "\<not> isspace (mem ! 0)"
    proof -
      have "0 < len" using s(2) n(1) by simp
      then have "skip_init mem 0 len = Some (0, len)" using that by (cases len) (simp_all add: rd_lt)
      then have "buf = 0" "n = len" using s(1) by simp_all
      then show ?thesis using that(1) res(3) by (auto simp: r_def slice_def)
    qed
    moreover have "\<exists>k. header_length (dropWhile isspace (take len mem)) k
        \<and> nat r' = len - length (dropWhile isspace (take len mem)) + k" if "0 < r'"
    proof -
      have h: "slice mem buf n = dropWhile isspace (take len mem)"
        using skip_init_blanks [OF _ s(1)] assms by (simp add: slice_def)
      have "length (slice mem buf n) = n" using s(2) assms by (simp add: slice_def)
      then have "len - length (dropWhile isspace (take len mem)) = buf" using s(2) h by simp
      moreover have "header_length (slice mem buf n) (nat r)"
        using get_http_header_len_spec [of "slice mem buf n"] r(1) by (simp add: r_def)
      ultimately show ?thesis using that res(3) h r(1) by (intro exI [of _ "nat r"]) (auto simp: nat_add_distrib)
    qed
    ultimately show ?thesis using res m(3) [OF res(2)] bound by auto
  qed
qed

text \<open>C12: \<open>parse_http_request\<close> is memory-safe on every input: no access leaves the \<open>len\<close>
  received bytes, whatever they are, and the routine returns. A positive result is the
  length of the header, at most \<open>len\<close>: of the white space in front, and of everything up to the first empty line and
  with it. The body behind it is unchanged.\<close>

theorem parse_http_request_safe:
  assumes "len \<le> length mem"
  shows "\<exists>mem' ri' r. parse_http_request mem len ri = Some (mem', ri', r) \<and> length mem' = length mem
    \<and> r \<le> int len \<and> drop len mem' = drop len mem \<and> (r \<le> 0 \<or> drop (nat r) mem' = drop (nat r) mem)
    \<and> (0 < r \<longrightarrow> (\<exists>k. header_length (dropWhile isspace (take len mem)) k
        \<and> nat r = len - length (dropWhile isspace (take len mem)) + k))"
  using parse_request_memory [OF assms, of ri] by blast

theorem parse_http_request_safe_witness:
  "\<exists>mem' ri' r. parse_http_request ''GET / HTTP'' 9 undefined = Some (mem', ri', r) \<and> length mem' = length ''GET / HTTP''
    \<and> r \<le> int 9 \<and> drop 9 mem' = drop 9 ''GET / HTTP'' \<and> (r \<le> 0 \<or> drop (nat r) mem' = drop (nat r) ''GET / HTTP'')
    \<and> (0 < r \<longrightarrow> (\<exists>k. header_length (dropWhile isspace (take 9 ''GET / HTTP'')) k
        \<and> nat r = 9 - length (dropWhile isspace (take 9 ''GET / HTTP'')) + k))"
  by (rule parse_http_request_safe) simp

section \<open>Parsing what a client sends\<close>

text \<open>A request as a client writes it.\<close>

abbreviation CRLF :: string where
  "CRLF \<equiv> [CR, LF]"

definition header_line :: "string \<times> string \<Rightarrow> string" where
  "header_line h = fst h @ '': '' @ snd h"

definition request_line :: "string \<Rightarrow> string \<Rightarrow> string \<Rightarrow> string" where
  "request_line meth uri version = meth @ '' '' @ uri @ '' HTTP/'' @ version"

definition render_request :: "string \<Rightarrow> string \<Rightarrow> string \<Rightarrow> (string \<times> string) list \<Rightarrow> string" where
  "render_request meth uri version hs =
     concat (map (\<lambda>l. l @ CRLF) (request_line meth uri version # map header_line hs)) @ CRLF"

text \<open>The characters that may stand in a message, in a header name, in a value.\<close>

definition text_char :: "char \<Rightarrow> bool" where
  "text_char c \<longleftrightarrow> isprint c \<or> 128 \<le> ordc c"

definition name_char :: "char \<Rightarrow> bool" where
  "name_char c \<longleftrightarrow> c \<noteq> CHR '':'' \<and> 33 \<le> schar c \<and> schar c \<le> 126"

definition header_ok :: "string \<times> string \<Rightarrow> bool" where
  "header_ok h \<longleftrightarrow> fst h \<noteq> [] \<and> list_all name_char (fst h) \<and> list_all text_char (snd h)
     \<and> (snd h = [] \<or> hd (snd h) \<noteq> CHR '' '')"

lemma text_char_facts:
  assumes "text_char c"
  shows "c \<noteq> CR" "c \<noteq> LF" "c \<noteq> NUL" "c \<noteq> TAB" "\<not> (ordc c < 128 \<and> c \<noteq> CR \<and> c \<noteq> LF \<and> \<not> isprint c)"
  using assms by (auto simp: text_char_def isprint_def ordc_def)

lemma not_text_NUL [simp]: "\<not> text_char NUL" "\<not> name_char NUL"
  using text_char_facts(3) [of NUL] by (auto simp: name_char_def)

lemma isgraph_text: "isgraph c \<Longrightarrow> text_char c"
  by (auto simp: text_char_def ctype_defs)

lemma name_char_graph: "name_char c \<Longrightarrow> isgraph c"
proof -
  define n where "n = ordc c"
  have "n < 256" by (simp add: n_def)
  then show "name_char c \<Longrightarrow> isgraph c"
    by (auto simp: name_char_def isgraph_def schar_def n_def [symmetric] split: if_splits)
qed

subsection \<open>The end of the header\<close>

lemma header_len_skip:
  assumes "i < length buf" "text_char (buf ! i)"
  shows "get_http_header_len_loop buf i = get_http_header_len_loop buf (i + 1)"
  using assms text_char_facts [OF assms(2)] by (subst get_http_header_len_loop.simps) (auto simp: Let_def)

lemma header_len_skip_line:
  assumes "list_all text_char l"
  shows "get_http_header_len_loop (d @ l @ r) (length d) = get_http_header_len_loop (d @ l @ r) (length d + length l)"
  using assms
proof (induction l arbitrary: d)
  case (Cons c l)
  have "get_http_header_len_loop (d @ (c # l) @ r) (length d) = get_http_header_len_loop (d @ (c # l) @ r) (length d + 1)"
    using Cons.prems by (intro header_len_skip) (auto simp: nth_append)
  also have "\<dots> = get_http_header_len_loop ((d @ [c]) @ l @ r) (length (d @ [c]))" by simp
  also have "\<dots> = get_http_header_len_loop ((d @ [c]) @ l @ r) (length (d @ [c]) + length l)"
    using Cons.prems by (intro Cons.IH) simp
  finally show ?case by simp
qed simp

lemma header_len_newline:
  assumes "x \<noteq> CR" "x \<noteq> LF"
  shows "get_http_header_len_loop (d @ CR # LF # x # r) (length d) = get_http_header_len_loop (d @ CR # LF # x # r) (length d + 2)"
proof -
  have "get_http_header_len_loop (d @ CR # LF # x # r) (length d) = get_http_header_len_loop (d @ CR # LF # x # r) (length d + 1)"
    using assms by (subst get_http_header_len_loop.simps) (auto simp: nth_append Let_def)
  also have "\<dots> = get_http_header_len_loop (d @ CR # LF # x # r) (length d + 1 + 1)"
    using assms by (subst get_http_header_len_loop.simps) (auto simp: nth_append Let_def)
  finally show ?thesis by simp
qed

lemma header_len_end:
  "get_http_header_len_loop (d @ CR # LF # CR # LF # r) (length d) = int (length d + 4)"
  by (subst get_http_header_len_loop.simps) (auto simp: nth_append Let_def numeral_3_eq_3)

lemma header_len_lines:
  assumes "ls \<noteq> []" "\<forall>l \<in> set ls. l \<noteq> [] \<and> list_all text_char l"
  shows "get_http_header_len_loop (d @ concat (map (\<lambda>l. l @ CRLF) ls) @ CRLF @ r) (length d)
    = int (length d + length (concat (map (\<lambda>l. l @ CRLF) ls)) + 2)"
  using assms
proof (induction ls arbitrary: d)
  case (Cons l ls)
  let ?m = "d @ concat (map (\<lambda>l. l @ CRLF) (l # ls)) @ CRLF @ r"
  have skip: "get_http_header_len_loop ?m (length d) = get_http_header_len_loop ?m (length d + length l)"
    using header_len_skip_line [of l d "CRLF @ concat (map (\<lambda>l. l @ CRLF) ls) @ CRLF @ r"] Cons.prems by simp
  show ?case
  proof (cases ls)
    case Nil
    then show ?thesis unfolding skip using header_len_end [of "d @ l" r] by simp
  next
    case (Cons l' ls')
    then obtain x l'' where l': "l' = x # l''" "x \<noteq> CR" "x \<noteq> LF"
      using Cons.prems text_char_facts by (cases l') auto
    have "get_http_header_len_loop ?m (length (d @ l)) = get_http_header_len_loop ?m (length (d @ l) + 2)"
      using header_len_newline [OF l'(2,3), of "d @ l" "l'' @ CRLF @ concat (map (\<lambda>l. l @ CRLF) ls') @ CRLF @ r"]
      by (simp add: Cons l'(1))
    also have "\<dots> = get_http_header_len_loop ((d @ l @ CRLF) @ concat (map (\<lambda>l. l @ CRLF) ls) @ CRLF @ r) (length (d @ l @ CRLF))"
      by simp
    also have "\<dots> = int (length (d @ l @ CRLF) + length (concat (map (\<lambda>l. l @ CRLF) ls)) + 2)"
      using Cons Cons.prems by (intro Cons.IH) auto
    finally show ?thesis unfolding skip by simp
  qed
qed simp

subsection \<open>The words and the headers\<close>

lemma scan_append:
  assumes "list_all P w" "\<not> P c"
  shows "scan P (d @ w @ c # r) (length d) = Some (length d + length w)"
  using assms by (intro scan_unique) (auto simp: nth_append list_all_length)

lemma zero_spaces_append:
  "sp \<noteq> [] \<Longrightarrow> list_all isspace (tl sp) \<Longrightarrow> \<not> isspace c \<Longrightarrow>
   zero_spaces (d @ sp @ c # r) (length d) = Some (d @ replicate (length sp) NUL @ c # r, length d + length sp)"
proof (induction sp arbitrary: d)
  case (Cons b sp)
  show ?case
  proof (cases sp)
    case Nil
    with Cons.prems show ?thesis by (subst zero_spaces.simps) (simp add: nth_append Let_def)
  next
    case (Cons b' sp')
    have "zero_spaces ((d @ [NUL]) @ sp @ c # r) (length (d @ [NUL]))
      = Some ((d @ [NUL]) @ replicate (length sp) NUL @ c # r, length (d @ [NUL]) + length sp)"
      using Cons Cons.prems by (intro Cons.IH) auto
    moreover have "isspace b'" using Cons Cons.prems by simp
    ultimately show ?thesis
      using Cons by (subst zero_spaces.simps) (simp add: nth_append Let_def)
  qed
qed simp

lemma skip_word:
  assumes "list_all isgraph w" "sp \<noteq> []" "list_all isspace (tl sp)" "\<not> isspace c"
    and "hd sp = CHR '' '' \<and> \<not> eol \<and> isgraph c \<or> (hd sp = CR \<or> hd sp = LF) \<and> eol"
  shows "skip_to_end_of_word_and_terminate (d @ w @ sp @ c # r) (length d) eol
    = Some (d @ w @ replicate (length sp) NUL @ c # r, length d + length w + length sp, 1)"
proof -
  obtain b sp' where sp: "sp = b # sp'" using assms(2) by (cases sp) auto
  have ng: "\<not> isgraph b" using assms(5) by (auto simp: sp isgraph_def ordc_def)
  have "scan isgraph (d @ w @ sp @ c # r) (length d) = Some (length d + length w)"
    using scan_append [OF assms(1) ng, of d "sp' @ c # r"] by (simp add: sp)
  moreover have "zero_spaces (d @ w @ sp @ c # r) (length d + length w)
      = Some (d @ w @ replicate (length sp) NUL @ c # r, length d + length w + length sp)"
    using zero_spaces_append [OF assms(2,3,4), of "d @ w" r] by simp
  ultimately show ?thesis
    using assms(5) by (auto simp: skip_to_end_of_word_and_terminate_def rd_def nth_append sp)
qed

lemma rd_at: "rd (d @ c # r) (length d) = Some c"
  by (simp add: rd_def)

lemma wr_at: "wr (d @ c # r) (length d) x = Some (d @ x # r)"
  by (simp add: wr_def)

definition header_done :: "string \<times> string \<Rightarrow> char list" where
  "header_done h = fst h @ [NUL, CHR '' ''] @ snd h @ [NUL, NUL]"

fun header_positions :: "nat \<Rightarrow> (string \<times> string) list \<Rightarrow> header list" where
  "header_positions p [] = []"
| "header_positions p (h # hs) = (p, p + length (fst h) + 2) # header_positions (p + length (header_done h)) hs"

lemma headers_step:
  assumes "header_ok h"
  shows "parse_http_headers_loop (Suc k) (d @ header_line h @ CRLF @ x # r) (length d) hdr
    = (let mem = d @ header_done h @ x # r;
           buf = length d + length (header_done h);
           hdr = hdr @ [(length d, length d + length (fst h) + 2)]
       in if x = CR \<or> x = LF then Some (mem, buf, hdr, int (length hdr))
          else parse_http_headers_loop k mem buf hdr)"
proof -
  obtain n v where h: "h = (n, v)" by (cases h)
  have ok: "n \<noteq> []" "list_all name_char n" "list_all text_char v" "v = [] \<or> hd v \<noteq> CHR '' ''"
    using assms by (auto simp: header_ok_def h)
  have v: "list_all (\<lambda>c. c \<noteq> NUL \<and> c \<noteq> CR \<and> c \<noteq> LF) v"
    using ok(3) text_char_facts by (auto simp: list_all_iff)
  define m0 where "m0 = d @ n @ CHR '':'' # CHR '' '' # v @ CR # LF # x # r"
  define m1 where "m1 = d @ n @ NUL # CHR '' '' # v @ CR # LF # x # r"
  define m2 where "m2 = d @ n @ NUL # CHR '' '' # v @ NUL # LF # x # r"
  define m3 where "m3 = d @ n @ NUL # CHR '' '' # v @ NUL # NUL # x # r"
  define p where "p = length d + length n"
  have s1: "scan (\<lambda>c. c \<noteq> CHR '':'' \<and> 33 \<le> schar c \<and> schar c \<le> 126) m0 (length d) = Some p"
    using scan_append [of "\<lambda>c. c \<noteq> CHR '':'' \<and> 33 \<le> schar c \<and> schar c \<le> 126" n "CHR '':''" d] ok(2)
    by (auto simp: m0_def p_def name_char_def [abs_def])
  have s2: "zero_blanks m0 p = Some (m0, p)"
    by (subst zero_blanks.simps) (simp add: m0_def p_def nth_append)
  have s3: "rd m0 p = Some CHR '':''" "wr m0 p NUL = Some m1"
    using rd_at [of "d @ n"] wr_at [of "d @ n"] by (simp_all add: m0_def m1_def p_def)
  have s4: "scan (\<lambda>c. c = CHR '' '' \<or> c = TAB) m1 (p + 1) = Some (p + 2)"
  proof -
    obtain y u where y: "y \<noteq> CHR '' ''" "y \<noteq> TAB" "v @ CR # LF # x # r = y # u"
      using ok(3,4) text_char_facts(4) by (cases v) auto
    then show ?thesis
      using scan_append [of "\<lambda>c. c = CHR '' '' \<or> c = TAB" "'' ''" y "d @ n @ [NUL]" u] by (simp add: m1_def p_def)
  qed
  have s5: "scan (\<lambda>c. c \<noteq> NUL \<and> c \<noteq> CR \<and> c \<noteq> LF) m1 (p + 2) = Some (p + 2 + length v)"
    using scan_append [OF v, of CR "d @ n @ [NUL, CHR '' '']"] by (simp add: m1_def p_def)
  have s6: "rd m1 (p + 2 + length v) = Some CR" "wr m1 (p + 2 + length v) NUL = Some m2"
    using rd_at [of "d @ n @ [NUL, CHR '' ''] @ v"] wr_at [of "d @ n @ [NUL, CHR '' ''] @ v"]
    by (simp_all add: m1_def m2_def p_def add.assoc del: rd_Some wr_Some)
  have s7: "rd m2 (p + 2 + length v + 1) = Some LF" "wr m2 (p + 2 + length v + 1) NUL = Some m3"
    using rd_at [of "d @ n @ [NUL, CHR '' ''] @ v @ [NUL]"] wr_at [of "d @ n @ [NUL, CHR '' ''] @ v @ [NUL]"]
    by (simp_all add: m2_def m3_def p_def add.assoc del: rd_Some wr_Some)
  have s8: "rd m3 (p + 2 + length v + 1 + 1) = Some x"
    using rd_at [of "d @ n @ [NUL, CHR '' ''] @ v @ [NUL, NUL]"]
    by (simp add: m3_def p_def add.assoc del: rd_Some)
  have p: "p \<noteq> length d" using ok(1) by (simp add: p_def)
  have m: "d @ header_line h @ CRLF @ x # r = m0" "d @ header_done h @ x # r = m3"
    "length d + length (header_done h) = p + 2 + length v + 1 + 1"
    by (simp_all add: header_line_def header_done_def h m0_def m3_def p_def)
  show ?thesis
    unfolding m Let_def parse_http_headers_loop.simps s1 s2 s3 s4 s5 s6 s7 s8 Option.bind_lunit prod.case
    using p s6 s7 s8 by (simp add: h p_def del: rd_Some wr_Some)
qed

lemma headers_loop:
  assumes "hs \<noteq> []" "length hs \<le> k" "\<forall>h \<in> set hs. header_ok h"
  shows "parse_http_headers_loop k (d @ concat (map (\<lambda>h. header_line h @ CRLF) hs) @ CR # NUL # r) (length d) hdr
    = Some (d @ concat (map header_done hs) @ CR # NUL # r, length d + length (concat (map header_done hs)),
        hdr @ header_positions (length d) hs, int (length hdr + length hs))"
  using assms
proof (induction hs arbitrary: d k hdr)
  case (Cons h hs)
  obtain k' where k: "k = Suc k'" using Cons.prems(2) by (cases k) auto
  have ok: "header_ok h" using Cons.prems by simp
  show ?case
  proof (cases hs)
    case Nil
    then show ?thesis
      using headers_step [OF ok, of k' d CR "NUL # r" hdr] by (simp add: k Let_def)
  next
    case hs: (Cons h' hs')
    then obtain y n' where y: "fst h' = y # n'" "name_char y"
      using Cons.prems(3) by (cases "fst h'") (auto simp: header_ok_def)
    then have "y \<noteq> CR" "y \<noteq> LF" by (auto simp: name_char_def schar_def ordc_def)
    then have "parse_http_headers_loop k (d @ concat (map (\<lambda>h. header_line h @ CRLF) (h # hs)) @ CR # NUL # r) (length d) hdr
      = parse_http_headers_loop k' ((d @ header_done h) @ concat (map (\<lambda>h. header_line h @ CRLF) hs) @ CR # NUL # r)
          (length (d @ header_done h)) (hdr @ [(length d, length d + length (fst h) + 2)])"
      using headers_step [OF ok, of k' d y "n' @ '': '' @ snd h' @ CRLF @ concat (map (\<lambda>h. header_line h @ CRLF) hs') @ CR # NUL # r" hdr]
      by (simp add: k Let_def hs header_line_def [of h'] y(1))
    also have "\<dots> = Some ((d @ header_done h) @ concat (map header_done hs) @ CR # NUL # r,
        length (d @ header_done h) + length (concat (map header_done hs)),
        (hdr @ [(length d, length d + length (fst h) + 2)]) @ header_positions (length (d @ header_done h)) hs,
        int (length (hdr @ [(length d, length d + length (fst h) + 2)]) + length hs))"
      using hs Cons.prems k by (intro Cons.IH) auto
    finally show ?thesis by simp
  qed
qed simp

text \<open>The pointers designate the names and values.\<close>

lemma str_at_append: "cstring s \<Longrightarrow> str_at (d @ s @ NUL # r) (length d) = s"
  by (rule str_atI [where t = r]) simp_all

lemma header_positions_strings:
  "\<forall>h \<in> set hs. header_ok h \<Longrightarrow>
   map (\<lambda>(n, v). (str_at (d @ concat (map header_done hs) @ r) n, str_at (d @ concat (map header_done hs) @ r) v))
     (header_positions (length d) hs) = hs"
proof (induction hs arbitrary: d)
  case (Cons h hs)
  obtain n v where h: "h = (n, v)" by (cases h)
  have c: "cstring n" "cstring v"
    using Cons.prems by (auto simp: h header_ok_def cstring_def list_all_iff)
  define m where "m = d @ concat (map header_done (h # hs)) @ r"
  have "str_at m (length d) = n"
    using str_at_append [OF c(1), of d] by (simp add: m_def header_done_def h)
  moreover have "str_at m (length d + length n + 2) = v"
    using str_at_append [OF c(2), of "d @ n @ [NUL, CHR '' '']"] by (simp add: m_def header_done_def h)
  moreover have "map (\<lambda>(n, v). (str_at m n, str_at m v)) (header_positions (length (d @ header_done h)) hs) = hs"
    using Cons.IH [of "d @ header_done h"] Cons.prems by (simp add: m_def)
  ultimately show ?case unfolding m_def [symmetric] by (simp add: h)
qed simp

subsection \<open>The whole request\<close>

lemma skip_init_append:
  assumes "list_all isspace ws" "\<not> isspace c"
  shows "skip_init (d @ ws @ c # r) (length d) (length ws + Suc n) = Some (length d + length ws, Suc n)"
  using assms(1)
proof (induction ws arbitrary: d)
  case Nil
  then show ?case using assms(2) by (simp add: rd_def)
next
  case (Cons b ws)
  then have "skip_init ((d @ [b]) @ ws @ c # r) (length (d @ [b])) (length ws + Suc n)
      = Some (length (d @ [b]) + length ws, Suc n)" by (intro Cons.IH) simp
  with Cons.prems show ?case by (simp add: rd_def nth_append)
qed

lemma valid_method_graph:
  assumes "is_valid_http_method meth"
  shows "meth \<noteq> []" "list_all isgraph meth"
proof -
  have "\<forall>n \<in> set (map name http_methods). n \<noteq> [] \<and> list_all isgraph n" by code_simp
  moreover have "meth \<in> set (map name http_methods)"
    using assms by (auto simp: is_valid_http_method_def get_http_method_info_def find_None_iff)
  ultimately show "meth \<noteq> []" "list_all isgraph meth" by blast+
qed

lemma graph_not: "isgraph c \<Longrightarrow> \<not> isspace c \<and> \<not> iscntrl c \<and> c \<noteq> NUL \<and> c \<noteq> CR \<and> c \<noteq> LF"
  by (auto simp: ctype_defs ordc_def)

lemma cstring_graph: "list_all isgraph w \<Longrightarrow> cstring w"
  using graph_not by (auto simp: list_all_iff cstring_def)

lemma list_all_mono': "list_all P xs \<Longrightarrow> (\<And>x. P x \<Longrightarrow> Q x) \<Longrightarrow> list_all Q xs"
  by (auto simp: list_all_iff)

lemma message_lines:
  assumes "is_valid_http_method meth" "list_all isgraph uri" "list_all isgraph version" "\<forall>h \<in> set hs. header_ok h"
  shows "\<forall>l \<in> set (request_line meth uri version # map header_line hs). l \<noteq> [] \<and> list_all text_char l"
proof -
  have sp: "text_char CHR '' ''" "text_char CHR '':''" "list_all text_char '' HTTP/''"
    by (simp_all add: text_char_def isprint_def ordc_def)
  have g: "list_all text_char w" if "list_all isgraph w" for w
    using that isgraph_text by (rule list_all_mono')
  have n: "list_all text_char w" if "list_all name_char w" for w
    using g [OF list_all_mono' [OF that name_char_graph]] .
  have "list_all text_char (request_line meth uri version)"
    using sp g [OF assms(2)] g [OF assms(3)] g [OF valid_method_graph(2) [OF assms(1)]] by (simp add: request_line_def)
  moreover have "header_line h \<noteq> [] \<and> list_all text_char (header_line h)" if "h \<in> set hs" for h
    using sp n [of "fst h"] assms(4) that by (auto simp: header_line_def header_ok_def)
  ultimately show ?thesis by (auto simp: request_line_def)
qed

lemma parse_header_part:
  assumes meth: "is_valid_http_method meth"
    and uri: "uri \<noteq> []" "list_all isgraph uri" and version: "list_all isgraph version"
    and hs: "\<forall>h \<in> set hs. header_ok h" "length hs \<le> MG_MAX_HEADERS"
  shows "\<exists>mem' ri'. parse_request_header
      (d @ request_line meth uri version @ CRLF @ concat (map (\<lambda>h. header_line h @ CRLF) hs) @ CR # NUL # body)
      (length d) ok ri = Some (mem', ri', ok)
    \<and> map_option (str_at mem') (request_method ri') = Some meth \<and> map_option (str_at mem') (request_uri ri') = Some uri
    \<and> map_option (str_at mem') (http_version ri') = Some version \<and> num_headers ri' = int (length hs)
    \<and> map (\<lambda>(n, v). (str_at mem' n, str_at mem' v)) (http_headers ri') = hs"
proof -
  obtain u uri' where u: "uri = u # uri'" "isgraph u" using uri by (cases uri) auto
  obtain m meth' where m: "meth = m # meth'" "isgraph m" using valid_method_graph [OF meth] by (cases meth) auto
  define H where "H = concat (map (\<lambda>h. header_line h @ CRLF) hs) @ CR # NUL # body"
  define p2 where "p2 = length d + length meth + 1"
  define p3 where "p3 = p2 + length uri + 1"
  define mem1 where "mem1 = d @ request_line meth uri version @ CRLF @ H"
  define mem2 where "mem2 = d @ meth @ NUL # uri @ '' HTTP/'' @ version @ CRLF @ H"
  define mem3 where "mem3 = d @ meth @ NUL # uri @ NUL # ''HTTP/'' @ version @ CRLF @ H"
  have c0: "rd mem1 (length d) = Some m"
    using rd_at [of d m] by (simp add: mem1_def request_line_def m(1))
  have s1: "skip_to_end_of_word_and_terminate mem1 (length d) False = Some (mem2, p2, 1)"
    using skip_word [of meth "'' ''" u False d "uri' @ '' HTTP/'' @ version @ CRLF @ H"]
      valid_method_graph [OF meth] graph_not [OF u(2)] u
    by (simp add: mem1_def mem2_def p2_def request_line_def)
  have gH: "isgraph CHR ''H''" "\<not> isspace CHR ''H''" "list_all isgraph ''HTTP/''" by (simp_all add: ctype_defs ordc_def)
  have s2: "skip_to_end_of_word_and_terminate mem2 p2 False = Some (mem3, p3, 1)"
    using skip_word [of uri "'' ''" "CHR ''H''" False "d @ meth @ [NUL]" "''TTP/'' @ version @ CRLF @ H"] uri(2) gH
    by (simp add: mem2_def mem3_def p2_def p3_def add.assoc)
  define d4 where "d4 = d @ meth @ NUL # uri @ NUL # ''HTTP/'' @ version @ [NUL, NUL]"
  define mem5 where "mem5 = d4 @ concat (map header_done hs) @ (if hs = [] then NUL else CR) # NUL # body"
  have "\<exists>mem4 p4 p5. skip_to_end_of_word_and_terminate mem3 p3 True = Some (mem4, p4, 1)
      \<and> take (length d4) mem4 = d4
      \<and> parse_http_headers mem4 p4 = Some (mem5, p5, header_positions (length d4) hs, int (length hs))"
  proof (cases hs)
    case Nil
    have "skip_to_end_of_word_and_terminate mem3 p3 True = Some (mem5, length d4 + 1, 1)"
      using skip_word [of "''HTTP/'' @ version" "CRLF @ [CR]" NUL True "d @ meth @ NUL # uri @ [NUL]" body] version gH
      by (simp add: mem3_def H_def Nil p2_def p3_def mem5_def d4_def isspace_def ordc_def numeral_3_eq_3 add.assoc)
    moreover have "scan (\<lambda>c. c \<noteq> CHR '':'' \<and> 33 \<le> schar c \<and> schar c \<le> 126) mem5 (length d4 + 1) = Some (length d4 + 1)"
      using scan_append [of _ "[]" NUL "d4 @ [NUL]" body] by (simp add: mem5_def Nil)
    then have "parse_http_headers mem5 (length d4 + 1) = Some (mem5, length d4 + 1, [], 0)"
      by (simp add: parse_http_headers_def MG_MAX_HEADERS_def eval_nat_numeral)
    ultimately show ?thesis by (auto simp: Nil mem5_def)
  next
    case (Cons h hs')
    then obtain y n' where y: "fst h = y # n'" "name_char y"
      using hs(1) by (cases "fst h") (auto simp: header_ok_def)
    define mem4 where "mem4 = d4 @ H"
    have H: "H = y # n' @ '': '' @ snd h @ CRLF @ concat (map (\<lambda>h. header_line h @ CRLF) hs') @ CR # NUL # body"
      by (simp add: H_def Cons header_line_def y(1))
    have "skip_to_end_of_word_and_terminate mem3 p3 True = Some (mem4, length d4, 1)"
      using skip_word [of "''HTTP/'' @ version" CRLF y True "d @ meth @ NUL # uri @ [NUL]"
          "n' @ '': '' @ snd h @ CRLF @ concat (map (\<lambda>h. header_line h @ CRLF) hs') @ CR # NUL # body"]
        version gH graph_not [OF name_char_graph [OF y(2)]]
      by (simp add: mem3_def H p2_def p3_def mem4_def d4_def isspace_def ordc_def numeral_2_eq_2 add.assoc)
    moreover have "parse_http_headers mem4 (length d4)
      = Some (mem5, length d4 + length (concat (map header_done hs)), header_positions (length d4) hs, int (length hs))"
      using headers_loop [of hs MG_MAX_HEADERS d4 body "[]"] hs Cons
      by (simp add: parse_http_headers_def mem4_def H_def mem5_def)
    ultimately show ?thesis by (auto simp: mem4_def)
  qed
  then obtain mem4 p4 p5 where s3: "skip_to_end_of_word_and_terminate mem3 p3 True = Some (mem4, p4, 1)"
    "take (length d4) mem4 = d4"
    and s4: "parse_http_headers mem4 p4 = Some (mem5, p5, header_positions (length d4) hs, int (length hs))" by blast
  have strs: "str_at mem (length d) = meth \<and> str_at mem p2 = uri \<and> str_at mem p3 = ''HTTP/'' @ version
      \<and> str_at mem (p3 + 5) = version" if "take (length d4) mem = d4" for mem
  proof -
    define q where "q = drop (length d4) mem"
    have "mem = d4 @ q" using that unfolding q_def by (metis append_take_drop_id)
    then have mem: "mem = d @ meth @ NUL # uri @ NUL # ''HTTP/'' @ version @ [NUL, NUL] @ q" by (simp add: d4_def)
    have c: "cstring meth" "cstring uri" "cstring version" "cstring (''HTTP/'' @ version)"
      using valid_method_graph [OF meth] uri version by (auto intro: cstring_graph)
    have p: "p2 = length (d @ meth @ [NUL])" "p3 = length (d @ meth @ NUL # uri @ [NUL])"
      "p3 + 5 = length (d @ meth @ NUL # uri @ NUL # ''HTTP/'')" by (simp_all add: p2_def p3_def)
    have "str_at mem (length d) = meth" unfolding mem using str_at_append [OF c(1), of d] by simp
    moreover have "str_at mem p2 = uri"
      unfolding mem p(1) using str_at_append [OF c(2), of "d @ meth @ [NUL]"] by simp
    moreover have "str_at mem p3 = ''HTTP/'' @ version"
      unfolding mem p(2) using str_at_append [OF c(4), of "d @ meth @ NUL # uri @ [NUL]"] by simp
    moreover have "str_at mem (p3 + 5) = version"
      unfolding mem p(3) using str_at_append [OF c(3), of "d @ meth @ NUL # uri @ NUL # ''HTTP/''"] by simp
    ultimately show ?thesis by blast
  qed
  have t5: "take (length d4) mem5 = d4" by (simp add: mem5_def)
  have hd: "map (\<lambda>(n, v). (str_at mem5 n, str_at mem5 v)) (header_positions (length d4) hs) = hs"
    unfolding mem5_def by (rule header_positions_strings [OF hs(1)])
  have run: "parse_request_header mem1 (length d) ok ri
    = Some (mem5, ri\<lparr>request_method := Some (length d), request_uri := Some p2, http_version := Some (p3 + 5),
        num_headers := int (length hs), http_headers := header_positions (length d4) hs\<rparr>, ok)"
    using graph_not [OF m(2)] strs [OF s3(2)] meth
    by (simp add: parse_request_header_def c0 s1 s2 s3(1) s4 Let_def del: rd_Some)
  show ?thesis
    using strs [OF t5] hd unfolding H_def [symmetric] mem1_def [symmetric] run by simp
qed

lemma parse_request_spec:
  assumes "is_valid_http_method meth" "uri \<noteq> []" "list_all isgraph uri" "list_all isgraph version"
    and "\<forall>h \<in> set hs. header_ok h" "length hs \<le> MG_MAX_HEADERS" "list_all isspace ws"
    and "req = render_request meth uri version hs" "length (ws @ req) \<le> len" "len \<le> length (ws @ req @ body)"
  shows "\<exists>mem' ri'. parse_http_request (ws @ req @ body) len ri = Some (mem', ri', int (length (ws @ req)))
    \<and> map_option (str_at mem') (request_method ri') = Some meth \<and> map_option (str_at mem') (request_uri ri') = Some uri
    \<and> map_option (str_at mem') (http_version ri') = Some version \<and> num_headers ri' = int (length hs)
    \<and> map (\<lambda>(n, v). (str_at mem' n, str_at mem' v)) (http_headers ri') = hs"
proof -
  define X where "X = concat (map (\<lambda>l. l @ CRLF) (request_line meth uri version # map header_line hs))"
  have req: "req = X @ CRLF" by (simp add: assms(8) render_request_def X_def)
  obtain c meth' where m: "meth = c # meth'" "isgraph c" using valid_method_graph [OF assms(1)] by (cases meth) auto
  then have c: "\<not> isspace c" "\<not> iscntrl c" using graph_not by blast+
  have Xc: "X = c # tl X" by (simp add: X_def request_line_def m(1))
  define body' where "body' = take (len - length (ws @ req)) body"
  define n where "n = length (req @ body')"
  have n: "len = length ws + n" using assms(9,10) by (simp add: n_def body'_def)
  obtain n' where n': "n = Suc n'" by (cases n) (auto simp: n_def req)
  have skip: "skip_init (ws @ req @ body) 0 len = Some (length ws, n)"
    using skip_init_append [OF assms(7) c(1), of "[]" "tl X @ CRLF @ body" n'] Xc
    by (metis append_Cons append_Nil append_assoc length_0_conv list.size(3) add_0 n n' req)
  have sl: "slice (ws @ req @ body) (length ws) n = req @ body'"
    using assms(9,10) by (simp add: slice_def n_def body'_def)
  define k where "k = length req"
  have hl: "get_http_header_len (req @ body') = int k"
    using header_len_lines [of "request_line meth uri version # map header_line hs" "[]" body']
      message_lines [OF assms(1,3,4,5)] by (simp add: get_http_header_len_def req X_def k_def)
  have rd: "rd (ws @ req @ body) (length ws) = Some c"
    using rd_at [of ws c "tl X @ CRLF @ body"] Xc unfolding req by (metis append_Cons append_assoc)
  have w: "wr (ws @ req @ body) (length ws + nat (int k) - 1) NUL = Some (ws @ X @ CR # NUL # body)"
  proof -
    have "length ws + nat (int k) - 1 = length (ws @ X @ [CR])" unfolding nat_int by (simp add: k_def req)
    then show ?thesis using wr_at [of "ws @ X @ [CR]" LF body NUL] by (simp add: req del: wr_Some)
  qed
  have X: "ws @ X @ CR # NUL # body = ws @ request_line meth uri version @ CRLF
      @ concat (map (\<lambda>h. header_line h @ CRLF) hs) @ CR # NUL # body"
    by (simp add: X_def o_def)
  define ri1 where "ri1 = ri\<lparr>remote_user := None, request_method := None, request_uri := None, http_version := None,
      num_headers := 0\<rparr>"
  have k: "0 < k" "n \<noteq> 0" using n' by (simp_all add: k_def req)
  have e: "int k + int (length ws) = int (length (ws @ req))" by (simp add: k_def)
  have "parse_http_request (ws @ req @ body) len ri
    = parse_request_header (ws @ X @ CR # NUL # body) (length ws) (int (length (ws @ req))) ri1"
    unfolding parse_http_request_def Let_def skip Option.bind_lunit prod.case rd sl hl ri1_def [symmetric] w e
    using c(2) k by simp
  then show ?thesis
    unfolding X using parse_header_part [OF assms(1-6), of ws body "int (length (ws @ req))" ri1] by presburger
qed

text \<open>C11: parsing inverts rendering. A request that is received completely (known method, graphic
  target and version, at most 64 header fields with valid names and printable values, possibly
  behind white space and in front of any further bytes) is accepted; the result is the length of
  white space and header, and the parsed method, target, version and header fields are those
  that were sent, in their order.\<close>

theorem parse_http_request_roundtrip:
  assumes "is_valid_http_method meth" "uri \<noteq> []" "list_all isgraph uri" "list_all isgraph version"
    and "\<forall>h \<in> set hs. header_ok h" "length hs \<le> MG_MAX_HEADERS" "list_all isspace ws"
    and "req = render_request meth uri version hs" "length (ws @ req) \<le> len" "len \<le> length (ws @ req @ body)"
  shows "\<exists>mem' ri'. parse_http_request (ws @ req @ body) len ri = Some (mem', ri', int (length (ws @ req)))
    \<and> map_option (str_at mem') (request_method ri') = Some meth \<and> map_option (str_at mem') (request_uri ri') = Some uri
    \<and> map_option (str_at mem') (http_version ri') = Some version \<and> num_headers ri' = int (length hs)
    \<and> map (\<lambda>(n, v). (str_at mem' n, str_at mem' v)) (http_headers ri') = hs"
  by (rule parse_request_spec [OF assms])

theorem parse_http_request_roundtrip_witness:
  "\<exists>mem' ri'. parse_http_request (''  '' @ render_request ''GET'' ''/x'' ''1.1'' [(''Host'', ''a b''), (''X'', [])] @ ''body'')
        (length (''  '' @ render_request ''GET'' ''/x'' ''1.1'' [(''Host'', ''a b''), (''X'', [])])) undefined
      = Some (mem', ri', int (length (''  '' @ render_request ''GET'' ''/x'' ''1.1'' [(''Host'', ''a b''), (''X'', [])])))
    \<and> map_option (str_at mem') (request_method ri') = Some ''GET'' \<and> map_option (str_at mem') (request_uri ri') = Some ''/x''
    \<and> map_option (str_at mem') (http_version ri') = Some ''1.1'' \<and> num_headers ri' = int (length [(''Host'', ''a b''), (''X'', [])])
    \<and> map (\<lambda>(n, v). (str_at mem' n, str_at mem' v)) (http_headers ri') = [(''Host'', ''a b''), (''X'', [])]"
  by (rule parse_http_request_roundtrip [OF _ _ _ _ _ _ _ refl])
    (simp_all add: is_valid_http_method_def get_http_method_info_def http_methods_def MG_MAX_HEADERS_def header_ok_def
      name_char_def text_char_def ctype_defs schar_def ordc_def)

section \<open>The parser only clears bytes\<close>

text \<open>The bytes of the buffer that have not been cleared.\<close>

definition weight :: "char list \<Rightarrow> nat" where
  "weight mem = length (filter (\<lambda>c. c \<noteq> NUL) mem)"

lemma weight_append [simp]: "weight (a @ b) = weight a + weight b"
  by (simp add: weight_def)

lemma weight_wr:
  assumes "wr mem p NUL = Some mem'"
  shows "weight mem' \<le> weight mem" "mem ! p \<noteq> NUL \<Longrightarrow> weight mem' < weight mem"
proof -
  have p: "p < length mem" "mem' = take p mem @ NUL # drop (Suc p) mem"
    using assms by (auto simp: wr_def upd_conv_take_nth_drop split: if_splits)
  have "weight mem = weight (take p mem @ mem ! p # drop (Suc p) mem)" using id_take_nth_drop [OF p(1)] by simp
  then show "weight mem' \<le> weight mem" "mem ! p \<noteq> NUL \<Longrightarrow> weight mem' < weight mem" by (auto simp: p(2) weight_def)
qed

lemma weight_update: "weight (mem[p := NUL]) \<le> weight mem"
  by (cases "p < length mem") (auto intro: weight_wr(1) [of mem p] simp: wr_def list_update_beyond)

lemma weight_zero_spaces: "zero_spaces mem p = Some (mem', p') \<Longrightarrow> weight mem' \<le> weight (mem[p := NUL])"
proof (induction mem p rule: zero_spaces.induct)
  case (1 mem p)
  show ?case
    using "1.prems" "1.IH" weight_update [of "mem[p := NUL]" "p + 1"]
    by (subst (asm) zero_spaces.simps) (fastforce simp: Let_def split: if_splits)
qed

lemma weight_zero_blanks: "zero_blanks mem p = Some (mem', p') \<Longrightarrow> weight mem' \<le> weight mem"
proof (induction mem p rule: zero_blanks.induct)
  case (1 mem p)
  show ?case
    using "1.prems" "1.IH" weight_update [of mem p]
    by (subst (asm) zero_blanks.simps) (fastforce split: if_splits)
qed

lemma weight_skip:
  assumes "skip_to_end_of_word_and_terminate mem p eol = Some (mem', p', r)"
  shows "weight mem' \<le> weight mem" "0 < r \<Longrightarrow> weight mem' < weight mem"
proof -
  obtain q where q: "scan isgraph mem p = Some q" using assms by (auto simp: skip_to_end_of_word_and_terminate_def split: bind_splits)
  obtain c where c: "rd mem q = Some c" using assms q by (auto simp: skip_to_end_of_word_and_terminate_def split: bind_splits)
  consider "mem' = mem" "r = -1" | m where "zero_spaces mem q = Some (mem', m)" "c \<noteq> NUL"
    using assms q c by (auto simp: skip_to_end_of_word_and_terminate_def split: bind_splits if_splits)
  then show "weight mem' \<le> weight mem" "0 < r \<Longrightarrow> weight mem' < weight mem"
    using weight_zero_spaces [of mem q mem'] weight_update [of mem q] weight_wr [of mem q "mem[q := NUL]"] c
    by (cases; fastforce simp: rd_def wr_def split: if_splits)+
qed

lemma weight_headers: "parse_http_headers_loop k mem buf hdr = Some (mem', buf', hdr', n) \<Longrightarrow> weight mem' \<le> weight mem"
proof (induction k arbitrary: mem buf hdr)
  case (Suc k)
  obtain dp where dp: "scan (\<lambda>c. c \<noteq> CHR '':'' \<and> 33 \<le> schar c \<and> schar c \<le> 126) mem buf = Some dp"
    using Suc.prems by (auto split: bind_splits)
  show ?case
  proof (cases "dp = buf")
    case True
    then show ?thesis using Suc.prems dp by simp
  next
    case False
    obtain m1 d1 where b: "zero_blanks mem dp = Some (m1, d1)" using Suc.prems dp False by (auto split: bind_splits)
    obtain c where c: "rd m1 d1 = Some c" using Suc.prems dp False b by (auto split: bind_splits)
    have w1: "weight m1 \<le> weight mem" using weight_zero_blanks [OF b] .
    show ?thesis
    proof (cases "c = CHR '':''")
      case False
      then show ?thesis using Suc.prems dp \<open>dp \<noteq> buf\<close> b c w1 by simp
    next
      case True
      obtain m2 v e where m2: "wr m1 d1 NUL = Some m2" "scan (\<lambda>c. c = CHR '' '' \<or> c = TAB) m2 (d1 + 1) = Some v"
        "scan (\<lambda>c. c \<noteq> NUL \<and> c \<noteq> CR \<and> c \<noteq> LF) m2 v = Some e"
        using Suc.prems dp \<open>dp \<noteq> buf\<close> b c True by (auto split: bind_splits)
      obtain x where x: "rd m2 e = Some x" using Suc.prems dp \<open>dp \<noteq> buf\<close> b c True m2 by (auto simp del: wr_Some split: bind_splits)
      define tail where "tail = (if x = CR then do { mem \<leftarrow> wr m2 e NUL; d \<leftarrow> rd mem (e + 1); Some (mem, e + 1, d = LF) } else Some (m2, e, True))"
      note run = Suc.prems [unfolded parse_http_headers_loop.simps dp Option.bind_lunit if_not_P [OF \<open>dp \<noteq> buf\<close>] b prod.case c m2 x Let_def,
        folded tail_def]
      obtain m3 d3 ok where m3: "tail = Some (m3, d3, ok)" using run True by (auto split: bind_splits)
      have w3: "weight m3 \<le> weight mem"
        using m3 weight_wr(1) [OF m2(1)] weight_wr(1) [of m2 e] w1 by (auto simp: tail_def simp del: wr_Some split: if_splits bind_splits) 
      show ?thesis
      proof (cases ok)
        case False
        then show ?thesis using run True m3 w3 by simp
      next
        case okay: True
        obtain y where y: "rd m3 d3 = Some y" using run True m3 okay by (auto split: bind_splits)
        show ?thesis
        proof (cases "y = NUL")
          case True
          then show ?thesis using run \<open>c = CHR '':''\<close> m3 okay y w3 by simp
        next
          case False
          obtain m4 z where m4: "wr m3 d3 NUL = Some m4" "rd m4 (d3 + 1) = Some z"
            using run True m3 okay y False by (auto simp del: wr_Some split: bind_splits)
          note last = run [unfolded m3 Option.bind_lunit prod.case y m4]
          have w4: "weight m4 \<le> weight mem" using weight_wr(1) [OF m4(1)] w3 by simp
          show ?thesis
          proof (cases "z = CR \<or> z = LF")
            case True
            then show ?thesis using last \<open>c = CHR '':''\<close> okay False w4 by auto
          next
            case z: False
            then have "parse_http_headers_loop k m4 (d3 + 1) (hdr @ [(buf, v)]) = Some (mem', buf', hdr', n)"
              using last True okay False by auto
            from Suc.IH [OF this] w4 show ?thesis by simp
          qed
        qed
      qed
    qed
  qed
qed simp

lemma weight_parse:
  assumes "parse_http_request mem len ri = Some (mem', ri', r)" "0 < r"
  shows "weight mem' < weight mem"
proof -
  have header: "weight m' < weight m" if "parse_request_header m buf ok ri = Some (m', ri', r)" for m m' buf ok ri
  proof -
    have "\<exists>m1 p1 r1. skip_to_end_of_word_and_terminate m buf False = Some (m1, p1, r1) \<and> 0 < r1 \<and> weight m' \<le> weight m1"
      using that assms(2) weight_skip(1) weight_headers 
      by (auto simp: parse_request_header_def parse_http_headers_def Let_def split: bind_splits if_splits) (meson order_trans)+
    then show ?thesis using weight_skip(2) by (meson order_le_less_trans)
  qed
  show ?thesis
    using assms header weight_wr(1)
    by (auto simp: parse_http_request_def Let_def simp del: wr_Some split: bind_splits if_splits) (meson order_less_le_trans)+
qed

end
