(* ===== verification/HttpResponseParse.thy ===== *)
theory HttpResponseParse
  imports HttpParse
begin

text \<open>
  The parser of a response header, used by the client side of the server's library. It
  shares the search for the end of the header, the splitting into words and the header
  fields with the parser of requests, and works in place as well.
\<close>

section \<open>The code\<close>

record mg_response_info =
  rsp_status_code :: int
  rsp_status_text :: "nat option"
  rsp_http_version :: "nat option"
  rsp_num_headers :: int
  rsp_http_headers :: "header list"

text \<open>The routine from the first character of the status line on, with the header terminated;
  the return value is \<open>ok\<close> unless it is \<open>-1\<close>.\<close>

definition parse_response_header :: "char list \<Rightarrow> nat \<Rightarrow> int \<Rightarrow> mg_response_info \<Rightarrow> (char list \<times> mg_response_info \<times> int) option" where
  "parse_response_header mem buf ok ri =
     do {
       c \<leftarrow> rd mem buf;
       if c = NUL \<or> c = CR \<or> c = LF then Some (mem, ri, -1)
       else if take 5 (str_at mem buf) \<noteq> ''HTTP/'' then Some (mem, ri, -1)
       else do {
         let buf = buf + 5;
         c \<leftarrow> rd mem buf;
         if \<not> isgraph c then Some (mem, ri, -1)
         else do {
           let ri = ri\<lparr>rsp_http_version := Some buf\<rparr>;
           (mem, buf, r) \<leftarrow> skip_to_end_of_word_and_terminate mem buf False;
           if r \<le> 0 then Some (mem, ri, -1)
           else do {
             let tmp = buf;
             (mem, buf, r) \<leftarrow> skip_to_end_of_word_and_terminate mem buf False;
             if r \<le> 0 then Some (mem, ri, -1)
             else let s = str_at mem tmp; (l, tmp2) = strtol10 s
             in if l < 100 \<or> 1000 \<le> l \<or> length s - length tmp2 \<noteq> 3 \<or> deref tmp2 \<noteq> NUL then Some (mem, ri, -1)
             else do {
               let ri = ri\<lparr>rsp_status_code := l, rsp_status_text := Some buf\<rparr>;
               buf \<leftarrow> scan isprint mem buf;
               c \<leftarrow> rd mem buf;
               if c \<noteq> CR \<and> c \<noteq> LF then Some (mem, ri, -1)
               else do {
                 (mem, buf) \<leftarrow> zero_spaces mem buf;
                 (mem, buf, hdr, n) \<leftarrow> parse_http_headers mem buf;
                 let ri = ri\<lparr>rsp_num_headers := n, rsp_http_headers := hdr\<rparr>;
                 if n < 0 then Some (mem, ri, -1) else Some (mem, ri, ok)
               }
             }
           }
         }
       }
     }"

definition parse_http_response :: "char list \<Rightarrow> nat \<Rightarrow> mg_response_info \<Rightarrow> (char list \<times> mg_response_info \<times> int) option" where
  "parse_http_response mem len ri =
     (let ri = ri\<lparr>rsp_http_version := None, rsp_status_text := None, rsp_num_headers := 0, rsp_status_code := 0\<rparr>
      in do {
        (buf, len) \<leftarrow> skip_init mem 0 len;
        let init_skip = buf;
        if len = 0 then Some (mem, ri, 0)
        else do {
          c \<leftarrow> rd mem buf;
          if iscntrl c then Some (mem, ri, -1)
          else let response_length = get_http_header_len (slice mem buf len)
          in if response_length \<le> 0 then Some (mem, ri, response_length)
          else do {
            mem \<leftarrow> wr mem (buf + nat response_length - 1) NUL;
            parse_response_header mem buf (response_length + int init_skip) ri
          }
        }
      })"

section \<open>Memory safety\<close>

lemma guarded_prefix:
  assumes "guarded E T L mem buf" "take 5 (str_at mem buf) = ''HTTP/''"
  shows "guarded E T L mem (buf + 5)"
proof -
  have g: "buf \<le> E" "E < length mem" "mem ! E = NUL" using assms(1) by (auto simp: guarded_def)
  have "E \<ge> buf + 5"
  proof (rule ccontr)
    assume lt: "\<not> buf + 5 \<le> E"
    define k where "k = E - buf"
    have k: "k < 5" "drop buf mem ! k = NUL" "k < length (drop buf mem)"
      using g lt by (auto simp: k_def)
    have "NUL \<notin> set (str_at mem buf)" unfolding str_at_def by (auto dest: set_takeWhileD)
    moreover have l: "5 \<le> length (str_at mem buf)"
      using arg_cong [OF assms(2), of length] by simp
    moreover have "str_at mem buf ! k = NUL"
      using k l takeWhile_nth [of k "\<lambda>c. c \<noteq> NUL" "drop buf mem"] by (simp add: str_at_def)
    ultimately show False using k(1) by (metis less_le_trans nth_mem)
  qed
  then show ?thesis using assms(1) by (simp add: guarded_def)
qed

lemma guarded_response:
  assumes g: "guarded e T L mem buf"
  shows "\<exists>mem' ri' p r'. parse_response_header mem buf ok ri = Some (mem', ri', r') \<and> guarded e T L mem' p
    \<and> (r' = -1 \<or> r' = ok \<and> 100 \<le> rsp_status_code ri' \<and> rsp_status_code ri' < 1000)"
proof (cases "mem ! buf = NUL \<or> mem ! buf = CR \<or> mem ! buf = LF \<or> take 5 (str_at mem buf) \<noteq> ''HTTP/''")
  case True
  then show ?thesis
    unfolding parse_response_header_def guarded_rd [OF g] Option.bind_lunit using g by auto
next
  case False
  then have g5: "guarded e T L mem (buf + 5)" using guarded_prefix [OF g] by blast
  obtain mem2 p2 r2 where s2: "skip_to_end_of_word_and_terminate mem (buf + 5) False = Some (mem2, p2, r2)"
    "guarded e T L mem2 p2" using guarded_skip [OF g5] by blast
  obtain mem3 p3 r3 where s3: "skip_to_end_of_word_and_terminate mem2 p2 False = Some (mem3, p3, r3)"
    "guarded e T L mem3 p3" using guarded_skip [OF s2(2)] by blast
  obtain l rest where n: "strtol10 (str_at mem3 p2) = (l, rest)" by fastforce
  obtain k where k: "scan isprint mem3 p3 = Some k" "guarded e T L mem3 k"
    using guarded_scan [OF s3(2), of isprint] by auto
  note head = parse_response_header_def guarded_rd [OF g] guarded_rd [OF g5] Option.bind_lunit Let_def s2(1) s3(1) n k(1)
    guarded_rd [OF k(2)] prod.case
  show ?thesis
  proof (cases "mem3 ! k = CR \<or> mem3 ! k = LF")
    case eol: False
    then show ?thesis
      unfolding head using g g5 s2(2) s3(2) k(2) by (simp split: if_split) blast
  next
    case True
    then have "mem3 ! k \<noteq> NUL" by auto
    then obtain mem4 p4 where z: "zero_spaces mem3 k = Some (mem4, p4)" "guarded e T L mem4 p4"
      using guarded_zero_spaces [OF k(2)] by blast
    obtain mem5 p5 hdr c where s5: "parse_http_headers mem4 p4 = Some (mem5, p5, hdr, c)"
      "guarded e T L mem5 p5" using guarded_headers [OF z(2)] unfolding parse_http_headers_def by blast
    have status: "100 \<le> rsp_status_code (ri\<lparr>rsp_http_version := a, rsp_status_code := l, rsp_status_text := b,
        rsp_num_headers := c, rsp_http_headers := hdr\<rparr>)
      \<and> rsp_status_code (ri\<lparr>rsp_http_version := a, rsp_status_code := l, rsp_status_text := b,
        rsp_num_headers := c, rsp_http_headers := hdr\<rparr>) < 1000" if "\<not> l < 100" "\<not> 1000 \<le> l" for a b
      using that by simp
    show ?thesis
      unfolding head z(1) s5(1) using g g5 s2(2) s3(2) k(2) z(2) s5(2) status
      by (simp split: if_split) blast
  qed
qed

text \<open>C26: \<open>parse_http_response\<close> is memory-safe on every input and returns; when the result is
  positive it is the length of the header, at most \<open>len\<close>, the status code is one of three
  digits (100 to 999), and the body behind the header is unchanged.\<close>

theorem parse_http_response_safe:
  assumes "len \<le> length mem"
  shows "\<exists>mem' ri' r. parse_http_response mem len ri = Some (mem', ri', r) \<and> length mem' = length mem
    \<and> r \<le> int len \<and> drop len mem' = drop len mem
    \<and> (r \<le> 0 \<or> 100 \<le> rsp_status_code ri' \<and> rsp_status_code ri' < 1000 \<and> drop (nat r) mem' = drop (nat r) mem)"
proof -
  obtain buf n where s: "skip_init mem 0 len = Some (buf, n)" "buf + n = len" "n \<noteq> 0 \<longrightarrow> \<not> isspace (mem ! buf)"
    using skip_init_spec [of 0 len mem] assms by auto
  define r where "r = get_http_header_len (slice mem buf n)"
  define ri1 where "ri1 = ri\<lparr>rsp_http_version := None, rsp_status_text := None, rsp_num_headers := 0, rsp_status_code := 0\<rparr>"
  show ?thesis
  proof (cases "n = 0 \<or> iscntrl (mem ! buf) \<or> r \<le> 0")
    case True
    have "r \<le> int len" if "r \<le> 0" using that by simp
    with True s assms show ?thesis
      by (auto simp: parse_http_response_def Let_def rd_lt r_def [symmetric])
  next
    case False
    have r: "2 \<le> r" "r \<le> int n"
      using get_http_header_len_bounds [of "slice mem buf n" 0 r] False s(2) assms
      by (auto simp: r_def get_http_header_len_def)
    note m = guarded_message [OF s(2) assms r]
    have c0: "rd mem buf = Some (mem ! buf)" using s(2) False assms by (simp add: rd_lt)
    have bound: "r + int buf \<le> int len" using r s(2) by simp
    have n: "n \<noteq> 0" "\<not> iscntrl (mem ! buf)" "\<not> r \<le> 0" using False by auto
    note run = s(1) c0 n r_def [symmetric] m(1) [unfolded One_nat_def]
    have "parse_http_response mem len ri
      = parse_response_header (mem[buf + nat r - 1 := NUL]) buf (r + int buf) ri1"
      by (simp add: parse_http_response_def Let_def run ri1_def del: rd_Some wr_Some)
    with guarded_response [OF m(2), of "r + int buf" ri1]
    obtain mem' ri' p r' where res: "parse_http_response mem len ri = Some (mem', ri', r')"
      "guarded (buf + nat r - 1) (drop (Suc (buf + nat r - 1)) mem) (length mem) mem' p"
      "r' = -1 \<or> r' = r + int buf \<and> 100 \<le> rsp_status_code ri' \<and> rsp_status_code ri' < 1000" by metis
    with m(3) [OF res(2)] bound show ?thesis by auto
  qed
qed

theorem parse_http_response_safe_witness:
  "\<exists>mem' ri' r. parse_http_response ''HTTP/1.1 200 OK'' 9 undefined = Some (mem', ri', r) \<and> length mem' = length ''HTTP/1.1 200 OK''
    \<and> r \<le> int 9 \<and> drop 9 mem' = drop 9 ''HTTP/1.1 200 OK''
    \<and> (r \<le> 0 \<or> 100 \<le> rsp_status_code ri' \<and> rsp_status_code ri' < 1000 \<and> drop (nat r) mem' = drop (nat r) ''HTTP/1.1 200 OK'')"
  by (rule parse_http_response_safe) simp


section \<open>Parsing what a server sends\<close>

definition status_line :: "string \<Rightarrow> nat \<Rightarrow> string \<Rightarrow> string" where
  "status_line version code reason = ''HTTP/'' @ version @ '' '' @ decimal code @ '' '' @ reason"

definition render_response :: "string \<Rightarrow> nat \<Rightarrow> string \<Rightarrow> (string \<times> string) list \<Rightarrow> string" where
  "render_response version code reason hs =
     concat (map (\<lambda>l. l @ CRLF) (status_line version code reason # map header_line hs)) @ CRLF"

definition reason_ok :: "string \<Rightarrow> bool" where
  "reason_ok reason \<longleftrightarrow> reason \<noteq> [] \<and> isgraph (hd reason) \<and> list_all isprint reason"

lemma decimal_graph: "list_all isgraph (decimal n)" "decimal n \<noteq> []"
  using decimal_digits [of n] isdigit_facts by (auto simp: list_all_iff)

lemma header_lines_text:
  assumes "\<forall>h \<in> set hs. header_ok h"
  shows "\<forall>l \<in> set (map header_line hs). l \<noteq> [] \<and> list_all text_char l"
proof -
  have sp: "text_char CHR '' ''" "text_char CHR '':''" by (simp_all add: text_char_def isprint_def ordc_def)
  have n: "list_all text_char w" if "list_all name_char w" for w
    using list_all_mono' [OF list_all_mono' [OF that name_char_graph] isgraph_text] .
  show ?thesis using sp n assms by (auto simp: header_line_def header_ok_def)
qed

lemma status_line_text:
  assumes "list_all isgraph version" "list_all isprint reason"
  shows "status_line version code reason \<noteq> [] \<and> list_all text_char (status_line version code reason)"
proof -
  have "list_all text_char ''HTTP/''" "text_char CHR '' ''" by (simp_all add: text_char_def isprint_def ordc_def)
  moreover have "list_all text_char version" using assms(1) isgraph_text by (rule list_all_mono')
  moreover have "list_all text_char (decimal code)" using decimal_graph(1) isgraph_text by (rule list_all_mono')
  moreover have "list_all text_char reason" using assms(2) by (rule list_all_mono') (simp add: text_char_def)
  ultimately show ?thesis by (simp add: status_line_def)
qed

text \<open>The headers after the first line has been terminated: \<open>zero_spaces\<close> from the end of the
  line, then \<open>parse_http_headers\<close>.\<close>

lemma headers_after_line:
  assumes "\<forall>h \<in> set hs. header_ok h" "length hs \<le> MG_MAX_HEADERS"
  shows "\<exists>mem p q. zero_spaces (d @ CRLF @ concat (map (\<lambda>h. header_line h @ CRLF) hs) @ CR # NUL # body) (length d) = Some (mem, p)
    \<and> parse_http_headers mem p = Some (d @ [NUL, NUL] @ concat (map header_done hs) @ (if hs = [] then NUL else CR) # NUL # body,
        q, header_positions (length d + 2) hs, int (length hs))"
proof (cases hs)
  case Nil
  have sp: "list_all isspace [LF, CR]" "\<not> isspace NUL" by (simp_all add: ctype_defs ordc_def)
  have z: "zero_spaces (d @ [CR, LF, CR] @ NUL # body) (length d) = Some (d @ [NUL, NUL, NUL] @ NUL # body, length d + 3)"
    using zero_spaces_append [of "[CR, LF, CR]" NUL d body] sp by (simp add: numeral_3_eq_3)
  have "scan (\<lambda>c. c \<noteq> CHR '':'' \<and> 33 \<le> schar c \<and> schar c \<le> 126) (d @ [NUL, NUL, NUL] @ NUL # body) (length d + 3) = Some (length d + 3)"
    using scan_append [of "\<lambda>c. c \<noteq> CHR '':'' \<and> 33 \<le> schar c \<and> schar c \<le> 126" "[]" NUL "d @ [NUL, NUL, NUL]" body]
    by (simp add: numeral_3_eq_3)
  then have "parse_http_headers (d @ [NUL, NUL, NUL] @ NUL # body) (length d + 3) = Some (d @ [NUL, NUL, NUL] @ NUL # body, length d + 3, [], 0)"
    by (simp add: parse_http_headers_def MG_MAX_HEADERS_def eval_nat_numeral)
  with z Nil show ?thesis by simp
next
  case (Cons h hs')
  then obtain y n' where y: "fst h = y # n'" "name_char y"
    using assms(1) by (cases "fst h") (auto simp: header_ok_def)
  define R where "R = n' @ '': '' @ snd h @ CRLF @ concat (map (\<lambda>h. header_line h @ CRLF) hs') @ CR # NUL # body"
  have H: "concat (map (\<lambda>h. header_line h @ CRLF) hs) @ CR # NUL # body = y # R"
    by (simp add: Cons header_line_def y(1) R_def)
  have sp: "list_all isspace [LF]" "\<not> isspace y" using graph_not [OF name_char_graph [OF y(2)]] by (simp_all add: ctype_defs ordc_def)
  have z: "zero_spaces (d @ CRLF @ y # R) (length d) = Some (d @ [NUL, NUL] @ y # R, length d + 2)"
    using zero_spaces_append [of CRLF y d R] sp by (simp add: numeral_2_eq_2)
  define d4 where "d4 = d @ [NUL, NUL]"
  have "parse_http_headers (d4 @ y # R) (length d4)
      = Some (d4 @ concat (map header_done hs) @ CR # NUL # body, length d4 + length (concat (map header_done hs)),
          header_positions (length d4) hs, int (length hs))"
    using headers_loop [of hs MG_MAX_HEADERS d4 body "[]"] assms Cons unfolding H parse_http_headers_def by simp
  then show ?thesis using z unfolding H by (simp add: d4_def Cons)
qed


lemma take_str_at_append: "cstring s \<Longrightarrow> length s = n \<Longrightarrow> take n (str_at (d @ s @ r) (length d)) = s"
  by (simp add: str_at_def cstring_def takeWhile_append2 [where xs = s]) (subst takeWhile_append2; auto)

lemma parse_response_part:
  assumes version: "version \<noteq> []" "list_all isgraph version" and code: "100 \<le> code" "code < 1000"
    and reason: "reason_ok reason" and hs: "\<forall>h \<in> set hs. header_ok h" "length hs \<le> MG_MAX_HEADERS"
  shows "\<exists>mem' ri'. parse_response_header
      (d @ status_line version code reason @ CRLF @ concat (map (\<lambda>h. header_line h @ CRLF) hs) @ CR # NUL # body)
      (length d) ok ri = Some (mem', ri', ok)
    \<and> map_option (str_at mem') (rsp_http_version ri') = Some version \<and> rsp_status_code ri' = int code
    \<and> map_option (str_at mem') (rsp_status_text ri') = Some reason \<and> rsp_num_headers ri' = int (length hs)
    \<and> map (\<lambda>(n, v). (str_at mem' n, str_at mem' v)) (rsp_http_headers ri') = hs"
proof -
  define H where "H = concat (map (\<lambda>h. header_line h @ CRLF) hs) @ CR # NUL # body"
  define d1 where "d1 = d @ ''HTTP/''"
  define d2 where "d2 = d1 @ version @ [NUL]"
  define d3 where "d3 = d2 @ decimal code @ [NUL]"
  define mem1 where "mem1 = d1 @ version @ '' '' @ decimal code @ '' '' @ reason @ CRLF @ H"
  define mem2 where "mem2 = d2 @ decimal code @ '' '' @ reason @ CRLF @ H"
  define mem3 where "mem3 = d3 @ reason @ CRLF @ H"
  obtain v version' where v: "version = v # version'" "isgraph v" using version by (cases version) auto
  obtain e es where e: "decimal code = e # es" "isgraph e" using decimal_graph [of code] by (cases "decimal code") auto
  obtain r rs where r: "reason = r # rs" "isgraph r" "list_all isprint reason"
    using reason by (cases reason) (auto simp: reason_ok_def)
  have c0: "rd mem1 (length d) = Some CHR ''H''" using rd_at [of d "CHR ''H''"] by (simp add: mem1_def d1_def)
  have http: "take 5 (str_at mem1 (length d)) = ''HTTP/''"
    using take_str_at_append [of "''HTTP/''" 5 d] by (simp add: mem1_def d1_def)
  have l1: "length d + 5 = length d1" by (simp add: d1_def)
  have c1: "rd mem1 (length d1) = Some v" using rd_at [of d1 v] by (simp add: mem1_def v(1))
  have s1: "skip_to_end_of_word_and_terminate mem1 (length d1) False = Some (mem2, length d2, 1)"
    using skip_word [of version "'' ''" e False d1 "es @ '' '' @ reason @ CRLF @ H"] version(2) graph_not [OF e(2)] e
    by (simp add: mem1_def mem2_def d2_def)
  have s2: "skip_to_end_of_word_and_terminate mem2 (length d2) False = Some (mem3, length d3, 1)"
    using skip_word [of "decimal code" "'' ''" r False d2 "rs @ CRLF @ H"] decimal_graph(1) graph_not [OF r(2)] r
    by (simp add: mem2_def mem3_def d3_def)
  have cd: "cstring (decimal code)" using decimal_graph(1) by (rule cstring_graph)
  have str: "str_at mem3 (length d2) = decimal code"
    using str_at_append [OF cd, of d2 "reason @ CRLF @ H"] by (simp add: mem3_def d3_def)
  have num: "strtol10 (decimal code) = (int code, [])"
    using strtol10_digits [of "decimal code"] decimal_digits [of code] code by simp
  have len: "length (decimal code) = 3" by (rule decimal_length3 [OF code])
  have np: "\<not> isprint CR" by (simp add: isprint_def ordc_def)
  have s3: "scan isprint mem3 (length d3) = Some (length (d3 @ reason))"
    using scan_append [OF r(3) np, of d3 "LF # H"] by (simp add: mem3_def)
  have c3: "rd mem3 (length (d3 @ reason)) = Some CR" using rd_at [of "d3 @ reason" CR "LF # H"] by (simp add: mem3_def)
  define D where "D = (d3 @ reason) @ [NUL, NUL]"
  define mem5 where "mem5 = D @ concat (map header_done hs) @ (if hs = [] then NUL else CR) # NUL # body"
  obtain mem4 p4 q where z: "zero_spaces mem3 (length (d3 @ reason)) = Some (mem4, p4)"
    "parse_http_headers mem4 p4 = Some (mem5, q, header_positions (length D) hs, int (length hs))"
    using headers_after_line [OF hs, of "d3 @ reason" body] unfolding mem5_def D_def mem3_def H_def by auto
  have "parse_response_header mem1 (length d) ok ri = Some (mem5, ri\<lparr>rsp_http_version := Some (length d1),
      rsp_status_code := int code, rsp_status_text := Some (length d3), rsp_num_headers := int (length hs),
      rsp_http_headers := header_positions (length D) hs\<rparr>, ok)"
    unfolding parse_response_header_def c0 Option.bind_lunit http l1 Let_def c1 s1 s2 prod.case str num s3 c3 z
    using v(2) code by (simp add: len)
  moreover have "map (\<lambda>(n, v). (str_at mem5 n, str_at mem5 v)) (header_positions (length D) hs) = hs"
    unfolding mem5_def by (rule header_positions_strings [OF hs(1)])
  moreover have "str_at mem5 (length d1) = version"
    using str_at_append [OF cstring_graph [OF version(2)], of d1] by (simp add: mem5_def D_def d3_def d2_def)
  moreover have "cstring reason" using r(3) by (auto simp: cstring_def list_all_iff)
  then have "str_at mem5 (length d3) = reason"
    using str_at_append [of reason d3] by (simp add: mem5_def D_def)
  moreover have "d @ status_line version code reason @ CRLF @ concat (map (\<lambda>h. header_line h @ CRLF) hs) @ CR # NUL # body = mem1"
    by (simp add: mem1_def d1_def status_line_def H_def)
  ultimately show ?thesis by simp
qed

lemma parse_response_spec:
  assumes "version \<noteq> []" "list_all isgraph version" "100 \<le> code" "code < 1000" "reason_ok reason"
    and "\<forall>h \<in> set hs. header_ok h" "length hs \<le> MG_MAX_HEADERS" "list_all isspace ws"
    and "rsp = render_response version code reason hs" "length (ws @ rsp) \<le> len" "len \<le> length (ws @ rsp @ body)"
  shows "\<exists>mem' ri'. parse_http_response (ws @ rsp @ body) len ri = Some (mem', ri', int (length (ws @ rsp)))
    \<and> map_option (str_at mem') (rsp_http_version ri') = Some version \<and> rsp_status_code ri' = int code
    \<and> map_option (str_at mem') (rsp_status_text ri') = Some reason \<and> rsp_num_headers ri' = int (length hs)
    \<and> map (\<lambda>(n, v). (str_at mem' n, str_at mem' v)) (rsp_http_headers ri') = hs"
proof -
  define X where "X = concat (map (\<lambda>l. l @ CRLF) (status_line version code reason # map header_line hs))"
  have req: "rsp = X @ CRLF" by (simp add: assms(9) render_response_def X_def)
  have c: "\<not> isspace CHR ''H''" "\<not> iscntrl CHR ''H''" by (simp_all add: ctype_defs ordc_def)
  have Xc: "X = CHR ''H'' # tl X" by (simp add: X_def status_line_def)
  define body' where "body' = take (len - length (ws @ rsp)) body"
  define n where "n = length (rsp @ body')"
  have n: "len = length ws + n" using assms(10,11) by (simp add: n_def body'_def)
  obtain n' where n': "n = Suc n'" by (cases n) (auto simp: n_def req)
  have skip: "skip_init (ws @ rsp @ body) 0 len = Some (length ws, n)"
    using skip_init_append [OF assms(8) c(1), of "[]" "tl X @ CRLF @ body" n'] Xc
    by (metis append_Cons append_Nil append_assoc length_0_conv list.size(3) add_0 n n' req)
  have sl: "slice (ws @ rsp @ body) (length ws) n = rsp @ body'"
    using assms(10,11) by (simp add: slice_def n_def body'_def)
  define k where "k = length rsp"
  have lines: "\<forall>l \<in> set (status_line version code reason # map header_line hs). l \<noteq> [] \<and> list_all text_char l"
    using status_line_text [OF assms(2), of reason code] header_lines_text [OF assms(6)] assms(5) by (simp add: reason_ok_def)
  have hl: "get_http_header_len (rsp @ body') = int k"
    using header_len_lines [of "status_line version code reason # map header_line hs" "[]" body'] lines
    by (simp add: get_http_header_len_def req X_def k_def)
  have rd: "rd (ws @ rsp @ body) (length ws) = Some CHR ''H''"
    using rd_at [of ws "CHR ''H''" "tl X @ CRLF @ body"] Xc unfolding req by (metis append_Cons append_assoc)
  have w: "wr (ws @ rsp @ body) (length ws + nat (int k) - 1) NUL = Some (ws @ X @ CR # NUL # body)"
  proof -
    have "length ws + nat (int k) - 1 = length (ws @ X @ [CR])" unfolding nat_int by (simp add: k_def req)
    then show ?thesis using wr_at [of "ws @ X @ [CR]" LF body NUL] by (simp add: req del: wr_Some)
  qed
  have X: "ws @ X @ CR # NUL # body = ws @ status_line version code reason @ CRLF
      @ concat (map (\<lambda>h. header_line h @ CRLF) hs) @ CR # NUL # body"
    by (simp add: X_def o_def)
  define ri1 where "ri1 = ri\<lparr>rsp_http_version := None, rsp_status_text := None, rsp_num_headers := 0, rsp_status_code := 0\<rparr>"
  have k: "0 < k" "n \<noteq> 0" using n' by (simp_all add: k_def req)
  have e: "int k + int (length ws) = int (length (ws @ rsp))" by (simp add: k_def)
  have "parse_http_response (ws @ rsp @ body) len ri
    = parse_response_header (ws @ X @ CR # NUL # body) (length ws) (int (length (ws @ rsp))) ri1"
    unfolding parse_http_response_def Let_def skip Option.bind_lunit prod.case rd sl hl ri1_def [symmetric] w e
    using c(2) k by simp
  then show ?thesis
    unfolding X using parse_response_part [OF assms(1-7), of ws body "int (length (ws @ rsp))" ri1] by presburger
qed

end
