(* ===== verification/Response.thy ===== *)
theory Response
  imports Body Headers HttpResponseParse
begin

text \<open>
  Sending a response header: \<^verbatim>\<open>response.inl\<close>, which buffers the header fields of a response and
  sends them, and the texts of the status codes. The calls must come in the order start,
  add, send; \<open>request_state\<close> is the state machine that enforces it. Whether an allocation of
  a size succeeds is the parameter \<open>malloc\<close>, the formatted time is an argument.
\<close>

section \<open>The code\<close>

definition response_code_texts :: "(int \<times> string) list" where
  "response_code_texts =
    [(100, ''Continue''), (101, ''Switching Protocols''), (102, ''Processing''), (200, ''OK''),
     (201, ''Created''), (202, ''Accepted''), (203, ''Non-Authoritative Information''),
     (204, ''No Content''), (205, ''Reset Content''), (206, ''Partial Content''), (207, ''Multi-Status''),
     (208, ''Already Reported''), (226, ''IM used''), (300, ''Multiple Choices''),
     (301, ''Moved Permanently''), (302, ''Found''), (303, ''See Other''), (304, ''Not Modified''),
     (305, ''Use Proxy''), (307, ''Temporary Redirect''), (308, ''Permanent Redirect''),
     (400, ''Bad Request''), (401, ''Unauthorized''), (402, ''Payment Required''), (403, ''Forbidden''),
     (404, ''Not Found''), (405, ''Method Not Allowed''), (406, ''Not Acceptable''),
     (407, ''Proxy Authentication Required''), (408, ''Request Time-out''), (409, ''Conflict''),
     (410, ''Gone''), (411, ''Length Required''), (412, ''Precondition Failed''),
     (413, ''Request Entity Too Large''), (414, ''Request-URI Too Large''),
     (415, ''Unsupported Media Type''), (416, ''Requested range not satisfiable''),
     (417, ''Expectation Failed''), (421, ''Misdirected Request''), (422, ''Unproccessable entity''),
     (423, ''Locked''), (424, ''Failed Dependency''), (426, ''Upgrade Required''),
     (428, ''Precondition Required''), (429, ''Too Many Requests''),
     (431, ''Request Header Fields Too Large''), (451, ''Unavailable For Legal Reasons''),
     (500, ''Internal Server Error''), (501, ''Not Implemented''), (502, ''Bad Gateway''),
     (503, ''Service Unavailable''), (504, ''Gateway Time-out''), (505, ''HTTP Version not supported''),
     (506, ''Variant Also Negotiates''), (507, ''Insufficient Storage''), (508, ''Loop Detected''),
     (510, ''Not Extended''), (511, ''Network Authentication Required''), (418, ''I am a teapot''),
     (419, ''Authentication Timeout''), (420, ''Enhance Your Calm''), (440, ''Login Timeout''),
     (509, ''Bandwidth Limit Exceeded'')]"

definition mg_get_response_code_text :: "int \<Rightarrow> string" where
  "mg_get_response_code_text response_code =
     (case map_of response_code_texts response_code of
        Some text \<Rightarrow> text
      | None \<Rightarrow>
          if 100 \<le> response_code \<and> response_code < 200 then ''Information''
          else if 200 \<le> response_code \<and> response_code < 300 then ''Success''
          else if 300 \<le> response_code \<and> response_code < 400 then ''Redirection''
          else if 400 \<le> response_code \<and> response_code < 500 then ''Client Error''
          else if 500 \<le> response_code \<and> response_code < 600 then ''Server Error''
          else [])"

text \<open>\<open>mg_printf\<close> with its formatted text: texts that do not fit into the buffer on the stack
  need an allocation.\<close>

definition MG_BUF_LEN :: nat where
  "MG_BUF_LEN = 8192"

definition mg_printf :: "(nat \<Rightarrow> bool) \<Rightarrow> mg_connection \<Rightarrow> string \<Rightarrow> mg_connection" where
  "mg_printf malloc conn s =
     (if s \<noteq> [] \<and> (length s < MG_BUF_LEN \<or> malloc (length s + 1)) then the (snd (mg_write (Some conn) s)) else conn)"

definition free_buffered_response_header_list :: "mg_connection \<Rightarrow> mg_connection" where
  "free_buffered_response_header_list conn = conn\<lparr>response_info := (response_info conn)\<lparr>info_headers := []\<rparr>\<rparr>"

definition send_http1_response_status_line :: "(nat \<Rightarrow> bool) \<Rightarrow> mg_connection \<Rightarrow> mg_connection" where
  "send_http1_response_status_line malloc conn =
     (let status_code = (if conn_status_code conn < 100 \<or> 999 < conn_status_code conn then 500 else conn_status_code conn);
          http_version = (case info_version (request_info conn) of None \<Rightarrow> ''1.0'' | Some v \<Rightarrow> v);
          status_txt = mg_get_response_code_text (conn_status_code conn)
      in mg_printf malloc conn (''HTTP/'' @ http_version @ '' '' @ decimal (nat status_code) @ '' '' @ status_txt @ CRLF))"

definition mg_response_header_start :: "mg_connection option \<Rightarrow> int \<Rightarrow> int \<times> mg_connection option" where
  "mg_response_header_start conn status =
     (case conn of
        None \<Rightarrow> (-1, conn)
      | Some c \<Rightarrow>
          if status < 100 \<or> 999 < status then (-1, conn)
          else if conn_type c \<noteq> CONNECTION_TYPE_REQUEST \<or> proto_type c = PROTOCOL_TYPE_WEBSOCKET then (-2, conn)
          else if request_state c \<noteq> 0 then (-3, conn)
          else (0, Some (free_buffered_response_header_list (c\<lparr>conn_status_code := status, request_state := 1\<rparr>))))"

text \<open>A \<open>value_len\<close> beyond the end of the value, which makes C read behind the string, takes the whole value; the calls in the server pass none.\<close>

definition mg_response_header_add ::
    "(nat \<Rightarrow> bool) \<Rightarrow> mg_connection option \<Rightarrow> string option \<Rightarrow> string option \<Rightarrow> int \<Rightarrow> int \<times> mg_connection option" where
  "mg_response_header_add malloc conn header val value_len =
     (case (conn, header, val) of
        (Some c, Some h, Some v) \<Rightarrow>
          if conn_type c \<noteq> CONNECTION_TYPE_REQUEST \<or> proto_type c = PROTOCOL_TYPE_WEBSOCKET then (-2, conn)
          else if request_state c \<noteq> 1 then (-3, conn)
          else let hdrs = info_headers (response_info c)
          in if MG_MAX_HEADERS \<le> length hdrs then (-4, conn)
             else let v = (if 0 \<le> value_len then take (nat value_len) v else v)
             in if \<not> malloc (length h + 1) \<or> \<not> malloc (length v + 1) then (-5, conn)
                else (0, Some (c\<lparr>response_info := (response_info c)\<lparr>info_headers := hdrs @ [(h, v)]\<rparr>\<rparr>))
      | _ \<Rightarrow> (-1, conn))"

text \<open>The loop of \<open>mg_response_header_add_lines\<close> over the parsed fields; the outer \<open>None\<close> would
  be an access of the parser outside its work buffer.\<close>

fun add_all :: "(nat \<Rightarrow> bool) \<Rightarrow> mg_connection option \<Rightarrow> mg_header list \<Rightarrow> int \<Rightarrow> int \<times> mg_connection option" where
  "add_all malloc conn [] ret = (ret, conn)"
| "add_all malloc conn (h # hs) ret =
     (let (lret, conn) = mg_response_header_add malloc conn (Some (fst h)) (Some (snd h)) (-1)
      in add_all malloc conn hs (if 0 < ret \<and> lret < 0 then lret else ret))"

definition mg_response_header_add_lines ::
    "(nat \<Rightarrow> bool) \<Rightarrow> mg_connection option \<Rightarrow> string \<Rightarrow> (int \<times> mg_connection option) option" where
  "mg_response_header_add_lines malloc conn http1_headers =
     (if \<not> malloc (length http1_headers + 1) then Some (-5, conn)
      else do {
        (work, parse, add_hdr, num_hdr) \<leftarrow> parse_http_headers (http1_headers @ [NUL]) 0;
        let hdrs = map (\<lambda>(n, v). (str_at work n, str_at work v)) (take (nat num_hdr) add_hdr);
        Some (add_all malloc conn hdrs num_hdr)
      })"

fun send_header_lines :: "(nat \<Rightarrow> bool) \<Rightarrow> mg_connection \<Rightarrow> mg_header list \<Rightarrow> mg_connection" where
  "send_header_lines malloc conn [] = conn"
| "send_header_lines malloc conn (h # hs) =
     send_header_lines malloc (mg_printf malloc conn (fst h @ '': '' @ snd h @ CRLF)) hs"

definition mg_response_header_send :: "(nat \<Rightarrow> bool) \<Rightarrow> mg_connection option \<Rightarrow> string \<Rightarrow> int \<times> mg_connection option" where
  "mg_response_header_send malloc conn date =
     (case conn of
        None \<Rightarrow> (-1, conn)
      | Some c \<Rightarrow>
          if conn_type c \<noteq> CONNECTION_TYPE_REQUEST \<or> proto_type c = PROTOCOL_TYPE_WEBSOCKET then (-2, conn)
          else if request_state c \<noteq> 1 then (-3, conn)
          else let c = c\<lparr>request_state := 2\<rparr>;
                   c = send_http1_response_status_line malloc c;
                   hdrs = info_headers (response_info c);
                   c = send_header_lines malloc c hdrs;
                   has_date = list_ex (\<lambda>h. mg_strcasecmp ''Date'' (fst h) = 0) hdrs;
                   has_connection = list_ex (\<lambda>h. mg_strcasecmp ''Connection'' (fst h) = 0) hdrs;
                   c = (if has_date then c else mg_printf malloc c (''Date: '' @ date @ CRLF));
                   c = (if has_connection then c
                        else mg_printf malloc c (''Connection: '' @ suggest_connection_header (Some c) @ CRLF));
                   c = the (snd (mg_write (Some c) CRLF))
               in (0, Some (c\<lparr>request_state := 3\<rparr>)))"

lemma frame_mg_printf: "frame (mg_printf malloc c s) = frame c"
  by (simp add: mg_printf_def frame_mg_write)


section \<open>The protocol of the calls\<close>

text \<open>A caller's operations, with their results.\<close>

datatype response_op = Start int | Add string string int | AddLines string | Send string

fun response_step :: "(nat \<Rightarrow> bool) \<Rightarrow> response_op \<Rightarrow> mg_connection option \<Rightarrow> (int \<times> mg_connection option) option" where
  "response_step malloc (Start status) conn = Some (mg_response_header_start conn status)"
| "response_step malloc (Add h v len) conn = Some (mg_response_header_add malloc conn (Some h) (Some v) len)"
| "response_step malloc (AddLines s) conn = mg_response_header_add_lines malloc conn s"
| "response_step malloc (Send date) conn = Some (mg_response_header_send malloc conn date)"

inductive response_run :: "(nat \<Rightarrow> bool) \<Rightarrow> mg_connection \<Rightarrow> (response_op \<times> int) list \<Rightarrow> mg_connection \<Rightarrow> bool"
  for malloc :: "nat \<Rightarrow> bool" where
  run_Nil: "response_run malloc c [] c"
| run_Cons: "response_step malloc op (Some c) = Some (r, Some c1) \<Longrightarrow> response_run malloc c1 tr c2
    \<Longrightarrow> response_run malloc c ((op, r) # tr) c2"

inductive_cases run_ConsE: "response_run malloc c ((op, r) # tr) c2"
inductive_cases run_NilE: "response_run malloc c [] c2"

lemma add_all_state:
  "add_all malloc (Some c) hs ret = (r, conn') \<Longrightarrow> length (info_headers (response_info c)) \<le> MG_MAX_HEADERS \<Longrightarrow>
   \<exists>c'. conn' = Some c' \<and> request_state c' = request_state c \<and> net_out c' = net_out c
     \<and> length (info_headers (response_info c')) \<le> MG_MAX_HEADERS
     \<and> (request_state c \<noteq> 1 \<longrightarrow> c' = c)"
proof (induction hs arbitrary: c ret)
  case (Cons h hs)
  obtain lret conn1 where a: "mg_response_header_add malloc (Some c) (Some (fst h)) (Some (snd h)) (-1) = (lret, conn1)" by fastforce
  then obtain c1 where c1: "conn1 = Some c1" "request_state c1 = request_state c" "net_out c1 = net_out c"
    "length (info_headers (response_info c1)) \<le> MG_MAX_HEADERS" "request_state c \<noteq> 1 \<longrightarrow> c1 = c"
    using Cons.prems(2) by (auto simp: mg_response_header_add_def Let_def split: if_splits)
  from Cons.IH [of c1] Cons.prems(1) a c1 show ?case by auto
qed auto

lemma response_step_state:
  assumes "response_step malloc op (Some c) = Some (r, Some c')" "length (info_headers (response_info c)) \<le> MG_MAX_HEADERS"
    and "request_state c \<in> {0, 1, 3}"
  shows "request_state c' \<in> {0, 1, 3}" "length (info_headers (response_info c')) \<le> MG_MAX_HEADERS"
    and "request_state c \<le> request_state c'"
    and "net_out c' \<noteq> net_out c \<Longrightarrow> request_state c = 1 \<and> request_state c' = 3 \<and> (\<exists>date. op = Send date)"
    and "request_state c = 3 \<Longrightarrow> c' = c \<and> (r \<le> 0 \<or> (\<exists>s. op = AddLines s))"
proof -
  have "request_state c' \<in> {0, 1, 3} \<and> length (info_headers (response_info c')) \<le> MG_MAX_HEADERS
    \<and> request_state c \<le> request_state c'
    \<and> (net_out c' \<noteq> net_out c \<longrightarrow> request_state c = 1 \<and> request_state c' = 3 \<and> (\<exists>date. op = Send date))
    \<and> (request_state c = 3 \<longrightarrow> c' = c \<and> (r \<le> 0 \<or> (\<exists>s. op = AddLines s)))"
  proof (cases op)
    case (Start status)
    with assms show ?thesis
      by (auto simp: mg_response_header_start_def free_buffered_response_header_list_def split: if_splits)
  next
    case (Add h v len)
    with assms show ?thesis
      by (auto simp: mg_response_header_add_def Let_def split: if_splits)
  next
    case (AddLines s)
    with assms obtain hs n where "Some c' = Some c \<and> r = -5 \<or> add_all malloc (Some c) hs n = (r, Some c')"
      by (auto simp: mg_response_header_add_lines_def split: if_splits bind_splits)
    then show ?thesis
    proof
      assume "Some c' = Some c \<and> r = -5"
      then show ?thesis using assms(2,3) by auto
    next
      assume "add_all malloc (Some c) hs n = (r, Some c')"
      from add_all_state [OF this assms(2)] show ?thesis using assms(3) AddLines by auto
    qed
  next
    case (Send date)
    show ?thesis
    proof (cases "request_state c = 1 \<and> r = 0")
      case False
      with Send assms show ?thesis by (auto simp: mg_response_header_send_def Let_def split: if_splits)
    next
      case True
      have "frame c' = frame c \<and> request_state c' = 3"
      proof -
        have lines: "frame (send_header_lines malloc d hs) = frame d" for d hs
          by (induction hs arbitrary: d) (simp_all add: frame_mg_printf)
        show ?thesis
          using Send assms(1) True
          by (auto simp: mg_response_header_send_def Let_def frame_mg_write frame_mg_printf lines
            send_http1_response_status_line_def split: if_splits)
      qed
      then show ?thesis using assms(2) True Send frame_fields(4) [of c' c] by auto
    qed
  qed
  then show "request_state c' \<in> {0, 1, 3}" "length (info_headers (response_info c')) \<le> MG_MAX_HEADERS"
    "request_state c \<le> request_state c'"
    "net_out c' \<noteq> net_out c \<Longrightarrow> request_state c = 1 \<and> request_state c' = 3 \<and> (\<exists>date. op = Send date)"
    "request_state c = 3 \<Longrightarrow> c' = c \<and> (r \<le> 0 \<or> (\<exists>s. op = AddLines s))" by blast+
qed

lemma response_run_sent: "response_run malloc c tr c' \<Longrightarrow> request_state c = 3 \<Longrightarrow>
  length (info_headers (response_info c)) \<le> MG_MAX_HEADERS \<Longrightarrow> c' = c"
  by (induction rule: response_run.induct) (use response_step_state(5) in force)+

lemma response_run_spec:
  assumes "response_run malloc c tr c'" "request_state c \<in> {0, 1, 3}" "length (info_headers (response_info c)) \<le> MG_MAX_HEADERS"
  shows "request_state c' \<in> {0, 1, 3} \<and> length (info_headers (response_info c')) \<le> MG_MAX_HEADERS
    \<and> (net_out c' = net_out c \<or> request_state c' = 3 \<and> (\<exists>tr1 tr2 c1 c2 date r. tr = tr1 @ (Send date, r) # tr2
        \<and> response_run malloc c tr1 c1 \<and> net_out c1 = net_out c \<and> request_state c1 = 1
        \<and> response_step malloc (Send date) (Some c1) = Some (r, Some c2) \<and> c' = c2))"
  using assms
proof (induction rule: response_run.induct)
  case (run_Nil c)
  then show ?case by simp
next
  case (run_Cons op c r c1 tr c')
  note st = response_step_state [OF run_Cons.hyps(1) run_Cons.prems(2,1)]
  note IH = run_Cons.IH [OF st(1,2)]
  show ?case
  proof (cases "net_out c1 = net_out c")
    case True
    from IH consider "net_out c' = net_out c1" | tr1 tr2 c3 c2 date r' where "request_state c' = 3"
      "tr = tr1 @ (Send date, r') # tr2" "response_run malloc c1 tr1 c3" "net_out c3 = net_out c1" "request_state c3 = 1"
      "response_step malloc (Send date) (Some c3) = Some (r', Some c2)" "c' = c2" by blast
    then show ?thesis
    proof cases
      case 1
      with IH True show ?thesis by simp
    next
      case 2
      have "(op, r) # tr = ((op, r) # tr1) @ (Send date, r') # tr2" using 2(2) by simp
      moreover have "response_run malloc c ((op, r) # tr1) c3"
        by (rule response_run.run_Cons [OF run_Cons.hyps(1) 2(3)])
      ultimately show ?thesis using IH 2 True by metis
    qed
  next
    case False
    then obtain date where sent: "request_state c = 1" "request_state c1 = 3" "op = Send date" using st(4) by blast
    have "c' = c1" by (rule response_run_sent [OF run_Cons.hyps(2) sent(2) st(2)])
    moreover have "(op, r) # tr = [] @ (Send date, r) # tr" by (simp add: sent(3))
    ultimately show ?thesis
      using sent run_Cons.hyps(1) st(1,2) response_run.run_Nil [of malloc c] by blast
  qed
qed

text \<open>C25: the response state machine. In every sequence of the four operations on a connection
  that has not answered yet, at most one call puts anything on the wire: a
  \<open>mg_response_header_send\<close> that comes after a start, and after it no call changes the
  connection any more. At any time the buffered fields fit into their array, and the state is
  one of nothing, started, sent.\<close>

theorem response_sent_once:
  assumes "response_run malloc c tr c'" "request_state c = 0" "length (info_headers (response_info c)) \<le> MG_MAX_HEADERS"
  shows "request_state c' \<in> {0, 1, 3} \<and> length (info_headers (response_info c')) \<le> MG_MAX_HEADERS
    \<and> (net_out c' = net_out c \<or> request_state c' = 3 \<and> (\<exists>tr1 tr2 c1 c2 date r. tr = tr1 @ (Send date, r) # tr2
        \<and> response_run malloc c tr1 c1 \<and> net_out c1 = net_out c \<and> request_state c1 = 1
        \<and> response_step malloc (Send date) (Some c1) = Some (r, Some c2) \<and> c' = c2))"
  using response_run_spec [OF assms(1)] assms(2,3) by simp

theorem response_sent_once_witness:
  "\<exists>c'. response_run (\<lambda>n. True) (example_writer\<lparr>request_state := 0\<rparr>) [(Start 200, 0), (Start 200, -3)] c'
    \<and> request_state c' \<in> {0, 1, 3} \<and> length (info_headers (response_info c')) \<le> MG_MAX_HEADERS"
proof -
  define c where "c = example_writer\<lparr>request_state := 0\<rparr>"
  have "response_run (\<lambda>n. True) c [(Start 200, 0), (Start 200, -3)]
      (free_buffered_response_header_list (c\<lparr>conn_status_code := 200, request_state := 1\<rparr>))"
    by (rule run_Cons, rule_tac [2] run_Cons, rule_tac [3] run_Nil)
      (auto simp: mg_response_header_start_def c_def example_writer_def free_buffered_response_header_list_def)
  from response_sent_once [OF this] this show ?thesis
    unfolding c_def by (auto simp: example_writer_def)
qed


section \<open>What a client receives\<close>

text \<open>The calls that add the fields one by one.\<close>

fun add_each :: "(nat \<Rightarrow> bool) \<Rightarrow> mg_connection option \<Rightarrow> mg_header list \<Rightarrow> int list \<times> mg_connection option" where
  "add_each malloc conn [] = ([], conn)"
| "add_each malloc conn (h # hs) =
     (let (r, conn) = mg_response_header_add malloc conn (Some (fst h)) (Some (snd h)) (-1);
          (rs, conn) = add_each malloc conn hs
      in (r # rs, conn))"

text \<open>The fields with the two that \<open>mg_response_header_send\<close> adds when they are missing.\<close>

definition completed :: "mg_connection \<Rightarrow> string \<Rightarrow> mg_header list \<Rightarrow> mg_header list" where
  "completed c date hs =
     hs @ (if list_ex (\<lambda>h. fold_case (fst h) = ''date'') hs then [] else [(''Date'', date)])
        @ (if list_ex (\<lambda>h. fold_case (fst h) = ''connection'') hs then [] else [(''Connection'', suggest_connection_header (Some c))])"

lemma code_text_ok:
  assumes "100 \<le> code" "code < 600"
  shows "reason_ok (mg_get_response_code_text code)"
proof (cases "map_of response_code_texts code")
  case None
  then show ?thesis
    using assms by (auto simp: mg_get_response_code_text_def reason_ok_def isgraph_def isprint_def ordc_def)
next
  case (Some s)
  then have "s \<in> set (map snd response_code_texts)" using map_of_SomeD by force
  moreover have "\<forall>s \<in> set (map snd response_code_texts). reason_ok s" by code_simp
  ultimately show ?thesis using Some by (auto simp: mg_get_response_code_text_def)
qed

lemma mg_printf_accepts:
  assumes "writer_ok (length s + m) c" "s \<noteq> []" "int (length s) \<le> INT_MAX"
  shows "net_out (mg_printf (\<lambda>n. True) c s) = net_out c @ s \<and> writer_ok m (mg_printf (\<lambda>n. True) c s)
    \<and> frame (mg_printf (\<lambda>n. True) c s) = frame c"
proof -
  obtain c' where "mg_write (Some c) s = (int (length s), Some c')" "net_out c' = net_out c @ s" "writer_ok m c'"
    using mg_write_accepts [OF assms(1,3)] by blast
  then show ?thesis using assms(2) frame_mg_write [of c s] by (simp add: mg_printf_def)
qed

lemma send_header_lines_accepts:
  "writer_ok (length (concat (map (\<lambda>h. header_line h @ CRLF) hs)) + m) c \<Longrightarrow>
   int (length (concat (map (\<lambda>h. header_line h @ CRLF) hs))) \<le> INT_MAX \<Longrightarrow>
   net_out (send_header_lines (\<lambda>n. True) c hs) = net_out c @ concat (map (\<lambda>h. header_line h @ CRLF) hs)
   \<and> writer_ok m (send_header_lines (\<lambda>n. True) c hs) \<and> frame (send_header_lines (\<lambda>n. True) c hs) = frame c"
proof (induction hs arbitrary: c)
  case (Cons h hs)
  define l where "l = fst h @ '': '' @ snd h @ CRLF"
  have l: "header_line h @ CRLF = l" by (simp add: header_line_def l_def)
  have "writer_ok (length l + (length (concat (map (\<lambda>h. header_line h @ CRLF) hs)) + m)) c"
    "l \<noteq> []" "int (length l) \<le> INT_MAX" "int (length (concat (map (\<lambda>h. header_line h @ CRLF) hs))) \<le> INT_MAX"
    using Cons.prems by (simp_all add: l_def header_line_def add.assoc)
  with mg_printf_accepts [OF this(1-3)] Cons.IH [of "mg_printf (\<lambda>n. True) c l"] show ?case
    unfolding send_header_lines.simps l_def [symmetric] by (simp add: l)
qed simp

lemma suggest_same:
  assumes "conn_type c = CONNECTION_TYPE_REQUEST" "conn_type c' = CONNECTION_TYPE_REQUEST" "request_info c = request_info c'"
    and "must_close c = must_close c'" "ENABLE_KEEP_ALIVE c = ENABLE_KEEP_ALIVE c'"
  shows "suggest_connection_header (Some c) = suggest_connection_header (Some c')"
  using assms by (simp add: suggest_connection_header_def should_keep_alive_def mg_get_header_def get_http_version_def
    cong: option.case_cong)

lemma add_each_ok:
  "conn_type c = CONNECTION_TYPE_REQUEST \<Longrightarrow> proto_type c \<noteq> PROTOCOL_TYPE_WEBSOCKET \<Longrightarrow> request_state c = 1 \<Longrightarrow>
   length (info_headers (response_info c)) + length hs \<le> MG_MAX_HEADERS \<Longrightarrow>
   add_each (\<lambda>n. True) (Some c) hs = (replicate (length hs) 0,
     Some (c\<lparr>response_info := (response_info c)\<lparr>info_headers := info_headers (response_info c) @ hs\<rparr>\<rparr>))"
proof (induction hs arbitrary: c)
  case (Cons h hs)
  then show ?case by (simp add: mg_response_header_add_def)
qed simp

lemma send_spec:
  assumes "conn_type c = CONNECTION_TYPE_REQUEST" "proto_type c \<noteq> PROTOCOL_TYPE_WEBSOCKET" "request_state c = 1"
    and "100 \<le> conn_status_code c" "conn_status_code c < 600"
    and "version = (case info_version (request_info c) of None \<Rightarrow> ''1.0'' | Some v \<Rightarrow> v)"
    and "\<forall>h \<in> set (info_headers (response_info c)). header_ok h"
    and "out = render_response version (nat (conn_status_code c)) (mg_get_response_code_text (conn_status_code c))
      (completed c date (info_headers (response_info c)))"
    and "writer_ok (length out + m) c" "int (length out) \<le> INT_MAX"
  shows "\<exists>c'. mg_response_header_send (\<lambda>n. True) (Some c) date = (0, Some c') \<and> net_out c' = net_out c @ out
    \<and> writer_ok m c' \<and> frame c' = frame c"
proof -
  define hdrs where "hdrs = info_headers (response_info c)"
  define L where "L = (\<lambda>hs. concat (map (\<lambda>h. header_line h @ CRLF) hs))"
  define D where "D = (if list_ex (\<lambda>h. fold_case (fst h) = ''date'') hdrs then [] else [(''Date'', date)])"
  define K where "K = (if list_ex (\<lambda>h. fold_case (fst h) = ''connection'') hdrs then []
      else [(''Connection'', suggest_connection_header (Some c))])"
  define s0 where "s0 = status_line version (nat (conn_status_code c)) (mg_get_response_code_text (conn_status_code c)) @ CRLF"
  have out: "out = s0 @ L hdrs @ L D @ L K @ CRLF"
    by (simp add: assms(8) render_response_def completed_def s0_def L_def D_def K_def hdrs_def o_def)
  have names: "cstring (fst h)" if "h \<in> set hdrs" for h
  proof -
    have "header_ok h" using assms(7) that by (simp add: hdrs_def)
    then show ?thesis by (auto simp: header_ok_def cstring_def list_all_iff)
  qed
  have lower: "fold_case ''Date'' = ''date''" "fold_case ''Connection'' = ''connection''" by code_simp+
  have has: "list_ex (\<lambda>h. mg_strcasecmp ''Date'' (fst h) = 0) hdrs = list_ex (\<lambda>h. fold_case (fst h) = ''date'') hdrs"
    "list_ex (\<lambda>h. mg_strcasecmp ''Connection'' (fst h) = 0) hdrs = list_ex (\<lambda>h. fold_case (fst h) = ''connection'') hdrs"
  proof -
    have cs: "cstring ''Date''" "cstring ''Connection''" by simp_all
    have dt: "mg_strcasecmp ''Date'' (fst h) = 0 \<longleftrightarrow> fold_case (fst h) = ''date''" if "h \<in> set hdrs" for h
      unfolding mg_strcasecmp_eq [OF cs(1) names [OF that]] lower by (rule eq_commute)
    have cn: "mg_strcasecmp ''Connection'' (fst h) = 0 \<longleftrightarrow> fold_case (fst h) = ''connection''" if "h \<in> set hdrs" for h
      unfolding mg_strcasecmp_eq [OF cs(2) names [OF that]] lower by (rule eq_commute)
    show "list_ex (\<lambda>h. mg_strcasecmp ''Date'' (fst h) = 0) hdrs = list_ex (\<lambda>h. fold_case (fst h) = ''date'') hdrs"
      using dt by (rule list_ex_cong [OF refl])
    show "list_ex (\<lambda>h. mg_strcasecmp ''Connection'' (fst h) = 0) hdrs = list_ex (\<lambda>h. fold_case (fst h) = ''connection'') hdrs"
      using cn by (rule list_ex_cong [OF refl])
  qed
  define c0 where "c0 = c\<lparr>request_state := 2\<rparr>"
  have w0: "writer_ok (length s0 + (length (L hdrs) + (length (L D) + (length (L K) + (length CRLF + m))))) c0"
    using assms(9) by (simp add: out writer_ok_def c0_def ac_simps)
  have il: "int (length s0) \<le> INT_MAX" "int (length (L hdrs)) \<le> INT_MAX" "int (length (L D)) \<le> INT_MAX" "int (length (L K)) \<le> INT_MAX"
    using assms(10) by (simp_all add: out)
  have f0: "frame c0 = frame c" by (simp add: frame_def c0_def)
  define c1 where "c1 = send_http1_response_status_line (\<lambda>n. True) c0"
  have c1: "c1 = mg_printf (\<lambda>n. True) c0 s0"
    using assms(4,5) by (simp add: c1_def send_http1_response_status_line_def Let_def s0_def status_line_def assms(6) c0_def)
  have p1: "net_out c1 = net_out c @ s0" "writer_ok (length (L hdrs) + (length (L D) + (length (L K) + (length CRLF + m)))) c1" "frame c1 = frame c"
    using mg_printf_accepts [OF w0 _ il(1)] f0 by (simp_all add: c1 s0_def status_line_def) (simp add: c0_def)
  have h1: "info_headers (response_info c1) = hdrs" using frame_fields(4) [OF p1(3)] by (simp add: hdrs_def)
  have sl: "net_out (send_header_lines (\<lambda>n. True) c hs) = net_out c @ L hs
      \<and> writer_ok m (send_header_lines (\<lambda>n. True) c hs) \<and> frame (send_header_lines (\<lambda>n. True) c hs) = frame c"
    if "writer_ok (length (L hs) + m) c" "int (length (L hs)) \<le> INT_MAX" for hs m c
    using that unfolding L_def by (rule send_header_lines_accepts)
  define c2 where "c2 = send_header_lines (\<lambda>n. True) c1 hdrs"
  have p2: "net_out c2 = net_out c @ s0 @ L hdrs" "writer_ok (length (L D) + (length (L K) + (length CRLF + m))) c2" "frame c2 = frame c"
    using sl [OF p1(2) il(2)] p1(1,3) unfolding c2_def by simp_all
  define c3 where "c3 = (if list_ex (\<lambda>h. fold_case (fst h) = ''date'') hdrs then c2 else mg_printf (\<lambda>n. True) c2 (''Date: '' @ date @ CRLF))"
  have c3: "c3 = send_header_lines (\<lambda>n. True) c2 D" by (simp add: c3_def D_def)
  have p3: "net_out c3 = net_out c @ s0 @ L hdrs @ L D" "writer_ok (length (L K) + (length CRLF + m)) c3" "frame c3 = frame c"
    using sl [OF p2(2) il(3)] p2(1,3) unfolding c3 by simp_all
  have sg: "suggest_connection_header (Some c3) = suggest_connection_header (Some c)"
    using frame_fields [OF p3(3)] assms(1) by (intro suggest_same) simp_all
  define c4 where "c4 = (if list_ex (\<lambda>h. fold_case (fst h) = ''connection'') hdrs then c3
      else mg_printf (\<lambda>n. True) c3 (''Connection: '' @ suggest_connection_header (Some c3) @ CRLF))"
  have c4: "c4 = send_header_lines (\<lambda>n. True) c3 K" by (simp add: c4_def K_def sg)
  have p4: "net_out c4 = net_out c @ s0 @ L hdrs @ L D @ L K" "writer_ok (length CRLF + m) c4" "frame c4 = frame c"
    using sl [OF p3(2) il(4)] p3(1,3) unfolding c4 by simp_all
  obtain c5 where c5: "mg_write (Some c4) CRLF = (2, Some c5)" "net_out c5 = net_out c4 @ CRLF" "writer_ok m c5"
    using mg_write_accepts [OF p4(2)] by (auto simp: INT_MAX_def)
  have f5: "frame c5 = frame c" using frame_mg_write [of c4 CRLF] c5(1) p4(3) by simp
  have "mg_response_header_send (\<lambda>n. True) (Some c) date = (0, Some (c5\<lparr>request_state := 3\<rparr>))"
    using assms(1-3) c5(1) unfolding mg_response_header_send_def Let_def option.case c0_def [symmetric] c1_def [symmetric]
      h1 has c2_def [symmetric] c3_def [symmetric] c4_def [symmetric] by simp
  then show ?thesis using c5(2,3) p4(1) f5 by (simp add: out writer_ok_def)
qed


lemma completed_ok:
  assumes "\<forall>h \<in> set hs. header_ok h" "list_all text_char date" "date = [] \<or> hd date \<noteq> CHR '' ''"
  shows "\<forall>h \<in> set (completed c date hs). header_ok h" "length (completed c date hs) \<le> length hs + 2"
proof -
  have "header_ok (''Date'', date)"
    using assms(2,3) by (auto simp: header_ok_def name_char_def schar_def ordc_def)
  moreover have "header_ok (''Connection'', suggest_connection_header (Some c))"
    by (auto simp: suggest_connection_header_def header_ok_def name_char_def text_char_def isprint_def schar_def ordc_def)
  ultimately show "\<forall>h \<in> set (completed c date hs). header_ok h" "length (completed c date hs) \<le> length hs + 2"
    using assms(1) by (auto simp: completed_def)
qed

text \<open>C6: what a response function says is what a client understands. Starting a response with a
  status from 100 to 599, adding fields and sending it puts a header on the wire that
  \<open>parse_http_response\<close> accepts as a whole; the client finds the version, the status code and
  its text, and exactly the added fields in order, followed by \<open>Date\<close> and \<open>Connection\<close> where they
  were not among them.\<close>

theorem response_end_to_end:
  assumes "conn_type c = CONNECTION_TYPE_REQUEST" "proto_type c = PROTOCOL_TYPE_HTTP1" "request_state c = 0"
    and "100 \<le> status" "status < 600"
    and "version = (case info_version (request_info c) of None \<Rightarrow> ''1.0'' | Some v \<Rightarrow> v)"
    and "version \<noteq> []" "list_all isgraph version"
    and "\<forall>h \<in> set hs. header_ok h" "length hs + 2 \<le> MG_MAX_HEADERS"
    and "list_all text_char date" "date = [] \<or> hd date \<noteq> CHR '' ''"
    and "out = render_response version (nat status) (mg_get_response_code_text status) (completed c date hs)"
    and "\<not> stop_flag c" "list_all (\<lambda>k. 0 < k) (net_accept c)" "length out \<le> length (net_accept c)" "int (length out) \<le> INT_MAX"
    and "0 < throttle c \<longrightarrow> 0 \<le> last_throttle_bytes c \<and> last_throttle_bytes c \<le> throttle c"
  shows "\<exists>c1 c2 c3 mem ri. mg_response_header_start (Some c) status = (0, Some c1)
    \<and> add_each (\<lambda>n. True) (Some c1) hs = (replicate (length hs) 0, Some c2)
    \<and> mg_response_header_send (\<lambda>n. True) (Some c2) date = (0, Some c3) \<and> net_out c3 = net_out c @ out
    \<and> parse_http_response out (length out) ri0 = Some (mem, ri, int (length out))
    \<and> rsp_status_code ri = status \<and> map_option (str_at mem) (rsp_http_version ri) = Some version
    \<and> map_option (str_at mem) (rsp_status_text ri) = Some (mg_get_response_code_text status)
    \<and> map (\<lambda>(n, v). (str_at mem n, str_at mem v)) (rsp_http_headers ri) = completed c date hs"
proof -
  define c1 where "c1 = free_buffered_response_header_list (c\<lparr>conn_status_code := status, request_state := 1\<rparr>)"
  define c2 where "c2 = c1\<lparr>response_info := (response_info c1)\<lparr>info_headers := hs\<rparr>\<rparr>"
  have start: "mg_response_header_start (Some c) status = (0, Some c1)"
    using assms(1-5) by (simp add: mg_response_header_start_def c1_def)
  have add: "add_each (\<lambda>n. True) (Some c1) hs = (replicate (length hs) 0, Some c2)"
    using add_each_ok [of c1 hs] assms(1,2,10) by (simp add: c1_def c2_def free_buffered_response_header_list_def)
  have c2: "conn_type c2 = CONNECTION_TYPE_REQUEST" "proto_type c2 \<noteq> PROTOCOL_TYPE_WEBSOCKET" "request_state c2 = 1"
    "conn_status_code c2 = status" "info_version (request_info c2) = info_version (request_info c)"
    "info_headers (response_info c2) = hs" "net_out c2 = net_out c" "writer_ok (length out) c2"
    using assms(1,2,14,15,16,18)
    by (simp_all add: c2_def c1_def free_buffered_response_header_list_def writer_ok_def accepts_def)
  have "suggest_connection_header (Some c2) = suggest_connection_header (Some c)"
    using assms(1) by (intro suggest_same) (simp_all add: c2_def c1_def free_buffered_response_header_list_def)
  then have comp: "completed c2 date hs = completed c date hs" by (simp add: completed_def)
  have out: "out = render_response version (nat (conn_status_code c2)) (mg_get_response_code_text (conn_status_code c2))
      (completed c2 date (info_headers (response_info c2)))"
    by (simp add: assms(13) c2 comp)
  obtain c3 where send: "mg_response_header_send (\<lambda>n. True) (Some c2) date = (0, Some c3)" "net_out c3 = net_out c @ out"
    using send_spec [OF c2(1-3) _ _ _ _ out _ assms(17), of 0] assms(4-6,9) c2(4-8) by auto
  have code: "100 \<le> nat status" "nat status < 1000" "int (nat status) = status" using assms(4,5) by auto
  have "length (completed c date hs) \<le> MG_MAX_HEADERS"
    using completed_ok(2) [OF assms(9,11,12), of c] assms(10) by (rule le_trans)
  from parse_response_spec [OF assms(7,8) code(1,2) code_text_ok [OF assms(4,5)] completed_ok(1) [OF assms(9,11,12)] this
      _ refl, of "[]" "length out" "[]" ri0]
  obtain mem ri where "parse_http_response out (length out) ri0 = Some (mem, ri, int (length out))"
    "map_option (str_at mem) (rsp_http_version ri) = Some version" "rsp_status_code ri = int (nat status)"
    "map_option (str_at mem) (rsp_status_text ri) = Some (mg_get_response_code_text status)"
    "map (\<lambda>(n, v). (str_at mem n, str_at mem v)) (rsp_http_headers ri) = completed c date hs"
    unfolding assms(13) [symmetric] by auto
  with start add send show ?thesis unfolding code(3) by blast
qed

definition example_server :: mg_connection where
  "example_server = example_writer\<lparr>net_accept := replicate 200 7\<rparr>"

theorem response_end_to_end_witness:
  "\<exists>c1 c2 c3 mem (ri :: mg_response_info). mg_response_header_start (Some example_server) 404 = (0, Some c1)
    \<and> add_each (\<lambda>n. True) (Some c1) [(''Date'', ''now''), (''Connection'', ''close'')] = (replicate 2 0, Some c2)
    \<and> mg_response_header_send (\<lambda>n. True) (Some c2) ''later'' = (0, Some c3)
    \<and> rsp_status_code ri = 404
    \<and> map (\<lambda>(n, v). (str_at mem n, str_at mem v)) (rsp_http_headers ri) = [(''Date'', ''now''), (''Connection'', ''close'')]"
proof -
  define hs where "hs = [(''Date'', ''now''), (''Connection'', ''close'')]"
  let ?out = "render_response ''1.1'' (nat 404) (mg_get_response_code_text 404) (completed example_server ''later'' hs)"
  have lower: "fold_case ''Date'' = ''date''" "fold_case ''Connection'' = ''connection''" by code_simp+
  have comp: "completed example_server ''later'' hs = hs"
    unfolding completed_def hs_def using lower by simp
  have len: "length ?out \<le> 200"
    unfolding comp unfolding hs_def by (simp add: render_response_def status_line_def header_line_def decimal.simps
      mg_get_response_code_text_def response_code_texts_def)
  have ok: "\<forall>h \<in> set hs. header_ok h" "list_all text_char ''later''" "''later'' = [] \<or> hd ''later'' \<noteq> CHR '' ''"
    by (auto simp: hs_def header_ok_def name_char_def text_char_def isprint_def schar_def ordc_def)
  have e: "conn_type example_server = CONNECTION_TYPE_REQUEST" "proto_type example_server = PROTOCOL_TYPE_HTTP1"
    "request_state example_server = 0" "info_version (request_info example_server) = Some ''1.1''"
    "net_accept example_server = replicate 200 7" "\<not> stop_flag example_server"
    "0 < throttle example_server \<longrightarrow> 0 \<le> last_throttle_bytes example_server
      \<and> last_throttle_bytes example_server \<le> throttle example_server"
    by (simp_all add: example_server_def example_writer_def)
  have g: "list_all isgraph ''1.1''" by (simp add: isgraph_def ordc_def)
  have a: "list_all (\<lambda>k. 0 < k) (net_accept example_server)" "length ?out \<le> length (net_accept example_server)"
    "int (length ?out) \<le> INT_MAX"
    using len by (simp_all add: e(5) list_all_iff INT_MAX_def)
  have m: "length hs + 2 \<le> MG_MAX_HEADERS" by (simp add: MG_MAX_HEADERS_def hs_def)
  have num: "(100::int) \<le> 404" "(404::int) < 600" "''1.1'' \<noteq> []" by simp_all
  have ver: "''1.1'' = (case info_version (request_info example_server) of None \<Rightarrow> ''1.0'' | Some v \<Rightarrow> v)" by (simp add: e(4))
  obtain c1 c2 c3 mem and ri :: mg_response_info where r: "mg_response_header_start (Some example_server) 404 = (0, Some c1)"
    "add_each (\<lambda>n. True) (Some c1) hs = (replicate (length hs) 0, Some c2)"
    "mg_response_header_send (\<lambda>n. True) (Some c2) ''later'' = (0, Some c3)" "rsp_status_code ri = 404"
    "map (\<lambda>(n, v). (str_at mem n, str_at mem v)) (rsp_http_headers ri) = completed example_server ''later'' hs"
    using response_end_to_end [OF e(1-3) num(1,2) ver num(3) g ok(1) m ok(2,3) refl e(6) a e(7), where ?ri0.0 = undefined]
    by blast
  have l: "length hs = 2" by (simp add: hs_def)
  show ?thesis
    by (intro exI conjI) (rule r [unfolded comp l, unfolded hs_def])+
qed

end
