(* ===== verification/Websocket.thy ===== *)
theory Websocket
  imports Body
begin

text \<open>
  The framing of WebSocket messages: writing a frame (masked by the client), and the loop that
  reads frames from the receive buffer and the socket, unmasks them and hands them to the
  application, answering and sending pings. The application's handler is a parameter with its
  own state.
\<close>

section \<open>The code\<close>

subsection \<open>Writing frames\<close>

definition byte :: "nat \<Rightarrow> char" where
  "byte n = char_of (n mod 256)"

text \<open>\<open>masking_key\<close> as it lies in memory.\<close>

definition key_bytes :: "u32 \<Rightarrow> char list" where
  "key_bytes k = [byte (unat k), byte (unat k div 256), byte (unat k div 65536), byte (unat k div 16777216)]"

definition MG_WEBSOCKET_OPCODE_CONNECTION_CLOSE :: nat where "MG_WEBSOCKET_OPCODE_CONNECTION_CLOSE = 8"
definition MG_WEBSOCKET_OPCODE_PING :: nat where "MG_WEBSOCKET_OPCODE_PING = 9"
definition MG_WEBSOCKET_OPCODE_PONG :: nat where "MG_WEBSOCKET_OPCODE_PONG = 10"
definition MG_MAX_UNANSWERED_PING :: nat where "MG_MAX_UNANSWERED_PING = 5"

definition ws_write_header :: "nat \<Rightarrow> nat \<Rightarrow> u32 \<Rightarrow> char list" where
  "ws_write_header opcode dataLen masking_key =
     (let header0 = 128 OR (opcode AND 15);
          (header1, ext) =
            (if dataLen < 126 then (dataLen, [])
             else if dataLen \<le> 65535 then (126, [byte (dataLen div 256), byte dataLen])
             else (127, [byte (dataLen div 2 ^ 56), byte (dataLen div 2 ^ 48), byte (dataLen div 2 ^ 40),
                         byte (dataLen div 2 ^ 32), byte (dataLen div 2 ^ 24), byte (dataLen div 2 ^ 16),
                         byte (dataLen div 2 ^ 8), byte dataLen]))
      in if masking_key \<noteq> 0 then byte header0 # byte (header1 OR 128) # ext @ key_bytes masking_key
         else byte header0 # byte header1 # ext)"

definition mg_websocket_write_exec ::
    "mg_connection option \<Rightarrow> nat \<Rightarrow> char list \<Rightarrow> u32 \<Rightarrow> int \<times> mg_connection option" where
  "mg_websocket_write_exec conn opcode data masking_key =
     (let header = ws_write_header opcode (length data) masking_key;
          (retval, conn) = mg_write conn header
      in if retval \<noteq> int (length header) then (-1, conn)
         else if 0 < length data then mg_write conn data
         else (retval, conn))"

definition mg_websocket_write :: "mg_connection option \<Rightarrow> nat \<Rightarrow> char list \<Rightarrow> int \<times> mg_connection option" where
  "mg_websocket_write conn opcode data = mg_websocket_write_exec conn opcode data 0"

definition xor_char :: "char \<Rightarrow> char \<Rightarrow> char" where
  "xor_char a b = char_of (ordc a XOR ordc b)"

text \<open>The word loop of \<open>mask_data\<close> and the loop for the remaining bytes; \<open>aligned\<close> tells whether
  the address of the data is a multiple of 4.\<close>

fun mask_words :: "char list \<Rightarrow> u32 \<Rightarrow> char list \<times> char list" where
  "mask_words (a # b # c # d # rest) key =
     (let w = word_of_nat (ordc a + 256 * ordc b + 65536 * ordc c + 16777216 * ordc d) XOR key;
          (out, left) = mask_words rest key
      in (key_bytes w @ out, left))"
| "mask_words rest key = ([], rest)"

definition mask_tail :: "char list \<Rightarrow> u32 \<Rightarrow> char list" where
  "mask_tail in' key = map2 xor_char in' (map (\<lambda>i. key_bytes key ! (i mod 4)) [0..<length in'])"

definition mask_data :: "bool \<Rightarrow> char list \<Rightarrow> u32 \<Rightarrow> char list" where
  "mask_data aligned in' key =
     (if 3 < length in' \<and> aligned
      then let (out, left) = mask_words in' key in out @ mask_tail left key
      else mask_tail in' key)"

text \<open>The client's writer; \<open>randoms\<close> are the coming results of \<open>get_random\<close>, of which the first
  one that is not 0 is the key.\<close>

definition mg_websocket_client_write ::
    "bool \<Rightarrow> bool \<Rightarrow> u32 list \<Rightarrow> mg_connection option \<Rightarrow> nat \<Rightarrow> char list \<Rightarrow> int \<times> mg_connection option" where
  "mg_websocket_client_write malloc aligned randoms conn opcode data =
     (if \<not> malloc then (-1, conn)
      else let masking_key = hd (dropWhile (\<lambda>k. k = 0) randoms);
               masked_data = mask_data aligned data masking_key
           in mg_websocket_write_exec conn opcode masked_data masking_key)"

subsection \<open>Reading frames\<close>

text \<open>
  The header at the front of the queue \<open>buf\<close> (of \<open>body_len\<close> bytes): the length of the header,
  0 when it is not known yet, the length of the mask and of the payload. \<open>None\<close> is the exit for
  a payload that is too long.
\<close>

definition ws_header :: "char list \<Rightarrow> (nat \<times> nat \<times> nat) option" where
  "ws_header buf =
     (let body_len = length buf
      in if 2 \<le> body_len
         then let len = ordc (buf ! 1) AND 127;
                  mask_len = (if ordc (buf ! 1) AND 128 \<noteq> 0 then 4 else 0)
              in if len < 126 \<and> mask_len \<le> body_len then Some (2 + mask_len, mask_len, len)
                 else if len = 126 \<and> 4 + mask_len \<le> body_len
                 then Some (4 + mask_len, mask_len, ordc (buf ! 2) * 256 + ordc (buf ! 3))
                 else if 10 + mask_len \<le> body_len
                 then let plen = foldl (\<lambda>n c. 256 * n + ordc c) 0 (take 8 (drop 2 buf))
                      in if 0x7FFF0000 < plen then None else Some (10 + mask_len, mask_len, plen)
                 else Some (0, mask_len, 0)
         else Some (0, 0, 0))"

lemma pull_inner_nonzero: "fst (pull_inner net len) \<noteq> 0"
  by (auto simp: pull_inner_def split: list.splits recv_event.splits)

text \<open>The loop that pulls the rest of a payload of \<open>plen\<close> bytes; the flag is \<open>False\<close> after an
  error.\<close>

function pull_payload :: "recv_event list \<Rightarrow> nat \<Rightarrow> char list \<Rightarrow> bool \<times> char list \<times> recv_event list" where
  "pull_payload net plen data =
     (if length data < plen
      then let (n, bs, again, net') = pull_inner net (plen - length data)
           in if n \<le> -2 then (False, data, net')
              else if 0 < n then pull_payload net' plen (data @ bs)
              else pull_payload net' plen data
      else (True, data, net))"
  by pat_completeness auto
termination
proof (relation "measures [\<lambda>(net, plen, data). plen - length data, \<lambda>(net, plen, data). length net]", goal_cases)
  case 1
  show ?case by simp
next
  case (2 net plen data x n y bs z again net')
  then have p: "pull_inner net (plen - length data) = (n, bs, again, net')" by simp
  from pull_inner_length [OF p] 2 have "0 < length bs" by auto
  then have "plen - length (data @ bs) < plen - length data" using 2(1) by (simp add: diff_less_mono2)
  then show ?case by simp
next
  case (3 net plen data x n y bs z again net')
  then have p: "pull_inner net (plen - length data) = (n, bs, again, net')" by simp
  with pull_inner_nonzero [of net "plen - length data"] have "n \<noteq> 0" by simp
  with 3 pull_inner_length [OF p] show ?case by auto
qed

declare pull_payload.simps [simp del]

text \<open>Taking the first message off the queue: its first byte and its payload, unmasked, or
  \<open>None\<close> when memory or the connection gives out. \<open>alloc n\<close> tells whether \<open>n\<close> bytes can be
  allocated.\<close>

definition ws_queue :: "mg_connection \<Rightarrow> char list" where
  "ws_queue conn = take (data_len conn - request_len conn) (drop (request_len conn) (conn_buf conn))"

definition unmask :: "char list \<Rightarrow> char list \<Rightarrow> char list" where
  "unmask key data = map2 xor_char data (map (\<lambda>i. key ! (i AND 3)) [0..<length data])"

definition take_frame ::
    "(nat \<Rightarrow> bool) \<Rightarrow> nat \<Rightarrow> nat \<Rightarrow> nat \<Rightarrow> mg_connection \<Rightarrow> (char \<times> char list) option \<times> mg_connection" where
  "take_frame alloc header_len mask_len plen conn =
     (let buf = ws_queue conn;
          body_len = length buf;
          masking = (if 0 < mask_len then take 4 (drop (header_len - mask_len) buf) else replicate 4 NUL);
          mop = buf ! 0;
          apply_mask = (\<lambda>data. if 0 < mask_len then unmask masking data else data)
      in if 4096 < plen \<and> \<not> alloc plen then (None, conn)
         else if body_len < plen + header_len
         then let (ok, data, net) = pull_payload (net_in conn) plen (drop header_len buf)
              in if \<not> ok then (None, conn\<lparr>net_in := net\<rparr>)
                 else (Some (mop, apply_mask data), conn\<lparr>net_in := net, data_len := request_len conn\<rparr>)
         else let len = plen + header_len;
                  data = take plen (drop header_len buf);
                  moved = take (request_len conn) (conn_buf conn) @ drop len buf
                    @ drop (request_len conn + (body_len - len)) (conn_buf conn)
              in (Some (mop, apply_mask data), conn\<lparr>conn_buf := moved, data_len := data_len conn - len\<rparr>))"

text \<open>
  What is done with a message: pongs and pings are handled here when that is enabled, the rest
  is the application's. The application sees the first byte and the payload, keeps a state of
  its own, and acts on the connection by writing messages. The flag tells whether the loop goes
  on.
\<close>

type_synonym 's ws_data_handler = "'s \<Rightarrow> nat \<Rightarrow> char list \<Rightarrow> bool \<times> (nat \<times> char list) list \<times> 's"

definition ws_writes :: "(nat \<times> char list) list \<Rightarrow> mg_connection \<Rightarrow> mg_connection" where
  "ws_writes out conn = fold (\<lambda>(opcode, data) c. the (snd (mg_websocket_write (Some c) opcode data))) out conn"

definition ws_deliver ::
    "bool \<Rightarrow> 's ws_data_handler option \<Rightarrow> nat \<Rightarrow> char list \<Rightarrow> nat \<Rightarrow> 's \<Rightarrow> mg_connection \<Rightarrow> bool \<times> nat \<times> 's \<times> mg_connection" where
  "ws_deliver ping_pong handler mop data ping_count s conn =
     (let close = (mop AND 15 = MG_WEBSOCKET_OPCODE_CONNECTION_CLOSE)
      in if ping_pong \<and> mop AND 15 = MG_WEBSOCKET_OPCODE_PONG then (\<not> close, 0, s, conn)
         else if ping_pong \<and> mop AND 15 = MG_WEBSOCKET_OPCODE_PING
         then let (ret, c) = mg_websocket_write (Some conn) MG_WEBSOCKET_OPCODE_PONG data
              in (0 < ret \<and> \<not> close, ping_count, s, the c)
         else case handler of
                None \<Rightarrow> (\<not> close, ping_count, s, conn)
              | Some h \<Rightarrow> let (go_on, out, s) = h s mop data
                          in (go_on \<and> \<not> close, ping_count, s, ws_writes out conn))"

text \<open>What is left for the loop: an upper bound of its rounds, each of which shortens it.\<close>

definition net_measure :: "recv_event list \<Rightarrow> nat" where
  "net_measure net = (\<Sum>e\<leftarrow>net. case e of Data bs \<Rightarrow> 2 + 2 * length bs | Quiet _ \<Rightarrow> 2)"

definition ws_measure :: "mg_connection \<Rightarrow> nat" where
  "ws_measure conn = net_measure (net_in conn) + (data_len conn - request_len conn)"

lemma mg_write_Some: "\<exists>r c1. mg_write (Some c) data = (r, Some c1)"
  by (simp add: mg_write_def Let_def split: prod.split)

lemma mg_websocket_write_frame: "frame (the (snd (mg_websocket_write (Some c) opcode data))) = frame c"
proof -
  define hdr where "hdr = ws_write_header opcode (length data) 0"
  obtain r c1 where w: "mg_write (Some c) hdr = (r, Some c1)"
    by (metis mg_write_Some)
  then have "frame c1 = frame c" using frame_mg_write [of c hdr] by simp
  then show ?thesis
    by (auto simp: mg_websocket_write_def mg_websocket_write_exec_def Let_def hdr_def [symmetric] w frame_mg_write)
qed

lemma ws_writes_frame [simp]: "frame (ws_writes out c) = frame c"
  by (induction out arbitrary: c) (auto simp: ws_writes_def mg_websocket_write_frame)

lemma ws_deliver_frame:
  "ws_deliver pp handler mop data pc s c = (go_on, pc', s', c') \<Longrightarrow> frame c' = frame c"
  using mg_websocket_write_frame [of c MG_WEBSOCKET_OPCODE_PONG data]
  by (auto simp: ws_deliver_def Let_def split: if_splits option.splits prod.splits)

lemma ws_measure_frame: "frame c = frame c' \<Longrightarrow> ws_measure c = ws_measure c'"
  using frame_fields [of c c'] by (simp add: ws_measure_def)

lemma length_ws_queue: "length (ws_queue c) \<le> data_len c - request_len c"
  by (simp add: ws_queue_def)

lemma pull_inner_measure:
  "pull_inner net len = (n, bs, again, net') \<Longrightarrow>
   net_measure net' + 2 * length bs
     \<le> net_measure net
   \<and> (n = -1 \<longrightarrow> net_measure net'
     < net_measure net)
   \<and> (0 < n \<longrightarrow> net_measure net' + length bs < net_measure net) \<and> (-1 \<le> n \<longrightarrow> n = -1 \<or> 0 < n)"
  by (auto simp: pull_inner_def net_measure_def split: list.splits recv_event.splits if_splits)

lemma pull_payload_measure:
  "pull_payload net plen data = (ok, data', net') \<Longrightarrow>
   net_measure net'
     \<le> net_measure net"
proof (induction net plen data rule: pull_payload.induct)
  case (1 net plen data)
  obtain n bs again net1 where p: "pull_inner net (plen - length data) = (n, bs, again, net1)" by (metis prod_cases4)
  note IH = "1.IH" [OF _ p [symmetric] refl refl refl]
  from "1.prems" show ?case
    using IH pull_inner_measure [OF p]
    by (subst (asm) pull_payload.simps) (force simp: p Let_def split: if_splits)
qed

lemma take_frame_measure:
  assumes "take_frame alloc header_len mask_len plen c = (Some f, c')" "0 < header_len" "header_len \<le> length (ws_queue c)"
  shows "ws_measure c' < ws_measure c"
proof (cases "length (ws_queue c) < plen + header_len")
  case True
  obtain ok data net where p: "pull_payload (net_in c) plen (drop header_len (ws_queue c)) = (ok, data, net)"
    by (metis prod_cases3)
  from True assms(1) have "c' = c\<lparr>net_in := net, data_len := request_len c\<rparr>"
    by (auto simp: take_frame_def Let_def p split: if_splits)
  with pull_payload_measure [OF p] assms(2,3) length_ws_queue [of c] show ?thesis by (simp add: ws_measure_def)
next
  case False
  with assms(1) have "net_in c' = net_in c" "request_len c' = request_len c" "data_len c' = data_len c - (plen + header_len)"
    by (auto simp: take_frame_def Let_def split: if_splits)
  with False assms(2,3) length_ws_queue [of c] show ?thesis by (simp add: ws_measure_def)
qed

text \<open>One round of the loop: a message is taken off the queue, or the queue is filled from the
  socket, with a ping after a silence. The flag tells whether the loop goes on.\<close>

definition ws_pull :: "bool \<Rightarrow> nat \<Rightarrow> mg_connection \<Rightarrow> bool \<times> nat \<times> mg_connection" where
  "ws_pull ping_pong ping_count conn =
     (let (n, bs, again, net) = pull_inner (net_in conn) (length (conn_buf conn) - data_len conn)
      in if n \<le> -2 then (False, ping_count, conn\<lparr>net_in := net\<rparr>)
         else if 0 < n
         then (True, 0, conn\<lparr>net_in := net, data_len := data_len conn + length bs,
                 conn_buf := take (data_len conn) (conn_buf conn) @ bs @ drop (data_len conn + length bs) (conn_buf conn)\<rparr>)
         else let conn = conn\<lparr>net_in := net\<rparr>
              in if \<not> stop_flag conn \<and> \<not> must_close conn
                 then if MG_MAX_UNANSWERED_PING < ping_count then (False, ping_count, conn)
                      else if ping_pong
                      then let (ret, c) = mg_websocket_write (Some conn) MG_WEBSOCKET_OPCODE_PING []
                           in if ret \<le> 0 then (False, ping_count, the c) else (True, Suc ping_count, the c)
                      else (True, ping_count, conn)
                 else (True, ping_count, conn))"

definition ws_step ::
    "bool \<Rightarrow> (nat \<Rightarrow> bool) \<Rightarrow> 's ws_data_handler option \<Rightarrow> nat \<Rightarrow> 's \<Rightarrow> mg_connection \<Rightarrow> bool \<times> nat \<times> 's \<times> mg_connection" where
  "ws_step ping_pong alloc handler ping_count s conn =
     (case ws_header (ws_queue conn) of
        None \<Rightarrow> (False, ping_count, s, conn)
      | Some (header_len, mask_len, plen) \<Rightarrow>
          if 0 < header_len \<and> header_len \<le> length (ws_queue conn)
          then case take_frame alloc header_len mask_len plen conn of
                 (None, conn) \<Rightarrow> (False, ping_count, s, conn)
               | (Some (mop, data), conn) \<Rightarrow> ws_deliver ping_pong handler (ordc mop) data ping_count s conn
          else let (go_on, ping_count, conn) = ws_pull ping_pong ping_count conn
               in (go_on, ping_count, s, conn))"

lemma ws_pull_measure:
  assumes "ws_pull pp pc c = (True, pc', c')"
  shows "ws_measure c' < ws_measure c"
proof -
  obtain n bs again net where p: "pull_inner (net_in c) (length (conn_buf c) - data_len c) = (n, bs, again, net)"
    by (metis prod_cases4)
  have w: "ws_measure (the (snd (mg_websocket_write (Some c1) op d))) = ws_measure c1" for c1 op d
    using mg_websocket_write_frame ws_measure_frame by blast
  from pull_inner_measure [OF p] assms w [of "c\<lparr>net_in := net\<rparr>" MG_WEBSOCKET_OPCODE_PING "[]"] show ?thesis
    by (auto simp: ws_pull_def p Let_def ws_measure_def split: if_splits prod.splits)
qed

lemma ws_step_measure:
  assumes "ws_step pp alloc h pc s c = (True, pc', s', c')"
  shows "ws_measure c' < ws_measure c"
proof -
  from assms obtain header_len mask_len plen where h: "ws_header (ws_queue c) = Some (header_len, mask_len, plen)"
    by (auto simp: ws_step_def split: option.splits)
  show ?thesis
  proof (cases "0 < header_len \<and> header_len \<le> length (ws_queue c)")
    case True
    with assms h obtain f c1 where t: "take_frame alloc header_len mask_len plen c = (Some f, c1)"
      and "ws_deliver pp h (ordc (fst f)) (snd f) pc s c1 = (True, pc', s', c')"
      by (auto simp: ws_step_def split: prod.splits option.splits)
    then have "ws_measure c' = ws_measure c1" using ws_deliver_frame ws_measure_frame by metis
    with take_frame_measure [OF t] True show ?thesis by simp
  next
    case False
    then have "ws_pull pp pc c = (True, pc', c')"
      using assms h unfolding ws_step_def h option.case prod.case if_not_P [OF False] by (auto split: prod.splits)
    then show ?thesis by (rule ws_pull_measure)
  qed
qed

text \<open>The loop ends: every round takes a message off the queue or an event off the socket.\<close>

function ws_loop ::
    "bool \<Rightarrow> (nat \<Rightarrow> bool) \<Rightarrow> 's ws_data_handler option \<Rightarrow> nat \<Rightarrow> 's \<Rightarrow> mg_connection \<Rightarrow> 's \<times> mg_connection" where
  "ws_loop ping_pong alloc handler ping_count s conn =
     (if \<not> stop_flag conn \<and> \<not> must_close conn
      then let (go_on, ping_count, s, conn) = ws_step ping_pong alloc handler ping_count s conn
           in if go_on then ws_loop ping_pong alloc handler ping_count s conn else (s, conn)
      else (s, conn))"
  by pat_completeness auto
termination
  by (relation "measure (\<lambda>(pp, alloc, h, pc, s, conn). ws_measure conn)") (auto dest: ws_step_measure [OF sym])

declare ws_loop.simps [simp del]

definition read_websocket ::
    "string option \<Rightarrow> (nat \<Rightarrow> bool) \<Rightarrow> 's ws_data_handler option \<Rightarrow> 's \<Rightarrow> mg_connection \<Rightarrow> 's \<times> mg_connection" where
  "read_websocket ENABLE_WEBSOCKET_PING_PONG alloc handler s conn =
     (let enable_ping_pong =
        (case ENABLE_WEBSOCKET_PING_PONG of None \<Rightarrow> False | Some yes \<Rightarrow> mg_strcasecmp yes ''yes'' = 0)
      in ws_loop enable_ping_pong alloc handler 0 s conn)"

section \<open>Masking\<close>

lemma ordc_byte [simp]: "ordc (byte n) = n mod 256"
  unfolding byte_def by (rule ordc_char_of) simp

lemma byte_ordc [simp]: "byte (ordc c) = c"
  by (simp add: byte_def)

lemma xor_less_256: "a < 256 \<Longrightarrow> b < 256 \<Longrightarrow> a XOR b < (256 :: nat)"
  using take_bit_nat_less_exp [of 8 "a XOR b"] by (simp add: take_bit_xor take_bit_nat_eq_self)

lemma ordc_xor_char [simp]: "ordc (xor_char a b) = ordc a XOR ordc b"
  by (simp add: xor_char_def xor_less_256)

lemma xor_char_twice [simp]: "xor_char (xor_char a b) b = a"
proof -
  have "ordc (xor_char (xor_char a b) b) = ordc a" by (simp add: xor.assoc)
  then show ?thesis by (simp only: ordc_inj)
qed

lemma byte_xor: "xor_char (byte (x div 2 ^ k)) (byte (y div 2 ^ k)) = byte ((x XOR y) div 2 ^ k)"
proof -
  have "n mod 256 = take_bit 8 n" for n :: nat by (simp add: take_bit_eq_mod)
  then have "ordc (xor_char (byte (x div 2 ^ k)) (byte (y div 2 ^ k))) = ordc (byte ((x XOR y) div 2 ^ k))"
    by (simp add: drop_bit_eq_div [symmetric] drop_bit_xor take_bit_xor)
  then show ?thesis by (simp only: ordc_inj)
qed

lemma key_bytes_xor: "key_bytes (w XOR k) = map2 xor_char (key_bytes w) (key_bytes k)"
  using byte_xor [of "unat w" 0 "unat k"] byte_xor [of "unat w" 8 "unat k"]
    byte_xor [of "unat w" 16 "unat k"] byte_xor [of "unat w" 24 "unat k"]
  by (simp add: key_bytes_def unsigned_xor_eq)

lemma length_key_bytes [simp]: "length (key_bytes k) = 4"
  by (simp add: key_bytes_def)

lemma key_bytes_word:
  "key_bytes (word_of_nat (ordc a + 256 * ordc b + 65536 * ordc c + 16777216 * ordc d)) = [a, b, c, d]"
proof -
  define n where "n = ordc a + 256 * ordc b + 65536 * ordc c + 16777216 * ordc d"
  have l: "ordc a < 256" "ordc b < 256" "ordc c < 256" "ordc d < 256" by simp_all
  have "n < 4294967296" using l unfolding n_def by linarith
  then have u: "unat (word_of_nat n :: u32) = n" by (simp add: unat_of_nat take_bit_nat_eq_self)
  have step: "(x + 256 * m) div 256 = m \<and> (x + 256 * m) mod 256 = x" if "x < 256" for x m :: nat
    using that by simp
  have n: "n = ordc a + 256 * (ordc b + 256 * (ordc c + 256 * ordc d))" by (simp add: n_def)
  have d: "n div 65536 = n div 256 div 256" "n div 16777216 = n div 256 div 256 div 256"
    by (simp_all add: div_mult2_eq [symmetric])
  have "n mod 256 = ordc a" "n div 256 mod 256 = ordc b" "n div 65536 mod 256 = ordc c" "n div 16777216 mod 256 = ordc d"
    unfolding d unfolding n
    by (simp_all only: step [OF l(1)] step [OF l(2)] step [OF l(3)] mod_less [OF l(4)])
  then have "byte n = a" "byte (n div 256) = b" "byte (n div 65536) = c" "byte (n div 16777216) = d"
    by (simp_all add: byte_def)
  then show ?thesis unfolding key_bytes_def n_def [symmetric] u by simp
qed

lemma and_3: "i AND 3 = i mod (4 :: nat)"
proof -
  have "(3 :: nat) = mask 2" by (simp add: mask_eq_exp_minus_1)
  then show ?thesis by (simp only: take_bit_eq_mask [symmetric] take_bit_eq_mod) simp
qed

lemma unmask_nth: "i < length data \<Longrightarrow> unmask key data ! i = xor_char (data ! i) (key ! (i mod 4))"
  by (simp add: unmask_def and_3)

lemma length_unmask [simp]: "length (unmask key data) = length data"
  by (simp add: unmask_def)

lemma mask_tail_unmask: "mask_tail data k = unmask (key_bytes k) data"
  by (simp add: mask_tail_def unmask_def and_3)

lemma unmask_append4: "length w = 4 \<Longrightarrow> unmask key (w @ rest) = unmask key w @ unmask key rest"
  by (rule nth_equalityI) (auto simp: unmask_nth nth_append le_mod_geq [of 4])

lemma unmask_key4: "unmask (key_bytes k) [a, b, c, d] = map2 xor_char [a, b, c, d] (key_bytes k)"
  by (simp add: unmask_def upt_conv_Cons and_3 key_bytes_def)

lemma mask_words_unmask:
  "mask_words data k = (out, left) \<Longrightarrow> out @ mask_tail left k = unmask (key_bytes k) data"
proof (induction data k arbitrary: out left rule: mask_words.induct)
  case (1 a b c d rest key)
  obtain o1 l1 where r: "mask_words rest key = (o1, l1)" by fastforce
  with "1.prems" have o: "out = unmask (key_bytes key) [a, b, c, d] @ o1" "left = l1"
    by (auto simp: key_bytes_xor key_bytes_word unmask_key4 Let_def simp del: of_nat_add of_nat_mult)
  with "1.IH" [OF refl r] show ?case
    using unmask_append4 [of "[a, b, c, d]" "key_bytes key" rest] by simp
qed (auto simp: mask_tail_unmask)

lemma mask_data_unmask: "mask_data aligned data k = unmask (key_bytes k) data"
  using mask_words_unmask [of data k] by (auto simp: mask_data_def mask_tail_unmask split: prod.split)

lemma unmask_twice [simp]: "unmask key (unmask key data) = data"
  by (rule nth_equalityI) (simp_all add: unmask_nth)

text \<open>The word-wise masking loop of \<open>mask_data\<close> computes the same bytes as the byte-wise one,
  whatever the alignment of the data, they are what \<open>read_websocket\<close> computes to unmask with the
  key's bytes, and masking twice gives the data back.\<close>

theorem mask_data_bytewise:
  "mask_data aligned data k = mask_data aligned' data k
   \<and> mask_data aligned data k = unmask (key_bytes k) data
   \<and> unmask (key_bytes k) (mask_data aligned data k) = data"
  by (simp add: mask_data_unmask)

section \<open>Frames on the wire\<close>

text \<open>The bytes of a message with opcode \<open>op\<close> under the key \<open>k\<close>, and the length of its header.\<close>

definition ws_frame :: "nat \<Rightarrow> char list \<Rightarrow> u32 \<Rightarrow> char list" where
  "ws_frame op data k = ws_write_header op (length data) k @ (if k \<noteq> 0 then unmask (key_bytes k) data else data)"

definition ext_len :: "nat \<Rightarrow> nat" where
  "ext_len n = (if n < 126 then 0 else if n \<le> 65535 then 2 else 8)"

definition mask_size :: "u32 \<Rightarrow> nat" where
  "mask_size k = (if k \<noteq> 0 then 4 else 0)"

lemma length_ws_write_header: "length (ws_write_header op n k) = 2 + ext_len n + mask_size k"
  by (simp add: ws_write_header_def ext_len_def mask_size_def Let_def)

lemma seven_bits:
  assumes "n < 128"
  shows "n AND 127 = n \<and> n AND 128 = 0 \<and> (n OR 128) AND 127 = n \<and> (n OR 128) AND 128 \<noteq> 0 \<and> n OR 128 < (256 :: nat)"
proof -
  have m: "(127 :: nat) = mask 7" by (simp add: mask_eq_exp_minus_1)
  have and127: "x AND 127 = x mod 128" for x :: nat
    unfolding m by (simp add: take_bit_eq_mask [symmetric] take_bit_eq_mod)
  have t: "take_bit 7 n = n" "take_bit 7 (128 :: nat) = 0" "take_bit 8 n = n" "take_bit 8 (128 :: nat) = 128"
    using assms by (simp_all add: take_bit_nat_eq_self take_bit_eq_mod)
  have "n AND 128 = take_bit 7 n AND 128" using t by simp
  also have "\<dots> = 0" by (rule bit_eqI) (auto simp: bit_and_iff bit_take_bit_iff bit_exp_iff [of 7, simplified])
  finally have a: "n AND 128 = 0" .
  have "(n OR 128) mod 128 = n"
    using t take_bit_or [of 7 n 128] by (simp add: take_bit_eq_mod)
  moreover have "(n OR 128) AND 128 = 128"
    by (rule bit_eqI) (auto simp: bit_and_iff bit_or_iff)
  moreover have "take_bit 8 (n OR 128) = n OR 128" using t by (simp only: take_bit_or)
  then have "n OR 128 < 256" using take_bit_nat_less_exp [of 8 "n OR 128"] by simp
  ultimately show ?thesis using a assms and127 by simp
qed

lemma opcode_bits: "128 OR (op AND 15) < (256 :: nat) \<and> (128 OR (op AND 15)) AND 15 = op AND (15 :: nat)"
proof -
  have "list_all (\<lambda>n. 128 OR n < (256 :: nat) \<and> (128 OR n) AND 15 = n) [0..<16]" by code_simp
  moreover have "op AND 15 < 16"
  proof -
    have "(15 :: nat) = mask 4" by (simp add: mask_eq_exp_minus_1)
    then show ?thesis by (simp only: take_bit_eq_mask [symmetric] take_bit_eq_mod) simp
  qed
  ultimately show ?thesis by (simp add: list_all_iff)
qed

lemma horner8:
  assumes "n < 2 ^ 64"
  shows "foldl (\<lambda>m c. 256 * m + ordc c) 0 [byte (n div 2 ^ 56), byte (n div 2 ^ 48), byte (n div 2 ^ 40), byte (n div 2 ^ 32),
     byte (n div 2 ^ 24), byte (n div 2 ^ 16), byte (n div 2 ^ 8), byte n] = n"
proof -
  have top: "n div 2 ^ 56 mod 256 = n div 2 ^ 56" using assms by (simp add: less_mult_imp_div_less)
  have h: "256 * (n div 2 ^ (k + 8)) + n div 2 ^ k mod 256 = n div 2 ^ k" for k
    by (simp add: power_add div_mult2_eq)
  have e: "(0 :: nat) + 8 = 8" "(8 :: nat) + 8 = 16" "(16 :: nat) + 8 = 24" "(24 :: nat) + 8 = 32"
    "(32 :: nat) + 8 = 40" "(40 :: nat) + 8 = 48" "(48 :: nat) + 8 = 56" by simp_all
  show ?thesis
    by (simp only: foldl.simps ordc_byte top h [of 0, unfolded e power_0 div_by_1] h [of 8, unfolded e] h [of 16, unfolded e]
        h [of 24, unfolded e] h [of 32, unfolded e] h [of 40, unfolded e] h [of 48, unfolded e] mult_0_right add_0)
qed

text \<open>Reading the header from a part \<open>q\<close> of the stream: it is recognised exactly when it is
  complete.\<close>

lemma ws_header_frame:
  assumes q: "q = take (length q) (ws_frame op data k @ rest)" and n: "length data \<le> 0x7FFF0000"
    and full: "length (ws_write_header op (length data) k) \<le> length q"
  shows "ws_header q = Some (length (ws_write_header op (length data) k), mask_size k, length data)"
proof -
  define n where "n = length data"
  define H where "H = ws_write_header op n k"
  define t where "t = drop (length H) q"
  have qt: "q = H @ t"
  proof -
    have "take (length H) q = take (length H) (take (length q) (ws_frame op data k @ rest))" using q by simp
    also have "\<dots> = H" using full by (simp add: ws_frame_def H_def n_def)
    finally show ?thesis by (metis t_def append_take_drop_id)
  qed
  have "n < 2 ^ 64" using assms(2) by (simp add: n_def)
  note h8 = horner8 [OF this, simplified]
  have n': "n \<le> 0x7FFF0000" using assms(2) by (simp add: n_def)
  consider "n < 126" | "126 \<le> n" "n \<le> 65535" | "65536 \<le> n" by linarith
  then show ?thesis
  proof cases
    case 1
    then show ?thesis
      using seven_bits [of n] by (simp add: n_def [symmetric] qt H_def ws_write_header_def ws_header_def mask_size_def Let_def)
  next
    case 2
    then have "ordc (byte (n div 256)) * 256 + ordc (byte n) = n" by simp
    with 2 show ?thesis
      using seven_bits [of 126] by (simp add: n_def [symmetric] qt H_def ws_write_header_def ws_header_def mask_size_def Let_def)
  next
    case 3
    then show ?thesis
      using seven_bits [of 127] n' h8 by (simp add: n_def [symmetric] qt H_def ws_write_header_def ws_header_def mask_size_def Let_def)
  qed
qed

lemma ws_header_partial:
  assumes q: "q = take (length q) (ws_frame op data k @ rest)"
    and part: "length q < length (ws_write_header op (length data) k)"
  shows "\<exists>h m p. ws_header q = Some (h, m, p) \<and> (h = 0 \<or> length q < h)"
proof (cases "2 \<le> length q")
  case True
  define n where "n = length data"
  define H where "H = ws_write_header op n k"
  have "q ! 1 = take (length q) (ws_frame op data k @ rest) ! 1" using q by simp
  also have "\<dots> = H ! 1" using True part by (simp add: ws_frame_def H_def n_def nth_append)
  finally have q1: "q ! Suc 0 = H ! Suc 0" by simp
  consider "n < 126" | "126 \<le> n" "n \<le> 65535" | "65536 \<le> n" by linarith
  then show ?thesis
  proof cases
    case 1
    then show ?thesis using seven_bits [of n] True part
      by (auto simp: q1 H_def n_def ws_write_header_def ws_header_def Let_def split: if_splits)
  next
    case 2
    then show ?thesis using seven_bits [of 126] True part
      by (auto simp: q1 H_def n_def ws_write_header_def ws_header_def Let_def split: if_splits)
  next
    case 3
    then show ?thesis using seven_bits [of 127] True part
      by (auto simp: q1 H_def n_def ws_write_header_def ws_header_def Let_def split: if_splits)
  qed
qed (simp add: ws_header_def)

section \<open>Taking messages off the stream\<close>

text \<open>A network without errors: every receive that reports data has some.\<close>

definition alive :: "recv_event list \<Rightarrow> bool" where
  "alive net \<longleftrightarrow> Data [] \<notin> set net"

text \<open>The stream the loop still has to read: the queue and what is coming.\<close>

definition ws_stream :: "mg_connection \<Rightarrow> char list" where
  "ws_stream c = ws_queue c @ incoming (net_in c)"

definition ws_ready :: "mg_connection \<Rightarrow> bool" where
  "ws_ready c \<longleftrightarrow> alive (net_in c) \<and> request_len c \<le> data_len c \<and> data_len c \<le> length (conn_buf c)
     \<and> request_len c + 14 \<le> length (conn_buf c)"

lemma alive_simps [simp]: "alive []" "alive (Data bs # net) \<longleftrightarrow> bs \<noteq> [] \<and> alive net" "alive (Quiet a # net) \<longleftrightarrow> alive net"
  by (auto simp: alive_def)

lemma pull_inner_alive:
  assumes "pull_inner net len = (n, bs, again, net')" "alive net" "0 < len"
  shows "alive net' \<and> incoming net = bs @ incoming net' \<and> (n = int (length bs) \<and> bs \<noteq> [] \<and> length bs \<le> len \<or> bs = [] \<and> n = -1 \<or> net = [] \<and> n = -2)"
proof (cases net)
  case Nil
  with assms show ?thesis by (simp add: pull_inner_def)
next
  case (Cons e net1)
  with assms show ?thesis by (cases e) (auto simp: pull_inner_def split: if_splits)
qed

lemma pull_payload_alive:
  "alive net \<Longrightarrow> length d \<le> plen \<Longrightarrow> plen \<le> length (d @ incoming net) \<Longrightarrow>
   \<exists>net'. pull_payload net plen d = (True, take plen (d @ incoming net), net') \<and> alive net'
     \<and> incoming net' = drop (plen - length d) (incoming net)"
proof (induction net plen d rule: pull_payload.induct)
  case (1 net plen d)
  show ?case
  proof (cases "length d < plen")
    case True
    obtain n bs again net1 where p: "pull_inner net (plen - length d) = (n, bs, again, net1)" by (metis prod_cases4)
    with True "1.prems" pull_inner_alive [OF p] have f: "alive net1" "incoming net = bs @ incoming net1"
      "n = int (length bs) \<and> bs \<noteq> [] \<and> length bs \<le> plen - length d \<or> bs = [] \<and> n = -1"
      by auto
    note step = pull_payload.simps [of net plen d]
    from f(3) show ?thesis
    proof
      assume a: "n = int (length bs) \<and> bs \<noteq> [] \<and> length bs \<le> plen - length d"
      then have "length (d @ bs) \<le> plen" using True by simp linarith
      with a "1.IH" (1) [OF True p [symmetric] refl refl refl] f "1.prems" True show ?thesis
        by (simp add: step p)
    next
      assume a: "bs = [] \<and> n = -1"
      with "1.IH" (2) [OF True p [symmetric] refl refl refl] f "1.prems" True show ?thesis
        by (simp add: step p)
    qed
  next
    case False
    with "1.prems" show ?thesis by (simp add: pull_payload.simps [of net plen d])
  qed
qed

lemma ws_queue_prefix: "ws_stream c = s \<Longrightarrow> ws_queue c = take (length (ws_queue c)) s"
  by (auto simp: ws_stream_def)

lemma take_frame_ready:
  assumes r: "ws_ready c" and s: "ws_stream c = ws_frame op data k @ rest"
    and full: "length (ws_write_header op (length data) k) \<le> length (ws_queue c)"
  shows "\<exists>c'. take_frame (\<lambda>_. True) (length (ws_write_header op (length data) k)) (mask_size k) (length data) c
      = (Some (byte (128 OR (op AND 15)), data), c') \<and> ws_ready c' \<and> ws_stream c' = rest
    \<and> stop_flag c' = stop_flag c \<and> must_close c' = must_close c"
proof -
  define H where "H = ws_write_header op (length data) k"
  define hl where "hl = length H"
  define P where "P = (if k \<noteq> 0 then unmask (key_bytes k) data else data)"
  have lP: "length P = length data" by (simp add: P_def)
  define t where "t = drop hl (ws_queue c)"
  have "take hl (ws_queue c) = take hl (ws_stream c)" using full by (simp add: ws_stream_def hl_def H_def)
  also have "\<dots> = H" by (simp add: s ws_frame_def H_def hl_def)
  finally have q: "ws_queue c = H @ t" by (metis t_def append_take_drop_id)
  then have st: "t @ incoming (net_in c) = P @ rest" using s by (simp add: ws_stream_def ws_frame_def P_def H_def)
  have "H ! 0 = byte (128 OR (op AND 15))" "0 < length H" by (simp_all add: H_def ws_write_header_def Let_def)
  then have h0': "(H @ t) ! 0 = byte (128 OR (op AND 15))" by (simp add: nth_append)
  have mask: "take 4 (drop (hl - mask_size k) (H @ t)) = key_bytes k" if "k \<noteq> 0"
    using that by (simp add: hl_def H_def ws_write_header_def mask_size_def Let_def)
  have ap: "(if 0 < mask_size k then unmask (if 0 < mask_size k then take 4 (drop (hl - mask_size k) (H @ t)) else replicate 4 NUL) P else P) = data"
    using mask by (simp add: mask_size_def P_def)
  have dq: "drop hl (H @ t) = t" "drop (n + hl) (H @ t) = drop n t" for n by (simp_all add: hl_def)
  have lH: "length H = hl" by (simp add: hl_def)
  show ?thesis
  proof (cases "length t < length data")
    case True
    have "alive (net_in c)" using r by (simp add: ws_ready_def)
    moreover have "length data \<le> length (t @ incoming (net_in c))" unfolding st using lP by simp
    ultimately obtain net' where p: "pull_payload (net_in c) (length data) t = (True, take (length data) (t @ incoming (net_in c)), net')"
      "alive net'" "incoming net' = drop (length data - length t) (incoming (net_in c))"
      using pull_payload_alive [of "net_in c" t "length data"] True by auto
    have d: "take (length data) (t @ incoming (net_in c)) = P" unfolding st using lP by simp
    have "drop (length data) (t @ incoming (net_in c)) = rest" unfolding st using lP by simp
    then have i: "incoming net' = rest" using True p(3) by simp
    define c' where "c' = c\<lparr>net_in := net', data_len := request_len c\<rparr>"
    have "length (H @ t) < length data + hl" using True lH by simp
    then have "take_frame (\<lambda>_. True) hl (mask_size k) (length data) c = (Some (byte (128 OR (op AND 15)), data), c')"
      unfolding take_frame_def Let_def q dq(1) p(1) d prod.case h0' ap by (simp add: c'_def)
    moreover have "ws_ready c' \<and> ws_stream c' = rest \<and> stop_flag c' = stop_flag c \<and> must_close c' = must_close c"
      using r p(2) i by (simp add: c'_def ws_ready_def ws_stream_def ws_queue_def)
    ultimately show ?thesis unfolding H_def [symmetric] hl_def [symmetric] by blast
  next
    case False
    have "take (length data) (t @ incoming (net_in c)) = P" "drop (length data) (t @ incoming (net_in c)) = rest"
      unfolding st using lP by simp_all
    with False have tP: "take (length data) t = P" and tr: "drop (length data) t @ incoming (net_in c) = rest" by simp_all
    have lq: "length (ws_queue c) = data_len c - request_len c" using r by (auto simp: ws_queue_def ws_ready_def min_def)
    then have lt: "length H + length t = data_len c - request_len c" by (simp add: q)
    define moved where "moved = take (request_len c) (conn_buf c) @ drop (length data) t
      @ drop (request_len c + (length (H @ t) - (length data + hl))) (conn_buf c)"
    define c' where "c' = c\<lparr>conn_buf := moved, data_len := data_len c - (length data + hl)\<rparr>"
    have "\<not> length (H @ t) < length data + hl" using False lH by simp
    then have "take_frame (\<lambda>_. True) hl (mask_size k) (length data) c = (Some (byte (128 OR (op AND 15)), data), c')"
      unfolding take_frame_def Let_def q dq tP prod.case h0' ap by (simp add: c'_def moved_def)
    moreover have "length moved = length (conn_buf c)" using r lt lH False by (simp add: moved_def ws_ready_def) linarith
    moreover have "take (data_len c - (length data + hl) - request_len c) (drop (request_len c) moved) = drop (length data) t"
      using r lt lH False by (simp add: moved_def ws_ready_def)
    ultimately show ?thesis unfolding H_def [symmetric] hl_def [symmetric]
      using r lt lH False tr by (intro exI [of _ c']) (simp add: c'_def ws_ready_def ws_stream_def ws_queue_def, linarith)
  qed
qed

lemma ws_pull_ready:
  assumes r: "ws_ready c" and room: "length (ws_queue c) < 14" and pc: "pc \<le> MG_MAX_UNANSWERED_PING"
  shows "\<exists>go_on pc' c'. ws_pull False pc c = (go_on, pc', c') \<and>
    (if go_on then ws_ready c' \<and> ws_stream c' = ws_stream c \<and> stop_flag c' = stop_flag c \<and> must_close c' = must_close c
       \<and> pc' \<le> MG_MAX_UNANSWERED_PING
     else net_in c = [])"
proof -
  have lq: "length (ws_queue c) = data_len c - request_len c" using r by (auto simp: ws_queue_def ws_ready_def min_def)
  have sp: "0 < length (conn_buf c) - data_len c" using r room unfolding lq ws_ready_def by linarith
  obtain n bs again net where p: "pull_inner (net_in c) (length (conn_buf c) - data_len c) = (n, bs, again, net)" by (metis prod_cases4)
  have al: "alive (net_in c)" using r by (simp add: ws_ready_def)
  note f = pull_inner_alive [OF p al sp]
  then consider "n = int (length bs)" "bs \<noteq> []" "length bs \<le> length (conn_buf c) - data_len c" | "bs = []" "n = -1" | "net_in c = []" "n = -2"
    by blast
  then show ?thesis
  proof cases
    case 1
    define c' where "c' = c\<lparr>net_in := net, data_len := data_len c + length bs,
      conn_buf := take (data_len c) (conn_buf c) @ bs @ drop (data_len c + length bs) (conn_buf c)\<rparr>"
    have w: "ws_pull False pc c = (True, 0, c')" using 1 by (simp add: ws_pull_def p c'_def)
    have "request_len c \<le> data_len c" "data_len c \<le> length (conn_buf c)" using r by (simp_all add: ws_ready_def)
    then have "ws_queue c' = ws_queue c @ bs" by (simp add: c'_def ws_queue_def min_def) (simp add: drop_take)
    then have "ws_stream c' = ws_stream c" using f by (simp add: ws_stream_def c'_def)
    moreover have "ws_ready c'" using r f 1 by (simp add: ws_ready_def c'_def) linarith
    ultimately show ?thesis using w by (intro exI [of _ True] exI [of _ 0] exI [of _ c']) (simp add: c'_def)
  next
    case 2
    then have "ws_pull False pc c = (True, pc, c\<lparr>net_in := net\<rparr>)" using pc by (simp add: ws_pull_def p Let_def)
    moreover have "ws_queue (c\<lparr>net_in := net\<rparr>) = ws_queue c" by (simp add: ws_queue_def)
    ultimately show ?thesis using f 2 r pc
      by (intro exI [of _ True] exI [of _ pc] exI [of _ "c\<lparr>net_in := net\<rparr>"]) (simp add: ws_ready_def ws_stream_def)
  next
    case 3
    have "ws_pull False pc c = (False, pc, c\<lparr>net_in := net\<rparr>)" using 3(2) by (simp add: ws_pull_def p)
    with 3(1) show ?thesis by (intro exI [of _ False] exI [of _ pc] exI [of _ "c\<lparr>net_in := net\<rparr>"]) simp
  qed
qed

text \<open>What the application makes of a sequence of messages: it is told each in turn until it
  ends the connection or a close message has come.\<close>

fun ws_app :: "'s ws_data_handler \<Rightarrow> 's \<Rightarrow> (nat \<times> char list) list \<Rightarrow> 's" where
  "ws_app h s [] = s"
| "ws_app h s ((op, data) # msgs) =
     (case h s (128 OR (op AND 15)) data of
        (go_on, out, s') \<Rightarrow> if go_on \<and> op AND 15 \<noteq> 8 then ws_app h s' msgs else s')"

definition frames :: "(nat \<times> char list \<times> u32) list \<Rightarrow> char list" where
  "frames msgs = concat (map (\<lambda>(op, data, k). ws_frame op data k) msgs)"

lemma ws_ready_writes:
  assumes "ws_ready c"
  shows "ws_ready (ws_writes out c) \<and> ws_stream (ws_writes out c) = ws_stream c
    \<and> stop_flag (ws_writes out c) = stop_flag c \<and> must_close (ws_writes out c) = must_close c"
  using assms frame_fields [OF ws_writes_frame [of out c]]
  by (simp add: ws_ready_def ws_stream_def ws_queue_def)

lemma ws_loop_frames:
  "ws_ready c \<Longrightarrow> \<not> stop_flag c \<Longrightarrow> \<not> must_close c \<Longrightarrow> pc \<le> MG_MAX_UNANSWERED_PING \<Longrightarrow>
   ws_stream c = frames msgs \<Longrightarrow> \<forall>(op, data, k) \<in> set msgs. length data \<le> 0x7FFF0000 \<Longrightarrow>
   fst (ws_loop False (\<lambda>_. True) (Some h) pc s c) = ws_app h s (map (\<lambda>(op, data, k). (op, data)) msgs)"
proof (induction "ws_measure c" arbitrary: pc s c msgs rule: less_induct)
  case less
  note prems = less.prems
  have pulling: ?case if hd: "ws_header (ws_queue c) = Some (hl, ml, pl)" "hl = 0 \<or> length (ws_queue c) < hl"
    and short: "length (ws_queue c) < 14" and final: "net_in c = [] \<Longrightarrow> msgs = []" for hl ml pl
  proof -
    obtain go_on pc' c' where w: "ws_pull False pc c = (go_on, pc', c')" and
      f: "if go_on then ws_ready c' \<and> ws_stream c' = ws_stream c \<and> stop_flag c' = stop_flag c \<and> must_close c' = must_close c
       \<and> pc' \<le> MG_MAX_UNANSWERED_PING else net_in c = []" using ws_pull_ready [OF prems(1) short prems(4)] by blast
    have st: "ws_step False (\<lambda>_. True) (Some h) pc s c = (go_on, pc', s, c')"
      using hd by (auto simp: ws_step_def w)
    show ?case
    proof (cases go_on)
      case True
      with f prems less.hyps [of c' pc' msgs s] ws_step_measure [of False "\<lambda>_. True" "Some h" pc s c pc' s c'] st
      show ?thesis by (simp add: ws_loop.simps [of False "\<lambda>_. True" "Some h" pc s c])
    next
      case False
      with f final st prems show ?thesis by (simp add: ws_loop.simps [of False "\<lambda>_. True" "Some h" pc s c])
    qed
  qed
  show ?case
  proof (cases msgs)
    case Nil
    then have "ws_queue c = []" using prems(5) by (simp add: frames_def ws_stream_def)
    then show ?thesis using Nil by (intro pulling [of 0 0 0]) (simp_all add: ws_header_def)
  next
    case (Cons m msgs')
    obtain op data k where m: "m = (op, data, k)" by (metis prod_cases3)
    define H where "H = ws_write_header op (length data) k"
    have st: "ws_stream c = ws_frame op data k @ frames msgs'" using prems(5) by (simp add: Cons m frames_def)
    have len: "length data \<le> 0x7FFF0000" using prems(6) by (simp add: Cons m)
    show ?thesis
    proof (cases "length H \<le> length (ws_queue c)")
      case False
      have "length H \<le> 14" by (simp add: H_def length_ws_write_header ext_len_def mask_size_def)
      then have short: "length (ws_queue c) < 14" using False by simp
      obtain hl ml pl where "ws_header (ws_queue c) = Some (hl, ml, pl)" "hl = 0 \<or> length (ws_queue c) < hl"
        using ws_header_partial [OF ws_queue_prefix [OF st]] False by (auto simp: H_def)
      moreover have "net_in c \<noteq> []"
      proof
        assume "net_in c = []"
        then have "ws_queue c = ws_frame op data k @ frames msgs'" using st by (simp add: ws_stream_def)
        then show False using False by (simp add: ws_frame_def H_def)
      qed
      ultimately show ?thesis using short by (intro pulling) auto
    next
      case True
      obtain c1 where t: "take_frame (\<lambda>_. True) (length H) (mask_size k) (length data) c
          = (Some (byte (128 OR (op AND 15)), data), c1)" "ws_ready c1" "ws_stream c1 = frames msgs'"
        "stop_flag c1 = stop_flag c" "must_close c1 = must_close c"
        using take_frame_ready [OF prems(1) st] True unfolding H_def by blast
      have hd: "ws_header (ws_queue c) = Some (length H, mask_size k, length data)"
        using ws_header_frame [OF ws_queue_prefix [OF st] len] True unfolding H_def by blast
      have "0 < length H" by (simp add: H_def length_ws_write_header)
      then have "ws_step False (\<lambda>_. True) (Some h) pc s c
          = ws_deliver False (Some h) (ordc (byte (128 OR (op AND 15)))) data pc s c1"
        unfolding ws_step_def hd using True by (simp add: t(1) del: ordc_byte)
      also have "ordc (byte (128 OR (op AND 15))) = 128 OR (op AND 15)" using opcode_bits [of op] by simp
      finally have step: "ws_step False (\<lambda>_. True) (Some h) pc s c = ws_deliver False (Some h) (128 OR (op AND 15)) data pc s c1" .
      obtain go_on out s' where hr: "h s (128 OR (op AND 15)) data = (go_on, out, s')" by (metis prod_cases3)
      have step': "ws_step False (\<lambda>_. True) (Some h) pc s c = (go_on \<and> op AND 15 \<noteq> 8, pc, s', ws_writes out c1)"
        unfolding step using opcode_bits [of op] by (simp add: ws_deliver_def hr MG_WEBSOCKET_OPCODE_CONNECTION_CLOSE_def)
      have app: "ws_app h s (map (\<lambda>(op, data, k). (op, data)) msgs)
          = (if go_on \<and> op AND 15 \<noteq> 8 then ws_app h s' (map (\<lambda>(op, data, k). (op, data)) msgs') else s')"
        by (simp add: Cons m hr)
      show ?thesis
      proof (cases "go_on \<and> op AND 15 \<noteq> 8")
        case True
        then have "ws_measure (ws_writes out c1) < ws_measure c" using ws_step_measure [of False "\<lambda>_. True" "Some h" pc s c pc s' "ws_writes out c1"] step' by simp
        from less.hyps [OF this, of pc msgs' s'] ws_ready_writes [OF t(2), of out] t(3-5) prems
        show ?thesis
          unfolding ws_loop.simps [of False "\<lambda>_. True" "Some h" pc s c] step' Let_def prod.case
          using True by (simp add: app) (simp add: Cons)
      next
        case False
        then show ?thesis using prems
          unfolding ws_loop.simps [of False "\<lambda>_. True" "Some h" pc s c] step' Let_def prod.case
          by (auto simp: app)
      qed
    qed
  qed
qed

section \<open>Messages from a client to the application\<close>

text \<open>The key that \<open>mg_websocket_client_write\<close> picks.\<close>

definition ws_key :: "u32 list \<Rightarrow> u32" where
  "ws_key randoms = hd (dropWhile (\<lambda>k. k = 0) randoms)"

lemma ws_key_nonzero: "\<exists>k \<in> set randoms. k \<noteq> 0 \<Longrightarrow> ws_key randoms \<noteq> 0"
  by (induction randoms) (auto simp: ws_key_def)

lemma mg_websocket_client_write_accepts:
  assumes "writer_ok (length (ws_frame op data (ws_key rs)) + m) c" "\<exists>k \<in> set rs. k \<noteq> 0" "length data \<le> 0x7FFF0000"
  shows "\<exists>r c'. mg_websocket_client_write True aligned rs (Some c) op data = (r, Some c')
    \<and> net_out c' = net_out c @ ws_frame op data (ws_key rs) \<and> writer_ok m c'
    \<and> r = int (if data = [] then length (ws_frame op data (ws_key rs)) else length data)"
proof -
  define k where "k = ws_key rs"
  have k: "k \<noteq> 0" using ws_key_nonzero [OF assms(2)] by (simp add: k_def)
  define H where "H = ws_write_header op (length data) k"
  define P where "P = unmask (key_bytes k) data"
  have fr: "ws_frame op data k = H @ P" using k by (simp add: ws_frame_def H_def P_def)
  have lH: "length H \<le> 14" by (simp add: H_def length_ws_write_header ext_len_def mask_size_def)
  then have "int (length H) \<le> INT_MAX" by (simp add: INT_MAX_def)
  moreover have "writer_ok (length H + (length P + m)) c" using assms(1) by (simp add: k_def [symmetric] fr add.assoc)
  ultimately obtain c1 where c1: "mg_write (Some c) H = (int (length H), Some c1)" "net_out c1 = net_out c @ H"
    "writer_ok (length P + m) c1" using mg_write_accepts by blast
  moreover have "int (length P) \<le> INT_MAX" using assms(3) by (simp add: P_def INT_MAX_def)
  ultimately obtain c2 where c2: "mg_write (Some c1) P = (int (length P), Some c2)" "net_out c2 = net_out c1 @ P"
    "writer_ok m c2" using mg_write_accepts by blast
  have run: "mg_websocket_client_write True aligned rs (Some c) op data = mg_websocket_write_exec (Some c) op P k"
    by (simp add: mg_websocket_client_write_def mask_data_unmask ws_key_def [symmetric] k_def [symmetric] P_def)
  have lP: "length P = length data" by (simp add: P_def)
  show ?thesis
  proof (cases "data = []")
    case True
    then have "P = []" by (simp add: P_def unmask_def)
    with True c1 show ?thesis
      unfolding run k_def [symmetric] fr by (simp add: mg_websocket_write_exec_def H_def Let_def)
  next
    case False
    with c1 c2 lP show ?thesis
      unfolding run k_def [symmetric] fr by (simp add: mg_websocket_write_exec_def H_def [symmetric] Let_def)
  qed
qed

text \<open>The calls of the client for a list of messages, each with the random numbers drawn.\<close>

fun client_writes :: "bool \<Rightarrow> mg_connection option \<Rightarrow> (nat \<times> char list \<times> u32 list) list \<Rightarrow> mg_connection option" where
  "client_writes aligned c [] = c"
| "client_writes aligned c ((op, data, rs) # msgs) =
     client_writes aligned (snd (mg_websocket_client_write True aligned rs c op data)) msgs"

definition keyed :: "(nat \<times> char list \<times> u32 list) list \<Rightarrow> (nat \<times> char list \<times> u32) list" where
  "keyed msgs = map (\<lambda>(op, data, rs). (op, data, ws_key rs)) msgs"

definition writable :: "(nat \<times> char list \<times> u32 list) list \<Rightarrow> bool" where
  "writable msgs \<longleftrightarrow> list_all (\<lambda>(op, data, rs). length data \<le> 0x7FFF0000 \<and> list_ex (\<lambda>k. k \<noteq> 0) rs) msgs"

lemma client_writes_accepts:
  "writer_ok (length (frames (keyed msgs)) + m) c \<Longrightarrow> writable msgs \<Longrightarrow>
   \<exists>c'. client_writes aligned (Some c) msgs = Some c' \<and> net_out c' = net_out c @ frames (keyed msgs)"
proof (induction msgs arbitrary: c)
  case Nil
  then show ?case by (simp add: keyed_def frames_def)
next
  case (Cons x msgs)
  obtain op data rs where x: "x = (op, data, rs)" by (metis prod_cases3)
  have fr: "frames (keyed (x # msgs)) = ws_frame op data (ws_key rs) @ frames (keyed msgs)"
    by (simp add: x keyed_def frames_def)
  have "writer_ok (length (ws_frame op data (ws_key rs)) + (length (frames (keyed msgs)) + m)) c"
    using Cons.prems(1) by (simp add: fr add.assoc)
  moreover have "\<exists>k \<in> set rs. k \<noteq> 0" "length data \<le> 0x7FFF0000" "writable msgs"
    using Cons.prems(2) by (auto simp: writable_def x list_ex_iff)
  ultimately obtain r c1 where "mg_websocket_client_write True aligned rs (Some c) op data = (r, Some c1)"
    "net_out c1 = net_out c @ ws_frame op data (ws_key rs)" "writer_ok (length (frames (keyed msgs)) + m) c1"
    using mg_websocket_client_write_accepts by blast
  with Cons.IH [of c1] \<open>writable msgs\<close> show ?case by (simp add: fr [unfolded x] x)
qed


definition example_messages :: "(nat \<times> char list \<times> u32 list) list" where
  "example_messages = [(1, ''hello'', [0, 0x12345678]), (2, [], [7]), (8, ''x'', [9])]"

definition example_server :: "char list \<Rightarrow> mg_connection" where
  "example_server stream = example_writer\<lparr>conn_buf := ''GET'' @ take 3 stream @ replicate 20 NUL, request_len := 3,
     data_len := 6, net_in := [Quiet False, Data (take 6 (drop 3 stream)), Quiet True, Data (drop 9 stream)]\<rparr>"


section \<open>A peer that does not answer\<close>

definition ping :: "char list" where
  "ping = ws_frame MG_WEBSOCKET_OPCODE_PING [] 0"

lemma mg_websocket_write_ping:
  assumes "writer_ok (2 + m) c"
  shows "\<exists>c'. mg_websocket_write (Some c) MG_WEBSOCKET_OPCODE_PING [] = (2, Some c') \<and> net_out c' = net_out c @ ping
    \<and> writer_ok m c' \<and> frame c' = frame c"
proof -
  define H where "H = ws_write_header MG_WEBSOCKET_OPCODE_PING 0 0"
  have l: "length H = 2" by (simp add: H_def length_ws_write_header ext_len_def mask_size_def)
  obtain c1 where c1: "mg_write (Some c) H = (int (length H), Some c1)" "net_out c1 = net_out c @ H" "writer_ok m c1"
    using mg_write_accepts [of H m c] assms l by (auto simp: INT_MAX_def)
  have "ping = H" by (simp add: ping_def ws_frame_def H_def)
  moreover have "mg_websocket_write (Some c) MG_WEBSOCKET_OPCODE_PING [] = (2, Some c1)"
    using c1(1) l by (simp add: mg_websocket_write_def mg_websocket_write_exec_def H_def [symmetric])
  ultimately show ?thesis using c1 frame_mg_write [of c H] by simp
qed

definition silence :: "recv_event list \<Rightarrow> bool" where
  "silence net \<longleftrightarrow> list_all (\<lambda>e. case e of Quiet again \<Rightarrow> True | Data bs \<Rightarrow> False) net"

lemma ws_loop_silent:
  "length (ws_queue c) < 2 \<Longrightarrow> \<not> stop_flag c \<Longrightarrow> \<not> must_close c \<Longrightarrow> writer_ok (2 * k + m) c \<Longrightarrow> pc + k = 6 \<Longrightarrow>
   net_in c = qs @ rest \<Longrightarrow> length qs = Suc k \<Longrightarrow> silence qs \<Longrightarrow>
   \<exists>c'. ws_loop True alloc h pc s c = (s, c') \<and> net_out c' = net_out c @ concat (replicate k ping) \<and> net_in c' = rest"
proof (induction k arbitrary: pc c qs)
  case (0 pc c qs)
  then obtain a where qs: "net_in c = Quiet a # rest" by (cases qs) (auto simp: silence_def split: recv_event.splits)
  have "ws_pull True pc c = (False, pc, c\<lparr>net_in := rest\<rparr>)"
    using 0 by (simp add: ws_pull_def qs pull_inner_def MG_MAX_UNANSWERED_PING_def)
  then have "ws_step True alloc h pc s c = (False, pc, s, c\<lparr>net_in := rest\<rparr>)"
    using 0 by (simp add: ws_step_def ws_header_def)
  then show ?case using 0 by (simp add: ws_loop.simps [of True alloc h 6 s c])
next
  case (Suc k pc c qs)
  then obtain a qs' where qs: "qs = Quiet a # qs'" by (cases qs) (auto simp: silence_def split: recv_event.splits)
  define c0 where "c0 = c\<lparr>net_in := qs' @ rest\<rparr>"
  have "writer_ok (2 + (2 * k + m)) c0" using Suc.prems(4) by (simp add: c0_def writer_ok_def)
  then obtain c1 where w: "mg_websocket_write (Some c0) MG_WEBSOCKET_OPCODE_PING [] = (2, Some c1)"
    "net_out c1 = net_out c0 @ ping" "writer_ok (2 * k + m) c1" "frame c1 = frame c0"
    using mg_websocket_write_ping by blast
  have "ws_pull True pc c = (True, Suc pc, c1)"
    using Suc.prems w(1) by (simp add: ws_pull_def qs pull_inner_def MG_MAX_UNANSWERED_PING_def c0_def)
  then have st: "ws_step True alloc h pc s c = (True, Suc pc, s, c1)"
    using Suc.prems by (simp add: ws_step_def ws_header_def)
  have q: "ws_queue c1 = ws_queue c" "net_in c1 = qs' @ rest" "stop_flag c1 = stop_flag c" "must_close c1 = must_close c"
    "net_out c0 = net_out c"
    using frame_fields [OF w(4)] by (simp_all add: c0_def ws_queue_def)
  have "\<exists>c'. ws_loop True alloc h (Suc pc) s c1 = (s, c') \<and> net_out c' = net_out c1 @ concat (replicate k ping) \<and> net_in c' = rest"
    using Suc.prems q w(3) by (intro Suc.IH [of c1 "Suc pc" qs']) (simp_all add: qs silence_def)
  then show ?case using Suc.prems w(2) q st by (auto simp: ws_loop.simps [of True alloc h pc s c])
qed

text \<open>A peer that answers: silences, each ended by a pong, which the loop takes off and keeps to itself.\<close>

definition pong :: "char list \<times> u32 \<Rightarrow> char list" where
  "pong m = ws_frame MG_WEBSOCKET_OPCODE_PONG (fst m) (snd m)"

lemma frame_net_in: "frame (c\<lparr>net_in := net\<rparr>) = (frame c)\<lparr>net_in := net\<rparr>"
  by (cases c) (simp add: frame_def)

lemma ws_loop_pings:
  "length (ws_queue c) < 2 \<Longrightarrow> \<not> stop_flag c \<Longrightarrow> \<not> must_close c \<Longrightarrow> writer_ok (2 * length qs + m) c \<Longrightarrow> pc + length qs \<le> 6 \<Longrightarrow>
   net_in c = qs @ rest \<Longrightarrow> silence qs \<Longrightarrow>
   \<exists>c'. ws_loop True alloc h pc s c = ws_loop True alloc h (pc + length qs) s c' \<and> writer_ok m c' \<and> frame c' = frame (c\<lparr>net_in := rest\<rparr>)
     \<and> net_out c' = net_out c @ concat (replicate (length qs) ping)"
proof (induction qs arbitrary: pc c)
  case Nil
  then have rest: "rest = net_in c" by simp
  show ?case unfolding rest using Nil.prems(4) by (intro exI [of _ c]) simp
next
  case (Cons q qs)
  then obtain a where q: "q = Quiet a" by (auto simp: silence_def split: recv_event.splits)
  define c0 where "c0 = c\<lparr>net_in := qs @ rest\<rparr>"
  have "writer_ok (2 + (2 * length qs + m)) c0" using Cons.prems(4) by (simp add: c0_def writer_ok_def)
  then obtain c1 where w: "mg_websocket_write (Some c0) MG_WEBSOCKET_OPCODE_PING [] = (2, Some c1)"
    "net_out c1 = net_out c0 @ ping" "writer_ok (2 * length qs + m) c1" "frame c1 = frame c0"
    using mg_websocket_write_ping by blast
  have "ws_pull True pc c = (True, Suc pc, c1)"
    using Cons.prems w(1) by (simp add: ws_pull_def q pull_inner_def MG_MAX_UNANSWERED_PING_def c0_def)
  then have st: "ws_loop True alloc h pc s c = ws_loop True alloc h (Suc pc) s c1"
    using Cons.prems by (subst ws_loop.simps) (simp add: ws_step_def ws_header_def)
  have f: "ws_queue c1 = ws_queue c" "net_in c1 = qs @ rest" "stop_flag c1 = stop_flag c" "must_close c1 = must_close c"
    "net_out c0 = net_out c"
    using frame_fields [OF w(4)] by (simp_all add: c0_def ws_queue_def)
  have "frame (c1\<lparr>net_in := rest\<rparr>) = frame (c0\<lparr>net_in := rest\<rparr>)"
    using arg_cong [OF w(4), of "\<lambda>c. c\<lparr>net_in := rest\<rparr>"] by (simp add: frame_net_in)
  with Cons.IH [of c1 "Suc pc"] Cons.prems f w(2,3) show ?case by (auto simp: st c0_def silence_def)
qed

lemma ws_loop_pong:
  assumes "data_len c = request_len c" "request_len c + 131 \<le> length (conn_buf c)" "\<not> stop_flag c" "\<not> must_close c"
    and "net_in c = Data (pong m) # rest" "length (fst m) \<le> 125" "pc \<le> 6"
  shows "\<exists>b. length b = length (conn_buf c)
    \<and> ws_loop True alloc h pc s c = ws_loop True alloc h 0 s (c\<lparr>net_in := rest, conn_buf := b\<rparr>)"
proof -
  obtain data k where m: "m = (data, k)" by fastforce
  define H where "H = ws_write_header MG_WEBSOCKET_OPCODE_PONG (length data) k"
  define F where "F = pong m"
  have F: "F = ws_frame MG_WEBSOCKET_OPCODE_PONG data k" "length F = length H + length data" "2 \<le> length H" "length H \<le> 6"
    using assms(6) by (simp_all add: F_def pong_def m H_def ws_frame_def length_ws_write_header ext_len_def mask_size_def)
  then have room: "length F \<le> length (conn_buf c) - data_len c" "F \<noteq> []" using assms(1,2,6) m by auto
  define c1 where "c1 = c\<lparr>net_in := rest, data_len := data_len c + length F,
      conn_buf := take (data_len c) (conn_buf c) @ F @ drop (data_len c + length F) (conn_buf c)\<rparr>"
  have "pull_inner (net_in c) (length (conn_buf c) - data_len c) = (int (length F), F, False, rest)"
    using room F(3) F(2) by (simp add: pull_inner_def assms(5) F_def [symmetric])
  then have "ws_pull True pc c = (True, 0, c1)" using room by (simp add: ws_pull_def c1_def)
  moreover have "ws_queue c = []" using assms(1) by (simp add: ws_queue_def)
  ultimately have pull: "ws_loop True alloc h pc s c = ws_loop True alloc h 0 s c1"
    using assms(3,4) by (subst ws_loop.simps) (simp add: ws_step_def ws_header_def)
  have q: "ws_queue c1 = F" using assms(1,2) room by (simp add: ws_queue_def c1_def)
  have hd: "ws_header F = Some (length H, mask_size k, length data)"
    using ws_header_frame [of F MG_WEBSOCKET_OPCODE_PONG data k "[]"] F assms(6) m by (simp add: H_def)
  have "H ! 0 = byte (128 OR (MG_WEBSOCKET_OPCODE_PONG AND 15))" by (simp add: H_def ws_write_header_def Let_def)
  have "H \<noteq> []" using F(3) by auto
  with \<open>H ! 0 = byte (128 OR (MG_WEBSOCKET_OPCODE_PONG AND 15))\<close> have mop: "F ! 0 = byte (128 OR (MG_WEBSOCKET_OPCODE_PONG AND 15))"
    unfolding F(1) ws_frame_def H_def [symmetric] by (simp add: nth_append)
  define b where "b = take (request_len c) (conn_buf c1) @ drop (length F) F @ drop (request_len c + (length F - length F)) (conn_buf c1)"
  have c1: "request_len c1 = request_len c" "data_len c1 = request_len c + length F" "length (conn_buf c1) = length (conn_buf c)"
    using assms(1) room by (simp_all add: c1_def)
  have "length b = length (conn_buf c)" using assms(2) by (simp add: b_def c1(3))
  moreover have "length data \<le> 4096" "length data + length H = length F" using assms(6) m F(2) by simp_all
  then obtain data' where "take_frame alloc (length H) (mask_size k) (length data) c1
      = (Some (F ! 0, data'), c1\<lparr>conn_buf := b, data_len := request_len c\<rparr>)"
    unfolding take_frame_def Let_def q by (simp add: c1(1,2) b_def)
  ultimately have t: "take_frame alloc (length H) (mask_size k) (length data) c1
      = (Some (F ! 0, data'), c1\<lparr>conn_buf := b, data_len := request_len c\<rparr>)" "length b = length (conn_buf c)" by simp_all
  have op: "ordc (F ! 0) AND 15 = 10" using opcode_bits [of MG_WEBSOCKET_OPCODE_PONG] unfolding mop by (simp add: MG_WEBSOCKET_OPCODE_PONG_def)
  have "ws_step True alloc h 0 s c1 = (True, 0, s, c1\<lparr>conn_buf := b, data_len := request_len c\<rparr>)"
    using F(2) \<open>H \<noteq> []\<close> op by (simp add: ws_step_def q hd t ws_deliver_def MG_WEBSOCKET_OPCODE_PONG_def MG_WEBSOCKET_OPCODE_CONNECTION_CLOSE_def)
  then have "ws_loop True alloc h 0 s c1 = ws_loop True alloc h 0 s (c1\<lparr>conn_buf := b, data_len := request_len c\<rparr>)"
    using assms(3,4) by (subst ws_loop.simps) (simp add: c1_def)
  moreover have "c1\<lparr>conn_buf := b, data_len := request_len c\<rparr> = c\<lparr>net_in := rest, conn_buf := b\<rparr>"
    using assms(1) by (cases c) (simp add: c1_def)
  ultimately show ?thesis using t(2) unfolding pull by (intro exI [of _ b]) simp
qed

lemma ws_loop_answers:
  "\<forall>(qs, m) \<in> set rounds. silence qs \<and> length qs \<le> 6 \<and> length (fst m) \<le> 125 \<Longrightarrow>
   data_len c = request_len c \<Longrightarrow> request_len c + 131 \<le> length (conn_buf c) \<Longrightarrow> \<not> stop_flag c \<Longrightarrow> \<not> must_close c \<Longrightarrow>
   writer_ok (2 * sum_list (map (length \<circ> fst) rounds) + n) c \<Longrightarrow> net_in c = concat (map (\<lambda>(qs, m). qs @ [Data (pong m)]) rounds) @ rest \<Longrightarrow>
   \<exists>c'. ws_loop True alloc h 0 s c = ws_loop True alloc h 0 s c' \<and> writer_ok n c' \<and> data_len c' = request_len c'
     \<and> request_len c' + 131 \<le> length (conn_buf c') \<and> \<not> stop_flag c' \<and> \<not> must_close c' \<and> net_in c' = rest
     \<and> net_out c' = net_out c @ concat (replicate (sum_list (map (length \<circ> fst) rounds)) ping)"
proof (induction rounds arbitrary: c)
  case Nil
  then show ?case by (intro exI [of _ c]) simp
next
  case (Cons r rounds)
  obtain qs m where r: "r = (qs, m)" by (cases r)
  define k where "k = sum_list (map (length \<circ> fst) rounds)"
  define net where "net = concat (map (\<lambda>(qs, m). qs @ [Data (pong m)]) rounds) @ rest"
  have e: "sum_list (map (length \<circ> fst) (r # rounds)) = length qs + k" by (simp add: r k_def)
  have q: "length (ws_queue c) < 2" using Cons.prems(2) by (simp add: ws_queue_def)
  have w: "writer_ok (2 * length qs + (2 * k + n)) c" using Cons.prems(6) unfolding e by (simp add: add.assoc)
  have "silence qs" "0 + length qs \<le> 6" "net_in c = qs @ (Data (pong m) # net)" using Cons.prems(1,7) by (simp_all add: r net_def)
  note run = ws_loop_pings [OF q Cons.prems(4,5) w this(2,3,1), of alloc h s, unfolded add_0]
  obtain c1 where
    c1: "ws_loop True alloc h 0 s c = ws_loop True alloc h (length qs) s c1" "writer_ok (2 * k + n) c1"
      "frame c1 = frame (c\<lparr>net_in := Data (pong m) # net\<rparr>)" "net_out c1 = net_out c @ concat (replicate (length qs) ping)"
    using run by (elim exE conjE) (rule that)
  note f = frame_fields [OF c1(3)]
  have m: "length (fst m) \<le> 125" "length qs \<le> 6" using Cons.prems(1) by (simp_all add: r)
  obtain b where b: "length b = length (conn_buf c1)"
    "ws_loop True alloc h (length qs) s c1 = ws_loop True alloc h 0 s (c1\<lparr>net_in := net, conn_buf := b\<rparr>)"
    using ws_loop_pong [of c1 m net "length qs" alloc h s] f Cons.prems(2-5) m by auto
  define c2 where "c2 = c1\<lparr>net_in := net, conn_buf := b\<rparr>"
  have "\<exists>c'. ws_loop True alloc h 0 s c2 = ws_loop True alloc h 0 s c' \<and> writer_ok n c' \<and> data_len c' = request_len c'
     \<and> request_len c' + 131 \<le> length (conn_buf c') \<and> \<not> stop_flag c' \<and> \<not> must_close c' \<and> net_in c' = rest
     \<and> net_out c' = net_out c2 @ concat (replicate (sum_list (map (length \<circ> fst) rounds)) ping)"
    using c1(2) by (intro Cons.IH; (subst k_def [symmetric])?) (use Cons.prems f b(1) in \<open>simp_all add: c2_def net_def writer_ok_def\<close>)
  moreover have "net_out c2 = net_out c @ concat (replicate (length qs) ping)" by (simp add: c2_def c1(4))
  ultimately show ?case unfolding c1(1) b(2) c2_def [symmetric] e k_def [symmetric] by (simp add: replicate_add)
qed

text \<open>C40: with the ping option set, a peer that answers is kept and one that falls silent between two messages is given up.
  After each timeout in which nothing has come the loop sends one ping. However often up to six timeouts have been followed by a
  pong, which resets the count, once seven come in a row (\<open>MG_MAX_UNANSWERED_PING\<close> and two more) the loop ends: six more pings have
  been sent, nothing has been told to the application, and what comes later is left in the network. This is for a peer with
  no part of a message waiting; one that stops inside a payload is waited for without pings
  (\<open>silent_in_payload\<close>).\<close>

theorem silent_peer_dropped:
  assumes "mg_strcasecmp yes ''yes'' = 0" "\<not> stop_flag c" "\<not> must_close c" "data_len c = request_len c"
    and "request_len c + 131 \<le> length (conn_buf c)" "\<forall>(qs, m) \<in> set rounds. silence qs \<and> length qs \<le> 6 \<and> length (fst m) \<le> 125"
    and "net_in c = concat (map (\<lambda>(qs, m). qs @ [Data (ws_frame MG_WEBSOCKET_OPCODE_PONG (fst m) (snd m))]) rounds) @ qs @ rest"
    and "length qs = 7" "silence qs" "pings = sum_list (map (length \<circ> fst) rounds) + 6" "writer_ok (2 * pings) c"
  shows "\<exists>c'. read_websocket (Some yes) alloc h s c = (s, c')
    \<and> net_out c' = net_out c @ concat (replicate pings (map byte [0x89, 0])) \<and> net_in c' = rest"
proof -
  have p: "ping = map byte [0x89, 0]"
    by (simp add: ping_def ws_frame_def ws_write_header_def MG_WEBSOCKET_OPCODE_PING_def)
  have w: "writer_ok (2 * sum_list (map (length \<circ> fst) rounds) + (2 * 6 + 0)) c" using assms(10,11) by simp
  obtain c1 where c1: "ws_loop True alloc h 0 s c = ws_loop True alloc h 0 s c1" "writer_ok (2 * 6 + 0) c1" "data_len c1 = request_len c1"
    "\<not> stop_flag c1" "\<not> must_close c1" "net_in c1 = qs @ rest"
    "net_out c1 = net_out c @ concat (replicate (sum_list (map (length \<circ> fst) rounds)) ping)"
    using ws_loop_answers [OF assms(6,4,5,2,3) w, of "qs @ rest" alloc h s] assms(7) by (auto simp: pong_def)
  have "length (ws_queue c1) < 2" using c1(3) by (simp add: ws_queue_def)
  from ws_loop_silent [OF this c1(4,5,2) _ c1(6) _ assms(9), of 0 alloc h s] assms(8) obtain c' where
    "ws_loop True alloc h 0 s c1 = (s, c')" "net_out c' = net_out c1 @ concat (replicate 6 ping)" "net_in c' = rest" by auto
  then show ?thesis using assms(1) c1(1,7) p by (simp add: read_websocket_def assms(10) replicate_add)
qed

theorem silent_peer_dropped_witness:
  "\<exists>c'. read_websocket (Some ''YES'') (\<lambda>_. True) None (3 :: nat)
      (example_writer\<lparr>conn_buf := replicate 200 NUL, net_in := [Quiet True, Quiet False,
        Data (ws_frame MG_WEBSOCKET_OPCODE_PONG ''x'' 5)] @ replicate 7 (Quiet True) @ replicate 2 (Quiet True)\<rparr>) = (3, c')
    \<and> net_out c' = concat (replicate 8 (map byte [0x89, 0])) \<and> net_in c' = replicate 2 (Quiet True)"
proof -
  let ?rounds = "[([Quiet True, Quiet False], (''x'', 5 :: u32))]"
  define c where "c = example_writer\<lparr>conn_buf := replicate 200 NUL, net_in := [Quiet True, Quiet False,
        Data (ws_frame MG_WEBSOCKET_OPCODE_PONG ''x'' 5)] @ replicate 7 (Quiet True) @ replicate 2 (Quiet True)\<rparr>"
  have y: "mg_strcasecmp ''YES'' ''yes'' = 0" by code_simp
  have c: "\<not> stop_flag c" "\<not> must_close c" "data_len c = request_len c" "request_len c + 131 \<le> length (conn_buf c)" "net_out c = []"
    "net_in c = concat (map (\<lambda>(qs, m). qs @ [Data (ws_frame MG_WEBSOCKET_OPCODE_PONG (fst m) (snd m))]) ?rounds)
      @ replicate 7 (Quiet True) @ replicate 2 (Quiet True)" "writer_ok (2 * 8) c"
    by (simp_all add: c_def example_writer_def writer_ok_def accepts_def list_all_iff)
  have s: "silence (replicate 7 (Quiet True))" "\<forall>(qs, m) \<in> set ?rounds. silence qs \<and> length qs \<le> 6 \<and> length (fst m) \<le> 125"
    "(8 :: nat) = sum_list (map (length \<circ> fst) ?rounds) + 6"
    by (simp_all add: silence_def list_all_iff)
  show ?thesis
    unfolding c_def [symmetric]
    using silent_peer_dropped [OF y c(1-4) s(2) c(6) _ s(1,3) c(7), of "\<lambda>_. True" None 3] c(5) by simp
qed

text \<open>A peer that stops inside a payload: every timeout is taken for nothing, no ping is sent and none is counted.\<close>

lemma silent_in_payload:
  "length data < plen \<Longrightarrow> silence qs \<Longrightarrow> pull_payload (qs @ rest) plen data = pull_payload rest plen data"
proof (induction qs)
  case (Cons q qs)
  then obtain a where "q = Quiet a" by (auto simp: silence_def split: recv_event.splits)
  with Cons show ?case by (subst pull_payload.simps) (simp add: pull_inner_def silence_def)
qed simp

end
