(* ===== verification/Queue.thy ===== *)
theory Queue
  imports Prelude
begin

text \<open>
  The queue of accepted sockets between the master thread and the worker threads: the ring
  buffer \<open>squeue\<close> with its two indices, the critical sections of \<open>produce_socket\<close> and
  \<open>consume_socket\<close>, and the steps of any number of threads that run them. A thread that waits on
  a condition variable may wake at any time (POSIX permits spurious wakeups), so every order in
  which the threads can get the mutex is an execution.
\<close>

section \<open>The code\<close>

record 'a sq_context =
  squeue :: "'a list"
  sq_head :: int
  sq_tail :: int
  sq_size :: int
  sq_blocked :: bool
  sq_stop :: bool

text \<open>The loop that wraps the indices; it does not return for a size that is not positive.\<close>

partial_function (option) wrap :: "int \<Rightarrow> int \<Rightarrow> int \<Rightarrow> (int \<times> int) option" where
  "wrap head tail n = (if n < tail then wrap (head - n) (tail - n) n else Some (head, tail))"

definition sq_put :: "'a \<Rightarrow> 'a sq_context \<Rightarrow> 'a sq_context" where
  "sq_put sp ctx =
     ctx\<lparr>squeue := (squeue ctx)[nat (sq_head ctx mod sq_size ctx) := sp], sq_head := sq_head ctx + 1\<rparr>"

definition sq_get :: "'a sq_context \<Rightarrow> ('a \<times> 'a sq_context) option" where
  "sq_get ctx =
     (let sp = squeue ctx ! nat (sq_tail ctx mod sq_size ctx)
      in case wrap (sq_head ctx) (sq_tail ctx + 1) (sq_size ctx) of
           None \<Rightarrow> None
         | Some (head, tail) \<Rightarrow> Some (sp, ctx\<lparr>sq_head := head, sq_tail := tail\<rparr>))"

text \<open>The critical sections, from the test of the waiting loop to the next wait or the end.
  \<open>woken\<close> tells whether the thread comes out of its wait.\<close>

datatype produced = Produce_waits | Queued | Dropped

definition produce_socket :: "bool \<Rightarrow> 'a \<Rightarrow> 'a sq_context \<Rightarrow> produced \<times> 'a sq_context" where
  "produce_socket woken sp ctx =
     (let ctx = (if woken then ctx\<lparr>sq_blocked := False\<rparr> else ctx);
          queue_filled = sq_head ctx - sq_tail ctx
      in if \<not> sq_stop ctx \<and> sq_size ctx \<le> queue_filled then (Produce_waits, ctx\<lparr>sq_blocked := True\<rparr>)
         else if queue_filled < sq_size ctx then (Queued, sq_put sp ctx)
         else (Dropped, ctx))"

text \<open>The result of \<open>consume_socket\<close>: it waits, or returns with the socket it took, if any, and
  whether the server goes on. \<open>None\<close> stands for the loop that does not end.\<close>

datatype 'a consumed = Consume_waits | Returned "'a option" bool

definition consume_socket :: "'a sq_context \<Rightarrow> ('a consumed \<times> 'a sq_context) option" where
  "consume_socket ctx =
     (if sq_head ctx = sq_tail ctx \<and> \<not> sq_stop ctx then Some (Consume_waits, ctx)
      else if sq_tail ctx < sq_head ctx
      then case sq_get ctx of
             None \<Rightarrow> None
           | Some (sp, ctx) \<Rightarrow> Some (Returned (Some sp) (\<not> sq_stop ctx), ctx)
      else Some (Returned None (\<not> sq_stop ctx), ctx))"

section \<open>The threads\<close>

datatype 'a thread = Idle | Producing 'a | Consuming

datatype 'a sq_event = Put 'a | Drop 'a | Take 'a | Leave | Stop | Silent

record 'a sq_system =
  sq_ctx :: "'a sq_context"
  threads :: "nat \<Rightarrow> 'a thread"

inductive sq_step :: "'a sq_system \<Rightarrow> 'a sq_event \<Rightarrow> 'a sq_system \<Rightarrow> bool" where
  produce_waits:
    "threads s t = Idle \<and> woken = False \<or> threads s t = Producing sp \<and> woken = True \<Longrightarrow>
     produce_socket woken sp (sq_ctx s) = (Produce_waits, c) \<Longrightarrow>
     sq_step s Silent (s\<lparr>sq_ctx := c, threads := (threads s)(t := Producing sp)\<rparr>)"
| produce_queues:
    "threads s t = Idle \<and> woken = False \<or> threads s t = Producing sp \<and> woken = True \<Longrightarrow>
     produce_socket woken sp (sq_ctx s) = (Queued, c) \<Longrightarrow>
     sq_step s (Put sp) (s\<lparr>sq_ctx := c, threads := (threads s)(t := Idle)\<rparr>)"
| produce_drops:
    "threads s t = Idle \<and> woken = False \<or> threads s t = Producing sp \<and> woken = True \<Longrightarrow>
     produce_socket woken sp (sq_ctx s) = (Dropped, c) \<Longrightarrow>
     sq_step s (Drop sp) (s\<lparr>sq_ctx := c, threads := (threads s)(t := Idle)\<rparr>)"
| consume_waits:
    "threads s t = Idle \<or> threads s t = Consuming \<Longrightarrow>
     consume_socket (sq_ctx s) = Some (Consume_waits, c) \<Longrightarrow>
     sq_step s Silent (s\<lparr>sq_ctx := c, threads := (threads s)(t := Consuming)\<rparr>)"
| consume_takes:
    "threads s t = Idle \<or> threads s t = Consuming \<Longrightarrow>
     consume_socket (sq_ctx s) = Some (Returned (Some sp) go_on, c) \<Longrightarrow>
     sq_step s (Take sp) (s\<lparr>sq_ctx := c, threads := (threads s)(t := Idle)\<rparr>)"
| consume_leaves:
    "threads s t = Idle \<or> threads s t = Consuming \<Longrightarrow>
     consume_socket (sq_ctx s) = Some (Returned None go_on, c) \<Longrightarrow>
     sq_step s Leave (s\<lparr>sq_ctx := c, threads := (threads s)(t := Idle)\<rparr>)"
| stops: "sq_step s Stop (s\<lparr>sq_ctx := (sq_ctx s)\<lparr>sq_stop := True\<rparr>\<rparr>)"

inductive_cases sq_step_PutE [elim]: "sq_step s (Put sp) s'"
inductive_cases sq_step_DropE [elim]: "sq_step s (Drop sp) s'"
inductive_cases sq_step_TakeE [elim]: "sq_step s (Take sp) s'"

inductive sq_run :: "'a sq_system \<Rightarrow> 'a sq_event list \<Rightarrow> 'a sq_system \<Rightarrow> bool" where
  sq_run_Nil: "sq_run s [] s"
| sq_run_snoc: "sq_run s evs s' \<Longrightarrow> sq_step s' e s'' \<Longrightarrow> sq_run s (evs @ [e]) s''"

inductive_simps sq_run_Nil_simps [simp]: "sq_run s [] s'"

definition sq_init :: "'a list \<Rightarrow> 'a sq_system" where
  "sq_init mem = \<lparr>sq_ctx = \<lparr>squeue = mem, sq_head = 0, sq_tail = 0, sq_size = int (length mem), sq_blocked = False,
     sq_stop = False\<rparr>, threads = (\<lambda>t. Idle)\<rparr>"

section \<open>A bounded first-in first-out queue\<close>

locale bounded_fifo =
  fixes ok :: "'q \<Rightarrow> bool"
    and items :: "'q \<Rightarrow> 'a list"
    and capacity :: "'q \<Rightarrow> nat"
    and put :: "'a \<Rightarrow> 'q \<Rightarrow> 'q"
    and get :: "'q \<Rightarrow> ('a \<times> 'q) option"
  assumes put_ok: "ok q \<Longrightarrow> length (items q) < capacity q \<Longrightarrow>
      ok (put x q) \<and> items (put x q) = items q @ [x] \<and> capacity (put x q) = capacity q"
    and get_ok: "ok q \<Longrightarrow> items q = x # xs \<Longrightarrow>
      \<exists>q'. get q = Some (x, q') \<and> ok q' \<and> items q' = xs \<and> capacity q' = capacity q"
    and bounded: "ok q \<Longrightarrow> length (items q) \<le> capacity q"
begin

text \<open>What went in is what came out and what is still there.\<close>

definition history :: "'q \<Rightarrow> 'a list \<Rightarrow> 'a list \<Rightarrow> bool" where
  "history q ins outs \<longleftrightarrow> ok q \<and> ins = outs @ items q"

lemma history_put:
  "history q ins outs \<Longrightarrow> length (items q) < capacity q \<Longrightarrow> history (put x q) (ins @ [x]) outs"
  using put_ok [of q x] by (simp add: history_def)

lemma history_get:
  "history q ins outs \<Longrightarrow> items q \<noteq> [] \<Longrightarrow> get q = Some (x, q') \<Longrightarrow> history q' ins (outs @ [x])"
  using get_ok [of q "hd (items q)" "tl (items q)"] by (auto simp: history_def)

lemma history_prefix: "history q ins outs \<Longrightarrow> take (length outs) ins = outs"
  by (simp add: history_def)

end

section \<open>The ring buffer is one\<close>

definition sq_ok :: "'a sq_context \<Rightarrow> bool" where
  "sq_ok c \<longleftrightarrow> 0 < sq_size c \<and> int (length (squeue c)) = sq_size c \<and> 0 \<le> sq_tail c \<and> sq_tail c \<le> sq_size c
     \<and> sq_tail c \<le> sq_head c \<and> sq_head c \<le> sq_tail c + sq_size c"

definition sq_items :: "'a sq_context \<Rightarrow> 'a list" where
  "sq_items c = map (\<lambda>i. squeue c ! nat (i mod sq_size c)) [sq_tail c..sq_head c - 1]"

definition sq_capacity :: "'a sq_context \<Rightarrow> nat" where
  "sq_capacity c = nat (sq_size c)"

lemma length_sq_items: "length (sq_items c) = nat (sq_head c - sq_tail c)"
  by (simp add: sq_items_def)

lemma sq_put_items:
  assumes "sq_ok c" "length (sq_items c) < sq_capacity c"
  shows "sq_ok (sq_put x c) \<and> sq_items (sq_put x c) = sq_items c @ [x] \<and> sq_capacity (sq_put x c) = sq_capacity c"
proof -
  have room: "sq_head c < sq_tail c + sq_size c" using assms by (auto simp: length_sq_items sq_capacity_def sq_ok_def)
  define m where "m = nat (sq_head c mod sq_size c)"
  have m: "m < length (squeue c)" using assms(1) by (simp add: m_def sq_ok_def nat_less_iff)
  have other: "nat (i mod sq_size c) \<noteq> m" if i: "sq_tail c \<le> i" "i < sq_head c" for i
  proof
    assume "nat (i mod sq_size c) = m"
    then have "i mod sq_size c = sq_head c mod sq_size c"
      using assms(1) pos_mod_sign [of "sq_size c" i] pos_mod_sign [of "sq_size c" "sq_head c"]
      by (simp add: m_def sq_ok_def eq_nat_nat_iff)
    then have "sq_size c dvd sq_head c - i" by (metis mod_eq_dvd_iff)
    then have "sq_size c \<le> sq_head c - i" using i by (intro zdvd_imp_le) simp_all
    then show False using room i by simp
  qed
  have "[sq_tail c..sq_head c] = [sq_tail c..sq_head c - 1] @ [sq_head c]"
    using assms(1) by (simp add: upto_rec2 sq_ok_def)
  moreover have "map (\<lambda>i. (squeue c)[m := x] ! nat (i mod sq_size c)) [sq_tail c..sq_head c - 1] = sq_items c"
    using other [THEN not_sym] by (auto simp: sq_items_def)
  ultimately have "sq_items (sq_put x c) = sq_items c @ [x]"
    using m by (simp add: sq_items_def sq_put_def m_def [symmetric])
  then show ?thesis using assms(1) room by (simp add: sq_ok_def sq_put_def sq_capacity_def)
qed

lemma wrap_once: "0 < size' \<Longrightarrow> tail' \<le> size' + 1 \<Longrightarrow>
  wrap head tail' size' = Some (if tail' \<le> size' then (head, tail') else (head - size', tail' - size'))"
  by (subst wrap.simps, simp, subst wrap.simps) simp

lemma sq_get_items:
  assumes "sq_ok c" "sq_items c = x # xs"
  shows "\<exists>c'. sq_get c = Some (x, c') \<and> sq_ok c' \<and> sq_items c' = xs \<and> sq_capacity c' = sq_capacity c"
proof -
  have lt: "sq_tail c < sq_head c" using assms(2) length_sq_items [of c] by simp
  then have "[sq_tail c..sq_head c - 1] = sq_tail c # [sq_tail c + 1..sq_head c - 1]" by (simp add: upto_rec1)
  then have x: "x = squeue c ! nat (sq_tail c mod sq_size c)"
    and xs: "xs = map (\<lambda>i. squeue c ! nat (i mod sq_size c)) [sq_tail c + 1..sq_head c - 1]"
    using assms(2) by (simp_all add: sq_items_def)
  have pos: "0 < sq_size c" "sq_tail c + 1 \<le> sq_size c + 1" using assms(1) by (simp_all add: sq_ok_def)
  note w = wrap_once [OF pos, of "sq_head c"]
  show ?thesis
  proof (cases "sq_tail c + 1 \<le> sq_size c")
    case True
    then show ?thesis using assms(1) lt
      by (auto simp: sq_get_def w x xs sq_ok_def sq_items_def sq_capacity_def)
  next
    case False
    have shift: "[a - s..b - s - 1] = map (\<lambda>i. i - s) [a..b - 1]" for a b s :: int
    proof (rule nth_equalityI)
      show "[a - s..b - s - 1] ! i = map (\<lambda>i. i - s) [a..b - 1] ! i" if "i < length [a - s..b - s - 1]" for i
        using that by (simp add: nth_upto)
    qed simp
    have "(i - sq_size c) mod sq_size c = i mod sq_size c" for i by simp
    with False show ?thesis using assms(1) lt shift [of "sq_tail c + 1" "sq_size c" "sq_head c"]
      by (auto simp: sq_get_def w x xs sq_ok_def sq_items_def sq_capacity_def)
  qed
qed

interpretation ring: bounded_fifo sq_ok sq_items sq_capacity sq_put sq_get
proof
  show "sq_ok q \<Longrightarrow> length (sq_items q) < sq_capacity q \<Longrightarrow>
      sq_ok (sq_put x q) \<and> sq_items (sq_put x q) = sq_items q @ [x] \<and> sq_capacity (sq_put x q) = sq_capacity q" for q x
    by (rule sq_put_items)
  show "sq_ok q \<Longrightarrow> sq_items q = x # xs \<Longrightarrow>
      \<exists>q'. sq_get q = Some (x, q') \<and> sq_ok q' \<and> sq_items q' = xs \<and> sq_capacity q' = sq_capacity q" for q x xs
    by (rule sq_get_items)
  show "sq_ok q \<Longrightarrow> length (sq_items q) \<le> sq_capacity q" for q
    by (simp add: sq_ok_def length_sq_items sq_capacity_def nat_mono)
qed

lemmas sq_defs = produce_socket_def consume_socket_def Let_def

lemma sq_ok_blocked [simp]: "sq_ok (c\<lparr>sq_blocked := b\<rparr>) = sq_ok c" "sq_items (c\<lparr>sq_blocked := b\<rparr>) = sq_items c"
    "sq_capacity (c\<lparr>sq_blocked := b\<rparr>) = sq_capacity c"
  by (simp_all add: sq_ok_def sq_items_def sq_capacity_def)

lemma history_blocked [simp]: "ring.history (c\<lparr>sq_blocked := b\<rparr>) ins outs = ring.history c ins outs"
  by (simp add: ring.history_def)

lemma history_stop [simp]: "ring.history (c\<lparr>sq_stop := b\<rparr>) ins outs = ring.history c ins outs"
  by (simp add: ring.history_def sq_ok_def sq_items_def)

lemma sq_filled: "sq_ok c \<Longrightarrow> sq_head c - sq_tail c < sq_size c \<longleftrightarrow> length (sq_items c) < sq_capacity c"
  by (auto simp: length_sq_items sq_capacity_def sq_ok_def)

lemma sq_nonempty: "sq_tail c < sq_head c \<longleftrightarrow> sq_items c \<noteq> []"
  using length_sq_items [of c] by (cases "sq_items c") auto

section \<open>Every execution\<close>

definition puts :: "'a sq_event list \<Rightarrow> 'a list" where
  "puts evs = concat (map (\<lambda>e. case e of Put x \<Rightarrow> [x] | _ \<Rightarrow> []) evs)"

definition takes :: "'a sq_event list \<Rightarrow> 'a list" where
  "takes evs = concat (map (\<lambda>e. case e of Take x \<Rightarrow> [x] | _ \<Rightarrow> []) evs)"

lemma history_produce:
  assumes "ring.history c ins outs" "produce_socket woken x c = (r, c')"
  shows "ring.history c' (if r = Queued then ins @ [x] else ins) outs
    \<and> (r = Produce_waits \<longrightarrow> sq_blocked c' \<and> length (sq_items c') = sq_capacity c')
    \<and> (r = Dropped \<longrightarrow> sq_stop c' \<and> length (sq_items c') = sq_capacity c')
    \<and> sq_stop c' = sq_stop c \<and> sq_capacity c' = sq_capacity c"
proof -
  define c0 where "c0 = (if woken then c\<lparr>sq_blocked := False\<rparr> else c)"
  have h: "ring.history c0 ins outs" and ok: "sq_ok c0"
    and same: "sq_head c0 = sq_head c" "sq_tail c0 = sq_tail c" "sq_size c0 = sq_size c" "sq_stop c0 = sq_stop c"
      "sq_capacity c0 = sq_capacity c"
    using assms(1) by (auto simp: c0_def ring.history_def sq_capacity_def)
  have full: "length (sq_items c0) = sq_capacity c0" if "\<not> sq_head c0 - sq_tail c0 < sq_size c0"
    using that sq_filled [OF ok] ring.bounded [OF ok] by simp
  show ?thesis
  proof (cases "sq_head c0 - sq_tail c0 < sq_size c0")
    case True
    then have "r = Queued" "c' = sq_put x c0"
      using assms(2) by (auto simp: produce_socket_def c0_def Let_def split: if_splits)
    with ring.history_put [OF h, of x] True sq_filled [OF ok] same show ?thesis
      by (simp add: sq_put_def sq_capacity_def)
  next
    case False
    with assms(2) full [OF False] h same show ?thesis
      by (auto simp: produce_socket_def c0_def Let_def split: if_splits)
  qed
qed

lemma history_consume:
  assumes "ring.history c ins outs"
  shows "\<exists>r c'. consume_socket c = Some (r, c') \<and> sq_stop c' = sq_stop c \<and> sq_capacity c' = sq_capacity c \<and>
    (case r of Consume_waits \<Rightarrow> c' = c \<and> sq_items c = [] \<and> \<not> sq_stop c
     | Returned None go_on \<Rightarrow> c' = c \<and> sq_items c = [] \<and> sq_stop c \<and> \<not> go_on
     | Returned (Some x) go_on \<Rightarrow> ring.history c' ins (outs @ [x]) \<and> go_on = (\<not> sq_stop c))"
proof (cases "sq_items c")
  case Nil
  then have "sq_head c = sq_tail c"
    using sq_nonempty [of c] assms by (auto simp: ring.history_def sq_ok_def)
  with Nil show ?thesis by (auto simp: consume_socket_def)
next
  case (Cons x xs)
  have ok: "sq_ok c" using assms by (simp add: ring.history_def)
  obtain c' where g: "sq_get c = Some (x, c')" "sq_capacity c' = sq_capacity c" using ring.get_ok [OF ok Cons] by blast
  then have "sq_stop c' = sq_stop c" by (auto simp: sq_get_def split: option.splits)
  moreover have "sq_tail c < sq_head c" using sq_nonempty [of c] Cons by simp
  moreover have "ring.history c' ins (outs @ [x])" using ring.history_get [OF assms _ g(1)] Cons by simp
  ultimately show ?thesis using g by (simp add: consume_socket_def)
qed

definition sq_inv :: "nat \<Rightarrow> 'a sq_event list \<Rightarrow> 'a sq_system \<Rightarrow> bool" where
  "sq_inv n evs s \<longleftrightarrow> ring.history (sq_ctx s) (puts evs) (takes evs) \<and> sq_capacity (sq_ctx s) = n
     \<and> (sq_stop (sq_ctx s) \<longrightarrow> Stop \<in> set evs) \<and> (\<forall>x. Drop x \<in> set evs \<longrightarrow> Stop \<in> set evs)"

lemma puts_snoc [simp]: "puts (evs @ [e]) = puts evs @ (case e of Put x \<Rightarrow> [x] | _ \<Rightarrow> [])"
  by (simp add: puts_def)

lemma takes_snoc [simp]: "takes (evs @ [e]) = takes evs @ (case e of Take x \<Rightarrow> [x] | _ \<Rightarrow> [])"
  by (simp add: takes_def)

lemma sq_step_inv:
  assumes "sq_step s e s'" "sq_inv n evs s"
  shows "sq_inv n (evs @ [e]) s'"
proof -
  have h: "ring.history (sq_ctx s) (puts evs) (takes evs)" using assms(2) by (simp add: sq_inv_def)
  from assms(1) show ?thesis
  proof cases
    case (produce_waits t woken sp c)
    with history_produce [OF h produce_waits(4)] assms(2) show ?thesis by (auto simp: sq_inv_def)
  next
    case (produce_queues t woken sp c)
    with history_produce [OF h produce_queues(4)] assms(2) show ?thesis by (auto simp: sq_inv_def)
  next
    case (produce_drops t woken sp c)
    with history_produce [OF h produce_drops(4)] assms(2) show ?thesis by (auto simp: sq_inv_def)
  next
    case (consume_waits t c)
    with history_consume [OF h] assms(2) show ?thesis by (auto simp: sq_inv_def)
  next
    case (consume_takes t sp go_on c)
    with history_consume [OF h] assms(2) show ?thesis by (auto simp: sq_inv_def)
  next
    case (consume_leaves t go_on c)
    with history_consume [OF h] assms(2) show ?thesis by (auto simp: sq_inv_def)
  next
    case stops
    with h assms(2) show ?thesis by (auto simp: sq_inv_def sq_capacity_def)
  qed
qed

lemma sq_run_inv: "sq_run s evs s' \<Longrightarrow> sq_inv n [] s \<Longrightarrow> sq_inv n evs s'"
  by (induction rule: sq_run.induct) (auto intro: sq_step_inv)

lemma sq_init_inv: "mem \<noteq> [] \<Longrightarrow> sq_inv (length mem) [] (sq_init mem)"
  by (simp add: sq_inv_def sq_init_def ring.history_def sq_ok_def sq_items_def sq_capacity_def puts_def takes_def)

text \<open>C15: the socket queue is a first-in first-out queue for every interleaving of the threads.
  In every execution the sockets taken by the workers, followed by those still in the ring, are
  exactly the sockets queued by the master, in order: none is lost or duplicated. The ring
  never holds more than its size, no socket is dropped before the server is stopped, and the
  indices stay between 0 and twice the size, so that they do not overflow.\<close>

theorem socket_queue_fifo:
  assumes "mem \<noteq> []" "sq_run (sq_init mem) evs s"
  shows "puts evs = takes evs @ sq_items (sq_ctx s) \<and> length (sq_items (sq_ctx s)) \<le> length mem
    \<and> (Drop x \<in> set evs \<longrightarrow> Stop \<in> set evs)
    \<and> 0 \<le> sq_tail (sq_ctx s) \<and> sq_tail (sq_ctx s) \<le> sq_head (sq_ctx s) \<and> sq_head (sq_ctx s) \<le> 2 * int (length mem)"
proof -
  have "sq_inv (length mem) evs s" using sq_run_inv sq_init_inv assms by blast
  then have inv: "ring.history (sq_ctx s) (puts evs) (takes evs)" "sq_capacity (sq_ctx s) = length mem"
    "Drop x \<in> set evs \<longrightarrow> Stop \<in> set evs" by (auto simp: sq_inv_def)
  then have ok: "sq_ok (sq_ctx s)" by (simp add: ring.history_def)
  then have "sq_size (sq_ctx s) = int (length mem)" using inv(2) by (auto simp: sq_ok_def sq_capacity_def)
  then show ?thesis using inv ring.bounded [OF ok] ok by (simp add: ring.history_def sq_ok_def)
qed

text \<open>A run of two threads on a ring of two places, with a wait of the worker.\<close>

definition example_ring :: "nat sq_context" where
  "example_ring = \<lparr>squeue = [7, 0], sq_head = 1, sq_tail = 0, sq_size = 2, sq_blocked = False, sq_stop = False\<rparr>"

lemma example_run:
  "\<exists>s. sq_run (sq_init [0, 0 :: nat]) [Silent, Put 7, Take 7] s"
proof -
  let ?s0 = "sq_init [0, 0 :: nat]"
  let ?s1 = "?s0\<lparr>sq_ctx := sq_ctx ?s0, threads := (threads ?s0)(1 := Consuming)\<rparr>"
  let ?s2 = "?s1\<lparr>sq_ctx := example_ring, threads := (threads ?s1)(0 := Idle)\<rparr>"
  let ?c = "example_ring\<lparr>sq_head := 1, sq_tail := 1\<rparr>"
  let ?s3 = "?s2\<lparr>sq_ctx := ?c, threads := (threads ?s2)(1 := Idle)\<rparr>"
  have "sq_step ?s0 Silent ?s1"
    by (rule consume_waits) (simp_all add: sq_init_def consume_socket_def)
  moreover have "sq_step ?s1 (Put 7) ?s2"
    by (rule produce_queues [where woken = False])
      (simp_all add: sq_init_def produce_socket_def sq_put_def example_ring_def)
  moreover have "sq_step ?s2 (Take 7) ?s3"
    by (rule consume_takes [where go_on = True])
      (simp_all add: sq_init_def consume_socket_def sq_get_def example_ring_def wrap_once)
  ultimately have "sq_run ?s0 ((([] @ [Silent]) @ [Put 7]) @ [Take 7]) ?s3"
    by (blast intro: sq_run.intros)
  then show ?thesis by auto
qed

theorem socket_queue_fifo_witness:
  "\<exists>s. sq_run (sq_init [0, 0 :: nat]) [Silent, Put 7, Take 7] s \<and> sq_items (sq_ctx s) = []"
proof -
  obtain s where s: "sq_run (sq_init [0, 0 :: nat]) [Silent, Put 7, Take 7] s" using example_run by blast
  from socket_queue_fifo [OF _ s] have "puts [Silent, Put 7, Take 7] = takes [Silent, Put 7, Take (7 :: nat)] @ sq_items (sq_ctx s)"
    by simp
  then have "sq_items (sq_ctx s) = []" by (simp add: puts_def takes_def)
  with s show ?thesis by blast
qed

end
