(* ===== verification/Handlers.thy ===== *)
theory Handlers
  imports Headers
begin

text \<open>
  The registry of the application's handlers: the linked list of \<open>mg_handler_info\<close> of a domain,
  \<open>mg_set_handler_type\<close> that adds, changes and removes its nodes, \<open>get_request_handler\<close> that
  looks a URI up and takes a reference, and \<open>release_handler_ref\<close> that gives it back. Each runs
  under the context's lock; a request handler that is in use is not changed or freed: the setter
  gives up the lock and searches again.

  Pointers to functions and to user data are numbers, \<open>None\<close> for \<open>NULL\<close>; the address of a node
  is \<open>node\<close>, so that a pointer to it can be told from one to a node allocated later.
\<close>

section \<open>The code\<close>

datatype handler_type = REQUEST_HANDLER | WEBSOCKET_HANDLER | AUTH_HANDLER

type_synonym ptr = "nat option"

record ws_handlers =
  subprotocols :: ptr
  connect_handler :: ptr
  ready_handler :: ptr
  data_handler :: ptr
  close_handler :: ptr

record mg_handler_info =
  node :: nat
  uri :: string
  htype :: handler_type
  req_handler :: ptr
  refcount :: u32
  removing :: bool
  ws :: ws_handlers
  auth_handler :: ptr
  cbdata :: ptr

definition no_ws :: "ws_handlers \<Rightarrow> bool" where
  "no_ws w \<longleftrightarrow> connect_handler w = None \<and> ready_handler w = None \<and> data_handler w = None \<and> close_handler w = None"

text \<open>The arguments of \<open>mg_set_handler_type\<close>, and the test at its beginning.\<close>

record handler_request =
  r_uri :: string
  r_type :: handler_type
  r_delete :: bool
  r_handler :: ptr
  r_ws :: ws_handlers
  r_auth :: ptr
  r_cbdata :: ptr

definition valid_request :: "handler_request \<Rightarrow> bool" where
  "valid_request r =
     (case r_type r of
        WEBSOCKET_HANDLER \<Rightarrow> r_handler r = None \<and> (r_delete r \<or> \<not> no_ws (r_ws r)) \<and> r_auth r = None
      | REQUEST_HANDLER \<Rightarrow> no_ws (r_ws r) \<and> (r_delete r \<or> r_handler r \<noteq> None) \<and> r_auth r = None
      | AUTH_HANDLER \<Rightarrow> r_handler r = None \<and> no_ws (r_ws r) \<and> (r_delete r \<or> r_auth r \<noteq> None))"

definition set_fields :: "handler_request \<Rightarrow> mg_handler_info \<Rightarrow> mg_handler_info" where
  "set_fields r h =
     (let h = (case r_type r of
                 REQUEST_HANDLER \<Rightarrow> h\<lparr>req_handler := r_handler r\<rparr>
               | WEBSOCKET_HANDLER \<Rightarrow> h\<lparr>ws := r_ws r\<rparr>
               | AUTH_HANDLER \<Rightarrow> h\<lparr>auth_handler := r_auth r\<rparr>)
      in h\<lparr>cbdata := r_cbdata r\<rparr>)"

text \<open>The search for an existing handler. \<open>Busy\<close>: the handler is in use, the lock is given up
  and the search starts again.\<close>

datatype search = Done | Busy | Not_found

fun set_existing :: "handler_request \<Rightarrow> mg_handler_info list \<Rightarrow> search \<times> mg_handler_info list" where
  "set_existing r [] = (Not_found, [])"
| "set_existing r (h # hs) =
     (if htype h = r_type r \<and> length (r_uri r) = length (uri h) \<and> uri h = r_uri r
      then if \<not> r_delete r
           then if r_type r = REQUEST_HANDLER \<and> refcount h \<noteq> 0 then (Busy, h # hs)
                else (Done, set_fields r h # hs)
           else if r_type r = REQUEST_HANDLER \<and> refcount h \<noteq> 0 then (Busy, h\<lparr>removing := True\<rparr> # hs)
           else (Done, hs)
      else let (res, hs') = set_existing r hs in (res, h # hs'))"

definition new_handler :: "handler_request \<Rightarrow> nat \<Rightarrow> mg_handler_info" where
  "new_handler r a =
     set_fields r \<lparr>node = a, uri = r_uri r, htype = r_type r, req_handler = None, refcount = 0, removing = False,
       ws = \<lparr>subprotocols = None, connect_handler = None, ready_handler = None, data_handler = None, close_handler = None\<rparr>,
       auth_handler = None, cbdata = None\<rparr>"

text \<open>One turn of \<open>mg_set_handler_type\<close> under the lock; \<open>malloc\<close> is the address of the new node,
  if there is memory for it and for the copy of the URI. The flag tells that it has to try again.\<close>

definition mg_set_handler_type :: "nat option \<Rightarrow> handler_request \<Rightarrow> mg_handler_info list \<Rightarrow> bool \<times> mg_handler_info list" where
  "mg_set_handler_type malloc r handlers =
     (if \<not> valid_request r then (False, handlers)
      else case set_existing r handlers of
             (Done, hs) \<Rightarrow> (False, hs)
           | (Busy, hs) \<Rightarrow> (True, hs)
           | (Not_found, hs) \<Rightarrow>
               if r_delete r then (False, hs)
               else case malloc of None \<Rightarrow> (False, hs)
                    | Some a \<Rightarrow> (False, hs @ [new_handler r a]))"

definition no_handlers :: ws_handlers where
  "no_handlers = \<lparr>subprotocols = None, connect_handler = None, ready_handler = None, data_handler = None, close_handler = None\<rparr>"

definition mg_set_request_handler :: "nat option \<Rightarrow> string \<Rightarrow> ptr \<Rightarrow> ptr \<Rightarrow> mg_handler_info list \<Rightarrow> bool \<times> mg_handler_info list" where
  "mg_set_request_handler malloc u h data =
     mg_set_handler_type malloc \<lparr>r_uri = u, r_type = REQUEST_HANDLER, r_delete = (h = None), r_handler = h,
       r_ws = no_handlers, r_auth = None, r_cbdata = data\<rparr>"

definition mg_set_websocket_handler_with_subprotocols ::
    "nat option \<Rightarrow> string \<Rightarrow> ws_handlers \<Rightarrow> ptr \<Rightarrow> mg_handler_info list \<Rightarrow> bool \<times> mg_handler_info list" where
  "mg_set_websocket_handler_with_subprotocols malloc u w data =
     mg_set_handler_type malloc \<lparr>r_uri = u, r_type = WEBSOCKET_HANDLER, r_delete = no_ws w, r_handler = None,
       r_ws = w, r_auth = None, r_cbdata = data\<rparr>"

definition mg_set_websocket_handler ::
    "nat option \<Rightarrow> string \<Rightarrow> ptr \<Rightarrow> ptr \<Rightarrow> ptr \<Rightarrow> ptr \<Rightarrow> ptr \<Rightarrow> mg_handler_info list \<Rightarrow> bool \<times> mg_handler_info list" where
  "mg_set_websocket_handler malloc u c r d cl data =
     mg_set_websocket_handler_with_subprotocols malloc u
       \<lparr>subprotocols = None, connect_handler = c, ready_handler = r, data_handler = d, close_handler = cl\<rparr> data"

definition mg_set_auth_handler :: "nat option \<Rightarrow> string \<Rightarrow> ptr \<Rightarrow> ptr \<Rightarrow> mg_handler_info list \<Rightarrow> bool \<times> mg_handler_info list" where
  "mg_set_auth_handler malloc u h data =
     mg_set_handler_type malloc \<lparr>r_uri = u, r_type = AUTH_HANDLER, r_delete = (h = None), r_handler = None,
       r_ws = no_handlers, r_auth = h, r_cbdata = data\<rparr>"

text \<open>The lookup: the test of step 0, 1 and 2 for one node, the inner loop, and the outer one.\<close>

definition matched :: "nat \<Rightarrow> mg_handler_info \<Rightarrow> string \<Rightarrow> bool" where
  "matched step h u =
     (if step = 0 then length (uri h) = length u \<and> uri h = u
      else if step = 1
      then length (uri h) < length u \<and> cat u (length (uri h)) = CHR ''/'' \<and> uri h = take (length (uri h)) u
      else 0 < match_prefix (uri h) u)"

fun find_handler :: "nat \<Rightarrow> handler_type \<Rightarrow> string \<Rightarrow> mg_handler_info list \<Rightarrow> mg_handler_info option" where
  "find_handler step t u [] = None"
| "find_handler step t u (h # hs) =
     (if htype h \<noteq> t then find_handler step t u hs
      else if matched step h u then Some h
      else find_handler step t u hs)"

definition acquire :: "nat \<Rightarrow> mg_handler_info list \<Rightarrow> mg_handler_info list" where
  "acquire a hs = map (\<lambda>h. if node h = a then h\<lparr>refcount := refcount h + 1\<rparr> else h) hs"

fun get_request_handler_from ::
    "nat \<Rightarrow> handler_type \<Rightarrow> string \<Rightarrow> mg_handler_info list \<Rightarrow> mg_handler_info option \<times> mg_handler_info list" where
  "get_request_handler_from 0 t u hs = (None, hs)"
| "get_request_handler_from (Suc n) t u hs =
     (case find_handler (3 - Suc n) t u hs of
        None \<Rightarrow> get_request_handler_from n t u hs
      | Some h \<Rightarrow>
          if t = REQUEST_HANDLER
          then if removing h then (None, hs) else (Some h, acquire (node h) hs)
          else (Some h, hs))"

definition get_request_handler :: "handler_type \<Rightarrow> string \<Rightarrow> mg_handler_info list \<Rightarrow> mg_handler_info option \<times> mg_handler_info list" where
  "get_request_handler t u hs = get_request_handler_from 3 t u hs"

definition release_handler_ref :: "nat option \<Rightarrow> mg_handler_info list \<Rightarrow> mg_handler_info list" where
  "release_handler_ref handler_info hs =
     (case handler_info of None \<Rightarrow> hs
      | Some a \<Rightarrow> map (\<lambda>h. if node h = a then h\<lparr>refcount := refcount h - 1\<rparr> else h) hs)"

section \<open>What a turn of the setter does\<close>

definition same_key :: "handler_request \<Rightarrow> mg_handler_info \<Rightarrow> bool" where
  "same_key r h \<longleftrightarrow> htype h = r_type r \<and> uri h = r_uri r"

definition in_use :: "mg_handler_info \<Rightarrow> bool" where
  "in_use h \<longleftrightarrow> htype h = REQUEST_HANDLER \<and> refcount h \<noteq> 0"

lemma set_fields_same [simp]:
  "node (set_fields r h) = node h" "uri (set_fields r h) = uri h" "htype (set_fields r h) = htype h"
  "refcount (set_fields r h) = refcount h" "removing (set_fields r h) = removing h"
  by (simp_all add: set_fields_def Let_def split: handler_type.splits)

lemma new_handler_fields [simp]:
  "node (new_handler r a) = a" "uri (new_handler r a) = r_uri r" "htype (new_handler r a) = r_type r"
  "refcount (new_handler r a) = 0"
  by (simp_all add: new_handler_def)

lemma set_existing_cases:
  obtains (not_found) "set_existing r hs = (Not_found, hs)" "\<forall>h \<in> set hs. \<not> same_key r h"
  | (busy) pre h post where "hs = pre @ h # post" "same_key r h" "\<forall>x \<in> set pre. \<not> same_key r x" "in_use h"
      "set_existing r hs = (Busy, pre @ (if r_delete r then h\<lparr>removing := True\<rparr> else h) # post)"
  | (finished) pre h post where "hs = pre @ h # post" "same_key r h" "\<forall>x \<in> set pre. \<not> same_key r x" "\<not> in_use h"
      "set_existing r hs = (Done, pre @ (if r_delete r then [] else [set_fields r h]) @ post)"
proof (induction hs arbitrary: thesis)
  case (Cons x hs)
  show ?case
  proof (cases "same_key r x")
    case True
    then have k: "htype x = r_type r" "uri x = r_uri r" by (simp_all add: same_key_def)
    show ?thesis
    proof (cases "in_use x")
      case iu: True
      with k True show ?thesis by (intro Cons.prems(2) [of "[]" x hs]) (auto simp: in_use_def)
    next
      case iu: False
      with k True show ?thesis by (intro Cons.prems(3) [of "[]" x hs]) (auto simp: in_use_def)
    qed
  next
    case False
    then have step: "set_existing r (x # hs) = (fst (set_existing r hs), x # snd (set_existing r hs))"
      by (auto simp: same_key_def split: prod.split)
    show ?thesis
    proof (rule Cons.IH)
      assume "set_existing r hs = (Not_found, hs)" "\<forall>h \<in> set hs. \<not> same_key r h"
      with False step show ?thesis by (intro Cons.prems(1)) simp_all
    next
      fix pre h post
      assume "hs = pre @ h # post" "same_key r h" "\<forall>x \<in> set pre. \<not> same_key r x" "in_use h"
        "set_existing r hs = (Busy, pre @ (if r_delete r then h\<lparr>removing := True\<rparr> else h) # post)"
      with False step show ?thesis by (intro Cons.prems(2) [of "x # pre" h post]) simp_all
    next
      fix pre h post
      assume "hs = pre @ h # post" "same_key r h" "\<forall>x \<in> set pre. \<not> same_key r x" "\<not> in_use h"
        "set_existing r hs = (Done, pre @ (if r_delete r then [] else [set_fields r h]) @ post)"
      with False step show ?thesis by (intro Cons.prems(3) [of "x # pre" h post]) simp_all
    qed
  qed
qed simp

text \<open>The registry as a map: what is installed for a type and a URI.\<close>

type_synonym installed = "ptr \<times> ws_handlers \<times> ptr"

definition value_of :: "mg_handler_info \<Rightarrow> installed" where
  "value_of h = (case htype h of REQUEST_HANDLER \<Rightarrow> (req_handler h, no_handlers, cbdata h)
     | WEBSOCKET_HANDLER \<Rightarrow> (None, ws h, cbdata h) | AUTH_HANDLER \<Rightarrow> (auth_handler h, no_handlers, cbdata h))"

definition value_set :: "handler_request \<Rightarrow> installed" where
  "value_set r = (case r_type r of REQUEST_HANDLER \<Rightarrow> (r_handler r, no_handlers, r_cbdata r)
     | WEBSOCKET_HANDLER \<Rightarrow> (None, r_ws r, r_cbdata r) | AUTH_HANDLER \<Rightarrow> (r_auth r, no_handlers, r_cbdata r))"

definition key_of :: "mg_handler_info \<Rightarrow> handler_type \<times> string" where
  "key_of h = (htype h, uri h)"

definition registered :: "mg_handler_info list \<Rightarrow> handler_type \<times> string \<Rightarrow> installed option" where
  "registered hs = map_of (map (\<lambda>h. (key_of h, value_of h)) hs)"

definition unique_keys :: "mg_handler_info list \<Rightarrow> bool" where
  "unique_keys hs \<longleftrightarrow> distinct (map key_of hs)"

lemma value_of_set_fields: "htype h = r_type r \<Longrightarrow> value_of (set_fields r h) = value_set r"
  by (simp add: value_of_def value_set_def set_fields_def Let_def split: handler_type.splits)

lemma value_of_new: "value_of (new_handler r a) = value_set r"
  unfolding new_handler_def by (rule value_of_set_fields) simp

lemma key_of_simps [simp]: "key_of (set_fields r h) = key_of h" "key_of (h\<lparr>removing := b\<rparr>) = key_of h"
    "key_of (h\<lparr>refcount := n\<rparr>) = key_of h" "value_of (h\<lparr>removing := b\<rparr>) = value_of h"
    "value_of (h\<lparr>refcount := n\<rparr>) = value_of h" "key_of (new_handler r a) = (r_type r, r_uri r)"
  by (simp_all add: key_of_def value_of_def split: handler_type.split)

lemma same_key_iff: "same_key r h \<longleftrightarrow> key_of h = (r_type r, r_uri r)"
  by (auto simp: same_key_def key_of_def)

lemma registered_append: "registered (xs @ ys) = registered ys ++ registered xs"
  by (simp add: registered_def)

lemma registered_Cons: "registered (h # hs) = (registered hs)(key_of h \<mapsto> value_of h)"
  by (simp add: registered_def)

lemma registered_None: "k \<notin> key_of ` set hs \<longleftrightarrow> registered hs k = None"
  by (force simp: registered_def map_of_eq_None_iff)

lemma mg_set_handler_type_map:
  assumes run: "mg_set_handler_type (Some a) r hs = (again, hs')" and v: "valid_request r" and u: "unique_keys hs"
  shows "unique_keys hs'
    \<and> registered hs' = (if again then registered hs
        else (registered hs)((r_type r, r_uri r) := (if r_delete r then None else Some (value_set r))))"
proof (cases rule: set_existing_cases [of r hs])
  case not_found
  define k where "k = (r_type r, r_uri r)"
  have n: "k \<notin> key_of ` set hs" using not_found(2) by (auto simp: same_key_iff k_def)
  show ?thesis
  proof (cases "r_delete r")
    case True
    then have "again = False" "hs' = hs" using run v not_found(1) by (simp_all add: mg_set_handler_type_def)
    moreover have "(registered hs)(k := None) = registered hs" using n registered_None by (auto simp: fun_upd_idem)
    ultimately show ?thesis using u True by (simp add: k_def)
  next
    case False
    then have e: "again = False" "hs' = hs @ [new_handler r a]" using run v not_found(1) by (auto simp: mg_set_handler_type_def)
    moreover have "registered hs' = (registered hs)(k \<mapsto> value_set r)"
      using n registered_None [of k hs]
      by (auto simp: e registered_append registered_Cons registered_def [of "[]"] value_of_new k_def map_add_def fun_eq_iff split: option.split)
    ultimately show ?thesis using u n False by (auto simp: unique_keys_def k_def)
  qed
next
  case (busy pre h post)
  then have "again = True" "hs' = pre @ (if r_delete r then h\<lparr>removing := True\<rparr> else h) # post"
    using run v by (simp_all add: mg_set_handler_type_def)
  then show ?thesis using busy(1) u by (auto simp: unique_keys_def registered_append registered_Cons)
next
  case (finished pre h post)
  then have e: "again = False" "hs' = pre @ (if r_delete r then [] else [set_fields r h]) @ post"
    using run v by (simp_all add: mg_set_handler_type_def)
  have k: "key_of h = (r_type r, r_uri r)" "htype h = r_type r"
    using finished(2) by (simp_all add: same_key_def key_of_def)
  have d: "key_of h \<notin> key_of ` set pre" "key_of h \<notin> key_of ` set post"
    using u finished(1) by (auto simp: unique_keys_def)
  then have nn: "registered pre (key_of h) = None" "registered post (key_of h) = None" using registered_None by blast+
  have upd: "(registered post)(key_of h := x) ++ registered pre = (registered post ++ registered pre)(key_of h := x)" for x
    using nn by (auto simp: map_add_def fun_eq_iff split: option.split)
  have idem: "(registered post ++ registered pre)(key_of h := None) = registered post ++ registered pre"
    using nn by (simp add: fun_upd_idem map_add_def)
  show ?thesis
  proof (cases "r_delete r")
    case True
    with e u d finished(1) show ?thesis
      using idem by (auto simp: unique_keys_def registered_append registered_Cons k(1) [symmetric] upd)
  next
    case False
    with e u d finished(1) show ?thesis
      by (auto simp: unique_keys_def registered_append registered_Cons k(1) [symmetric] upd value_of_set_fields [OF k(2)])
  qed
qed

section \<open>The registry as an interface\<close>

text \<open>A registry whose updates may have to be tried again.\<close>

locale registry =
  fixes ok :: "'s \<Rightarrow> bool"
    and lookup :: "'s \<Rightarrow> 'k \<Rightarrow> 'v option"
    and valid :: "'r \<Rightarrow> bool"
    and key :: "'r \<Rightarrow> 'k"
    and val :: "'r \<Rightarrow> 'v option"
    and update :: "'r \<Rightarrow> 's \<Rightarrow> bool \<times> 's"
  assumes update_ok: "ok s \<Longrightarrow> valid r \<Longrightarrow> update r s = (again, s') \<Longrightarrow>
    ok s' \<and> lookup s' = (if again then lookup s else (lookup s)(key r := val r))"
begin

text \<open>A sequence of updates, and those of them that were done.\<close>

fun updates :: "'r list \<Rightarrow> 's \<Rightarrow> 'r list \<times> 's" where
  "updates [] s = ([], s)"
| "updates (r # rs) s =
     (let (again, s) = update r s; (done_rs, s) = updates rs s
      in (if again then done_rs else r # done_rs, s))"

lemma updates_lookup:
  "ok s \<Longrightarrow> list_all valid rs \<Longrightarrow> updates rs s = (done_rs, s') \<Longrightarrow>
   ok s' \<and> lookup s' = fold (\<lambda>r m. m(key r := val r)) done_rs (lookup s)"
proof (induction rs arbitrary: s done_rs)
  case (Cons r rs)
  obtain again s1 where u: "update r s = (again, s1)" by fastforce
  obtain d2 s2 where us: "updates rs s1 = (d2, s2)" by fastforce
  have "ok s1 \<and> lookup s1 = (if again then lookup s else (lookup s)(key r := val r))"
    using update_ok [OF Cons.prems(1) _ u] Cons.prems(2) by simp
  with Cons.IH [of s1 d2] Cons.prems us show ?case by (auto simp: u fun_upd_def split: if_splits)
qed simp

lemma updates_last:
  assumes "ok s" "list_all valid (rs @ [r])" "updates rs s = (done_rs, s')" "update r s' = (False, s'')"
  shows "lookup s'' (key r) = val r"
  using updates_lookup [of s rs done_rs s'] update_ok [of s' r False s''] assms by simp

end

lemma mg_set_handler_type_registry:
  "unique_keys hs \<Longrightarrow> valid_request (snd x) \<Longrightarrow> mg_set_handler_type (Some (fst x)) (snd x) hs = (again, hs') \<Longrightarrow>
   unique_keys hs' \<and> registered hs' = (if again then registered hs
     else (registered hs)((r_type (snd x), r_uri (snd x)) := (if r_delete (snd x) then None else Some (value_set (snd x)))))"
  using mg_set_handler_type_map by blast

interpretation reg: registry unique_keys registered "\<lambda>x. valid_request (snd x)" "\<lambda>x. (r_type (snd x), r_uri (snd x))"
  "\<lambda>x. if r_delete (snd x) then None else Some (value_set (snd x))" "\<lambda>x. mg_set_handler_type (Some (fst x)) (snd x)"
  by unfold_locales (rule mg_set_handler_type_registry)

section \<open>What the lookup finds\<close>

definition candidates :: "handler_type \<Rightarrow> string \<Rightarrow> mg_handler_info list \<Rightarrow> mg_handler_info list" where
  "candidates t u hs =
     concat (map (\<lambda>step. filter (\<lambda>h. htype h = t \<and> matched step h u) hs) [0, 1, 2])"

lemma find_handler_filter:
  "find_handler step t u hs = (case filter (\<lambda>h. htype h = t \<and> matched step h u) hs of [] \<Rightarrow> None | h # _ \<Rightarrow> Some h)"
  by (induction hs) auto

lemma get_request_handler_candidates:
  "get_request_handler t u hs =
     (case candidates t u hs of [] \<Rightarrow> (None, hs)
      | h # _ \<Rightarrow> if t = REQUEST_HANDLER then if removing h then (None, hs) else (Some h, acquire (node h) hs) else (Some h, hs))"
proof -
  define f where "f step = filter (\<lambda>h. htype h = t \<and> matched step h u) hs" for step
  have fh: "find_handler step t u hs = (case f step of [] \<Rightarrow> None | h # _ \<Rightarrow> Some h)" for step
    by (simp add: find_handler_filter f_def)
  have c: "candidates t u hs = f 0 @ f 1 @ f 2" by (simp add: candidates_def f_def)
  have g: "get_request_handler t u hs = get_request_handler_from (Suc (Suc (Suc 0))) t u hs"
    by (simp add: get_request_handler_def numeral_3_eq_3)
  have n: "3 - Suc (Suc (Suc 0)) = 0" "3 - Suc (Suc 0) = 1" "3 - Suc 0 = (2 :: nat)" by simp_all
  show ?thesis unfolding c g get_request_handler_from.simps n fh
    by (cases "f 0"; cases "f 1"; cases "f 2") simp_all
qed

lemma matched_exact: "matched 0 h u \<longleftrightarrow> uri h = u"
  by (auto simp: matched_def)

lemma matched_below: "matched 1 h u \<longleftrightarrow> (\<exists>rest. u = uri h @ CHR ''/'' # rest)"
proof
  assume m: "matched 1 h u"
  then have "length (uri h) < length u" "u ! length (uri h) = CHR ''/''" "uri h = take (length (uri h)) u"
    by (auto simp: matched_def cat_def)
  then have "u = uri h @ CHR ''/'' # drop (Suc (length (uri h))) u" by (metis id_take_nth_drop)
  then show "\<exists>rest. u = uri h @ CHR ''/'' # rest" by blast
qed (auto simp: matched_def cat_def)

lemma candidates_exact:
  assumes "unique_keys hs" "registered hs (t, u) = Some v"
  shows "\<exists>h cs. candidates t u hs = h # cs \<and> h \<in> set hs \<and> key_of h = (t, u) \<and> value_of h = v"
proof -
  from assms(2) have "((t, u), v) \<in> set (map (\<lambda>h. (key_of h, value_of h)) hs)"
    unfolding registered_def by (rule map_of_SomeD)
  then obtain h where h: "h \<in> set hs" "key_of h = (t, u)" "value_of h = v" by auto
  then have "h \<in> set (filter (\<lambda>h. htype h = t \<and> matched 0 h u) hs)" by (auto simp: matched_exact key_of_def)
  then obtain g gs where f: "filter (\<lambda>h. htype h = t \<and> matched 0 h u) hs = g # gs"
    by (cases "filter (\<lambda>h. htype h = t \<and> matched 0 h u) hs") auto
  have "g \<in> set (filter (\<lambda>h. htype h = t \<and> matched 0 h u) hs)" unfolding f by simp
  then have g: "g \<in> set hs" "key_of g = (t, u)" by (auto simp: matched_exact key_of_def)
  with h assms(1) have "g = h" by (auto simp: unique_keys_def distinct_map inj_on_def)
  with f g h show ?thesis by (auto simp: candidates_def)
qed

text \<open>C36: the registry is a map from handler type and URI to what the application installed.
  For any sequence of valid calls of \<open>mg_set_handler_type\<close>, adding, changing and removing
  handlers of all three types, those that were not turned away because the handler was in use
  take effect in their order and each on its own key only; and \<open>get_request_handler\<close> for a URI
  that is registered itself finds exactly the node with what was installed last, in preference
  to any other that matches (a request handler that is being removed is not given out).\<close>

theorem handler_registry:
  assumes "list_all (\<lambda>x. valid_request (snd x)) calls" "reg.updates calls [] = (done_calls, hs)"
  shows "registered hs = fold (\<lambda>x m. m((r_type (snd x), r_uri (snd x)) := (if r_delete (snd x) then None else Some (value_set (snd x)))))
      done_calls (\<lambda>k. None)
    \<and> (registered hs (t, u) = Some v \<longrightarrow> (\<exists>h hs'. key_of h = (t, u) \<and> value_of h = v \<and>
      get_request_handler t u hs = (if t = REQUEST_HANDLER \<and> removing h then (None, hs) else (Some h, hs'))))"
proof -
  have "unique_keys []" "registered [] = (\<lambda>k. None)" by (simp_all add: unique_keys_def registered_def)
  from reg.updates_lookup [OF this(1) assms] this(2) have
    m: "unique_keys hs" "registered hs = fold (\<lambda>x m. m((r_type (snd x), r_uri (snd x)) := (if r_delete (snd x) then None else Some (value_set (snd x)))))
      done_calls (\<lambda>k. None)" by simp_all
  moreover have "\<exists>h hs'. key_of h = (t, u) \<and> value_of h = v \<and>
      get_request_handler t u hs = (if t = REQUEST_HANDLER \<and> removing h then (None, hs) else (Some h, hs'))"
    if "registered hs (t, u) = Some v"
    using candidates_exact [OF m(1) that] by (auto simp: get_request_handler_candidates)
  ultimately show ?thesis by blast
qed

definition example_calls :: "(nat \<times> handler_request) list" where
  "example_calls =
     (let set = (\<lambda>u h. \<lparr>r_uri = u, r_type = REQUEST_HANDLER, r_delete = (h = None), r_handler = h, r_ws = no_handlers,
                   r_auth = None, r_cbdata = Some 5\<rparr>)
      in [(1, set ''/a'' (Some 100)), (2, set ''/b'' (Some 200)), (3, set ''/a'' (Some 300)), (4, set ''/b'' None)])"

theorem handler_registry_witness:
  "\<exists>hs h hs'. reg.updates example_calls [] = (example_calls, hs) \<and> registered hs (REQUEST_HANDLER, ''/b'') = None
    \<and> get_request_handler REQUEST_HANDLER ''/a'' hs = (Some h, hs') \<and> req_handler h = Some 300"
proof -
  let ?set = "\<lambda>u h. \<lparr>r_uri = u, r_type = REQUEST_HANDLER, r_delete = (h = None), r_handler = h, r_ws = no_handlers,
    r_auth = None, r_cbdata = Some (5 :: nat)\<rparr>"
  define hs where "hs = [set_fields (?set ''/a'' (Some 300)) (new_handler (?set ''/a'' (Some 100)) 1)]"
  have v: "list_all (\<lambda>x. valid_request (snd x)) example_calls"
    by (simp add: example_calls_def valid_request_def no_ws_def no_handlers_def)
  have run: "reg.updates example_calls [] = (example_calls, hs)"
    by (simp add: example_calls_def hs_def mg_set_handler_type_def valid_request_def no_ws_def no_handlers_def)
  have r: "registered hs = [(REQUEST_HANDLER, ''/a'') \<mapsto> (Some 300, no_handlers, Some 5)]"
    using handler_registry [OF v run, of REQUEST_HANDLER "''/a''" "(Some 300, no_handlers, Some 5)"]
    by (auto simp: example_calls_def value_set_def fun_eq_iff)
  from handler_registry [OF v run, of REQUEST_HANDLER "''/a''" "(Some 300, no_handlers, Some 5)"] r
  obtain h hs' where "key_of h = (REQUEST_HANDLER, ''/a'')" "value_of h = (Some 300, no_handlers, Some 5)"
    "get_request_handler REQUEST_HANDLER ''/a'' hs = (if removing h then (None, hs) else (Some h, hs'))" by auto
  moreover from this have "removing h = False"
    by (cases "removing h") (simp_all add: hs_def get_request_handler_candidates candidates_def matched_exact new_handler_def set_fields_def)
  ultimately show ?thesis using run r by (auto simp: value_of_def key_of_def)
qed

section \<open>Threads that hold handlers\<close>

text \<open>Worker threads 0 to \<open>n - 1\<close>, each of which may hold one handler while it runs it, and any
  thread setting handlers; each step is one turn under the lock. A new node may be placed at
  any address that is not in use. After the release the local variable \<open>handler_info\<close> of \<open>handle_request\<close> still
  points to the handler (\<open>stale\<close>); if the handler has declined and the authorization for the file is then refused, it is
  released once more. \<open>twice\<close>, which is not in the code, records that this has happened.\<close>

record registry_state =
  handlers :: "mg_handler_info list"
  holds :: "nat \<Rightarrow> nat option"
  stale :: "nat \<Rightarrow> nat option"
  twice :: bool

inductive handler_step :: "nat \<Rightarrow> registry_state \<Rightarrow> registry_state \<Rightarrow> bool" for n where
  sets: "(\<And>a. malloc = Some a \<Longrightarrow> a \<notin> node ` set (handlers s)) \<Longrightarrow>
    mg_set_handler_type malloc r (handlers s) = (again, hs) \<Longrightarrow>
    handler_step n s (s\<lparr>handlers := hs\<rparr>)"
| gets: "t < n \<Longrightarrow> holds s t = None \<Longrightarrow>
    get_request_handler REQUEST_HANDLER u (handlers s) = (Some h, hs) \<Longrightarrow>
    handler_step n s (s\<lparr>handlers := hs, holds := (holds s)(t := Some (node h)), stale := (stale s)(t := None)\<rparr>)"
| looks: "get_request_handler ty u (handlers s) = (res, hs) \<Longrightarrow> ty \<noteq> REQUEST_HANDLER \<or> res = None \<Longrightarrow>
    handler_step n s (s\<lparr>handlers := hs\<rparr>)"
| releases: "t < n \<Longrightarrow> holds s t = Some a \<Longrightarrow>
    handler_step n s (s\<lparr>handlers := release_handler_ref (Some a) (handlers s), holds := (holds s)(t := None), stale := (stale s)(t := Some a)\<rparr>)"
| refused: "t < n \<Longrightarrow> holds s t = None \<Longrightarrow> stale s t = Some a \<Longrightarrow>
    handler_step n s (s\<lparr>handlers := release_handler_ref (Some a) (handlers s), stale := (stale s)(t := None), twice := True\<rparr>)"

inductive_cases handler_stepE: "handler_step n s s'"

inductive handler_reachable :: "nat \<Rightarrow> registry_state \<Rightarrow> bool" for n where
  initially: "handler_reachable n \<lparr>handlers = [], holds = (\<lambda>t. None), stale = (\<lambda>t. None), twice = False\<rparr>"
| later: "handler_reachable n s \<Longrightarrow> handler_step n s s' \<Longrightarrow> handler_reachable n s'"

definition holders :: "nat \<Rightarrow> registry_state \<Rightarrow> nat \<Rightarrow> nat" where
  "holders n s a = length (filter (\<lambda>t. holds s t = Some a) [0..<n])"

definition registry_inv :: "nat \<Rightarrow> registry_state \<Rightarrow> bool" where
  "registry_inv n s \<longleftrightarrow> distinct (map node (handlers s)) \<and> unique_keys (handlers s)
     \<and> (\<forall>h \<in> set (handlers s). htype h = REQUEST_HANDLER \<longrightarrow> refcount h = word_of_nat (holders n s (node h)))
     \<and> (\<forall>t a. holds s t = Some a \<longrightarrow> t < n \<and> (\<exists>h \<in> set (handlers s). node h = a \<and> htype h = REQUEST_HANDLER))"

lemma holders_le: "holders n s a \<le> n"
  unfolding holders_def by (rule order_trans [OF length_filter_le]) simp

lemma holders_pos: "holds s t = Some a \<Longrightarrow> t < n \<Longrightarrow> 0 < holders n s a"
  by (auto simp: holders_def filter_empty_conv)

lemma holders_none: "\<forall>t. holds s t \<noteq> Some a \<Longrightarrow> holders n s a = 0"
  by (simp add: holders_def)

lemma word_of_holders: "n < 2 ^ 32 \<Longrightarrow> (word_of_nat (holders n s a) :: u32) = 0 \<longleftrightarrow> holders n s a = 0"
proof -
  assume "n < 2 ^ 32"
  then have "holders n s a < 2 ^ 32" using holders_le [of n s a] by simp
  then show ?thesis by (auto simp: word_of_nat_eq_0_iff dest: nat_dvd_not_less)
qed

lemma holders_change:
  assumes "t < n"
  shows "holders n (s\<lparr>handlers := hs, holds := (holds s)(t := x), stale := y\<rparr>) a + (if holds s t = Some a then 1 else 0)
    = holders n s a + (if x = Some a then 1 else 0)"
proof -
  have l: "[0..<n] = [0..<t] @ t # [Suc t..<n]"
    using assms upt_add_eq_append [of 0 t "n - t"] upt_conv_Cons [of t n] by simp
  define g where "g = (holds s)(t := x)"
  have e: "filter (\<lambda>i. g i = Some a) [0..<t] = filter (\<lambda>i. holds s i = Some a) [0..<t]"
    "filter (\<lambda>i. g i = Some a) [Suc t..<n] = filter (\<lambda>i. holds s i = Some a) [Suc t..<n]"
    by (auto simp: g_def intro!: filter_cong)
  have "g t = x" by (simp add: g_def)
  then show ?thesis by (simp add: holders_def l g_def [symmetric] e)
qed

lemma acquire_same [simp]: "map node (acquire a hs) = map node hs" "map key_of (acquire a hs) = map key_of hs"
  by (auto simp: acquire_def)

lemma release_same [simp]: "map node (release_handler_ref p hs) = map node hs" "map key_of (release_handler_ref p hs) = map key_of hs"
  by (auto simp: release_handler_ref_def split: option.split)

lemma map_same_in:
  assumes "map f hs' = map f hs" "h \<in> set hs"
  shows "\<exists>h' \<in> set hs'. f h' = f h"
  using assms by (metis (no_types, lifting) image_iff list.set_map)

lemma refcount_turn:
  assumes "registry_inv n s" "n < 2 ^ 32" "\<And>a. malloc = Some a \<Longrightarrow> a \<notin> node ` set (handlers s)"
    and run: "mg_set_handler_type malloc r (handlers s) = (again, hs)"
  shows "registry_inv n (s\<lparr>handlers := hs\<rparr>)"
proof -
  have d: "distinct (map node (handlers s))" and u: "unique_keys (handlers s)"
    and c: "\<And>h. h \<in> set (handlers s) \<Longrightarrow> htype h = REQUEST_HANDLER \<Longrightarrow> refcount h = word_of_nat (holders n s (node h))"
    and o: "\<And>t a. holds s t = Some a \<Longrightarrow> t < n \<and> (\<exists>h \<in> set (handlers s). node h = a \<and> htype h = REQUEST_HANDLER)"
    using assms(1) by (auto simp: registry_inv_def)
  have same: "holders n (s\<lparr>handlers := x\<rparr>) = holders n s" for x by (simp add: holders_def fun_eq_iff)
  have unheld: "\<forall>t. holds s t \<noteq> Some (node h)" if h: "h \<in> set (handlers s)" and nu: "\<not> in_use h" for h
  proof (rule ccontr)
    assume "\<not> (\<forall>t. holds s t \<noteq> Some (node h))"
    then obtain t where t: "holds s t = Some (node h)" by auto
    with o obtain h' where "h' \<in> set (handlers s)" "node h' = node h" "htype h' = REQUEST_HANDLER" "t < n" by blast
    with d h have "h' = h" by (auto simp: distinct_map inj_on_def)
    with c [OF h] nu \<open>htype h' = REQUEST_HANDLER\<close> have "holders n s (node h) = 0"
      using word_of_holders [OF assms(2)] by (simp add: in_use_def)
    with holders_pos [OF t \<open>t < n\<close>] show False by simp
  qed
  consider "hs = handlers s" | a where "malloc = Some a" "hs = handlers s @ [new_handler r a]" "\<forall>h \<in> set (handlers s). \<not> same_key r h"
    | pre h post where "handlers s = pre @ h # post" "hs = pre @ (if r_delete r then h\<lparr>removing := True\<rparr> else h) # post"
    | pre h post where "handlers s = pre @ h # post" "\<not> in_use h" "hs = pre @ (if r_delete r then [] else [set_fields r h]) @ post"
    using run by (cases rule: set_existing_cases [of r "handlers s"])
      (auto simp: mg_set_handler_type_def split: if_splits option.splits)
  then show ?thesis
  proof cases
    case 1
    then show ?thesis using assms(1) by (simp add: registry_inv_def holders_def)
  next
    case (2 a)
    then have a: "a \<notin> node ` set (handlers s)" using assms(3) by blast
    then have "holders n s a = 0" using o by (intro holders_none) auto
    with 2 a d u c o show ?thesis
      by (auto simp: registry_inv_def same unique_keys_def same_key_iff)
  next
    case (3 pre h post)
    then have "map node hs = map node (handlers s)" "map key_of hs = map key_of (handlers s)" by auto
    with 3 d u c o show ?thesis by (auto simp: registry_inv_def same unique_keys_def)
  next
    case (4 pre h post)
    with unheld [of h] have nh: "\<forall>t. holds s t \<noteq> Some (node h)" by simp
    have "distinct (map node hs)" "unique_keys hs" using 4 d u by (auto simp: unique_keys_def)
    moreover have "refcount g = word_of_nat (holders n s (node g))" if "g \<in> set hs" "htype g = REQUEST_HANDLER" for g
      using that 4 c by (auto split: if_splits)
    moreover have "\<exists>g \<in> set hs. node g = a \<and> htype g = REQUEST_HANDLER" if ha: "holds s t = Some a" for t a
    proof -
      obtain g where g: "g \<in> set (handlers s)" "node g = a" "htype g = REQUEST_HANDLER" using o [OF ha] by blast
      with ha nh have "g \<noteq> h" by auto
      with g 4 show ?thesis by auto
    qed
    ultimately show ?thesis using o by (auto simp: registry_inv_def same)
  qed
qed

lemma acquire_in: "g \<in> set (acquire a hs) \<longleftrightarrow> (\<exists>h \<in> set hs. g = (if node h = a then h\<lparr>refcount := refcount h + 1\<rparr> else h))"
  unfolding acquire_def set_map image_iff by (rule refl)

lemma release_in:
  "g \<in> set (release_handler_ref (Some a) hs) \<longleftrightarrow> (\<exists>h \<in> set hs. g = (if node h = a then h\<lparr>refcount := refcount h - 1\<rparr> else h))"
  unfolding release_handler_ref_def option.case set_map image_iff by (rule refl)

lemma acquire_keeps: "h \<in> set hs \<Longrightarrow> \<exists>g \<in> set (acquire a hs). node g = node h \<and> htype g = htype h"
  by (rule bexI [of _ "if node h = a then h\<lparr>refcount := refcount h + 1\<rparr> else h"]) (auto simp: acquire_in)

lemma release_keeps: "h \<in> set hs \<Longrightarrow> \<exists>g \<in> set (release_handler_ref p hs). node g = node h \<and> htype g = htype h"
proof (cases p)
  case (Some a)
  assume "h \<in> set hs"
  then show ?thesis unfolding Some
    by (intro bexI [of _ "if node h = a then h\<lparr>refcount := refcount h - 1\<rparr> else h"]) (auto simp: release_in)
qed (auto simp: release_handler_ref_def)

lemma handler_step_inv:
  assumes "handler_step n s s'" "registry_inv n s" "n < 2 ^ 32" "\<not> twice s'"
  shows "registry_inv n s'"
  using assms(1)
proof cases
  case (sets malloc r again hs)
  with refcount_turn assms(2,3) show ?thesis by blast
next
  case (gets t u h hs)
  have "h \<in> set (handlers s)" "htype h = REQUEST_HANDLER" "hs = acquire (node h) (handlers s)"
  proof -
    from gets(4) obtain cs where cs: "candidates REQUEST_HANDLER u (handlers s) = h # cs" "hs = acquire (node h) (handlers s)"
      by (auto simp: get_request_handler_candidates split: list.splits if_splits)
    have "h \<in> set (candidates REQUEST_HANDLER u (handlers s))" by (simp add: cs(1))
    then show "h \<in> set (handlers s)" "htype h = REQUEST_HANDLER" by (auto simp: candidates_def)
    show "hs = acquire (node h) (handlers s)" by (rule cs(2))
  qed
  note h = this
  have c: "holders n s' a = holders n s a + (if node h = a then 1 else 0)" for a
    using holders_change [OF gets(2), where s = s and hs = hs and x = "Some (node h)" and y = "(stale s)(t := None)" and a = a] gets(1,3) by simp
  have "distinct (map node hs)" "unique_keys hs" using assms(2) h(3) by (simp_all add: registry_inv_def unique_keys_def)
  moreover have "refcount g = word_of_nat (holders n s' (node g))" if "g \<in> set hs" "htype g = REQUEST_HANDLER" for g
    using that assms(2) unfolding h(3) acquire_in by (auto simp: registry_inv_def c)
  moreover have "t' < n \<and> (\<exists>g \<in> set hs. node g = a \<and> htype g = REQUEST_HANDLER)" if "holds s' t' = Some a" for t' a
  proof -
    have "t' < n \<and> (\<exists>g \<in> set (handlers s). node g = a \<and> htype g = REQUEST_HANDLER)"
      using that assms(2) gets(1,2) h(1,2) by (auto simp: registry_inv_def split: if_splits)
    then show ?thesis unfolding h(3) using acquire_keeps by metis
  qed
  ultimately show ?thesis using gets(1) by (simp add: registry_inv_def)
next
  case (looks ty u res hs)
  then have "hs = handlers s"
    by (auto simp: get_request_handler_candidates split: list.splits if_splits)
  with looks assms(2) show ?thesis by (simp add: registry_inv_def holders_def)
next
  case (refused t a)
  then show ?thesis using assms(4) by simp
next
  case (releases t b)
  show ?thesis
  proof -
    define hs where "hs = release_handler_ref (Some b) (handlers s)"
    have s': "s' = s\<lparr>handlers := hs, holds := (holds s)(t := None), stale := (stale s)(t := Some b)\<rparr>" using releases(1) by (simp add: hs_def)
    have c: "holders n s a = holders n s' a + (if a = b then 1 else 0)" for a
      using holders_change [OF releases(2), where s = s and hs = hs and x = None and y = "(stale s)(t := Some b)" and a = a] releases(3) by (auto simp: s')
    have "distinct (map node hs)" "unique_keys hs" using assms(2) by (simp_all add: registry_inv_def unique_keys_def hs_def)
    moreover have "refcount g = word_of_nat (holders n s' (node g))" if "g \<in> set hs" "htype g = REQUEST_HANDLER" for g
      using that assms(2) unfolding hs_def release_in by (auto simp: registry_inv_def c)
    moreover have "t' < n \<and> (\<exists>g \<in> set hs. node g = a \<and> htype g = REQUEST_HANDLER)" if "holds s' t' = Some a" for t' a
    proof -
      have "t' < n \<and> (\<exists>g \<in> set (handlers s). node g = a \<and> htype g = REQUEST_HANDLER)"
        using that assms(2) by (auto simp: registry_inv_def s' split: if_splits)
      then show ?thesis unfolding hs_def using release_keeps by metis
    qed
    ultimately show ?thesis by (simp add: registry_inv_def s')
  qed
qed

text \<open>C9: no handler is freed or changed under a thread that runs it, unless one has been released twice. With up to 2^32 - 1 worker
  threads, in every state that any interleaving of setting, looking up and releasing handlers
  leads to, as long as no request that a handler declined has then been refused its file (\<open>twice\<close>; what happens
  otherwise is \<open>refusal_frees_held_handler\<close>): the reference count of each request handler is the number of the threads that hold
  it, and every handler that is held is still in the list, under its own address, so that a
  release never touches freed memory; and no key is registered twice.\<close>

theorem held_handlers_stay:
  assumes "handler_reachable n s" "\<not> twice s" "n < 2 ^ 32"
  shows "unique_keys (handlers s)
    \<and> (\<forall>t a. holds s t = Some a \<longrightarrow>
        (\<exists>!h. h \<in> set (handlers s) \<and> node h = a) \<and> (\<exists>h \<in> set (handlers s). node h = a \<and> in_use h))
    \<and> (h \<in> set (handlers s) \<and> htype h = REQUEST_HANDLER \<longrightarrow> unat (refcount h) = holders n s (node h))"
proof -
  have inv: "registry_inv n s" using assms(1,2)
  proof (induction rule: handler_reachable.induct)
    case initially
    then show ?case by (simp add: registry_inv_def unique_keys_def)
  next
    case (later s s')
    then have "\<not> twice s" by (auto elim!: handler_stepE)
    with later show ?case using handler_step_inv assms(3) by blast
  qed
  have rc: "unat (refcount h) = holders n s (node h)" if "h \<in> set (handlers s)" "htype h = REQUEST_HANDLER" for h
    using inv that assms(3) holders_le [of n s "node h"] by (auto simp: registry_inv_def unat_of_nat take_bit_nat_eq_self)
  have "(\<exists>!h. h \<in> set (handlers s) \<and> node h = a) \<and> (\<exists>h \<in> set (handlers s). node h = a \<and> in_use h)"
    if t: "holds s t = Some a" for t a
  proof -
    have "t < n" using inv t by (simp add: registry_inv_def)
    obtain h where h: "h \<in> set (handlers s)" "node h = a" "htype h = REQUEST_HANDLER"
      using inv t unfolding registry_inv_def by blast
    have "refcount h \<noteq> 0" using rc [OF h(1,3)] holders_pos [OF t \<open>t < n\<close>] h(2) by auto
    moreover have "inj_on node (set (handlers s))" using inv by (simp add: registry_inv_def distinct_map)
    ultimately show ?thesis using h by (auto simp: in_use_def inj_on_def)
  qed
  then show ?thesis using inv rc by (auto simp: registry_inv_def)
qed

definition example_handler :: mg_handler_info where
  "example_handler = new_handler \<lparr>r_uri = ''/a'', r_type = REQUEST_HANDLER, r_delete = False, r_handler = Some 100,
     r_ws = no_handlers, r_auth = None, r_cbdata = None\<rparr> 7"

definition counted :: "u32 \<Rightarrow> mg_handler_info list" where
  "counted k = [example_handler\<lparr>refcount := k\<rparr>]"

lemma example_node: "node (example_handler\<lparr>refcount := k\<rparr>) = 7"
  by (simp add: example_handler_def new_handler_def set_fields_def)

lemma counted_turns:
  "get_request_handler REQUEST_HANDLER ''/a'' (counted k) = (Some (example_handler\<lparr>refcount := k\<rparr>), counted (k + 1))"
  "release_handler_ref (Some 7) (counted k) = counted (k - 1)"
  by (simp_all add: counted_def get_request_handler_candidates candidates_def matched_exact acquire_def release_handler_ref_def
      example_handler_def new_handler_def set_fields_def)

lemma example_reachable:
  "handler_reachable 2 \<lparr>handlers = counted 1, holds = [1 \<mapsto> 7], stale = (\<lambda>t. None), twice = False\<rparr>"
proof -
  let ?r = "\<lparr>r_uri = ''/a'', r_type = REQUEST_HANDLER, r_delete = False, r_handler = Some 100,
     r_ws = no_handlers, r_auth = None, r_cbdata = None\<rparr>"
  let ?s0 = "\<lparr>handlers = [], holds = (\<lambda>t. None), stale = (\<lambda>t. None), twice = False\<rparr>"
  have "mg_set_handler_type (Some 7) ?r [] = (False, counted 0)"
    by (simp add: mg_set_handler_type_def valid_request_def no_ws_def no_handlers_def example_handler_def counted_def new_handler_def set_fields_def)
  then have "handler_step 2 ?s0 (?s0\<lparr>handlers := counted 0\<rparr>)" using sets [of "Some 7" ?s0 ?r False "counted 0" 2] by simp
  moreover have "handler_step 2 (?s0\<lparr>handlers := counted 0\<rparr>) \<lparr>handlers = counted 1, holds = [1 \<mapsto> 7], stale = (\<lambda>t. None), twice = False\<rparr>"
    using gets [of 1 2 "?s0\<lparr>handlers := counted 0\<rparr>" "''/a''"] 
    by (simp add: counted_turns(1) example_node fun_upd_idem)
  ultimately show ?thesis using handler_reachable.intros by blast
qed

text \<open>Two threads run a handler; for one of them it declines and its request is refused. Then the reference count is 0
  while the other one still runs it: the handler can be removed and freed.\<close>

lemma refusal_frees_held_handler:
  "\<exists>s. handler_reachable 2 s \<and> holds s 1 = Some 7 \<and> handlers s = []"
proof -
  let ?r = "\<lparr>r_uri = ''/a'', r_type = REQUEST_HANDLER, r_delete = True, r_handler = None,
     r_ws = no_handlers, r_auth = None, r_cbdata = None\<rparr>"
  let ?s = "\<lambda>hs h st tw. \<lparr>handlers = hs, holds = h, stale = st, twice = tw\<rparr>"
  let ?h = "[1 \<mapsto> 7] :: nat \<Rightarrow> nat option"
  have "handler_step 2 (?s (counted 1) ?h (\<lambda>t. None) False) (?s (counted 2) (?h(0 \<mapsto> 7)) (\<lambda>t. None) False)"
    using gets [of 0 2 "?s (counted 1) ?h (\<lambda>t. None) False" "''/a''"]
    by (simp add: counted_turns(1) example_node fun_upd_idem)
  with example_reachable have "handler_reachable 2 (?s (counted 2) (?h(0 \<mapsto> 7)) (\<lambda>t. None) False)" using handler_reachable.intros by blast
  moreover have "handler_step 2 (?s (counted 2) (?h(0 \<mapsto> 7)) (\<lambda>t. None) False) (?s (counted 1) ?h [0 \<mapsto> 7] False)"
    using releases [of 0 2 "?s (counted 2) (?h(0 \<mapsto> 7)) (\<lambda>t. None) False" 7] by (simp add: counted_turns(2) fun_upd_idem)
  ultimately have "handler_reachable 2 (?s (counted 1) ?h [0 \<mapsto> 7] False)" using handler_reachable.intros by blast
  moreover have "handler_step 2 (?s (counted 1) ?h [0 \<mapsto> 7] False) (?s (counted 0) ?h (\<lambda>t. None) True)"
    using refused [of 0 2 "?s (counted 1) ?h [0 \<mapsto> 7] False" 7] by (simp add: counted_turns(2) fun_upd_idem)
  ultimately have "handler_reachable 2 (?s (counted 0) ?h (\<lambda>t. None) True)" using handler_reachable.intros by blast
  moreover have "mg_set_handler_type None ?r (counted 0) = (False, [])"
    by (simp add: mg_set_handler_type_def valid_request_def counted_def example_handler_def new_handler_def set_fields_def no_ws_def no_handlers_def
        same_key_def in_use_def)
  then have "handler_step 2 (?s (counted 0) ?h (\<lambda>t. None) True) (?s [] ?h (\<lambda>t. None) True)"
    using sets [of None "?s (counted 0) ?h (\<lambda>t. None) True" ?r False "[]" 2] by simp
  ultimately have "handler_reachable 2 (?s [] ?h (\<lambda>t. None) True)" using handler_reachable.intros by blast
  then show ?thesis by (intro exI conjI) (assumption, simp_all)
qed

theorem held_handlers_stay_witness:
  "\<exists>s. handler_reachable 2 s \<and> (\<exists>h. h \<in> set (handlers s) \<and> node h = 7 \<and> in_use h)"
proof -
  let ?s = "\<lparr>handlers = counted 1, holds = [1 \<mapsto> 7], stale = (\<lambda>t. None), twice = False\<rparr>"
  have "\<not> twice ?s" "(2 :: nat) < 2 ^ 32" "holds ?s 1 = Some 7" by simp_all
  with held_handlers_stay [OF example_reachable, of example_handler] have "\<exists>h \<in> set (handlers ?s). node h = 7 \<and> in_use h" by blast
  with example_reachable show ?thesis by blast
qed

text \<open>Which handler \<open>get_request_handler\<close> picks. The first registered handler of the type
  whose URI is the requested one; when there is none, the first whose URI is a directory above
  it; when there is none either, the first whose URI as a pattern matches it. There is no
  result only when none of them exists, or when the pick is a request handler that is being
  removed; the others are then not tried.\<close>

theorem handler_lookup_order:
  "fst (get_request_handler t u hs) =
     (case filter (\<lambda>h. htype h = t \<and> uri h = u) hs
         @ filter (\<lambda>h. htype h = t \<and> (\<exists>rest. u = uri h @ CHR ''/'' # rest)) hs
         @ filter (\<lambda>h. htype h = t \<and> 0 < match_prefix (uri h) u) hs of
        [] \<Rightarrow> None
      | h # _ \<Rightarrow> if t = REQUEST_HANDLER \<and> removing h then None else Some h)"
proof -
  have "matched 2 h u \<longleftrightarrow> 0 < match_prefix (uri h) u" for h by (simp add: matched_def)
  then have "candidates t u hs = filter (\<lambda>h. htype h = t \<and> uri h = u) hs
         @ filter (\<lambda>h. htype h = t \<and> (\<exists>rest. u = uri h @ CHR ''/'' # rest)) hs
         @ filter (\<lambda>h. htype h = t \<and> 0 < match_prefix (uri h) u) hs"
    unfolding candidates_def by (simp only: matched_exact matched_below list.map concat.simps append_Nil2)
  then show ?thesis by (simp add: get_request_handler_candidates split: list.split)
qed

end
