(* ===== verification/Replies.thy ===== *)
theory Replies
  imports Response
begin

text \<open>
  Complete replies built from the functions of \<^verbatim>\<open>response.inl\<close>: the cache and configured header
  fields, the error page of \<open>mg_send_http_error\<close>, \<open>mg_send_http_ok\<close> and \<open>mg_send_http_redirect\<close>.
  No error page files are configured (\<open>ERROR_PAGES\<close> is \<open>NULL\<close>); the callback \<open>http_error\<close> is a
  parameter. \<open>None\<close> stands for an access of the header parser outside its buffer.
\<close>

section \<open>The code\<close>

record reply_config =
  ADDITIONAL_HEADER :: "string option"
  STRICT_HTTPS_MAX_AGE :: "string option"
  STATIC_FILE_CACHE_CONTROL :: "string option"
  STATIC_FILE_MAX_AGE :: string

definition add_header :: "(nat \<Rightarrow> bool) \<Rightarrow> string \<Rightarrow> string \<Rightarrow> mg_connection \<Rightarrow> mg_connection" where
  "add_header malloc h v conn = the (snd (mg_response_header_add malloc (Some conn) (Some h) (Some v) (-1)))"

definition send_no_cache_header :: "(nat \<Rightarrow> bool) \<Rightarrow> mg_connection \<Rightarrow> mg_connection" where
  "send_no_cache_header malloc conn =
     (let conn = add_header malloc ''Cache-Control'' ''no-cache, no-store, must-revalidate, private, max-age=0'' conn;
          conn = add_header malloc ''Expires'' ''0'' conn
      in if proto_type conn = PROTOCOL_TYPE_HTTP1 then add_header malloc ''Pragma'' ''no-cache'' conn else conn)"

text \<open>\<open>printf("%lu")\<close> of a number that is not negative; \<open>atoi\<close> returns the low 32 bits of
  \<open>strtol\<close>.\<close>

definition atoi :: "string \<Rightarrow> int" where
  "atoi s = (let n = fst (strtol10 s) mod 4294967296 in if n < 2147483648 then n else n - 4294967296)"

definition send_static_cache_header :: "(nat \<Rightarrow> bool) \<Rightarrow> reply_config \<Rightarrow> mg_connection \<Rightarrow> mg_connection" where
  "send_static_cache_header malloc cfg conn =
     (case STATIC_FILE_CACHE_CONTROL cfg of
        Some cache_control \<Rightarrow> add_header malloc ''Cache-Control'' cache_control conn
      | None \<Rightarrow>
          let max_age = atoi (STATIC_FILE_MAX_AGE cfg)
          in if max_age \<le> 0 then send_no_cache_header malloc conn
             else add_header malloc ''Cache-Control'' (''max-age='' @ decimal (nat max_age)) conn)"

definition send_additional_header :: "(nat \<Rightarrow> bool) \<Rightarrow> reply_config \<Rightarrow> mg_connection \<Rightarrow> mg_connection option" where
  "send_additional_header malloc cfg conn =
     (let conn = (case STRICT_HTTPS_MAX_AGE cfg of
                    None \<Rightarrow> conn
                  | Some s \<Rightarrow>
                      let max_age = fst (strtol10 s)
                      in if 0 \<le> max_age
                         then add_header malloc ''Strict-Transport-Security'' (''max-age='' @ decimal (nat max_age)) conn
                         else conn)
      in case ADDITIONAL_HEADER cfg of
           None \<Rightarrow> Some conn
         | Some header \<Rightarrow>
             if header = [] then Some conn
             else map_option (\<lambda>(r, c). the c) (mg_response_header_add_lines malloc (Some conn) header))"

type_synonym http_error = "int \<Rightarrow> string \<Rightarrow> mg_connection \<Rightarrow> int \<times> mg_connection"

text \<open>The reply of \<open>mg_send_http_error_impl\<close> when no callback and no page of the configuration
  has handled the error.\<close>

definition send_default_error ::
    "(nat \<Rightarrow> bool) \<Rightarrow> reply_config \<Rightarrow> string \<Rightarrow> int \<Rightarrow> string \<Rightarrow> mg_connection \<Rightarrow> mg_connection option" where
  "send_default_error malloc cfg date status errmsg_buf conn =
     (let has_body = (199 < status \<and> status \<noteq> 204 \<and> status \<noteq> 304);
          conn = conn\<lparr>must_close := True\<rparr>;
          conn = the (snd (mg_response_header_start (Some conn) status));
          conn = send_no_cache_header malloc conn
      in do {
        conn \<leftarrow> send_additional_header malloc cfg conn;
        let conn = (if has_body then add_header malloc ''Content-Type'' ''text/plain; charset=utf-8'' conn else conn);
        let conn = the (snd (mg_response_header_send malloc (Some conn) date));
        Some (if has_body
              then let conn = mg_printf malloc conn (''Error '' @ decimal (nat status) @ '': '' @ mg_get_response_code_text status @ [LF])
                   in the (snd (mg_write (Some conn) errmsg_buf))
              else conn)
      })"

definition mg_send_http_error ::
    "(nat \<Rightarrow> bool) \<Rightarrow> reply_config \<Rightarrow> string \<Rightarrow> http_error option \<Rightarrow> bool \<Rightarrow> mg_connection option \<Rightarrow> int \<Rightarrow> string
     \<Rightarrow> (int \<times> mg_connection option) option" where
  "mg_send_http_error malloc cfg date callback in_error_handler conn status msg =
     (case conn of
        None \<Rightarrow> Some (-2, None)
      | Some c \<Rightarrow>
          let c = c\<lparr>conn_status_code := status\<rparr>;
              errmsg_buf = take (MG_BUF_LEN - 1) msg;
              (handled_by_callback, c) =
                (case callback of
                   Some http_error \<Rightarrow>
                     if \<not> in_error_handler then let (r, c) = http_error status errmsg_buf c in (r = 0, c) else (False, c)
                 | None \<Rightarrow> (False, c))
          in if handled_by_callback then Some (0, Some c)
             else map_option (\<lambda>c. (0, Some c)) (send_default_error malloc cfg date status errmsg_buf c))"

definition mg_send_http_ok ::
    "(nat \<Rightarrow> bool) \<Rightarrow> reply_config \<Rightarrow> string \<Rightarrow> mg_connection \<Rightarrow> string option \<Rightarrow> int \<Rightarrow> (int \<times> mg_connection) option" where
  "mg_send_http_ok malloc cfg date conn mime_type content_length =
     (let mime_type = (case mime_type of None \<Rightarrow> ''text/html'' | Some m \<Rightarrow> if m = [] then ''text/html'' else m);
          conn = the (snd (mg_response_header_start (Some conn) 200));
          conn = send_no_cache_header malloc conn
      in do {
        conn \<leftarrow> send_additional_header malloc cfg conn;
        let conn = add_header malloc ''Content-Type'' mime_type conn;
        let conn =
          (if content_length < 0
           then if proto_type conn = PROTOCOL_TYPE_HTTP1 then add_header malloc ''Transfer-Encoding'' ''chunked'' conn else conn
           else add_header malloc ''Content-Length'' (decimal (nat content_length)) conn);
        Some (0, the (snd (mg_response_header_send malloc (Some conn) date)))
      })"

text \<open>The result of \<open>mg_printf\<close>: the bytes written, or 0 when nothing could be allocated.\<close>

definition mg_send_http_redirect :: "(nat \<Rightarrow> bool) \<Rightarrow> mg_connection \<Rightarrow> string option \<Rightarrow> int \<Rightarrow> int \<times> mg_connection" where
  "mg_send_http_redirect malloc conn target_url redirect_code =
     (let redirect_code = (if redirect_code = 0 then 307 else redirect_code)
      in if redirect_code \<notin> {301, 302, 303, 307, 308} then (-2, conn)
         else let redirect_text = mg_get_response_code_text redirect_code;
                  target_url = (case target_url of None \<Rightarrow> ''/'' | Some u \<Rightarrow> if u = [] then ''/'' else u);
                  text = ''HTTP/1.1 '' @ decimal (nat redirect_code) @ '' '' @ redirect_text @ CRLF
                    @ ''Location: '' @ target_url @ CRLF @ ''Content-Length: 0'' @ CRLF
                    @ ''Connection: '' @ suggest_connection_header (Some conn) @ CRLF @ CRLF;
                  (ret, conn) = (if length text < MG_BUF_LEN \<or> malloc (length text + 1)
                    then let (r, c) = mg_write (Some conn) text in (r, the c) else (-1, conn))
              in (if 0 < ret then ret else -1, conn))"

section \<open>What a client receives for an error\<close>

lemma add_header_ok:
  assumes "conn_type c = CONNECTION_TYPE_REQUEST" "proto_type c = PROTOCOL_TYPE_HTTP1" "request_state c = 1"
    and "length (info_headers (response_info c)) < MG_MAX_HEADERS"
  shows "add_header (\<lambda>n. True) h v c
    = c\<lparr>response_info := (response_info c)\<lparr>info_headers := info_headers (response_info c) @ [(h, v)]\<rparr>\<rparr>"
  using assms by (simp add: add_header_def mg_response_header_add_def)

definition no_cache :: "mg_header list" where
  "no_cache = [(''Cache-Control'', ''no-cache, no-store, must-revalidate, private, max-age=0''), (''Expires'', ''0''),
     (''Pragma'', ''no-cache'')]"

lemma send_no_cache_header_ok:
  assumes "conn_type c = CONNECTION_TYPE_REQUEST" "proto_type c = PROTOCOL_TYPE_HTTP1" "request_state c = 1"
    and "info_headers (response_info c) = []"
  shows "send_no_cache_header (\<lambda>n. True) c = c\<lparr>response_info := (response_info c)\<lparr>info_headers := no_cache\<rparr>\<rparr>"
  using assms by (simp add: send_no_cache_header_def add_header_ok MG_MAX_HEADERS_def no_cache_def)

lemma plain_reply:
  assumes "ADDITIONAL_HEADER cfg = None" "STRICT_HTTPS_MAX_AGE cfg = None"
  shows "send_additional_header malloc cfg c = Some c"
  using assms by (simp add: send_additional_header_def)

definition error_fields :: "string \<Rightarrow> mg_header list" where
  "error_fields date = no_cache @ [(''Content-Type'', ''text/plain; charset=utf-8''), (''Date'', date), (''Connection'', ''close'')]"

definition error_body :: "int \<Rightarrow> string \<Rightarrow> string" where
  "error_body status msg = ''Error '' @ decimal (nat status) @ '': '' @ mg_get_response_code_text status @ [LF] @ take (MG_BUF_LEN - 1) msg"

definition error_reply :: "string \<Rightarrow> int \<Rightarrow> string \<Rightarrow> string \<Rightarrow> string" where
  "error_reply version status date msg =
     render_response version (nat status) (mg_get_response_code_text status) (error_fields date) @ error_body status msg"

lemma error_fields_ok: "list_all text_char date \<Longrightarrow> date = [] \<or> hd date \<noteq> CHR '' '' \<Longrightarrow> \<forall>h \<in> set (error_fields date). header_ok h"
proof -
  have "\<forall>h \<in> set (no_cache @ [(''Content-Type'', ''text/plain; charset=utf-8''), (''Connection'', ''close'')]). header_ok h"
    by code_simp
  moreover have "list_all name_char ''Date''" by code_simp
  ultimately show "list_all text_char date \<Longrightarrow> date = [] \<or> hd date \<noteq> CHR '' '' \<Longrightarrow> ?thesis"
    by (auto simp: error_fields_def header_ok_def)
qed

lemma error_fields_length: "length (error_fields date) \<le> MG_MAX_HEADERS"
  by (simp add: error_fields_def no_cache_def MG_MAX_HEADERS_def)

lemma send_default_error_ok:
  assumes "conn_type c = CONNECTION_TYPE_REQUEST" "proto_type c = PROTOCOL_TYPE_HTTP1" "request_state c = 0"
    and "400 \<le> status" "status < 600" "ADDITIONAL_HEADER cfg = None" "STRICT_HTTPS_MAX_AGE cfg = None"
    and "version = (case info_version (request_info c) of None \<Rightarrow> ''1.0'' | Some v \<Rightarrow> v)"
    and "list_all text_char date" "date = [] \<or> hd date \<noteq> CHR '' ''"
    and "writer_ok (length (error_reply version status date msg) + m) c" "int (length (error_reply version status date msg)) \<le> INT_MAX"
  shows "\<exists>c'. send_default_error (\<lambda>n. True) cfg date status (take (MG_BUF_LEN - 1) msg) c = Some c'
    \<and> net_out c' = net_out c @ error_reply version status date msg \<and> must_close c' \<and> writer_ok m c'"
proof -
  define fs where "fs = no_cache @ [(''Content-Type'', ''text/plain; charset=utf-8'')]"
  define c1 where "c1 = c\<lparr>must_close := True, conn_status_code := status, request_state := 1,
    response_info := (response_info c)\<lparr>info_headers := []\<rparr>\<rparr>"
  define c2 where "c2 = c\<lparr>must_close := True, conn_status_code := status, request_state := 1,
    response_info := (response_info c)\<lparr>info_headers := fs\<rparr>\<rparr>"
  define t0 where "t0 = mg_get_response_code_text status"
  define out where "out = render_response version (nat status) t0 (error_fields date)"
  define l where "l = ''Error '' @ decimal (nat status) @ '': '' @ t0 @ [LF]"
  define b where "b = take (MG_BUF_LEN - 1) msg"
  have er: "error_reply version status date msg = out @ l @ b"
    by (simp add: error_reply_def error_body_def out_def l_def b_def t0_def)
  have start: "the (snd (mg_response_header_start (Some (c\<lparr>must_close := True\<rparr>)) status)) = c1"
    using assms(1-5) by (simp add: mg_response_header_start_def free_buffered_response_header_list_def c1_def)
  have adds: "add_header (\<lambda>n. True) ''Content-Type'' ''text/plain; charset=utf-8'' (send_no_cache_header (\<lambda>n. True) c1) = c2"
    using assms(1,2)
    by (simp add: send_no_cache_header_ok add_header_ok c1_def c2_def fs_def no_cache_def MG_MAX_HEADERS_def)
  have sg: "suggest_connection_header (Some c2) = ''close''"
    by (simp add: suggest_connection_header_def should_keep_alive_def c2_def)
  have lower: "list_ex (\<lambda>h. fold_case (fst h) = ''date'') fs = False" "list_ex (\<lambda>h. fold_case (fst h) = ''connection'') fs = False"
    unfolding fs_def no_cache_def by code_simp+
  have comp: "completed c2 date fs = error_fields date"
    unfolding completed_def lower sg by (simp add: error_fields_def fs_def)
  have w: "writer_ok (length out + (length l + (length b + m))) c2"
    using assms(11) by (simp add: er c2_def writer_ok_def ac_simps)
  have il: "int (length out) \<le> INT_MAX" "int (length l) \<le> INT_MAX" "int (length b) \<le> INT_MAX" using assms(12) by (simp_all add: er)
  have hok: "\<forall>h \<in> set (info_headers (response_info c2)). header_ok h"
    using error_fields_ok [OF assms(9,10)] by (simp add: c2_def fs_def error_fields_def)
  obtain c3 where c3: "mg_response_header_send (\<lambda>n. True) (Some c2) date = (0, Some c3)" "net_out c3 = net_out c @ out"
    "writer_ok (length l + (length b + m)) c3" "frame c3 = frame c2"
    using send_spec [of c2 version out date, OF _ _ _ _ _ _ hok _ w il(1)] assms(1,2,4,5,8)
    by (auto simp: c2_def comp [unfolded c2_def] out_def t0_def)
  have p: "net_out (mg_printf (\<lambda>n. True) c3 l) = net_out c @ out @ l" "writer_ok (length b + m) (mg_printf (\<lambda>n. True) c3 l)"
    "frame (mg_printf (\<lambda>n. True) c3 l) = frame c2"
    using mg_printf_accepts [OF c3(3) _ il(2)] c3(2,4) by (simp_all add: l_def)
  obtain c4 where c4: "mg_write (Some (mg_printf (\<lambda>n. True) c3 l)) b = (int (length b), Some c4)"
    "net_out c4 = net_out c @ out @ l @ b" "writer_ok m c4"
    using mg_write_accepts [OF p(2) il(3)] p(1) by auto
  have "must_close c4"
    using frame_mg_write [of "mg_printf (\<lambda>n. True) c3 l" b] c4(1) frame_fields(5) [of c4 c2] p(3) by (simp add: c2_def)
  moreover have "send_default_error (\<lambda>n. True) cfg date status b c = Some c4"
    using assms(4) c4(1) unfolding send_default_error_def Let_def start plain_reply [OF assms(6,7)] Option.bind_lunit
    by (simp add: adds c3(1) l_def [symmetric] t0_def [symmetric] del: append.simps append_Cons append_assoc)
  ultimately show ?thesis using c4(2,3) by (simp add: er b_def)
qed

lemma mg_send_http_error_ok:
  assumes "conn_type c = CONNECTION_TYPE_REQUEST" "proto_type c = PROTOCOL_TYPE_HTTP1" "request_state c = 0"
    and "400 \<le> status" "status < 600" "ADDITIONAL_HEADER cfg = None" "STRICT_HTTPS_MAX_AGE cfg = None"
    and "version = (case info_version (request_info c) of None \<Rightarrow> ''1.0'' | Some v \<Rightarrow> v)"
    and "list_all text_char date" "date = [] \<or> hd date \<noteq> CHR '' ''"
    and "writer_ok (length (error_reply version status date msg) + m) c" "int (length (error_reply version status date msg)) \<le> INT_MAX"
  shows "\<exists>c'. mg_send_http_error (\<lambda>n. True) cfg date None in_handler (Some c) status msg = Some (0, Some c')
    \<and> net_out c' = net_out c @ error_reply version status date msg \<and> must_close c' \<and> writer_ok m c'"
proof -
  have "\<exists>c'. send_default_error (\<lambda>n. True) cfg date status (take (MG_BUF_LEN - 1) msg) (c\<lparr>conn_status_code := status\<rparr>) = Some c'
    \<and> net_out c' = net_out c @ error_reply version status date msg \<and> must_close c' \<and> writer_ok m c'"
    using send_default_error_ok [of "c\<lparr>conn_status_code := status\<rparr>" status cfg version date msg m] assms
    by (simp add: writer_ok_def)
  then show ?thesis by (auto simp: mg_send_http_error_def Let_def)
qed

text \<open>C21: an error reaches the client as an error. On a fresh HTTP/1 connection
  \<open>mg_send_http_error\<close> with any status from 400 to 599 and any message, without a callback and
  without configured extra fields, writes exactly one response and marks the connection to be
  closed; a client that parses what it received finds the version, the status with its text,
  the fields against caching, the plain text type, the date and \<open>Connection: close\<close>, and the
  body is the error line and the message, cut to the server's buffer.\<close>

theorem error_reply_understood:
  assumes "conn_type c = CONNECTION_TYPE_REQUEST" "proto_type c = PROTOCOL_TYPE_HTTP1" "request_state c = 0"
    and "400 \<le> status" "status < 600" "ADDITIONAL_HEADER cfg = None" "STRICT_HTTPS_MAX_AGE cfg = None"
    and "version = (case info_version (request_info c) of None \<Rightarrow> ''1.0'' | Some v \<Rightarrow> v)"
    and "version \<noteq> []" "list_all isgraph version" "list_all text_char date" "date = [] \<or> hd date \<noteq> CHR '' ''"
    and "writer_ok (length (error_reply version status date msg)) c" "int (length (error_reply version status date msg)) \<le> INT_MAX"
  shows "\<exists>c' reply mem ri. mg_send_http_error (\<lambda>n. True) cfg date None in_handler (Some c) status msg = Some (0, Some c')
    \<and> must_close c' \<and> net_out c' = net_out c @ reply
    \<and> parse_http_response reply (length reply) ri0 = Some (mem, ri, int (length reply - length (error_body status msg)))
    \<and> drop (length reply - length (error_body status msg)) reply = error_body status msg
    \<and> rsp_status_code ri = status \<and> map_option (str_at mem) (rsp_http_version ri) = Some version
    \<and> map_option (str_at mem) (rsp_status_text ri) = Some (mg_get_response_code_text status)
    \<and> map (\<lambda>(n, v). (str_at mem n, str_at mem v)) (rsp_http_headers ri) = error_fields date"
proof -
  define out where "out = render_response version (nat status) (mg_get_response_code_text status) (error_fields date)"
  have er: "error_reply version status date msg = out @ error_body status msg" by (simp add: error_reply_def out_def)
  obtain c' where c': "mg_send_http_error (\<lambda>n. True) cfg date None in_handler (Some c) status msg = Some (0, Some c')"
    "net_out c' = net_out c @ error_reply version status date msg" "must_close c'"
    using mg_send_http_error_ok [OF assms(1-8,11,12), where m = 0] assms(13,14) by auto
  have code: "100 \<le> nat status" "nat status < 1000" "int (nat status) = status" "100 \<le> status" using assms(4,5) by auto
  from parse_response_spec [OF assms(9,10) code(1,2) code_text_ok [OF code(4) assms(5)] error_fields_ok [OF assms(11,12)]
      error_fields_length _ out_def, of "[]" "length (out @ error_body status msg)" "error_body status msg" ri0]
  obtain mem ri where "parse_http_response (out @ error_body status msg) (length (out @ error_body status msg)) ri0
      = Some (mem, ri, int (length out))"
    "map_option (str_at mem) (rsp_http_version ri) = Some version" "rsp_status_code ri = int (nat status)"
    "map_option (str_at mem) (rsp_status_text ri) = Some (mg_get_response_code_text status)"
    "map (\<lambda>(n, v). (str_at mem n, str_at mem v)) (rsp_http_headers ri) = error_fields date" by auto
  with c' show ?thesis unfolding code(3) er
    by (intro exI [of _ c'] exI [of _ "out @ error_body status msg"] exI [of _ mem] exI [of _ ri]) simp
qed

definition plain_config :: reply_config where
  "plain_config = \<lparr>ADDITIONAL_HEADER = None, STRICT_HTTPS_MAX_AGE = None, STATIC_FILE_CACHE_CONTROL = None,
     STATIC_FILE_MAX_AGE = ''3600''\<rparr>"

theorem error_reply_understood_witness:
  "\<exists>c' mem (ri :: mg_response_info). mg_send_http_error (\<lambda>n. True) plain_config ''now'' None False
      (Some (example_server\<lparr>net_accept := replicate 400 7\<rparr>)) 404 ''no such page'' = Some (0, Some c')
    \<and> must_close c' \<and> rsp_status_code ri = 404
    \<and> map (\<lambda>(n, v). (str_at mem n, str_at mem v)) (rsp_http_headers ri) = error_fields ''now''"
proof -
  let ?c = "example_server\<lparr>net_accept := replicate 400 7\<rparr>"
  let ?reply = "error_reply ''1.1'' 404 ''now'' ''no such page''"
  have len: "length ?reply \<le> 400"
    by (simp add: error_reply_def error_fields_def no_cache_def error_body_def render_response_def status_line_def header_line_def
      decimal.simps mg_get_response_code_text_def response_code_texts_def MG_BUF_LEN_def)
  have c: "conn_type ?c = CONNECTION_TYPE_REQUEST" "proto_type ?c = PROTOCOL_TYPE_HTTP1" "request_state ?c = 0"
    "''1.1'' = (case info_version (request_info ?c) of None \<Rightarrow> ''1.0'' | Some v \<Rightarrow> v)" "writer_ok (length ?reply) ?c"
    using len by (simp_all add: example_server_def example_writer_def writer_ok_def accepts_def list_all_iff)
  have n: "(400 :: int) \<le> 404" "(404 :: int) < 600" "ADDITIONAL_HEADER plain_config = None" "STRICT_HTTPS_MAX_AGE plain_config = None"
    "''1.1'' \<noteq> []" "int (length ?reply) \<le> INT_MAX"
    using len by (simp_all add: plain_config_def INT_MAX_def)
  have s: "list_all isgraph ''1.1''" "list_all text_char ''now''" "''now'' = [] \<or> hd ''now'' \<noteq> CHR '' ''"
    by (auto simp: isgraph_def text_char_def isprint_def schar_def ordc_def)
  show ?thesis
    using error_reply_understood [OF c(1-3) n(1-4) c(4) n(5) s(1-3) c(5) n(6), where ?ri0.0 = undefined and in_handler = False]
    by blast
qed

end
