(* ===== verification/Base64.thy ===== *)
theory Base64
  imports Codec
begin

text \<open>
  Base64: \<open>base64_encode\<close>, which the WebSocket handshake uses, and \<open>base64_decode\<close>. Encoding
  followed by decoding is an instance of the codec interface.
\<close>

section \<open>The code\<close>

definition b64 :: string where
  "b64 = ''ABCDEFGHIJKLMNOPQRSTUVWXYZabcdefghijklmnopqrstuvwxyz0123456789+/''"

text \<open>The loop over groups of three bytes; a byte behind the end counts as 0.\<close>

fun base64_encode_loop :: "char list \<Rightarrow> char list" where
  "base64_encode_loop [] = []"
| "base64_encode_loop (x # src) =
     (let a = ordc x;
          b = (case src of [] \<Rightarrow> 0 | y # _ \<Rightarrow> ordc y);
          c = (case src of _ # z # _ \<Rightarrow> ordc z | _ \<Rightarrow> 0)
      in [b64 ! drop_bit 2 a, b64 ! (push_bit 4 (a AND 3) OR drop_bit 4 b)]
         @ (if 1 \<le> length src then [b64 ! (push_bit 2 (b AND 15) OR drop_bit 6 c)] else [])
         @ (if 2 \<le> length src then [b64 ! (c AND 63)] else [])
         @ base64_encode_loop (drop 2 src))"

function base64_pad :: "char list \<Rightarrow> char list" where
  "base64_pad dst = (if length dst mod 4 \<noteq> 0 then base64_pad (dst @ [CHR ''='']) else dst)"
  by pat_completeness auto
termination
  by (relation "measure (\<lambda>dst. if length dst mod 4 = 0 then 0 else 4 - length dst mod 4)") (auto simp: mod_Suc)

declare base64_pad.simps [simp del]

definition base64_encode :: "char list \<Rightarrow> char list" where
  "base64_encode src = base64_pad (base64_encode_loop src) @ [NUL]"

definition b64reverse :: "char \<Rightarrow> nat" where
  "b64reverse letter =
     (if 65 \<le> ordc letter \<and> ordc letter \<le> 90 then ordc letter - 65
      else if 97 \<le> ordc letter \<and> ordc letter \<le> 122 then ordc letter - 97 + 26
      else if 48 \<le> ordc letter \<and> ordc letter \<le> 57 then ordc letter - 48 + 52
      else if letter = CHR ''+'' then 62
      else if letter = CHR ''/'' then 63
      else if letter = CHR ''='' then 255
      else 254)"

text \<open>The loop over groups of four letters: the position of the first bad letter or \<open>-1\<close>, and the
  bytes stored. The bytes are \<open>unsigned char\<close>, so the sums are taken modulo 256.\<close>

fun base64_decode_loop :: "nat \<Rightarrow> char list \<Rightarrow> char list \<Rightarrow> int \<times> char list" where
  "base64_decode_loop i [] dst = (-1, dst)"
| "base64_decode_loop i (x # src) dst =
     (let a = b64reverse x;
          b = b64reverse (if 1 \<le> length src then src ! 0 else NUL);
          c = b64reverse (if 2 \<le> length src then src ! 1 else NUL);
          d = b64reverse (if 3 \<le> length src then src ! 2 else NUL)
      in if 254 \<le> a then (int i, dst)
         else if 254 \<le> b then (int i + 1, dst)
         else if c = 254 then (int i + 2, dst)
         else if d = 254 then (int i + 3, dst)
         else let dst = dst @ [char_of ((push_bit 2 a + drop_bit 4 b) mod 256)];
                  dst = (if c \<noteq> 255
                    then let dst = dst @ [char_of ((push_bit 4 b + drop_bit 2 c) mod 256)]
                         in if d \<noteq> 255 then dst @ [char_of ((push_bit 6 c + d) mod 256)] else dst
                    else dst)
              in base64_decode_loop (i + 4) (drop 3 src) dst)"

definition base64_decode :: "char list \<Rightarrow> int \<times> char list" where
  "base64_decode src = base64_decode_loop 0 src []"

section \<open>Six bits and a letter\<close>

lemma b64_letters:
  "k < 64 \<Longrightarrow> b64reverse (b64 ! k) = k \<and> b64 ! k \<noteq> NUL \<and> isgraph (b64 ! k)"
proof -
  have r: "map b64reverse b64 = [0..<64]" and g: "list_all (\<lambda>c. c \<noteq> NUL \<and> isgraph c) b64" by code_simp+
  have "length b64 = 64" using arg_cong [OF r, of length] by simp
  moreover assume "k < 64"
  ultimately show ?thesis using arg_cong [OF r, of "\<lambda>xs. xs ! k"] g by (simp add: list_all_length)
qed

lemma b64reverse_pad: "b64reverse (CHR ''='') = 255"
  by code_simp

lemma graph_pad: "isgraph (CHR ''='')"
  by code_simp

lemma or_4: "x < 4 \<Longrightarrow> y < 16 \<Longrightarrow> push_bit 4 x OR y = 16 * x + (y :: nat)"
proof -
  have "list_all (\<lambda>x. list_all (\<lambda>y. push_bit 4 x OR y = 16 * x + (y :: nat)) [0..<16]) [0..<4]" by code_simp
  then show "x < 4 \<Longrightarrow> y < 16 \<Longrightarrow> ?thesis" by (simp add: list_all_iff)
qed

lemma or_2: "x < 16 \<Longrightarrow> y < 4 \<Longrightarrow> push_bit 2 x OR y = 4 * x + (y :: nat)"
proof -
  have "list_all (\<lambda>x. list_all (\<lambda>y. push_bit 2 x OR y = 4 * x + (y :: nat)) [0..<4]) [0..<16]" by code_simp
  then show "x < 16 \<Longrightarrow> y < 4 \<Longrightarrow> ?thesis" by (simp add: list_all_iff)
qed

lemma and_low: "n AND 3 = n mod (4 :: nat)" "n AND 15 = n mod (16 :: nat)" "n AND 63 = n mod (64 :: nat)"
proof -
  have "(3 :: nat) = mask 2" "(15 :: nat) = mask 4" "(63 :: nat) = mask 6" by (simp_all add: mask_eq_exp_minus_1)
  then show "n AND 3 = n mod (4 :: nat)" "n AND 15 = n mod (16 :: nat)" "n AND 63 = n mod (64 :: nat)"
    by (simp_all only: take_bit_eq_mask [symmetric] take_bit_eq_mod) simp_all
qed

text \<open>The four letters of a group of three bytes.\<close>

definition letters :: "nat \<Rightarrow> nat \<Rightarrow> nat \<Rightarrow> nat list" where
  "letters a b c = [a div 4, 16 * (a mod 4) + b div 16, 4 * (b mod 16) + c div 64, c mod 64]"

lemma letters_less: "a < 256 \<Longrightarrow> b < 256 \<Longrightarrow> c < 256 \<Longrightarrow> k \<in> set (letters a b c) \<Longrightarrow> k < 64"
  by (auto simp: letters_def)

lemma group_letters:
  assumes "a < 256" "b < 256" "c < 256"
  shows "drop_bit 2 a = letters a b c ! 0" "push_bit 4 (a AND 3) OR drop_bit 4 b = letters a b c ! 1"
    "push_bit 2 (b AND 15) OR drop_bit 6 c = letters a b c ! 2" "c AND 63 = letters a b c ! 3"
  using assms or_4 [of "a mod 4" "b div 16"] or_2 [of "b mod 16" "c div 64"]
  by (auto simp: letters_def and_low drop_bit_eq_div)

lemma letters_bytes:
  assumes "a < 256" "b < 256" "c < 256"
  shows "(push_bit 2 (letters a b c ! 0) + drop_bit 4 (letters a b c ! 1)) mod 256 = a"
    "(push_bit 4 (letters a b c ! 1) + drop_bit 2 (letters a b c ! 2)) mod 256 = b"
    "(push_bit 6 (letters a b c ! 2) + letters a b c ! 3) mod 256 = c"
proof -
  show "(push_bit 2 (letters a b c ! 0) + drop_bit 4 (letters a b c ! 1)) mod 256 = a"
    using assms by (simp add: letters_def push_bit_eq_mult drop_bit_eq_div)
  have m: "(y + 256 * k) mod 256 = y" if "y < 256" for y k :: nat using that by simp
  have "16 * (16 * (a mod 4) + b div 16) + b mod 16 = (16 * (b div 16) + b mod 16) + 256 * (a mod 4)"
    by (simp add: algebra_simps)
  also have "16 * (b div 16) + b mod 16 = b" by simp
  finally show "(push_bit 4 (letters a b c ! 1) + drop_bit 2 (letters a b c ! 2)) mod 256 = b"
    using m [OF assms(2)] assms by (simp add: letters_def push_bit_eq_mult drop_bit_eq_div ac_simps)
  have "64 * (4 * (b mod 16) + c div 64) + c mod 64 = (64 * (c div 64) + c mod 64) + 256 * (b mod 16)"
    by (simp add: algebra_simps)
  also have "64 * (c div 64) + c mod 64 = c" by simp
  finally show "(push_bit 6 (letters a b c ! 2) + letters a b c ! 3) mod 256 = c"
    using m [OF assms(3)] by (simp add: letters_def push_bit_eq_mult ac_simps)
qed

section \<open>Round trip\<close>

text \<open>The encoded text, group by group.\<close>

lemma base64_pad_replicate: "base64_pad s = s @ replicate ((4 - length s mod 4) mod 4) (CHR ''='')"
proof (induction s rule: base64_pad.induct)
  case (1 s)
  show ?case
  proof (cases "length s mod 4 = 0")
    case False
    define r where "r = length s mod 4"
    have "r = 1 \<or> r = 2 \<or> r = 3" using False mod_less_divisor [of 4 "length s"] unfolding r_def by linarith
    then have "(4 - length s mod 4) mod 4 = Suc ((4 - length (s @ [CHR ''='']) mod 4) mod 4)"
      by (auto simp: mod_Suc r_def [symmetric])
    with "1.IH" False show ?thesis by (simp add: base64_pad.simps [of s])
  qed (simp add: base64_pad.simps [of s])
qed

fun encoded :: "char list \<Rightarrow> char list" where
  "encoded (x # y # z # src) = map ((!) b64) (letters (ordc x) (ordc y) (ordc z)) @ encoded src"
| "encoded [x, y] = map ((!) b64) (take 3 (letters (ordc x) (ordc y) 0)) @ [CHR ''='']"
| "encoded [x] = map ((!) b64) (take 2 (letters (ordc x) 0 0)) @ [CHR ''='', CHR ''='']"
| "encoded [] = []"

lemma base64_encode_groups: "base64_pad (base64_encode_loop src) = encoded src"
proof (induction src rule: encoded.induct)
  case (1 x y z src)
  have "base64_encode_loop (x # y # z # src) = map ((!) b64) (letters (ordc x) (ordc y) (ordc z)) @ base64_encode_loop src"
    using group_letters [of "ordc x" "ordc y" "ordc z"] by (simp add: letters_def Let_def)
  moreover have "base64_pad (map ((!) b64) (letters a b c) @ w) = map ((!) b64) (letters a b c) @ base64_pad w" for a b c w
    by (simp add: base64_pad_replicate letters_def)
  ultimately show ?case using 1 by (simp only: encoded.simps)
next
  case (2 x y)
  show ?case using group_letters [of "ordc x" "ordc y" 0]
    unfolding base64_pad_replicate by (simp add: letters_def Let_def numeral_2_eq_2)
next
  case (3 x)
  show ?case using group_letters [of "ordc x" 0 0]
    unfolding base64_pad_replicate by (simp add: letters_def Let_def numeral_2_eq_2)
qed (simp add: base64_pad_replicate)

lemma letters_four:
  assumes "a < 256" "b < 256" "c < 256"
  shows "\<exists>p q r s. letters a b c = [p, q, r, s] \<and> p < 64 \<and> q < 64 \<and> r < 64 \<and> s < 64
    \<and> (push_bit 2 p + drop_bit 4 q) mod 256 = a \<and> (push_bit 4 q + drop_bit 2 r) mod 256 = b
    \<and> (push_bit 6 r + s) mod 256 = c"
proof -
  obtain p q r s where l: "letters a b c = [p, q, r, s]" by (simp add: letters_def)
  have "p < 64" "q < 64" "r < 64" "s < 64" using letters_less [OF assms] by (simp_all add: l)
  with l letters_bytes [OF assms] show ?thesis by simp
qed

lemma base64_decode_encoded: "base64_decode_loop i (encoded src) dst = (-1, dst @ src)"
proof (induction src arbitrary: i dst rule: encoded.induct)
  case (1 x y z src)
  obtain p q r s where l: "letters (ordc x) (ordc y) (ordc z) = [p, q, r, s]" "p < 64" "q < 64" "r < 64" "s < 64"
    "(push_bit 2 p + drop_bit 4 q) mod 256 = ordc x" "(push_bit 4 q + drop_bit 2 r) mod 256 = ordc y"
    "(push_bit 6 r + s) mod 256 = ordc z" using letters_four [of "ordc x" "ordc y" "ordc z"] by auto
  then show ?case using 1 by (simp add: b64_letters Let_def)
next
  case (2 x y)
  obtain p q r s where l: "letters (ordc x) (ordc y) 0 = [p, q, r, s]" "p < 64" "q < 64" "r < 64"
    "(push_bit 2 p + drop_bit 4 q) mod 256 = ordc x" "(push_bit 4 q + drop_bit 2 r) mod 256 = ordc y"
    using letters_four [of "ordc x" "ordc y" 0] by auto
  then show ?case by (simp add: b64_letters Let_def b64reverse_pad)
next
  case (3 x)
  obtain p q r s where l: "letters (ordc x) 0 0 = [p, q, r, s]" "p < 64" "q < 64"
    "(push_bit 2 p + drop_bit 4 q) mod 256 = ordc x" using letters_four [of "ordc x" 0 0] by auto
  then show ?case by (simp add: b64_letters Let_def b64reverse_pad)
qed simp

definition base64_text :: "char list \<Rightarrow> char list" where
  "base64_text src = butlast (base64_encode src)"

definition base64_value :: "char list \<Rightarrow> char list option" where
  "base64_value s = (case base64_decode s of (r, dst) \<Rightarrow> if r = -1 then Some dst else None)"

interpretation base64: codec base64_text base64_value "\<lambda>_. True"
  by unfold_locales
    (simp add: base64_text_def base64_value_def base64_encode_def base64_encode_groups base64_decode_def base64_decode_encoded)

lemma length_encoded: "length (encoded src) = 4 * ((length src + 2) div 3)"
proof (induction src rule: encoded.induct)
  case (1 x y z src)
  have "(5 + n) div 3 = Suc ((n + 2) div 3)" for n :: nat by presburger
  with 1 show ?case by (simp add: letters_def)
qed (simp_all add: letters_def)

lemma encoded_graph: "c \<in> set (encoded src) \<Longrightarrow> c \<noteq> NUL \<and> isgraph c"
proof (induction src rule: encoded.induct)
  case (1 x y z src)
  then show ?case using letters_less [of "ordc x" "ordc y" "ordc z"] b64_letters by auto
next
  case (2 x y)
  then show ?case using letters_less [of "ordc x" "ordc y" 0] b64_letters by (auto simp: graph_pad dest: in_set_takeD)
next
  case (3 x)
  then show ?case using letters_less [of "ordc x" 0 0] b64_letters by (auto simp: graph_pad dest: in_set_takeD)
qed simp

text \<open>C34: Base64. The text \<open>base64_encode\<close> writes for any bytes is a C string of four letters for
  each three bytes begun, all printable, with its terminator; and \<open>base64_decode\<close> reads exactly
  the bytes back and reports no bad letter. So two different byte strings never have the same
  text.\<close>

theorem base64_roundtrip:
  "\<exists>s. base64_encode src = s @ [NUL] \<and> cstring s \<and> list_all isgraph s \<and> length s = 4 * ((length src + 2) div 3)
    \<and> base64_decode s = (-1, src) \<and> (base64_encode src = base64_encode src') = (src = src')"
proof -
  have "(base64_encode src = base64_encode src') = (base64_text src = base64_text src')"
    by (simp add: base64_text_def base64_encode_def)
  then show ?thesis
    using base64.enc_eq_iff [of src src'] encoded_graph [of _ src]
    by (auto simp: base64_encode_def base64_encode_groups length_encoded base64_decode_def base64_decode_encoded
        cstring_def list_all_iff)
qed

end
