(* ===== verification/Handshake.thy ===== *)
theory Handshake
  imports Websocket Replies Sha1 Base64
begin

text \<open>
  Opening a WebSocket session: \<open>should_switch_to_protocol\<close>, the choice of the subprotocol, the
  answer of \<open>send_websocket_handshake\<close>, and \<open>handle_websocket_request\<close>, which checks the request,
  answers it and enters the read loop. The application's callbacks share one state, as they
  share \<open>cbData\<close> in C; the resource is always a callback's (Lua is not compiled in).
\<close>

section \<open>The code\<close>

definition should_switch_to_protocol :: "mg_connection \<Rightarrow> int" where
  "should_switch_to_protocol conn =
     (case mg_get_header (Some conn) ''Connection'' of
        None \<Rightarrow> 0
      | Some connection \<Rightarrow>
          if mg_strcasestr connection ''upgrade'' = None then 0
          else case mg_get_header (Some conn) ''Upgrade'' of
                 None \<Rightarrow> -1
               | Some upgrade \<Rightarrow>
                   if mg_strcasestr upgrade ''websocket'' \<noteq> None then 1
                   else if mg_strcasestr upgrade ''h2'' \<noteq> None then 2
                   else -1)"

subsection \<open>The subprotocol\<close>

text \<open>The inner loop over the names in one header field, and the outer one over the fields.\<close>

function match_subprotocol :: "string list \<Rightarrow> string \<Rightarrow> string option" where
  "match_subprotocol subprotocols protocol =
     (let curSubProtocol = takeWhile (\<lambda>c. c \<noteq> CHR '','') protocol
      in case find (\<lambda>s. length s = length curSubProtocol \<and> s = curSubProtocol) subprotocols of
           Some s \<Rightarrow> Some s
         | None \<Rightarrow> (case strchr protocol (CHR '','') of
               None \<Rightarrow> None
             | Some sep \<Rightarrow> match_subprotocol subprotocols (dropWhile isspace (tl sep))))"
  by pat_completeness auto
termination
proof (relation "measure (\<lambda>(subs, p). length p)", goal_cases)
  case 1
  show ?case by simp
next
  case (2 subs p cur sep)
  from strchr_Some [OF 2(3)] obtain u where "p = u @ sep" "sep \<noteq> []" by auto
  then show ?case using length_dropWhile_le [of isspace "tl sep"] by (cases sep) auto
qed

declare match_subprotocol.simps [simp del]

fun match_subprotocols :: "string list \<Rightarrow> string list \<Rightarrow> string option" where
  "match_subprotocols subprotocols [] = None"
| "match_subprotocols subprotocols (p # ps) =
     (case match_subprotocol subprotocols p of Some s \<Rightarrow> Some s | None \<Rightarrow> match_subprotocols subprotocols ps)"

definition last_protocol :: "string \<Rightarrow> string" where
  "last_protocol protocol =
     (if CHR '','' \<notin> set protocol then protocol
      else dropWhile isspace (rev (takeWhile (\<lambda>c. c \<noteq> CHR '','') (rev protocol))))"

definition accepted_subprotocol :: "string list option \<Rightarrow> string list \<Rightarrow> string option" where
  "accepted_subprotocol subprotocols protocols =
     (if protocols = [] then None
      else case subprotocols of
             Some subs \<Rightarrow> match_subprotocols subs protocols
           | None \<Rightarrow> Some (last_protocol (hd protocols)))"

subsection \<open>The answer\<close>

definition magic :: string where
  "magic = ''258EAFA5-E914-47DA-95CA-C5AB0DC85B11''"

text \<open>\<open>sha_ctx\<close> is the context on the stack, before it is initialised.\<close>

definition send_websocket_handshake ::
    "(nat \<Rightarrow> bool) \<Rightarrow> sha_ctx \<Rightarrow> mg_connection \<Rightarrow> string \<Rightarrow> string option \<Rightarrow> (int \<times> mg_connection) option" where
  "send_websocket_handshake malloc sha_ctx conn websock_key subprotocol =
     (let buf = websock_key @ magic
      in if 100 \<le> length buf then Some (0, conn\<lparr>must_close := True\<rparr>)
         else do {
           sha_ctx \<leftarrow> SHA1_Update (SHA1_Init sha_ctx) (map byte_of buf) (word_of_nat (length buf));
           (sha, sha_ctx) \<leftarrow> SHA1_Final sha_ctx;
           let b64_sha = str_at (base64_encode (map char_of_byte sha)) 0;
           let conn = mg_printf malloc conn (''HTTP/1.1 101 Switching Protocols'' @ CRLF @ ''Upgrade: websocket'' @ CRLF
                 @ ''Connection: Upgrade'' @ CRLF @ ''Sec-WebSocket-Accept: '' @ b64_sha @ CRLF);
           Some (1, case subprotocol of
               Some s \<Rightarrow> mg_printf malloc conn (''Sec-WebSocket-Protocol: '' @ s @ CRLF @ CRLF)
             | None \<Rightarrow> mg_printf malloc conn CRLF)
         })"

subsection \<open>The request\<close>

record 's ws_callbacks =
  on_connect :: "('s \<Rightarrow> int \<times> 's) option"
  on_ready :: "('s \<Rightarrow> (nat \<times> char list) list \<times> 's) option"
  on_data :: "'s ws_data_handler option"
  on_close :: "('s \<Rightarrow> 's) option"

text \<open>What the request handler needs of its environment: the memory, the configuration, the
  date, the error callback, and the uninitialised digest context.\<close>

record ws_env =
  malloc_ok :: "nat \<Rightarrow> bool"
  reply_cfg :: reply_config
  date_now :: string
  error_callback :: "http_error option"
  digest_ctx :: sha_ctx
  ping_pong_option :: "string option"

definition ws_error :: "ws_env \<Rightarrow> int \<Rightarrow> string \<Rightarrow> 's \<Rightarrow> mg_connection \<Rightarrow> ('s \<times> mg_connection) option" where
  "ws_error env status msg s conn =
     map_option (\<lambda>(r, c). (s, the c))
       (mg_send_http_error (malloc_ok env) (reply_cfg env) (date_now env) (error_callback env) False (Some conn) status msg)"

definition handle_websocket_request ::
    "ws_env \<Rightarrow> bool \<Rightarrow> string list option \<Rightarrow> 's ws_callbacks \<Rightarrow> 's \<Rightarrow> mg_connection \<Rightarrow> ('s \<times> mg_connection) option" where
  "handle_websocket_request env is_callback_resource subprotocols cb s conn =
     (case mg_get_header (Some conn) ''Sec-WebSocket-Key'' of
        None \<Rightarrow>
          if mg_get_header (Some conn) ''Sec-WebSocket-Key1'' \<noteq> None \<and> mg_get_header (Some conn) ''Sec-WebSocket-Key2'' \<noteq> None
          then let (n, key3, c) = mg_read (Some (conn\<lparr>content_len := 8\<rparr>)) 8
               in if n = 8 then ws_error env 426 ''Protocol upgrade to RFC 6455 required'' s (the c)
                  else ws_error env 400 ''Malformed websocket request'' s (the c)
          else ws_error env 400 ''Malformed websocket request'' s conn
      | Some websock_key \<Rightarrow>
          if mg_get_header (Some conn) ''Sec-WebSocket-Version'' \<noteq> Some ''13''
          then ws_error env 426 ''Protocol upgrade required'' s conn
          else let protocols = get_req_headers (info_headers (request_info conn)) ''Sec-WebSocket-Protocol'' 64;
                   accepted = (if is_callback_resource then accepted_subprotocol subprotocols protocols else None);
                   (rejected, s) = (if is_callback_resource
                     then case on_connect cb of None \<Rightarrow> (False, s) | Some f \<Rightarrow> let (r, s) = f s in (r \<noteq> 0, s)
                     else (False, s))
               in if rejected then Some (s, conn)
                  else if \<not> is_callback_resource then ws_error env 404 ''Not found'' s conn
                  else do {
                    (r, conn) \<leftarrow> send_websocket_handshake (malloc_ok env) (digest_ctx env) conn websock_key accepted;
                    if r = 0 then ws_error env 500 ''Websocket handshake failed'' s conn
                    else let (out, s) = (case on_ready cb of None \<Rightarrow> ([], s) | Some f \<Rightarrow> f s);
                             conn = ws_writes out conn;
                             (s, conn) = read_websocket (ping_pong_option env) (malloc_ok env) (on_data cb) s conn
                         in Some (case on_close cb of None \<Rightarrow> s | Some f \<Rightarrow> f s, conn)
                  })"

section \<open>The choice of the subprotocol\<close>

text \<open>The names a header field lists: the parts between the commas, without the white space
  behind a comma.\<close>

fun list_text :: "string list \<Rightarrow> string" where
  "list_text [] = []"
| "list_text [n] = n"
| "list_text (n # ns) = n @ '', '' @ list_text ns"

definition protocol_name :: "string \<Rightarrow> bool" where
  "protocol_name n \<longleftrightarrow> CHR '','' \<notin> set n \<and> (n = [] \<or> \<not> isspace (hd n)) \<and> n \<noteq> []"

lemma find_equal: "find (\<lambda>s. length s = length n \<and> s = n) subs = (if n \<in> set subs then Some n else None)"
  by (induction subs) auto

lemma list_text_start: "protocol_name n \<Longrightarrow> dropWhile isspace (list_text (n # ns)) = list_text (n # ns)"
  by (cases n; cases ns) (auto simp: protocol_name_def)

lemma match_subprotocol_step:
  assumes "CHR '','' \<notin> set n"
  shows "match_subprotocol subs n = (if n \<in> set subs then Some n else None)"
    "match_subprotocol subs (n @ CHR '','' # rest)
      = (if n \<in> set subs then Some n else match_subprotocol subs (dropWhile isspace rest))"
proof -
  have t: "takeWhile (\<lambda>c. c \<noteq> CHR '','') n = n" "takeWhile (\<lambda>c. c \<noteq> CHR '','') (n @ CHR '','' # rest) = n"
    using assms by (auto simp: takeWhile_eq_all_conv takeWhile_append)
  have "strchr n (CHR '','') = None" using assms by simp
  then show "match_subprotocol subs n = (if n \<in> set subs then Some n else None)"
    by (subst match_subprotocol.simps) (simp add: t find_equal Let_def del: strchr_None)
  show "match_subprotocol subs (n @ CHR '','' # rest)
      = (if n \<in> set subs then Some n else match_subprotocol subs (dropWhile isspace rest))"
    using assms by (subst match_subprotocol.simps) (simp add: t find_equal Let_def)
qed

lemma match_subprotocol_names:
  "list_all protocol_name (n # ns) \<Longrightarrow>
   match_subprotocol subs (list_text (n # ns)) = find (\<lambda>n. n \<in> set subs) (n # ns)"
proof (induction ns arbitrary: n)
  case Nil
  then show ?case by (simp add: protocol_name_def match_subprotocol_step)
next
  case (Cons m ns)
  then have c: "CHR '','' \<notin> set n" by (simp add: protocol_name_def)
  have "match_subprotocol subs (list_text (n # m # ns))
      = (if n \<in> set subs then Some n else match_subprotocol subs (dropWhile isspace (CHR '' '' # list_text (m # ns))))"
    using match_subprotocol_step(2) [OF c] by simp
  also have "isspace (CHR '' '')" by code_simp
  then have "dropWhile isspace (CHR '' '' # list_text (m # ns)) = list_text (m # ns)"
    using list_text_start [of m ns] Cons.prems by simp
  finally show ?case using Cons by simp
qed

text \<open>The subprotocol. When the client lists names in one field, separated by commas and a
  space, and the application has registered its own list, the accepted name is the first of the
  client's names that the application knows, and none when it knows none of them.\<close>

theorem subprotocol_negotiated:
  assumes "list_all protocol_name (n # ns)"
  shows "accepted_subprotocol (Some subs) [list_text (n # ns)] = find (\<lambda>n. n \<in> set subs) (n # ns)"
  using match_subprotocol_names [OF assms, of subs] by (simp add: accepted_subprotocol_def split: option.split)

theorem subprotocol_negotiated_witness:
  "accepted_subprotocol (Some [''chat'', ''soap'']) [''wamp, soap, chat''] = Some ''soap''"
proof -
  have "list_all protocol_name [''wamp'', ''soap'', ''chat'']" by code_simp
  from subprotocol_negotiated [OF this, of "[''chat'', ''soap'']"] show ?thesis by simp
qed

section \<open>What is sent is never taken back\<close>

lemma extends_websocket_write: "extends c (the (snd (mg_websocket_write (Some c) opcode data)))"
proof -
  define hdr where "hdr = ws_write_header opcode (length data) 0"
  obtain r c1 where w: "mg_write (Some c) hdr = (r, Some c1)" by (metis mg_write_Some)
  have "extends c c1" "extends c1 (the (snd (mg_write (Some c1) data)))"
    using extends_mg_write [of c hdr] w by (simp_all add: extends_mg_write)
  then show ?thesis using extends_trans
    by (auto simp: mg_websocket_write_def mg_websocket_write_exec_def Let_def hdr_def [symmetric] w)
qed

lemma extends_ws_writes: "extends c (ws_writes out c)"
proof (induction out arbitrary: c)
  case (Cons x out)
  obtain op data where x: "x = (op, data)" by fastforce
  show ?case using extends_trans [OF extends_websocket_write Cons.IH] by (simp add: ws_writes_def x)
qed (simp add: ws_writes_def)

lemma extends_ws_step: "ws_step pp alloc h pc s c = (go_on, pc', s', c') \<Longrightarrow> extends c c'"
proof -
  have same: "extends c c'" if "net_out c' = net_out c" for c c' :: mg_connection using that by (simp add: extends_def)
  have deliver: "extends c c'" if "ws_deliver pp h mop data pc s c = (go_on, pc', s', c')" for mop data pc s c
    using that extends_websocket_write [of c MG_WEBSOCKET_OPCODE_PONG data] extends_ws_writes
    by (auto simp: ws_deliver_def Let_def split: if_splits option.splits prod.splits)
  have frame: "extends c c1" if "take_frame alloc hl ml pl c = (f, c1)" for hl ml pl f c1
    using that by (auto simp: take_frame_def Let_def extends_def split: if_splits prod.splits)
  have pull: "extends c c1" if "ws_pull pp pc c = (g, pc1, c1)" for g pc1 c1
  proof -
    obtain n bs again net where p: "pull_inner (net_in c) (length (conn_buf c) - data_len c) = (n, bs, again, net)"
      by (metis prod_cases4)
    show ?thesis using that extends_websocket_write [of "c\<lparr>net_in := net\<rparr>" MG_WEBSOCKET_OPCODE_PING "[]"]
      by (auto simp: ws_pull_def p Let_def extends_def split: if_splits prod.splits)
  qed
  show "ws_step pp alloc h pc s c = (go_on, pc', s', c') \<Longrightarrow> extends c c'"
    using deliver extends_trans [OF frame deliver]
    by (auto simp: ws_step_def split: option.splits if_splits prod.splits dest: frame pull)
qed

lemma extends_ws_loop: "extends c (snd (ws_loop pp alloc h pc s c))"
proof (induction pp alloc h pc s c rule: ws_loop.induct)
  case (1 pp alloc h pc s c)
  obtain g pc' s' c' where st: "ws_step pp alloc h pc s c = (g, pc', s', c')" by (metis prod_cases4)
  show ?case
  proof (cases "\<not> stop_flag c \<and> \<not> must_close c")
    case True
    from extends_ws_step [OF st] extends_trans "1.IH" [OF True, OF st [symmetric] refl refl] show ?thesis
      by (subst ws_loop.simps) (auto simp: st True)
  qed (subst ws_loop.simps, auto)
qed

section \<open>A session\<close>

text \<open>The value that proves that the server has read the key, and the whole answer.\<close>

definition accept_value :: "string \<Rightarrow> string" where
  "accept_value key = base64_text (map char_of_byte (sha_digest (map byte_of (key @ magic))))"

definition handshake_text :: "string \<Rightarrow> string option \<Rightarrow> string" where
  "handshake_text key subprotocol =
     ''HTTP/1.1 101 Switching Protocols'' @ CRLF @ ''Upgrade: websocket'' @ CRLF @ ''Connection: Upgrade'' @ CRLF
     @ ''Sec-WebSocket-Accept: '' @ accept_value key @ CRLF
     @ (case subprotocol of None \<Rightarrow> [] | Some s \<Rightarrow> ''Sec-WebSocket-Protocol: '' @ s @ CRLF) @ CRLF"

lemma accept_value_encoded: "str_at (base64_encode bytes) 0 = base64_text bytes"
proof -
  obtain t where "base64_encode bytes = t @ [NUL]" "cstring t"
    using encoded_graph [of _ bytes] by (auto simp: base64_encode_def base64_encode_groups cstring_def)
  then show ?thesis by (simp add: base64_text_def)
qed

lemma send_websocket_handshake_ok:
  assumes "length key < 64" "length (sbuffer ctx) = 64"
    and "writer_ok (length (handshake_text key sub) + m) c" "int (length (handshake_text key sub)) \<le> INT_MAX"
  shows "\<exists>c'. send_websocket_handshake (\<lambda>n. True) ctx c key sub = Some (1, c')
    \<and> net_out c' = net_out c @ handshake_text key sub \<and> frame c' = frame c \<and> writer_ok m c'"
proof -
  define buf where "buf = key @ magic"
  define t1 where "t1 = ''HTTP/1.1 101 Switching Protocols'' @ CRLF @ ''Upgrade: websocket'' @ CRLF @ ''Connection: Upgrade'' @ CRLF
     @ ''Sec-WebSocket-Accept: '' @ accept_value key @ CRLF"
  define t2 where "t2 = (case sub of None \<Rightarrow> CRLF | Some s \<Rightarrow> ''Sec-WebSocket-Protocol: '' @ s @ CRLF @ CRLF)"
  have t: "handshake_text key sub = t1 @ t2" by (simp add: handshake_text_def t1_def t2_def split: option.split)
  have buf: "length buf < 100" using assms(1) by (simp add: buf_def magic_def)
  have sha: "Option.bind (SHA1_Update (SHA1_Init ctx) (map byte_of buf) (word_of_nat (length buf))) SHA1_Final
      = Some (sha_digest (map byte_of buf), sha_wiped)"
    using sha1_spec [OF assms(2), of "[map byte_of buf]"] buf by simp
  have ne: "t1 \<noteq> []" "t2 \<noteq> []" by (auto simp: t1_def t2_def split: option.split)
  have il: "int (length t1) \<le> INT_MAX" "int (length t2) \<le> INT_MAX" using assms(4) by (simp_all add: t)
  define c1 where "c1 = mg_printf (\<lambda>n. True) c t1"
  have w1: "writer_ok (length t1 + (length t2 + m)) c" using assms(3) by (simp add: t add.assoc)
  from mg_printf_accepts [OF w1 ne(1) il(1)] have c1: "net_out c1 = net_out c @ t1" "writer_ok (length t2 + m) c1" "frame c1 = frame c"
    by (simp_all add: c1_def)
  from mg_printf_accepts [OF c1(2) ne(2) il(2)] c1(1,3) have "net_out (mg_printf (\<lambda>n. True) c1 t2) = net_out c @ t1 @ t2"
    "writer_ok m (mg_printf (\<lambda>n. True) c1 t2)" "frame (mg_printf (\<lambda>n. True) c1 t2) = frame c" by simp_all
  moreover have "send_websocket_handshake (\<lambda>n. True) ctx c key sub = Some (1, mg_printf (\<lambda>n. True) c1 t2)"
  proof -
    obtain ctx' where "SHA1_Update (SHA1_Init ctx) (map byte_of buf) (word_of_nat (length buf)) = Some ctx'"
      "SHA1_Final ctx' = Some (sha_digest (map byte_of buf), sha_wiped)"
      using sha by (auto simp: Option.bind_eq_Some_conv)
    then show ?thesis
      using buf unfolding send_websocket_handshake_def Let_def buf_def [symmetric]
      by (auto simp: c1_def t1_def t2_def accept_value_encoded accept_value_def buf_def [symmetric] split: option.split)
  qed
  ultimately show ?thesis by (auto simp: t)
qed

text \<open>The application's part: its state after it accepted the connection, or \<open>None\<close>, what it does
  when the session is ready, and its state after the session is closed.\<close>

definition connected :: "'s ws_callbacks \<Rightarrow> 's \<Rightarrow> 's option" where
  "connected cb s = (case on_connect cb of None \<Rightarrow> Some s | Some f \<Rightarrow> (case f s of (r, s') \<Rightarrow> if r = 0 then Some s' else None))"

definition greeting :: "'s ws_callbacks \<Rightarrow> 's \<Rightarrow> (nat \<times> char list) list \<times> 's" where
  "greeting cb s = (case on_ready cb of None \<Rightarrow> ([], s) | Some f \<Rightarrow> f s)"

definition farewell :: "'s ws_callbacks \<Rightarrow> 's \<Rightarrow> 's" where
  "farewell cb s = (case on_close cb of None \<Rightarrow> s | Some f \<Rightarrow> f s)"

definition negotiated :: "string list option \<Rightarrow> mg_connection \<Rightarrow> string option" where
  "negotiated subprotocols conn =
     accepted_subprotocol subprotocols (get_req_headers (info_headers (request_info conn)) ''Sec-WebSocket-Protocol'' 64)"

lemma websocket_session_spec:
  assumes "mg_get_header (Some c) ''Sec-WebSocket-Key'' = Some key" "mg_get_header (Some c) ''Sec-WebSocket-Version'' = Some ''13''"
    and "length key < 64" "length (sbuffer (digest_ctx env)) = 64" "malloc_ok env = (\<lambda>n. True)" "ping_pong_option env = None"
    and "connected cb s = Some s1" "greeting cb s1 = (out, s2)" "on_data cb = Some h"
    and "answer = handshake_text key (negotiated subprotocols c)"
    and "writer_ok (length answer) c" "int (length answer) \<le> INT_MAX"
    and "ws_ready c" "\<not> stop_flag c" "\<not> must_close c"
    and "ws_stream c = frames msgs" "\<forall>(op, data, k) \<in> set msgs. length data \<le> 0x7FFF0000"
  shows "\<exists>c' rest. handle_websocket_request env True subprotocols cb s c
      = Some (farewell cb (ws_app h s2 (map (\<lambda>(op, data, k). (op, data)) msgs)), c')
    \<and> net_out c' = net_out c @ answer @ rest"
proof -
  obtain c1 where c1: "send_websocket_handshake (\<lambda>n. True) (digest_ctx env) c key (negotiated subprotocols c) = Some (1, c1)"
    "net_out c1 = net_out c @ answer" "frame c1 = frame c"
    using send_websocket_handshake_ok [OF assms(3,4), of "negotiated subprotocols c" 0 c] assms(10-12) by auto
  have f1: "ws_ready c1" "ws_stream c1 = ws_stream c" "stop_flag c1 = stop_flag c" "must_close c1 = must_close c"
    using frame_fields [OF c1(3)] assms(13) by (simp_all add: ws_ready_def ws_stream_def ws_queue_def)
  define c2 where "c2 = ws_writes out c1"
  obtain s3 c3 where r: "ws_loop False (\<lambda>n. True) (on_data cb) 0 s2 c2 = (s3, c3)" by fastforce
  have "s3 = ws_app h s2 (map (\<lambda>(op, data, k). (op, data)) msgs)"
    using ws_loop_frames [of c2 0 msgs h s2] ws_ready_writes [OF f1(1), of out] f1 assms(14-17) r assms(9)
    by (simp add: c2_def)
  moreover have "extends c1 c3"
    using extends_trans [OF extends_ws_writes [of c1 out]] extends_ws_loop [of "ws_writes out c1" False "\<lambda>n. True" "on_data cb" 0 s2] r
    by (simp add: c2_def)
  then obtain rest where "net_out c3 = net_out c1 @ rest" unfolding extends_def by (metis append_take_drop_id)
  moreover have "handle_websocket_request env True subprotocols cb s c = Some (farewell cb s3, c3)"
  proof -
    have acc: "accepted_subprotocol subprotocols (get_req_headers (info_headers (request_info c)) ''Sec-WebSocket-Protocol'' 64)
      = negotiated subprotocols c" by (simp add: negotiated_def)
    have con: "(case on_connect cb of None \<Rightarrow> (False, s) | Some f \<Rightarrow> (case f s of (r, s) \<Rightarrow> (r \<noteq> 0, s))) = (False, s1)"
      using assms(7) by (auto simp: connected_def split: option.splits prod.splits if_splits)
    have g: "(case on_ready cb of None \<Rightarrow> ([], s1) | Some f \<Rightarrow> f s1) = (out, s2)" using assms(8) by (simp add: greeting_def)
    have rw: "read_websocket (ping_pong_option env) (\<lambda>n. True) (on_data cb) s2 (ws_writes out c1) = (s3, c3)"
      using r by (simp add: read_websocket_def assms(6) c2_def)
    show ?thesis
      unfolding handle_websocket_request_def assms(1,2,5) option.case Let_def
      by (simp add: acc con c1(1) g rw farewell_def)
  qed
  ultimately show ?thesis using c1(2) by auto
qed


lemma sha_digest_length: "length (sha_digest m) = 20"
proof -
  have "length (concat (map be_bytes ws)) = 4 * length ws" for ws
    by (induction ws) (simp_all add: be_bytes_def le_bytes_def)
  then show ?thesis by (simp add: sha_digest_def length_absorb_sha)
qed

definition upgrade_request :: "string \<Rightarrow> mg_connection" where
  "upgrade_request stream = (Websocket.example_server stream)\<lparr>net_accept := replicate 400 7,
     request_info := (request_info example_writer)\<lparr>info_headers := [(''Sec-WebSocket-Key'', ''dGhlIHNhbXBsZSBub25jZQ==''),
       (''sec-websocket-version'', ''13''), (''Sec-WebSocket-Protocol'', ''chat'')]\<rparr>\<rparr>"

definition recorder :: "(nat \<times> char list) list ws_callbacks" where
  "recorder = \<lparr>on_connect = Some (\<lambda>s. (0, s)), on_ready = Some (\<lambda>s. ([(1, ''hi'')], s)),
     on_data = Some (\<lambda>s op data. (True, [(op, data)], s @ [(op, data)])), on_close = Some rev\<rparr>"

definition example_env :: ws_env where
  "example_env = \<lparr>malloc_ok = (\<lambda>n. True), reply_cfg = plain_config, date_now = ''now'', error_callback = None,
     digest_ctx = \<lparr>sstate = [], scount0 = 7, scount1 = 0, sbuffer = replicate 64 0\<rparr>, ping_pong_option = None\<rparr>"


end
