(* ===== verification/AuthHeader.thy ===== *)
theory AuthHeader
  imports Response
begin

text \<open>
  The \<open>Authorization\<close> header of digest authentication: the tokenizer \<open>skip_quoted\<close>, which cuts
  the words of a modifiable copy of the header in place, and \<open>parse_auth_header\<close>, which collects
  the fields and checks that the server has issued the nonce since its start. Pointers into the
  copy are indices, and \<open>None\<close> stands for an access outside it.
\<close>

section \<open>The code\<close>

definition memmove :: "char list \<Rightarrow> nat \<Rightarrow> nat \<Rightarrow> nat \<Rightarrow> char list option" where
  "memmove mem dst src n =
     (if dst + n \<le> length mem \<and> src + n \<le> length mem
      then Some (take dst mem @ slice mem src n @ drop (dst + n) mem) else None)"

text \<open>The loops \<open>for (; p < q; p++) *p = 0\<close>.\<close>

function zero_fill :: "char list \<Rightarrow> nat \<Rightarrow> nat \<Rightarrow> char list option" where
  "zero_fill mem p q = (if p < q then Option.bind (wr mem p NUL) (\<lambda>mem. zero_fill mem (Suc p) q) else Some mem)"
  by pat_completeness auto
termination
  by (relation "measure (\<lambda>(mem, p, q). q - p)") auto

declare zero_fill.simps [simp del]

definition inside :: "string \<Rightarrow> char \<Rightarrow> bool" where
  "inside delimiters c \<longleftrightarrow> c \<noteq> NUL \<and> c \<notin> set delimiters"

lemma length_memmove: "memmove mem d s n = Some mem' \<Longrightarrow> length mem' = length mem"
  by (auto simp: memmove_def split: if_splits)

text \<open>The loop that drops the quoting character before a delimiter and goes on to the next one:
  the memory, \<open>p\<close> and \<open>end_word\<close>.\<close>

function skip_escaped :: "string \<Rightarrow> char \<Rightarrow> char list \<Rightarrow> nat \<Rightarrow> nat \<Rightarrow> (char list \<times> nat \<times> nat) option" where
  "skip_escaped delimiters quotechar mem p end_word =
     Option.bind (rd mem p) (\<lambda>c.
       if c \<noteq> quotechar then Some (mem, p, end_word)
       else Option.bind (rd mem end_word) (\<lambda>e.
         if e \<noteq> NUL
         then Option.bind (scan (inside delimiters) mem (Suc end_word)) (\<lambda>stop.
           let end_off = stop - Suc end_word
           in Option.bind (memmove mem p end_word (end_off + 1)) (\<lambda>mem.
                skip_escaped delimiters quotechar mem (p + end_off) (end_word + (end_off + 1))))
         else map_option (\<lambda>mem. (mem, p, end_word)) (wr mem p NUL)))"
  by pat_completeness auto
termination
  by (relation "measure (\<lambda>(d, q, mem, p, end_word). length mem - end_word)") (auto simp: length_memmove)

declare skip_escaped.simps [simp del]

text \<open>The memory, the new value of \<open>*buf\<close>, and the word.\<close>

definition skip_quoted :: "char list \<Rightarrow> nat \<Rightarrow> string \<Rightarrow> string \<Rightarrow> char \<Rightarrow> (char list \<times> nat \<times> nat) option" where
  "skip_quoted mem buf delimiters whitespace quotechar =
     do {
       let begin_word = buf;
       end_word \<leftarrow> scan (inside delimiters) mem begin_word;
       (mem, end_word) \<leftarrow>
         (if begin_word < end_word
          then do {
            (mem, p, end_word) \<leftarrow> skip_escaped delimiters quotechar mem (end_word - 1) end_word;
            mem \<leftarrow> zero_fill mem (Suc p) end_word;
            Some (mem, end_word)
          }
          else Some (mem, end_word));
       e \<leftarrow> rd mem end_word;
       if e = NUL then Some (mem, end_word, begin_word)
       else do {
         end_whitespace \<leftarrow> scan (\<lambda>c. c \<in> set whitespace) mem (Suc end_word);
         mem \<leftarrow> zero_fill mem end_word end_whitespace;
         Some (mem, end_whitespace, begin_word)
       }
     }"

text \<open>The parsed header; the fields are pointers into the copy.\<close>

record ah =
  ah_user :: "nat option"
  ah_uri :: "nat option"
  ah_cnonce :: "nat option"
  ah_response :: "nat option"
  ah_qop :: "nat option"
  ah_nc :: "nat option"
  ah_nonce :: "nat option"

definition no_ah :: ah where
  "no_ah = \<lparr>ah_user = None, ah_uri = None, ah_cnonce = None, ah_response = None, ah_qop = None, ah_nc = None, ah_nonce = None\<rparr>"

definition set_field :: "string \<Rightarrow> nat \<Rightarrow> ah \<Rightarrow> ah" where
  "set_field nam value ah =
     (if nam = ''username'' then ah\<lparr>ah_user := Some value\<rparr>
      else if nam = ''cnonce'' then ah\<lparr>ah_cnonce := Some value\<rparr>
      else if nam = ''response'' then ah\<lparr>ah_response := Some value\<rparr>
      else if nam = ''uri'' then ah\<lparr>ah_uri := Some value\<rparr>
      else if nam = ''qop'' then ah\<lparr>ah_qop := Some value\<rparr>
      else if nam = ''nc'' then ah\<lparr>ah_nc := Some value\<rparr>
      else if nam = ''nonce'' then ah\<lparr>ah_nonce := Some value\<rparr>
      else ah)"

text \<open>One round of the parser's loop: a nam, and a value that is quoted or ends at a comma or a
  space.\<close>

definition parse_field :: "char list \<Rightarrow> nat \<Rightarrow> (char list \<times> nat \<times> nat \<times> nat) option" where
  "parse_field mem s =
     do {
       s \<leftarrow> scan isspace mem s;
       (mem, s, nam) \<leftarrow> skip_quoted mem s ''='' '' '' NUL;
       c \<leftarrow> rd mem s;
       if c = DQUOTE
       then do {
         (mem, s, value) \<leftarrow> skip_quoted mem (Suc s) [DQUOTE] '' '' BACKSLASH;
         c \<leftarrow> rd mem s;
         Some (mem, if c = CHR '','' then Suc s else s, nam, value)
       }
       else do {
         (mem, s, value) \<leftarrow> skip_quoted mem s '', '' '' '' NUL;
         Some (mem, s, nam, value)
       }
     }"

section \<open>The tokenizer\<close>

lemma zero_fill_spec:
  "p \<le> q \<Longrightarrow> q \<le> length mem \<Longrightarrow> zero_fill mem p q = Some (take p mem @ replicate (q - p) NUL @ drop q mem)"
proof (induction mem p q rule: zero_fill.induct)
  case (1 mem p q)
  show ?case
  proof (cases "p < q")
    case True
    define m where "m = mem[p := NUL]"
    have w: "wr mem p NUL = Some m" using True "1.prems" by (simp add: m_def)
    have "zero_fill m (Suc p) q = Some (take (Suc p) m @ replicate (q - Suc p) NUL @ drop q m)"
      using "1.IH" [OF True w] True "1.prems" by (simp add: m_def)
    moreover have "take (Suc p) m = take p mem @ [NUL]" using True "1.prems" by (simp add: m_def take_update_nth)
    moreover have "replicate (q - p) NUL = NUL # replicate (q - Suc p) NUL"
      using True by (metis Suc_diff_Suc replicate_Suc)
    ultimately show ?thesis using True w by (subst zero_fill.simps) (simp add: m_def del: wr_Some)
  next
    case False
    then show ?thesis using "1.prems" by (subst zero_fill.simps) simp
  qed
qed

lemma zero_fill_SomeD: "zero_fill mem p q = Some mem' \<Longrightarrow> length mem' = length mem"
proof (induction mem p q rule: zero_fill.induct)
  case (1 mem p q)
  then show ?case by (subst (asm) (2) zero_fill.simps) (auto simp: Option.bind_eq_Some_conv split: if_splits)
qed

lemma skip_escaped_bounds:
  "skip_escaped d q mem p e = Some (mem', p', e') \<Longrightarrow> p < e \<Longrightarrow> e < length mem \<Longrightarrow>
   length mem' = length mem \<and> take p mem' = take p mem \<and> e \<le> e' \<and> e' < length mem \<and> p' < e'"
proof (induction d q mem p e arbitrary: mem' rule: skip_escaped.induct)
  case (1 d q mem p e)
  show ?case
  proof (cases "mem ! p = q \<and> mem ! e \<noteq> NUL")
    case True
    with "1.prems" obtain k m1 where k: "scan (inside d) mem (Suc e) = Some k"
      and m1: "memmove mem p e (k - Suc e + 1) = Some m1"
      and r: "skip_escaped d q m1 (p + (k - Suc e)) (e + (k - Suc e + 1)) = Some (mem', p', e')"
      by (subst (asm) skip_escaped.simps) (auto simp: Option.bind_eq_Some_conv Let_def rd_lt simp del: rd_Some split: if_splits)
    have rd: "rd mem p = Some q" "rd mem e = Some (mem ! e)" using True "1.prems" by simp_all
    have kb: "Suc e \<le> k" "k < length mem" using scan_SomeD [OF k] by simp_all
    have l: "length m1 = length mem" using length_memmove [OF m1] .
    have IH: "length mem' = length m1 \<and> take (p + (k - Suc e)) mem' = take (p + (k - Suc e)) m1
      \<and> e + (k - Suc e + 1) \<le> e' \<and> e' < length m1 \<and> p' < e'"
      using "1.IH" [OF rd(1) _ rd(2) _ k refl m1 r] True "1.prems" kb l by auto
    have "take p m1 = take p mem" using m1 "1.prems" by (auto simp: memmove_def split: if_splits)
    moreover have "take p mem' = take p m1" using IH by (metis min_absorb1 le_add1 take_take)
    ultimately show ?thesis using IH l by auto
  next
    case False
    with "1.prems" show ?thesis
      by (subst (asm) skip_escaped.simps) (auto simp: Option.bind_eq_Some_conv rd_lt simp del: rd_Some split: if_splits)
  qed
qed

lemma skip_escaped_pos: "skip_escaped d q mem p e = Some (mem', p', e') \<Longrightarrow> p \<le> p'"
proof (induction d q mem p e arbitrary: mem' rule: skip_escaped.induct)
  case (1 d q mem p e)
  from "1.prems" show ?case
    by (subst (asm) skip_escaped.simps)
      (auto simp: Option.bind_eq_Some_conv Let_def split: if_splits dest!: "1.IH" simp del: rd_Some)
qed

lemma skip_quoted_bounds:
  assumes "skip_quoted mem s d w q = Some (mem', s', b)"
  shows "b = s \<and> length mem' = length mem \<and> s \<le> s' \<and> s' < length mem \<and> take s mem' = take s mem
    \<and> (s' = s \<longrightarrow> mem ! s = NUL) \<and> (mem ! s = NUL \<longrightarrow> mem' = mem \<and> s' = s)"
proof -
  obtain e where e: "scan (inside d) mem s = Some e" using assms by (auto simp: skip_quoted_def Option.bind_eq_Some_conv)
  note eb = scan_SomeD [OF e]
  define word where "word = (if s < e then do {
      (mem, p, end_word) \<leftarrow> skip_escaped d q mem (e - 1) e;
      mem \<leftarrow> zero_fill mem (Suc p) end_word; Some (mem, end_word) } else Some (mem, e))"
  obtain m1 e1 where m1: "word = Some (m1, e1)"
    using assms by (auto simp: skip_quoted_def e word_def [symmetric] Option.bind_eq_Some_conv)
  have a: "length m1 = length mem \<and> take s m1 = take s mem \<and> e \<le> e1 \<and> e1 < length mem \<and> (s = e \<longrightarrow> m1 = mem \<and> e1 = e)"
  proof (cases "s < e")
    case True
    with m1 obtain m2 p where sk: "skip_escaped d q mem (e - 1) e = Some (m2, p, e1)" and z: "zero_fill m2 (Suc p) e1 = Some m1"
      by (auto simp: word_def Option.bind_eq_Some_conv)
    have b: "length m2 = length mem" "take (e - 1) m2 = take (e - 1) mem" "e \<le> e1" "e1 < length mem" "p < e1"
      using skip_escaped_bounds [OF sk] True eb by auto
    have pp: "e - 1 \<le> p" using skip_escaped_pos [OF sk] .
    have "m1 = take (Suc p) m2 @ replicate (e1 - Suc p) NUL @ drop e1 m2"
      using z zero_fill_spec [of "Suc p" e1 m2] b by simp
    then have "take s m1 = take s m2" using True pp b by simp
    also have "\<dots> = take s (take (e - 1) m2)" using True by simp
    also have "\<dots> = take s mem" unfolding b(2) using True by simp
    finally show ?thesis using b True zero_fill_SomeD [OF z] by auto
  next
    case False
    with m1 eb show ?thesis by (auto simp: word_def)
  qed
  have rd1: "rd m1 e1 = Some (m1 ! e1)" using a by simp
  have sq: "(if m1 ! e1 = NUL then Some (m1, e1, s)
      else Option.bind (scan (\<lambda>c. c \<in> set w) m1 (Suc e1)) (\<lambda>k. Option.bind (zero_fill m1 e1 k) (\<lambda>m. Some (m, k, s))))
    = Some (mem', s', b)"
    using assms unfolding skip_quoted_def Let_def e Option.bind_lunit word_def [symmetric] m1 prod.case rd1 .
  show ?thesis
  proof (cases "m1 ! e1 = NUL")
    case True
    then have "mem' = m1 \<and> s' = e1 \<and> b = s" using sq by auto
    with a eb True show ?thesis by (auto simp: inside_def)
  next
    case False
    then obtain k where k: "scan (\<lambda>c. c \<in> set w) m1 (Suc e1) = Some k" "zero_fill m1 e1 k = Some mem'" "s' = k" "b = s"
      using sq by (auto simp: Option.bind_eq_Some_conv)
    note kb = scan_SomeD [OF k(1)]
    have "mem' = take e1 m1 @ replicate (k - e1) NUL @ drop k m1" using zero_fill_spec [of e1 k m1] k(2) kb by simp
    then have "take s mem' = take s m1" using a eb by simp
    moreover have "mem ! s = NUL \<Longrightarrow> False" using False a eb by (cases "s = e") (auto simp: inside_def)
    ultimately show ?thesis using a kb k eb zero_fill_SomeD [OF k(2)] by auto
  qed
qed

text \<open>The tokenizer on the text itself: the word at its front, without the quoting characters, and
  the rest from the delimiter on.\<close>

function unquote :: "string \<Rightarrow> char \<Rightarrow> string \<Rightarrow> string \<Rightarrow> string \<times> string" where
  "unquote d q w r =
     (if last w = q
      then case r of [] \<Rightarrow> (butlast w, [])
           | c # r \<Rightarrow> unquote d q (butlast w @ c # takeWhile (inside d) r) (dropWhile (inside d) r)
      else (w, r))"
  by pat_completeness auto
termination
  by (relation "measure (\<lambda>(d, q, w, r). length r)") (auto simp: le_imp_less_Suc length_dropWhile_le)

declare unquote.simps [simp del]

definition first_word :: "string \<Rightarrow> char \<Rightarrow> string \<Rightarrow> string \<times> string" where
  "first_word d q t =
     (if takeWhile (inside d) t = [] then ([], t)
      else unquote d q (takeWhile (inside d) t) (dropWhile (inside d) t))"

definition behind :: "string \<Rightarrow> string \<Rightarrow> string" where
  "behind w r = (case r of [] \<Rightarrow> [] | _ # r \<Rightarrow> dropWhile (\<lambda>c. c \<in> set w) r)"

lemma scan_text:
  assumes "drop i mem = t @ NUL # tail" "\<not> P NUL"
  shows "scan P mem i = Some (i + length (takeWhile P t))"
proof -
  define k where "k = length (takeWhile P t)"
  have l: "length mem = i + length t + 1 + length tail" using arg_cong [OF assms(1), of length] by (cases "i \<le> length mem") auto
  have at: "mem ! (i + j) = (t @ NUL # tail) ! j" for j
    using assms(1) l by (metis nth_drop le_add1 add.assoc)
  have kl: "k \<le> length t" by (simp add: k_def length_takeWhile_le)
  show ?thesis
  proof (unfold k_def [symmetric], rule scan_unique)
    show "\<not> P (mem ! (i + k))"
      using at [of k] assms(2) nth_length_takeWhile [of P t] kl
      by (cases "k < length t") (auto simp: nth_append k_def)
    fix m assume m: "i \<le> m" "m < i + k"
    then have "m - i < length t" using kl by linarith
    then have "mem ! m = t ! (m - i)" using at [of "m - i"] m by (simp add: nth_append)
    moreover have "m - i < length (takeWhile P t)" using m unfolding k_def by linarith
    then have "takeWhile P t ! (m - i) \<in> set (takeWhile P t)" by (rule nth_mem)
    then have "P (takeWhile P t ! (m - i))" using set_takeWhileD by metis
    then have "P (t ! (m - i))" using takeWhile_nth [OF \<open>m - i < length (takeWhile P t)\<close>] by simp
    ultimately show "P (mem ! m)" by simp
  qed (use l kl in auto)
qed

lemma skip_escaped_text:
  assumes "w \<noteq> []" "cstring r" "mem = pre @ w @ g @ r @ NUL # tail" "unquote d q w r = (W, r')"
  shows "\<exists>z g' p'. skip_escaped d q mem (length pre + length w - 1) (length pre + length w + length g)
      = Some (pre @ W @ z @ g' @ r' @ NUL # tail, p', length pre + length (W @ z @ g'))
    \<and> Suc p' = length pre + length (W @ z) \<and> set z \<subseteq> {NUL}"
  using assms
proof (induction d q w r arbitrary: mem g rule: unquote.induct)
  case (1 d q w r)
  define p where "p = length pre + length w - 1"
  define e where "e = length pre + length w + length g"
  have w: "w = butlast w @ [last w]" using "1.prems" by simp
  have lp: "length (pre @ butlast w) = p" using "1.prems" by (cases w) (simp_all add: p_def)
  have mem: "mem = (pre @ butlast w) @ last w # g @ r @ NUL # tail" using "1.prems"(3) w by (metis append.assoc append_Cons append_Nil)
  have len: "p < length mem" "e < length mem" "p < e" using "1.prems"(1,3) by (cases w; simp add: p_def e_def)+
  have at_p: "mem ! p = last w" unfolding mem lp [symmetric] by (rule nth_append_length)
  have de: "drop e mem = r @ NUL # tail" using "1.prems"(3) by (simp add: e_def)
  have rd: "rd mem p = Some (mem ! p)" "rd mem e = Some (mem ! e)" using len by simp_all
  have at_e: "mem ! e = hd (r @ NUL # tail)" using de len by (metis hd_drop_conv_nth)
  consider "last w \<noteq> q" | "last w = q" "r = []" | c r1 where "last w = q" "r = c # r1" by (cases r) auto
  then show ?case
  proof cases
    case 1
    then have "W = w" "r' = r" using "1.prems"(4) by (subst (asm) unquote.simps; simp)+
    have "skip_escaped d q mem p e = Some (mem, p, e)"
      using 1 by (subst skip_escaped.simps) (simp add: rd at_p del: rd_Some)
    then show ?thesis unfolding p_def [symmetric] e_def [symmetric] "1.prems"(3) \<open>W = w\<close> \<open>r' = r\<close>
      by (intro exI [of _ "[]"] exI [of _ g] exI [of _ p]) (use "1.prems"(1) in \<open>cases w; simp add: p_def e_def\<close>)
  next
    case 2
    then have W: "W = butlast w" "r' = []" using "1.prems"(4) by (subst (asm) unquote.simps; simp)+
    have "mem[p := NUL] = pre @ butlast w @ NUL # g @ NUL # tail"
      using 2 unfolding mem lp [symmetric] by (simp only: list_update_length) simp
    then have "skip_escaped d q mem p e = Some (pre @ butlast w @ NUL # g @ NUL # tail, p, e)"
      using 2 at_e len by (subst skip_escaped.simps) (simp add: rd at_p wr_lt del: rd_Some wr_Some)
    then show ?thesis unfolding p_def [symmetric] e_def [symmetric] W
      by (intro exI [of _ "[NUL]"] exI [of _ g] exI [of _ p])
        (use "1.prems"(1) lp in \<open>cases w; simp add: p_def e_def\<close>)
  next
    case (3 c r1)
    define seg where "seg = takeWhile (inside d) r1"
    define w2 where "w2 = butlast w @ c # seg"
    define L where "L = Suc (length seg)"
    have c: "c \<noteq> NUL" "cstring r1" using 3 "1.prems"(2) by simp_all
    have dS: "drop (Suc e) mem = r1 @ NUL # tail" using de 3 by (metis append_Cons drop_Suc list.sel(3) tl_drop)
    have k: "scan (inside d) mem (Suc e) = Some (Suc e + length seg)"
      unfolding seg_def by (rule scan_text [OF dS]) (simp add: inside_def)
    have r1: "r1 = seg @ dropWhile (inside d) r1" by (simp add: seg_def)
    have rr: "r1 @ NUL # tail = seg @ dropWhile (inside d) r1 @ NUL # tail"
      using arg_cong [OF r1, of "\<lambda>x. x @ NUL # tail"] by simp
    have "length seg \<le> length r1" by (simp add: seg_def length_takeWhile_le)
    then have lm: "e + L \<le> length mem" "p + L \<le> length mem" using "1.prems"(3) 3 len(3) by (simp_all add: L_def e_def)
    have deE: "drop e mem = c # seg @ dropWhile (inside d) r1 @ NUL # tail" unfolding de 3(2) using rr by simp
    have sl: "slice mem e L = c # seg" unfolding slice_def deE by (simp add: L_def)
    define g2 where "g2 = take (e - p) (drop (p + L) mem)"
    have lg: "length g2 = Suc (length g)" using lm len "1.prems"(1) by (cases w) (auto simp: g2_def p_def e_def)
    have deL: "drop (e + L) mem = dropWhile (inside d) r1 @ NUL # tail"
      using arg_cong [OF deE, of "drop L"] by (simp add: L_def add.commute)
    have "drop (e + L) mem = drop (e - p) (drop (p + L) mem)" using len by (simp add: add.commute add.left_commute)
    then have "drop (p + L) mem = g2 @ drop (e + L) mem" unfolding g2_def by (simp only: append_take_drop_id)
    then have mv: "memmove mem p e L = Some (pre @ w2 @ g2 @ dropWhile (inside d) r1 @ NUL # tail)"
      using lm sl lp by (simp add: memmove_def deL w2_def) (simp add: mem)
    have un: "unquote d q w2 (dropWhile (inside d) r1) = (W, r')"
      using "1.prems"(4) 3 by (subst (asm) unquote.simps) (simp add: w2_def seg_def)
    have cs: "cstring (dropWhile (inside d) r1)" using c(2) r1 by (metis cstring_simps(3))
    note IH = "1.IH" [OF 3 _ cs refl un [unfolded w2_def seg_def], of g2]
    have pe: "length pre + length w2 - 1 = p + length seg" "length pre + length w2 + length g2 = e + L"
      using lp lg "1.prems"(1) by (cases w; simp add: w2_def L_def e_def)+
    have "skip_escaped d q mem p e
      = skip_escaped d q (pre @ w2 @ g2 @ dropWhile (inside d) r1 @ NUL # tail) (length pre + length w2 - 1) (length pre + length w2 + length g2)"
      using 3 at_e c(1) k mv unfolding pe by (subst skip_escaped.simps) (simp add: rd at_p L_def Let_def del: rd_Some)
    with IH show ?thesis unfolding p_def [symmetric] e_def [symmetric] by (simp add: w2_def seg_def)
  qed
qed

lemma unquote_cstring:
  "cstring w \<Longrightarrow> cstring r \<Longrightarrow> unquote d q w r = (W, r') \<Longrightarrow> cstring W \<and> cstring r'"
proof (induction d q w r rule: unquote.induct)
  case (1 d q w r)
  have bl: "cstring (butlast w)" using "1.prems"(1) by (auto simp: cstring_def dest: in_set_butlastD)
  show ?case
  proof (cases "last w = q \<and> r \<noteq> []")
    case True
    then obtain c r1 where r: "r = c # r1" by (cases r) auto
    have "cstring (dropWhile (inside d) r1)" "cstring (butlast w @ c # takeWhile (inside d) r1)"
      using "1.prems"(2) r bl by (auto simp: cstring_def dest: set_dropWhileD set_takeWhileD)
    moreover have "unquote d q (butlast w @ c # takeWhile (inside d) r1) (dropWhile (inside d) r1) = (W, r')"
      using "1.prems"(3) True r by (subst (asm) unquote.simps) simp
    ultimately show ?thesis using "1.IH" [of c r1] True r by blast
  next
    case False
    then show ?thesis using "1.prems" bl by (subst (asm) unquote.simps) (auto split: if_splits list.splits)
  qed
qed

lemma skip_quoted_text:
  assumes "mem = pre @ t @ NUL # tail" "cstring t" "NUL \<notin> set ws" "first_word d q t = (W, r)"
  shows "\<exists>z. skip_quoted mem (length pre) d ws q
      = Some (pre @ W @ z @ behind ws r @ NUL # tail, length (pre @ W @ z), length pre)
    \<and> set z \<subseteq> {NUL} \<and> (z = [] \<longrightarrow> behind ws r = [])"
proof -
  define w where "w = takeWhile (inside d) t"
  define r0 where "r0 = dropWhile (inside d) t"
  define e where "e = length pre + length w"
  have t: "t = w @ r0" by (simp add: w_def r0_def)
  have "drop (length pre) mem = t @ NUL # tail" using assms(1) by simp
  then have e: "scan (inside d) mem (length pre) = Some e"
    using scan_text [of "length pre" mem t tail "inside d"] by (simp add: inside_def e_def w_def)
  have cr0: "cstring r0" using assms(2) t by simp
  obtain z1 where word: "(if length pre < e then do {
      (mem, p, end_word) \<leftarrow> skip_escaped d q mem (e - 1) e;
      mem \<leftarrow> zero_fill mem (Suc p) end_word; Some (mem, end_word) } else Some (mem, e))
    = Some (pre @ W @ z1 @ r @ NUL # tail, length (pre @ W @ z1))" and z1: "set z1 \<subseteq> {NUL}" and cr: "cstring r"
  proof (cases "w = []")
    case True
    then have "W = []" "r = t" using assms(4) by (simp_all add: first_word_def w_def)
    with that [of "[]"] assms(1,2) True show thesis by (simp add: e_def)
  next
    case False
    then have un: "unquote d q w r0 = (W, r)" using assms(4) by (simp add: first_word_def w_def r0_def)
    from skip_escaped_text [OF False cr0 _ un, of mem pre "[]" tail] assms(1) t obtain z g p where
      sk: "skip_escaped d q mem (e - 1) e = Some (pre @ W @ z @ g @ r @ NUL # tail, p, length pre + length (W @ z @ g))"
      and p: "Suc p = length pre + length (W @ z)" and z: "set z \<subseteq> {NUL}" by (auto simp: e_def)
    have "zero_fill (pre @ W @ z @ g @ r @ NUL # tail) (Suc p) (length pre + length (W @ z @ g))
      = Some (pre @ W @ (z @ replicate (length g) NUL) @ r @ NUL # tail)"
      using zero_fill_spec [of "Suc p" "length pre + length (W @ z @ g)" "pre @ W @ z @ g @ r @ NUL # tail"] p by simp
    moreover have "length pre < e" using False by (simp add: e_def)
    moreover have "set (z @ replicate (length g) NUL) \<subseteq> {NUL}" using z by auto
    ultimately show thesis using that [of "z @ replicate (length g) NUL"] sk unquote_cstring [OF _ cr0 un] assms(2) t by simp
  qed
  define m1 where "m1 = pre @ W @ z1 @ r @ NUL # tail"
  define e1 where "e1 = length (pre @ W @ z1)"
  have d1: "drop e1 m1 = r @ NUL # tail" by (simp add: m1_def e1_def)
  have rd1: "rd m1 e1 = Some (hd (r @ NUL # tail))"
    using d1 by (simp add: hd_drop_conv_nth [symmetric] m1_def e1_def)
  show ?thesis
  proof (cases r)
    case Nil
    then have "skip_quoted mem (length pre) d ws q = Some (m1, e1, length pre)"
      unfolding skip_quoted_def Let_def e Option.bind_lunit word prod.case m1_def [symmetric] e1_def [symmetric] rd1 by simp
    then show ?thesis using z1 Nil by (intro exI [of _ z1]) (simp add: m1_def e1_def behind_def)
  next
    case (Cons c r1)
    define sp where "sp = takeWhile (\<lambda>c. c \<in> set ws) r1"
    define r2 where "r2 = dropWhile (\<lambda>c. c \<in> set ws) r1"
    have r1: "r1 = sp @ r2" by (simp add: sp_def r2_def)
    have "drop (Suc e1) m1 = r1 @ NUL # tail" using d1 Cons by (metis append_Cons drop_Suc list.sel(3) tl_drop)
    then have k: "scan (\<lambda>c. c \<in> set ws) m1 (Suc e1) = Some (Suc e1 + length sp)"
      using scan_text [of "Suc e1" m1 r1 tail "\<lambda>c. c \<in> set ws"] assms(3) by (simp add: sp_def)
    have z: "zero_fill m1 e1 (Suc e1 + length sp) = Some (pre @ W @ (z1 @ replicate (Suc (length sp)) NUL) @ r2 @ NUL # tail)"
      using zero_fill_spec [of e1 "Suc e1 + length sp" m1] Cons r1 by (simp add: m1_def e1_def)
    have "skip_quoted mem (length pre) d ws q
      = Some (pre @ W @ (z1 @ replicate (Suc (length sp)) NUL) @ r2 @ NUL # tail, Suc e1 + length sp, length pre)"
      using cr Cons unfolding skip_quoted_def Let_def e Option.bind_lunit word prod.case m1_def [symmetric] e1_def [symmetric] rd1
      by (simp add: k [simplified] z [simplified])
    then show ?thesis using z1 Cons
      by (intro exI [of _ "z1 @ replicate (Suc (length sp)) NUL"]) (auto simp: e1_def behind_def r2_def)
  qed
qed

section \<open>The parser's loop\<close>

lemma parse_field_progress:
  assumes "parse_field mem s = Some (mem', s', n, v)"
  shows "length mem' = length mem \<and> (mem' ! n \<noteq> NUL \<longrightarrow> length mem' - s' < length mem - s)"
proof -
  obtain s0 m1 s1 n1 where s0: "scan isspace mem s = Some s0" and q1: "skip_quoted mem s0 ''='' '' '' NUL = Some (m1, s1, n1)"
    using assms by (auto simp: parse_field_def Option.bind_eq_Some_conv)
  note b0 = scan_SomeD [OF s0] and b1 = skip_quoted_bounds [OF q1]
  have rd1: "rd m1 s1 = Some (m1 ! s1)" using b1 by simp
  note run = assms [unfolded parse_field_def Let_def s0 Option.bind_lunit q1 prod.case rd1]
  obtain m2 s2 where q2: "(m2 = m1 \<and> s2 = s1) \<or> s1 < s2" "length m2 = length m1" "mem' = m2" "s' = s2" "n = n1"
    and nul: "m1 ! s1 = NUL \<longrightarrow> m2 = m1"
  proof (cases "m1 ! s1 = DQUOTE")
    case True
    with run obtain m2 s2 v2 where q: "skip_quoted m1 (Suc s1) [DQUOTE] '' '' BACKSLASH = Some (m2, s2, v2)"
      and r: "mem' = m2" "n = n1" "s' = (if m2 ! s2 = CHR '','' then Suc s2 else s2)"
      by (auto simp: Option.bind_eq_Some_conv)
    from skip_quoted_bounds [OF q] have "length m2 = length m1" "s1 < s'" using r(3) by auto
    with that [of m2 s'] r True show thesis by simp
  next
    case False
    with run obtain m2 s2 v2 where q: "skip_quoted m1 s1 '', '' '' '' NUL = Some (m2, s2, v2)"
      and r: "mem' = m2" "n = n1" "s' = s2" by (auto simp: Option.bind_eq_Some_conv)
    from skip_quoted_bounds [OF q] that [of m2 s2] r show thesis by (cases "s2 = s1") auto
  qed
  show ?thesis
  proof (cases "s1 = s0")
    case True
    with b1 have "mem' ! n = NUL" "length mem' = length mem" using nul q2 by auto
    then show ?thesis by simp
  next
    case False
    with b0 b1 q2 have "s < s'" "s < length mem" "length mem' = length mem" by auto
    then show ?thesis by (simp add: diff_less_mono2)
  qed
qed

function parse_auth_loop :: "char list \<Rightarrow> nat \<Rightarrow> ah \<Rightarrow> (char list \<times> ah) option" where
  "parse_auth_loop mem s ah =
     Option.bind (parse_field mem s) (\<lambda>(mem, s, nam, value).
       Option.bind (rd mem nam) (\<lambda>c.
         if c = NUL then Some (mem, ah) else parse_auth_loop mem s (set_field (str_at mem nam) value ah)))"
  by pat_completeness auto
termination
  by (relation "measure (\<lambda>(mem, s, ah). length mem - s)") (auto dest!: parse_field_progress)

declare parse_auth_loop.simps [simp del]

text \<open>What of the server's context the authentication uses, and the request's method.\<close>

record auth_context =
  auth_nonce_mask :: u64
  nonce_count :: u64
  start_time :: u64
  AUTHENTICATION_DOMAIN :: string
  request_method :: "string option"

text \<open>The result, the copy, the fields and the new \<open>remote_user\<close>. The copy \<open>buf\<close> has \<open>MG_BUF_LEN\<close>
  bytes at least.\<close>

definition parse_auth_header ::
    "auth_context \<Rightarrow> mg_connection option \<Rightarrow> char list \<Rightarrow> nat \<Rightarrow> (bool \<times> char list \<times> ah \<times> string option) option" where
  "parse_auth_header ctx conn buf buf_size =
     (case mg_get_header conn ''Authorization'' of
        None \<Rightarrow> Some (False, buf, no_ah, None)
      | Some auth_header \<Rightarrow>
          if mg_strncasecmp auth_header ''Digest '' 7 \<noteq> 0 then Some (False, buf, no_ah, None)
          else do {
            buf \<leftarrow> mg_strlcpy buf 0 (drop 7 auth_header) buf_size;
            (buf, ah) \<leftarrow> parse_auth_loop buf 0 no_ah;
            case ah_nonce ah of
              None \<Rightarrow> Some (False, buf, ah, None)
            | Some p \<Rightarrow>
                let (n, rest) = strtoul10 (str_at buf p);
                    nonce = word_of_nat n XOR auth_nonce_mask ctx
                in Some (if rest \<noteq> [] then (False, buf, ah, None)
                         else if nonce < start_time ctx then (False, buf, ah, None)
                         else if start_time ctx + nonce_count ctx \<le> nonce then (False, buf, ah, None)
                         else case ah_user ah of
                                None \<Rightarrow> (False, buf, ah, None)
                              | Some user \<Rightarrow> (True, buf, ah, Some (str_at buf user)))
          })"

section \<open>The fields of a text\<close>

definition field_text :: "string \<Rightarrow> string \<times> string \<times> string" where
  "field_text t =
     (case first_word ''='' NUL (dropWhile isspace t) of (n, r) \<Rightarrow>
       let r = behind '' '' r
       in if deref r = DQUOTE
          then case first_word [DQUOTE] BACKSLASH (tl r) of (v, q) \<Rightarrow>
                 let q = behind '' '' q in (n, v, if deref q = CHR '','' then tl q else q)
          else case first_word '', '' NUL r of (v, q) \<Rightarrow> (n, v, behind '' '' q))"

lemma length_unquote: "unquote d q w r = (W, r') \<Longrightarrow> length r' \<le> length r"
proof (induction d q w r rule: unquote.induct)
  case (1 d q w r)
  show ?case
  proof (cases "last w = q \<and> r \<noteq> []")
    case True
    then obtain c r1 where r: "r = c # r1" by (cases r) auto
    then have "unquote d q (butlast w @ c # takeWhile (inside d) r1) (dropWhile (inside d) r1) = (W, r')"
      using "1.prems" True by (subst (asm) unquote.simps) simp
    with "1.IH" [of c r1] True r length_dropWhile_le [of "inside d" r1] show ?thesis by fastforce
  next
    case False
    then show ?thesis using "1.prems" by (subst (asm) unquote.simps) (auto split: if_splits list.splits)
  qed
qed

lemma length_first_word:
  assumes "first_word d q t = (W, r)"
  shows "length r \<le> length t \<and> (W \<noteq> [] \<longrightarrow> length r < length t)"
proof (cases "takeWhile (inside d) t = []")
  case False
  have "length t = length (takeWhile (inside d) t) + length (dropWhile (inside d) t)"
    by (metis length_append takeWhile_dropWhile_id)
  moreover have "unquote d q (takeWhile (inside d) t) (dropWhile (inside d) t) = (W, r)"
    using assms False by (simp add: first_word_def)
  then have "length r \<le> length (dropWhile (inside d) t)" by (rule length_unquote)
  moreover have "0 < length (takeWhile (inside d) t)" using False by (rule length_greater_0_conv [THEN iffD2])
  ultimately show ?thesis by linarith
qed (use assms in \<open>simp add: first_word_def\<close>)

lemma length_behind: "length (behind w r) \<le> length r"
  by (auto simp: behind_def intro: le_SucI length_dropWhile_le split: list.split)

lemma field_text_shorter:
  assumes "field_text t = (n, v, rest)" "n \<noteq> []"
  shows "length rest < length t"
proof -
  obtain r where r: "first_word ''='' NUL (dropWhile isspace t) = (n, r)"
    using assms(1) by (auto simp: field_text_def Let_def split: prod.splits if_splits)
  define r1 where "r1 = behind '' '' r"
  have "length r1 < length t"
    using length_first_word [OF r] assms(2) length_behind [of "'' ''" r] length_dropWhile_le [of isspace t] by (simp add: r1_def)
  moreover have "length rest \<le> length r1"
  proof (cases "deref r1 = DQUOTE")
    case True
    obtain v q where q: "first_word [DQUOTE] BACKSLASH (tl r1) = (v, q)" by fastforce
    have "rest = (if deref (behind '' '' q) = CHR '','' then tl (behind '' '' q) else behind '' '' q)"
      using assms(1) True q by (simp add: field_text_def r r1_def [symmetric] Let_def)
    then show ?thesis using length_first_word [OF q] length_behind [of "'' ''" q] by (auto split: if_splits)
  next
    case False
    obtain v q where q: "first_word '', '' NUL r1 = (v, q)" by fastforce
    have "rest = behind '' '' q" using assms(1) False q by (simp add: field_text_def r r1_def [symmetric] Let_def)
    then show ?thesis using length_first_word [OF q] length_behind [of "'' ''" q] by simp
  qed
  ultimately show ?thesis by simp
qed

function fields_text :: "string \<Rightarrow> (string \<times> string) list" where
  "fields_text t = (case field_text t of (n, v, rest) \<Rightarrow> if n = [] then [] else (n, v) # fields_text rest)"
  by pat_completeness auto
termination
  by (relation "measure length") (auto dest: field_text_shorter [OF sym])

declare fields_text.simps [simp del]

text \<open>A pointer to a word of the memory that later rounds leave alone: the word and its terminator
  lie before the text still to be read.\<close>

definition word_at :: "char list \<Rightarrow> string \<Rightarrow> nat \<Rightarrow> string \<Rightarrow> bool" where
  "word_at pre t p s \<longleftrightarrow> cstring s \<and> (\<exists>u. drop p (pre @ (if t = [] then [NUL] else [])) = s @ NUL # u)"

lemma word_at_step:
  assumes "word_at pre t p s" "t = [] \<longrightarrow> x = [] \<and> rest = []"
  shows "word_at (pre @ x) rest p s"
proof (cases "t = []")
  case False
  with assms(1) obtain u where u: "drop p pre = s @ NUL # u" "cstring s" by (auto simp: word_at_def)
  then have "p \<le> length pre" by (cases "p \<le> length pre") auto
  then have "drop p ((pre @ x) @ y) = s @ NUL # u @ x @ y" for y using u by simp
  then show ?thesis using u(2) unfolding word_at_def by blast
qed (use assms in simp)

lemma word_at_str: "word_at pre t p s \<Longrightarrow> str_at (pre @ t @ NUL # tail) p = s"
proof -
  assume w: "word_at pre t p s"
  then obtain u where u: "drop p (pre @ (if t = [] then [NUL] else [])) = s @ NUL # u" "cstring s" by (auto simp: word_at_def)
  have "p \<le> length (pre @ (if t = [] then [NUL] else []))"
    using u(1) by (metis drop_all linear list.distinct(1) append_is_Nil_conv)
  moreover have "pre @ t @ NUL # tail = (pre @ (if t = [] then [NUL] else [])) @ (if t = [] then tail else t @ NUL # tail)" by simp
  ultimately have "drop p (pre @ t @ NUL # tail) = s @ NUL # u @ (if t = [] then tail else t @ NUL # tail)"
    using u(1) by (metis (no_types, lifting) append_Cons append_assoc drop_append diff_is_0_eq' drop0)
  then show ?thesis by (rule str_atI [OF u(2)])
qed

lemma first_word_cstring: "cstring t \<Longrightarrow> first_word d q t = (W, r) \<Longrightarrow> cstring W \<and> cstring r"
proof -
  assume a: "cstring t" "first_word d q t = (W, r)"
  have "cstring (takeWhile (inside d) t)" "cstring (dropWhile (inside d) t)"
    using a(1) by (auto simp: cstring_def dest: set_dropWhileD set_takeWhileD)
  note c = this
  show ?thesis
  proof (cases "takeWhile (inside d) t = []")
    case False
    then have "unquote d q (takeWhile (inside d) t) (dropWhile (inside d) t) = (W, r)" using a(2) by (simp add: first_word_def)
    with unquote_cstring [OF c] show ?thesis by blast
  qed (use a in \<open>simp add: first_word_def\<close>)
qed

lemma skip_plain_word:
  assumes "cstring t" "NUL \<notin> set ws" "first_word d q t = (W, r)"
  shows "\<exists>x. skip_quoted (pre @ t @ NUL # tail) (length pre) d ws q
      = Some (pre @ x @ behind ws r @ NUL # tail, length (pre @ x), length pre)
    \<and> word_at (pre @ x) (behind ws r) (length pre) W \<and> cstring (behind ws r) \<and> (t = [] \<longrightarrow> x = [] \<and> behind ws r = [])"
proof -
  define m where "m = pre @ t @ NUL # tail"
  note c = first_word_cstring [OF assms(1,3)]
  from skip_quoted_text [OF m_def assms] obtain z where
    z: "skip_quoted m (length pre) d ws q = Some (pre @ W @ z @ behind ws r @ NUL # tail, length (pre @ W @ z), length pre)"
    "set z \<subseteq> {NUL}" "z = [] \<longrightarrow> behind ws r = []" by blast
  have "word_at (pre @ W @ z) (behind ws r) (length pre) W"
  proof (cases z)
    case Nil
    then show ?thesis using z(3) c by (simp add: word_at_def)
  next
    case (Cons a z')
    then have "drop (length pre) ((pre @ W @ z) @ y) = W @ NUL # (z' @ y)" for y using z(2) by simp
    then show ?thesis using c unfolding word_at_def by blast
  qed
  moreover have "cstring (behind ws r)" using c by (auto simp: behind_def cstring_def dest: set_dropWhileD split: list.splits)
  moreover have "t = [] \<longrightarrow> W @ z = [] \<and> behind ws r = []"
  proof
    assume t: "t = []"
    then have "m ! length pre = NUL" by (simp add: m_def)
    then have "pre @ W @ z @ behind ws r @ NUL # tail = m" using skip_quoted_bounds [OF z(1)] by blast
    from arg_cong [OF this, of length] show "W @ z = [] \<and> behind ws r = []" unfolding m_def t by simp
  qed
  ultimately show ?thesis using z(1) by (intro exI [of _ "W @ z"]) (simp add: m_def)
qed

lemma rd_text: "cstring t \<Longrightarrow> rd (pre @ t @ NUL # tail) (length pre) = Some (deref t)"
  by (cases t) (simp_all add: rd_def nth_append)

lemma parse_field_text:
  assumes "cstring t" "field_text t = (n, v, rest)"
  shows "\<exists>x np vp. parse_field (pre @ t @ NUL # tail) (length pre)
      = Some (pre @ x @ rest @ NUL # tail, length (pre @ x), np, vp)
    \<and> word_at (pre @ x) rest np n \<and> word_at (pre @ x) rest vp v \<and> cstring rest \<and> (t = [] \<longrightarrow> x = [] \<and> rest = [])"
proof -
  define sp where "sp = takeWhile isspace t"
  define t1 where "t1 = dropWhile isspace t"
  have t: "t = sp @ t1" and t1: "cstring t1" using assms(1) by (auto simp: sp_def t1_def cstring_def dest: set_dropWhileD)
  have "\<not> isspace NUL" by code_simp
  then have s0: "scan isspace (pre @ t @ NUL # tail) (length pre) = Some (length (pre @ sp))"
    using scan_text [of "length pre" "pre @ t @ NUL # tail" t tail isspace] by (simp add: sp_def)
  obtain r where r: "first_word ''='' NUL t1 = (n, r)"
    using assms(2) by (auto simp: field_text_def t1_def Let_def split: prod.splits if_splits)
  define r1 where "r1 = behind '' '' r"
  obtain x1 where q1: "skip_quoted ((pre @ sp) @ t1 @ NUL # tail) (length (pre @ sp)) ''='' '' '' NUL
      = Some ((pre @ sp) @ x1 @ r1 @ NUL # tail, length ((pre @ sp) @ x1), length (pre @ sp))"
    and n: "word_at ((pre @ sp) @ x1) r1 (length (pre @ sp)) n" "cstring r1" "t1 = [] \<longrightarrow> x1 = [] \<and> r1 = []"
    using skip_plain_word [OF t1 _ r, of "'' ''" "pre @ sp" tail] by (auto simp: r1_def)
  define pre2 where "pre2 = pre @ sp @ x1"
  have run: "parse_field (pre @ t @ NUL # tail) (length pre) =
    (if deref r1 = DQUOTE
     then do { (mem, s, value) \<leftarrow> skip_quoted (pre2 @ r1 @ NUL # tail) (Suc (length pre2)) [DQUOTE] '' '' BACKSLASH;
         c \<leftarrow> rd mem s;
         Some (mem, if c = CHR '','' then Suc s else s, length (pre @ sp), value) }
     else do { (mem, s, value) \<leftarrow> skip_quoted (pre2 @ r1 @ NUL # tail) (length pre2) '', '' '' '' NUL;
         Some (mem, s, length (pre @ sp), value) })"
  proof -
    have "skip_quoted (pre @ t @ NUL # tail) (length (pre @ sp)) ''='' '' '' NUL
      = Some (pre2 @ r1 @ NUL # tail, length pre2, length (pre @ sp))" using q1 by (simp add: t pre2_def)
    then show ?thesis unfolding parse_field_def s0 Option.bind_lunit
      by (simp only: Option.bind_lunit prod.case rd_text [OF n(2)])
  qed
  show ?thesis
  proof (cases "deref r1 = DQUOTE")
    case True
    then obtain r2 where r2: "r1 = DQUOTE # r2" by (cases r1) auto
    obtain q where q: "first_word [DQUOTE] BACKSLASH r2 = (v, q)"
      using assms(2) by (auto simp: field_text_def t1_def [symmetric] r r1_def [symmetric] r2 Let_def split: prod.splits)
    define q1 where "q1 = behind '' '' q"
    have rest: "rest = (if deref q1 = CHR '','' then tl q1 else q1)"
      using assms(2) by (auto simp: field_text_def t1_def [symmetric] r r1_def [symmetric] r2 q q1_def Let_def)
    obtain x2 where x2: "skip_quoted ((pre2 @ [DQUOTE]) @ r2 @ NUL # tail) (length (pre2 @ [DQUOTE])) [DQUOTE] '' '' BACKSLASH
        = Some ((pre2 @ [DQUOTE]) @ x2 @ q1 @ NUL # tail, length ((pre2 @ [DQUOTE]) @ x2), length (pre2 @ [DQUOTE]))"
      and v: "word_at ((pre2 @ [DQUOTE]) @ x2) q1 (length (pre2 @ [DQUOTE])) v" "cstring q1"
      using skip_plain_word [OF _ _ q, of "'' ''" "pre2 @ [DQUOTE]" tail] n(2) r2 by (auto simp: q1_def)
    define y where "y = (if deref q1 = CHR '','' then [CHR '','' ] else [])"
    have y: "q1 = y @ rest" "q1 = [] \<longrightarrow> y = []" by (cases q1; auto simp: y_def rest)+
    define pre3 where "pre3 = pre2 @ [DQUOTE] @ x2"
    have "word_at (pre3 @ y) rest (length (pre2 @ [DQUOTE])) v"
      using word_at_step [OF v(1), of y rest] y by (auto simp: pre3_def)
    moreover have "word_at (pre2 @ [DQUOTE] @ x2 @ y) rest (length (pre @ sp)) n"
      using word_at_step [OF n(1), of "[DQUOTE] @ x2 @ y" rest] r2 by (simp add: pre2_def)
    moreover have "skip_quoted (pre2 @ r1 @ NUL # tail) (Suc (length pre2)) [DQUOTE] '' '' BACKSLASH
        = Some (pre3 @ q1 @ NUL # tail, length pre3, length (pre2 @ [DQUOTE]))"
      using x2 by (simp add: r2 pre3_def)
    then have "parse_field (pre @ t @ NUL # tail) (length pre)
        = Some (pre3 @ q1 @ NUL # tail, length (pre3 @ y), length (pre @ sp), length (pre2 @ [DQUOTE]))"
      unfolding run if_P [OF True] by (simp only: Option.bind_lunit prod.case rd_text [OF v(2)]) (simp add: y_def)
    then have "parse_field (pre @ t @ NUL # tail) (length pre)
        = Some ((pre3 @ y) @ rest @ NUL # tail, length (pre3 @ y), length (pre @ sp), length (pre2 @ [DQUOTE]))"
      using y(1) by simp
    moreover have "t \<noteq> []" using n(3) t r2 by auto
    moreover have "cstring rest" using v(2) y by simp
    ultimately show ?thesis
      by (intro exI [of _ "sp @ x1 @ [DQUOTE] @ x2 @ y"] exI) (simp add: pre3_def pre2_def)
  next
    case False
    obtain q where q: "first_word '', '' NUL r1 = (v, q)" "rest = behind '' '' q"
      using assms(2) False by (auto simp: field_text_def t1_def [symmetric] r r1_def [symmetric] Let_def split: prod.splits)
    obtain x2 where x2: "skip_quoted (pre2 @ r1 @ NUL # tail) (length pre2) '', '' '' '' NUL
        = Some (pre2 @ x2 @ rest @ NUL # tail, length (pre2 @ x2), length pre2)"
      and v: "word_at (pre2 @ x2) rest (length pre2) v" "cstring rest" "r1 = [] \<longrightarrow> x2 = [] \<and> rest = []"
      using skip_plain_word [OF n(2) _ q(1), of "'' ''" pre2 tail] by (auto simp: q(2))
    have "word_at (pre2 @ x2) rest (length (pre @ sp)) n" using word_at_step [OF n(1) v(3)] by (simp add: pre2_def)
    moreover have "parse_field (pre @ t @ NUL # tail) (length pre)
        = Some (pre2 @ x2 @ rest @ NUL # tail, length (pre2 @ x2), length (pre @ sp), length pre2)"
      using x2 False unfolding run by simp
    moreover have "t = [] \<longrightarrow> sp @ x1 @ x2 = [] \<and> rest = []" using t n(3) v(3) by auto
    ultimately show ?thesis using v
      by (intro exI [of _ "sp @ x1 @ x2"] exI) (simp add: pre2_def)
  qed
qed

text \<open>A field by its name; the last one of a name counts.\<close>

definition ah_get :: "ah \<Rightarrow> string \<Rightarrow> nat option" where
  "ah_get ah k =
     (if k = ''username'' then ah_user ah else if k = ''cnonce'' then ah_cnonce ah
      else if k = ''response'' then ah_response ah else if k = ''uri'' then ah_uri ah
      else if k = ''qop'' then ah_qop ah else if k = ''nc'' then ah_nc ah
      else if k = ''nonce'' then ah_nonce ah else None)"

definition auth_names :: "string list" where
  "auth_names = [''username'', ''cnonce'', ''response'', ''uri'', ''qop'', ''nc'', ''nonce'']"

lemma ah_get_set_field:
  "k \<in> set auth_names \<Longrightarrow> ah_get (set_field n p ah) k = (if k = n then Some p else ah_get ah k)"
  by (auto simp: auth_names_def ah_get_def set_field_def)

lemma ah_get_no_ah [simp]: "ah_get no_ah k = None"
  by (simp add: ah_get_def no_ah_def)

lemma ah_get_simps:
  "ah_get ah ''username'' = ah_user ah" "ah_get ah ''cnonce'' = ah_cnonce ah" "ah_get ah ''response'' = ah_response ah"
  "ah_get ah ''uri'' = ah_uri ah" "ah_get ah ''qop'' = ah_qop ah" "ah_get ah ''nc'' = ah_nc ah"
  "ah_get ah ''nonce'' = ah_nonce ah"
  by (simp_all add: ah_get_def)

definition ah_ok :: "char list \<Rightarrow> string \<Rightarrow> ah \<Rightarrow> (string \<times> string) list \<Rightarrow> bool" where
  "ah_ok pre t ah fs \<longleftrightarrow> (\<forall>k \<in> set auth_names. rel_option (word_at pre t) (ah_get ah k) (map_of (rev fs) k))"

lemma ah_ok_step:
  assumes "ah_ok pre t ah fs" "t = [] \<longrightarrow> x = [] \<and> rest = []"
  shows "ah_ok (pre @ x) rest ah fs"
  unfolding ah_ok_def
proof
  fix k assume "k \<in> set auth_names"
  with assms(1) have "rel_option (word_at pre t) (ah_get ah k) (map_of (rev fs) k)" by (simp add: ah_ok_def)
  then show "rel_option (word_at (pre @ x) rest) (ah_get ah k) (map_of (rev fs) k)"
    by (rule option.rel_mono_strong) (use word_at_step [OF _ assms(2)] in blast)
qed

lemma map_of_snoc: "map_of (rev (fs @ [(n, v)])) k = (if k = n then Some v else map_of (rev fs) k)"
  by simp

lemma parse_auth_loop_text:
  "cstring t \<Longrightarrow> ah_ok pre t ah fs \<Longrightarrow>
   \<exists>mem' ah'. parse_auth_loop (pre @ t @ NUL # tail) (length pre) ah = Some (mem', ah')
     \<and> (\<forall>k \<in> set auth_names. map_option (str_at mem') (ah_get ah' k) = map_of (rev (fs @ fields_text t)) k)"
proof (induction t arbitrary: pre ah fs rule: fields_text.induct)
  case (1 t)
  obtain n v rest where f: "field_text t = (n, v, rest)" by (metis prod_cases3)
  from parse_field_text [OF "1.prems"(1) f, of pre tail] obtain x np vp where
    p: "parse_field (pre @ t @ NUL # tail) (length pre) = Some ((pre @ x) @ rest @ NUL # tail, length (pre @ x), np, vp)"
    and w: "word_at (pre @ x) rest np n" "word_at (pre @ x) rest vp v" "cstring rest" "t = [] \<longrightarrow> x = [] \<and> rest = []"
    by auto
  define mem where "mem = (pre @ x) @ rest @ NUL # tail"
  have ok: "ah_ok (pre @ x) rest ah fs" using ah_ok_step [OF "1.prems"(2) w(4)] .
  have sn: "str_at mem np = n" using word_at_str [OF w(1), of tail] by (simp add: mem_def)
  have np: "np < length mem"
  proof (rule ccontr)
    assume "\<not> np < length mem"
    then have "np \<ge> length ((pre @ x) @ (if rest = [] then [NUL] else []))" by (auto simp: mem_def)
    then have "drop np ((pre @ x) @ (if rest = [] then [NUL] else [])) = []" by simp
    with w(1) show False unfolding word_at_def by (metis append_is_Nil_conv list.distinct(1))
  qed
  have hd: "mem ! np = NUL \<longleftrightarrow> n = []"
    using np unfolding sn [symmetric] by (simp add: str_at_def takeWhile_eq_Nil_iff hd_drop_conv_nth)
  have rd: "rd mem np = Some (mem ! np)" using np by simp
  show ?case
  proof (cases "n = []")
    case True
    then have "parse_auth_loop (pre @ t @ NUL # tail) (length pre) ah = Some (mem, ah)"
      using hd by (subst parse_auth_loop.simps) (simp add: p [folded mem_def] rd del: rd_Some append_assoc)
    moreover have "fields_text t = []" using True f by (subst fields_text.simps) simp
    moreover have "map_option (str_at mem) (ah_get ah k) = map_of (rev fs) k" if "k \<in> set auth_names" for k
      using ok that word_at_str [of "pre @ x" rest _ _ tail]
      by (fastforce simp: ah_ok_def mem_def elim!: option.rel_cases [of _ "ah_get ah k"])
    ultimately show ?thesis by simp
  next
    case False
    have "ah_ok (pre @ x) rest (set_field n vp ah) (fs @ [(n, v)])"
      using ok w(2) unfolding ah_ok_def by (simp add: ah_get_set_field map_of_snoc del: rev_append)
    from "1.IH" [OF f [symmetric] refl False w(3) this]
    obtain mem' ah' where r: "parse_auth_loop mem (length (pre @ x)) (set_field n vp ah) = Some (mem', ah')"
      "\<forall>k \<in> set auth_names. map_option (str_at mem') (ah_get ah' k) = map_of (rev ((fs @ [(n, v)]) @ fields_text rest)) k"
      by (auto simp: mem_def)
    have "parse_auth_loop (pre @ t @ NUL # tail) (length pre) ah = Some (mem', ah')"
      using hd False r(1) by (subst parse_auth_loop.simps) (simp add: p [folded mem_def] rd sn del: rd_Some append_assoc)
    moreover have "fields_text t = (n, v) # fields_text rest" using False f by (subst fields_text.simps) simp
    ultimately show ?thesis using r(2) by simp
  qed
qed

section \<open>The header as a whole\<close>

definition nonce_ok :: "auth_context \<Rightarrow> string \<Rightarrow> bool" where
  "nonce_ok ctx s =
     (case strtoul10 s of (n, rest) \<Rightarrow>
        rest = [] \<and> start_time ctx \<le> word_of_nat n XOR auth_nonce_mask ctx
        \<and> word_of_nat n XOR auth_nonce_mask ctx < start_time ctx + nonce_count ctx)"

definition auth_accepts :: "auth_context \<Rightarrow> (string \<times> string) list \<Rightarrow> bool" where
  "auth_accepts ctx fs \<longleftrightarrow> (case map_of (rev fs) ''nonce'' of None \<Rightarrow> False | Some s \<Rightarrow> nonce_ok ctx s)
     \<and> map_of (rev fs) ''username'' \<noteq> None"

lemma strtoul10_digits:
  assumes "ds \<noteq> []" "list_all isdigit ds" "digits_value ds < 18446744073709551616"
  shows "strtoul10 ds = (digits_value ds, [])"
proof -
  obtain d ds' where d: "ds = d # ds'" using assms(1) by (cases ds) auto
  then have nd: "\<not> isspace d" "d \<noteq> CHR ''-''" "d \<noteq> CHR ''+''" using isdigit_facts [of d] assms(2) by auto
  have tw: "takeWhile isdigit ds = ds" "dropWhile isdigit ds = []"
    using assms(2) by (simp_all add: list_all_iff)
  moreover have "dropWhile isspace ds = ds" using d nd by simp
  moreover have "deref ds = d" by (simp add: d)
  ultimately show ?thesis
    using nd assms(1,3) unfolding strtoul10_def Let_def by (simp add: tw del: takeWhile_eq_all_conv)
qed

lemma strtoul10_decimal: "n < 18446744073709551616 \<Longrightarrow> strtoul10 (decimal n) = (n, [])"
  using decimal_digits [of n] strtoul10_digits [of "decimal n"] by simp

lemma parse_auth_header_spec:
  assumes "mg_get_header conn ''Authorization'' = Some h" "mg_strncasecmp h ''Digest '' 7 = 0" "cstring h"
    and "0 < n" "n \<le> length buf" "fs = fields_text (take (n - 1) (drop 7 h))"
  shows "\<exists>buf' ah. parse_auth_header ctx conn buf n
      = Some (auth_accepts ctx fs, buf', ah, if auth_accepts ctx fs then map_of (rev fs) ''username'' else None)
    \<and> (\<forall>k \<in> set auth_names. map_option (str_at buf') (ah_get ah k) = map_of (rev fs) k)"
proof -
  define t where "t = take (n - 1) (drop 7 h)"
  define tail where "tail = drop (Suc (length t)) buf"
  have ct: "cstring t" using assms(3) by (simp add: t_def cstring_take cstring_drop)
  have cp: "mg_strlcpy buf 0 (drop 7 h) n = Some (t @ NUL # tail)"
    using mg_strlcpy_spec [of "drop 7 h" n 0 buf] assms(3-5) by (simp add: t_def tail_def cstring_drop)
  have "ah_ok [] t no_ah []" by (simp add: ah_ok_def)
  from parse_auth_loop_text [OF ct this, of tail] obtain mem' ah where
    loop: "parse_auth_loop (t @ NUL # tail) 0 no_ah = Some (mem', ah)"
    and f: "\<forall>k \<in> set auth_names. map_option (str_at mem') (ah_get ah k) = map_of (rev fs) k"
    using assms(6) by (auto simp: t_def)
  have nonce: "map_option (str_at mem') (ah_nonce ah) = map_of (rev fs) ''nonce''"
    and user: "map_option (str_at mem') (ah_user ah) = map_of (rev fs) ''username''"
    using f by (simp_all add: auth_names_def ah_get_def)
  have run: "parse_auth_header ctx conn buf n =
      (case ah_nonce ah of
         None \<Rightarrow> Some (False, mem', ah, None)
       | Some p \<Rightarrow> Some (if \<not> nonce_ok ctx (str_at mem' p) then (False, mem', ah, None)
           else case ah_user ah of None \<Rightarrow> (False, mem', ah, None) | Some user \<Rightarrow> (True, mem', ah, Some (str_at mem' user))))"
    unfolding parse_auth_header_def assms(1,2) option.case cp Option.bind_lunit loop prod.case
    by (auto simp: nonce_ok_def Let_def not_le not_less split: option.split prod.split)
  show ?thesis
    using nonce [symmetric] user [symmetric] f unfolding run
    by (intro exI [of _ mem'] exI [of _ ah]) (auto simp: auth_accepts_def split: option.split)
qed

section \<open>What a client writes\<close>

text \<open>A field with its value in quotes, quotes in it escaped, or bare; and the header.\<close>

definition quote_char :: "char \<Rightarrow> string" where
  "quote_char c = (if c = DQUOTE then [BACKSLASH, DQUOTE] else [c])"

definition escape :: "string \<Rightarrow> string" where
  "escape v = concat (map quote_char v)"

definition auth_field :: "string \<times> bool \<times> string \<Rightarrow> string" where
  "auth_field f = (case f of (n, quoted, v) \<Rightarrow> n @ ''='' @ (if quoted then DQUOTE # escape v @ [DQUOTE] else v))"

definition auth_field_ok :: "string \<times> bool \<times> string \<Rightarrow> bool" where
  "auth_field_ok f \<longleftrightarrow> (case f of (n, quoted, v) \<Rightarrow>
     n \<noteq> [] \<and> cstring n \<and> CHR ''='' \<notin> set n \<and> \<not> isspace (hd n) \<and> cstring v
     \<and> (if quoted then v = [] \<or> last v \<noteq> BACKSLASH
        else v \<noteq> [] \<and> hd v \<noteq> DQUOTE \<and> CHR '','' \<notin> set v \<and> CHR '' '' \<notin> set v))"

fun auth_text :: "(string \<times> bool \<times> string) list \<Rightarrow> string" where
  "auth_text [] = []"
| "auth_text [f] = auth_field f"
| "auth_text (f # fs) = auth_field f @ '', '' @ auth_text fs"

lemma first_word_plain:
  assumes "cstring n" "set n \<inter> set d = {}" "r = [] \<or> hd r \<in> set d"
  shows "first_word d NUL (n @ r) = (n, r)"
proof -
  have "\<forall>c \<in> set n. inside d c" using assms(1,2) by (auto simp: inside_def cstring_def)
  then have "takeWhile (inside d) (n @ r) = n" "dropWhile (inside d) (n @ r) = r"
    using assms(3) by (cases r; auto simp: takeWhile_append dropWhile_append inside_def)+
  moreover have "n \<noteq> [] \<Longrightarrow> last n \<noteq> NUL" using assms(1) by (metis cstring_def last_in_set)
  ultimately show ?thesis by (simp add: first_word_def unquote.simps [of d NUL n r])
qed

lemma unquote_escape:
  "cstring v \<Longrightarrow> v = [] \<or> last v \<noteq> BACKSLASH \<Longrightarrow> (v = [] \<Longrightarrow> last u \<noteq> BACKSLASH) \<Longrightarrow>
   unquote [DQUOTE] BACKSLASH (u @ takeWhile (inside [DQUOTE]) (escape v @ DQUOTE # rest))
     (dropWhile (inside [DQUOTE]) (escape v @ DQUOTE # rest)) = (u @ v, DQUOTE # rest)"
proof (induction v arbitrary: u)
  case Nil
  then show ?case by (simp add: escape_def inside_def unquote.simps [of _ _ u])
next
  case (Cons c v)
  show ?case
  proof (cases "c = DQUOTE")
    case True
    have esc: "escape (c # v) @ DQUOTE # rest = BACKSLASH # DQUOTE # escape v @ DQUOTE # rest"
      using True by (simp add: escape_def quote_char_def)
    have "unquote [DQUOTE] BACKSLASH ((u @ [DQUOTE]) @ takeWhile (inside [DQUOTE]) (escape v @ DQUOTE # rest))
      (dropWhile (inside [DQUOTE]) (escape v @ DQUOTE # rest)) = ((u @ [DQUOTE]) @ v, DQUOTE # rest)"
      by (rule Cons.IH) (use Cons.prems in \<open>auto split: if_splits\<close>)
    then show ?thesis using True unfolding esc by (simp add: inside_def unquote.simps [of _ _ "u @ [BACKSLASH]"])
  next
    case False
    have "inside [DQUOTE] c" using False Cons.prems(1) by (simp add: inside_def)
    moreover have "escape (c # v) = c # escape v" using False by (simp add: escape_def quote_char_def)
    ultimately show ?thesis using Cons.IH [of "u @ [c]"] Cons.prems by (auto split: if_splits)
  qed
qed

lemma first_word_escape:
  assumes "cstring v" "v = [] \<or> last v \<noteq> BACKSLASH"
  shows "first_word [DQUOTE] BACKSLASH (escape v @ DQUOTE # rest) = (v, DQUOTE # rest)"
proof (cases v)
  case Nil
  then show ?thesis by (simp add: first_word_def escape_def inside_def)
next
  case (Cons c v')
  then have "takeWhile (inside [DQUOTE]) (escape v @ DQUOTE # rest) \<noteq> []"
    using assms(1) by (auto simp: escape_def quote_char_def inside_def)
  then show ?thesis using unquote_escape [OF assms, of "[]" rest] Cons by (simp add: first_word_def)
qed

lemma dropWhile_space: "v = [] \<or> hd v \<noteq> CHR '' '' \<Longrightarrow> dropWhile (\<lambda>c. c \<in> set '' '') v = v"
  by (cases v) auto

lemma field_text_auth_field:
  assumes "auth_field_ok (n, quoted, v)" "sp = [] \<or> sp = '' ''"
    and "rest = [] \<or> (\<exists>y. rest = '', '' @ y \<and> (y = [] \<or> hd y \<noteq> CHR '' ''))"
  shows "\<exists>sp'. (sp' = [] \<or> sp' = '' '')
    \<and> field_text (sp @ auth_field (n, quoted, v) @ rest) = (n, v, if rest = [] then [] else sp' @ drop 2 rest)"
proof -
  define val where "val = (if quoted then DQUOTE # escape v @ [DQUOTE] else v)"
  have n: "n \<noteq> []" "cstring n" "set n \<inter> set ''='' = {}" "\<not> isspace (hd n)" using assms(1) by (auto simp: auth_field_ok_def)
  have sps: "isspace (CHR '' '')" by code_simp
  have dw: "dropWhile isspace (sp @ auth_field (n, quoted, v) @ rest) = n @ ''='' @ val @ rest"
    using assms(2) n(1,4) sps by (cases n) (auto simp: auth_field_def val_def)
  have w: "first_word ''='' NUL (n @ ''='' @ val @ rest) = (n, ''='' @ val @ rest)"
    using first_word_plain [OF n(2,3), of "''='' @ val @ rest"] by simp
  have hv: "val \<noteq> []" "hd val \<noteq> CHR '' ''" using assms(1) by (cases v; auto simp: val_def auth_field_ok_def split: if_splits)+
  then have b: "behind '' '' (''='' @ val @ rest) = val @ rest"
    using dropWhile_space [of "val @ rest"] by (simp add: behind_def)
  show ?thesis
  proof (cases quoted)
    case True
    have "first_word [DQUOTE] BACKSLASH (escape v @ DQUOTE # rest) = (v, DQUOTE # rest)"
      using first_word_escape assms(1) True by (simp add: auth_field_ok_def)
    moreover have "behind '' '' (DQUOTE # rest) = rest" using assms(3) dropWhile_space [of rest] by (auto simp: behind_def)
    ultimately have "field_text (sp @ auth_field (n, quoted, v) @ rest) = (n, v, if deref rest = CHR '','' then tl rest else rest)"
      unfolding field_text_def dw w prod.case Let_def b by (simp add: val_def True)
    moreover have "(if deref rest = CHR '','' then tl rest else rest) = (if rest = [] then [] else '' '' @ drop 2 rest)"
      using assms(3) by auto
    ultimately show ?thesis by (intro exI [of _ "'' ''"]) simp
  next
    case False
    then have v: "cstring v" "set v \<inter> set '', '' = {}" "v \<noteq> []" "hd v \<noteq> DQUOTE" using assms(1) by (auto simp: auth_field_ok_def)
    have "first_word '', '' NUL (v @ rest) = (v, rest)" using first_word_plain [OF v(1,2), of rest] assms(3) by auto
    moreover have "deref (v @ rest) \<noteq> DQUOTE" using v(3,4) by (cases v) auto
    ultimately have "field_text (sp @ auth_field (n, quoted, v) @ rest) = (n, v, behind '' '' rest)"
      unfolding field_text_def dw w prod.case Let_def b by (simp add: val_def False)
    moreover have "behind '' '' rest = (if rest = [] then [] else drop 2 rest)"
      using assms(3) dropWhile_space [of "drop 2 rest"] by (auto simp: behind_def)
    ultimately show ?thesis by (auto intro: exI [of _ "[]"])
  qed
qed

lemma fields_text_auth_text:
  "list_all auth_field_ok fs \<Longrightarrow> sp = [] \<or> sp = '' '' \<Longrightarrow> fields_text (sp @ auth_text fs) = map (\<lambda>(n, q, v). (n, v)) fs"
proof (induction fs arbitrary: sp rule: auth_text.induct)
  case 1
  have "\<not> isspace NUL" "dropWhile isspace '' '' = []" by code_simp+
  then have "field_text sp = ([], [], [])" using "1.prems" by (auto simp: field_text_def first_word_def behind_def)
  then show ?case by (subst fields_text.simps) simp
next
  case (2 f)
  obtain n q v where f: "f = (n, q, v)" by (metis prod_cases3)
  have ok: "auth_field_ok (n, q, v)" "n \<noteq> []" using "2.prems" f by (simp_all add: auth_field_ok_def)
  from field_text_auth_field [OF ok(1) "2.prems"(2), of "[]"] have "field_text (sp @ auth_field f) = (n, v, [])" by (simp add: f)
  moreover have "fields_text [] = []"
    by (subst fields_text.simps) (simp add: field_text_def first_word_def behind_def)
  ultimately show ?case using ok(2) by (subst fields_text.simps) (simp add: f)
next
  case (3 f g fs)
  obtain n q v where f: "f = (n, q, v)" by (metis prod_cases3)
  obtain n' q' v' where g: "g = (n', q', v')" by (metis prod_cases3)
  have ok: "auth_field_ok (n, q, v)" "n \<noteq> []" using "3.prems" f by (simp_all add: auth_field_ok_def)
  have "n' \<noteq> []" "\<not> isspace (hd n')" using "3.prems" g by (simp_all add: auth_field_ok_def)
  moreover have "isspace (CHR '' '')" by code_simp
  moreover have "\<exists>z. auth_text (g # fs) = n' @ z" by (cases fs) (simp_all add: g auth_field_def)
  ultimately have hd: "auth_text (g # fs) \<noteq> [] \<and> hd (auth_text (g # fs)) \<noteq> CHR '' ''" by (cases n') auto
  then obtain sp' where sp': "sp' = [] \<or> sp' = '' ''"
    "field_text (sp @ auth_field f @ '', '' @ auth_text (g # fs)) = (n, v, sp' @ auth_text (g # fs))"
    using field_text_auth_field [OF ok(1) "3.prems"(2), of "'', '' @ auth_text (g # fs)"] by (auto simp: f)
  have "fields_text (sp' @ auth_text (g # fs)) = map (\<lambda>(n, q, v). (n, v)) (g # fs)"
    using "3.IH" [OF _ sp'(1)] "3.prems" by simp
  then show ?case using sp'(2) ok(2) by (subst fields_text.simps) (simp add: f)
qed

lemma parse_auth_header_sent:
  assumes "list_all auth_field_ok fs" "fold_case scheme = ''digest ''" "mg_get_header conn ''Authorization'' = Some (scheme @ auth_text fs)"
    and "cstring (scheme @ auth_text fs)" "length (auth_text fs) < n" "n \<le> length buf" "sent = map (\<lambda>(n, q, v). (n, v)) fs"
  shows "\<exists>buf' ah. parse_auth_header ctx conn buf n
      = Some (auth_accepts ctx sent, buf', ah, if auth_accepts ctx sent then map_of (rev sent) ''username'' else None)
    \<and> (\<forall>k \<in> set auth_names. map_option (str_at buf') (ah_get ah k) = map_of (rev sent) k)"
proof -
  have l: "length scheme = 7" using arg_cong [OF assms(2), of length] by simp
  have "fold_case ''Digest '' = ''digest ''" by code_simp
  then have d: "mg_strncasecmp (scheme @ auth_text fs) ''Digest '' 7 = 0"
    using mg_strncasecmp_eq [OF assms(4), of "''Digest ''" 7] assms(2) l by simp
  have "sent = fields_text (take (n - 1) (drop 7 (scheme @ auth_text fs)))"
    using fields_text_auth_text [OF assms(1), of "[]"] l assms(5,7) by simp
  from parse_auth_header_spec [OF assms(3) d assms(4) _ assms(6) this, of ctx] assms(5)
  show ?thesis by simp
qed

text \<open>C24: the \<open>Authorization\<close> header. A client lists fields, with values in quotes (quotes in them
  escaped by a backslash) or bare, and \<open>Digest\<close> in any case in front. If the list fits the copy,
  \<open>parse_auth_header\<close> stays inside the copy and finds, for each field it knows, exactly the
  value the client gave last; it accepts the header when there is a user and the nonce is one
  the server has issued since its start, and then the user is the request's remote user.\<close>

theorem auth_header_roundtrip:
  assumes "list_all auth_field_ok fs" "fold_case scheme = ''digest ''" "mg_get_header conn ''Authorization'' = Some (scheme @ auth_text fs)"
    and "cstring (scheme @ auth_text fs)" "length (auth_text fs) < n" "n \<le> length buf" "sent = map (\<lambda>(n, q, v). (n, v)) fs"
  shows "\<exists>buf' ah. parse_auth_header ctx conn buf n
      = Some (auth_accepts ctx sent, buf', ah, if auth_accepts ctx sent then map_of (rev sent) ''username'' else None)
    \<and> map_option (str_at buf') (ah_user ah) = map_of (rev sent) ''username''
    \<and> map_option (str_at buf') (ah_uri ah) = map_of (rev sent) ''uri''
    \<and> map_option (str_at buf') (ah_nonce ah) = map_of (rev sent) ''nonce''
    \<and> map_option (str_at buf') (ah_nc ah) = map_of (rev sent) ''nc''
    \<and> map_option (str_at buf') (ah_cnonce ah) = map_of (rev sent) ''cnonce''
    \<and> map_option (str_at buf') (ah_qop ah) = map_of (rev sent) ''qop''
    \<and> map_option (str_at buf') (ah_response ah) = map_of (rev sent) ''response''"
  using parse_auth_header_sent [OF assms, of ctx] by (auto simp: auth_names_def ah_get_def)

definition example_login :: "(string \<times> bool \<times> string) list" where
  "example_login = [(''username'', True, ''the '' @ [DQUOTE] @ ''boss'' @ [DQUOTE]), (''realm'', True, ''mydomain.com''),
     (''nonce'', True, ''1234''), (''nc'', False, ''00000001''), (''nc'', False, ''00000002'')]"

theorem auth_header_roundtrip_witness:
  "\<exists>conn buf' ah. parse_auth_header \<lparr>auth_nonce_mask = 0, nonce_count = 5, start_time = 1230, AUTHENTICATION_DOMAIN = ''mydomain.com'',
        request_method = Some ''GET''\<rparr> (Some conn) (replicate 200 (CHR ''x'')) 200
      = Some (True, buf', ah, Some (''the '' @ [DQUOTE] @ ''boss'' @ [DQUOTE]))
    \<and> map_option (str_at buf') (ah_nc ah) = Some ''00000002''"
proof -
  let ?ctx = "\<lparr>auth_nonce_mask = 0, nonce_count = 5, start_time = 1230, AUTHENTICATION_DOMAIN = ''mydomain.com'',
    request_method = Some ''GET''\<rparr>"
  define sent where "sent = map (\<lambda>(n, q, v :: string). (n :: string, v)) example_login"
  define conn where "conn = example_writer\<lparr>request_info := \<lparr>info_version = Some ''1.1'',
    info_headers = [(''Authorization'', ''DIGEST '' @ auth_text example_login)]\<rparr>\<rparr>"
  have ok: "list_all auth_field_ok example_login" unfolding example_login_def by code_simp
  have fold: "fold_case ''DIGEST '' = ''digest ''" "fold_case ''Authorization'' = ''authorization''" by code_simp+
  have c: "cstring (''DIGEST '' @ auth_text example_login)" "length (auth_text example_login) < 200"
    unfolding example_login_def by code_simp+
  have h: "mg_get_header (Some conn) ''Authorization'' = Some (''DIGEST '' @ auth_text example_login)"
    using mg_strcasecmp_eq [of "''Authorization''" "''Authorization''"]
    by (simp add: mg_get_header_def conn_def example_writer_def)
  have s: "map_of (rev sent) ''username'' = Some (''the '' @ [DQUOTE] @ ''boss'' @ [DQUOTE])" "map_of (rev sent) ''nonce'' = Some ''1234''"
    "map_of (rev sent) ''nc'' = Some ''00000002''" unfolding sent_def example_login_def by code_simp+
  have "decimal 1234 = ''1234''" by (simp add: decimal.simps, code_simp)
  then have "strtoul10 ''1234'' = (1234, [])" using strtoul10_decimal [of 1234] by simp
  then have "nonce_ok ?ctx ''1234''" by (simp add: nonce_ok_def)
  then have "auth_accepts ?ctx sent" by (simp add: auth_accepts_def s)
  with auth_header_roundtrip [OF ok fold(1) h c(1,2) _ sent_def, of "replicate 200 (CHR ''x'')" ?ctx] s show ?thesis by auto
qed

end
