(* ===== verification/Stdio.thy ===== *)
theory Stdio
  imports CString
begin

text \<open>
  What the program uses of \<^verbatim>\<open><stdio.h>\<close> and \<^verbatim>\<open><string.h>\<close> to read text files: a file that is open for
  reading is the text that is still to be read, \<open>fgets\<close> takes a piece of it, and \<open>strtok\<close> with one
  delimiter cuts a string into its words.
\<close>

section \<open>Reading a file\<close>

text \<open>\<open>fgets\<close> into a buffer of \<open>n\<close> bytes: what the buffer holds before the terminator, and the rest.\<close>

definition fgets :: "nat \<Rightarrow> char list \<Rightarrow> (char list \<times> char list) option" where
  "fgets n s =
     (if s = [] then None
      else let line = takeWhile (\<lambda>c. c \<noteq> LF) s;
               k = min (n - 1) (if LF \<in> set s then Suc (length line) else length s)
           in Some (take k s, drop k s))"

lemma fgets_None [simp]: "fgets n s = None \<longleftrightarrow> s = []"
  by (simp add: fgets_def Let_def)

lemma fgets_shorter: "fgets n s = Some (buf, rest) \<Longrightarrow> 1 < n \<Longrightarrow> length rest < length s"
  by (auto simp: fgets_def Let_def split: if_splits)

text \<open>The pieces that a loop of \<open>fgets\<close> sees.\<close>

function pieces :: "nat \<Rightarrow> char list \<Rightarrow> char list list" where
  "pieces n s = (if 1 < n then (case fgets n s of None \<Rightarrow> [] | Some (buf, rest) \<Rightarrow> buf # pieces n rest) else [])"
  by pat_completeness auto
termination
  by (relation "measure (\<lambda>(n, s). length s)") (auto dest: fgets_shorter)

declare pieces.simps [simp del]

lemma fgets_line:
  assumes "LF \<notin> set line" "length line + 1 < n"
  shows "fgets n (line @ LF # rest) = Some (line @ [LF], rest)"
proof -
  have "takeWhile (\<lambda>c. c \<noteq> LF) (line @ LF # rest) = line" using assms(1) by (auto simp: takeWhile_append)
  then show ?thesis using assms(2) by (simp add: fgets_def Let_def)
qed

lemma fgets_last:
  assumes "LF \<notin> set line" "length line < n" "line \<noteq> []"
  shows "fgets n line = Some (line, [])"
  using assms by (simp add: fgets_def Let_def)

lemma pieces_Nil [simp]: "pieces n [] = []"
  by (simp add: pieces.simps [of n "[]"] fgets_def)

lemma pieces_line:
  "LF \<notin> set line \<Longrightarrow> length line + 1 < n \<Longrightarrow> pieces n (line @ LF # rest) = (line @ [LF]) # pieces n rest"
  by (subst pieces.simps) (simp add: fgets_line)

lemma pieces_last:
  "LF \<notin> set line \<Longrightarrow> length line < n \<Longrightarrow> 1 < n \<Longrightarrow> line \<noteq> [] \<Longrightarrow> pieces n line = [line]"
  by (subst pieces.simps) (simp add: fgets_last)

text \<open>Nothing is lost: the pieces in a row are the file.\<close>

lemma concat_pieces: "1 < n \<Longrightarrow> concat (pieces n s) = s"
proof (induction n s rule: pieces.induct)
  case (1 n s)
  show ?case
  proof (cases "fgets n s")
    case None
    then show ?thesis by simp
  next
    case (Some p)
    obtain buf rest where p: "p = (buf, rest)" by fastforce
    have "s = buf @ rest" using Some p by (auto simp: fgets_def Let_def split: if_splits)
    then show ?thesis using "1.IH" [OF "1.prems" Some p [symmetric] "1.prems"] Some p "1.prems" by (subst pieces.simps) simp
  qed
qed

section \<open>Words of a string\<close>

text \<open>The results of \<open>strtok\<close> with the delimiter \<open>d\<close>, called until it returns \<open>NULL\<close>.\<close>

function strtok_words :: "char \<Rightarrow> string \<Rightarrow> string list" where
  "strtok_words d s =
     (let s = dropWhile (\<lambda>c. c = d) s
      in if s = [] then [] else takeWhile (\<lambda>c. c \<noteq> d) s # strtok_words d (tl (dropWhile (\<lambda>c. c \<noteq> d) s)))"
  by pat_completeness auto
termination
proof (relation "measure (\<lambda>(d, s). length s)", goal_cases)
  case (2 d s t)
  have "length (dropWhile (\<lambda>c. c \<noteq> d) t) \<le> length t" "length t \<le> length s" using 2(1) length_dropWhile_le by auto
  moreover have "0 < length t" using 2(2) by simp
  ultimately show ?case by (simp, linarith)
qed simp

declare strtok_words.simps [simp del]

text \<open>They are the parts between the delimiters that are not empty.\<close>

lemma strtok_words_split: "strtok_words d s = filter (\<lambda>w. w \<noteq> []) (split_on d s)"
proof (induction d s rule: strtok_words.induct)
  case (1 d s)
  define t where "t = dropWhile (\<lambda>c. c = d) s"
  have skip: "filter (\<lambda>w. w \<noteq> []) (split_on d s) = (if t = [] then [] else filter (\<lambda>w. w \<noteq> []) (split_on d t))"
    unfolding t_def by (induction s) auto
  show ?case
  proof (cases "t = []")
    case True
    then show ?thesis unfolding skip by (subst strtok_words.simps) (simp add: t_def [symmetric])
  next
    case False
    define w where "w = takeWhile (\<lambda>c. c \<noteq> d) t"
    define r where "r = dropWhile (\<lambda>c. c \<noteq> d) t"
    have hd: "hd t \<noteq> d" using hd_dropWhile [of "\<lambda>c. c = d" s] False by (simp add: t_def)
    then have w: "w \<noteq> []" using False by (simp add: w_def takeWhile_eq_Nil_iff)
    have dw: "d \<notin> set w" by (auto simp: w_def dest: set_takeWhileD)
    have t: "t = w @ r" by (simp add: w_def r_def)
    have "filter (\<lambda>w. w \<noteq> []) (split_on d t) = w # strtok_words d (tl r)"
    proof (cases r)
      case Nil
      then show ?thesis using t dw w split_on_no_sep [OF dw] by (simp add: strtok_words.simps [of d "[]"])
    next
      case (Cons a r')
      then have "a = d" using hd_dropWhile [of "\<lambda>c. c \<noteq> d" t] by (simp add: r_def)
      then have "split_on d t = w # split_on d r'" using split_on_append_sep [OF dw] t Cons by simp
      moreover have "strtok_words d (tl r) = filter (\<lambda>w. w \<noteq> []) (split_on d (tl r))"
        using "1.IH" [OF t_def False] by (simp add: r_def)
      ultimately show ?thesis using Cons w by simp
    qed
    then show ?thesis using False unfolding skip by (subst strtok_words.simps) (simp add: t_def [symmetric] w_def r_def)
  qed
qed

end
