(* ===== verification/Passwords.thy ===== *)
theory Passwords
  imports Md5 Stdio
begin

text \<open>
  Passwords of digest authentication: the hash \<open>mg_md5\<close>, the check of a client's answer
  (\<open>check_password\<close>), the search of the password files (\<open>read_auth_file\<close>) and their upkeep
  (\<open>modify_passwords_file\<close>). The file system is a map from names to contents.
\<close>

section \<open>The code\<close>

definition bin2str :: "byte list \<Rightarrow> string" where
  "bin2str p = concat (map (\<lambda>b. [''0123456789abcdef'' ! unat (drop_bit 4 b), ''0123456789abcdef'' ! unat (b AND 15)]) p)"

text \<open>The arguments end at the first \<open>NULL\<close>; \<open>ctx\<close> is the context on the stack.\<close>

definition mg_md5 :: "md5_state \<Rightarrow> string option list \<Rightarrow> string" where
  "mg_md5 ctx args =
     bin2str (fst (md5_finish (fold (\<lambda>p ctx. md5_append ctx (map byte_of p) (length p))
       (map the (takeWhile (\<lambda>p. p \<noteq> None) args)) (md5_init ctx))))"

definition check_password ::
    "md5_state \<Rightarrow> string option \<Rightarrow> string \<Rightarrow> string option \<Rightarrow> string option \<Rightarrow> string option \<Rightarrow> string option
     \<Rightarrow> string option \<Rightarrow> string option \<Rightarrow> bool" where
  "check_password ctx method ha1 uri nonce nc cnonce qop response =
     (if method = None \<or> nonce = None \<or> nc = None \<or> cnonce = None \<or> qop = None \<or> response = None then False
      else if length (the response) \<noteq> 32 then False
      else let ha2 = mg_md5 ctx [method, Some '':'', uri, None];
               expected_response = mg_md5 ctx [Some ha1, Some '':'', nonce, Some '':'', nc, Some '':'', cnonce, Some '':'',
                 qop, Some '':'', Some ha2, None]
           in mg_strcasecmp (the response) expected_response = 0)"

subsection \<open>Reading the password files\<close>

text \<open>What a line means: nothing, another file, or a user's entry in a domain.\<close>

datatype auth_line = Ignored | Include string | Entry string string string

definition strip_line :: "string \<Rightarrow> string" where
  "strip_line l = rev (dropWhile (\<lambda>c. isspace c \<or> iscntrl c) (rev l))"

definition auth_line :: "char list \<Rightarrow> auth_line" where
  "auth_line buf =
     (let f_user = strip_line (takeWhile (\<lambda>c. c \<noteq> NUL) buf)
      in if f_user = [] then Ignored
         else if hd f_user = CHR '':''
         then if take 1 (tl f_user) = ''#'' then Ignored
              else if take 8 (tl f_user) = ''include='' then Include (drop 9 f_user)
              else Ignored
         else case strchr f_user (CHR '':'') of
                None \<Rightarrow> Ignored
              | Some f_domain \<Rightarrow> (case strchr (tl f_domain) (CHR '':'') of
                    None \<Rightarrow> Ignored
                  | Some f_ha1 \<Rightarrow> Entry (takeWhile (\<lambda>c. c \<noteq> CHR '':'') f_user)
                                   (takeWhile (\<lambda>c. c \<noteq> CHR '':'') (tl f_domain)) (tl f_ha1)))"

record read_auth =
  ra_ctx :: md5_state
  ra_method :: "string option"
  ra_user :: string
  ra_domain :: string
  ra_uri :: "string option"
  ra_nonce :: "string option"
  ra_nc :: "string option"
  ra_cnonce :: "string option"
  ra_qop :: "string option"
  ra_response :: "string option"

type_synonym files = "string \<Rightarrow> char list option"

definition check_entry :: "read_auth \<Rightarrow> string \<Rightarrow> bool" where
  "check_entry wd ha1 =
     check_password (ra_ctx wd) (ra_method wd) ha1 (ra_uri wd) (ra_nonce wd) (ra_nc wd) (ra_cnonce wd) (ra_qop wd) (ra_response wd)"

function read_auth_file :: "files \<Rightarrow> read_auth \<Rightarrow> nat \<Rightarrow> char list \<Rightarrow> bool" where
  "read_auth_file files wd depth filep =
     (if depth = 0 then False
      else case fgets (256 + 256 + 40) filep of
             None \<Rightarrow> False
           | Some (buf, filep) \<Rightarrow>
               (case auth_line buf of
                  Ignored \<Rightarrow> read_auth_file files wd depth filep
                | Include f \<Rightarrow>
                    (case files f of
                       None \<Rightarrow> read_auth_file files wd depth filep
                     | Some fp \<Rightarrow> if read_auth_file files wd (depth - 1) fp then True
                                  else read_auth_file files wd depth filep)
                | Entry f_user f_domain f_ha1 \<Rightarrow>
                    if ra_user wd = f_user \<and> ra_domain wd = f_domain then check_entry wd f_ha1
                    else read_auth_file files wd depth filep))"
  by pat_completeness auto
termination
  by (relation "measures [\<lambda>(files, wd, depth, filep). depth, \<lambda>(files, wd, depth, filep). length filep]")
    (auto dest: fgets_shorter)

declare read_auth_file.simps [simp del]

definition INITIAL_DEPTH :: nat where
  "INITIAL_DEPTH = 9"

subsection \<open>Changing a password file\<close>

text \<open>\<open>sscanf(line, "%255[^:]:%255[^:]:%*s", u, d)\<close> when it converts both fields.\<close>

definition scan_entry :: "string \<Rightarrow> (string \<times> string) option" where
  "scan_entry line =
     (let u = take 255 (takeWhile (\<lambda>c. c \<noteq> CHR '':'') line);
          rest = drop (length u) line
      in if u = [] \<or> rest = [] \<or> hd rest \<noteq> CHR '':'' then None
         else let d = take 255 (takeWhile (\<lambda>c. c \<noteq> CHR '':'') (tl rest))
              in if d = [] then None else Some (u, d))"

definition entry_line :: "string \<Rightarrow> string \<Rightarrow> string \<Rightarrow> string" where
  "entry_line user domain ha1 = user @ '':'' @ domain @ '':'' @ ha1 @ [LF]"

text \<open>What is written for the user: the hash of the password, the hash given, or nothing.\<close>

definition user_line :: "md5_state \<Rightarrow> string \<Rightarrow> string \<Rightarrow> string option \<Rightarrow> string option \<Rightarrow> string" where
  "user_line ctx domain user pass ha1 =
     (case pass of
        Some p \<Rightarrow> entry_line user domain (mg_md5 ctx [Some user, Some '':'', Some domain, Some '':'', Some p, None])
      | None \<Rightarrow> (case ha1 of Some h \<Rightarrow> entry_line user domain h | None \<Rightarrow> []))"

text \<open>The copying loop: what is written to the new file and the number of entries found.\<close>

function copy_entries :: "string \<Rightarrow> string \<Rightarrow> string \<Rightarrow> char list \<Rightarrow> char list \<Rightarrow> nat \<Rightarrow> char list \<times> nat" where
  "copy_entries new domain user fp fp2 found =
     (case fgets 512 fp of
        None \<Rightarrow> (fp2, found)
      | Some (line, fp) \<Rightarrow>
          let line = takeWhile (\<lambda>c. c \<noteq> NUL) line
          in case scan_entry line of
               None \<Rightarrow> copy_entries new domain user fp fp2 found
             | Some (u, d) \<Rightarrow>
                 if u = user \<and> d = domain then copy_entries new domain user fp (fp2 @ new) (Suc found)
                 else copy_entries new domain user fp (fp2 @ line) found)"
  by pat_completeness auto
termination
  by (relation "measure (\<lambda>(new, domain, user, fp, fp2, found). length fp)") (auto dest: fgets_shorter)

declare copy_entries.simps [simp del]

definition valid_name :: "string \<Rightarrow> bool" where
  "valid_name s \<longleftrightarrow> \<not> list_ex iscntrl (take 255 s) \<and> length s \<le> 255"

definition UTF8_PATH_MAX :: nat where
  "UTF8_PATH_MAX = 4096"

text \<open>\<open>writable f\<close> tells whether the file \<open>f\<close> can be created or rewritten.\<close>

definition modify_passwords_file ::
    "md5_state \<Rightarrow> (string \<Rightarrow> bool) \<Rightarrow> files \<Rightarrow> string option \<Rightarrow> string option \<Rightarrow> string option \<Rightarrow> string option \<Rightarrow> string option
     \<Rightarrow> int \<times> files" where
  "modify_passwords_file ctx writable files fname domain user pass ha1 =
     (let pass = (if pass = Some [] then None else pass)
      in case (fname, domain, user) of
           (Some fname, Some domain, Some user) \<Rightarrow>
             if CHR '':'' \<in> set user \<or> CHR '':'' \<in> set domain \<or> \<not> valid_name user \<or> \<not> valid_name domain
                \<or> UTF8_PATH_MAX \<le> length fname + 4 then (0, files)
             else let tmp = fname @ ''.tmp'';
                      files = (if files fname = None \<and> writable fname then files(fname \<mapsto> []) else files)
                  in (case files fname of
                        None \<Rightarrow> (0, files)
                      | Some fp \<Rightarrow>
                          if \<not> writable tmp then (0, files)
                          else let new = user_line ctx domain user pass ha1;
                                   (fp2, found) = copy_entries new domain user fp [] 0;
                                   fp2 = (if found = 0 then fp2 @ new else fp2)
                               in (1, (files(tmp := None))(fname \<mapsto> fp2)))
         | _ \<Rightarrow> (0, files))"

definition mg_modify_passwords_file ::
    "md5_state \<Rightarrow> (string \<Rightarrow> bool) \<Rightarrow> files \<Rightarrow> string option \<Rightarrow> string option \<Rightarrow> string option \<Rightarrow> string option \<Rightarrow> int \<times> files" where
  "mg_modify_passwords_file ctx writable files fname domain user pass =
     modify_passwords_file ctx writable files fname domain user pass None"

definition mg_modify_passwords_file_ha1 ::
    "md5_state \<Rightarrow> (string \<Rightarrow> bool) \<Rightarrow> files \<Rightarrow> string option \<Rightarrow> string option \<Rightarrow> string option \<Rightarrow> string option \<Rightarrow> int \<times> files" where
  "mg_modify_passwords_file_ha1 ctx writable files fname domain user ha1 =
     modify_passwords_file ctx writable files fname domain user None ha1"

section \<open>The hash\<close>

definition md5_hex :: "string \<Rightarrow> string" where
  "md5_hex s = bin2str (md5_digest (map byte_of s))"

lemma mg_md5_spec:
  assumes "length (mbuf ctx) = 64"
  shows "mg_md5 ctx (map Some ss @ None # rest) = md5_hex (concat ss)"
proof -
  have tw: "map the (takeWhile (\<lambda>p. p \<noteq> None) (map Some ss @ None # rest)) = ss"
    by (induction ss) simp_all
  have "fold (\<lambda>p ctx. md5_append ctx (map byte_of p) (length p)) ss c
      = fold (\<lambda>d c. md5_append c d (length d)) (map (map byte_of) ss) c" for c
    by (induction ss arbitrary: c) simp_all
  then show ?thesis
    using md5_spec [OF assms, of "map (map byte_of) ss"] unfolding mg_md5_def tw by (simp add: md5_hex_def map_concat)
qed

lemma hex_digit:
  "k < 16 \<Longrightarrow> isxdigit (''0123456789abcdef'' ! k) \<and> tolower (''0123456789abcdef'' ! k) = ''0123456789abcdef'' ! k"
proof -
  have "list_all (\<lambda>k. isxdigit (''0123456789abcdef'' ! k) \<and> tolower (''0123456789abcdef'' ! k) = ''0123456789abcdef'' ! k) [0..<16]"
    by code_simp
  then show "k < 16 \<Longrightarrow> ?thesis" by (simp add: list_all_iff)
qed

lemma hex_nibbles: "unat (drop_bit 4 b) < 16" "unat (b AND 15) < 16" for b :: byte
proof -
  have "unat b < 256" using unsigned_less [of b] by simp
  then show "unat (drop_bit 4 b) < 16" by (simp add: drop_bit_eq_div unat_div)
  have "b AND 15 = take_bit 4 b" by (simp add: take_bit_eq_mask mask_eq_exp_minus_1)
  then show "unat (b AND 15) < 16" using take_bit_nat_less_exp [of 4 "unat b"] by (simp add: unsigned_take_bit_eq)
qed

lemma bin2str_chars: "list_all (\<lambda>c. isxdigit c \<and> tolower c = c) (bin2str p)"
  by (induction p) (simp_all add: bin2str_def hex_digit hex_nibbles)

lemma length_bin2str: "length (bin2str p) = 2 * length p"
  by (induction p) (simp_all add: bin2str_def)

lemma length_md5_compress [simp]: "length (md5_compress H b) = 4"
  by (simp add: md5_compress_def split: prod.split)

lemma length_md5_digest: "length (md5_digest m) = 16"
proof -
  have "length (absorb md5_compress H m) = 4" if "length H = 4" for H m
    using that
  proof (induction "md5_compress" H m rule: absorb.induct)
    case (1 H m)
    then show ?case by (subst absorb.simps) simp
  qed
  moreover have "length (concat (map le_bytes ws)) = 4 * length ws" for ws
    by (induction ws) (simp_all add: le_bytes_def)
  ultimately show ?thesis by (simp add: md5_digest_def)
qed

lemma length_md5_hex: "length (md5_hex s) = 32"
  by (simp add: md5_hex_def length_bin2str length_md5_digest)

lemma md5_hex_chars: "c \<in> set (md5_hex s) \<Longrightarrow> isxdigit c \<and> tolower c = c"
  using bin2str_chars [of "md5_digest (map byte_of s)"] by (auto simp: md5_hex_def list_all_iff)

lemma md5_hex_plain:
  "cstring (md5_hex s)" "fold_case (md5_hex s) = md5_hex s" "\<not> list_ex iscntrl (md5_hex s)" "\<not> isspace (last (md5_hex s))"
  "md5_hex s \<noteq> []"
proof -
  have x: "c \<noteq> NUL \<and> \<not> iscntrl c \<and> \<not> isspace c" if "isxdigit c" for c
    using that by (auto simp: ctype_defs ordc_def)
  show "cstring (md5_hex s)" "\<not> list_ex iscntrl (md5_hex s)"
    using x md5_hex_chars by (auto simp: cstring_def list_ex_iff)
  show "fold_case (md5_hex s) = md5_hex s" using md5_hex_chars by (simp add: map_idI)
  show n: "md5_hex s \<noteq> []" using length_md5_hex [of s] by auto
  show "\<not> isspace (last (md5_hex s))" using x md5_hex_chars last_in_set [OF n] by blast
qed

text \<open>The answer of RFC 2617 with \<open>qop\<close>.\<close>

definition digest_answer :: "string \<Rightarrow> string \<Rightarrow> string \<Rightarrow> string \<Rightarrow> string \<Rightarrow> string \<Rightarrow> string \<Rightarrow> string" where
  "digest_answer method ha1 uri nonce nc cnonce qop =
     md5_hex (ha1 @ '':'' @ nonce @ '':'' @ nc @ '':'' @ cnonce @ '':'' @ qop @ '':'' @ md5_hex (method @ '':'' @ uri))"

text \<open>A missing \<open>uri\<close> ends the arguments of \<open>mg_md5\<close>, as an empty one would.\<close>

lemma check_password_spec:
  assumes "length (mbuf ctx) = 64" "cstring response" "uri = (case uri_arg of None \<Rightarrow> [] | Some u \<Rightarrow> u)"
  shows "check_password ctx (Some method) ha1 uri_arg (Some nonce) (Some nc) (Some cnonce) (Some qop) (Some response)
    \<longleftrightarrow> fold_case response = digest_answer method ha1 uri nonce nc cnonce qop"
proof -
  have a: "mg_md5 ctx [Some method, Some '':'', uri_arg, None] = md5_hex (method @ '':'' @ uri)"
    using mg_md5_spec [OF assms(1), of "[method, '':'', uri]" "[]"] mg_md5_spec [OF assms(1), of "[method, '':'']" "[None]"]
    by (cases uri_arg) (simp_all add: assms(3))
  have b: "mg_md5 ctx [Some ha1, Some '':'', Some nonce, Some '':'', Some nc, Some '':'', Some cnonce, Some '':'',
      Some qop, Some '':'', Some h, None] = md5_hex (ha1 @ '':'' @ nonce @ '':'' @ nc @ '':'' @ cnonce @ '':'' @ qop @ '':'' @ h)" for h
    using mg_md5_spec [OF assms(1), of "[ha1, '':'', nonce, '':'', nc, '':'', cnonce, '':'', qop, '':'', h]" "[]"] by simp
  define d where "d = digest_answer method ha1 uri nonce nc cnonce qop"
  have "mg_strcasecmp response d = 0 \<longleftrightarrow> fold_case response = d"
    using mg_strcasecmp_eq [OF assms(2), of d] md5_hex_plain(1,2) by (simp add: d_def digest_answer_def)
  moreover have "fold_case response = d \<Longrightarrow> length response = 32"
    using length_md5_hex by (metis d_def digest_answer_def length_map)
  ultimately show ?thesis
    unfolding d_def [symmetric] by (auto simp: check_password_def a b d_def digest_answer_def)
qed

section \<open>A password file as a map\<close>

type_synonym entry = "string \<times> string \<times> string"

definition plain_name :: "string \<Rightarrow> bool" where
  "plain_name s \<longleftrightarrow> s \<noteq> [] \<and> length s \<le> 255 \<and> CHR '':'' \<notin> set s \<and> \<not> list_ex iscntrl s"

definition entry_ok :: "entry \<Rightarrow> bool" where
  "entry_ok e \<longleftrightarrow> (case e of (u, d, h) \<Rightarrow> plain_name u \<and> plain_name d
     \<and> h \<noteq> [] \<and> \<not> list_ex iscntrl h \<and> \<not> isspace (last h) \<and> length u + length d + length h + 3 < 512)"

definition entry_text :: "entry \<Rightarrow> string" where
  "entry_text e = (case e of (u, d, h) \<Rightarrow> entry_line u d h)"

definition file_text :: "entry list \<Rightarrow> string" where
  "file_text es = concat (map entry_text es)"

definition stored :: "entry list \<Rightarrow> string \<times> string \<Rightarrow> string option" where
  "stored es = map_of (map (\<lambda>(u, d, h). ((u, d), h)) es)"

lemma no_control: "\<not> list_ex iscntrl s \<Longrightarrow> LF \<notin> set s \<and> NUL \<notin> set s"
proof -
  have "iscntrl LF" "iscntrl NUL" by code_simp+
  then show "\<not> list_ex iscntrl s \<Longrightarrow> ?thesis" by (auto simp: list_ex_iff)
qed

lemma takeWhile_until: "x \<notin> set s \<Longrightarrow> takeWhile (\<lambda>c. c \<noteq> x) (s @ x # t) = s"
  by (auto simp: takeWhile_append)

lemma entry_line_facts:
  assumes "entry_ok (u, d, h)"
  shows "takeWhile (\<lambda>c. c \<noteq> NUL) (entry_line u d h) = entry_line u d h"
    "auth_line (entry_line u d h) = Entry u d h" "scan_entry (entry_line u d h) = Some (u, d)"
    "511 < n \<Longrightarrow> fgets n (entry_line u d h @ rest) = Some (entry_line u d h, rest)"
proof -
  define l where "l = u @ CHR '':'' # d @ CHR '':'' # h"
  have u: "u \<noteq> []" "CHR '':'' \<notin> set u" "length u \<le> 255" and d: "d \<noteq> []" "CHR '':'' \<notin> set d" "length d \<le> 255"
    and h: "h \<noteq> []" "\<not> isspace (last h)" and len: "length l + 1 < 512"
    using assms by (auto simp: entry_ok_def plain_name_def l_def)
  have "\<not> iscntrl (CHR '':'')" by code_simp
  then have nc: "\<not> list_ex iscntrl l" using assms by (simp add: entry_ok_def plain_name_def l_def)
  have el: "entry_line u d h = l @ [LF]" by (simp add: entry_line_def l_def)
  have ll: "l \<noteq> []" "last l = last h" using h(1) by (simp_all add: l_def)
  have lf: "iscntrl LF" by code_simp
  show nul: "takeWhile (\<lambda>c. c \<noteq> NUL) (entry_line u d h) = entry_line u d h"
    using no_control [OF nc] by (auto simp: el takeWhile_eq_all_conv)
  have "strip_line (l @ [LF]) = l"
  proof -
    have "\<not> (isspace (last l) \<or> iscntrl (last l))" using h(2) nc ll last_in_set [OF ll(1)] by (auto simp: list_ex_iff)
    then have "dropWhile (\<lambda>c. isspace c \<or> iscntrl c) (rev l) = rev l"
      using ll(1) by (cases l rule: rev_cases) auto
    then show ?thesis using lf by (simp add: strip_line_def)
  qed
  moreover have "hd l \<noteq> CHR '':''" using u(1,2) by (cases u) (auto simp: l_def)
  ultimately show "auth_line (entry_line u d h) = Entry u d h"
    unfolding auth_line_def nul unfolding el using ll(1) u(2) d(2)
    by (simp add: l_def takeWhile_until)
  have "take 255 (takeWhile (\<lambda>c. c \<noteq> CHR '':'') (l @ [LF])) = u" "take 255 (takeWhile (\<lambda>c. c \<noteq> CHR '':'') (d @ CHR '':'' # h @ [LF])) = d"
    using u d by (simp_all add: l_def takeWhile_until)
  then show "scan_entry (entry_line u d h) = Some (u, d)"
    using u(1) d(1) unfolding scan_entry_def el Let_def by (simp add: l_def)
  show "511 < n \<Longrightarrow> fgets n (entry_line u d h @ rest) = Some (entry_line u d h, rest)"
    using fgets_line [of l n rest] no_control [OF nc] len by (simp add: el)
qed

lemma read_file_text:
  "list_all entry_ok es \<Longrightarrow> 0 < depth \<Longrightarrow> read_auth_file files wd depth (file_text es)
     = (case stored es (ra_user wd, ra_domain wd) of None \<Rightarrow> False | Some h \<Rightarrow> check_entry wd h)"
proof (induction es)
  case Nil
  then show ?case by (subst read_auth_file.simps) (simp add: file_text_def stored_def fgets_def)
next
  case (Cons e es)
  obtain u d h where e: "e = (u, d, h)" by (metis prod_cases3)
  then have ok: "entry_ok (u, d, h)" using Cons.prems by simp
  have t: "file_text (e # es) = entry_line u d h @ file_text es" by (simp add: file_text_def entry_text_def e)
  show ?case using Cons entry_line_facts(2) [OF ok] entry_line_facts(4) [OF ok, of 552 "file_text es"]
    unfolding t by (subst read_auth_file.simps) (auto simp: stored_def e)
qed

lemma copy_file_text:
  "list_all entry_ok es \<Longrightarrow> copy_entries new domain user (file_text es) acc n
    = (acc @ concat (map (\<lambda>e. if fst e = user \<and> fst (snd e) = domain then new else entry_text e) es),
       n + length (filter (\<lambda>e. fst e = user \<and> fst (snd e) = domain) es))"
proof (induction es arbitrary: acc n)
  case Nil
  then show ?case by (subst copy_entries.simps) (simp add: file_text_def fgets_def)
next
  case (Cons e es)
  obtain u d h where e: "e = (u, d, h)" by (metis prod_cases3)
  then have ok: "entry_ok (u, d, h)" using Cons.prems by simp
  have t: "file_text (e # es) = entry_line u d h @ file_text es" by (simp add: file_text_def entry_text_def e)
  have fg: "fgets 512 (entry_line u d h @ file_text es) = Some (entry_line u d h, file_text es)"
    using entry_line_facts(4) [OF ok] by simp
  have "copy_entries new domain user (entry_line u d h @ file_text es) acc n
    = (if u = user \<and> d = domain then copy_entries new domain user (file_text es) (acc @ new) (Suc n)
       else copy_entries new domain user (file_text es) (acc @ entry_line u d h) n)"
    by (subst copy_entries.simps) (simp only: fg option.case prod.case Let_def entry_line_facts(1,3) [OF ok])
  then show ?case using Cons unfolding t by (auto simp: e entry_text_def)
qed

text \<open>The entries after a change: every entry of the user is replaced by \<open>new\<close>, which is one entry
  or none, and a new user comes last.\<close>

definition put_entry :: "string \<Rightarrow> string \<Rightarrow> entry list \<Rightarrow> entry list \<Rightarrow> entry list" where
  "put_entry user domain new es =
     (let es' = concat (map (\<lambda>e. if fst e = user \<and> fst (snd e) = domain then new else [e]) es)
      in if filter (\<lambda>e. fst e = user \<and> fst (snd e) = domain) es = [] then es' @ new else es')"

lemma stored_put:
  assumes "new = (case v of None \<Rightarrow> [] | Some h \<Rightarrow> [(user, domain, h)])"
  shows "stored (put_entry user domain new es) = (stored es)((user, domain) := v)"
proof -
  let ?m = "\<lambda>e :: entry. fst e = user \<and> fst (snd e) = domain"
  define rep where "rep = (\<lambda>es. concat (map (\<lambda>e. if ?m e then new else [e]) es))"
  have "stored (rep es @ (if filter ?m es = [] then new else [])) k = ((stored es)((user, domain) := v)) k" for k
  proof (induction es)
    case Nil
    then show ?case by (cases v) (auto simp: rep_def stored_def assms)
  next
    case (Cons e es)
    obtain u d h where e: "e = (u, d, h)" by (metis prod_cases3)
    have rest: "stored (rep es) k = stored es k" if "k \<noteq> (user, domain)" for k es
      using that by (induction es) (auto simp: rep_def stored_def assms map_add_def split: option.split)
    have none: "stored (rep es) (user, domain) = None" if "v = None" for es
      using that by (induction es) (auto simp: rep_def stored_def assms)
    show ?case
    proof (cases "u = user \<and> d = domain")
      case True
      have r: "rep (e # es) @ (if filter ?m (e # es) = [] then new else []) = new @ rep es" using True by (simp add: e rep_def)
      show ?thesis unfolding r using True rest [of k es] none [of es]
        by (cases "k = (user, domain)"; cases v) (auto simp: stored_def assms e)
    next
      case False
      have r: "rep (e # es) @ (if filter ?m (e # es) = [] then new else []) = e # rep es @ (if filter ?m es = [] then new else [])"
        using False by (auto simp: e rep_def)
      show ?thesis unfolding r using Cons False by (auto simp: stored_def e)
    qed
  qed
  then show ?thesis by (auto simp: put_entry_def rep_def Let_def)
qed

text \<open>The hash that a call stores for the user; an empty password removes the user.\<close>

definition stored_hash :: "string \<Rightarrow> string \<Rightarrow> string option \<Rightarrow> string option" where
  "stored_hash user domain pass =
     (case pass of None \<Rightarrow> None | Some p \<Rightarrow> if p = [] then None else Some (md5_hex (user @ '':'' @ domain @ '':'' @ p)))"

lemma modify_passwords_spec:
  assumes "list_all entry_ok es" "files fname = Some (file_text es)" "writable (fname @ ''.tmp'')" "length (mbuf ctx) = 64"
    and "plain_name user" "plain_name domain" "length user + length domain + 35 < 512" "length fname + 4 < UTF8_PATH_MAX"
  shows "\<exists>es' files'. mg_modify_passwords_file ctx writable files (Some fname) (Some domain) (Some user) pass = (1, files')
    \<and> files' fname = Some (file_text es') \<and> list_all entry_ok es'
    \<and> stored es' = (stored es)((user, domain) := stored_hash user domain pass)
    \<and> (\<forall>f. f \<noteq> fname \<and> f \<noteq> fname @ ''.tmp'' \<longrightarrow> files' f = files f)"
proof -
  let ?m = "\<lambda>e :: entry. fst e = user \<and> fst (snd e) = domain"
  define v where "v = stored_hash user domain pass"
  define new where "new = (case v of None \<Rightarrow> [] | Some h \<Rightarrow> [(user, domain, h)])"
  have v: "v = None \<or> (\<exists>p. v = Some (md5_hex p))" by (auto simp: v_def stored_hash_def split: option.split)
  have line: "user_line ctx domain user (if pass = Some [] then None else pass) None = file_text new"
    using mg_md5_spec [OF assms(4), of "[user, '':'', domain, '':'', the pass]" "[]"]
    by (auto simp: user_line_def new_def v_def stored_hash_def file_text_def entry_text_def split: option.split)
  have new_ok: "list_all entry_ok new"
    using v assms(5-7) md5_hex_plain length_md5_hex by (auto simp: new_def entry_ok_def)
  define es' where "es' = put_entry user domain new es"
  have copy: "copy_entries (file_text new) domain user (file_text es) [] 0
      = (file_text (concat (map (\<lambda>e. if ?m e then new else [e]) es)), length (filter ?m es))"
  proof -
    have "concat (map (\<lambda>e. if ?m e then file_text new else entry_text e) es) = file_text (concat (map (\<lambda>e. if ?m e then new else [e]) es))"
      by (induction es) (auto simp: file_text_def)
    then show ?thesis using copy_file_text [OF assms(1)] by simp
  qed
  have "file_text (a @ b) = file_text a @ file_text b" for a b by (simp add: file_text_def)
  then have out: "(if length (filter ?m es) = 0 then file_text (concat (map (\<lambda>e. if ?m e then new else [e]) es)) @ file_text new
      else file_text (concat (map (\<lambda>e. if ?m e then new else [e]) es))) = file_text es'"
    by (simp add: es'_def put_entry_def Let_def)
  have names: "CHR '':'' \<notin> set user" "CHR '':'' \<notin> set domain" "valid_name user" "valid_name domain"
    using assms(5,6) by (simp_all add: plain_name_def valid_name_def)
  have "mg_modify_passwords_file ctx writable files (Some fname) (Some domain) (Some user) pass
      = (1, (files(fname @ ''.tmp'' := None))(fname \<mapsto> file_text es'))"
    unfolding mg_modify_passwords_file_def modify_passwords_file_def Let_def option.case prod.case line
    using names assms(2,3,8) copy out by simp
  moreover have "list_all entry_ok es'" using assms(1) new_ok by (auto simp: es'_def put_entry_def Let_def list_all_iff)
  moreover have "stored es' = (stored es)((user, domain) := v)"
    unfolding es'_def by (rule stored_put) (rule new_def)
  ultimately show ?thesis
    by (intro exI [of _ es'] exI [of _ "(files(fname @ ''.tmp'' := None))(fname \<mapsto> file_text es')"] conjI) (simp_all add: v_def)
qed

text \<open>C20: a password file is a map from users and domains to hashes. On a file of well-formed
  entries \<open>mg_modify_passwords_file\<close> succeeds and leaves a file of well-formed entries whose map
  is the old one updated at the user and domain: with the hash of \<open>user:domain:password\<close>, or
  without the user when the password is empty. Every other entry and every other file stays,
  except the temporary one, and \<open>read_auth_file\<close> searches exactly this map.\<close>

theorem passwords_file_is_map:
  assumes "list_all entry_ok es" "files fname = Some (file_text es)" "writable (fname @ ''.tmp'')" "length (mbuf ctx) = 64"
    and "plain_name user" "plain_name domain" "length user + length domain + 35 < 512" "length fname + 4 < UTF8_PATH_MAX"
  shows "\<exists>es' files'. mg_modify_passwords_file ctx writable files (Some fname) (Some domain) (Some user) pass = (1, files')
    \<and> files' fname = Some (file_text es') \<and> list_all entry_ok es'
    \<and> stored es' = (stored es)((user, domain) := stored_hash user domain pass)
    \<and> (\<forall>f. f \<noteq> fname \<and> f \<noteq> fname @ ''.tmp'' \<longrightarrow> files' f = files f)
    \<and> (\<forall>wd depth. 0 < depth \<longrightarrow> read_auth_file files' wd depth (file_text es')
        = (case stored es' (ra_user wd, ra_domain wd) of None \<Rightarrow> False | Some h \<Rightarrow> check_entry wd h))"
proof -
  obtain es' files' where "mg_modify_passwords_file ctx writable files (Some fname) (Some domain) (Some user) pass = (1, files')"
    "files' fname = Some (file_text es')" "list_all entry_ok es'"
    "stored es' = (stored es)((user, domain) := stored_hash user domain pass)"
    "\<forall>f. f \<noteq> fname \<and> f \<noteq> fname @ ''.tmp'' \<longrightarrow> files' f = files f"
    using modify_passwords_spec [of es files fname writable ctx user domain pass, OF assms] by blast
  then show ?thesis using read_file_text [of es'] by (intro exI [of _ es'] exI [of _ files']) simp
qed

theorem passwords_file_is_map_witness:
  "\<exists>es' files'. mg_modify_passwords_file \<lparr>mcount0 = 7, mcount1 = 0, abcd = [], mbuf = replicate 64 0\<rparr> (\<lambda>f. True)
      [''.htpasswd'' \<mapsto> file_text [(''bob'', ''d'', ''42''), (''eve'', ''d'', ''43'')]] (Some ''.htpasswd'') (Some ''d'') (Some ''bob'') (Some ''secret'')
        = (1, files')
    \<and> files' ''.htpasswd'' = Some (file_text es') \<and> stored es' (''eve'', ''d'') = Some ''43''
    \<and> stored es' (''bob'', ''d'') = Some (md5_hex ''bob:d:secret'')"
proof -
  have "list_all entry_ok [(''bob'', ''d'', ''42''), (''eve'', ''d'', ''43'')]" "plain_name ''bob''" "plain_name ''d''" by code_simp+
  then show ?thesis
    using passwords_file_is_map [of "[(''bob'', ''d'', ''42''), (''eve'', ''d'', ''43'')]"
        "[''.htpasswd'' \<mapsto> file_text [(''bob'', ''d'', ''42''), (''eve'', ''d'', ''43'')]]" "''.htpasswd''" "\<lambda>f. True"
        "\<lparr>mcount0 = 7, mcount1 = 0, abcd = [], mbuf = replicate 64 0\<rparr>" "''bob''" "''d''" "Some ''secret''"]
    by (force simp: UTF8_PATH_MAX_def stored_hash_def stored_def)
qed

section \<open>Only listed users\<close>

text \<open>The entries that can be found from a file, through files it includes.\<close>

inductive listed :: "files \<Rightarrow> nat \<Rightarrow> char list \<Rightarrow> string \<Rightarrow> string \<Rightarrow> string \<Rightarrow> bool" for files where
  direct: "buf \<in> set (pieces 552 filep) \<Longrightarrow> auth_line buf = Entry u d h \<Longrightarrow> 0 < depth \<Longrightarrow> listed files depth filep u d h"
| nested: "buf \<in> set (pieces 552 filep) \<Longrightarrow> auth_line buf = Include f \<Longrightarrow> files f = Some fp \<Longrightarrow>
    listed files depth fp u d h \<Longrightarrow> listed files (Suc depth) filep u d h"

lemma listed_later:
  assumes "fgets 552 filep = Some (buf, rest)" "listed files depth rest u d h"
  shows "listed files depth filep u d h"
proof -
  have "pieces 552 filep = buf # pieces 552 rest" using assms(1) by (subst pieces.simps) simp
  with assms(2) show ?thesis by (cases rule: listed.cases) (auto intro: listed.intros)
qed

lemma read_auth_file_listed:
  "read_auth_file files wd depth filep \<Longrightarrow> \<exists>h. listed files depth filep (ra_user wd) (ra_domain wd) h \<and> check_entry wd h"
proof (induction files wd depth filep rule: read_auth_file.induct)
  case (1 files wd depth filep)
  from "1.prems" have d: "depth \<noteq> 0" by (subst (asm) read_auth_file.simps) (auto split: if_splits)
  with "1.prems" obtain buf rest where fg: "fgets 552 filep = Some (buf, rest)"
    by (subst (asm) read_auth_file.simps) (auto split: option.splits)
  then have fg': "fgets (256 + 256 + 40) filep = Some (buf, rest)" by simp
  have mem: "buf \<in> set (pieces 552 filep)" using fg by (subst pieces.simps) simp
  note step = "1.prems" [unfolded read_auth_file.simps [of files wd depth filep] fg' option.case prod.case if_not_P [OF d]]
  note IH = "1.IH" [OF d fg' refl]
  have later: ?case if "\<exists>h. listed files depth rest (ra_user wd) (ra_domain wd) h \<and> check_entry wd h"
    using that listed_later [OF fg] by blast
  show ?case
  proof (cases "auth_line buf")
    case Ignored
    with step have "read_auth_file files wd depth rest" by simp
    then show ?thesis using IH(1) [OF Ignored] later by blast
  next
    case (Include f)
    show ?thesis
    proof (cases "files f")
      case None
      with Include step have "read_auth_file files wd depth rest" by simp
      then show ?thesis using IH(2) [OF Include None] later by blast
    next
      case (Some fp)
      show ?thesis
      proof (cases "read_auth_file files wd (depth - 1) fp")
        case True
        with IH(3) Include Some obtain h where "listed files (depth - 1) fp (ra_user wd) (ra_domain wd) h" "check_entry wd h" by blast
        with listed.nested [of buf filep f files fp "depth - 1", OF mem Include Some] d show ?thesis by auto
      next
        case False
        with Include Some step have "read_auth_file files wd depth rest" by simp
        then show ?thesis using IH(4) [OF Include Some False] later by blast
      qed
    qed
  next
    case (Entry u dom h)
    show ?thesis
    proof (cases "ra_user wd = u \<and> ra_domain wd = dom")
      case True
      with step Entry have "check_entry wd h" by simp
      with True listed.direct [OF mem Entry] d show ?thesis by auto
    next
      case False
      with Entry step have "read_auth_file files wd depth rest" by (auto split: if_splits)
      then show ?thesis using IH(5) [OF Entry False] later by blast
    qed
  qed
qed

end
