(* ===== verification/Auth.thy ===== *)
theory Auth
  imports AuthHeader Passwords Replies
begin

text \<open>
  Digest authentication as a whole: a request's header against the password files
  (\<open>authorize\<close>), the file that protects a path (\<open>open_auth_file\<close>, \<open>check_authorization\<close>), and the
  401 answer that issues a nonce (\<open>send_authorization_request\<close>).
\<close>

section \<open>The code\<close>

text \<open>\<open>buf\<close> and \<open>md5_ctx\<close> are the uninitialised buffers on the stack. The result and the new
  \<open>remote_user\<close>; \<open>None\<close> is an access outside a buffer.\<close>

definition authorize ::
    "auth_context \<Rightarrow> md5_state \<Rightarrow> files \<Rightarrow> char list \<Rightarrow> mg_connection option \<Rightarrow> char list \<Rightarrow> string option
     \<Rightarrow> (bool \<times> string option) option" where
  "authorize ctx md5_ctx files buf conn filep realm =
     (case conn of
        None \<Rightarrow> Some (False, None)
      | Some _ \<Rightarrow> do {
          (parsed, buf, ah, remote_user) \<leftarrow> parse_auth_header ctx conn buf MG_BUF_LEN;
          if \<not> parsed then Some (False, remote_user)
          else let arg = map_option (str_at buf);
                   workdata = \<lparr>ra_ctx = md5_ctx, ra_method = request_method ctx, ra_user = the (arg (ah_user ah)),
                     ra_domain = (case realm of Some r \<Rightarrow> r | None \<Rightarrow> AUTHENTICATION_DOMAIN ctx),
                     ra_uri = arg (ah_uri ah), ra_nonce = arg (ah_nonce ah), ra_nc = arg (ah_nc ah),
                     ra_cnonce = arg (ah_cnonce ah), ra_qop = arg (ah_qop ah), ra_response = arg (ah_response ah)\<rparr>
               in Some (read_auth_file files workdata INITIAL_DEPTH filep, remote_user)
        })"

definition mg_check_digest_access_authentication ::
    "auth_context \<Rightarrow> md5_state \<Rightarrow> files \<Rightarrow> char list \<Rightarrow> mg_connection option \<Rightarrow> string option \<Rightarrow> string option
     \<Rightarrow> (int \<times> string option) option" where
  "mg_check_digest_access_authentication ctx md5_ctx files buf conn realm filename =
     (if conn = None \<or> filename = None then Some (-1, None)
      else case files (the filename) of
             None \<Rightarrow> Some (-2, None)
           | Some fp \<Rightarrow> map_option (\<lambda>(auth, user). (if auth then 1 else 0, user)) (authorize ctx md5_ctx files buf conn fp realm))"

subsection \<open>The file that protects a path\<close>

record auth_config =
  GLOBAL_PASSWORDS_FILE :: "string option"
  PROTECT_URI :: "string option"
  PUT_DELETE_PASSWORDS_FILE :: "string option"
  is_directory :: "string \<Rightarrow> bool"
  local_uri :: string

definition PASSWORDS_FILE_NAME :: string where
  "PASSWORDS_FILE_NAME = ''.htpasswd''"

text \<open>The loop that goes back from the end of \<open>path\<close> to a slash, but not to its first character.\<close>

definition path_dir :: "string \<Rightarrow> string" where
  "path_dir path =
     (let e = (case dropWhile (\<lambda>c. c \<noteq> CHR ''/'') (rev path) of [] \<Rightarrow> 0 | s # ss \<Rightarrow> length ss) in take e path)"

definition open_auth_file :: "auth_config \<Rightarrow> files \<Rightarrow> string \<Rightarrow> char list option" where
  "open_auth_file cfg files path =
     (case GLOBAL_PASSWORDS_FILE cfg of
        Some gpass \<Rightarrow> files gpass
      | None \<Rightarrow>
          let dir = (if is_directory cfg path then path else path_dir path);
              file_name = dir @ ''/'' @ PASSWORDS_FILE_NAME
          in if UTF8_PATH_MAX \<le> length file_name then None else files file_name)"

text \<open>The loop over \<open>PROTECT_URI\<close>: the file of the first pair whose URI is a prefix.\<close>

function protecting_file :: "string \<Rightarrow> string \<Rightarrow> string option" where
  "protecting_file uri list =
     (case next_option True list of
        None \<Rightarrow> None
      | Some (uri_vec, filename_vec, list') \<Rightarrow>
          if take (length uri_vec) uri = uri_vec
          then Some (case filename_vec of None \<Rightarrow> [] | Some f \<Rightarrow> f)
          else protecting_file uri list')"
  by pat_completeness auto
termination
  by (relation "measure (\<lambda>(uri, list). length list)") (auto dest: next_option_shorter)

declare protecting_file.simps [simp del]

definition auth_file :: "auth_config \<Rightarrow> files \<Rightarrow> string \<Rightarrow> char list option" where
  "auth_file cfg files path =
     (let file = (case protecting_file (local_uri cfg) (case PROTECT_URI cfg of None \<Rightarrow> [] | Some l \<Rightarrow> l) of
                    None \<Rightarrow> None
                  | Some fname \<Rightarrow> if UTF8_PATH_MAX \<le> length fname then None else files fname)
      in if file = None then open_auth_file cfg files path else file)"

definition check_authorization ::
    "auth_context \<Rightarrow> auth_config \<Rightarrow> md5_state \<Rightarrow> files \<Rightarrow> char list \<Rightarrow> mg_connection option \<Rightarrow> string
     \<Rightarrow> (bool \<times> string option) option" where
  "check_authorization ctx cfg md5_ctx files buf conn path =
     (if conn = None then Some (False, None)
      else case auth_file cfg files path of
             None \<Rightarrow> Some (True, None)
           | Some file \<Rightarrow> authorize ctx md5_ctx files buf conn file None)"

definition is_authorized_for_put ::
    "auth_context \<Rightarrow> auth_config \<Rightarrow> md5_state \<Rightarrow> files \<Rightarrow> char list \<Rightarrow> mg_connection option \<Rightarrow> (bool \<times> string option) option" where
  "is_authorized_for_put ctx cfg md5_ctx files buf conn =
     (if conn = None then Some (False, None)
      else case PUT_DELETE_PASSWORDS_FILE cfg of
             None \<Rightarrow> Some (False, None)
           | Some passfile \<Rightarrow> (case files passfile of
                 None \<Rightarrow> Some (False, None)
               | Some file \<Rightarrow> authorize ctx md5_ctx files buf conn file None))"

subsection \<open>The challenge\<close>

definition challenge_text :: "string \<Rightarrow> u64 \<Rightarrow> string" where
  "challenge_text realm nonce =
     ''Digest qop='' @ [DQUOTE] @ ''auth'' @ [DQUOTE] @ '', realm='' @ [DQUOTE] @ realm @ [DQUOTE]
     @ '', nonce='' @ [DQUOTE] @ decimal (unat nonce) @ [DQUOTE]"

definition send_authorization_request ::
    "(nat \<Rightarrow> bool) \<Rightarrow> reply_config \<Rightarrow> string \<Rightarrow> auth_context \<Rightarrow> mg_connection \<Rightarrow> string option
     \<Rightarrow> (auth_context \<times> mg_connection) option" where
  "send_authorization_request malloc cfg date ctx conn realm =
     (let realm = (case realm of None \<Rightarrow> AUTHENTICATION_DOMAIN ctx | Some r \<Rightarrow> r);
          nonce = start_time ctx + nonce_count ctx;
          ctx = ctx\<lparr>nonce_count := nonce_count ctx + 1\<rparr>;
          nonce = nonce XOR auth_nonce_mask ctx;
          conn = conn\<lparr>must_close := True\<rparr>;
          conn = the (snd (mg_response_header_start (Some conn) 401));
          conn = send_no_cache_header malloc conn
      in do {
        conn \<leftarrow> send_additional_header malloc cfg conn;
        let conn = add_header malloc ''Content-Length'' ''0'' conn;
        let buf = challenge_text realm nonce;
        let conn = (if length buf < 128 then add_header malloc ''WWW-Authenticate'' buf conn else conn);
        Some (ctx, the (snd (mg_response_header_send malloc (Some conn) date)))
      })"

definition mg_send_digest_access_authentication_request ::
    "(nat \<Rightarrow> bool) \<Rightarrow> reply_config \<Rightarrow> string \<Rightarrow> auth_context \<Rightarrow> mg_connection option \<Rightarrow> string option
     \<Rightarrow> (int \<times> auth_context \<times> mg_connection option) option" where
  "mg_send_digest_access_authentication_request malloc cfg date ctx conn realm =
     (case conn of
        None \<Rightarrow> Some (-1, ctx, None)
      | Some c \<Rightarrow> map_option (\<lambda>(ctx, c). (0, ctx, Some c)) (send_authorization_request malloc cfg date ctx c realm))"

section \<open>What the decision rests on\<close>

text \<open>The fields of the request, as far as the copy of the header reaches.\<close>

definition request_fields :: "mg_connection \<Rightarrow> (string \<times> string) list" where
  "request_fields c =
     (case mg_get_header (Some c) ''Authorization'' of
        None \<Rightarrow> []
      | Some h \<Rightarrow> if mg_strncasecmp h ''Digest '' 7 = 0 then fields_text (take (MG_BUF_LEN - 1) (drop 7 h)) else [])"

definition claimed :: "mg_connection \<Rightarrow> string \<Rightarrow> string option" where
  "claimed c k = map_of (rev (request_fields c)) k"

definition work :: "auth_context \<Rightarrow> md5_state \<Rightarrow> string option \<Rightarrow> mg_connection \<Rightarrow> read_auth" where
  "work ctx m realm c =
     \<lparr>ra_ctx = m, ra_method = request_method ctx, ra_user = the (claimed c ''username''),
      ra_domain = (case realm of Some r \<Rightarrow> r | None \<Rightarrow> AUTHENTICATION_DOMAIN ctx),
      ra_uri = claimed c ''uri'', ra_nonce = claimed c ''nonce'', ra_nc = claimed c ''nc'',
      ra_cnonce = claimed c ''cnonce'', ra_qop = claimed c ''qop'', ra_response = claimed c ''response''\<rparr>"

lemma authorize_spec:
  assumes "\<And>h. mg_get_header (Some c) ''Authorization'' = Some h \<Longrightarrow> cstring h" "MG_BUF_LEN \<le> length buf"
  shows "authorize ctx m files buf (Some c) fp realm
    = Some (auth_accepts ctx (request_fields c) \<and> read_auth_file files (work ctx m realm c) INITIAL_DEPTH fp,
        if auth_accepts ctx (request_fields c) then claimed c ''username'' else None)"
proof -
  have none: "\<not> auth_accepts ctx []" by (simp add: auth_accepts_def)
  show ?thesis
  proof (cases "mg_get_header (Some c) ''Authorization''")
    case None
    then show ?thesis using none by (simp add: authorize_def parse_auth_header_def request_fields_def)
  next
    case (Some h)
    show ?thesis
    proof (cases "mg_strncasecmp h ''Digest '' 7 = 0")
      case False
      then show ?thesis using none Some by (simp add: authorize_def parse_auth_header_def request_fields_def)
    next
      case True
      then have fs: "request_fields c = fields_text (take (MG_BUF_LEN - 1) (drop 7 h))" using Some by (simp add: request_fields_def)
      from parse_auth_header_spec [OF Some True assms(1) [OF Some] _ assms(2) fs, of ctx] obtain buf' ah where
        p: "parse_auth_header ctx (Some c) buf MG_BUF_LEN = Some (auth_accepts ctx (request_fields c), buf', ah,
          if auth_accepts ctx (request_fields c) then claimed c ''username'' else None)"
        and k: "\<forall>k \<in> set auth_names. map_option (str_at buf') (ah_get ah k) = claimed c k"
        by (auto simp: MG_BUF_LEN_def claimed_def)
      then show ?thesis
        unfolding authorize_def option.case p Option.bind_lunit prod.case
        by (simp add: work_def auth_names_def ah_get_simps Let_def del: map_option_eq_Some)
    qed
  qed
qed

lemma claimed_cstring: "claimed c k = Some v \<Longrightarrow> mg_get_header (Some c) ''Authorization'' = Some h \<Longrightarrow> cstring h \<Longrightarrow> cstring v"
proof -
  have fields: "cstring t \<Longrightarrow> (n, v) \<in> set (fields_text t) \<Longrightarrow> cstring v" for t n v
  proof (induction t rule: fields_text.induct)
    case (1 t)
    obtain m w rest where f: "field_text t = (m, w, rest)" by (metis prod_cases3)
    from parse_field_text [OF "1.prems"(1) f, of "[]" "[]"] have "cstring w" "cstring rest" by (auto simp: word_at_def)
    with 1 f show ?case by (subst (asm) (2) fields_text.simps) (auto split: if_splits)
  qed
  assume a: "claimed c k = Some v" "mg_get_header (Some c) ''Authorization'' = Some h" "cstring h"
  then have "mg_strncasecmp h ''Digest '' 7 = 0" by (auto simp: claimed_def request_fields_def split: if_splits)
  with a have "(k, v) \<in> set (fields_text (take (MG_BUF_LEN - 1) (drop 7 h)))"
    by (auto simp: claimed_def request_fields_def dest: map_of_SomeD)
  moreover have "cstring (take (MG_BUF_LEN - 1) (drop 7 h))" using a(3) by (simp add: cstring_take cstring_drop)
  ultimately show ?thesis using fields by blast
qed

lemma check_entry_answer:
  assumes "check_entry (work ctx m realm c) h" "length (mbuf m) = 64"
    and "\<And>x. mg_get_header (Some c) ''Authorization'' = Some x \<Longrightarrow> cstring x"
  shows "\<exists>meth nonce nc cnonce qop response. request_method ctx = Some meth
    \<and> claimed c ''nonce'' = Some nonce \<and> claimed c ''nc'' = Some nc \<and> claimed c ''cnonce'' = Some cnonce
    \<and> claimed c ''qop'' = Some qop \<and> claimed c ''response'' = Some response
    \<and> fold_case response = digest_answer meth h (case claimed c ''uri'' of None \<Rightarrow> [] | Some u \<Rightarrow> u) nonce nc cnonce qop"
proof -
  from assms(1) obtain meth nonce nc cnonce qop response where
    s: "request_method ctx = Some meth" "claimed c ''nonce'' = Some nonce" "claimed c ''nc'' = Some nc"
      "claimed c ''cnonce'' = Some cnonce" "claimed c ''qop'' = Some qop" "claimed c ''response'' = Some response"
    by (auto simp: check_entry_def work_def check_password_def split: if_splits)
  have "mg_get_header (Some c) ''Authorization'' \<noteq> None" using s(6) by (auto simp: claimed_def request_fields_def split: option.splits)
  then have "cstring response" using claimed_cstring [OF s(6)] assms(3) by blast
  then show ?thesis
    using assms(1) check_password_spec [OF assms(2) _ refl] by (auto simp: s check_entry_def work_def)
qed

text \<open>C13: nobody gets in without a listed password. Whatever the header holds and whatever the
  password files hold, if \<open>mg_check_digest_access_authentication\<close> returns 1, then the header names a
  user and a nonce of the current window, that user is listed for the realm in the file or in a
  file it includes, and the response in the header is the RFC 2617 answer to the nonce computed
  from that entry's hash, the request's method, and the header's own URI and counters. The user
  becomes the remote user. (The URI is the header's, which the code does not compare with
  the request's.)\<close>

theorem authorized_only_listed:
  assumes "\<And>h. mg_get_header (Some c) ''Authorization'' = Some h \<Longrightarrow> cstring h" "MG_BUF_LEN \<le> length buf" "length (mbuf m) = 64"
    and "mg_check_digest_access_authentication ctx m files buf (Some c) realm (Some fname) = Some (1, ruser)"
  shows "\<exists>fp user h meth nonce nc cnonce qop response.
    files fname = Some fp \<and> claimed c ''username'' = Some user \<and> ruser = Some user
    \<and> listed files INITIAL_DEPTH fp user (case realm of Some r \<Rightarrow> r | None \<Rightarrow> AUTHENTICATION_DOMAIN ctx) h
    \<and> request_method ctx = Some meth \<and> claimed c ''nonce'' = Some nonce \<and> nonce_ok ctx nonce
    \<and> claimed c ''nc'' = Some nc \<and> claimed c ''cnonce'' = Some cnonce
    \<and> claimed c ''qop'' = Some qop \<and> claimed c ''response'' = Some response
    \<and> fold_case response = digest_answer meth h (case claimed c ''uri'' of None \<Rightarrow> [] | Some u \<Rightarrow> u) nonce nc cnonce qop"
proof -
  from assms(4) obtain fp where fp: "files fname = Some fp" by (auto simp: mg_check_digest_access_authentication_def split: option.splits)
  with assms(4) have acc: "auth_accepts ctx (request_fields c)" "read_auth_file files (work ctx m realm c) INITIAL_DEPTH fp"
    "ruser = claimed c ''username''"
    unfolding mg_check_digest_access_authentication_def by (auto simp: authorize_spec [OF assms(1,2)] split: if_splits)
  from acc(1) obtain user nonce where u: "claimed c ''username'' = Some user" "claimed c ''nonce'' = Some nonce" "nonce_ok ctx nonce"
    by (auto simp: auth_accepts_def claimed_def split: option.splits)
  from read_auth_file_listed [OF acc(2)] obtain h where
    h: "listed files INITIAL_DEPTH fp user (case realm of Some r \<Rightarrow> r | None \<Rightarrow> AUTHENTICATION_DOMAIN ctx) h"
      "check_entry (work ctx m realm c) h" by (auto simp: work_def u)
  from check_entry_answer [OF h(2) assms(3,1)] u h(1) fp acc(3) show ?thesis by auto
qed

section \<open>A login\<close>

text \<open>The fields of the 401 answer, and what a client sends that knows the password.\<close>

definition challenge_fields :: "string \<Rightarrow> string \<Rightarrow> u64 \<Rightarrow> mg_header list" where
  "challenge_fields date realm nonce = no_cache @ [(''Content-Length'', ''0''), (''WWW-Authenticate'', challenge_text realm nonce),
     (''Date'', date), (''Connection'', ''close'')]"

definition login_fields :: "string \<Rightarrow> string \<Rightarrow> string \<Rightarrow> string \<Rightarrow> string \<Rightarrow> string \<Rightarrow> string \<Rightarrow> string \<Rightarrow> (string \<times> bool \<times> string) list" where
  "login_fields user realm password meth uri nonce nc cnonce =
     [(''username'', True, user), (''realm'', True, realm), (''nonce'', True, nonce), (''uri'', True, uri),
      (''qop'', False, ''auth''), (''nc'', False, nc), (''cnonce'', True, cnonce),
      (''response'', True, digest_answer meth (md5_hex (user @ '':'' @ realm @ '':'' @ password)) uri nonce nc cnonce ''auth'')]"

lemma send_authorization_request_ok:
  assumes "conn_type c = CONNECTION_TYPE_REQUEST" "proto_type c = PROTOCOL_TYPE_HTTP1" "request_state c = 0"
    and "ADDITIONAL_HEADER cfg = None" "STRICT_HTTPS_MAX_AGE cfg = None"
    and "version = (case info_version (request_info c) of None \<Rightarrow> ''1.0'' | Some v \<Rightarrow> v)"
    and "nonce = (start_time ctx + nonce_count ctx) XOR auth_nonce_mask ctx" "length (challenge_text realm nonce) < 128"
    and "\<forall>h \<in> set (challenge_fields date realm nonce). header_ok h"
    and "reply = render_response version 401 (mg_get_response_code_text 401) (challenge_fields date realm nonce)"
    and "writer_ok (length reply) c" "int (length reply) \<le> INT_MAX"
  shows "\<exists>c'. send_authorization_request (\<lambda>n. True) cfg date ctx c (Some realm) = Some (ctx\<lparr>nonce_count := nonce_count ctx + 1\<rparr>, c')
    \<and> net_out c' = net_out c @ reply \<and> must_close c'"
proof -
  define fs where "fs = no_cache @ [(''Content-Length'', ''0''), (''WWW-Authenticate'', challenge_text realm nonce)]"
  define c1 where "c1 = c\<lparr>must_close := True, conn_status_code := 401, request_state := 1,
    response_info := (response_info c)\<lparr>info_headers := []\<rparr>\<rparr>"
  define c2 where "c2 = c\<lparr>must_close := True, conn_status_code := 401, request_state := 1,
    response_info := (response_info c)\<lparr>info_headers := fs\<rparr>\<rparr>"
  have start: "the (snd (mg_response_header_start (Some (c\<lparr>must_close := True\<rparr>)) 401)) = c1"
    using assms(1-3) by (simp add: mg_response_header_start_def free_buffered_response_header_list_def c1_def)
  have adds: "add_header (\<lambda>n. True) ''WWW-Authenticate'' (challenge_text realm nonce)
      (add_header (\<lambda>n. True) ''Content-Length'' ''0'' (send_no_cache_header (\<lambda>n. True) c1)) = c2"
    using assms(1,2) by (simp add: send_no_cache_header_ok add_header_ok c1_def c2_def fs_def no_cache_def MG_MAX_HEADERS_def)
  have sg: "suggest_connection_header (Some c2) = ''close''"
    by (simp add: suggest_connection_header_def should_keep_alive_def c2_def)
  have names: "fold_case ''Cache-Control'' = ''cache-control''" "fold_case ''Expires'' = ''expires''" "fold_case ''Pragma'' = ''pragma''"
    "fold_case ''Content-Length'' = ''content-length''" "fold_case ''WWW-Authenticate'' = ''www-authenticate''" by code_simp+
  have lower: "list_ex (\<lambda>h. fold_case (fst h) = ''date'') fs = False" "list_ex (\<lambda>h. fold_case (fst h) = ''connection'') fs = False"
    unfolding fs_def no_cache_def by (simp_all add: names del: list.map)
  have comp: "completed c2 date fs = challenge_fields date realm nonce"
    unfolding completed_def lower sg by (simp add: challenge_fields_def fs_def)
  have hok: "\<forall>h \<in> set (info_headers (response_info c2)). header_ok h"
    using assms(9) by (simp add: c2_def fs_def challenge_fields_def)
  have w: "writer_ok (length reply + 0) c2" using assms(11) by (simp add: c2_def writer_ok_def)
  obtain c3 where c3: "mg_response_header_send (\<lambda>n. True) (Some c2) date = (0, Some c3)" "net_out c3 = net_out c @ reply" "frame c3 = frame c2"
    using send_spec [of c2 version reply date, OF _ _ _ _ _ _ hok _ w assms(12)] assms(1,2,6,10)
    by (auto simp: c2_def comp [unfolded c2_def])
  have "must_close c3" using frame_fields(5) [OF c3(3)] by (simp add: c2_def)
  moreover have "send_authorization_request (\<lambda>n. True) cfg date ctx c (Some realm) = Some (ctx\<lparr>nonce_count := nonce_count ctx + 1\<rparr>, c3)"
    unfolding send_authorization_request_def Let_def start plain_reply [OF assms(4,5)] Option.bind_lunit
    using assms(8) by (simp add: assms(7) [symmetric] adds c3(1))
  ultimately show ?thesis using c3(2) by blast
qed

lemma login_claims:
  assumes "list_all auth_field_ok fs" "fold_case scheme = ''digest ''" "mg_get_header (Some c) ''Authorization'' = Some (scheme @ auth_text fs)"
    and "cstring (scheme @ auth_text fs)" "length (auth_text fs) < MG_BUF_LEN"
  shows "request_fields c = map (\<lambda>(n, q, v). (n, v)) fs"
proof -
  have l: "length scheme = 7" using arg_cong [OF assms(2), of length] by simp
  have "fold_case ''Digest '' = ''digest ''" by code_simp
  then have d: "mg_strncasecmp (scheme @ auth_text fs) ''Digest '' 7 = 0"
    using mg_strncasecmp_eq [OF assms(4), of "''Digest ''" 7] assms(2) l by simp
  show ?thesis
    using fields_text_auth_text [OF assms(1), of "[]"] l assms(5) d by (simp add: request_fields_def assms(3))
qed

lemma issued_nonce_ok:
  assumes "unat (start_time ctx) + unat (nonce_count ctx) + 1 < 2 ^ 64"
    and "nonce = (start_time ctx + nonce_count ctx) XOR auth_nonce_mask ctx"
  shows "nonce_ok (ctx\<lparr>nonce_count := nonce_count ctx + 1\<rparr>) (decimal (unat nonce))"
proof -
  have "unat nonce < 18446744073709551616" using unsigned_less [of nonce] by simp
  then have r: "strtoul10 (decimal (unat nonce)) = (unat nonce, [])" by (rule strtoul10_decimal)
  have u: "unat (start_time ctx + nonce_count ctx) = unat (start_time ctx) + unat (nonce_count ctx)"
    "unat (start_time ctx + (nonce_count ctx + 1)) = unat (start_time ctx) + unat (nonce_count ctx) + 1"
    using assms(1) by (simp_all add: unat_word_ariths unsigned_less)
  have x: "nonce XOR auth_nonce_mask ctx = start_time ctx + nonce_count ctx" by (simp add: assms(2) xor.assoc)
  show ?thesis using u by (simp add: nonce_ok_def r x word_le_nat_alt word_less_nat_alt)
qed

lemma login_accepted:
  assumes "list_all entry_ok es" "files fname = Some (file_text es)"
    and "stored es (user, realm) = Some (md5_hex (user @ '':'' @ realm @ '':'' @ password))"
    and "nonce_ok ctx nonce" "request_method ctx = Some meth" "length (mbuf m) = 64" "MG_BUF_LEN \<le> length buf"
    and "login = login_fields user realm password meth uri nonce nc cnonce" "list_all auth_field_ok login"
    and "mg_get_header (Some c) ''Authorization'' = Some (''Digest '' @ auth_text login)"
    and "cstring (auth_text login)" "length (auth_text login) < MG_BUF_LEN"
  shows "mg_check_digest_access_authentication ctx m files buf (Some c) (Some realm) (Some fname) = Some (1, Some user)"
proof -
  have "fold_case ''Digest '' = ''digest ''" "cstring ''Digest ''" by code_simp+
  then have f: "request_fields c = map (\<lambda>(n, q, v). (n, v)) login"
    using login_claims [OF assms(9) _ assms(10)] assms(11,12) by simp
  define answer where "answer = digest_answer meth (md5_hex (user @ '':'' @ realm @ '':'' @ password)) uri nonce nc cnonce ''auth''"
  have k: "claimed c ''username'' = Some user" "claimed c ''uri'' = Some uri" "claimed c ''nonce'' = Some nonce"
    "claimed c ''nc'' = Some nc" "claimed c ''cnonce'' = Some cnonce" "claimed c ''qop'' = Some ''auth''" "claimed c ''response'' = Some answer"
    by (simp_all add: claimed_def f assms(8) login_fields_def answer_def)
  have "auth_accepts ctx (request_fields c)" using k(1,3) assms(4) by (simp add: auth_accepts_def claimed_def [symmetric])
  moreover have "check_entry (work ctx m (Some realm) c) (md5_hex (user @ '':'' @ realm @ '':'' @ password))"
    using check_password_spec [OF assms(6), of answer uri "Some uri" meth] md5_hex_plain(1,2)
    by (simp add: check_entry_def work_def k assms(5) answer_def digest_answer_def)
  then have "read_auth_file files (work ctx m (Some realm) c) INITIAL_DEPTH (file_text es)"
    using read_file_text [OF assms(1), of INITIAL_DEPTH files] assms(3) by (simp add: INITIAL_DEPTH_def work_def k)
  moreover have "cstring h" if "mg_get_header (Some c) ''Authorization'' = Some h" for h
  proof -
    have "h = ''Digest '' @ auth_text login" using that assms(10) by simp
    then show ?thesis using assms(11) by simp
  qed
  ultimately show ?thesis
    using authorize_spec [of c buf, OF _ assms(7)] assms(2) by (simp add: mg_check_digest_access_authentication_def k)
qed

text \<open>C8: a login, end to end. A password is set with \<open>mg_modify_passwords_file\<close>; a request without
  credentials is answered by \<open>send_authorization_request\<close>; the client finds in the answer the status 401
  and a challenge with the realm and a fresh nonce; it computes the RFC 2617 response from
  its password and sends it in an \<open>Authorization\<close> header; and the server then lets the user in
  and records the user's name.\<close>

theorem digest_login:
  assumes "list_all entry_ok es" "files fname = Some (file_text es)" "writable (fname @ ''.tmp'')" "length (mbuf m) = 64"
    and "plain_name user" "plain_name realm" "length user + length realm + 35 < 512" "length fname + 4 < UTF8_PATH_MAX" "password \<noteq> []"
    and "conn_type c = CONNECTION_TYPE_REQUEST" "proto_type c = PROTOCOL_TYPE_HTTP1" "request_state c = 0"
    and "ADDITIONAL_HEADER cfg = None" "STRICT_HTTPS_MAX_AGE cfg = None" "info_version (request_info c) = Some version"
    and "nonce = (start_time ctx + nonce_count ctx) XOR auth_nonce_mask ctx" "unat (start_time ctx) + unat (nonce_count ctx) + 1 < 2 ^ 64"
    and "length (challenge_text realm nonce) < 128" "\<forall>h \<in> set (challenge_fields date realm nonce). header_ok h"
    and "reply = render_response version 401 (mg_get_response_code_text 401) (challenge_fields date realm nonce)"
    and "version \<noteq> []" "list_all isgraph version" "writer_ok (length reply) c" "int (length reply) \<le> INT_MAX"
    and "login = login_fields user realm password meth uri (decimal (unat nonce)) nc cnonce" "list_all auth_field_ok login"
    and "mg_get_header (Some c2) ''Authorization'' = Some (''Digest '' @ auth_text login)"
    and "cstring (auth_text login)" "length (auth_text login) < MG_BUF_LEN" "MG_BUF_LEN \<le> length buf"
  shows "\<exists>files' ctx' c' mem (ri :: mg_response_info).
    mg_modify_passwords_file m writable files (Some fname) (Some realm) (Some user) (Some password) = (1, files')
    \<and> send_authorization_request (\<lambda>n. True) cfg date ctx c (Some realm) = Some (ctx', c') \<and> net_out c' = net_out c @ reply
    \<and> parse_http_response reply (length reply) ri0 = Some (mem, ri, int (length reply)) \<and> rsp_status_code ri = 401
    \<and> (''WWW-Authenticate'', challenge_text realm nonce) \<in> set (map (\<lambda>(n, v). (str_at mem n, str_at mem v)) (rsp_http_headers ri))
    \<and> mg_check_digest_access_authentication (ctx'\<lparr>request_method := Some meth\<rparr>) m files' buf (Some c2) (Some realm) (Some fname)
      = Some (1, Some user)"
proof -
  obtain es' files' where f: "mg_modify_passwords_file m writable files (Some fname) (Some realm) (Some user) (Some password) = (1, files')"
    "files' fname = Some (file_text es')" "list_all entry_ok es'"
    "stored es' = (stored es)((user, realm) := stored_hash user realm (Some password))"
    using modify_passwords_spec [of es files fname writable m user realm "Some password", OF assms(1-8)] by blast
  define ctx' where "ctx' = ctx\<lparr>nonce_count := nonce_count ctx + 1\<rparr>"
  obtain c' where c': "send_authorization_request (\<lambda>n. True) cfg date ctx c (Some realm) = Some (ctx', c')" "net_out c' = net_out c @ reply"
    using send_authorization_request_ok [OF assms(10-14) _ assms(16,18,19,20,23,24)] assms(15) by (auto simp: ctx'_def)
  have len: "length (challenge_fields date realm nonce) \<le> MG_MAX_HEADERS"
    by (simp add: challenge_fields_def no_cache_def MG_MAX_HEADERS_def)
  have r: "reason_ok (mg_get_response_code_text 401)" by (rule code_text_ok) simp_all
  from parse_response_spec [OF assms(21,22) _ _ r assms(19) len _ assms(20), of "[]" "length reply" "[]" ri0]
  obtain mem ri where p: "parse_http_response reply (length reply) ri0 = Some (mem, ri, int (length reply))"
    "rsp_status_code ri = 401" "map (\<lambda>(n, v). (str_at mem n, str_at mem v)) (rsp_http_headers ri) = challenge_fields date realm nonce" by auto
  have ok: "nonce_ok (ctx'\<lparr>request_method := Some meth\<rparr>) (decimal (unat nonce))"
    using issued_nonce_ok [OF assms(17,16)] by (simp add: nonce_ok_def ctx'_def)
  have st: "stored es' (user, realm) = Some (md5_hex (user @ '':'' @ realm @ '':'' @ password))"
    using f(4) assms(9) by (simp add: stored_hash_def)
  have "mg_check_digest_access_authentication (ctx'\<lparr>request_method := Some meth\<rparr>) m files' buf (Some c2) (Some realm) (Some fname)
      = Some (1, Some user)"
    by (rule login_accepted [where es = es' and password = password, OF f(3) _ st ok _ assms(4,30,25-29)]) (simp_all add: f(2))
  moreover have "(''WWW-Authenticate'', challenge_text realm nonce) \<in> set (map (\<lambda>(n, v). (str_at mem n, str_at mem v)) (rsp_http_headers ri))"
    unfolding p(3) by (simp add: challenge_fields_def)
  ultimately show ?thesis using f(1) c' p(1,2) by blast
qed

section \<open>Examples\<close>

lemma length_escape: "length (escape v) \<le> 2 * length v"
  by (induction v) (simp_all add: escape_def quote_char_def)

lemma cstring_escape: "cstring v \<Longrightarrow> cstring (escape v)"
  by (induction v) (simp_all add: escape_def quote_char_def)

definition bob_login :: "(string \<times> bool \<times> string) list" where
  "bob_login = login_fields ''bob'' ''d'' ''pw'' ''GET'' ''/x'' (decimal (unat (1000 :: u64))) ''00000001'' ''abc''"

definition bob :: mg_connection where
  "bob = example_writer\<lparr>request_info := \<lparr>info_version = Some ''1.1'', info_headers = [(''Authorization'', ''Digest '' @ auth_text bob_login)]\<rparr>\<rparr>"

definition bob_file :: "entry list" where
  "bob_file = [(''bob'', ''d'', md5_hex ''bob:d:pw'')]"

definition bob_context :: auth_context where
  "bob_context = \<lparr>auth_nonce_mask = 0, nonce_count = 0, start_time = 1000, AUTHENTICATION_DOMAIN = ''mydomain.com'',
     request_method = None\<rparr>"

definition fresh_md5 :: md5_state where
  "fresh_md5 = \<lparr>mcount0 = 7, mcount1 = 0, abcd = [], mbuf = replicate 64 0\<rparr>"

lemma decimal_1000: "decimal 1000 = ''1000''" "decimal (unat (1000 :: u64)) = ''1000''"
  by (simp_all add: decimal.simps, code_simp+)

lemma bob_login_ok:
  "list_all auth_field_ok bob_login" "cstring (auth_text bob_login)" "length (auth_text bob_login) < MG_BUF_LEN"
  "mg_get_header (Some bob) ''Authorization'' = Some (''Digest '' @ auth_text bob_login)"
proof -
  define a where "a = digest_answer ''GET'' (md5_hex ''bob:d:pw'') ''/x'' ''1000'' ''00000001'' ''abc'' ''auth''"
  have a: "cstring a" "length a = 32" "a \<noteq> []" using md5_hex_plain length_md5_hex by (simp_all add: a_def digest_answer_def)
  have "last a \<noteq> BACKSLASH"
  proof
    assume b: "last a = BACKSLASH"
    have "isxdigit (last a)" using last_in_set [OF a(3)] md5_hex_chars unfolding a_def digest_answer_def by blast
    moreover have "\<not> isxdigit BACKSLASH" by code_simp
    ultimately show False using b by simp
  qed
  note a = a this
  have l: "bob_login = [(''username'', True, ''bob''), (''realm'', True, ''d''), (''nonce'', True, ''1000''), (''uri'', True, ''/x''),
      (''qop'', False, ''auth''), (''nc'', False, ''00000001''), (''cnonce'', True, ''abc''), (''response'', True, a)]"
    by (simp add: bob_login_def login_fields_def a_def decimal_1000)
  have "list_all auth_field_ok [(''username'', True, ''bob''), (''realm'', True, ''d''), (''nonce'', True, ''1000''), (''uri'', True, ''/x''),
      (''qop'', False, ''auth''), (''nc'', False, ''00000001''), (''cnonce'', True, ''abc'')]" by code_simp
  moreover have "auth_field_ok (''response'', True, a)"
  proof -
    have "\<not> isspace (hd ''response'')" by code_simp
    then show ?thesis using a by (simp add: auth_field_ok_def)
  qed
  ultimately show "list_all auth_field_ok bob_login" by (simp add: l)
  show "cstring (auth_text bob_login)" "length (auth_text bob_login) < MG_BUF_LEN"
    using cstring_escape [OF a(1)] length_escape [of a] a(2)
    by (simp_all add: l auth_field_def MG_BUF_LEN_def) (simp_all add: escape_def quote_char_def)
  show "mg_get_header (Some bob) ''Authorization'' = Some (''Digest '' @ auth_text bob_login)"
    using mg_strcasecmp_eq [of "''Authorization''" "''Authorization''"] by (simp add: mg_get_header_def bob_def example_writer_def)
qed

theorem digest_login_witness:
  "\<exists>files' ctx' c'. mg_modify_passwords_file fresh_md5 (\<lambda>f. True) [''.htpasswd'' \<mapsto> []] (Some ''.htpasswd'') (Some ''d'') (Some ''bob'') (Some ''pw'') = (1, files')
    \<and> send_authorization_request (\<lambda>n. True) plain_config ''now'' bob_context (Response.example_server\<lparr>net_accept := replicate 400 7\<rparr>) (Some ''d'') = Some (ctx', c')
    \<and> mg_check_digest_access_authentication (ctx'\<lparr>request_method := Some ''GET''\<rparr>) fresh_md5 files' (replicate MG_BUF_LEN NUL) (Some bob) (Some ''d'') (Some ''.htpasswd'')
      = Some (1, Some ''bob'')"
proof -
  let ?c = "Response.example_server\<lparr>net_accept := replicate 400 7\<rparr>"
  define reply where "reply = render_response ''1.1'' 401 (mg_get_response_code_text 401) (challenge_fields ''now'' ''d'' 1000)"
  have h: "list_all header_ok [(''Cache-Control'', ''no-cache, no-store, must-revalidate, private, max-age=0''), (''Expires'', ''0''),
      (''Pragma'', ''no-cache''), (''Content-Length'', ''0''), (''Date'', ''now''), (''Connection'', ''close'')]" by code_simp
  have ct: "challenge_text ''d'' 1000 = ''Digest qop='' @ [DQUOTE] @ ''auth'' @ [DQUOTE] @ '', realm='' @ [DQUOTE] @ ''d'' @ [DQUOTE]
      @ '', nonce='' @ [DQUOTE] @ ''1000'' @ [DQUOTE]" unfolding challenge_text_def decimal_1000 by simp
  have "header_ok (''WWW-Authenticate'', challenge_text ''d'' 1000)" unfolding ct by code_simp
  with h have hs: "\<forall>h \<in> set (challenge_fields ''now'' ''d'' 1000). header_ok h" by (simp add: challenge_fields_def no_cache_def)
  have len: "length reply \<le> 400"
    by (simp add: reply_def challenge_fields_def ct no_cache_def render_response_def status_line_def header_line_def
      decimal.simps mg_get_response_code_text_def response_code_texts_def)
  have wr: "writer_ok (length reply) ?c" "int (length reply) \<le> INT_MAX"
    using len by (simp_all add: Response.example_server_def example_writer_def writer_ok_def accepts_def list_all_iff INT_MAX_def)
  have es: "list_all entry_ok []" "[''.htpasswd'' \<mapsto> []] ''.htpasswd'' = Some (file_text [])" "length (mbuf fresh_md5) = 64"
    by (simp_all add: file_text_def fresh_md5_def)
  have nm: "plain_name ''bob''" "plain_name ''d''" "list_all isgraph ''1.1''" by code_simp+
  have c: "conn_type ?c = CONNECTION_TYPE_REQUEST" "proto_type ?c = PROTOCOL_TYPE_HTTP1" "request_state ?c = 0"
    "ADDITIONAL_HEADER plain_config = None" "STRICT_HTTPS_MAX_AGE plain_config = None" "info_version (request_info ?c) = Some ''1.1''"
    by (simp_all add: Response.example_server_def example_writer_def plain_config_def)
  have n: "(1000 :: u64) = (start_time bob_context + nonce_count bob_context) XOR auth_nonce_mask bob_context"
    "unat (start_time bob_context) + unat (nonce_count bob_context) + 1 < 2 ^ 64" by (simp_all add: bob_context_def)
  have small: "length ''bob'' + length ''d'' + 35 < 512" "length ''.htpasswd'' + 4 < UTF8_PATH_MAX" "''pw'' \<noteq> []" "''1.1'' \<noteq> []"
    "length (challenge_text ''d'' 1000) < 128" "MG_BUF_LEN \<le> length (replicate MG_BUF_LEN NUL)" by (simp_all add: UTF8_PATH_MAX_def ct)
  show ?thesis
    using digest_login [where files = "[''.htpasswd'' \<mapsto> []]" and fname = "''.htpasswd''" and writable = "\<lambda>f. True", OF es(1,2) TrueI es(3) nm(1,2) small(1-3) c n small(5) hs reply_def small(4) nm(3) wr bob_login_def bob_login_ok(1,4,2,3) small(6)]
    by blast
qed

theorem authorized_only_listed_witness:
  "\<exists>h. listed [''p'' \<mapsto> file_text bob_file] INITIAL_DEPTH (file_text bob_file) ''bob'' ''d'' h
    \<and> claimed bob ''response'' = Some (digest_answer ''GET'' h ''/x'' ''1000'' ''00000001'' ''abc'' ''auth'')"
proof -
  let ?ctx = "bob_context\<lparr>nonce_count := 1, request_method := Some ''GET''\<rparr>"
  have pn: "plain_name ''bob''" "plain_name ''d''" by code_simp+
  have "entry_ok (''bob'', ''d'', md5_hex ''bob:d:pw'')"
    unfolding entry_ok_def prod.case using pn md5_hex_plain(3-5) length_md5_hex by simp
  then have f: "list_all entry_ok bob_file" "stored bob_file (''bob'', ''d'') = Some (md5_hex (''bob'' @ '':'' @ ''d'' @ '':'' @ ''pw''))"
    by (simp_all add: bob_file_def stored_def)
  have same: "nonce_ok ?ctx s = nonce_ok (bob_context\<lparr>nonce_count := nonce_count bob_context + 1\<rparr>) s" for s
    by (simp add: nonce_ok_def bob_context_def)
  have "nonce_ok (bob_context\<lparr>nonce_count := nonce_count bob_context + 1\<rparr>) (decimal (unat (1000 :: u64)))"
    by (rule issued_nonce_ok) (simp_all add: bob_context_def)
  then have nonce: "nonce_ok ?ctx ''1000''" unfolding same decimal_1000 .
  have bob: "bob_login = login_fields ''bob'' ''d'' ''pw'' ''GET'' ''/x'' ''1000'' ''00000001'' ''abc''"
    by (simp add: bob_login_def decimal_1000)
  have m: "length (mbuf fresh_md5) = 64" "MG_BUF_LEN \<le> length (replicate MG_BUF_LEN NUL)" by (simp_all add: fresh_md5_def)
  have login: "mg_check_digest_access_authentication ?ctx fresh_md5 [''p'' \<mapsto> file_text bob_file] (replicate MG_BUF_LEN NUL) (Some bob) (Some ''d'') (Some ''p'')
      = Some (1, Some ''bob'')"
    by (rule login_accepted [where es = bob_file and password = "''pw''", OF f(1) _ f(2) nonce _ m bob bob_login_ok(1,4,2,3)]) simp_all
  have cs: "cstring h" if "mg_get_header (Some bob) ''Authorization'' = Some h" for h
  proof -
    have "cstring ''Digest ''" by code_simp
    with that bob_login_ok(2,4) show ?thesis by auto
  qed
  have fl: "request_fields bob = map (\<lambda>(n, q, v). (n, v)) bob_login"
  proof -
    have "fold_case ''Digest '' = ''digest ''" by code_simp
    with login_claims [OF bob_login_ok(1) _ bob_login_ok(4) _ bob_login_ok(3)] cs [OF bob_login_ok(4)] show ?thesis by blast
  qed
  have k: "claimed bob ''uri'' = Some ''/x''" "claimed bob ''nonce'' = Some ''1000''" "claimed bob ''nc'' = Some ''00000001''"
    "claimed bob ''cnonce'' = Some ''abc''" "claimed bob ''qop'' = Some ''auth''" "claimed bob ''username'' = Some ''bob''"
    "\<exists>z. claimed bob ''response'' = Some (md5_hex z)"
    by (simp_all add: claimed_def fl bob login_fields_def) (auto simp: digest_answer_def)
  from authorized_only_listed [OF cs m(2,1) login] k md5_hex_plain(2) show ?thesis by (auto simp: bob_context_def)
qed

end
