(* ===== verification/Timers.thy ===== *)
theory Timers
  imports Main "HOL-Library.Multiset"
begin

text \<open>
  The timers of \<^verbatim>\<open>timer.inl\<close>: a growing array of timers sorted by time, \<open>timer_add\<close>, which inserts into
  it, and the timer thread, which runs what is due and gives back what is left when the server stops. The thread and
  the callers of \<open>timer_add\<close> interleave, so the thread is a step relation: \<open>timer_add\<close> reads the clock in one step and
  enters its critical section in another. Times are of any type with a linear order and
  an addition, of which no law is used: C's \<open>double\<close> without NaN is one.
\<close>

section \<open>The code\<close>

subsection \<open>The array\<close>

record ('t, 'a, 'b, 'c) ttimer =
  t_time :: 't
  t_period :: 't
  t_action :: 'a
  t_arg :: 'b
  t_cancel :: "'c option"

text \<open>\<open>slots\<close> is the allocated memory; only the first \<open>timer_count\<close> slots hold timers.\<close>

record ('t, 'a, 'b, 'c) ttimers =
  slots :: "('t, 'a, 'b, 'c) ttimer list"
  timer_count :: nat
  timer_capacity :: nat

definition MAX_TIMERS :: nat where
  "MAX_TIMERS = 65536"

text \<open>The loop that moves the later timers up: the memory and the free slot.\<close>

fun shift_up :: "('t::linorder) \<Rightarrow> ('t, 'a, 'b, 'c) ttimer list \<Rightarrow> nat \<Rightarrow> ('t, 'a, 'b, 'c) ttimer list \<times> nat" where
  "shift_up next_time ts 0 = (ts, 0)"
| "shift_up next_time ts (Suc u) =
     (if next_time < t_time (ts ! u) then shift_up next_time (ts[Suc u := ts ! u]) u else (ts, Suc u))"

text \<open>Before the lock is taken: the time of the new timer, when the clock shows \<open>now\<close>.\<close>

definition timer_time :: "('t::{linorder,plus}) \<Rightarrow> 't \<Rightarrow> bool \<Rightarrow> 't" where
  "timer_time now next_time is_relative =
     (let next_time = (if is_relative then next_time + now else next_time)
      in if next_time < now then now else next_time)"

text \<open>The critical section. \<open>realloc n\<close> is the memory that \<open>mg_realloc_ctx\<close> appends when
  the array grows to \<open>n\<close> timers, or \<open>None\<close>. The first result is the error flag.\<close>

definition timer_insert ::
    "(nat \<Rightarrow> ('t::linorder, 'a, 'b, 'c) ttimer list option) \<Rightarrow> ('t, 'a, 'b, 'c) ttimer \<Rightarrow> ('t, 'a, 'b, 'c) ttimers
     \<Rightarrow> bool \<times> ('t, 'a, 'b, 'c) ttimers" where
  "timer_insert realloc t ts =
     (let (error, ts) =
        (if timer_count ts = MAX_TIMERS then (True, ts)
         else if timer_count ts = timer_capacity ts
         then let capacity = timer_capacity ts * 2 + 1
              in case realloc capacity of
                   None \<Rightarrow> (True, ts)
                 | Some new \<Rightarrow> (False, ts\<lparr>slots := slots ts @ new, timer_capacity := capacity\<rparr>)
         else (False, ts))
      in if error then (True, ts)
         else let (mem, u) = shift_up (t_time t) (slots ts) (timer_count ts)
              in (False, ts\<lparr>slots := mem[u := t], timer_count := timer_count ts + 1\<rparr>))"

definition timer_add ::
    "('t::{linorder,plus}) \<Rightarrow> (nat \<Rightarrow> ('t, 'a, 'b, 'c) ttimer list option) \<Rightarrow> ('t, 'a, 'b, 'c) ttimers option
     \<Rightarrow> 't \<Rightarrow> 't \<Rightarrow> bool \<Rightarrow> 'a \<Rightarrow> 'b \<Rightarrow> 'c option \<Rightarrow> bool \<times> ('t, 'a, 'b, 'c) ttimers option" where
  "timer_add now realloc timers next_time period is_relative action arg cancel =
     (case timers of
        None \<Rightarrow> (True, None)
      | Some ts \<Rightarrow>
          let next_time = timer_time now next_time is_relative;
              (error, ts) = timer_insert realloc
                \<lparr>t_time = next_time, t_period = period, t_action = action, t_arg = arg, t_cancel = cancel\<rparr> ts
          in (error, Some ts))"

text \<open>Taking the first timer off the list.\<close>

definition shift_down :: "('t, 'a, 'b, 'c) ttimers \<Rightarrow> ('t, 'a, 'b, 'c) ttimers" where
  "shift_down ts = ts\<lparr>slots := fold (\<lambda>u mem. mem[u - 1 := mem ! u]) [1..<timer_count ts] (slots ts),
     timer_count := timer_count ts - 1\<rparr>"

subsection \<open>The thread\<close>

text \<open>What happens: a timer is put on the list, an action runs (at the thread's time \<open>d\<close>), or a timer is given back to
  its owner, by its cancel callback if it has one.\<close>

datatype ('t, 'a, 'b, 'c) timer_event =
    Listed "('t, 'a, 'b, 'c) ttimer"
  | Ran 't "('t, 'a, 'b, 'c) ttimer"
  | Released "('t, 'a, 'b, 'c) ttimer"

text \<open>Where the thread is: at the head of its loop, in \<open>mg_sleep\<close>, in the action of the timer \<open>t\<close> that it has taken off the
  list, in its own call of \<open>timer_add\<close> behind the reading of the clock, in the loop behind the main loop with its index, or at the end.\<close>

datatype ('t, 'a, 'b, 'c) timer_thread =
    Looping
  | Sleeping
  | Acting "('t, 'a, 'b, 'c) ttimer"
  | Adding "('t, 'a, 'b, 'c) ttimer"
  | Stopping nat
  | Ended

text \<open>The state: the timers, the thread and its \<open>d\<close>, the clock, the calls of \<open>timer_add\<close> that have read the clock and wait for
  the lock, what has happened, and what is not in the code: the timers that were accepted from outside, those whose
  rescheduling failed, and whether one was accepted after the main loop had ended.\<close>

record ('t, 'a, 'b, 'c) timer_state =
  tm_timers :: "('t, 'a, 'b, 'c) ttimers"
  tm_d :: 't
  tm_thread :: "('t, 'a, 'b, 'c) timer_thread"
  tm_clock :: 't
  tm_calls :: "('t, 'a, 'b, 'c) ttimer list"
  tm_log :: "('t, 'a, 'b, 'c) timer_event list"
  tm_accepted :: "('t, 'a, 'b, 'c) ttimer list"
  tm_lost :: "('t, 'a, 'b, 'c) ttimer list"
  tm_late :: bool

definition timer_due :: "('t::linorder, 'a, 'b, 'c) timer_state \<Rightarrow> bool" where
  "timer_due s \<longleftrightarrow> 0 < timer_count (tm_timers s) \<and> t_time (slots (tm_timers s) ! 0) \<le> tm_d s"

text \<open>The thread takes the first timer when it is due.\<close>

definition take_due :: "('t, 'a, 'b, 'c) timer_state \<Rightarrow> ('t, 'a, 'b, 'c) timer_state" where
  "take_due s = s\<lparr>tm_timers := shift_down (tm_timers s), tm_thread := Acting (slots (tm_timers s) ! 0),
     tm_log := tm_log s @ [Ran (tm_d s) (slots (tm_timers s) ! 0)]\<rparr>"

text \<open>After the action has returned \<open>action_res\<close>, at the time \<open>now\<close>: call \<open>timer_add\<close>, or give the timer back.\<close>

definition finish_timer ::
    "('t::{linorder,plus,zero}) \<Rightarrow> int \<Rightarrow> ('t, 'a, 'b, 'c) ttimer \<Rightarrow> ('t, 'a, 'b, 'c) timer_state \<Rightarrow> ('t, 'a, 'b, 'c) timer_state" where
  "finish_timer now action_res t s =
     (if 0 < action_res \<and> 0 < t_period t
      then s\<lparr>tm_thread := Adding (t\<lparr>t_time := timer_time now (t_time t + t_period t) False\<rparr>), tm_clock := now\<rparr>
      else s\<lparr>tm_thread := Looping, tm_log := tm_log s @ [Released t]\<rparr>)"

text \<open>The critical section of the thread's own call, whose result it ignores.\<close>

definition reschedule ::
    "(nat \<Rightarrow> ('t::linorder, 'a, 'b, 'c) ttimer list option) \<Rightarrow> ('t, 'a, 'b, 'c) ttimer \<Rightarrow> ('t, 'a, 'b, 'c) timer_state
     \<Rightarrow> ('t, 'a, 'b, 'c) timer_state" where
  "reschedule realloc t s =
     (let (error, ts) = timer_insert realloc t (tm_timers s)
      in s\<lparr>tm_timers := ts, tm_thread := Looping, tm_log := tm_log s @ (if error then [] else [Listed t]),
           tm_lost := tm_lost s @ (if error then [t] else [])\<rparr>)"

text \<open>The critical section of a call by another thread, or by the action that is running.\<close>

definition outside_add ::
    "(nat \<Rightarrow> ('t::linorder, 'a, 'b, 'c) ttimer list option) \<Rightarrow> ('t, 'a, 'b, 'c) ttimer \<Rightarrow> ('t, 'a, 'b, 'c) timer_state
     \<Rightarrow> ('t, 'a, 'b, 'c) timer_state" where
  "outside_add realloc t s =
     (let (error, ts) = timer_insert realloc t (tm_timers s)
      in s\<lparr>tm_timers := ts, tm_calls := remove1 t (tm_calls s), tm_log := tm_log s @ (if error then [] else [Listed t]),
           tm_accepted := tm_accepted s @ (if error then [] else [t]),
           tm_late := (tm_late s \<or> \<not> error \<and> (case tm_thread s of Stopping u \<Rightarrow> True | Ended \<Rightarrow> True | _ \<Rightarrow> False))\<rparr>)"

text \<open>One round of the loop that gives back what is left, which runs without the lock.\<close>

definition release_next :: "nat \<Rightarrow> ('t, 'a, 'b, 'c) timer_state \<Rightarrow> ('t, 'a, 'b, 'c) timer_state" where
  "release_next u s =
     (if u < timer_count (tm_timers s)
      then s\<lparr>tm_thread := Stopping (u + 1), tm_log := tm_log s @ [Released (slots (tm_timers s) ! u)]\<rparr>
      else s\<lparr>tm_thread := Ended\<rparr>)"

definition new_memory :: "(nat \<Rightarrow> 'x list option) \<Rightarrow> nat \<Rightarrow> bool" where
  "new_memory realloc k \<longleftrightarrow> (\<forall>n new. realloc n = Some new \<longrightarrow> k + length new = n)"

text \<open>The steps, up to the point where \<open>timers_exit\<close> frees the list. The clock is monotonic. A step of the last loop finds the
  list between two critical sections: what it reads in the middle of one, or after another thread's \<open>mg_realloc_ctx\<close> has
  moved the array, is a data race that C leaves undefined.\<close>

inductive timer_step :: "('t::{linorder,plus,zero}, 'a, 'b, 'c) timer_state \<Rightarrow> ('t, 'a, 'b, 'c) timer_state \<Rightarrow> bool" where
  fire: "tm_thread s = Looping \<Longrightarrow> timer_due s \<Longrightarrow> timer_step s (take_due s)"
| sleep: "tm_thread s = Looping \<Longrightarrow> \<not> timer_due s \<Longrightarrow> timer_step s (s\<lparr>tm_thread := Sleeping\<rparr>)"
| wake: "tm_thread s = Sleeping \<Longrightarrow> tm_clock s \<le> now \<Longrightarrow> timer_step s (s\<lparr>tm_thread := Looping, tm_d := now, tm_clock := now\<rparr>)"
| finish: "tm_thread s = Acting t \<Longrightarrow> tm_clock s \<le> now \<Longrightarrow> timer_step s (finish_timer now action_res t s)"
| again: "tm_thread s = Adding t \<Longrightarrow> new_memory realloc (length (slots (tm_timers s))) \<Longrightarrow> timer_step s (reschedule realloc t s)"
| call: "tm_clock s \<le> now \<Longrightarrow>
    timer_step s (s\<lparr>tm_clock := now, tm_calls := t\<lparr>t_time := timer_time now next_time is_relative\<rparr> # tm_calls s\<rparr>)"
| enter: "t \<in> set (tm_calls s) \<Longrightarrow> new_memory realloc (length (slots (tm_timers s))) \<Longrightarrow>
    timer_step s (outside_add realloc t s)"
| stop: "tm_thread s = Looping \<Longrightarrow> timer_step s (s\<lparr>tm_thread := Stopping 0\<rparr>)"
| release: "tm_thread s = Stopping u \<Longrightarrow> timer_step s (release_next u s)"

definition timers_init :: "'t \<Rightarrow> ('t, 'a, 'b, 'c) timer_state" where
  "timers_init now = \<lparr>tm_timers = \<lparr>slots = [], timer_count = 0, timer_capacity = 0\<rparr>, tm_d = now, tm_thread = Looping,
     tm_clock = now, tm_calls = [], tm_log = [], tm_accepted = [], tm_lost = [], tm_late = False\<rparr>"

section \<open>The array is a sorted list\<close>

definition pending :: "('t, 'a, 'b, 'c) ttimers \<Rightarrow> ('t, 'a, 'b, 'c) ttimer list" where
  "pending ts = take (timer_count ts) (slots ts)"

definition timers_ok :: "('t::linorder, 'a, 'b, 'c) ttimers \<Rightarrow> bool" where
  "timers_ok ts \<longleftrightarrow> timer_count ts \<le> timer_capacity ts \<and> timer_capacity ts = length (slots ts)
     \<and> timer_count ts \<le> MAX_TIMERS \<and> sorted (map t_time (pending ts))"

definition insert_timer :: "('t::linorder, 'a, 'b, 'c) ttimer \<Rightarrow> ('t, 'a, 'b, 'c) ttimer list \<Rightarrow> ('t, 'a, 'b, 'c) ttimer list" where
  "insert_timer t ts = takeWhile (\<lambda>x. t_time x \<le> t_time t) ts @ t # dropWhile (\<lambda>x. t_time x \<le> t_time t) ts"

lemma shift_up_spec:
  "sorted (map t_time xs) \<Longrightarrow> \<exists>junk. shift_up x (xs @ g # rest) (length xs)
     = (takeWhile (\<lambda>y. t_time y \<le> x) xs @ junk # dropWhile (\<lambda>y. t_time y \<le> x) xs @ rest,
        length (takeWhile (\<lambda>y. t_time y \<le> x) xs))"
proof (induction xs arbitrary: g rest rule: rev_induct)
  case (snoc y ys)
  have s: "sorted (map t_time ys)" "\<forall>z \<in> set ys. t_time z \<le> t_time y" using snoc.prems by (auto simp: sorted_append)
  have at: "(ys @ y # g # rest) ! length ys = y" by simp
  show ?case
  proof (cases "x < t_time y")
    case True
    have "(ys @ y # g # rest)[Suc (length ys) := y] = ys @ y # y # rest" by (simp add: list_update_append)
    moreover obtain junk where "shift_up x (ys @ y # y # rest) (length ys)
      = (takeWhile (\<lambda>y. t_time y \<le> x) ys @ junk # dropWhile (\<lambda>y. t_time y \<le> x) ys @ y # rest,
         length (takeWhile (\<lambda>y. t_time y \<le> x) ys))" using snoc.IH [OF s(1)] by blast
    moreover have "takeWhile (\<lambda>y. t_time y \<le> x) (ys @ [y]) = takeWhile (\<lambda>y. t_time y \<le> x) ys"
      "dropWhile (\<lambda>y. t_time y \<le> x) (ys @ [y]) = dropWhile (\<lambda>y. t_time y \<le> x) ys @ [y]"
      using True by (simp_all add: takeWhile_tail dropWhile_append3 not_le)
    ultimately show ?thesis using True at by auto
  next
    case False
    then have "\<forall>z \<in> set (ys @ [y]). t_time z \<le> x" using s(2) by auto
    then have "takeWhile (\<lambda>y. t_time y \<le> x) (ys @ [y]) = ys @ [y]" "dropWhile (\<lambda>y. t_time y \<le> x) (ys @ [y]) = []"
      by (simp_all only: takeWhile_eq_all_conv dropWhile_eq_Nil_conv)
    then show ?thesis using False at by auto
  qed
qed simp

lemma insert_timer_mset [simp]: "mset (insert_timer t ts) = add_mset t (mset ts)"
proof -
  have "mset ts = mset (takeWhile (\<lambda>x. t_time x \<le> t_time t) ts) + mset (dropWhile (\<lambda>x. t_time x \<le> t_time t) ts)"
    by (metis mset_append takeWhile_dropWhile_id)
  then show ?thesis by (simp add: insert_timer_def)
qed

lemma insert_timer_set [simp]: "set (insert_timer t ts) = insert t (set ts)"
  by (metis insert_timer_mset set_mset_mset set_mset_add_mset_insert)

lemma length_insert_timer: "length (insert_timer t ts) = Suc (length ts)"
  by (metis insert_timer_mset size_mset size_add_mset)

lemma insert_timer_sorted: "sorted (map t_time ts) \<Longrightarrow> sorted (map t_time (insert_timer t ts))"
proof (induction ts)
  case (Cons x ts)
  have "insert_timer t (x # ts) = (if t_time x \<le> t_time t then x # insert_timer t ts else t # x # ts)"
    by (simp add: insert_timer_def)
  with Cons show ?case by auto
qed (simp add: insert_timer_def)

lemma shift_down_spec:
  assumes "timer_count ts \<le> length (slots ts)" "0 < timer_count ts"
  shows "pending (shift_down ts) = tl (pending ts) \<and> length (slots (shift_down ts)) = length (slots ts)"
proof -
  have loop: "n < length mem \<Longrightarrow> fold (\<lambda>u mem. mem[u - 1 := mem ! u]) [1..<Suc n] mem = take n (tl mem) @ drop n mem" for n and mem :: "'z list"
  proof (induction n)
    case 0
    then show ?case by simp
  next
    case (Suc n)
    then have "fold (\<lambda>u mem. mem[u - 1 := mem ! u]) [1..<Suc (Suc n)] mem
      = (take n (tl mem) @ drop n mem)[n := (take n (tl mem) @ drop n mem) ! Suc n]" by simp
    also have "(take n (tl mem) @ drop n mem) ! Suc n = mem ! Suc n" using Suc.prems by (simp add: nth_append)
    also have "(take n (tl mem) @ drop n mem)[n := mem ! Suc n] = take n (tl mem) @ (mem ! Suc n) # drop (Suc n) mem"
      using Suc.prems by (simp add: list_update_append Cons_nth_drop_Suc [symmetric])
    also have "\<dots> = take (Suc n) (tl mem) @ drop (Suc n) mem"
      using Suc.prems by (simp add: take_Suc_conv_app_nth nth_tl)
    finally show ?case .
  qed
  obtain n where n: "timer_count ts = Suc n" using assms(2) by (cases "timer_count ts") auto
  have "fold (\<lambda>u mem. mem[u - 1 := mem ! u]) [1..<timer_count ts] (slots ts) = take n (tl (slots ts)) @ drop n (slots ts)"
    using loop [of n "slots ts"] assms(1) n by simp
  moreover have "tl (take (Suc n) (slots ts)) = take n (tl (slots ts))" by (cases "slots ts") simp_all
  ultimately show ?thesis using assms(1) n by (simp add: shift_down_def pending_def)
qed

lemma shift_down_ok:
  assumes "timers_ok ts" "0 < timer_count ts"
  shows "timers_ok (shift_down ts) \<and> pending ts = slots ts ! 0 # pending (shift_down ts)"
proof -
  have l: "timer_count ts \<le> length (slots ts)" using assms(1) by (simp add: timers_ok_def)
  note sd = shift_down_spec [OF l assms(2)]
  have "pending ts \<noteq> []" "hd (pending ts) = slots ts ! 0" using l assms(2) by (cases "slots ts"; auto simp: pending_def)+
  then have p: "pending ts = slots ts ! 0 # pending (shift_down ts)" using sd by (metis list.collapse)
  have "sorted (map t_time (pending (shift_down ts)))" using assms(1) by (simp add: timers_ok_def p)
  with sd p assms show ?thesis by (auto simp: timers_ok_def shift_down_def)
qed

definition clamp :: "('t::{linorder,plus}) \<Rightarrow> 't \<Rightarrow> bool \<Rightarrow> 't" where
  "clamp now next_time is_relative = max now (if is_relative then next_time + now else next_time)"

text \<open>When \<open>timer_add\<close> refuses a timer.\<close>

definition no_room :: "(nat \<Rightarrow> ('t, 'a, 'b, 'c) ttimer list option) \<Rightarrow> ('t, 'a, 'b, 'c) ttimers \<Rightarrow> bool" where
  "no_room realloc ts \<longleftrightarrow> timer_count ts = MAX_TIMERS
     \<or> timer_count ts = timer_capacity ts \<and> realloc (timer_capacity ts * 2 + 1) = None"

lemma timer_insert_spec:
  assumes "timers_ok ts" "new_memory realloc (length (slots ts))"
  shows "if no_room realloc ts then timer_insert realloc t ts = (True, ts)
    else \<exists>ts'. timer_insert realloc t ts = (False, ts') \<and> timers_ok ts' \<and> pending ts' = insert_timer t (pending ts)"
proof (cases "no_room realloc ts")
  case True
  then show ?thesis by (auto simp: timer_insert_def no_room_def Let_def)
next
  case False
  define x where "x = t_time t"
  define grown where "grown = (if timer_count ts = timer_capacity ts
    then ts\<lparr>slots := slots ts @ the (realloc (timer_capacity ts * 2 + 1)), timer_capacity := timer_capacity ts * 2 + 1\<rparr> else ts)"
  have g: "timer_count grown = timer_count ts" "pending grown = pending ts" "timer_capacity grown = length (slots grown)"
    "timer_count ts < length (slots grown)" "sorted (map t_time (pending ts))" "timer_count ts < MAX_TIMERS"
    using assms False by (auto simp: grown_def timers_ok_def pending_def no_room_def new_memory_def split: if_splits)
  define xs where "xs = pending ts"
  have "slots grown = pending grown @ slots grown ! timer_count ts # drop (Suc (timer_count ts)) (slots grown)"
    unfolding pending_def g(1) by (rule id_take_nth_drop [OF g(4)])
  then obtain f rest where "slots grown = xs @ f # rest" unfolding g(2) xs_def by blast
  moreover have "length xs = timer_count ts" using assms(1) by (simp add: xs_def pending_def timers_ok_def)
  ultimately have sl: "slots grown = xs @ f # rest" "length xs = timer_count ts" "xs = pending ts" by (simp_all add: xs_def)
  obtain junk where sh: "shift_up x (slots grown) (timer_count ts)
     = (takeWhile (\<lambda>y. t_time y \<le> x) xs @ junk # dropWhile (\<lambda>y. t_time y \<le> x) xs @ rest, length (takeWhile (\<lambda>y. t_time y \<le> x) xs))"
    using shift_up_spec [of xs x f rest] g(5) sl by auto
  define ts' where "ts' = grown\<lparr>slots := insert_timer t xs @ rest, timer_count := timer_count ts + 1\<rparr>"
  have "timer_insert realloc t ts = (False, ts')"
  proof -
    have "(if timer_count ts = MAX_TIMERS then (True, ts)
        else if timer_count ts = timer_capacity ts
        then case realloc (timer_capacity ts * 2 + 1) of None \<Rightarrow> (True, ts)
             | Some new \<Rightarrow> (False, ts\<lparr>slots := slots ts @ new, timer_capacity := timer_capacity ts * 2 + 1\<rparr>)
        else (False, ts)) = (False, grown)"
      using False by (auto simp: no_room_def grown_def split: option.split)
    then show ?thesis
      unfolding timer_insert_def Let_def x_def [symmetric]
      by (simp add: g(1) sh ts'_def insert_timer_def) (simp add: x_def)
  qed
  moreover have "length (insert_timer t xs) = timer_count ts + 1" using length_insert_timer [of t xs] sl by simp
  then have "pending ts' = insert_timer t xs" by (simp add: ts'_def pending_def)
  moreover have "timers_ok ts'"
    using g sl insert_timer_sorted [of xs t] \<open>pending ts' = insert_timer t xs\<close> \<open>length (insert_timer t xs) = timer_count ts + 1\<close>
    by (auto simp: timers_ok_def ts'_def)
  ultimately show ?thesis using False sl(3) by simp
qed

text \<open>C33: the timer list. On a well-formed list \<open>timer_add\<close> either refuses, exactly when there are
  \<open>MAX_TIMERS\<close> timers or the memory for a longer array is missing, and then leaves the list as it
  is; or it returns 0 and the list is well-formed again and one longer: the new timer stands, with its time
  not in the past, behind every timer that is not later and before every one that is. Taking
  the first timer off keeps the list well-formed and takes off the earliest.\<close>

theorem timer_list_correct:
  assumes "timers_ok ts" "\<And>n new. realloc n = Some new \<Longrightarrow> length (slots ts) + length new = n"
    and "t = \<lparr>t_time = clamp now next_time is_relative, t_period = period, t_action = action, t_arg = arg, t_cancel = cancel\<rparr>"
  shows "(if no_room realloc ts then timer_add now realloc (Some ts) next_time period is_relative action arg cancel = (True, Some ts)
      else \<exists>ts'. timer_add now realloc (Some ts) next_time period is_relative action arg cancel = (False, Some ts')
        \<and> timers_ok ts' \<and> pending ts' = insert_timer t (pending ts))
    \<and> (\<not> now > t_time t)
    \<and> (if pending ts = [] then timer_count ts = 0
       else timers_ok (shift_down ts) \<and> pending ts = slots ts ! 0 # pending (shift_down ts)
         \<and> (list_all (\<lambda>x. t_time (slots ts ! 0) \<le> t_time x) (pending ts)))"
proof -
  have "\<not> now > t_time t" by (simp add: assms(3) clamp_def)
  have c: "timer_time now next_time is_relative = t_time t" by (auto simp: assms(3) clamp_def timer_time_def max_def Let_def)
  have "pending ts = [] \<longleftrightarrow> timer_count ts = 0" using assms(1) by (auto simp: pending_def timers_ok_def)
  moreover have "list_all (\<lambda>x. t_time (slots ts ! 0) \<le> t_time x) (pending ts)" if "0 < timer_count ts"
  proof -
    have p: "pending ts = slots ts ! 0 # pending (shift_down ts)" using shift_down_ok [OF assms(1) that] by simp
    have "sorted (map t_time (pending ts))" using assms(1) by (simp add: timers_ok_def)
    then show ?thesis by (subst p, subst (asm) p) (simp add: list_all_iff)
  qed
  moreover have "new_memory realloc (length (slots ts))" using assms(2) by (simp add: new_memory_def)
  moreover have t: "\<lparr>t_time = t_time t, t_period = period, t_action = action, t_arg = arg, t_cancel = cancel\<rparr> = t" by (simp add: assms(3))
  ultimately show ?thesis
    using timer_insert_spec [OF assms(1), of realloc t] shift_down_ok [OF assms(1)] \<open>\<not> now > t_time t\<close>
    by (auto simp: timer_add_def Let_def c t split: if_splits)
qed

section \<open>What the thread does\<close>

lemma snoc_split: "xs @ [e] = pre @ a # post
    \<longleftrightarrow> post = [] \<and> xs = pre \<and> e = a \<or> (\<exists>post'. post = post' @ [e] \<and> xs = pre @ a # post')"
  by (cases post rule: rev_cases) auto

text \<open>The order in which actions run: after \<open>x\<close> has run, an earlier timer runs, or waits in \<open>ts\<close>, only if it was
  put on the list after that.\<close>

definition in_order :: "('t::linorder, 'a, 'b, 'c) ttimer list \<Rightarrow> ('t, 'a, 'b, 'c) timer_event list \<Rightarrow> bool" where
  "in_order ts log \<longleftrightarrow> (\<forall>pre d x post. log = pre @ Ran d x # post \<longrightarrow>
     (\<forall>y \<in> set ts. t_time y < t_time x \<longrightarrow> Listed y \<in> set post)
     \<and> (\<forall>mid d' y rest. post = mid @ Ran d' y # rest \<longrightarrow> t_time y < t_time x \<longrightarrow> Listed y \<in> set mid))"

lemma in_order_snoc: "in_order ts log \<Longrightarrow> set ts' \<subseteq> (case e of Listed t \<Rightarrow> insert t (set ts) | _ \<Rightarrow> set ts)
    \<Longrightarrow> (\<And>d x. e = Ran d x \<Longrightarrow> x \<in> set ts \<and> (\<forall>y \<in> set ts'. t_time x \<le> t_time y)) \<Longrightarrow> in_order ts' (log @ [e])"
  unfolding in_order_def
proof (intro allI impI conjI ballI)
  assume io: "\<forall>pre d x post. log = pre @ Ran d x # post \<longrightarrow> (\<forall>y\<in>set ts. t_time y < t_time x \<longrightarrow> Listed y \<in> set post)
      \<and> (\<forall>mid d' y rest. post = mid @ Ran d' y # rest \<longrightarrow> t_time y < t_time x \<longrightarrow> Listed y \<in> set mid)"
    and ts: "set ts' \<subseteq> (case e of Listed t \<Rightarrow> insert t (set ts) | _ \<Rightarrow> set ts)"
    and ran: "\<And>d x. e = Ran d x \<Longrightarrow> x \<in> set ts \<and> (\<forall>y \<in> set ts'. t_time x \<le> t_time y)"
  fix pre d x post
  assume log: "log @ [e] = pre @ Ran d x # post"
  {
    fix y assume y: "y \<in> set ts'" "t_time y < t_time x"
    from log consider "e = Ran d x" | post' where "post = post' @ [e]" "log = pre @ Ran d x # post'"
      by (auto simp: snoc_split)
    then show "Listed y \<in> set post"
    proof cases
      case 1
      with ran [OF 1] y show ?thesis by (simp add: leD)
    next
      case (2 post')
      with io [rule_format] ts y show ?thesis by (cases e) auto
    qed
  next
    fix mid d' y rest assume y: "post = mid @ Ran d' y # rest" "t_time y < t_time x"
    from log y(1) obtain post' where p: "mid @ Ran d' y # rest = post' @ [e]" "log = pre @ Ran d x # post'"
      by (auto simp: snoc_split)
    from p(1) [symmetric] consider "post' = mid" "e = Ran d' y" | rest' where "post' = mid @ Ran d' y # rest'"
      by (auto simp: snoc_split)
    then show "Listed y \<in> set mid"
    proof cases
      case 1
      with io [rule_format, OF p(2)] ran [OF 1(2)] y(2) show ?thesis by blast
    next
      case (2 rest')
      with io [rule_format, OF p(2)] y(2) show ?thesis by blast
    qed
  }
qed

text \<open>The invariant: the list is well-formed, what has run was due, and it ran in order.\<close>

definition timer_inv :: "('t::{linorder,plus,zero}, 'a, 'b, 'c) timer_state \<Rightarrow> bool" where
  "timer_inv s \<longleftrightarrow> timers_ok (tm_timers s) \<and> tm_d s \<le> tm_clock s
     \<and> (\<forall>d x. Ran d x \<in> set (tm_log s) \<longrightarrow> t_time x \<le> d \<and> d \<le> tm_clock s)
     \<and> in_order (pending (tm_timers s)) (tm_log s)"

lemma inserted:
  assumes "timers_ok ts" "new_memory realloc (length (slots ts))" "timer_insert realloc t ts = (e, ts')"
  shows "timers_ok ts' \<and> pending ts' = (if e then pending ts else insert_timer t (pending ts))"
  using timer_insert_spec [OF assms(1,2), of t] assms(1,3) by (auto split: if_splits)

lemma timer_inv_insert:
  assumes "timer_inv s" "new_memory realloc (length (slots (tm_timers s)))" "timer_insert realloc t (tm_timers s) = (e, ts)"
  shows "timer_inv (s\<lparr>tm_timers := ts, tm_log := tm_log s @ (if e then [] else [Listed t])\<rparr>)"
proof -
  have "timers_ok (tm_timers s)" using assms(1) by (simp add: timer_inv_def)
  note i = inserted [OF this assms(2,3)]
  have "in_order (pending (tm_timers s)) (tm_log s)" using assms(1) by (simp add: timer_inv_def)
  then have "in_order (insert_timer t (pending (tm_timers s))) (tm_log s @ [Listed t])" by (rule in_order_snoc) simp_all
  with i assms(1) show ?thesis by (auto simp: timer_inv_def)
qed

lemma timer_inv_cong: "timer_inv s \<Longrightarrow> tm_timers s' = tm_timers s \<Longrightarrow> tm_log s' = tm_log s \<Longrightarrow> tm_d s' \<le> tm_clock s'
    \<Longrightarrow> tm_clock s \<le> tm_clock s' \<Longrightarrow> timer_inv s'"
  unfolding timer_inv_def by (metis order_trans)

lemma timer_inv_released: "timer_inv s \<Longrightarrow> tm_timers s' = tm_timers s \<Longrightarrow> tm_log s' = tm_log s @ [Released t] \<Longrightarrow> tm_d s' \<le> tm_clock s'
    \<Longrightarrow> tm_clock s \<le> tm_clock s' \<Longrightarrow> timer_inv s'"
  using in_order_snoc [of "pending (tm_timers s)" "tm_log s" "pending (tm_timers s)" "Released t"]
  by (auto simp: timer_inv_def intro: order_trans)

lemma timer_inv_step: "timer_step s s' \<Longrightarrow> timer_inv s \<Longrightarrow> timer_inv s'"
proof (induction rule: timer_step.induct)
  case (fire s)
  then have c: "0 < timer_count (tm_timers s)" "t_time (slots (tm_timers s) ! 0) \<le> tm_d s" by (simp_all add: timer_due_def)
  have ok: "timers_ok (tm_timers s)" using fire by (simp add: timer_inv_def)
  have p: "timers_ok (shift_down (tm_timers s))" "pending (tm_timers s) = slots (tm_timers s) ! 0 # pending (shift_down (tm_timers s))"
    using shift_down_ok [OF ok c(1)] by simp_all
  have "sorted (map t_time (pending (tm_timers s)))" using ok by (simp add: timers_ok_def)
  then have "\<forall>t \<in> set (pending (shift_down (tm_timers s))). t_time (slots (tm_timers s) ! 0) \<le> t_time t" by (simp add: p(2))
  moreover have "in_order (pending (tm_timers s)) (tm_log s)" using fire by (simp add: timer_inv_def)
  ultimately have "in_order (pending (shift_down (tm_timers s))) (tm_log s @ [Ran (tm_d s) (slots (tm_timers s) ! 0)])"
    by (intro in_order_snoc [of "pending (tm_timers s)"]) (auto simp: p(2))
  then show ?case using fire p(1) c unfolding timer_inv_def take_due_def by auto
next
  case (sleep s)
  then show ?case by (auto intro: timer_inv_cong simp: timer_inv_def)
next
  case (wake s now)
  then show ?case by (auto intro: timer_inv_cong)
next
  case (finish s t now action_res)
  have "tm_d s \<le> tm_clock s" using finish.prems by (simp add: timer_inv_def)
  with finish show ?case by (auto simp: finish_timer_def intro: timer_inv_cong timer_inv_released)
next
  case (again s t realloc)
  obtain e ts where "timer_insert realloc t (tm_timers s) = (e, ts)" by (cases "timer_insert realloc t (tm_timers s)")
  moreover from timer_inv_insert [OF again.prems again(2) this]
  have "timer_inv (s\<lparr>tm_timers := ts, tm_log := tm_log s @ (if e then [] else [Listed t])\<rparr>)" .
  ultimately show ?case by (simp add: reschedule_def timer_inv_def)
next
  case (call s now next_time is_relative t)
  have "tm_d s \<le> tm_clock s" using call.prems by (simp add: timer_inv_def)
  with call show ?case by (auto intro: timer_inv_cong)
next
  case (enter t s realloc)
  obtain e ts where "timer_insert realloc t (tm_timers s) = (e, ts)" by (cases "timer_insert realloc t (tm_timers s)")
  moreover from timer_inv_insert [OF enter.prems enter(2) this]
  have "timer_inv (s\<lparr>tm_timers := ts, tm_log := tm_log s @ (if e then [] else [Listed t])\<rparr>)" .
  ultimately show ?case by (simp add: outside_add_def timer_inv_def)
next
  case (stop s)
  then show ?case by (auto intro: timer_inv_cong simp: timer_inv_def)
next
  case (release s u)
  have "tm_d s \<le> tm_clock s" using release.prems by (simp add: timer_inv_def)
  with release show ?case by (auto simp: release_next_def intro: timer_inv_cong timer_inv_released)
qed

lemma timer_inv_init: "timer_inv (timers_init now)"
  by (simp add: timer_inv_def timers_init_def timers_ok_def pending_def in_order_def)

lemma timer_inv_reachable: "timer_step\<^sup>*\<^sup>* (timers_init now) s \<Longrightarrow> timer_inv s"
  by (induction rule: rtranclp_induct) (auto simp: timer_inv_init intro: timer_inv_step)

text \<open>C18: timers run in order and never early. Whatever other threads and the actions themselves add
  while the timer thread works, however long a caller of \<open>timer_add\<close> waits for the lock after it has read the clock,
  and however often memory gives out: in every state that can be
  reached the list is well-formed; every action has run at a
  moment the clock has shown and not before its time; and of two actions the one with the earlier time runs first, unless it
  was put on the list only after the other had run. The same holds of what is still pending: it is
  earlier than something that has run only if it was put on the list after that.\<close>

theorem timers_run_in_order:
  assumes "timer_step\<^sup>*\<^sup>* (timers_init now) s"
  shows "timers_ok (tm_timers s)
    \<and> (\<forall>d x. Ran d x \<in> set (tm_log s) \<longrightarrow> t_time x \<le> d \<and> d \<le> tm_clock s)
    \<and> (\<forall>pre d x mid d' y post. tm_log s = pre @ Ran d x # mid @ Ran d' y # post \<longrightarrow> t_time y < t_time x \<longrightarrow> Listed y \<in> set mid)
    \<and> (\<forall>pre d x post y. tm_log s = pre @ Ran d x # post \<longrightarrow> y \<in> set (pending (tm_timers s)) \<longrightarrow> t_time y < t_time x
         \<longrightarrow> Listed y \<in> set post)"
  using timer_inv_reachable [OF assms] unfolding timer_inv_def in_order_def by blast

subsection \<open>No timer disappears\<close>

definition job :: "('t, 'a, 'b, 'c) ttimer \<Rightarrow> 'a \<times> 'b \<times> 'c option" where
  "job t = (t_action t, t_arg t, t_cancel t)"

fun released :: "('t, 'a, 'b, 'c) timer_event list \<Rightarrow> ('t, 'a, 'b, 'c) ttimer list" where
  "released [] = []"
| "released (Released t # es) = t # released es"
| "released (_ # es) = released es"

lemma released_append [simp]: "released (es @ es') = released es @ released es'"
  by (induction es rule: released.induct) simp_all

definition jobs :: "('t, 'a, 'b, 'c) ttimer list \<Rightarrow> ('a \<times> 'b \<times> 'c option) multiset" where
  "jobs ts = image_mset job (mset ts)"

lemma jobs_simps [simp]: "jobs [] = {#}" "jobs (t # ts) = add_mset (job t) (jobs ts)" "jobs (ts @ ts') = jobs ts + jobs ts'"
  by (simp_all add: jobs_def)

lemma jobs_insert [simp]: "jobs (insert_timer t ts) = add_mset (job t) (jobs ts)"
  by (simp add: jobs_def)

text \<open>What the thread still has before it: the pending timers, less those it has given back in the last loop.\<close>

definition waiting :: "('t, 'a, 'b, 'c) timer_state \<Rightarrow> ('t, 'a, 'b, 'c) ttimer list" where
  "waiting s = (case tm_thread s of Stopping u \<Rightarrow> drop u (pending (tm_timers s)) | Ended \<Rightarrow> [] | _ \<Rightarrow> pending (tm_timers s))"

text \<open>The timer the thread has taken off the list.\<close>

definition in_hand :: "('t, 'a, 'b, 'c) timer_state \<Rightarrow> ('t, 'a, 'b, 'c) ttimer list" where
  "in_hand s = (case tm_thread s of Acting t \<Rightarrow> [t] | Adding t \<Rightarrow> [t] | _ \<Rightarrow> [])"

definition timer_balance :: "('t::{linorder,plus,zero}, 'a, 'b, 'c) timer_state \<Rightarrow> bool" where
  "timer_balance s \<longleftrightarrow> tm_late s
     \<or> jobs (tm_accepted s) = jobs (waiting s) + jobs (in_hand s) + jobs (released (tm_log s)) + jobs (tm_lost s)"

lemma timer_balance_step: "timer_step s s' \<Longrightarrow> timer_inv s \<Longrightarrow> timer_balance s \<Longrightarrow> timer_balance s'"
proof (induction rule: timer_step.induct)
  case (fire s)
  then have "0 < timer_count (tm_timers s)" "timers_ok (tm_timers s)" by (simp_all add: timer_due_def timer_inv_def)
  with shift_down_ok [of "tm_timers s"] have p: "pending (tm_timers s) = slots (tm_timers s) ! 0 # pending (shift_down (tm_timers s))" by simp
  show ?case using fire unfolding timer_balance_def take_due_def by (simp add: p waiting_def in_hand_def)
next
  case (finish s t now action_res)
  then show ?case by (auto simp: finish_timer_def timer_balance_def waiting_def in_hand_def job_def)
next
  case (again s t realloc)
  obtain e ts where a: "timer_insert realloc t (tm_timers s) = (e, ts)" by (cases "timer_insert realloc t (tm_timers s)")
  have "timers_ok (tm_timers s)" using again by (simp add: timer_inv_def)
  from inserted [OF this again(2) a] show ?case
    using again(1,4) a by (auto simp: reschedule_def timer_balance_def waiting_def in_hand_def)
next
  case (enter t s realloc)
  obtain e ts where a: "timer_insert realloc t (tm_timers s) = (e, ts)" by (cases "timer_insert realloc t (tm_timers s)")
  have "timers_ok (tm_timers s)" using enter by (simp add: timer_inv_def)
  from inserted [OF this enter(2) a] show ?case
    using enter(4) a by (cases "tm_thread s") (auto simp: outside_add_def timer_balance_def waiting_def in_hand_def)
next
  case (release s u)
  have "timers_ok (tm_timers s)" using release by (simp add: timer_inv_def)
  then have l: "length (pending (tm_timers s)) = timer_count (tm_timers s)" by (simp add: timers_ok_def pending_def)
  show ?case
  proof (cases "u < timer_count (tm_timers s)")
    case True
    then have "drop u (pending (tm_timers s)) = slots (tm_timers s) ! u # drop (u + 1) (pending (tm_timers s))"
      using l by (simp add: Cons_nth_drop_Suc [symmetric]) (simp add: pending_def)
    with True release show ?thesis by (auto simp: release_next_def timer_balance_def waiting_def in_hand_def)
  next
    case False
    with l release show ?thesis by (auto simp: release_next_def timer_balance_def waiting_def in_hand_def)
  qed
next
  case (call s now next_time is_relative t)
  then show ?case by (cases "tm_thread s") (simp_all add: timer_balance_def waiting_def in_hand_def)
qed (simp_all add: timer_balance_def waiting_def in_hand_def)

lemma timer_balance_reachable: "timer_step\<^sup>*\<^sup>* (timers_init now) s \<Longrightarrow> timer_balance s"
proof (induction rule: rtranclp_induct)
  case base
  show ?case by (simp add: timer_balance_def timers_init_def pending_def waiting_def in_hand_def)
next
  case (step s s')
  then show ?case using timer_balance_step timer_inv_reachable by blast
qed

text \<open>C19: every timer is accounted for. As long as no timer has been put on the list after the main loop has ended, the
  timers that \<open>timer_add\<close> has accepted are, as a multiset of
  action, argument and cancel callback, exactly those that the thread still has before it, the one it has taken off the list and
  works on, those given back to their owner, and those whose rescheduling failed for want of
  room; so none is given back twice. When the thread has ended, nothing is before it and nothing in its hands: everything has been given back, but for
  the timers of the last kind, which never are: \<open>timer_thread_run\<close> ignores the result of
  \<open>timer_add\<close>.\<close>

theorem timers_accounted_for:
  assumes "timer_step\<^sup>*\<^sup>* (timers_init now) s" "\<not> tm_late s"
  shows "jobs (tm_accepted s) = jobs (waiting s) + jobs (in_hand s) + jobs (released (tm_log s)) + jobs (tm_lost s)
    \<and> (tm_thread s = Ended \<longrightarrow> jobs (tm_accepted s) = jobs (released (tm_log s)) + jobs (tm_lost s))"
  using timer_balance_reachable [OF assms(1)] assms(2) by (simp add: timer_balance_def waiting_def in_hand_def)

subsection \<open>Runs\<close>

text \<open>Two callers have read the clock at 0, one for the time 3 and one for the time 5. The second gets the lock; the clock reaches 7,
  its action runs, and only then does the first one get the lock.\<close>

definition a_timer :: "(nat, string, nat, string) ttimer" where
  "a_timer = \<lparr>t_time = 5, t_period = 10, t_action = ''beep'', t_arg = 42, t_cancel = Some ''free''\<rparr>"

definition b_timer :: "(nat, string, nat, string) ttimer" where
  "b_timer = a_timer\<lparr>t_time := 3, t_arg := 43\<rparr>"

definition memory :: "nat \<Rightarrow> (nat, string, nat, string) ttimer list option" where
  "memory n = (if n = 1 then Some [a_timer] else None)"

definition both_called :: "(nat, string, nat, string) timer_state" where
  "both_called = (timers_init 0)\<lparr>tm_calls := [a_timer, b_timer]\<rparr>"

definition one_listed :: "(nat, string, nat, string) timer_state" where
  "one_listed = both_called\<lparr>tm_timers := \<lparr>slots = [a_timer], timer_count = 1, timer_capacity = 1\<rparr>, tm_calls := [b_timer],
     tm_log := [Listed a_timer], tm_accepted := [a_timer]\<rparr>"

definition one_running :: "(nat, string, nat, string) timer_state" where
  "one_running = take_due (one_listed\<lparr>tm_d := 7, tm_clock := 7\<rparr>)"

lemma one_listed_reachable: "timer_step\<^sup>*\<^sup>* (timers_init 0) one_listed"
proof -
  have "timer_step (timers_init 0) ((timers_init 0)\<lparr>tm_clock := 0, tm_calls := b_timer\<lparr>t_time := timer_time 0 3 False\<rparr> # []\<rparr>)"
    using timer_step.call [of "timers_init (0 :: nat)" 0 3 False b_timer] by (simp add: timers_init_def)
  also have "\<dots> = (timers_init 0)\<lparr>tm_calls := [b_timer]\<rparr>" by (simp add: timers_init_def timer_time_def b_timer_def)
  finally have "timer_step (timers_init 0) ((timers_init 0)\<lparr>tm_calls := [b_timer]\<rparr>)" .
  moreover have "timer_step ((timers_init 0)\<lparr>tm_calls := [b_timer]\<rparr>) both_called"
    using timer_step.call [of "(timers_init (0 :: nat))\<lparr>tm_calls := [b_timer]\<rparr>" 0 5 False a_timer]
    by (simp add: timers_init_def timer_time_def both_called_def a_timer_def)
  moreover have "outside_add memory a_timer both_called = one_listed"
    by (simp add: outside_add_def both_called_def one_listed_def timers_init_def timer_insert_def memory_def MAX_TIMERS_def)
  then have "timer_step both_called one_listed"
    using timer_step.enter [of a_timer both_called memory] by (simp add: both_called_def timers_init_def new_memory_def memory_def)
  ultimately show ?thesis by (meson rtranclp.rtrancl_into_rtrancl rtranclp.rtrancl_refl)
qed

lemma one_running_reachable: "timer_step\<^sup>*\<^sup>* (timers_init 0) one_running"
proof -
  have s: "one_listed = one_listed\<lparr>tm_thread := Looping\<rparr>" by (simp add: one_listed_def both_called_def timers_init_def)
  have "timer_step one_listed (one_listed\<lparr>tm_thread := Sleeping\<rparr>)"
    by (rule timer_step.sleep) (simp_all add: one_listed_def both_called_def timers_init_def timer_due_def a_timer_def)
  moreover have "timer_step (one_listed\<lparr>tm_thread := Sleeping\<rparr>) (one_listed\<lparr>tm_d := 7, tm_clock := 7\<rparr>)"
    using timer_step.wake [of "one_listed\<lparr>tm_thread := Sleeping\<rparr>" 7] by (simp add: one_listed_def both_called_def timers_init_def)
  moreover have "timer_step (one_listed\<lparr>tm_d := 7, tm_clock := 7\<rparr>) one_running" unfolding one_running_def
    by (rule timer_step.fire) (simp_all add: one_listed_def both_called_def timers_init_def timer_due_def a_timer_def)
  ultimately show ?thesis using one_listed_reachable by (meson rtranclp.rtrancl_into_rtrancl)
qed

lemma one_running_is: "one_running = \<lparr>tm_timers = \<lparr>slots = [a_timer], timer_count = 0, timer_capacity = 1\<rparr>, tm_d = 7,
    tm_thread = Acting a_timer, tm_clock = 7, tm_calls = [b_timer], tm_log = [Listed a_timer, Ran 7 a_timer],
    tm_accepted = [a_timer], tm_lost = [], tm_late = False\<rparr>"
  by (simp add: one_running_def take_due_def one_listed_def both_called_def timers_init_def shift_down_def)

definition both_listed :: "(nat, string, nat, string) timer_state" where
  "both_listed = one_running\<lparr>tm_timers := \<lparr>slots = [b_timer], timer_count = 1, timer_capacity = 1\<rparr>, tm_calls := [],
     tm_log := tm_log one_running @ [Listed b_timer], tm_accepted := [a_timer, b_timer]\<rparr>"

lemma both_listed_step: "timer_step one_running both_listed"
proof -
  have "outside_add (\<lambda>n. None) b_timer one_running = both_listed"
    by (simp add: outside_add_def one_running_is both_listed_def timer_insert_def MAX_TIMERS_def)
  then show ?thesis using timer_step.enter [of b_timer one_running "\<lambda>n. None"] by (simp add: one_running_is new_memory_def)
qed

text \<open>A timer gets into the past: the clock is read and compared before the lock is taken.\<close>

lemma timer_into_the_past:
  "\<exists>s s'. timer_step\<^sup>*\<^sup>* (timers_init (0 :: nat)) s \<and> timer_step s s' \<and> tm_log s' = tm_log s @ [Listed b_timer] \<and> t_time b_timer < tm_clock s"
  by (intro exI [of _ one_running] exI [of _ both_listed])
    (simp add: one_running_reachable both_listed_step, simp add: both_listed_def one_running_is b_timer_def)

definition both_ran :: "(nat, string, nat, string) timer_state" where
  "both_ran = take_due (finish_timer 7 0 a_timer both_listed)"

lemma both_ran_is: "both_ran = \<lparr>tm_timers = \<lparr>slots = [b_timer], timer_count = 0, timer_capacity = 1\<rparr>, tm_d = 7,
    tm_thread = Acting b_timer, tm_clock = 7, tm_calls = [],
    tm_log = [Listed a_timer, Ran 7 a_timer, Listed b_timer, Released a_timer, Ran 7 b_timer],
    tm_accepted = [a_timer, b_timer], tm_lost = [], tm_late = False\<rparr>"
  by (simp add: both_ran_def finish_timer_def both_listed_def one_running_is take_due_def shift_down_def)

lemma both_ran_reachable: "timer_step\<^sup>*\<^sup>* (timers_init 0) both_ran"
proof -
  have "timer_step both_listed (finish_timer 7 0 a_timer both_listed)"
    by (rule timer_step.finish) (simp_all add: both_listed_def one_running_is)
  moreover have "timer_step (finish_timer 7 0 a_timer both_listed) both_ran" unfolding both_ran_def
    by (rule timer_step.fire) (simp_all add: finish_timer_def both_listed_def one_running_is timer_due_def b_timer_def)
  ultimately show ?thesis
    using one_running_reachable both_listed_step by (meson rtranclp.rtrancl_into_rtrancl)
qed

theorem timers_run_in_order_witness:
  "\<exists>s. timer_step\<^sup>*\<^sup>* (timers_init (0 :: nat)) s
    \<and> tm_log s = [Listed a_timer] @ Ran 7 a_timer # [Listed b_timer, Released a_timer] @ Ran 7 b_timer # []
    \<and> t_time b_timer < t_time a_timer \<and> Listed b_timer \<in> set [Listed b_timer, Released a_timer]
    \<and> t_time b_timer \<le> 7 \<and> timers_ok (tm_timers s)"
proof -
  note o = timers_run_in_order [OF both_ran_reachable]
  have log: "tm_log both_ran = [Listed a_timer] @ Ran 7 a_timer # [Listed b_timer, Released a_timer] @ Ran 7 b_timer # []"
    by (simp add: both_ran_is)
  have lt: "t_time b_timer < t_time a_timer" by (simp add: b_timer_def a_timer_def)
  have "Listed b_timer \<in> set [Listed b_timer, Released a_timer]" using o [THEN conjunct2, THEN conjunct2, THEN conjunct1] log lt by blast
  moreover have "t_time b_timer \<le> 7" using o [THEN conjunct2, THEN conjunct1, rule_format, of 7 b_timer] log by simp
  ultimately show ?thesis using both_ran_reachable log lt o [THEN conjunct1] by blast
qed

theorem timers_accounted_for_witness:
  "\<exists>s. timer_step\<^sup>*\<^sup>* (timers_init (0 :: nat)) s \<and> \<not> tm_late s \<and> in_hand s = [b_timer]
    \<and> jobs (tm_accepted s) = {#(''beep'', 43, Some ''free''), (''beep'', 42, Some ''free'')#}"
proof -
  have "\<not> tm_late both_ran" by (simp add: both_ran_is)
  with timers_accounted_for [OF both_ran_reachable this] both_ran_reachable show ?thesis
    by (intro exI [of _ both_ran]) (simp add: both_ran_is in_hand_def waiting_def pending_def job_def a_timer_def b_timer_def)
qed

text \<open>A timer is given back twice: the thread has left its main loop and given back the first timer of the list, when another thread
  puts an earlier one on it, and the list moves under the loop.\<close>

lemma cancelled_twice:
  "\<exists>s. timer_step\<^sup>*\<^sup>* (timers_init (0 :: nat)) s \<and> tm_accepted s = [a_timer, b_timer] \<and> released (tm_log s) = [a_timer, a_timer]"
proof -
  let ?memory = "\<lambda>n. if n = 3 then Some [a_timer, a_timer] else None"
  define s1 where "s1 = release_next 0 (one_listed\<lparr>tm_thread := Stopping 0\<rparr>)"
  define s2 where "s2 = outside_add ?memory b_timer s1"
  have s1: "s1 = one_listed\<lparr>tm_thread := Stopping 1, tm_log := [Listed a_timer, Released a_timer]\<rparr>"
    by (simp add: s1_def release_next_def one_listed_def both_called_def timers_init_def)
  have s2: "s2 = s1\<lparr>tm_timers := \<lparr>slots = [b_timer, a_timer, a_timer], timer_count = 2, timer_capacity = 3\<rparr>, tm_calls := [],
      tm_log := tm_log s1 @ [Listed b_timer], tm_accepted := [a_timer, b_timer], tm_late := True\<rparr>"
    by (simp add: s2_def outside_add_def s1 one_listed_def both_called_def timers_init_def timer_insert_def MAX_TIMERS_def
        a_timer_def b_timer_def)
  have "timer_step one_listed (one_listed\<lparr>tm_thread := Stopping 0\<rparr>)"
    by (rule timer_step.stop) (simp add: one_listed_def both_called_def timers_init_def)
  moreover have "timer_step (one_listed\<lparr>tm_thread := Stopping 0\<rparr>) s1" unfolding s1_def by (rule timer_step.release) simp
  moreover have "timer_step s1 s2" unfolding s2_def
    by (rule timer_step.enter) (simp_all add: s1 one_listed_def new_memory_def split: if_splits)
  moreover have "timer_step s2 (release_next 1 s2)" by (rule timer_step.release) (simp add: s2 s1)
  ultimately have "timer_step\<^sup>*\<^sup>* (timers_init 0) (release_next 1 s2)"
    using one_listed_reachable by (meson rtranclp.rtrancl_into_rtrancl)
  moreover have "tm_accepted (release_next 1 s2) = [a_timer, b_timer]" "released (tm_log (release_next 1 s2)) = [a_timer, a_timer]"
    by (simp_all add: release_next_def s2 s1)
  ultimately show ?thesis by blast
qed

theorem timer_list_correct_witness:
  "\<exists>ts'. timer_add 3 (\<lambda>n. None) (Some \<lparr>slots = [a_timer, a_timer\<lparr>t_time := 9\<rparr>, a_timer], timer_count = 2, timer_capacity = 3\<rparr>)
      2 0 True ''tick'' 1 None = (False, Some ts') \<and> timers_ok ts' \<and> map t_time (pending ts') = [5, 5, 9]"
proof -
  let ?ts = "\<lparr>slots = [a_timer, a_timer\<lparr>t_time := 9\<rparr>, a_timer], timer_count = 2, timer_capacity = 3\<rparr>"
  let ?t = "\<lparr>t_time = clamp 3 (2 :: nat) True, t_period = 0, t_action = ''tick'', t_arg = 1, t_cancel = None\<rparr>"
  have ok: "timers_ok ?ts" by (simp add: timers_ok_def pending_def MAX_TIMERS_def a_timer_def numeral_2_eq_2)
  have "\<not> no_room (\<lambda>n. None) ?ts" by (simp add: no_room_def MAX_TIMERS_def)
  with timer_list_correct [of ?ts "\<lambda>n. None" ?t 3 2 True 0 "''tick''" 1 None] ok obtain ts' where
    "timer_add 3 (\<lambda>n. None) (Some ?ts) 2 0 True ''tick'' 1 None = (False, Some ts')" "timers_ok ts'"
    "pending ts' = insert_timer ?t (pending ?ts)" by auto
  moreover have "map t_time (insert_timer ?t (pending ?ts)) = [5, 5, 9]"
    by (simp add: insert_timer_def pending_def a_timer_def clamp_def numeral_2_eq_2)
  ultimately show ?thesis by auto
qed

end
