(* ===== verification/Acl.thy ===== *)
theory Acl
  imports Headers
begin

text \<open>
  The access control list: \<open>parse_match_net\<close> matches an address with a subnet, and \<open>check_acl\<close>
  decides about a peer. Only IPv4 is modelled (\<open>USE_IPV6\<close> is not set); the peer's address is in
  host order, or \<open>None\<close> for a peer of another address family.
\<close>

section \<open>The code\<close>

text \<open>\<open>sscanf\<close>: \<open>%u\<close>, which takes the low 32 bits of what \<open>strtoul\<close> reads, a literal character, and
  four numbers with dots between them.\<close>

definition scan_u :: "string \<Rightarrow> (nat \<times> string) option" where
  "scan_u s = (case strtoul10 s of (n, rest) \<Rightarrow> if rest = s then None else Some (n mod 4294967296, rest))"

definition scan_char :: "char \<Rightarrow> string \<Rightarrow> string option" where
  "scan_char c s = (case s of [] \<Rightarrow> None | x # rest \<Rightarrow> if x = c then Some rest else None)"

definition scan_dotted :: "string \<Rightarrow> ((nat \<times> nat \<times> nat \<times> nat) \<times> string) option" where
  "scan_dotted s =
     do {
       (a, s) \<leftarrow> scan_u s;
       s \<leftarrow> scan_char (CHR ''.'') s;
       (b, s) \<leftarrow> scan_u s;
       s \<leftarrow> scan_char (CHR ''.'') s;
       (c, s) \<leftarrow> scan_u s;
       s \<leftarrow> scan_char (CHR ''.'') s;
       (d, s) \<leftarrow> scan_u s;
       Some ((a, b, c, d), s)
     }"

text \<open>The two \<open>sscanf\<close> calls: the numbers, the length of the prefix and the text behind what was
  converted; \<open>n == vec->len\<close> is that nothing is left.\<close>

definition scan_net :: "string \<Rightarrow> ((nat \<times> nat \<times> nat \<times> nat) \<times> nat \<times> string) option" where
  "scan_net vec =
     (case scan_dotted vec of
        None \<Rightarrow> None
      | Some (quad, rest) \<Rightarrow>
          (case Option.bind (scan_char (CHR ''/'') rest) scan_u of
             Some (slash, rest) \<Rightarrow> Some (quad, slash, rest)
           | None \<Rightarrow> Some (quad, 32, rest)))"

definition parse_match_net :: "string \<Rightarrow> u32 option \<Rightarrow> int" where
  "parse_match_net vec sa =
     (case scan_net vec of
        Some ((a, b, c, d), slash, []) \<Rightarrow>
          if a < 256 \<and> b < 256 \<and> c < 256 \<and> d < 256 \<and> slash < 33
          then (case sa of
                  None \<Rightarrow> 0
                | Some ip \<Rightarrow>
                    let net = push_bit 24 (word_of_nat a) OR push_bit 16 (word_of_nat b) OR push_bit 8 (word_of_nat c) OR word_of_nat d;
                        mask = (if slash \<noteq> 0 then push_bit (32 - slash) 0xFFFFFFFF else 0)
                    in if ip AND mask = net then 1 else 0)
          else -1
      | _ \<Rightarrow> -1)"

text \<open>The loop over the list: \<open>-1\<close> for a malformed element, else whether the last match allows.\<close>

function acl_loop :: "string \<Rightarrow> u32 option \<Rightarrow> char \<Rightarrow> int" where
  "acl_loop list sa allowed =
     (case next_option False list of
        None \<Rightarrow> if allowed = CHR ''+'' then 1 else 0
      | Some (vec, _, list) \<Rightarrow>
          let flag = hd vec;
              matched = (if flag = CHR ''+'' \<or> flag = CHR ''-'' then parse_match_net (tl vec) sa else -1)
          in if matched < 0 then -1
             else acl_loop list sa (if matched \<noteq> 0 then flag else allowed))"
  by pat_completeness auto
termination
  by (relation "measure (\<lambda>(list, sa, allowed). length list)") (auto dest: next_option_shorter)

declare acl_loop.simps [simp del]

definition check_acl :: "string option \<Rightarrow> u32 option \<Rightarrow> int" where
  "check_acl access_control_list sa =
     (case access_control_list of None \<Rightarrow> 1 | Some list \<Rightarrow> acl_loop list sa (CHR ''-''))"

section \<open>Numbers and addresses\<close>

lemma scan_u_decimal:
  assumes "n < 4294967296" "rest = [] \<or> \<not> isdigit (hd rest)"
  shows "scan_u (decimal n @ rest) = Some (n, rest)"
proof -
  note d = decimal_digits [of n]
  obtain x xs where x: "decimal n = x # xs" using d by (cases "decimal n") auto
  then have nd: "\<not> isspace x" "x \<noteq> CHR ''-''" "x \<noteq> CHR ''+''" using isdigit_facts [of x] d by auto
  have tw: "takeWhile isdigit (decimal n @ rest) = decimal n" "dropWhile isdigit (decimal n @ rest) = rest"
    using d assms(2) by (cases rest; auto simp: list_all_iff takeWhile_append dropWhile_append)+
  have "dropWhile isspace (decimal n @ rest) = decimal n @ rest" "deref (decimal n @ rest) = x" using x nd by simp_all
  then have "strtoul10 (decimal n @ rest) = (n, rest)"
    using nd d assms(1) unfolding strtoul10_def Let_def by (simp add: tw)
  then show ?thesis using d assms(1) by (simp add: scan_u_def)
qed

definition dotted :: "nat \<Rightarrow> nat \<Rightarrow> nat \<Rightarrow> nat \<Rightarrow> string" where
  "dotted a b c d = decimal a @ ''.'' @ decimal b @ ''.'' @ decimal c @ ''.'' @ decimal d"

definition address :: "nat \<Rightarrow> nat \<Rightarrow> nat \<Rightarrow> nat \<Rightarrow> nat" where
  "address a b c d = 16777216 * a + 65536 * b + 256 * c + d"

lemma scan_dotted_spec:
  assumes "a < 256" "b < 256" "c < 256" "d < 256" "rest = [] \<or> \<not> isdigit (hd rest)"
  shows "scan_dotted (dotted a b c d @ rest) = Some ((a, b, c, d), rest)"
proof -
  have dot: "\<not> isdigit (CHR ''.'')" by code_simp
  have s: "scan_u (decimal n @ CHR ''.'' # t) = Some (n, CHR ''.'' # t)" if "n < 256" for n t
    using scan_u_decimal [of n "CHR ''.'' # t"] dot that by simp
  show ?thesis using assms s scan_u_decimal [of d rest] by (simp add: scan_dotted_def dotted_def scan_char_def)
qed

lemma quad_word:
  assumes "a < 256" "b < 256" "c < 256" "d < 256"
  shows "unat (push_bit 24 (word_of_nat a) OR push_bit 16 (word_of_nat b) OR push_bit 8 (word_of_nat c) OR word_of_nat d :: u32)
    = address a b c d"
proof -
  have or_add: "push_bit n x OR y = 2 ^ n * x + y" if "y < 2 ^ n" for n x y :: nat
  proof -
    have y: "take_bit n y = y" using that by (simp add: take_bit_nat_eq_self)
    have "push_bit n x AND take_bit n y = 0" by (rule bit_eqI) (auto simp: bit_simps)
    then have "push_bit n x + y = push_bit n x OR y" unfolding y by (rule disjunctive_add_eq_or)
    then show ?thesis by (simp add: push_bit_eq_mult mult.commute)
  qed
  have u: "unat (push_bit n (word_of_nat x) :: u32) = push_bit n x" if "x < 256" "n \<le> 24" for n x
  proof -
    have "(2 :: nat) ^ n \<le> 2 ^ 24" using that(2) by (rule power_increasing) simp
    then have "x * 2 ^ n \<le> 255 * 2 ^ 24" using that(1) by (intro mult_le_mono) simp_all
    then have "take_bit 32 (push_bit n x) = push_bit n x" by (simp add: take_bit_nat_eq_self push_bit_eq_mult)
    moreover have "unat (word_of_nat x :: u32) = x" using that(1) by (simp add: unat_of_nat take_bit_nat_eq_self)
    ultimately show ?thesis by (simp add: unsigned_push_bit_eq)
  qed
  have "unat (push_bit 24 (word_of_nat a) OR push_bit 16 (word_of_nat b) OR push_bit 8 (word_of_nat c) OR word_of_nat d :: u32)
    = push_bit 24 a OR (push_bit 16 b OR (push_bit 8 c OR d))"
    using u [OF assms(1), of 24] u [OF assms(2), of 16] u [OF assms(3), of 8] u [OF assms(4), of 0]
    by (simp add: unsigned_or_eq or.assoc)
  also have "push_bit 8 c OR d = 256 * c + d" using or_add [of d 8 c] assms by simp
  also have "push_bit 16 b OR (256 * c + d) = 65536 * b + (256 * c + d)" using or_add [of "256 * c + d" 16 b] assms by simp
  also have "push_bit 24 a OR (65536 * b + (256 * c + d)) = 16777216 * a + (65536 * b + (256 * c + d))"
    using or_add [of "65536 * b + (256 * c + d)" 24 a] assms by simp
  finally show ?thesis by (simp add: address_def)
qed

lemma and_high_bits:
  assumes "k \<le> 32"
  shows "unat (ip AND push_bit k 0xFFFFFFFF :: u32) = unat ip div 2 ^ k * 2 ^ k"
proof -
  have m: "(0xFFFFFFFF :: u32) = -1" by simp
  have ul: "unat ip < 4294967296" using unsigned_less [of ip] by simp
  have "ip AND push_bit k (-1) = push_bit k (drop_bit k ip)"
    by (rule bit_word_eqI) (auto simp: bit_simps)
  moreover have "unat ip div 2 ^ k * 2 ^ k \<le> unat ip" by simp
  then have "unat ip div 2 ^ k * 2 ^ k < 4294967296" using ul by (rule le_less_trans)
  then have "take_bit 32 (push_bit k (unat ip div 2 ^ k)) = unat ip div 2 ^ k * 2 ^ k"
    by (simp add: take_bit_nat_eq_self push_bit_eq_mult)
  moreover have "unat (drop_bit k ip) = unat ip div 2 ^ k"
    using ul by (simp only: unsigned_drop_bit_eq) (simp add: drop_bit_eq_div take_bit_nat_eq_self)
  ultimately show ?thesis unfolding m by (simp only: unsigned_push_bit_eq) simp
qed

text \<open>The text of a subnet; without a prefix length it is one address.\<close>

definition subnet_text :: "nat \<Rightarrow> nat \<Rightarrow> nat \<Rightarrow> nat \<Rightarrow> nat option \<Rightarrow> string" where
  "subnet_text a b c d slash = dotted a b c d @ (case slash of None \<Rightarrow> [] | Some s \<Rightarrow> ''/'' @ decimal s)"

lemma parse_match_net_spec:
  assumes "a < 256" "b < 256" "c < 256" "d < 256" "k = (case slash of None \<Rightarrow> 32 | Some s \<Rightarrow> s)" "k \<le> 32"
  shows "parse_match_net (subnet_text a b c d slash) (Some ip)
    = (if unat ip div 2 ^ (32 - k) * 2 ^ (32 - k) = address a b c d then 1 else 0)"
proof -
  have sl: "\<not> isdigit (CHR ''/'')" by code_simp
  have net: "scan_net (subnet_text a b c d slash) = Some ((a, b, c, d), k, [])"
  proof (cases slash)
    case None
    then show ?thesis using scan_dotted_spec [OF assms(1-4), of "[]"] assms(5)
      by (simp add: scan_net_def subnet_text_def scan_char_def)
  next
    case (Some s)
    have "scan_u (decimal s) = Some (s, [])" using scan_u_decimal [of s "[]"] assms(5,6) Some by simp
    then show ?thesis using scan_dotted_spec [OF assms(1-4), of "CHR ''/'' # decimal s"] assms(5) Some sl
      by (simp add: scan_net_def subnet_text_def scan_char_def)
  qed
  define w :: u32 where "w = push_bit 24 (word_of_nat a) OR push_bit 16 (word_of_nat b) OR push_bit 8 (word_of_nat c) OR word_of_nat d"
  define m :: u32 where "m = (if k \<noteq> 0 then push_bit (32 - k) 0xFFFFFFFF else 0)"
  have "unat (ip AND m) = unat ip div 2 ^ (32 - k) * 2 ^ (32 - k)"
  proof (cases "k = 0")
    case True
    moreover have "unat ip < 4294967296" using unsigned_less [of ip] by simp
    ultimately show ?thesis by (simp add: m_def)
  next
    case False
    then show ?thesis using and_high_bits [of "32 - k" ip] by (simp add: m_def)
  qed
  moreover have "unat w = address a b c d" unfolding w_def by (rule quad_word [OF assms(1-4)])
  moreover have "ip AND m = w \<longleftrightarrow> unat (ip AND m) = unat w" by (auto intro: unsigned_word_eqI)
  moreover have "parse_match_net (subnet_text a b c d slash) (Some ip) = (if ip AND m = w then 1 else 0)"
    using assms(1-4,6) by (simp add: parse_match_net_def net w_def m_def Let_def)
  ultimately show ?thesis by simp
qed

section \<open>The list\<close>

lemma find_append: "find P (xs @ ys) = (case find P xs of None \<Rightarrow> find P ys | Some x \<Rightarrow> Some x)"
  by (induction xs) auto

text \<open>An element that cannot be read, and one that matches the peer.\<close>

definition malformed :: "u32 option \<Rightarrow> string \<Rightarrow> bool" where
  "malformed sa v \<longleftrightarrow> hd v \<notin> set ''+-'' \<or> parse_match_net (tl v) sa < 0"

definition matching :: "u32 option \<Rightarrow> string \<Rightarrow> bool" where
  "matching sa v \<longleftrightarrow> parse_match_net (tl v) sa = 1"

lemma parse_match_net_range: "parse_match_net vec sa \<in> {-1, 0, 1}"
  by (auto simp: parse_match_net_def Let_def split: option.split list.split)

lemma acl_loop_items:
  "acl_loop list sa allowed =
     (if list_ex (malformed sa) (items list) then -1
      else if (case find (matching sa) (rev (items list)) of None \<Rightarrow> allowed | Some v \<Rightarrow> hd v) = CHR ''+'' then 1 else 0)"
proof (induction "items list" arbitrary: list allowed)
  case Nil
  then have "next_option False list = None" using next_option_items [of False list] by simp
  then show ?case by (subst acl_loop.simps) (simp add: Nil [symmetric])
next
  case (Cons v vs)
  then obtain list' where n: "next_option False list = Some (v, None, list')" "items list' = vs"
    using next_option_items [of False list] by (auto split: list.splits)
  show ?case
  proof (cases "malformed sa v")
    case True
    then have "acl_loop list sa allowed = -1" using parse_match_net_range [of "tl v" sa]
      by (subst acl_loop.simps) (auto simp: n malformed_def Let_def)
    then show ?thesis using True by (simp add: Cons(2) [symmetric])
  next
    case False
    then have "acl_loop list sa allowed = acl_loop list' sa (if matching sa v then hd v else allowed)"
      using parse_match_net_range [of "tl v" sa] by (subst acl_loop.simps) (auto simp: n malformed_def matching_def Let_def)
    then show ?thesis
      using False Cons(1) [OF n(2) [symmetric], of "if matching sa v then hd v else allowed"]
      by (auto simp: Cons(2) [symmetric] n(2) find_append split: option.split)
  qed
qed

text \<open>C32: access control. Without a list every peer is allowed. With any list, an element that is not
  a sign and a subnet makes the answer \<open>-1\<close>; otherwise the last element that matches the peer decides,
  and a peer that nothing matches is refused. A subnet \<open>a.b.c.d/k\<close>, with \<open>k\<close> up to 32 and 32 when it is
  left out, matches exactly the addresses whose first \<open>k\<close> bits, followed by zeros, are \<open>a.b.c.d\<close>; so a
  subnet written with a bit set behind the prefix matches no address.\<close>

theorem check_acl_last_match:
  "check_acl None sa = 1
   \<and> check_acl (Some list) sa =
       (if list_ex (malformed sa) (items list) then -1
        else case find (matching sa) (rev (items list)) of None \<Rightarrow> 0 | Some v \<Rightarrow> if hd v = CHR ''+'' then 1 else 0)
   \<and> (if a < 256 \<and> b < 256 \<and> c < 256 \<and> d < 256 \<and> (case slash of None \<Rightarrow> True | Some s \<Rightarrow> s \<le> 32)
      then parse_match_net (subnet_text a b c d slash) (Some ip)
        = (let h = 2 ^ (32 - (case slash of None \<Rightarrow> 32 | Some s \<Rightarrow> s))
           in if unat ip div h * h = address a b c d then 1 else 0)
      else True)"
  using parse_match_net_spec [of a b c d "case slash of None \<Rightarrow> 32 | Some s \<Rightarrow> s" slash ip]
  by (auto simp: check_acl_def acl_loop_items Let_def split: option.split)

end
