(* ===== verification/App.thy ===== *)
theory App
  imports Handlers Stdio Replies
begin

text \<open>
  The application itself, \<^verbatim>\<open>civetwebapp.c\<close>: its request handler, which writes the state of the
  invasion as a page (one heading for every field of the log file), and the registration of the
  handler in \<open>main\<close>. A file is its contents, \<open>None\<close> when it cannot be opened.
\<close>

section \<open>The code\<close>

definition log_file :: string where
  "log_file = ''alien_log.txt''"

definition line_size :: nat where
  "line_size = 1024"

definition response_head :: string where
  "response_head = ''HTTP/1.1 200 OK'' @ CRLF @ ''Content-Type: text/html'' @ CRLF @ ''Connection: close'' @ CRLF @ CRLF"

definition page_start :: "string list" where
  "page_start =
     [''<!DOCTYPE html>'' @ [LF], ''<html>'' @ [LF], ''<head>'' @ [LF], ''<title>Alien Invasion</title>'' @ [LF],
      ''<script>'' @ [LF], ''function autoRefresh() {'' @ [LF], ''window.location = window.location.href;'' @ [LF],
      ''}'' @ [LF], ''window.onload = function() {'' @ [LF],
      ''var scrollingElement = (document.scrollingElement || document.body);'' @ [LF],
      ''scrollingElement.scrollTop = scrollingElement.scrollHeight;'' @ [LF], ''}'' @ [LF],
      ''setInterval('' @ [CHR 39] @ ''autoRefresh()'' @ [CHR 39] @ '', 3000);'' @ [LF], ''</script>'' @ [LF], ''</head>'' @ [LF],
      ''<body style='' @ [DQUOTE] @ ''color:#00FF00; background-color:#000000'' @ [DQUOTE] @ ''>'' @ [LF]]"

definition page_end :: "string list" where
  "page_end = [''</body>'' @ [LF], ''</html>'' @ [LF]]"

definition heading :: "string \<Rightarrow> string" where
  "heading w = ''<h1>'' @ w @ ''</h1>'' @ [LF]"

text \<open>The inner loop, over the words of the string that is in the line buffer.\<close>

definition print_words :: "(nat \<Rightarrow> bool) \<Rightarrow> char list \<Rightarrow> mg_connection \<Rightarrow> mg_connection" where
  "print_words malloc line conn =
     fold (\<lambda>w c. mg_printf malloc c (heading w)) (strtok_words CHR '','' (takeWhile (\<lambda>c. c \<noteq> NUL) line)) conn"

function print_lines :: "(nat \<Rightarrow> bool) \<Rightarrow> char list \<Rightarrow> mg_connection \<Rightarrow> mg_connection" where
  "print_lines malloc fp conn =
     (case fgets line_size fp of
        None \<Rightarrow> conn
      | Some (line, fp) \<Rightarrow> print_lines malloc fp (print_words malloc line conn))"
  by pat_completeness auto
termination
  by (relation "measure (\<lambda>(malloc, fp, conn). length fp)") (auto dest: fgets_shorter simp: line_size_def)

declare print_lines.simps [simp del]

definition handler :: "(nat \<Rightarrow> bool) \<Rightarrow> (string \<Rightarrow> char list option) \<Rightarrow> mg_connection \<Rightarrow> int \<times> mg_connection" where
  "handler malloc fopen conn =
     (let print = (\<lambda>s c. mg_printf malloc c s);
          conn = print response_head conn;
          conn = fold print page_start conn
      in case fopen log_file of
           None \<Rightarrow> (200, fold print page_end (print (heading ''Invasion has not started.'') conn))
         | Some fp \<Rightarrow>
             let conn = print (heading []) conn;
                 conn = print_lines malloc fp conn
             in (200, fold print page_end conn))"

text \<open>What \<open>main\<close> registers; \<open>h\<close> and \<open>arg\<close> are the addresses of \<open>handler\<close> and of its argument.\<close>

definition app_uri :: string where
  "app_uri = ''/AlienInvasion''"

definition register_app :: "nat option \<Rightarrow> nat \<Rightarrow> nat \<Rightarrow> mg_handler_info list \<Rightarrow> bool \<times> mg_handler_info list" where
  "register_app malloc h arg = mg_set_request_handler malloc app_uri (Some h) (Some arg)"

section \<open>The page\<close>

lemma print_lines_pieces:
  "print_lines malloc fp conn = fold (print_words malloc) (pieces line_size fp) conn"
proof (induction malloc fp conn rule: print_lines.induct)
  case (1 malloc fp conn)
  show ?case
  proof (cases "fgets line_size fp")
    case None
    then have "fp = []" by simp
    then show ?thesis by (subst print_lines.simps) (simp add: fgets_def)
  next
    case (Some p)
    obtain line rest where p: "p = (line, rest)" by fastforce
    have "1 < line_size" by (simp add: line_size_def)
    with "1.IH" [OF Some p [symmetric]] Some p show ?thesis
      by (subst print_lines.simps, subst pieces.simps) simp
  qed
qed

definition log_headings :: "char list \<Rightarrow> string list" where
  "log_headings fp =
     map heading (concat (map (\<lambda>l. strtok_words CHR '','' (takeWhile (\<lambda>c. c \<noteq> NUL) l)) (pieces line_size fp)))"

definition page_parts :: "char list option \<Rightarrow> string list" where
  "page_parts fp =
     page_start @ (case fp of None \<Rightarrow> [heading ''Invasion has not started.''] | Some fp \<Rightarrow> heading [] # log_headings fp) @ page_end"

lemma print_words_parts:
  "fold (print_words malloc) ls conn
    = fold (\<lambda>s c. mg_printf malloc c s)
        (map heading (concat (map (\<lambda>l. strtok_words CHR '','' (takeWhile (\<lambda>c. c \<noteq> NUL) l)) ls))) conn"
  by (induction ls arbitrary: conn) (simp_all add: print_words_def fold_map comp_def)

lemma handler_parts:
  "handler malloc fopen conn = (200, fold (\<lambda>s c. mg_printf malloc c s) (response_head # page_parts (fopen log_file)) conn)"
  by (simp add: handler_def Let_def page_parts_def log_headings_def print_lines_pieces print_words_parts split: option.split)

lemma prints_accept:
  "writer_ok (length (concat ss) + m) c \<Longrightarrow> \<forall>s \<in> set ss. s \<noteq> [] \<Longrightarrow> int (length (concat ss)) \<le> INT_MAX \<Longrightarrow>
   net_out (fold (\<lambda>s c. mg_printf (\<lambda>n. True) c s) ss c) = net_out c @ concat ss
   \<and> writer_ok m (fold (\<lambda>s c. mg_printf (\<lambda>n. True) c s) ss c) \<and> frame (fold (\<lambda>s c. mg_printf (\<lambda>n. True) c s) ss c) = frame c"
proof (induction ss arbitrary: c)
  case (Cons s ss)
  have "writer_ok (length s + (length (concat ss) + m)) c" "s \<noteq> []" "int (length s) \<le> INT_MAX"
    using Cons.prems by (simp_all add: add.assoc)
  from mg_printf_accepts [OF this] Cons.IH [of "mg_printf (\<lambda>n. True) c s"] Cons.prems show ?case by simp
qed simp

lemma page_parts_nonempty: "\<forall>s \<in> set (response_head # page_parts fp). s \<noteq> []"
  by (auto simp: page_parts_def response_head_def page_start_def page_end_def heading_def log_headings_def split: option.splits)

text \<open>A log of lines that fit into the buffer: a heading for every field that is not empty,
  line by line; the last field of a line keeps the line feed.\<close>

lemma log_headings_lines:
  assumes "\<forall>l \<in> set ls. LF \<notin> set l \<and> NUL \<notin> set l \<and> length l + 1 < line_size"
  shows "log_headings (concat (map (\<lambda>l. l @ [LF]) ls))
    = map heading (concat (map (\<lambda>l. filter (\<lambda>w. w \<noteq> []) (split_on CHR '','' (l @ [LF]))) ls))"
  using assms
proof (induction ls)
  case Nil
  show ?case by (simp add: log_headings_def)
next
  case (Cons l ls)
  have "takeWhile (\<lambda>c. c \<noteq> NUL) (l @ [LF]) = l @ [LF]" using Cons.prems by (auto intro!: takeWhile_eq_all_conv [THEN iffD2])
  then show ?case using Cons by (simp add: log_headings_def pieces_line strtok_words_split)
qed

lemma decimal_200: "decimal 200 = ''200''"
  by code_simp

lemma response_head_render:
  "response_head = render_response ''1.1'' 200 ''OK'' [(''Content-Type'', ''text/html''), (''Connection'', ''close'')]"
  by (simp add: response_head_def render_response_def status_line_def header_line_def decimal_200)

lemma handler_page:
  assumes "writer_ok (length (response_head @ concat (page_parts (fopen log_file))) + m) c"
    and "int (length (response_head @ concat (page_parts (fopen log_file)))) \<le> INT_MAX"
  shows "\<exists>c'. handler (\<lambda>n. True) fopen c = (200, c')
    \<and> net_out c' = net_out c @ response_head @ concat (page_parts (fopen log_file))
    \<and> writer_ok m c' \<and> frame c' = frame c"
  using prints_accept [of "response_head # page_parts (fopen log_file)" m c] page_parts_nonempty [of "fopen log_file"] assms
  by (simp add: handler_parts)

end
