(* ===== verification/Files.thy ===== *)
theory Files
  imports Auth Uri
begin

text \<open>
  From the URI to a file: \<open>interpret_uri\<close>, which joins the document root and the cleaned URI,
  applies the rewrite patterns, looks for index files, compressed files and scripts with sub-resources,
  and \<open>must_hide_file\<close>. The file system is the function \<open>stat_call\<close>, the system call \<open>stat\<close>.

  A path buffer is a list of characters with its terminator; the part of it that has not been
  written is filled with zeros here, and is never read.
\<close>

section \<open>The code\<close>

record file_stat =
  f_size :: nat
  f_modified :: int
  f_directory :: bool
  f_gzipped :: bool

definition no_stat :: file_stat where
  "no_stat = \<lparr>f_size = 0, f_modified = 0, f_directory = False, f_gzipped = False\<rparr>"

text \<open>The settings of the domain that \<open>interpret_uri\<close> reads; \<open>alloc_path\<close> tells whether there is
  memory for the copy of the path.\<close>

record site =
  DOCUMENT_ROOT :: "string option"
  WEBSOCKET_ROOT :: "string option"
  URL_REWRITE_PATTERN :: "string option"
  INDEX_FILES :: "string option"
  CGI_PATTERNS :: "string option list"
  SSI_EXTENSIONS :: "string option"
  ALLOW_INDEX_SCRIPT_SUB_RES :: string
  HIDE_FILES :: "string option"
  stat_call :: "string \<Rightarrow> file_stat option"
  alloc_path :: bool

definition mg_path_suspicious :: "string \<Rightarrow> bool" where
  "mg_path_suspicious path \<longleftrightarrow> path = []"

definition mg_stat :: "site \<Rightarrow> string \<Rightarrow> file_stat option" where
  "mg_stat st path =
     (if mg_path_suspicious path then None
      else case stat_call st path of None \<Rightarrow> None | Some f \<Rightarrow> Some (f\<lparr>f_gzipped := False\<rparr>))"

definition is_put_or_delete_method :: "string option \<Rightarrow> bool" where
  "is_put_or_delete_method m = (case m of None \<Rightarrow> False | Some s \<Rightarrow> s = ''PUT'' \<or> s = ''DELETE'' \<or> s = ''MKCOL'' \<or> s = ''PATCH'')"

definition extention_matches_script :: "site \<Rightarrow> string \<Rightarrow> bool" where
  "extention_matches_script st filename = list_ex (\<lambda>p. p \<noteq> None \<and> 0 < match_prefix_strlen p filename) (CGI_PATTERNS st)"

definition extention_matches_template_text :: "site \<Rightarrow> string \<Rightarrow> bool" where
  "extention_matches_template_text st filename \<longleftrightarrow> 0 < match_prefix_strlen (SSI_EXTENSIONS st) filename"

definition must_hide_file :: "site \<Rightarrow> string \<Rightarrow> bool" where
  "must_hide_file st path \<longleftrightarrow>
     0 < match_prefix_strlen (Some (''**'' @ PASSWORDS_FILE_NAME @ ''$'')) path \<or> 0 < match_prefix_strlen (HIDE_FILES st) path"

subsection \<open>Index files\<close>

definition put_str :: "char list \<Rightarrow> nat \<Rightarrow> char list \<Rightarrow> char list" where
  "put_str mem i s = take i mem @ s @ drop (i + length s) mem"

fun skip_back :: "char list \<Rightarrow> nat \<Rightarrow> nat" where
  "skip_back path 0 = 0"
| "skip_back path (Suc n) = (if path ! n = CHR ''/'' then skip_back path n else Suc n)"

text \<open>The loop over the list of index files; \<open>st\<close> is what is in \<open>*filestat\<close>.\<close>

function index_loop ::
    "site \<Rightarrow> nat \<Rightarrow> nat \<Rightarrow> string \<Rightarrow> char list \<Rightarrow> file_stat \<Rightarrow> bool \<times> char list \<times> file_stat" where
  "index_loop S path_len n list path st =
     (case next_option False list of
        None \<Rightarrow> (False, path, st)
      | Some (filename_vec, _, list') \<Rightarrow>
          if path_len - (n + 1) < length filename_vec + 1 then index_loop S path_len n list' path st
          else let path = put_str path (n + 1) (filename_vec @ [NUL])
               in case mg_stat S (str_at path 0) of
                    Some f \<Rightarrow> (True, path, f)
                  | None \<Rightarrow> index_loop S path_len n list' path no_stat)"
  by pat_completeness auto
termination
  by (relation "measure (\<lambda>(S, path_len, n, list, path, st). length list)") (auto dest: next_option_shorter)

declare index_loop.simps [simp del]

definition substitute_index_file :: "site \<Rightarrow> char list \<Rightarrow> nat \<Rightarrow> file_stat \<Rightarrow> bool \<times> char list \<times> file_stat" where
  "substitute_index_file S path path_len st =
     (let n = skip_back path (length (str_at path 0));
          path = path[n := CHR ''/''];
          (found, path, st) = index_loop S path_len n (case INDEX_FILES S of None \<Rightarrow> [] | Some l \<Rightarrow> l) path st
      in (found, if found then path else path[n := NUL], st))"

subsection \<open>Scripts with sub-resources\<close>

text \<open>The loop of step 10: what it finds at a slash of the path. \<open>Hidden\<close>: the index file of a
  directory above the path is not a script.\<close>

datatype sub_resource = Nothing | Script string string | Hidden string | Too_long

fun script_loop :: "site \<Rightarrow> bool \<Rightarrow> string \<Rightarrow> char list \<Rightarrow> nat \<Rightarrow> file_stat \<Rightarrow> sub_resource \<times> file_stat" where
  "script_loop S allow filename tmp_str 0 st = (Nothing, st)"
| "script_loop S allow filename tmp_str (Suc sep) st =
     (if tmp_str ! sep \<noteq> CHR ''/'' then script_loop S allow filename tmp_str sep st
      else let tmp_str = tmp_str[sep := NUL];
               s = str_at tmp_str 0;
               is_script = (s \<noteq> [] \<and> extention_matches_script S s);
               exists = (s \<noteq> [] \<and> mg_stat S s \<noteq> None);
               st = (if s = [] then st else case mg_stat S s of None \<Rightarrow> no_stat | Some f \<Rightarrow> f)
           in if exists \<and> is_script then (Script (take sep filename) (CHR ''/'' # drop (sep + 1) filename), st)
              else if allow
              then let (found, tmp_str, st) = substitute_index_file S tmp_str (length filename + UTF8_PATH_MAX) st
                   in if found
                      then let script = str_at tmp_str 0; subres = drop sep filename
                           in if extention_matches_script S script
                              then if UTF8_PATH_MAX \<le> length script + length subres + 2 then (Too_long, st)
                                   else (Script script subres, st)
                              else (Hidden (take sep filename), st)
                      else script_loop S allow filename (tmp_str[sep := CHR ''/'']) sep st
              else script_loop S allow filename (tmp_str[sep := CHR ''/'']) sep st)"

subsection \<open>The interpretation\<close>

text \<open>The outputs of \<open>interpret_uri\<close>; \<open>path_info\<close> and \<open>accept_gzip\<close> are fields of the connection.\<close>

record interpreted =
  i_path :: string
  i_stat :: file_stat
  i_found :: bool
  i_script :: bool
  i_ws :: bool
  i_put :: bool
  i_template :: bool
  i_path_info :: "string option"
  i_gzip :: bool

definition strstr :: "string \<Rightarrow> string \<Rightarrow> bool" where
  "strstr s p = list_ex (\<lambda>k. take (length p) (drop k s) = p) [0..<Suc (length s)]"

function rewritten :: "string \<Rightarrow> string \<Rightarrow> string option" where
  "rewritten uri list =
     (case next_option True list of
        None \<Rightarrow> None
      | Some (a, b, list') \<Rightarrow>
          let match_len = match_prefix a uri
          in if 0 < match_len then Some ((case b of None \<Rightarrow> [] | Some b \<Rightarrow> b) @ drop (nat match_len) uri)
             else rewritten uri list')"
  by pat_completeness auto
termination
  by (relation "measure (\<lambda>(uri, list). length list)") (auto dest: next_option_shorter)

declare rewritten.simps [simp del]

definition cleaned_up :: "interpreted \<Rightarrow> interpreted" where
  "cleaned_up r = r\<lparr>i_stat := no_stat, i_path := [], i_found := False, i_script := False, i_ws := False, i_put := False\<rparr>"

text \<open>Step 8 for a file that exists.\<close>

definition existing_file :: "site \<Rightarrow> string \<Rightarrow> file_stat \<Rightarrow> interpreted \<Rightarrow> interpreted" where
  "existing_file S uri f r =
     (let slash = (uri \<noteq> [] \<and> last uri = CHR ''/'');
          r = r\<lparr>i_found := True, i_stat := f\<rparr>;
          r = (if extention_matches_script S (i_path r) then r\<lparr>i_script := \<not> i_put r\<rparr> else r);
          r = (if extention_matches_template_text S (i_path r) then r\<lparr>i_template := \<not> i_put r\<rparr> else r)
      in if f_directory f \<and> slash
         then let buf = put_str (replicate UTF8_PATH_MAX NUL) 0 (i_path r);
                  (found, path, tmp) = substitute_index_file S buf UTF8_PATH_MAX no_stat;
                  r = r\<lparr>i_path := str_at path 0\<rparr>
              in if \<not> found then r
                 else let r = r\<lparr>i_stat := tmp\<rparr>
                      in if extention_matches_script S (i_path r) then r\<lparr>i_script := True\<rparr>
                         else if extention_matches_template_text S (i_path r) then r\<lparr>i_template := True\<rparr>
                         else (case mg_stat S (i_path r) of
                                 None \<Rightarrow> r\<lparr>i_script := False, i_found := False, i_stat := no_stat\<rparr>
                               | Some f \<Rightarrow> r\<lparr>i_script := False, i_found := True, i_stat := f\<rparr>)
         else r)"

text \<open>Step 10, for a path where there is nothing.\<close>

definition sub_resources :: "site \<Rightarrow> interpreted \<Rightarrow> interpreted" where
  "sub_resources S r =
     (if \<not> alloc_path S then cleaned_up r
      else let filename = i_path r;
               tmp_str = filename @ replicate (UTF8_PATH_MAX + 1) NUL;
               allow = (mg_strcasecmp (ALLOW_INDEX_SCRIPT_SUB_RES S) ''yes'' = 0);
               (res, st) = script_loop S allow filename tmp_str (length filename) (i_stat r);
               r = r\<lparr>i_stat := st\<rparr>
           in case res of
                Nothing \<Rightarrow> r
              | Script p info \<Rightarrow> r\<lparr>i_path := p, i_path_info := Some info, i_script := True, i_found := True\<rparr>
              | Hidden p \<Rightarrow> r\<lparr>i_path := p, i_path_info := None, i_script := False, i_found := False\<rparr>
              | Too_long \<Rightarrow> cleaned_up r)"

text \<open>Steps 1 to 4, and the root directory that step 3 chooses.\<close>

definition first_outputs :: "string option \<Rightarrow> mg_connection \<Rightarrow> interpreted" where
  "first_outputs req_method conn =
     \<lparr>i_path = [], i_stat = no_stat, i_found = False, i_script = False, i_ws = (proto_type conn = PROTOCOL_TYPE_WEBSOCKET),
      i_put = is_put_or_delete_method req_method, i_template = False, i_path_info = None,
      i_gzip = (case mg_get_header (Some conn) ''Accept-Encoding'' of None \<Rightarrow> False | Some e \<Rightarrow> strstr e ''gzip'')\<rparr>"

definition root_of :: "site \<Rightarrow> mg_connection \<Rightarrow> string option" where
  "root_of S conn =
     (if proto_type conn = PROTOCOL_TYPE_WEBSOCKET \<and> WEBSOCKET_ROOT S \<noteq> None then WEBSOCKET_ROOT S else DOCUMENT_ROOT S)"

definition interpret_uri :: "site \<Rightarrow> string option \<Rightarrow> mg_connection \<Rightarrow> string \<Rightarrow> interpreted" where
  "interpret_uri S req_method conn uri =
     (let r = first_outputs req_method conn
      in case root_of S conn of
           None \<Rightarrow> r
         | Some root \<Rightarrow>
             if UTF8_PATH_MAX - 1 \<le> length (root @ uri) then cleaned_up r
             else let filename = (case rewritten uri (case URL_REWRITE_PATTERN S of None \<Rightarrow> [] | Some l \<Rightarrow> l) of
                                    None \<Rightarrow> root @ uri | Some f \<Rightarrow> f)
                  in if UTF8_PATH_MAX - 1 \<le> length filename then cleaned_up r
                     else let r = r\<lparr>i_path := filename\<rparr>
                          in case mg_stat S filename of
                               Some f \<Rightarrow> existing_file S uri f r
                             | None \<Rightarrow>
                                 if i_gzip r
                                 then if UTF8_PATH_MAX \<le> length (filename @ ''.gz'') then cleaned_up r
                                      else (case mg_stat S (filename @ ''.gz'') of
                                              Some f \<Rightarrow> r\<lparr>i_stat := f\<lparr>f_gzipped := True\<rparr>, i_found := True\<rparr>
                                            | None \<Rightarrow> sub_resources S r)
                                 else sub_resources S r)"

section \<open>Inside the document root\<close>

definition no_climb :: "string \<Rightarrow> bool" where
  "no_climb s \<longleftrightarrow> ''..'' \<notin> set (split_on CHR ''/'' s)"

definition inside_root :: "string \<Rightarrow> string \<Rightarrow> bool" where
  "inside_root root path \<longleftrightarrow> (\<exists>rest. path = root @ rest \<and> no_climb rest)"

text \<open>A path without the slashes at its end.\<close>

definition stem :: "string \<Rightarrow> string" where
  "stem s = rev (dropWhile (\<lambda>c. c = CHR ''/'') (rev s))"

lemma split_on_sep: "split_on d (u @ d # v) = split_on d u @ split_on d v"
proof (induction u)
  case Nil
  then show ?case by simp
next
  case (Cons x u)
  then show ?case by (cases "split_on d u") auto
qed

lemma no_climb_sep: "no_climb (u @ CHR ''/'' # v) \<longleftrightarrow> no_climb u \<and> no_climb v"
  by (simp add: no_climb_def split_on_sep)

lemma no_climb_Nil [simp]: "no_climb []"
  by (simp add: no_climb_def)

lemma stem_append: "\<exists>w. s = stem s @ w \<and> set w \<subseteq> {CHR ''/''}"
proof (intro exI [of _ "rev (takeWhile (\<lambda>c. c = CHR ''/'') (rev s))"] conjI)
  have "rev s = takeWhile (\<lambda>c. c = CHR ''/'') (rev s) @ dropWhile (\<lambda>c. c = CHR ''/'') (rev s)" by simp
  then show "s = stem s @ rev (takeWhile (\<lambda>c. c = CHR ''/'') (rev s))" unfolding stem_def by (metis rev_append rev_rev_ident)
  show "set (rev (takeWhile (\<lambda>c. c = CHR ''/'') (rev s))) \<subseteq> {CHR ''/''}" by (auto dest: set_takeWhileD)
qed

lemma no_climb_stem: "no_climb s \<Longrightarrow> no_climb (stem s)"
proof -
  assume s: "no_climb s"
  obtain w where w: "s = stem s @ w" "set w \<subseteq> {CHR ''/''}" using stem_append by blast
  show ?thesis
  proof (cases w)
    case Nil
    then show ?thesis using w s by simp
  next
    case (Cons c w')
    then show ?thesis using w s no_climb_sep [of "stem s" w'] by auto
  qed
qed

lemma stem_root: "root \<noteq> [] \<Longrightarrow> last root \<noteq> CHR ''/'' \<Longrightarrow> stem (root @ s) = root @ stem s"
proof -
  assume r: "root \<noteq> []" "last root \<noteq> CHR ''/''"
  then have "rev root \<noteq> []" "hd (rev root) \<noteq> CHR ''/''" by (simp_all add: hd_rev)
  then have "dropWhile (\<lambda>c. c = CHR ''/'') (rev root) = rev root" by (cases "rev root") auto
  moreover have "dropWhile (\<lambda>c. c = CHR ''/'') (rev s @ rev root)
      = (if \<forall>x\<in>set s. x = CHR ''/'' then rev root else dropWhile (\<lambda>c. c = CHR ''/'') (rev s) @ rev root)"
    using calculation by (induction "rev s" arbitrary: s) (auto simp: dropWhile_append)
  ultimately show ?thesis by (auto simp: stem_def dropWhile_eq_Nil_conv [THEN iffD2])
qed

subsection \<open>Index files\<close>

lemma skip_back_stem: "n \<le> length path \<Longrightarrow> take (skip_back path n) path = stem (take n path) \<and> skip_back path n \<le> n"
proof (induction n)
  case (Suc n)
  then have t: "take (Suc n) path = take n path @ [path ! n]" by (simp add: take_Suc_conv_app_nth)
  show ?case
  proof (cases "path ! n = CHR ''/''")
    case True
    then show ?thesis using Suc unfolding t by (simp add: stem_def)
  next
    case False
    then have "stem (take (Suc n) path) = take (Suc n) path" unfolding t by (simp add: stem_def)
    then show ?thesis using False by simp
  qed
qed (simp add: stem_def)

lemma next_option_item:
  "next_option False list = Some (v, x, list') \<Longrightarrow> set (items list) = insert v (set (items list'))"
  using next_option_items [where list = list and eq = False] by (auto split: list.splits)

lemma index_loop_spec:
  "index_loop S L n list path st = (found, path', st') \<Longrightarrow> L \<le> length path \<Longrightarrow> n + 1 < L \<Longrightarrow>
   take (n + 1) path = b @ ''/'' \<Longrightarrow> cstring b \<Longrightarrow> (\<forall>v \<in> set (items list). cstring v) \<Longrightarrow>
   take (n + 1) path' = b @ ''/'' \<and> length path' = length path
   \<and> (found \<longrightarrow> (\<exists>v \<in> set (items list). str_at path' 0 = b @ CHR ''/'' # v \<and> mg_stat S (str_at path' 0) = Some st'))
   \<and> (\<not> found \<longrightarrow> (\<forall>v \<in> set (items list). n + 2 + length v \<le> L \<longrightarrow> mg_stat S (b @ CHR ''/'' # v) = None))"
proof (induction S L n list path st rule: index_loop.induct)
  case (1 S L n list path st)
  show ?case
  proof (cases "next_option False list")
    case None
    moreover from None have "items list = []" using next_option_items [where list = list and eq = False] by (auto split: list.splits)
    ultimately show ?thesis using 1 by (subst (asm) (3) index_loop.simps) simp
  next
    case (Some p)
    obtain v x list' where p: "p = (v, x, list')" by (metis prod_cases3)
    note v = next_option_item [OF Some [unfolded p]]
    show ?thesis
    proof (cases "L - (n + 1) < length v + 1")
      case True
      have "index_loop S L n list' path st = (found, path', st')"
        using "1.prems"(1) Some p True by (subst (asm) index_loop.simps) simp
      from "1.IH"(1) [OF Some p [symmetric] refl True this] "1.prems" v True show ?thesis by auto
    next
      case False
      define path1 where "path1 = put_str path (n + 1) (v @ [NUL])"
      have l: "n + 1 + length v + 1 \<le> length path" using False "1.prems"(2,3) by simp
      have cv: "cstring v" using v "1.prems"(6) by blast
      have p1: "path1 = b @ CHR ''/'' # v @ NUL # drop (n + 1 + length v + 1) path"
        unfolding path1_def put_str_def using "1.prems"(4) by simp
      have bn: "length b = n" using "1.prems"(2,3,4) by (metis One_nat_def Suc_eq_plus1 add_left_cancel length_append_singleton
            length_take less_or_eq_imp_le min.absorb2 nat.inject order_trans)
      have s1: "str_at path1 0 = b @ CHR ''/'' # v"
        using str_at_0 [of "b @ CHR ''/'' # v" "drop (n + 1 + length v + 1) path"] "1.prems"(5) cv
        unfolding p1 by (simp add: cstring_def)
      have l1: "length path1 = length path" using l bn by (simp add: p1)
      have t1: "take (n + 1) path1 = b @ ''/''" unfolding p1 using bn by simp
      show ?thesis
      proof (cases "mg_stat S (str_at path1 0)")
        case None
        have run: "index_loop S L n list' path1 no_stat = (found, path', st')"
          using "1.prems"(1) Some p False None by (subst (asm) index_loop.simps) (simp add: path1_def)
        from "1.IH"(2) [OF Some p [symmetric] refl False path1_def None run] "1.prems" v l1 t1 None s1
        show ?thesis by auto
      next
        case (Some f)
        have "found \<and> path' = path1 \<and> st' = f"
          using "1.prems"(1) \<open>next_option False list = Some p\<close> p False Some
          by (subst (asm) index_loop.simps) (simp add: path1_def)
        then show ?thesis using v s1 t1 l1 Some by auto
      qed
    qed
  qed
qed

definition index_names :: "site \<Rightarrow> string list" where
  "index_names S = (case INDEX_FILES S of None \<Rightarrow> [] | Some l \<Rightarrow> items l)"

lemma substitute_spec:
  assumes "substitute_index_file S mem L st = (found, mem', st')"
    and "length (str_at mem 0) + 1 < L" "L \<le> length mem" "\<forall>v \<in> set (index_names S). cstring v"
  shows "(found \<longrightarrow> (\<exists>v \<in> set (index_names S). str_at mem' 0 = stem (str_at mem 0) @ CHR ''/'' # v
        \<and> mg_stat S (str_at mem' 0) = Some st'))
    \<and> (\<not> found \<longrightarrow> str_at mem' 0 = stem (str_at mem 0)
        \<and> (\<forall>v \<in> set (index_names S). length (stem (str_at mem 0)) + 2 + length v \<le> L
             \<longrightarrow> mg_stat S (stem (str_at mem 0) @ CHR ''/'' # v) = None))"
proof -
  define s where "s = str_at mem 0"
  define n where "n = skip_back mem (length s)"
  define list where "list = (case INDEX_FILES S of None \<Rightarrow> [] | Some l \<Rightarrow> l)"
  have ts: "take (length s) mem = s" unfolding s_def str_at_def by (metis drop_0 takeWhile_eq_take)
  have sl: "length s \<le> length mem" using assms(2,3) by (simp add: s_def)
  have n: "take n mem = stem s" "n \<le> length s" using skip_back_stem [OF sl] by (simp_all add: n_def ts)
  have nl: "n < length mem" "n + 1 < L" using n(2) assms(2,3) by (simp_all add: s_def)
  have ln: "length (stem s) = n" using n nl by (metis length_take min.absorb2 less_imp_le)
  have cs: "cstring (stem s)"
    using n cstring_take [of s n] ts cstring_str_at [of mem 0] unfolding s_def [symmetric] by (metis min.absorb1 take_take)
  define mem1 where "mem1 = mem[n := CHR ''/'']"
  have t1: "take (n + 1) mem1 = stem s @ ''/''" using n nl by (simp add: mem1_def take_Suc_conv_app_nth)
  obtain mem2 where loop: "index_loop S L n list mem1 st = (found, mem2, st')"
    and mem': "mem' = (if found then mem2 else mem2[n := NUL])"
    using assms(1) unfolding substitute_index_file_def Let_def s_def [symmetric] n_def [symmetric] list_def [symmetric] mem1_def [symmetric]
    by (auto split: prod.splits)
  have names: "set (index_names S) = set (items list)"
    by (auto simp: index_names_def list_def items_def trim_def trim_end_def split: option.splits)
  have "L \<le> length mem1" using assms(3) by (simp add: mem1_def)
  from index_loop_spec [OF loop this nl(2) t1 cs] assms(4)
  have r: "take (n + 1) mem2 = stem s @ ''/''" "length mem2 = length mem1"
    "found \<longrightarrow> (\<exists>v \<in> set (items list). str_at mem2 0 = stem s @ CHR ''/'' # v \<and> mg_stat S (str_at mem2 0) = Some st')"
    "\<not> found \<longrightarrow> (\<forall>v \<in> set (items list). n + 2 + length v \<le> L \<longrightarrow> mg_stat S (stem s @ CHR ''/'' # v) = None)"
    unfolding names by blast+
  have "str_at (mem2[n := NUL]) 0 = stem s"
  proof (rule str_atI [OF cs, of 0 _ "drop (n + 1) mem2"])
    have "take n mem2 = stem s" using arg_cong [OF r(1), of "take n"] ln by simp
    then show "drop 0 (mem2[n := NUL]) = stem s @ NUL # drop (n + 1) mem2"
      using r(2) nl(1) by (simp add: mem1_def upd_conv_take_nth_drop)
  qed
  then show ?thesis using r(3,4) unfolding mem' s_def [symmetric] names ln by auto
qed

lemma str_at_padded: "cstring s \<Longrightarrow> 0 < k \<Longrightarrow> str_at (s @ replicate k NUL) 0 = s"
  by (cases k) simp_all

lemma inside_stem: "inside_root root path \<Longrightarrow> root \<noteq> [] \<Longrightarrow> last root \<noteq> CHR ''/'' \<Longrightarrow> inside_root root (stem path)"
  using no_climb_stem stem_root by (auto simp: inside_root_def)

lemma inside_sep: "inside_root root path \<Longrightarrow> no_climb v \<Longrightarrow> inside_root root (path @ CHR ''/'' # v)"
  using no_climb_sep by (auto simp: inside_root_def)

lemma existing_file_inside:
  assumes "inside_root root (i_path r)" "root \<noteq> []" "last root \<noteq> CHR ''/''" "cstring (i_path r)"
    and "length (i_path r) < UTF8_PATH_MAX - 1" "\<forall>v \<in> set (index_names S). cstring v \<and> no_climb v"
  shows "inside_root root (i_path (existing_file S uri f r))"
proof (cases "f_directory f \<and> uri \<noteq> [] \<and> last uri = CHR ''/''")
  case False
  then show ?thesis using assms(1) by (auto simp: existing_file_def Let_def)
next
  case True
  define buf where "buf = put_str (replicate UTF8_PATH_MAX NUL) 0 (i_path r)"
  have b: "buf = i_path r @ replicate (UTF8_PATH_MAX - length (i_path r)) NUL" by (simp add: buf_def put_str_def)
  have s: "str_at buf 0 = i_path r" using str_at_padded [OF assms(4)] assms(5) unfolding b by simp
  obtain found path tmp where sub: "substitute_index_file S buf UTF8_PATH_MAX no_stat = (found, path, tmp)" by (metis prod_cases3)
  have "length (str_at buf 0) + 1 < UTF8_PATH_MAX" "UTF8_PATH_MAX \<le> length buf" using s assms(5) by (simp_all add: b)
  from substitute_spec [OF sub this] assms(6) s have
    "(\<exists>v. no_climb v \<and> str_at path 0 = stem (i_path r) @ CHR ''/'' # v) \<or> str_at path 0 = stem (i_path r)"
    by (cases found) auto
  then have "inside_root root (str_at path 0)"
    using inside_sep inside_stem [OF assms(1-3)] by auto
  then show ?thesis using True
    by (auto simp: existing_file_def Let_def buf_def [symmetric] sub split: option.split)
qed

subsection \<open>Scripts\<close>

lemma script_loop_spec:
  "script_loop S False filename tmp k st = (res, st') \<Longrightarrow> k \<le> length filename \<Longrightarrow> tmp = filename @ replicate m NUL \<Longrightarrow>
   cstring filename \<Longrightarrow>
   res = Nothing \<or> (\<exists>sep < k. filename ! sep = CHR ''/'' \<and> res = Script (take sep filename) (drop sep filename)
     \<and> extention_matches_script S (take sep filename) \<and> mg_stat S (take sep filename) \<noteq> None)"
proof (induction k arbitrary: st)
  case (Suc sep)
  have t: "tmp ! sep = filename ! sep" using Suc.prems(2,3) by (simp add: nth_append)
  show ?case
  proof (cases "filename ! sep = CHR ''/''")
    case False
    then show ?thesis using Suc t by (auto simp: less_Suc_eq)
  next
    case True
    have "str_at (tmp[sep := NUL]) 0 = take sep filename"
    proof (rule str_atI [of _ 0 _ "drop (sep + 1) tmp"])
      show "drop 0 (tmp[sep := NUL]) = take sep filename @ NUL # drop (sep + 1) tmp"
        using Suc.prems(2,3) by (simp add: upd_conv_take_nth_drop)
    qed (use Suc.prems(4) in blast)
    moreover have "tmp[sep := NUL, sep := CHR ''/''] = tmp" using True t by simp (metis list_update_id)
    moreover have "CHR ''/'' # drop (sep + 1) filename = drop sep filename"
      using Suc.prems(2) True by (metis Cons_nth_drop_Suc Suc_eq_plus1 Suc_le_lessD)
    ultimately show ?thesis
      using Suc.prems(1) Suc.IH [OF _ Suc_leD [OF Suc.prems(2)] Suc.prems(3,4)] t True
      by (auto simp: Let_def less_Suc_eq split: if_splits)
  qed
qed simp

lemma cut_inside:
  assumes "inside_root root path" "path ! sep = CHR ''/''" "sep < length path"
  shows "inside_root root (take sep path) \<or> (\<exists>t. root = take sep path @ CHR ''/'' # t)"
proof -
  obtain rest where p: "path = root @ rest" "no_climb rest" using assms(1) by (auto simp: inside_root_def)
  show ?thesis
  proof (cases "sep < length root")
    case True
    then have "root = take sep path @ CHR ''/'' # drop (Suc sep) root"
      using assms(2) unfolding p(1) by (simp add: nth_append) (metis id_take_nth_drop)
    then show ?thesis by blast
  next
    case False
    define k where "k = sep - length root"
    have "rest = take k rest @ CHR ''/'' # drop (Suc k) rest" using False assms(2,3) unfolding p(1)
      by (simp add: nth_append k_def) (metis id_take_nth_drop less_diff_conv2 linorder_not_less add.commute)
    then have "no_climb (take k rest)" using p(2) no_climb_sep by metis
    moreover have "take sep path = root @ take k rest" using False by (simp add: p(1) k_def)
    ultimately show ?thesis by (auto simp: inside_root_def)
  qed
qed

definition above_root :: "site \<Rightarrow> string \<Rightarrow> string \<Rightarrow> bool" where
  "above_root S root path \<longleftrightarrow>
     extention_matches_script S path \<and> mg_stat S path \<noteq> None \<and> (\<exists>t. root = path @ CHR ''/'' # t)"

lemma sub_resources_inside:
  assumes "inside_root root (i_path r)" "cstring (i_path r)" "mg_strcasecmp (ALLOW_INDEX_SCRIPT_SUB_RES S) ''yes'' \<noteq> 0"
    and "\<not> i_script r"
  shows "i_path (sub_resources S r) = [] \<or> inside_root root (i_path (sub_resources S r))
    \<or> i_script (sub_resources S r) \<and> above_root S root (i_path (sub_resources S r))"
proof (cases "alloc_path S")
  case False
  then show ?thesis by (simp add: sub_resources_def cleaned_up_def)
next
  case True
  obtain res st where run: "script_loop S False (i_path r) (i_path r @ replicate (UTF8_PATH_MAX + 1) NUL) (length (i_path r)) (i_stat r) = (res, st)"
    by fastforce
  from script_loop_spec [OF this le_refl refl assms(2)] consider "res = Nothing"
    | sep where "sep < length (i_path r)" "i_path r ! sep = CHR ''/''"
        "res = Script (take sep (i_path r)) (drop sep (i_path r))"
        "extention_matches_script S (take sep (i_path r))" "mg_stat S (take sep (i_path r)) \<noteq> None" by blast
  then show ?thesis
  proof cases
    case 1
    then show ?thesis using assms run True by (simp add: sub_resources_def Let_def)
  next
    case 2
    then show ?thesis using cut_inside [OF assms(1) 2(2,1)] run True assms(3)
      by (auto simp: sub_resources_def above_root_def Let_def)
  qed
qed

lemma interpret_uri_file:
  assumes "root_of S conn = Some root" "URL_REWRITE_PATTERN S = None" "length (root @ uri) < UTF8_PATH_MAX - 1"
    and "r = (first_outputs m conn)\<lparr>i_path := root @ uri\<rparr>"
  shows "interpret_uri S m conn uri =
    (case mg_stat S (root @ uri) of
       Some f \<Rightarrow> existing_file S uri f r
     | None \<Rightarrow> if i_gzip r
               then if UTF8_PATH_MAX \<le> length (root @ uri @ ''.gz'') then cleaned_up (first_outputs m conn)
                    else (case mg_stat S (root @ uri @ ''.gz'') of
                            Some f \<Rightarrow> r\<lparr>i_stat := f\<lparr>f_gzipped := True\<rparr>, i_found := True\<rparr>
                          | None \<Rightarrow> sub_resources S r)
               else sub_resources S r)"
proof -
  have "rewritten uri [] = None" by (subst rewritten.simps) (simp add: next_option.simps)
  moreover have "cleaned_up (q\<lparr>i_path := p\<rparr>) = cleaned_up q" for q p by (simp add: cleaned_up_def)
  ultimately show ?thesis using assms by (simp add: interpret_uri_def Let_def cong: option.case_cong)
qed

lemma files_inside:
  assumes "root_of S conn = Some root" "root \<noteq> []" "last root \<noteq> CHR ''/''" "cstring root" "URL_REWRITE_PATTERN S = None"
    and "cstring uri" "no_climb uri" "\<forall>v \<in> set (index_names S). cstring v \<and> no_climb v"
    and "mg_strcasecmp (ALLOW_INDEX_SCRIPT_SUB_RES S) ''yes'' \<noteq> 0" "r = interpret_uri S m conn uri"
  shows "i_path r = [] \<or> inside_root root (i_path r) \<or> i_script r \<and> above_root S root (i_path r)"
proof (cases "UTF8_PATH_MAX - 1 \<le> length (root @ uri)")
  case True
  then show ?thesis using assms(1,10) by (simp add: interpret_uri_def cleaned_up_def Let_def)
next
  case False
  have inside: "inside_root root (root @ uri)" using assms(7) by (auto simp: inside_root_def)
  have cs: "cstring (root @ uri)" using assms(4,6) by (simp add: cstring_def)
  define q where "q = (first_outputs m conn)\<lparr>i_path := root @ uri\<rparr>"
  have q: "inside_root root (i_path q)" "cstring (i_path q)" "\<not> i_script q" "length (i_path q) < UTF8_PATH_MAX - 1"
    using inside cs False by (simp_all add: q_def first_outputs_def)
  have len: "length (root @ uri) < UTF8_PATH_MAX - 1" using False by simp
  show ?thesis
  proof (cases "mg_stat S (root @ uri)")
    case (Some f)
    then have "r = existing_file S uri f q" unfolding assms(10) interpret_uri_file [OF assms(1,5) len q_def] by simp
    then show ?thesis using existing_file_inside [OF q(1) assms(2,3) q(2,4) assms(8)] by simp
  next
    case None
    then have "i_path r = [] \<or> i_path r = i_path q \<or> r = sub_resources S q"
      unfolding assms(10) interpret_uri_file [OF assms(1,5) len q_def]
      by (simp add: cleaned_up_def split: option.split)
    then consider "i_path r = []" | "i_path r = i_path q" | "r = sub_resources S q" by blast
    then show ?thesis
    proof cases
      case 3
      then show ?thesis using sub_resources_inside [OF q(1,2) assms(9) q(3)] by simp
    qed (use q in simp_all)
  qed
qed

section \<open>Files that are not served\<close>

lemma matches_text:
  "\<forall>c \<in> set w. c \<notin> {CHR ''?'', CHR ''$'', CHR ''*''} \<and> tolower c = c \<Longrightarrow>
   matches (w @ ''$'') v k \<longleftrightarrow> fold_case v = w \<and> k = length v"
proof (induction w arbitrary: v k)
  case Nil
  then show ?case by (auto simp: matches_dollar)
next
  case (Cons c w)
  then show ?case by (cases v) (auto simp: matches_Cons)
qed

lemma matches_suffix:
  assumes "\<forall>c \<in> set w. c \<notin> {CHR ''?'', CHR ''$'', CHR ''*''} \<and> tolower c = c" "w \<noteq> []"
  shows "matches (''**'' @ w @ ''$'') path k \<longleftrightarrow> k = length path \<and> (\<exists>u v. path = u @ v \<and> fold_case v = w)"
proof
  assume "matches (''**'' @ w @ ''$'') path k"
  then obtain u t k' where "path = u @ t" "k = length u + k'" "matches (w @ ''$'') t k'"
    using matches_starD [of "CHR ''*'' # w @ ''$''" path k] by auto
  then show "k = length path \<and> (\<exists>u v. path = u @ v \<and> fold_case v = w)" using matches_text [OF assms(1)] by auto
next
  assume "k = length path \<and> (\<exists>u v. path = u @ v \<and> fold_case v = w)"
  then obtain u v where "path = u @ v" "fold_case v = w" "k = length path" by blast
  then show "matches (''**'' @ w @ ''$'') path k"
    using m_stars [of "w @ ''$''" v "length v" u] matches_text [OF assms(1)] by simp
qed

lemma must_hide_file_spec:
  assumes "cstring path" "HIDE_FILES S = None"
  shows "must_hide_file S path \<longleftrightarrow> (\<exists>u v. path = u @ v \<and> fold_case v = PASSWORDS_FILE_NAME)"
proof -
  define w where "w = PASSWORDS_FILE_NAME"
  have w: "\<forall>c \<in> set w. c \<notin> {CHR ''?'', CHR ''$'', CHR ''*''} \<and> tolower c = c" "w \<noteq> []" "cstring (''**'' @ w @ ''$'')"
    "CHR ''|'' \<notin> set (''**'' @ w @ ''$'')"
    unfolding w_def by code_simp+
  have best: "best (''**'' @ w @ ''$'') path (match_prefix (''**'' @ w @ ''$'') path)"
    by (rule match_prefix_best [OF w(3) assms(1) w(4)])
  have "0 < match_prefix (''**'' @ w @ ''$'') path \<longleftrightarrow> (\<exists>k > 0. matches (''**'' @ w @ ''$'') path k)"
    (is "_ = ?ex")
  proof
    assume pos: "0 < match_prefix (''**'' @ w @ ''$'') path"
    with best have "matches (''**'' @ w @ ''$'') path (nat (match_prefix (''**'' @ w @ ''$'') path))" by (auto simp: best_def)
    moreover have "0 < nat (match_prefix (''**'' @ w @ ''$'') path)" using pos by simp
    ultimately show ?ex by blast
  next
    assume ?ex
    then show "0 < match_prefix (''**'' @ w @ ''$'') path" using best unfolding best_def by (metis less_irrefl order_less_le)
  qed
  also have "\<dots> \<longleftrightarrow> (\<exists>u v. path = u @ v \<and> fold_case v = w)"
    using w(2) unfolding matches_suffix [OF w(1,2)] by auto
  finally show ?thesis by (simp add: must_hide_file_def match_prefix_strlen_def assms(2) w_def)
qed

section \<open>Index files above a missing file\<close>

lemma script_loop_name:
  "CHR ''/'' \<notin> set base \<Longrightarrow> tmp = (dir @ CHR ''/'' # base) @ pad \<Longrightarrow> k \<le> length base \<Longrightarrow>
   script_loop S allow filename tmp (Suc (length dir) + k) st = script_loop S allow filename tmp (Suc (length dir)) st"
proof (induction k)
  case (Suc k)
  have "tmp ! Suc (length dir + k) = base ! k" using Suc.prems(2,3) by (simp add: nth_append)
  then have "tmp ! Suc (length dir + k) \<noteq> CHR ''/''" using Suc.prems(1,3) by (metis Suc_le_lessD nth_mem)
  then show ?case using Suc by simp
qed simp

lemma stem_same: "s \<noteq> [] \<Longrightarrow> last s \<noteq> CHR ''/'' \<Longrightarrow> stem s = s"
  using stem_root [of s "[]"] by (simp add: stem_def)

text \<open>With \<open>allow_index_script_resource\<close> set, a request for a file that does not exist is turned
  into one for its directory as soon as that has an index file, even one that is no script. The
  method is kept: \<open>DELETE\<close> for a missing file addresses the whole directory.\<close>

theorem missing_file_becomes_directory:
  assumes "root_of S conn = Some root" "URL_REWRITE_PATTERN S = None" "uri = d @ CHR ''/'' # base" "CHR ''/'' \<notin> set base"
    and "dir = root @ d" "dir \<noteq> []" "last dir \<noteq> CHR ''/''" "cstring dir" "cstring base" "length (root @ uri) < UTF8_PATH_MAX - 1"
    and "mg_stat S (root @ uri) = None" "mg_get_header (Some conn) ''Accept-Encoding'' = None"
    and "mg_strcasecmp (ALLOW_INDEX_SCRIPT_SUB_RES S) ''yes'' = 0" "alloc_path S" "\<not> extention_matches_script S dir"
    and "\<forall>v \<in> set (index_names S). cstring v \<and> \<not> extention_matches_script S (dir @ CHR ''/'' # v)"
    and "index \<in> set (index_names S)" "length index + 2 \<le> UTF8_PATH_MAX" "mg_stat S (dir @ CHR ''/'' # index) \<noteq> None"
  shows "i_path (interpret_uri S m conn uri) = dir \<and> \<not> i_found (interpret_uri S m conn uri)
    \<and> \<not> i_script (interpret_uri S m conn uri) \<and> i_put (interpret_uri S m conn uri) = is_put_or_delete_method m"
proof -
  define r where "r = (first_outputs m conn)\<lparr>i_path := root @ uri\<rparr>"
  define fname where "fname = dir @ CHR ''/'' # base"
  have f: "root @ uri = fname" by (simp add: fname_def assms(3,5))
  define tmp where "tmp = fname @ replicate (UTF8_PATH_MAX + 1) NUL"
  define tmp1 where "tmp1 = tmp[length dir := NUL]"
  have t1: "tmp1 = dir @ NUL # base @ replicate (UTF8_PATH_MAX + 1) NUL" by (simp add: tmp1_def tmp_def fname_def)
  have s1: "str_at tmp1 0 = dir" unfolding t1 using assms(8) by (rule str_at_0)
  obtain found tmp2 st2 where sub: "substitute_index_file S tmp1 (length fname + UTF8_PATH_MAX)
      (case mg_stat S dir of None \<Rightarrow> no_stat | Some f \<Rightarrow> f) = (found, tmp2, st2)" by (metis prod_cases3)
  have sd: "stem (str_at tmp1 0) = dir" using s1 stem_same assms(6,7) by simp
  have "length (str_at tmp1 0) + 1 < length fname + UTF8_PATH_MAX" "length fname + UTF8_PATH_MAX \<le> length tmp1"
    "\<forall>v \<in> set (index_names S). cstring v" "length dir + 2 + length index \<le> length fname + UTF8_PATH_MAX"
    using assms(16,18) unfolding s1 by (auto simp: tmp1_def tmp_def fname_def UTF8_PATH_MAX_def)
  from substitute_spec [OF sub this(1-3)] this(4) assms(16,17,19) have found: "found" "\<not> extention_matches_script S (str_at tmp2 0)"
    unfolding sd by auto
  have "script_loop S True fname tmp (length fname) no_stat = script_loop S True fname tmp (Suc (length dir)) no_stat"
    using script_loop_name [OF assms(4), of tmp dir _ "length base"] by (simp add: fname_def tmp_def)
  also have "\<dots> = (Hidden dir, st2)"
    using sub found s1 assms(6,15) unfolding script_loop.simps(2) tmp1_def
    by (simp add: Let_def tmp_def fname_def nth_append)
  finally have loop: "script_loop S True fname tmp (length fname) no_stat = (Hidden dir, st2)" .
  have "interpret_uri S m conn uri = sub_resources S r"
    using assms(12) unfolding interpret_uri_file [OF assms(1,2,10) r_def] by (simp add: assms(11) r_def first_outputs_def)
  also have "\<dots> = r\<lparr>i_stat := st2, i_path := dir, i_path_info := None, i_script := False, i_found := False\<rparr>"
    using loop assms(13,14) by (simp add: sub_resources_def r_def f first_outputs_def tmp_def Let_def)
  finally show ?thesis by (simp add: r_def first_outputs_def)
qed

end
