(* ===== verification/Discard.thy ===== *)
theory Discard
  imports Response
begin

text \<open>
  \<open>discard_unread_request_data\<close>, which reads what the client has sent of a body that nobody wanted,
  and that it ends: every successful read takes bytes from the buffer or from the network.
\<close>

section \<open>What is left to read\<close>

definition in_network :: "recv_event list \<Rightarrow> nat" where
  "in_network net = sum_list (map (\<lambda>e. case e of Data bs \<Rightarrow> length bs | Quiet b \<Rightarrow> 0) net)"

lemma pull_inner_network:
  "pull_inner net len = (n, bs, again, net') \<Longrightarrow> in_network net' + length bs \<le> in_network net"
  by (auto simp: pull_inner_def in_network_def split: list.splits recv_event.splits if_splits)

lemma pull_all_network:
  "pull_all stop net len acc = (n, bs, net') \<Longrightarrow> in_network net' + length bs \<le> in_network net + length acc"
proof (induction stop net len acc arbitrary: n bs net' rule: pull_all.induct)
  case (1 stop net len acc)
  obtain m d again net1 where p: "pull_inner net len = (m, d, again, net1)" by (metis prod_cases4)
  note net1 = pull_inner_network [OF p]
  show ?case
  proof (cases "0 < len \<and> \<not> stop")
    case False
    then show ?thesis using "1.prems" unfolding pull_all.simps [of stop net len acc] if_not_P [OF False] by simp
  next
    case True
    note run = "1.prems" [unfolded pull_all.simps [of stop net len acc], unfolded p]
    consider "m = -2" | "m = 0" | "m = -1" | "m \<noteq> -2" "m \<noteq> -1" "m \<noteq> 0" by blast
    then show ?thesis
    proof cases
      case 3
      then show ?thesis
        using run True net1 "1.IH"(1) [OF True p [symmetric] refl refl refl, of n bs net'] by (auto split: if_splits)
    next
      case 4
      then have "pull_all stop net1 (len - length d) (acc @ d) = (n, bs, net')" using run True by simp
      from "1.IH"(2) [OF True p [symmetric] refl refl refl 4 this] net1 show ?thesis by simp
    qed (use run True net1 in \<open>auto split: if_splits\<close>)
  qed
qed

definition unread :: "mg_connection \<Rightarrow> nat" where
  "unread c = nat (int (data_len c) - int (request_len c) - consumed_content c) + in_network (net_in c)"

lemma mg_read_inner_unread:
  assumes "mg_read_inner c len = (r, bs, c')"
  shows "int (unread c') + max r 0 \<le> int (unread c) \<and> int (length bs) \<le> max r 0"
proof -
  define len64 where "len64 = min (int len) INT_MAX"
  define clen where "clen = (if content_len c < 0 then INT64_MAX else content_len c)"
  define left where "left = clen - consumed_content c"
  define l where "l = (if left < len64 then left else len64)"
  define b0 where "b0 = int (data_len c) - int (request_len c) - consumed_content c"
  define b where "b = (if 0 < b0 then min l b0 else 0)"
  obtain n ds net where p: "pull_all (stop_flag c) (net_in c) (nat (l - b)) [] = (n, ds, net)" by (metis prod_cases3)
  have net: "in_network net + length ds \<le> in_network (net_in c)" using pull_all_network [OF p] by simp
  have n: "n = -1 \<and> ds = [] \<or> n = int (length ds)" using pull_all_length [OF p] by auto
  show ?thesis
  proof (cases "consumed_content c < clen")
    case False
    with assms show ?thesis by (auto simp: mg_read_inner_def clen_def Let_def)
  next
    case True
    then have l: "0 \<le> l" "0 \<le> b" "b \<le> l" "0 < b0 \<longrightarrow> b \<le> b0" "b0 \<le> 0 \<longrightarrow> b = 0"
      by (auto simp: l_def left_def len64_def b_def INT_MAX_def)
    show ?thesis using assms True l net n
      unfolding mg_read_inner_def Let_def clen_def [symmetric] left_def [symmetric] len64_def [symmetric]
        l_def [symmetric] b0_def [symmetric] b_def [symmetric]
      by (auto simp: p unread_def b0_def split: if_splits)
  qed
qed

lemma unread_update [simp]:
  "unread (c\<lparr>content_len := n\<rparr>) = unread c" "unread (c\<lparr>is_chunked := n\<rparr>) = unread c"
  by (simp_all add: unread_def)

lemma chunk_head_loop_unread: "chunk_head_loop k c lenbuf = (h, c') \<Longrightarrow> unread c' \<le> unread c"
proof (induction k arbitrary: c lenbuf)
  case (Suc k)
  obtain r bs c1 where r: "mg_read_inner (c\<lparr>content_len := content_len c + 1\<rparr>) 1 = (r, bs, c1)" by (metis prod_cases3)
  have u: "unread c1 \<le> unread c" using mg_read_inner_unread [OF r] by auto
  then have "unread c' \<le> unread c" if "chunk_head_loop k c1 l = (h, c')" for l using Suc.IH [OF that] by simp
  with Suc.prems u show ?case by (auto simp: r Let_def simp del: One_nat_def split: if_splits prod.splits)
qed simp

lemma read_chunked_unread:
  "read_chunked c len acc = (r, bs, c') \<Longrightarrow> int (unread c') + max r (int (length acc)) \<le> int (unread c) + int (length acc)"
proof (induction c len acc arbitrary: r bs c' rule: read_chunked.induct)
  case (1 c len acc)
  show ?case
  proof (cases "len = 0 \<or> 3 \<le> is_chunked c \<or> is_chunked c \<noteq> 1")
    case True
    then show ?thesis using "1.prems" by (subst (asm) read_chunked.simps) (auto split: if_splits)
  next
    case False
    then have c: "len \<noteq> 0" "\<not> 3 \<le> is_chunked c" "\<not> is_chunked c \<noteq> 1" by simp_all
    note run = "1.prems" [unfolded read_chunked.simps [of c len acc] if_not_P [OF c(1)] if_not_P [OF c(2)] if_not_P [OF c(3)]]
    show ?thesis
    proof (cases "consumed_content c \<noteq> content_len c")
      case True
      obtain n ds c1 where n: "mg_read_inner c len = (n, ds, c1)" by (metis prod_cases3)
      obtain m x c2 where m: "mg_read_inner (c1\<lparr>content_len := content_len c1 + 2\<rparr>) 2 = (m, x, c2)" by (metis prod_cases3)
      have u: "int (unread c1) + max n 0 \<le> int (unread c)" "int (length ds) \<le> max n 0" "int (unread c2) \<le> int (unread c1)"
        using mg_read_inner_unread [OF n] mg_read_inner_unread [OF m] by auto
      note IH = "1.IH"(1,2) [OF c True n [symmetric] refl refl]
      show ?thesis
      proof (cases "n < 1")
        case True
        then show ?thesis using run u \<open>consumed_content c \<noteq> content_len c\<close> by (auto simp: n)
      next
        case False
        show ?thesis
          using run u \<open>consumed_content c \<noteq> content_len c\<close> False IH(1) [OF False _ m [symmetric] refl refl] IH(2) [OF False]
          by (force simp: n m split: if_splits)
      qed
    next
      case False
      obtain h c1 where h: "chunk_head_loop 63 c [] = (h, c1)" by fastforce
      have u: "unread c1 \<le> unread c" by (rule chunk_head_loop_unread [OF h])
      show ?thesis
      proof (cases h)
        case (Size k e)
        obtain m x c2 where m: "mg_read_inner (c1\<lparr>content_len := content_len c1 + 2\<rparr>) 2 = (m, x, c2)" by (metis prod_cases3)
        have u2: "int (unread c2) \<le> int (unread c1)" using mg_read_inner_unread [OF m] by auto
        note IH = "1.IH"(3) [OF c False h [symmetric] refl Size]
        show ?thesis using run u u2 False IH by (fastforce simp: h Size m split: if_splits)
      qed (use run u False in \<open>auto simp: h\<close>)
    qed
  qed
qed

lemma mg_read_unread:
  assumes "mg_read (Some c) len = (r, bs, Some c')"
  shows "int (unread c') + max r 0 \<le> int (unread c)"
  using assms mg_read_inner_unread [of c] read_chunked_unread [of c _ "[]"]
  by (fastforce simp: mg_read_def Let_def split: if_splits prod.splits)

section \<open>The loop\<close>

function discard_unread_request_data :: "mg_connection \<Rightarrow> mg_connection" where
  "discard_unread_request_data conn =
     (let (r, buf, c) = mg_read (Some conn) MG_BUF_LEN; conn = the c
      in if 0 < r then discard_unread_request_data conn else conn)"
  by pat_completeness auto

termination
proof (relation "measure unread", goal_cases)
  case (2 conn x r y buf c conn')
  then have "mg_read (Some conn) MG_BUF_LEN = (r, buf, Some conn')"
    by (auto simp: mg_read_def Let_def split: if_splits prod.splits)
  from mg_read_unread [OF this] 2 show ?case by simp
qed simp

declare discard_unread_request_data.simps [simp del]

end
