(* ===== verification/Dispatch.thy ===== *)
theory Dispatch
  imports Files Handlers Handshake Discard
begin

text \<open>
  The heart of the server: \<open>handle_request\<close>, which cleans the URI, finds the application's handler
  or the file that is responsible for a request, checks the authorization and lets it answer.
  It composes the components modelled so far. The application's callbacks, the handling of the
  files themselves (sending, storing, listing them, CGI) and the redirection to the TLS port are
  parameters: functions of the connection. The server is built with WebSockets and files, without
  HTTP/2, Lua and Duktape.

  \<open>w_log\<close> records which of them ran, in their order. \<open>None\<close> stands for an access outside a buffer
  or a call through a null pointer.
\<close>

section \<open>The code\<close>

datatype file_action =
    Script_file string "string option" | Put_file string | Delete_file string | Mkcol string | Propfind string
  | Listing string | Template string | Static_file string

datatype event = Called nat ptr | Session ws_handlers ptr | Acted file_action

text \<open>The server a request arrives at.\<close>

record 's server =
  s_site :: site
  s_protect :: auth_config
  s_files :: files
  s_env :: ws_env
  s_md5 :: md5_state
  s_buf :: "char list"
  s_tls_redirect :: "(mg_connection \<Rightarrow> mg_connection) option"
  s_throttle :: "string \<Rightarrow> int"
  s_begin_request :: "(mg_connection \<Rightarrow> int \<times> mg_connection) option"
  s_request_callback :: "nat \<Rightarrow> ptr \<Rightarrow> mg_connection \<Rightarrow> int \<times> mg_connection"
  s_auth_callback :: "nat \<Rightarrow> ptr \<Rightarrow> mg_connection \<Rightarrow> int \<times> mg_connection"
  s_ws_callbacks :: "ws_handlers \<Rightarrow> ptr \<Rightarrow> 's ws_callbacks"
  s_subprotocols :: "ptr \<Rightarrow> string list option"
  s_act :: "file_action \<Rightarrow> mg_connection \<Rightarrow> mg_connection"
  ACCESS_CONTROL_ALLOW_METHODS :: "string option"
  ACCESS_CONTROL_ALLOW_ORIGIN :: "string option"
  ACCESS_CONTROL_ALLOW_HEADERS :: "string option"
  ENABLE_DIRECTORY_LISTING :: string

text \<open>What a request changes: the connection, the registered handlers, the counter for the
  nonces, the user's name, the state of the application's WebSocket callbacks.\<close>

record 's world =
  w_conn :: mg_connection
  w_handlers :: "mg_handler_info list"
  w_auth :: auth_context
  w_user :: "string option"
  w_app :: 's
  w_log :: "event list"

subsection \<open>The URL\<close>

text \<open>Step 1.1: \<open>mem\<close> is the buffer with the request's URI; the position of the query string.\<close>

definition split_query :: "char list \<Rightarrow> char list \<times> nat option" where
  "split_query mem =
     (let k = length (takeWhile (\<lambda>c. c \<noteq> CHR ''?'') (str_at mem 0))
      in if k < length (str_at mem 0) then (mem[k := NUL], Some (k + 1)) else (mem, None))"

text \<open>Steps 1.3 and 1.4: the buffer of the request, \<open>uri_len\<close>, and the buffer of the cleaned URI. There is memory for the copy; without it
  \<open>handle_request\<close> returns and does nothing.\<close>

definition clean_url :: "mg_connection \<Rightarrow> char list \<Rightarrow> nat \<Rightarrow> nat option \<Rightarrow> (char list \<times> nat \<times> char list) option" where
  "clean_url conn mem local query_string =
     do {
       let uri_len = length (str_at mem local);
       mem \<leftarrow> (if should_decode_url (Some conn) then map_option fst (mg_url_decode mem local uri_len local (uri_len + 1) False)
              else Some mem);
       mem \<leftarrow> (case query_string of
                None \<Rightarrow> Some mem
              | Some q \<Rightarrow> if should_decode_query_string (Some conn) then url_decode_in_place mem q else Some mem);
       tmp \<leftarrow> remove_dot_segments (Some (str_at mem local @ [NUL]));
       tmp \<leftarrow> tmp;
       Some (mem, uri_len, tmp)
     }"

subsection \<open>CORS preflights\<close>

definition nonempty :: "string option \<Rightarrow> string option" where
  "nonempty s = (if s = Some [] then None else s)"

text \<open>Step 4, for the method \<open>OPTIONS\<close>: \<open>None\<close> when the request has to be handled otherwise.\<close>

definition cors_preflight :: "'s server \<Rightarrow> mg_connection \<Rightarrow> mg_connection option" where
  "cors_preflight srv conn =
     do {
       cors_meth_cfg \<leftarrow> nonempty (ACCESS_CONTROL_ALLOW_METHODS srv);
       cors_orig_cfg \<leftarrow> nonempty (ACCESS_CONTROL_ALLOW_ORIGIN srv);
       cors_origin \<leftarrow> mg_get_header (Some conn) ''Origin'';
       cors_acrm \<leftarrow> mg_get_header (Some conn) ''Access-Control-Request-Method'';
       let print = mg_printf (malloc_ok (s_env srv));
       let conn = print conn (''HTTP/1.1 200 OK'' @ CRLF @ ''Date: '' @ date_now (s_env srv) @ CRLF
         @ ''Access-Control-Allow-Origin: '' @ cors_orig_cfg @ CRLF
         @ ''Access-Control-Allow-Methods: '' @ (if hd cors_meth_cfg = CHR ''*'' then cors_acrm else cors_meth_cfg) @ CRLF
         @ ''Content-Length: 0'' @ CRLF @ ''Connection: '' @ suggest_connection_header (Some conn) @ CRLF);
       let conn =
         (case mg_get_header (Some conn) ''Access-Control-Request-Headers'' of
            None \<Rightarrow> conn
          | Some cors_acrh \<Rightarrow>
              (case nonempty (ACCESS_CONTROL_ALLOW_HEADERS srv) of
                 None \<Rightarrow> conn
               | Some h \<Rightarrow> print conn (''Access-Control-Allow-Headers: '' @ (if hd h = CHR ''*'' then cors_acrh else h) @ CRLF)));
       let conn = print conn (''Access-Control-Max-Age: 60'' @ CRLF);
       Some (print conn CRLF)
     }"

subsection \<open>Answers\<close>

definition answer_error :: "'s server \<Rightarrow> int \<Rightarrow> string \<Rightarrow> 's world \<Rightarrow> 's world option" where
  "answer_error srv status msg w = map_option (\<lambda>(s, c). w\<lparr>w_conn := c\<rparr>) (ws_error (s_env srv) status msg (w_app w) (w_conn w))"

definition act :: "'s server \<Rightarrow> file_action \<Rightarrow> 's world \<Rightarrow> 's world" where
  "act srv a w = w\<lparr>w_conn := s_act srv a (w_conn w), w_log := w_log w @ [Acted a]\<rparr>"

definition send_options :: "'s server \<Rightarrow> mg_connection \<Rightarrow> mg_connection option" where
  "send_options srv conn =
     (let malloc = malloc_ok (s_env srv);
          conn = the (snd (mg_response_header_start (Some conn) 200));
          conn = add_header malloc ''Content-Type'' ''text/html'' conn;
          conn = (if proto_type conn = PROTOCOL_TYPE_HTTP1
                  then add_header malloc ''DAV'' ''1''
                         (add_header malloc ''Allow'' ''GET, POST, HEAD, CONNECT, PUT, DELETE, OPTIONS, PROPFIND, MKCOL'' conn)
                  else add_header malloc ''Allow'' ''GET, POST'' conn)
      in do {
        conn \<leftarrow> send_additional_header malloc (reply_cfg (s_env srv)) conn;
        Some (the (snd (mg_response_header_send malloc (Some conn) (date_now (s_env srv)))))
      })"

text \<open>Step 12: the path with a slash and the query string behind it.\<close>

definition slash_redirect :: "'s server \<Rightarrow> char list \<Rightarrow> nat option \<Rightarrow> 's world \<Rightarrow> 's world option" where
  "slash_redirect srv mem query_string w =
     (let request_uri = str_at mem 0;
          lenQS = (case query_string of None \<Rightarrow> 0 | Some q \<Rightarrow> length (str_at mem q) + 1)
      in if \<not> malloc_ok (s_env srv) (length request_uri + lenQS + 2) then answer_error srv 500 ''out or memory'' w
         else let new_path = request_uri @ ''/'' @ (case query_string of None \<Rightarrow> [] | Some q \<Rightarrow> CHR ''?'' # str_at mem q)
              in Some (w\<lparr>w_conn := snd (mg_send_http_redirect (malloc_ok (s_env srv)) (w_conn w) (Some new_path) 301)\<rparr>))"

subsection \<open>Authorization\<close>

definition challenge :: "'s server \<Rightarrow> 's world \<Rightarrow> 's world option" where
  "challenge srv w =
     map_option (\<lambda>(ctx, c). w\<lparr>w_auth := ctx, w_conn := c\<rparr>)
       (send_authorization_request (malloc_ok (s_env srv)) (reply_cfg (s_env srv)) (date_now (s_env srv)) (w_auth w) (w_conn w) None)"

definition set_user :: "string option \<Rightarrow> 's world \<Rightarrow> 's world" where
  "set_user user w = (if user = None then w else w\<lparr>w_user := user\<rparr>)"

text \<open>Step 6, for the request of the URI \<open>u\<close>: whether to go on. \<open>handler_info\<close> is the request
  handler that has been acquired.\<close>

definition authorization ::
    "'s server \<Rightarrow> string \<Rightarrow> bool \<Rightarrow> string \<Rightarrow> nat option \<Rightarrow> 's world \<Rightarrow> (bool \<times> 's world) option" where
  "authorization srv u put_file path handler_info w =
     (case fst (get_request_handler AUTH_HANDLER u (w_handlers w)) of
        Some h \<Rightarrow> do {
          f \<leftarrow> auth_handler h;
          let (ok, conn) = s_auth_callback srv f (cbdata h) (w_conn w);
          let w = w\<lparr>w_conn := conn\<rparr>;
          Some (if ok = 0 then (False, w\<lparr>w_handlers := release_handler_ref handler_info (w_handlers w)\<rparr>) else (True, w))
        }
      | None \<Rightarrow>
          let cfg = (s_protect srv)\<lparr>local_uri := u\<rparr>
          in if put_file
             then if DOCUMENT_ROOT (s_site srv) = None
                  then map_option (Pair False) (answer_error srv 405 (the (request_method (w_auth w)) @ '' method not allowed'') w)
                  else do {
                    (ok, user) \<leftarrow> is_authorized_for_put (w_auth w) cfg (s_md5 srv) (s_files srv) (s_buf srv) (Some (w_conn w));
                    let w = set_user user w;
                    if ok then Some (True, w) else map_option (Pair False) (challenge srv w)
                  }
             else do {
               (ok, user) \<leftarrow> check_authorization (w_auth w) cfg (s_md5 srv) (s_files srv) (s_buf srv) (Some (w_conn w)) path;
               let w = set_user user w;
               if ok then Some (True, w)
               else map_option (\<lambda>w. (False, w\<lparr>w_handlers := release_handler_ref handler_info (w_handlers w)\<rparr>)) (challenge srv w)
             })"

subsection \<open>Files\<close>

text \<open>Steps 9b to 17, for an authorized request.\<close>

definition serve_file :: "'s server \<Rightarrow> char list \<Rightarrow> nat option \<Rightarrow> nat \<Rightarrow> char list \<Rightarrow> interpreted \<Rightarrow> 's world \<Rightarrow> 's world option" where
  "serve_file srv mem query_string uri_len tmp r w =
     (let path = i_path r;
          req_method = the (request_method (w_auth w));
          not_allowed = answer_error srv 405 (req_method @ '' method not allowed'') w;
          file_or_directory =
            (if req_method = ''PROPFIND'' then Some (act srv (Propfind path) w)
             else if req_method = ''OPTIONS'' then map_option (\<lambda>c. w\<lparr>w_conn := c\<rparr>) (send_options srv (w_conn w))
             else if req_method \<noteq> ''GET'' \<and> req_method \<noteq> ''HEAD'' then not_allowed
             else if f_directory (i_stat r)
             then if mg_strcasecmp (ENABLE_DIRECTORY_LISTING srv) ''yes'' = 0 then Some (act srv (Listing path) w)
                  else answer_error srv 403 ''Error: Directory listing denied'' w
             else if i_template r then Some (act srv (Template path) w)
             else Some (act srv (Static_file path) w))
      in if DOCUMENT_ROOT (s_site srv) = None then answer_error srv 404 ''Not Found'' w
         else if i_script r then Some (act srv (Script_file path (i_path_info r)) w)
         else if i_put r
         then if req_method = ''PUT'' then Some (act srv (Put_file path) w)
              else if req_method = ''DELETE'' then Some (act srv (Delete_file path) w)
              else if req_method = ''MKCOL'' then Some (act srv (Mkcol path) w)
              else not_allowed
         else if \<not> i_found r \<or> must_hide_file (s_site srv) path then answer_error srv 404 ''Not found'' w
         else if f_directory (i_stat r) \<and> 0 < uri_len
         then do {
           c \<leftarrow> rd tmp (uri_len - 1);
           if c \<noteq> CHR ''/'' then slash_redirect srv mem query_string w else file_or_directory
         }
         else file_or_directory)"

text \<open>From the label \<open>no_callback_resource\<close> on.\<close>

definition file_resource ::
    "'s server \<Rightarrow> char list \<Rightarrow> nat option \<Rightarrow> nat \<Rightarrow> char list \<Rightarrow> nat option \<Rightarrow> 's world \<Rightarrow> 's world option" where
  "file_resource srv mem query_string uri_len tmp handler_info w =
     (let u = str_at tmp 0;
          r = interpret_uri (s_site srv) (request_method (w_auth w)) (w_conn w) u
      in do {
        (ok, w) \<leftarrow> authorization srv u (i_put r \<and> \<not> i_script r) (i_path r) handler_info w;
        if \<not> ok then Some w
        else if i_ws r
        then if i_script r
             then map_option (\<lambda>(s, c). w\<lparr>w_app := s, w_conn := c\<rparr>)
                    (handle_websocket_request (s_env srv) False None (s_ws_callbacks srv no_handlers None) (w_app w) (w_conn w))
             else answer_error srv 404 ''Not found'' w
        else serve_file srv mem query_string uri_len tmp r w
      })"

subsection \<open>Callbacks\<close>

text \<open>Steps 5.2.1 to 7, for the handler \<open>h\<close> that is responsible.\<close>

definition callback_resource ::
    "'s server \<Rightarrow> char list \<Rightarrow> nat option \<Rightarrow> nat \<Rightarrow> char list \<Rightarrow> bool \<Rightarrow> mg_handler_info \<Rightarrow> 's world \<Rightarrow> 's world option" where
  "callback_resource srv mem query_string uri_len tmp is_websocket_request h w =
     (let handler_info = (if is_websocket_request then None else Some (node h))
      in do {
        (ok, w) \<leftarrow> authorization srv (str_at tmp 0) False [] handler_info w;
        if \<not> ok then Some w
        else if \<not> is_websocket_request
        then do {
          f \<leftarrow> req_handler h;
          let (i, conn) = s_request_callback srv f (cbdata h) (w_conn w);
          let w = w\<lparr>w_conn := conn, w_handlers := release_handler_ref handler_info (w_handlers w), w_log := w_log w @ [Called f (cbdata h)]\<rparr>;
          if 0 < i
          then let conn = conn\<lparr>conn_status_code := i\<rparr>
               in Some (w\<lparr>w_conn := (if must_close conn then conn else discard_unread_request_data conn)\<rparr>)
          else file_resource srv mem query_string uri_len tmp handler_info w
        }
        else map_option (\<lambda>(s, c). w\<lparr>w_app := s, w_conn := c, w_log := w_log w @ [Session (ws h) (cbdata h)]\<rparr>)
               (handle_websocket_request (s_env srv) True (s_subprotocols srv (subprotocols (ws h)))
                  (s_ws_callbacks srv (ws h) (cbdata h)) (w_app w) (w_conn w))
      })"

subsection \<open>The request\<close>

text \<open>Steps 4 and 5.\<close>

definition route :: "'s server \<Rightarrow> char list \<Rightarrow> nat option \<Rightarrow> nat \<Rightarrow> char list \<Rightarrow> 's world \<Rightarrow> 's world option" where
  "route srv mem query_string uri_len tmp w =
     (case (if request_method (w_auth w) = Some ''OPTIONS'' then cors_preflight srv (w_conn w) else None) of
        Some conn \<Rightarrow> Some (w\<lparr>w_conn := conn\<rparr>)
      | None \<Rightarrow>
          let is_websocket_request = (proto_type (w_conn w) = PROTOCOL_TYPE_WEBSOCKET);
              handler_type = (if is_websocket_request then WEBSOCKET_HANDLER else REQUEST_HANDLER);
              (h, hs) = get_request_handler handler_type (str_at tmp 0) (w_handlers w);
              w = w\<lparr>w_handlers := hs\<rparr>
          in (case h of
                Some h \<Rightarrow> callback_resource srv mem query_string uri_len tmp is_websocket_request h w
              | None \<Rightarrow> file_resource srv mem query_string uri_len tmp None w))"

text \<open>Step 3: the callback \<open>begin_request\<close>.\<close>

definition begin_request_step :: "'s server \<Rightarrow> char list \<Rightarrow> nat option \<Rightarrow> nat \<Rightarrow> char list \<Rightarrow> 's world \<Rightarrow> 's world option" where
  "begin_request_step srv mem query_string uri_len tmp w =
     (case s_begin_request srv of
        None \<Rightarrow> route srv mem query_string uri_len tmp w
      | Some f \<Rightarrow>
          let (i, conn) = f (w_conn w)
          in if 0 < i
             then let conn = conn\<lparr>conn_status_code := i\<rparr>
                  in Some (w\<lparr>w_conn := (if must_close conn then conn else discard_unread_request_data conn)\<rparr>)
             else if i = 0 then route srv mem query_string uri_len tmp (w\<lparr>w_conn := conn\<rparr>)
             else Some (w\<lparr>w_conn := conn\<rparr>))"

text \<open>\<open>mem\<close> is the buffer of the request's URI, in which \<open>local\<close> is the position of the part
  that is local to this server.\<close>

definition handle_request :: "'s server \<Rightarrow> char list \<Rightarrow> nat \<Rightarrow> 's world \<Rightarrow> 's world option" where
  "handle_request srv mem local w =
     (let w = w\<lparr>w_conn := (w_conn w)\<lparr>request_state := 0\<rparr>\<rparr>;
          (mem, query_string) = split_query mem
      in case s_tls_redirect srv of
           Some redirect \<Rightarrow> Some (w\<lparr>w_conn := redirect (w_conn w)\<rparr>)
         | None \<Rightarrow> do {
             (mem, uri_len, tmp) \<leftarrow> clean_url (w_conn w) mem local query_string;
             let w = w\<lparr>w_conn := (w_conn w)\<lparr>throttle := s_throttle srv (str_at tmp 0)\<rparr>\<rparr>;
             begin_request_step srv mem query_string uri_len tmp w
           })"

section \<open>Who may do what\<close>

text \<open>The request is authorized: by the application's handler, by the file for \<open>PUT\<close> and
  \<open>DELETE\<close>, or by the file that protects the path.\<close>

definition granted :: "'s server \<Rightarrow> mg_handler_info list \<Rightarrow> auth_context \<Rightarrow> string \<Rightarrow> bool \<Rightarrow> string \<Rightarrow> mg_connection \<Rightarrow> bool" where
  "granted srv hs ctx u put_file path c \<longleftrightarrow>
     (case fst (get_request_handler AUTH_HANDLER u hs) of
        Some h \<Rightarrow> \<exists>f. auth_handler h = Some f \<and> fst (s_auth_callback srv f (cbdata h) c) \<noteq> 0
      | None \<Rightarrow>
          \<exists>user. (if put_file
                  then DOCUMENT_ROOT (s_site srv) \<noteq> None \<and>
                    is_authorized_for_put ctx ((s_protect srv)\<lparr>local_uri := u\<rparr>) (s_md5 srv) (s_files srv) (s_buf srv) (Some c)
                      = Some (True, user)
                  else check_authorization ctx ((s_protect srv)\<lparr>local_uri := u\<rparr>) (s_md5 srv) (s_files srv) (s_buf srv) (Some c) path
                      = Some (True, user)))"

lemma set_user_same [simp]:
  "w_conn (set_user x w) = w_conn w" "w_handlers (set_user x w) = w_handlers w" "w_auth (set_user x w) = w_auth w"
  "w_app (set_user x w) = w_app w" "w_log (set_user x w) = w_log w"
  by (simp_all add: set_user_def)

lemma answer_error_same:
  "answer_error srv status msg w = Some w' \<Longrightarrow>
   w_handlers w' = w_handlers w \<and> w_log w' = w_log w \<and> w_auth w' = w_auth w"
  by (auto simp: answer_error_def)

lemma challenge_same: "challenge srv w = Some w' \<Longrightarrow> w_handlers w' = w_handlers w \<and> w_log w' = w_log w"
  by (auto simp: challenge_def)

text \<open>The connection after the authorization handler has been asked, if there is one.\<close>

definition asked :: "'s server \<Rightarrow> mg_handler_info list \<Rightarrow> string \<Rightarrow> mg_connection \<Rightarrow> mg_connection" where
  "asked srv hs u c =
     (case fst (get_request_handler AUTH_HANDLER u hs) of
        None \<Rightarrow> c
      | Some h \<Rightarrow> (case auth_handler h of None \<Rightarrow> c | Some f \<Rightarrow> snd (s_auth_callback srv f (cbdata h) c)))"

lemma authorization_granted:
  assumes "authorization srv u put_file path hi w = Some (True, w')"
  shows "granted srv (w_handlers w) (w_auth w) u put_file path (w_conn w)
    \<and> w_handlers w' = w_handlers w \<and> w_log w' = w_log w \<and> w_auth w' = w_auth w \<and> w_app w' = w_app w
    \<and> w_conn w' = asked srv (w_handlers w) u (w_conn w)"
  using assms
  by (auto simp: authorization_def granted_def asked_def Let_def map_option_case split: option.splits if_splits prod.splits bind_splits)

text \<open>The reference counts have no part in it.\<close>

lemma candidates_acquire: "candidates t u (acquire a hs) = map (\<lambda>h. if node h = a then h\<lparr>refcount := refcount h + 1\<rparr> else h) (candidates t u hs)"
proof -
  have "filter (\<lambda>h. htype h = t \<and> matched step h u) (acquire a hs)
      = map (\<lambda>h. if node h = a then h\<lparr>refcount := refcount h + 1\<rparr> else h) (filter (\<lambda>h. htype h = t \<and> matched step h u) hs)" for step
    unfolding acquire_def filter_map by (rule arg_cong [where f = "map _"], rule filter_cong) (auto simp: matched_def)
  then show ?thesis by (simp add: candidates_def)
qed

lemma auth_handler_acquire: "fst (get_request_handler AUTH_HANDLER u (acquire a hs))
    = map_option (\<lambda>h. if node h = a then h\<lparr>refcount := refcount h + 1\<rparr> else h) (fst (get_request_handler AUTH_HANDLER u hs))"
  by (simp add: get_request_handler_candidates candidates_acquire split: list.split)

lemma granted_acquire [simp]: "granted srv (acquire a hs) ctx u put_file path c = granted srv hs ctx u put_file path c"
  "asked srv (acquire a hs) u c = asked srv hs u c"
  unfolding granted_def asked_def auth_handler_acquire by (auto split: option.split)

lemma authorization_refused:
  assumes "authorization srv u put_file path hi w = Some (False, w')"
  shows "w_log w' = w_log w \<and> (w_handlers w' = release_handler_ref hi (w_handlers w) \<or> put_file \<and> w_handlers w' = w_handlers w)"
  using assms answer_error_same [of srv _ _ w] challenge_same [of srv]
  by (fastforce simp: authorization_def Let_def map_option_case split: option.splits if_splits prod.splits bind_splits)

definition path_of :: "file_action \<Rightarrow> string" where
  "path_of a = (case a of Script_file p i \<Rightarrow> p | Put_file p \<Rightarrow> p | Delete_file p \<Rightarrow> p | Mkcol p \<Rightarrow> p | Propfind p \<Rightarrow> p
     | Listing p \<Rightarrow> p | Template p \<Rightarrow> p | Static_file p \<Rightarrow> p)"

definition stores :: "file_action \<Rightarrow> bool" where
  "stores a = (case a of Put_file p \<Rightarrow> True | Delete_file p \<Rightarrow> True | Mkcol p \<Rightarrow> True | _ \<Rightarrow> False)"

definition runs_script :: "file_action \<Rightarrow> bool" where
  "runs_script a = (case a of Script_file p i \<Rightarrow> True | _ \<Rightarrow> False)"

definition reads_file :: "file_action \<Rightarrow> bool" where
  "reads_file a = (case a of Propfind p \<Rightarrow> True | Listing p \<Rightarrow> True | Template p \<Rightarrow> True | Static_file p \<Rightarrow> True | _ \<Rightarrow> False)"

text \<open>What \<open>serve_file\<close> lets run: at most one action, on the path that was interpreted.\<close>

lemma serve_file_log:
  assumes "serve_file srv mem q uri_len tmp r w = Some w'"
  shows "w_handlers w' = w_handlers w \<and> (w_log w' = w_log w \<or> (\<exists>a. w_log w' = w_log w @ [Acted a] \<and> path_of a = i_path r
    \<and> (stores a \<longleftrightarrow> i_put r \<and> \<not> i_script r) \<and> (runs_script a \<longleftrightarrow> i_script r) \<and> (reads_file a \<longrightarrow> i_found r \<and> \<not> must_hide_file (s_site srv) (i_path r))))"
  using assms answer_error_same [of srv _ _ w w']
  by (auto simp: serve_file_def Let_def act_def path_of_def stores_def runs_script_def reads_file_def slash_redirect_def
      split: if_splits bind_splits option.splits)

text \<open>The request of the connection is the one that arrived.\<close>

definition same_request :: "mg_connection \<Rightarrow> mg_connection \<Rightarrow> bool" where
  "same_request c c' \<longleftrightarrow> conn_type c' = conn_type c \<and> proto_type c' = proto_type c \<and> request_info c' = request_info c"

lemma same_request_refl [simp]: "same_request c c"
  by (simp add: same_request_def)

lemma same_request_update [simp]:
  "same_request c (c'\<lparr>request_state := s\<rparr>) = same_request c c'" "same_request c (c'\<lparr>throttle := t\<rparr>) = same_request c c'"
  by (simp_all add: same_request_def)

lemma same_request_trans: "same_request a b \<Longrightarrow> same_request b c \<Longrightarrow> same_request a c"
  by (simp add: same_request_def)

text \<open>The application's callbacks do not change the request.\<close>

definition callbacks_ok :: "'s server \<Rightarrow> bool" where
  "callbacks_ok srv \<longleftrightarrow> (\<forall>f d c. same_request c (snd (s_request_callback srv f d c)))
     \<and> (\<forall>f d c. same_request c (snd (s_auth_callback srv f d c)))
     \<and> (\<forall>f c. s_begin_request srv = Some f \<longrightarrow> same_request c (snd (f c)))"

text \<open>The application's handler that is registered for a URI: one for WebSockets when the client wants one.\<close>

definition responsible :: "mg_handler_info list \<Rightarrow> string \<Rightarrow> mg_connection \<Rightarrow> mg_handler_info option" where
  "responsible hs u c =
     fst (get_request_handler (if proto_type c = PROTOCOL_TYPE_WEBSOCKET then WEBSOCKET_HANDLER else REQUEST_HANDLER) u hs)"

text \<open>The callback \<open>begin_request\<close> lets the request pass, and leaves the connection \<open>c'\<close>.\<close>

definition passed :: "'s server \<Rightarrow> mg_connection \<Rightarrow> mg_connection \<Rightarrow> bool" where
  "passed srv c c' \<longleftrightarrow> (case s_begin_request srv of None \<Rightarrow> c' = c | Some f \<Rightarrow> f c = (0, c'))"

text \<open>The request becomes one for a file: no handler is registered for it, or the one that is registered has been called, as it was
  granted, and has not answered. It leaves the connection \<open>c'\<close>.\<close>

definition declined :: "'s server \<Rightarrow> mg_handler_info list \<Rightarrow> auth_context \<Rightarrow> string \<Rightarrow> mg_connection \<Rightarrow> mg_connection \<Rightarrow> bool" where
  "declined srv hs ctx u c c' \<longleftrightarrow>
     (case responsible hs u c of
        None \<Rightarrow> c' = c
      | Some h \<Rightarrow> proto_type c \<noteq> PROTOCOL_TYPE_WEBSOCKET \<and> granted srv hs ctx u False [] c
          \<and> (\<exists>f i. req_handler h = Some f \<and> s_request_callback srv f (cbdata h) (asked srv hs u c) = (i, c') \<and> i \<le> 0))"

definition acts_on :: "'s server \<Rightarrow> auth_context \<Rightarrow> string \<Rightarrow> mg_connection \<Rightarrow> file_action \<Rightarrow> bool" where
  "acts_on srv ctx u c a \<longleftrightarrow>
     (let r = interpret_uri (s_site srv) (request_method ctx) c u
      in path_of a = i_path r \<and> (stores a \<longleftrightarrow> i_put r \<and> \<not> i_script r) \<and> (runs_script a \<longleftrightarrow> i_script r)
         \<and> (reads_file a \<longrightarrow> i_found r \<and> \<not> must_hide_file (s_site srv) (i_path r)))"

text \<open>What may run for the cleaned URI \<open>u\<close> on a connection on which the request has passed, with the handlers \<open>hs\<close> registered.\<close>

definition allowed :: "'s server \<Rightarrow> mg_handler_info list \<Rightarrow> auth_context \<Rightarrow> string \<Rightarrow> mg_connection \<Rightarrow> event \<Rightarrow> bool" where
  "allowed srv hs ctx u c e \<longleftrightarrow>
     (case e of
        Called f d \<Rightarrow> proto_type c \<noteq> PROTOCOL_TYPE_WEBSOCKET \<and> granted srv hs ctx u False [] c
          \<and> (\<exists>h. responsible hs u c = Some h \<and> req_handler h = Some f \<and> cbdata h = d)
      | Session k d \<Rightarrow> proto_type c = PROTOCOL_TYPE_WEBSOCKET \<and> granted srv hs ctx u False [] c
          \<and> (\<exists>h. responsible hs u c = Some h \<and> ws h = k \<and> cbdata h = d)
      | Acted a \<Rightarrow> \<exists>c'. declined srv hs ctx u c c' \<and> acts_on srv ctx u c' a \<and> granted srv hs ctx u (stores a) (path_of a) c')"

lemma file_resource_log:
  assumes "file_resource srv mem q uri_len tmp hi w = Some w'"
  shows "w_log w' = w_log w \<or> (\<exists>a. w_log w' = w_log w @ [Acted a] \<and> acts_on srv (w_auth w) (str_at tmp 0) (w_conn w) a
    \<and> granted srv (w_handlers w) (w_auth w) (str_at tmp 0) (stores a) (path_of a) (w_conn w))"
proof -
  define r where "r = interpret_uri (s_site srv) (request_method (w_auth w)) (w_conn w) (str_at tmp 0)"
  obtain ok w1 where auth: "authorization srv (str_at tmp 0) (i_put r \<and> \<not> i_script r) (i_path r) hi w = Some (ok, w1)"
    using assms by (auto simp: file_resource_def Let_def r_def [symmetric] split: bind_splits)
  show ?thesis
  proof (cases ok)
    case False
    then have "w' = w1" using assms auth by (simp add: file_resource_def Let_def r_def [symmetric])
    moreover from False have "ok = False" by simp
    ultimately show ?thesis using authorization_refused [OF auth [unfolded \<open>ok = False\<close>]] by simp
  next
    case True
    note g = authorization_granted [OF auth [unfolded True eqTrueI [OF True]]]
    show ?thesis
    proof (cases "i_ws r")
      case True
      then show ?thesis
        using assms auth \<open>ok\<close> g answer_error_same [of srv _ _ w1 w']
        by (auto simp: file_resource_def Let_def r_def [symmetric] split: if_splits)
    next
      case False
      then have "serve_file srv mem q uri_len tmp r w1 = Some w'"
        using assms auth \<open>ok\<close> by (simp add: file_resource_def Let_def r_def [symmetric])
      from serve_file_log [OF this] g show ?thesis unfolding acts_on_def Let_def r_def [symmetric] by auto
    qed
  qed
qed

lemma release_acquire [simp]: "release_handler_ref (Some a) (acquire a hs) = hs"
  by (simp add: release_handler_ref_def acquire_def comp_def map_idI)

lemma callback_resource_log:
  assumes "callback_resource srv mem q uri_len tmp is_ws h (w\<lparr>w_handlers := hs\<rparr>) = Some w'"
    and "is_ws \<longleftrightarrow> proto_type (w_conn w) = PROTOCOL_TYPE_WEBSOCKET" "responsible (w_handlers w) (str_at tmp 0) (w_conn w) = Some h"
    and "hs = (if is_ws then w_handlers w else acquire (node h) (w_handlers w))"
  shows "\<exists>es. w_log w' = w_log w @ es \<and> (\<forall>e \<in> set es. allowed srv (w_handlers w) (w_auth w) (str_at tmp 0) (w_conn w) e)"
proof -
  define hi where "hi = (if is_ws then None else Some (node h))"
  define u where "u = str_at tmp 0"
  note run = assms(1) [unfolded callback_resource_def Let_def, folded hi_def u_def]
  obtain ok w1 where auth: "authorization srv u False [] hi (w\<lparr>w_handlers := hs\<rparr>) = Some (ok, w1)"
    using run by (auto split: bind_splits)
  show ?thesis
  proof (cases ok)
    case False
    then have "w' = w1" using run auth by simp
    moreover from False have "ok = False" by simp
    ultimately show ?thesis using authorization_refused [OF auth [unfolded \<open>ok = False\<close>]] by simp
  next
    case True
    note g = authorization_granted [OF auth [unfolded True eqTrueI [OF True]]]
    have w1: "w_handlers w1 = hs" "w_log w1 = w_log w" "w_auth w1 = w_auth w" "w_conn w1 = asked srv (w_handlers w) u (w_conn w)"
      "granted srv (w_handlers w) (w_auth w) u False [] (w_conn w)"
      using g assms(4) by (auto split: if_splits)
    show ?thesis
    proof (cases is_ws)
      case True
      then have "w_log w' = w_log w @ [Session (ws h) (cbdata h)]" using run auth \<open>ok\<close> w1(2) by auto
      moreover have "allowed srv (w_handlers w) (w_auth w) u (w_conn w) (Session (ws h) (cbdata h))"
        using True assms(2,3) w1(5) by (simp add: allowed_def u_def)
      ultimately show ?thesis by (auto simp: u_def)
    next
      case False
      obtain f where f: "req_handler h = Some f"
        using run auth \<open>ok\<close> False by (auto split: bind_splits)
      obtain i c2 where call: "s_request_callback srv f (cbdata h) (w_conn w1) = (i, c2)" by fastforce
      define w2 where "w2 = w1\<lparr>w_conn := c2, w_handlers := release_handler_ref hi (w_handlers w1), w_log := w_log w1 @ [Called f (cbdata h)]\<rparr>"
      have first: "allowed srv (w_handlers w) (w_auth w) u (w_conn w) (Called f (cbdata h))"
        using False assms(2,3) w1(5) f by (simp add: allowed_def u_def)
      show ?thesis
      proof (cases "0 < i")
        case True
        then have "w_log w' = w_log w @ [Called f (cbdata h)]"
          using run auth \<open>ok\<close> False f call w1(2) by auto
        then show ?thesis using first by (auto simp: u_def)
      next
        case no: False
        then have "file_resource srv mem q uri_len tmp hi w2 = Some w'"
          using run auth \<open>ok\<close> False f call by (simp add: w2_def)
        note log = file_resource_log [OF this, folded u_def]
        have w2: "w_handlers w2 = w_handlers w" "w_auth w2 = w_auth w" "w_conn w2 = c2" "w_log w2 = w_log w @ [Called f (cbdata h)]"
          using False w1 assms(4) by (simp_all add: w2_def hi_def)
        have "declined srv (w_handlers w) (w_auth w) u (w_conn w) c2"
          using no False assms(2,3) w1(5) f call [unfolded w1(4)] by (simp add: declined_def u_def not_less)
        with log have "w_log w' = w_log w2 \<or> (\<exists>a. w_log w' = w_log w2 @ [Acted a]
            \<and> allowed srv (w_handlers w) (w_auth w) u (w_conn w) (Acted a))"
          unfolding allowed_def w2(1-3) by auto
        then show ?thesis using first by (auto simp: w2(4) u_def)
      qed
    qed
  qed
qed

lemma route_log:
  assumes "route srv mem q n tmp w = Some w'"
  shows "\<exists>es. w_log w' = w_log w @ es \<and> (\<forall>e \<in> set es. allowed srv (w_handlers w) (w_auth w) (str_at tmp 0) (w_conn w) e)"
proof (cases "if request_method (w_auth w) = Some ''OPTIONS'' then cors_preflight srv (w_conn w) else None")
  case (Some c)
  then show ?thesis using assms(1) by (auto simp: route_def)
next
  case None
  define is_ws where "is_ws = (proto_type (w_conn w) = PROTOCOL_TYPE_WEBSOCKET)"
  obtain h hs where look: "get_request_handler (if is_ws then WEBSOCKET_HANDLER else REQUEST_HANDLER) (str_at tmp 0) (w_handlers w) = (h, hs)"
    by fastforce
  then have r: "responsible (w_handlers w) (str_at tmp 0) (w_conn w) = h" by (simp add: responsible_def is_ws_def)
  have step: "(case h of Some h \<Rightarrow> callback_resource srv mem q n tmp is_ws h (w\<lparr>w_handlers := hs\<rparr>)
      | None \<Rightarrow> file_resource srv mem q n tmp None (w\<lparr>w_handlers := hs\<rparr>)) = Some w'"
    using assms(1) [unfolded route_def None option.case Let_def, folded is_ws_def] look by simp
  have hs: "hs = (case h of None \<Rightarrow> w_handlers w | Some h \<Rightarrow> if is_ws then w_handlers w else acquire (node h) (w_handlers w))"
    using look by (auto simp: get_request_handler_candidates split: list.splits if_splits)
  show ?thesis
  proof (cases h)
    case (Some h')
    then show ?thesis using callback_resource_log [of srv mem q n tmp is_ws h' hs w w'] step r hs is_ws_def by simp
  next
    case h: None
    then have "file_resource srv mem q n tmp None (w\<lparr>w_handlers := hs\<rparr>) = Some w'" using step by simp
    moreover have "declined srv (w_handlers w) (w_auth w) (str_at tmp 0) (w_conn w) (w_conn w)" using r h by (simp add: declined_def)
    ultimately show ?thesis using file_resource_log [of srv mem q n tmp None "w\<lparr>w_handlers := hs\<rparr>" w'] h hs
      by (auto simp: allowed_def)
  qed
qed

lemma begin_request_log:
  assumes "begin_request_step srv mem q n tmp w = Some w'"
  shows "\<exists>es. w_log w' = w_log w @ es \<and> (es \<noteq> [] \<longrightarrow> (\<exists>c. passed srv (w_conn w) c
    \<and> (\<forall>e \<in> set es. allowed srv (w_handlers w) (w_auth w) (str_at tmp 0) c e)))"
proof (cases "s_begin_request srv")
  case None
  then show ?thesis using assms route_log [of srv mem q n tmp w w'] by (auto simp: begin_request_step_def passed_def)
next
  case (Some f)
  obtain i c where f: "f (w_conn w) = (i, c)" by fastforce
  show ?thesis
  proof (cases "i = 0")
    case True
    then have "route srv mem q n tmp (w\<lparr>w_conn := c\<rparr>) = Some w'" using assms(1) Some f by (simp add: begin_request_step_def)
    from route_log [OF this] show ?thesis using True f Some by (auto simp: passed_def)
  next
    case False
    then have "w_log w' = w_log w" using assms(1) Some f by (auto simp: begin_request_step_def Let_def split: if_splits)
    then show ?thesis by simp
  qed
qed

lemma clean_url_state [simp]: "clean_url (c\<lparr>request_state := s\<rparr>) mem local q = clean_url c mem local q"
proof -
  have "should_decode_url (Some (c\<lparr>request_state := s\<rparr>)) = should_decode_url (Some c)"
    "should_decode_query_string (Some (c\<lparr>request_state := s\<rparr>)) = should_decode_query_string (Some c)"
    by (simp_all add: should_decode_url_def should_decode_query_string_def)
  then show ?thesis by (simp only: clean_url_def)
qed

lemma handle_request_log:
  assumes "handle_request srv mem local w = Some w'" "split_query mem = (mem1, q)"
  shows "\<exists>es. w_log w' = w_log w @ es
    \<and> (es \<noteq> [] \<longrightarrow> (\<exists>mem2 n tmp u c. clean_url (w_conn w) mem1 local q = Some (mem2, n, tmp) \<and> u = str_at tmp 0
        \<and> passed srv ((w_conn w)\<lparr>request_state := 0, throttle := s_throttle srv u\<rparr>) c
        \<and> (\<forall>e \<in> set es. allowed srv (w_handlers w) (w_auth w) u c e)))"
proof (cases "s_tls_redirect srv")
  case (Some f)
  then show ?thesis using assms by (auto simp: handle_request_def Let_def)
next
  case None
  obtain mem2 n tmp where url: "clean_url (w_conn w) mem1 local q = Some (mem2, n, tmp)"
    using assms None by (auto simp: handle_request_def Let_def split: bind_splits)
  define w1 where "w1 = w\<lparr>w_conn := (w_conn w)\<lparr>request_state := 0, throttle := s_throttle srv (str_at tmp 0)\<rparr>\<rparr>"
  have w1: "w_handlers w1 = w_handlers w" "w_auth w1 = w_auth w" "w_log w1 = w_log w"
    "w_conn w1 = (w_conn w)\<lparr>request_state := 0, throttle := s_throttle srv (str_at tmp 0)\<rparr>" by (simp_all add: w1_def)
  have "begin_request_step srv mem2 q n tmp w1 = Some w'"
    using assms None url by (simp add: handle_request_def w1_def)
  from begin_request_log [OF this] url show ?thesis unfolding w1 by fastforce
qed

text \<open>C1: no handler of the application runs, no WebSocket session is held and no file is read,
  listed, stored or deleted for a request that is not authorized. Whatever \<open>handle_request\<close> lets
  run has been granted before, on the connection as \<open>begin_request\<close> has left it and with the handlers that are registered when the request
  arrives: by the authorization handler that is registered for the cleaned URI, whose answer counts, or, if there is none, by
  the password file that protects the path (for storing and deleting, by the one for
  \<open>PUT\<close>). The handler that runs, or holds the session, is the one that is registered for the cleaned URI. A file is acted on only if no handler is
  registered, or the one that is has been called, by the same rule, and did not answer; then the request is authorized once more, for the file's path.
  The file is the
  one that \<open>interpret_uri\<close> gives for the cleaned URI, and files that are hidden are not read.\<close>

theorem only_authorized_actions:
  assumes "handle_request srv mem local w = Some w'" "split_query mem = (mem1, q)"
  shows "\<exists>es. w_log w' = w_log w @ es
    \<and> (es \<noteq> [] \<longrightarrow> (\<exists>mem2 n tmp u c. clean_url (w_conn w) mem1 local q = Some (mem2, n, tmp) \<and> u = str_at tmp 0
        \<and> passed srv ((w_conn w)\<lparr>request_state := 0, throttle := s_throttle srv u\<rparr>) c
        \<and> (\<forall>e \<in> set es. allowed srv (w_handlers w) (w_auth w) u c e)))"
  using assms by (rule handle_request_log)

lemma passed_same: "passed srv c c' \<Longrightarrow> callbacks_ok srv \<Longrightarrow> same_request c c'"
  unfolding passed_def callbacks_ok_def by (auto split: option.splits) (metis snd_conv)

lemma asked_same: "callbacks_ok srv \<Longrightarrow> same_request c (asked srv hs u c)"
  unfolding asked_def callbacks_ok_def by (auto split: option.split)

lemma declined_same: "declined srv hs ctx u c c' \<Longrightarrow> callbacks_ok srv \<Longrightarrow> same_request c c'"
  using asked_same [of srv c hs u] same_request_trans [of c "asked srv hs u c" c']
  unfolding declined_def callbacks_ok_def by (auto split: option.splits) (metis snd_conv)

text \<open>The cleaned URI is a normalised path.\<close>

lemma clean_url_normal:
  assumes "clean_url c mem local q = Some (mem', n, tmp)"
  shows "cstring (str_at tmp 0) \<and> no_climb (str_at tmp 0)"
proof -
  obtain m where "remove_dot_segments (Some (str_at m local @ [NUL])) = Some (Some tmp)"
    using assms by (auto simp: clean_url_def Let_def split: bind_splits)
  moreover obtain tmp' where "remove_dot_segments (Some (str_at m local @ [NUL])) = Some (Some tmp')"
    "str_at tmp' 0 = normal_path (str_at m local)"
    using remove_dot_segments_spec [of "str_at m local" "str_at m local @ [NUL]"] by auto
  ultimately have "str_at tmp 0 = normal_path (str_at m local)" by simp
  moreover have "no_climb (normal_path v)" for v
    using clean_segments [OF clean_normal_path, of "''..''" v] by (auto simp: no_climb_def)
  ultimately show ?thesis using cstring_str_at by metis
qed

text \<open>C2: no request reaches a file outside the document root. Whatever the URI is, with dot
  segments, backslashes or escapes of them, and whatever the method, the file that
  \<open>handle_request\<close> sends, lists, stores, deletes or runs lies in the document root; the one
  exception is a directory above the root whose name matches the pattern for scripts. This is so for callbacks that leave the request alone, and for a
  configuration that does not itself lead out of the root: one without \<open>url_rewrite_patterns\<close>, whose names of index files have no
  segment \<open>..\<close>, and whose \<open>allow_index_script_resource\<close> is not \<open>yes\<close>, as by default.\<close>

theorem requests_stay_in_root:
  assumes "handle_request srv mem local w = Some w'" "callbacks_ok srv" "w_log w = []" "Acted a \<in> set (w_log w')"
    and "root_of (s_site srv) (w_conn w) = Some root" "root \<noteq> []" "last root \<noteq> CHR ''/''" "cstring root"
    and "URL_REWRITE_PATTERN (s_site srv) = None" "\<forall>v \<in> set (index_names (s_site srv)). cstring v \<and> no_climb v"
    and "mg_strcasecmp (ALLOW_INDEX_SCRIPT_SUB_RES (s_site srv)) ''yes'' \<noteq> 0"
  shows "path_of a = [] \<or> inside_root root (path_of a) \<or> runs_script a \<and> above_root (s_site srv) root (path_of a)"
proof -
  obtain mem1 q where split: "split_query mem = (mem1, q)" by fastforce
  from handle_request_log [OF assms(1) split] assms(3,4) obtain mem2 n tmp u c0 where
    url: "clean_url (w_conn w) mem1 local q = Some (mem2, n, tmp)" "u = str_at tmp 0"
      "passed srv ((w_conn w)\<lparr>request_state := 0, throttle := s_throttle srv u\<rparr>) c0"
      "allowed srv (w_handlers w) (w_auth w) u c0 (Acted a)" by fastforce
  then obtain c r where c: "declined srv (w_handlers w) (w_auth w) u c0 c" "r = interpret_uri (s_site srv) (request_method (w_auth w)) c u"
    "path_of a = i_path r" "runs_script a \<longleftrightarrow> i_script r" by (auto simp: allowed_def acts_on_def Let_def)
  have "same_request (w_conn w) c0" using passed_same [OF url(3) assms(2)] by (simp add: same_request_def)
  then have r: "same_request (w_conn w) c" "r = interpret_uri (s_site srv) (request_method (w_auth w)) c (str_at tmp 0)"
    "path_of a = i_path r" "runs_script a \<longleftrightarrow> i_script r"
    using same_request_trans [OF _ declined_same [OF c(1) assms(2)]] c(2-4) url(2) by simp_all
  have root: "root_of (s_site srv) c = Some root" using r(1) assms(5) by (simp add: root_of_def same_request_def)
  show ?thesis
    using files_inside [OF root assms(6-9) _ _ assms(10,11) r(2)] clean_url_normal [OF url(1)] r(3,4) by simp
qed

section \<open>References to handlers\<close>

lemma release_None [simp]: "release_handler_ref None hs = hs"
  by (simp add: release_handler_ref_def)

lemma get_handler_acquires:
  "get_request_handler t u hs = (res, hs') \<Longrightarrow>
   hs' = (case res of Some h \<Rightarrow> if t = REQUEST_HANDLER then acquire (node h) hs else hs | None \<Rightarrow> hs)"
  by (auto simp: get_request_handler_candidates split: list.splits if_splits)

lemma file_resource_handlers:
  assumes "file_resource srv mem q n tmp None w = Some w'"
  shows "w_handlers w' = w_handlers w"
proof -
  define r where "r = interpret_uri (s_site srv) (request_method (w_auth w)) (w_conn w) (str_at tmp 0)"
  note run = assms [unfolded file_resource_def Let_def, folded r_def]
  obtain ok w1 where auth: "authorization srv (str_at tmp 0) (i_put r \<and> \<not> i_script r) (i_path r) None w = Some (ok, w1)"
    using run by (auto split: bind_splits)
  have "w_handlers w1 = w_handlers w"
    using authorization_granted [of srv _ _ _ _ w w1] authorization_refused [of srv _ _ _ _ w w1] auth by (cases ok) fastforce+
  moreover have "w_handlers w' = w_handlers w1"
    using run auth answer_error_same [of srv _ _ w1 w'] serve_file_log [of srv mem q n tmp r w1 w'] by (auto split: if_splits)
  ultimately show ?thesis by simp
qed

lemma callback_resource_handlers:
  assumes "callback_resource srv mem q n tmp is_ws h w = Some w'" "\<forall>f d c. 0 < fst (s_request_callback srv f d c)"
  shows "w_handlers w' = release_handler_ref (if is_ws then None else Some (node h)) (w_handlers w)"
proof -
  define hi where "hi = (if is_ws then None else Some (node h))"
  note run = assms(1) [unfolded callback_resource_def Let_def, folded hi_def]
  obtain ok w1 where auth: "authorization srv (str_at tmp 0) False [] hi w = Some (ok, w1)"
    using run by (auto split: bind_splits)
  show ?thesis
  proof (cases ok)
    case False
    then have "w' = w1" "ok = False" using run auth by simp_all
    then show ?thesis using authorization_refused [OF auth [unfolded \<open>ok = False\<close>]] by (simp add: hi_def)
  next
    case True
    note g = authorization_granted [OF auth [unfolded True eqTrueI [OF True]]]
    show ?thesis
    proof (cases is_ws)
      case True
      then show ?thesis using run auth \<open>ok\<close> g by auto
    next
      case False
      obtain f where f: "req_handler h = Some f" using run auth \<open>ok\<close> False by (auto split: bind_splits)
      obtain i c2 where call: "s_request_callback srv f (cbdata h) (w_conn w1) = (i, c2)" by fastforce
      have "0 < i" using assms(2) call by (metis fst_conv)
      then show ?thesis using run auth \<open>ok\<close> False f call g by (auto simp: hi_def)
    qed
  qed
qed

text \<open>C16: the references to request handlers are balanced: when the application's request
  handlers report that they have answered, then after a request, however it ended, every
  handler has the reference count it had before.\<close>

theorem handler_refs_balanced:
  assumes "handle_request srv mem local w = Some w'" "\<forall>f d c. 0 < fst (s_request_callback srv f d c)"
  shows "w_handlers w' = w_handlers w"
proof -
  have route: "w_handlers w2 = w_handlers w1" if "route srv mem1 q n tmp w1 = Some w2" for mem1 q n tmp w1 w2
  proof (cases "if request_method (w_auth w1) = Some ''OPTIONS'' then cors_preflight srv (w_conn w1) else None")
    case (Some c)
    then show ?thesis using that by (auto simp: route_def)
  next
    case None
    define is_ws where "is_ws = (proto_type (w_conn w1) = PROTOCOL_TYPE_WEBSOCKET)"
    obtain h hs where look: "get_request_handler (if is_ws then WEBSOCKET_HANDLER else REQUEST_HANDLER) (str_at tmp 0) (w_handlers w1) = (h, hs)"
      by fastforce
    note step = that [unfolded route_def None option.case Let_def, folded is_ws_def, unfolded look prod.case]
    show ?thesis
      using step get_handler_acquires [OF look] file_resource_handlers [of srv mem1 q n tmp "w1\<lparr>w_handlers := hs\<rparr>" w2]
        callback_resource_handlers [of srv mem1 q n tmp is_ws _ "w1\<lparr>w_handlers := hs\<rparr>" w2, OF _ assms(2)]
      by (cases h; cases is_ws) simp_all
  qed
  have begin': "w_handlers w2 = w_handlers w1" if "begin_request_step srv mem1 q n tmp w1 = Some w2" for mem1 q n tmp w1 w2
    using that route [of mem1 q n tmp _ w2]
    by (fastforce simp: begin_request_step_def Let_def split: option.splits prod.splits if_splits)
  obtain mem1 q where split: "split_query mem = (mem1, q)" by fastforce
  show ?thesis
  proof (cases "s_tls_redirect srv")
    case (Some f)
    then show ?thesis using assms(1) split by (auto simp: handle_request_def Let_def)
  next
    case None
    obtain mem2 n tmp where url: "clean_url (w_conn w) mem1 local q = Some (mem2, n, tmp)"
      using assms(1) split None by (auto simp: handle_request_def Let_def split: bind_splits)
    show ?thesis using assms(1) split None url begin' [of mem2 q n tmp _ w'] by (simp add: handle_request_def)
  qed
qed

subsection \<open>A handler that declines\<close>

lemma no_auth_handler:
  assumes "\<forall>g \<in> set hs. htype g \<noteq> AUTH_HANDLER"
  shows "fst (get_request_handler AUTH_HANDLER u hs) = None"
proof -
  have "candidates AUTH_HANDLER u hs = []" using assms by (auto simp: candidates_def filter_empty_conv)
  then show ?thesis by (simp add: get_request_handler_candidates)
qed

lemma acquire_types: "\<forall>g \<in> set hs. htype g \<noteq> t \<Longrightarrow> \<forall>g \<in> set (acquire a hs). htype g \<noteq> t"
  "\<forall>g \<in> set hs. htype g \<noteq> t \<Longrightarrow> \<forall>g \<in> set (release_handler_ref p hs). htype g \<noteq> t"
  by (auto simp: acquire_def release_handler_ref_def split: option.splits)

lemma unprotected:
  assumes "\<forall>g \<in> set (w_handlers w). htype g \<noteq> AUTH_HANDLER" "auth_file ((s_protect srv)\<lparr>local_uri := u\<rparr>) (s_files srv) path = None"
  shows "authorization srv u False path hi w = Some (True, w)"
  using no_auth_handler [OF assms(1)] assms(2) by (simp add: authorization_def check_authorization_def set_user_def Let_def)

lemma anonymous_refused:
  assumes "\<forall>g \<in> set (w_handlers w). htype g \<noteq> AUTH_HANDLER"
    and "auth_file ((s_protect srv)\<lparr>local_uri := u\<rparr>) (s_files srv) path = Some fp"
    and "mg_get_header (Some (w_conn w)) ''Authorization'' = None" "ADDITIONAL_HEADER (reply_cfg (s_env srv)) = None"
  shows "\<exists>w'. authorization srv u False path hi w = Some (False, w') \<and> w_handlers w' = release_handler_ref hi (w_handlers w)"
proof -
  have "check_authorization (w_auth w) ((s_protect srv)\<lparr>local_uri := u\<rparr>) (s_md5 srv) (s_files srv) (s_buf srv) (Some (w_conn w)) path
      = Some (False, None)"
    using assms(2,3) by (simp add: check_authorization_def authorize_def parse_auth_header_def)
  moreover have "\<exists>c. send_additional_header (malloc_ok (s_env srv)) (reply_cfg (s_env srv)) conn = Some c" for conn
    using assms(4) by (simp add: send_additional_header_def)
  then have "challenge srv w \<noteq> None"
    by (simp add: challenge_def send_authorization_request_def Let_def) (metis Option.bind_lunit option.distinct(1))
  ultimately show ?thesis
    using no_auth_handler [OF assms(1)] challenge_same [of srv w]
    by (auto simp: authorization_def set_user_def Let_def)
qed

text \<open>A request handler that declines (it returns 0) is released, then the request is treated as
  one for a file. When that one is protected and the request refused, the handler is released
  once more: its reference count is one too small afterwards, and for a handler that nobody
  else uses the largest number of 32 bits. It counts as used from then on, and cannot be
  changed or removed any more.\<close>

theorem declined_handler_released_twice:
  assumes "w_handlers w = acquire (node h) hs" "\<forall>g \<in> set hs. htype g \<noteq> AUTH_HANDLER"
    and "req_handler h = Some f" "s_request_callback srv f (cbdata h) (w_conn w) = (0, c2)"
    and "mg_get_header (Some c2) ''Authorization'' = None" "ADDITIONAL_HEADER (reply_cfg (s_env srv)) = None"
    and "auth_file ((s_protect srv)\<lparr>local_uri := str_at tmp 0\<rparr>) (s_files srv) [] = None"
    and "r = interpret_uri (s_site srv) (request_method (w_auth w)) c2 (str_at tmp 0)" "\<not> i_put r"
    and "auth_file ((s_protect srv)\<lparr>local_uri := str_at tmp 0\<rparr>) (s_files srv) (i_path r) = Some fp"
  shows "\<exists>w'. callback_resource srv mem q n tmp False h w = Some w' \<and> w_handlers w' = release_handler_ref (Some (node h)) hs
    \<and> (\<forall>g \<in> set hs. node g = node h \<and> refcount g = 0 \<longrightarrow> g\<lparr>refcount := 0xFFFFFFFF\<rparr> \<in> set (w_handlers w'))"
proof -
  define w1 where "w1 = w\<lparr>w_conn := c2, w_handlers := hs, w_log := w_log w @ [Called f (cbdata h)]\<rparr>"
  have types: "\<forall>g \<in> set (w_handlers w). htype g \<noteq> AUTH_HANDLER" using acquire_types(1) assms(1,2) by simp
  have "callback_resource srv mem q n tmp False h w = file_resource srv mem q n tmp (Some (node h)) w1"
    using unprotected [OF types assms(7)] assms(1,3,4) by (simp add: callback_resource_def w1_def)
  moreover obtain w' where "authorization srv (str_at tmp 0) (i_put r \<and> \<not> i_script r) (i_path r) (Some (node h)) w1 = Some (False, w')"
    "w_handlers w' = release_handler_ref (Some (node h)) hs"
    using anonymous_refused [where w = w1 and hi = "Some (node h)", OF _ assms(10)] assms(2,5,6,9) by (auto simp: w1_def)
  moreover have "\<forall>g \<in> set hs. node g = node h \<and> refcount g = 0 \<longrightarrow>
      g\<lparr>refcount := 0xFFFFFFFF\<rparr> \<in> set (release_handler_ref (Some (node h)) hs)"
  proof (intro ballI impI)
    fix g
    assume g: "g \<in> set hs" "node g = node h \<and> refcount g = 0"
    have "(0 :: u32) - 1 = 0xFFFFFFFF" by simp
    with g show "g\<lparr>refcount := 0xFFFFFFFF\<rparr> \<in> set (release_handler_ref (Some (node h)) hs)"
      by (auto simp: release_handler_ref_def image_iff intro!: bexI [of _ g])
  qed
  ultimately show ?thesis using assms(8) by (auto simp: file_resource_def w1_def)
qed

section \<open>The cleaned URI\<close>

text \<open>The path that a URI stands for: decoded if the configuration says so (an escaped zero ends
  it), then normalised.\<close>

definition decoded_path :: "mg_connection \<Rightarrow> string \<Rightarrow> string" where
  "decoded_path c s = takeWhile (\<lambda>x. x \<noteq> NUL) (if should_decode_url (Some c) then url_decoded False s else s)"

lemma url_decoded_length: "length (url_decoded form s) \<le> length s"
  by (induction form s rule: url_decoded.induct) auto

lemma clean_url_spec:
  assumes "cstring s" "q = None \<or> \<not> should_decode_query_string (Some c)"
  shows "\<exists>mem tmp. clean_url c (pre @ s @ NUL # post) (length pre) q = Some (mem, length s, tmp)
    \<and> str_at tmp 0 = normal_path (decoded_path c s) \<and> length tmp = length (decoded_path c s) + 1
    \<and> take (length pre) mem = pre"
proof -
  define mem0 where "mem0 = pre @ s @ NUL # post"
  have s0: "str_at mem0 (length pre) = s" by (rule str_atI [OF assms(1)]) (simp add: mem0_def)
  have "\<exists>mem. (if should_decode_url (Some c) then map_option fst (mg_url_decode mem0 (length pre) (length s) (length pre) (length s + 1) False)
      else Some mem0) = Some mem \<and> str_at mem (length pre) = decoded_path c s \<and> take (length pre) mem = pre"
  proof (cases "should_decode_url (Some c)")
    case False
    have "decoded_path c s = s" using assms(1) False unfolding decoded_path_def by (auto simp: cstring_def)
    then show ?thesis using s0 False by (simp add: mem0_def)
  next
    case True
    define out where "out = url_decoded False s"
    have sl: "slice mem0 (length pre) (length s) = s" by (simp add: slice_def mem0_def)
    have lo: "length out \<le> length s" unfolding out_def by (rule url_decoded_length)
    obtain mem where m: "mg_url_decode mem0 (length pre) (length s) (length pre) (length s + 1) False = Some (mem, int (length out))"
      "slice mem (length pre) (length out + 1) = out @ [NUL]" "take (length pre) mem = take (length pre) mem0"
      using mg_url_decode_spec [of "length pre" "length s" mem0 "length pre" "length s + 1" out False "length out"] lo sl
      by (auto simp: mem0_def out_def)
    have "drop (length pre) mem = out @ NUL # drop (length pre + length out + 1) mem"
      using m(2) append_take_drop_id [of "length out + 1" "drop (length pre) mem"] by (simp add: slice_def add.commute)
    then have "str_at mem (length pre) = takeWhile (\<lambda>x. x \<noteq> NUL) out" by (simp add: str_at_def takeWhile_tail)
    then show ?thesis using m True by (simp add: decoded_path_def out_def mem0_def)
  qed
  then obtain mem where dec: "(if should_decode_url (Some c) then map_option fst (mg_url_decode mem0 (length pre) (length s) (length pre) (length s + 1) False)
      else Some mem0) = Some mem" "str_at mem (length pre) = decoded_path c s" "take (length pre) mem = pre" by blast
  have "cstring (decoded_path c s)" by (auto simp: decoded_path_def cstring_def dest: set_takeWhileD)
  then obtain tmp where "remove_dot_segments (Some (decoded_path c s @ [NUL])) = Some (Some tmp)"
    "length tmp = length (decoded_path c s @ [NUL])" "str_at tmp 0 = normal_path (decoded_path c s)"
    using remove_dot_segments_spec [of "decoded_path c s" "decoded_path c s @ [NUL]"] by auto
  then show ?thesis
    using dec assms(2) unfolding clean_url_def mem0_def [symmetric] s0 Let_def by (auto split: option.split)
qed

text \<open>The request for a URI whose handler is registered, when nothing protects it.\<close>

lemma handled_by_callback:
  assumes "s_tls_redirect srv = None" "s_begin_request srv = None" "request_method (w_auth w) \<noteq> Some ''OPTIONS''"
    and "proto_type (w_conn w) = PROTOCOL_TYPE_HTTP1" "split_query mem = (mem1, q)"
    and "clean_url (w_conn w) mem1 local q = Some (mem2, n, tmp)" "str_at tmp 0 = u"
    and "get_request_handler REQUEST_HANDLER u (w_handlers w) = (Some h, acquire (node h) (w_handlers w))"
    and "\<forall>g \<in> set (w_handlers w). htype g \<noteq> AUTH_HANDLER"
    and "auth_file ((s_protect srv)\<lparr>local_uri := u\<rparr>) (s_files srv) [] = None" "req_handler h = Some f"
    and "s_request_callback srv f (cbdata h) ((w_conn w)\<lparr>request_state := 0, throttle := s_throttle srv u\<rparr>) = (i, c)" "0 < i"
  shows "handle_request srv mem local w
    = Some (w\<lparr>w_conn := (if must_close c then c\<lparr>conn_status_code := i\<rparr> else discard_unread_request_data (c\<lparr>conn_status_code := i\<rparr>)),
        w_log := w_log w @ [Called f (cbdata h)]\<rparr>)"
proof -
  define w1 where "w1 = w\<lparr>w_conn := (w_conn w)\<lparr>request_state := 0, throttle := s_throttle srv u\<rparr>, w_handlers := acquire (node h) (w_handlers w)\<rparr>"
  have "authorization srv u False [] (Some (node h)) w1 = Some (True, w1)"
    using unprotected [where w = w1 and u = u and path = "[]"] acquire_types(1) [OF assms(9)] assms(10) by (simp add: w1_def)
  then have "callback_resource srv mem2 q n tmp False h w1
      = Some (w\<lparr>w_conn := (if must_close c then c\<lparr>conn_status_code := i\<rparr> else discard_unread_request_data (c\<lparr>conn_status_code := i\<rparr>)),
        w_log := w_log w @ [Called f (cbdata h)]\<rparr>)"
    using assms(7,11-13) by (simp add: callback_resource_def w1_def Let_def)
  moreover have "handle_request srv mem local w = callback_resource srv mem2 q n tmp False h w1"
    using assms(1-8) by (simp add: handle_request_def begin_request_step_def route_def w1_def)
  ultimately show ?thesis by simp
qed

section \<open>Directories\<close>

text \<open>The test of step 12 uses the length that the URI had before it was decoded. When the URI of
  a directory contains an escape, the server looks behind the buffer of the cleaned URI.\<close>

lemma serve_directory_overread:
  assumes "DOCUMENT_ROOT (s_site srv) \<noteq> None" "\<not> i_script r" "\<not> i_put r" "i_found r" "\<not> must_hide_file (s_site srv) (i_path r)"
    and "f_directory (i_stat r)" "length tmp < uri_len"
  shows "serve_file srv mem q uri_len tmp r w = None"
proof -
  obtain root where "DOCUMENT_ROOT (s_site srv) = Some root" using assms(1) by blast
  moreover have "rd tmp (uri_len - 1) = None" "0 < uri_len" using assms(7) by (auto simp: rd_def)
  ultimately show ?thesis unfolding serve_file_def Let_def using assms(2-6) by simp
qed

theorem escaped_directory_overread:
  assumes "cstring s" "should_decode_url (Some c)" "length (url_decoded False s) + 2 \<le> length s"
    and "DOCUMENT_ROOT (s_site srv) \<noteq> None"
  shows "\<exists>mem tmp. clean_url c (s @ NUL # post) 0 None = Some (mem, length s, tmp)
    \<and> (\<forall>r w. \<not> i_script r \<and> \<not> i_put r \<and> i_found r \<and> \<not> must_hide_file (s_site srv) (i_path r) \<and> f_directory (i_stat r)
         \<longrightarrow> serve_file srv mem None (length s) tmp r w = None)"
proof -
  obtain mem tmp where url: "clean_url c (s @ NUL # post) 0 None = Some (mem, length s, tmp)"
    "length tmp = length (decoded_path c s) + 1"
    using clean_url_spec [OF assms(1), of None c "[]" post] by auto
  have "length (decoded_path c s) \<le> length (url_decoded False s)"
    using assms(2) by (simp add: decoded_path_def length_takeWhile_le)
  then have "length tmp < length s" using url(2) assms(3) by simp
  then show ?thesis using url(1) serve_directory_overread [OF assms(4)] by blast
qed

lemma escape_shortens: "length (url_decoded False ''/%64ir'') + 2 \<le> length ''/%64ir''"
  by code_simp

section \<open>A server with one file and one handler\<close>

definition example_site :: site where
  "example_site = \<lparr>DOCUMENT_ROOT = Some ''/www'', WEBSOCKET_ROOT = None, URL_REWRITE_PATTERN = None,
    INDEX_FILES = Some ''index.html'', CGI_PATTERNS = [], SSI_EXTENSIONS = None,
    ALLOW_INDEX_SCRIPT_SUB_RES = ''no'', HIDE_FILES = None,
    stat_call = (\<lambda>p. if p = ''/www/a.txt'' then Some \<lparr>f_size = 3, f_modified = 0, f_directory = False, f_gzipped = False\<rparr> else None),
    alloc_path = True\<rparr>"

definition example_srv :: "unit server" where
  "example_srv = \<lparr>s_site = example_site,
    s_protect = \<lparr>GLOBAL_PASSWORDS_FILE = None, PROTECT_URI = None, PUT_DELETE_PASSWORDS_FILE = None, is_directory = (\<lambda>p. False), local_uri = []\<rparr>,
    s_files = (\<lambda>p. None), s_env = example_env, s_md5 = fresh_md5, s_buf = [], s_tls_redirect = None, s_throttle = (\<lambda>u. 0),
    s_begin_request = None, s_request_callback = (\<lambda>f d c. (200, c)), s_auth_callback = (\<lambda>f d c. (1, c)),
    s_ws_callbacks = (\<lambda>k d. \<lparr>on_connect = None, on_ready = None, on_data = None, on_close = None\<rparr>),
    s_subprotocols = (\<lambda>p. None), s_act = (\<lambda>a c. c), ACCESS_CONTROL_ALLOW_METHODS = None, ACCESS_CONTROL_ALLOW_ORIGIN = None,
    ACCESS_CONTROL_ALLOW_HEADERS = None, ENABLE_DIRECTORY_LISTING = ''yes''\<rparr>"

definition example_world :: "unit world" where
  "example_world = \<lparr>w_conn = example_conn\<lparr>DECODE_URL := ''yes''\<rparr>, w_handlers = [example_handler],
    w_auth = bob_context\<lparr>request_method := Some ''GET''\<rparr>, w_user = None, w_app = (), w_log = []\<rparr>"

lemma example_callbacks: "callbacks_ok example_srv"
  by (simp add: callbacks_ok_def example_srv_def)

lemma example_unprotected: "auth_file ((s_protect example_srv)\<lparr>local_uri := u\<rparr>) (s_files example_srv) path = None"
  by (simp add: auth_file_def open_auth_file_def example_srv_def Let_def split: option.split)

lemma example_plain_url:
  assumes "cstring s" "CHR ''?'' \<notin> set s" "CHR ''%'' \<notin> set s" "clean_path s"
  shows "\<exists>mem tmp. split_query (s @ [NUL]) = (s @ [NUL], None)
    \<and> clean_url c (s @ [NUL]) 0 None = Some (mem, length s, tmp) \<and> str_at tmp 0 = s"
proof -
  have k: "takeWhile (\<lambda>c. c \<noteq> CHR ''?'') s = s" using assms(2) by auto
  have "split_query (s @ [NUL]) = (s @ [NUL], None)" unfolding split_query_def str_at_0 [OF assms(1)] k by simp
  moreover have "url_decoded False t = t" if "CHR ''%'' \<notin> set t" for t
    using that by (induction "False" t rule: url_decoded.induct) auto
  then have "decoded_path c s = s" using assms(1,3) by (auto simp: decoded_path_def cstring_def)
  ultimately show ?thesis
    using clean_url_spec [OF assms(1), of None c "[]" "[]"] normal_path_clean [OF assms(4)] by auto
qed

lemma example_handled:
  "\<exists>c. handle_request example_srv (''/a'' @ [NUL]) 0 example_world
    = Some (example_world\<lparr>w_conn := c, w_log := [Called 100 None]\<rparr>)"
proof -
  obtain mem tmp where url: "split_query (''/a'' @ [NUL]) = (''/a'' @ [NUL], None)"
    "clean_url (w_conn example_world) (''/a'' @ [NUL]) 0 None = Some (mem, length ''/a'', tmp)" "str_at tmp 0 = ''/a''"
    using example_plain_url [of "''/a''" "w_conn example_world"] by (auto simp: cstring_def clean_path_def ok_pair_def)
  have look: "get_request_handler REQUEST_HANDLER ''/a'' (w_handlers example_world)
      = (Some example_handler, acquire (node example_handler) (w_handlers example_world))"
    by (simp add: example_world_def get_request_handler_candidates candidates_def matched_exact example_handler_def new_handler_def
        set_fields_def)
  have h: "req_handler example_handler = Some 100" "cbdata example_handler = None" "htype example_handler = REQUEST_HANDLER"
    by (simp_all add: example_handler_def new_handler_def set_fields_def)
  show ?thesis
    using handled_by_callback [of example_srv example_world, OF _ _ _ _ url(1,2,3) look _ example_unprotected h(1), of 200] h
    by (simp add: example_srv_def example_world_def bob_context_def example_conn_def)
qed

theorem handler_refs_balanced_witness:
  "\<exists>w'. handle_request example_srv (''/a'' @ [NUL]) 0 example_world = Some w' \<and> w_handlers w' = [example_handler]"
proof -
  obtain w' where w': "handle_request example_srv (''/a'' @ [NUL]) 0 example_world = Some w'" using example_handled by blast
  have "\<forall>f d c. 0 < fst (s_request_callback example_srv f d c)" by (simp add: example_srv_def)
  from handler_refs_balanced [OF w' this] w' show ?thesis by (simp add: example_world_def)
qed

text \<open>A request whose handler is protected by an authorization handler that grants it, or does not.\<close>

definition guard :: mg_handler_info where
  "guard = example_handler\<lparr>node := 7, htype := AUTH_HANDLER, auth_handler := Some 5, cbdata := Some 9\<rparr>"

definition guarded_srv :: "unit server" where
  "guarded_srv = example_srv\<lparr>s_auth_callback := (\<lambda>f d c. (if f = 5 \<and> d = Some 9 \<and> conn_status_code c = 0 then 1 else 0, c))\<rparr>"

lemma guarded_lookup:
  "fst (get_request_handler AUTH_HANDLER ''/a'' [guard, example_handler]) = Some guard"
  "get_request_handler REQUEST_HANDLER ''/a'' [guard, example_handler] = (Some example_handler, acquire (node example_handler) [guard, example_handler])"
  by (simp_all add: get_request_handler_candidates candidates_def matched_exact guard_def example_handler_def new_handler_def set_fields_def)

lemma guarded_handled:
  assumes "conn_status_code (w_conn example_world) = 0"
  shows "\<exists>c. handle_request guarded_srv (''/a'' @ [NUL]) 0 (example_world\<lparr>w_handlers := [guard, example_handler]\<rparr>)
    = Some (example_world\<lparr>w_handlers := [guard, example_handler], w_conn := c, w_log := [Called 100 None]\<rparr>)"
proof -
  let ?w = "example_world\<lparr>w_handlers := [guard, example_handler]\<rparr>"
  let ?c = "(w_conn example_world)\<lparr>request_state := 0, throttle := 0\<rparr>"
  obtain mem tmp where url: "split_query (''/a'' @ [NUL]) = (''/a'' @ [NUL], None)"
    "clean_url (w_conn ?w) (''/a'' @ [NUL]) 0 None = Some (mem, length ''/a'', tmp)" "str_at tmp 0 = ''/a''"
    using example_plain_url [of "''/a''" "w_conn ?w"] by (auto simp: cstring_def clean_path_def ok_pair_def)
  have h: "req_handler example_handler = Some 100" "cbdata example_handler = None" "htype example_handler = REQUEST_HANDLER"
    by (simp_all add: example_handler_def new_handler_def set_fields_def)
  have g: "auth_handler guard = Some 5" "cbdata guard = Some 9" by (simp_all add: guard_def)
  let ?w1 = "?w\<lparr>w_conn := ?c, w_handlers := acquire (node example_handler) [guard, example_handler]\<rparr>"
  have "\<exists>g'. fst (get_request_handler AUTH_HANDLER ''/a'' (acquire (node example_handler) [guard, example_handler])) = Some g'
      \<and> auth_handler g' = Some 5 \<and> cbdata g' = Some 9"
    using g by (simp add: auth_handler_acquire guarded_lookup)
  then have auth: "authorization guarded_srv ''/a'' False [] (Some (node example_handler)) ?w1 = Some (True, ?w1)"
    using assms by (auto simp: authorization_def guarded_srv_def)
  have srv: "s_tls_redirect guarded_srv = None" "s_begin_request guarded_srv = None" "s_throttle guarded_srv u = 0"
    "s_request_callback guarded_srv f d c = (200, c)" for u f d c
    by (simp_all add: guarded_srv_def example_srv_def)
  have w: "request_method (w_auth example_world) = Some ''GET''" "proto_type (w_conn example_world) = PROTOCOL_TYPE_HTTP1" "w_log example_world = []"
    by (simp_all add: example_world_def bob_context_def example_conn_def)
  have "handle_request guarded_srv (''/a'' @ [NUL]) 0 ?w = callback_resource guarded_srv mem None (length ''/a'') tmp False example_handler ?w1"
    using url guarded_lookup(2) by (simp add: handle_request_def begin_request_step_def route_def srv w)
  also have "\<dots> = Some (example_world\<lparr>w_handlers := [guard, example_handler],
      w_conn := (if must_close ?c then ?c\<lparr>conn_status_code := 200\<rparr> else discard_unread_request_data (?c\<lparr>conn_status_code := 200\<rparr>)), w_log := [Called 100 None]\<rparr>)"
    using auth h by (simp add: callback_resource_def url(3) srv w)
  finally show ?thesis by blast
qed

theorem only_authorized_actions_witness:
  "\<exists>w' c. handle_request guarded_srv (''/a'' @ [NUL]) 0 (example_world\<lparr>w_handlers := [guard, example_handler]\<rparr>) = Some w'
    \<and> w_log w' = [Called 100 None] \<and> fst (s_auth_callback guarded_srv 5 (Some 9) c) \<noteq> 0
    \<and> responsible [guard, example_handler] ''/a'' c = Some example_handler"
proof -
  have "conn_status_code (w_conn example_world) = 0" by (simp add: example_world_def example_conn_def)
  then obtain w' where w': "handle_request guarded_srv (''/a'' @ [NUL]) 0 (example_world\<lparr>w_handlers := [guard, example_handler]\<rparr>) = Some w'"
    "w_log w' = [Called 100 None]" using guarded_handled by force
  let ?w = "example_world\<lparr>w_handlers := [guard, example_handler]\<rparr>"
  obtain mem tmp where url: "split_query (''/a'' @ [NUL]) = (''/a'' @ [NUL], None)"
    "clean_url (w_conn ?w) (''/a'' @ [NUL]) 0 None = Some (mem, length ''/a'', tmp)" "str_at tmp 0 = ''/a''"
    using example_plain_url [of "''/a''" "w_conn ?w"] by (auto simp: cstring_def clean_path_def ok_pair_def)
  have log: "w_log ?w = []" "w_handlers ?w = [guard, example_handler]" by (simp_all add: example_world_def)
  from only_authorized_actions [OF w'(1) url(1)] obtain c where "allowed guarded_srv [guard, example_handler] (w_auth ?w) ''/a'' c (Called 100 None)"
    unfolding w'(2) log url(2) by (auto simp: url(3))
  then have a: "proto_type c \<noteq> PROTOCOL_TYPE_WEBSOCKET" "granted guarded_srv [guard, example_handler] (w_auth ?w) ''/a'' False [] c"
    by (simp_all add: allowed_def)
  from a(2) have "fst (s_auth_callback guarded_srv 5 (Some 9) c) \<noteq> 0" unfolding granted_def guarded_lookup by (auto simp: guard_def)
  moreover have "responsible [guard, example_handler] ''/a'' c = Some example_handler" using a(1) by (simp add: responsible_def guarded_lookup)
  ultimately show ?thesis using w' by blast
qed

lemma example_file_served:
  "\<exists>c. handle_request example_srv (''/a.txt'' @ [NUL]) 0 (example_world\<lparr>w_handlers := []\<rparr>)
    = Some (example_world\<lparr>w_handlers := [], w_conn := c, w_log := [Acted (Static_file ''/www/a.txt'')]\<rparr>)"
proof -
  let ?w = "example_world\<lparr>w_handlers := []\<rparr>"
  let ?c = "(w_conn example_world)\<lparr>request_state := 0, throttle := 0\<rparr>"
  obtain mem tmp where url: "split_query (''/a.txt'' @ [NUL]) = (''/a.txt'' @ [NUL], None)"
    "clean_url (w_conn ?w) (''/a.txt'' @ [NUL]) 0 None = Some (mem, length ''/a.txt'', tmp)" "str_at tmp 0 = ''/a.txt''"
    using example_plain_url [of "''/a.txt''" "w_conn ?w"] by (auto simp: cstring_def clean_path_def ok_pair_def)
  define r where "r = (first_outputs (Some ''GET'') ?c)\<lparr>i_path := ''/www/a.txt''\<rparr>"
  have root: "root_of example_site ?c = Some ''/www''" by (simp add: root_of_def example_site_def example_world_def example_conn_def)
  have stat: "mg_stat example_site ''/www/a.txt'' = Some \<lparr>f_size = 3, f_modified = 0, f_directory = False, f_gzipped = False\<rparr>"
    by (simp add: mg_stat_def mg_path_suspicious_def example_site_def)
  have int: "interpret_uri example_site (Some ''GET'') ?c ''/a.txt'' = r\<lparr>i_found := True, i_stat := the (mg_stat example_site ''/www/a.txt'')\<rparr>"
    using interpret_uri_file [OF root, of "''/a.txt''" r "Some ''GET''"] stat
    by (simp add: r_def UTF8_PATH_MAX_def existing_file_def extention_matches_script_def extention_matches_template_text_def
        match_prefix_strlen_def example_site_def)
  have hide: "\<not> must_hide_file example_site ''/www/a.txt''"
  proof -
    have "fold_case v \<noteq> PASSWORDS_FILE_NAME" if "''/www/a.txt'' = u @ v" for u v
    proof
      assume "fold_case v = PASSWORDS_FILE_NAME"
      then have "length v = 9" "last (fold_case v) = CHR ''d''" by (auto simp: PASSWORDS_FILE_NAME_def dest: arg_cong [of _ _ length])
      then have "v \<noteq> []" by auto
      moreover from this \<open>last (fold_case v) = CHR ''d''\<close> have "tolower (last v) = CHR ''d''" by (simp add: last_map)
      moreover have "last v = CHR ''t''" using that calculation(1) by (metis last_appendR last.simps list.distinct(1))
      moreover have "tolower CHR ''t'' = CHR ''t''" by code_simp
      ultimately show False by simp
    qed
    then show ?thesis using must_hide_file_spec [of "''/www/a.txt''" example_site] by (simp add: cstring_def example_site_def)
  qed
  have auth: "authorization example_srv u False p None (?w\<lparr>w_conn := ?c\<rparr>) = Some (True, ?w\<lparr>w_conn := ?c\<rparr>)" for u p
    by (rule unprotected) (simp_all add: example_unprotected)
  have none: "get_request_handler REQUEST_HANDLER u [] = (None, [])" for u
    by (simp add: get_request_handler_candidates candidates_def)
  have r: "i_put r = False" "i_script r = False" "i_ws r = False" "i_path r = ''/www/a.txt''" "i_template r = False"
    by (simp_all add: r_def first_outputs_def is_put_or_delete_method_def example_world_def example_conn_def)
  have srv: "s_site example_srv = example_site" "s_tls_redirect example_srv = None" "s_begin_request example_srv = None"
    "s_throttle example_srv u = 0" "DOCUMENT_ROOT example_site = Some ''/www''" for u
    by (simp_all add: example_srv_def example_site_def)
  have w: "request_method (w_auth example_world) = Some ''GET''" "proto_type (w_conn example_world) = PROTOCOL_TYPE_HTTP1"
    "w_handlers ?w = []" "w_log example_world = []"
    by (simp_all add: example_world_def bob_context_def example_conn_def)
  have same: "example_world\<lparr>w_conn := ?c, w_handlers := []\<rparr> = ?w\<lparr>w_conn := ?c\<rparr>" by simp
  have "file_resource example_srv mem None (length ''/a.txt'') tmp None (example_world\<lparr>w_conn := ?c, w_handlers := []\<rparr>)
      = Some (act example_srv (Static_file ''/www/a.txt'') (?w\<lparr>w_conn := ?c\<rparr>))"
    unfolding same using int auth hide stat r by (simp add: file_resource_def url(3) serve_file_def srv w)
  then show ?thesis
    using url none by (simp add: handle_request_def begin_request_step_def route_def srv w act_def) (rule exI, rule refl)
qed

theorem requests_stay_in_root_witness:
  "\<exists>w' a. handle_request example_srv (''/a.txt'' @ [NUL]) 0 (example_world\<lparr>w_handlers := []\<rparr>) = Some w'
    \<and> w_log w' = [Acted a] \<and> inside_root ''/www'' (path_of a)"
proof -
  let ?w = "example_world\<lparr>w_handlers := []\<rparr>" and ?a = "Static_file ''/www/a.txt''"
  obtain w' where w': "handle_request example_srv (''/a.txt'' @ [NUL]) 0 ?w = Some w'" "w_log w' = [Acted ?a]"
    using example_file_served by force
  have site: "s_site example_srv = example_site" by (simp add: example_srv_def)
  have "items ''index.html'' = [''index.html'']" by code_simp
  then have names: "\<forall>v \<in> set (index_names (s_site example_srv)). cstring v \<and> no_climb v"
    by (simp add: index_names_def site example_site_def cstring_def no_climb_def)
  have "mg_strcasecmp ''no'' ''yes'' \<noteq> 0" by code_simp
  then have "mg_strcasecmp (ALLOW_INDEX_SCRIPT_SUB_RES (s_site example_srv)) ''yes'' \<noteq> 0" by (simp add: site example_site_def)
  from requests_stay_in_root [OF w'(1) example_callbacks _ _ _ _ _ _ _ names this, of ?a "''/www''"] w'(2)
  have "inside_root ''/www'' (path_of ?a)"
    by (simp add: site example_site_def root_of_def example_world_def example_conn_def cstring_def path_of_def runs_script_def)
  with w' show ?thesis by blast
qed

end
