(* ===== verification/Framing.thy ===== *)
theory Framing
  imports Dispatch
begin

text \<open>
  What handling a request does to the receiving side of its connection. Writing does not touch it, reading
  the body takes exactly the consumed bytes from the front of the stream, and so does
  \<open>handle_request\<close> as a whole, if the application's callbacks do: they may use \<open>mg_read\<close>, for which
  this is proved.
\<close>

section \<open>The receiving side\<close>

definition read_state :: "mg_connection \<Rightarrow> char list \<times> nat \<times> nat \<times> protocol_type \<times> int \<times> int \<times> int \<times> recv_event list" where
  "read_state c = (conn_buf c, data_len c, request_len c, proto_type c, is_chunked c, content_len c, consumed_content c, net_in c)"

lemma frame_body:
  assumes "frame c' = frame c"
  shows "content_len c' = content_len c" "consumed_content c' = consumed_content c" "is_chunked c' = is_chunked c"
  using arg_cong [OF assms, of content_len] arg_cong [OF assms, of consumed_content] arg_cong [OF assms, of is_chunked]
  by (simp_all add: frame_def)

lemma read_state_frame:
  assumes "frame c' = frame c"
  shows "read_state c' = read_state c"
  unfolding read_state_def frame_body [OF assms] frame_fields(2,8-11) [OF assms] by (rule refl)

lemma read_state_update [simp]:
  "read_state (c\<lparr>must_close := b\<rparr>) = read_state c" "read_state (c\<lparr>conn_status_code := i\<rparr>) = read_state c"
  "read_state (c\<lparr>request_state := i\<rparr>) = read_state c" "read_state (c\<lparr>response_info := r\<rparr>) = read_state c"
  "read_state (c\<lparr>throttle := i\<rparr>) = read_state c" "read_state (c\<lparr>num_bytes_sent := i\<rparr>) = read_state c"
  by (simp_all add: read_state_def)

lemma read_state_write [simp]: "read_state (the (snd (mg_write (Some c) data))) = read_state c"
  by (rule read_state_frame) (rule frame_mg_write)

lemma read_state_mg_write: "mg_write (Some c) data = (r, c') \<Longrightarrow> read_state (the c') = read_state c"
  using read_state_write [of c data] by simp

lemma read_state_printf [simp]: "read_state (mg_printf malloc c s) = read_state c"
  by (rule read_state_frame) (rule frame_mg_printf)

lemma read_state_start [simp]: "read_state (the (snd (mg_response_header_start (Some c) status))) = read_state c"
  by (simp add: mg_response_header_start_def free_buffered_response_header_list_def)

lemma read_state_add [simp]: "read_state (the (snd (mg_response_header_add malloc (Some c) h v n))) = read_state c"
  by (simp add: mg_response_header_add_def Let_def split: option.split)

lemma read_state_add_all [simp]: "read_state (the (snd (add_all malloc (Some c) hs r))) = read_state c"
proof (induction hs arbitrary: c r)
  case (Cons h hs)
  have "\<exists>l c1. mg_response_header_add malloc (Some c) (Some (fst h)) (Some (snd h)) (-1) = (l, Some c1)"
    by (simp add: mg_response_header_add_def Let_def)
  then obtain l c1 where a: "mg_response_header_add malloc (Some c) (Some (fst h)) (Some (snd h)) (-1) = (l, Some c1)" by blast
  then show ?case using Cons.IH [of c1] read_state_add [of malloc c "Some (fst h)" "Some (snd h)" "-1"] by simp
qed simp

lemma read_state_add_header [simp]: "read_state (add_header malloc h v c) = read_state c"
  by (simp add: add_header_def)

lemma read_state_no_cache [simp]: "read_state (send_no_cache_header malloc c) = read_state c"
  by (simp add: send_no_cache_header_def Let_def)

lemma read_state_lines [simp]: "read_state (send_header_lines malloc c hs) = read_state c"
  by (induction malloc c hs rule: send_header_lines.induct) simp_all

lemma read_state_send [simp]: "read_state (the (snd (mg_response_header_send malloc (Some c) date))) = read_state c"
  by (simp add: mg_response_header_send_def send_http1_response_status_line_def Let_def free_buffered_response_header_list_def)

lemma read_state_additional: "send_additional_header malloc cfg c = Some c' \<Longrightarrow> read_state c' = read_state c"
  by (auto simp: send_additional_header_def Let_def mg_response_header_add_lines_def map_option_case
      split: option.splits if_splits bind_splits)
    (metis option.sel read_state_add_all read_state_add_header snd_conv)+

section \<open>Reading the body\<close>

lemma pull_all_incoming:
  "pull_all stop net len acc = (n, bs, net') \<Longrightarrow> \<exists>x. bs = acc @ x \<and> incoming net = x @ incoming net'"
proof (induction stop net len acc arbitrary: n bs net' rule: pull_all.induct)
  case (1 stop net len acc)
  show ?case
  proof (cases "0 < len \<and> \<not> stop")
    case False
    have "pull_all stop net len acc = (int (length acc), acc, net)"
      unfolding pull_all.simps [of stop net len acc] if_not_P [OF False] by (rule refl)
    with "1.prems" show ?thesis by auto
  next
    case True
    obtain m d again net1 where p: "pull_inner net len = (m, d, again, net1)" by (metis prod_cases4)
    have i: "incoming net = d @ incoming net1" "m = -2 \<or> m = -1 \<or> m = 0 \<Longrightarrow> d = []"
      using p True by (auto simp: pull_inner_def split: list.splits recv_event.splits if_splits)
    note run = "1.prems" [unfolded pull_all.simps [of stop net len acc], unfolded p]
    consider "m = -2 \<or> m = 0 \<or> (m = -1 \<and> \<not> again)" | "m = -1" again | "m \<noteq> -2" "m \<noteq> -1" "m \<noteq> 0" by blast
    then show ?thesis
    proof cases
      case 2
      then show ?thesis using run True i "1.IH"(1) [OF True p [symmetric] refl refl refl _ 2(1,2)] by auto
    next
      case 3
      then have "pull_all stop net1 (len - length d) (acc @ d) = (n, bs, net')" using run True by simp
      from "1.IH"(2) [OF True p [symmetric] refl refl refl 3 this] i show ?thesis by auto
    qed (use run True i in \<open>auto split: if_splits\<close>)
  qed
qed

definition sane :: "mg_connection \<Rightarrow> bool" where
  "sane c \<longleftrightarrow> 0 \<le> consumed_content c \<and> data_len c \<le> length (conn_buf c)"

lemma sane_update [simp]: "sane (c\<lparr>content_len := i\<rparr>) = sane c" "sane (c\<lparr>is_chunked := i\<rparr>) = sane c"
  by (simp_all add: sane_def)

text \<open>Only the front of the stream is taken, and it is counted.\<close>

definition moves :: "mg_connection \<Rightarrow> mg_connection \<Rightarrow> bool" where
  "moves c c' \<longleftrightarrow> conn_buf c' = conn_buf c \<and> data_len c' = data_len c \<and> request_len c' = request_len c \<and> proto_type c' = proto_type c
     \<and> (sane c \<longrightarrow> (\<exists>x. body_stream c = x @ body_stream c' \<and> consumed_content c' = consumed_content c + int (length x)))"

lemma moves_sane: "moves c c' \<Longrightarrow> sane c \<Longrightarrow> sane c'"
  by (auto simp: moves_def sane_def)

lemma moves_refl [simp]: "moves c c"
  by (simp add: moves_def)

lemma moves_trans:
  assumes "moves a b" "moves b c"
  shows "moves a c"
proof -
  have "\<exists>x. body_stream a = x @ body_stream c \<and> consumed_content c = consumed_content a + int (length x)" if s: "sane a"
  proof -
    obtain x y where "body_stream a = x @ body_stream b" "consumed_content b = consumed_content a + int (length x)"
      "body_stream b = y @ body_stream c" "consumed_content c = consumed_content b + int (length y)"
      using assms s moves_sane [OF assms(1) s] by (auto simp: moves_def)
    then show ?thesis by (intro exI [of _ "x @ y"]) simp
  qed
  then show ?thesis using assms by (simp add: moves_def)
qed

lemma body_stream_update [simp]:
  "body_stream (c\<lparr>content_len := i\<rparr>) = body_stream c" "body_stream (c\<lparr>is_chunked := i\<rparr>) = body_stream c"
  by (simp_all add: body_stream_def)

lemma moves_update [simp]:
  "moves (c\<lparr>content_len := i\<rparr>) c' = moves c c'" "moves c (c'\<lparr>content_len := i\<rparr>) = moves c c'"
  "moves (c\<lparr>is_chunked := i\<rparr>) c' = moves c c'" "moves c (c'\<lparr>is_chunked := i\<rparr>) = moves c c'"
  by (simp_all add: moves_def)

lemma mg_read_inner_moves:
  assumes "mg_read_inner c len = (r, bs, c')" "sane c"
  shows "\<exists>x. body_stream c = x @ body_stream c' \<and> consumed_content c' = consumed_content c + int (length x)"
proof -
  define clen where "clen = (if content_len c < 0 then INT64_MAX else content_len c)"
  define left where "left = clen - consumed_content c"
  define len64 where "len64 = min (int len) INT_MAX"
  define l where "l = (if left < len64 then left else len64)"
  define b0 where "b0 = int (data_len c) - int (request_len c) - consumed_content c"
  define b where "b = (if 0 < b0 then min l b0 else 0)"
  define k where "k = request_len c + nat (consumed_content c)"
  define B where "B = drop k (take (data_len c) (conn_buf c))"
  obtain n ds net where p: "pull_all (stop_flag c) (net_in c) (nat (l - b)) [] = (n, ds, net)" by (metis prod_cases3)
  have sane: "0 \<le> consumed_content c" "data_len c \<le> length (conn_buf c)" using assms(2) by (simp_all add: sane_def)
  show ?thesis
  proof (cases "consumed_content c < clen")
    case False
    with assms(1) show ?thesis by (auto simp: mg_read_inner_def clen_def Let_def)
  next
    case True
    then have l: "0 \<le> l" "0 \<le> b" "b \<le> l" by (auto simp: l_def left_def len64_def b_def INT_MAX_def)
    have lB: "length B = data_len c - k" using sane(2) by (simp add: B_def)
    have nb: "nat b \<le> length B" using sane(1) by (auto simp: lB k_def b_def b0_def)
    have all: "drop (nat b) B = [] \<or> l = b" using sane(1) l(1) by (auto simp: lB k_def b_def b0_def)
    have ds: "incoming (net_in c) = ds @ incoming net" using pull_all_incoming [OF p] by auto
    have n: "n = -1 \<and> ds = [] \<or> n = int (length ds)" using pull_all_length [OF p] by auto
    have none: "ds = [] \<and> n = 0" if "l = b" using p that by (simp add: pull_all_done)
    have c': "c' = c\<lparr>consumed_content := consumed_content c + b + max n 0, net_in := net\<rparr>"
      using assms(1) True l(2) n unfolding mg_read_inner_def Let_def clen_def [symmetric] left_def [symmetric] len64_def [symmetric]
        l_def [symmetric] b0_def [symmetric] b_def [symmetric] by (auto simp: p split: if_splits)
    have tail: "drop (request_len c + nat (consumed_content c + b + max n 0)) (take (data_len c) (conn_buf c)) = drop (nat b) B"
    proof (cases "l = b")
      case True
      then have "max n 0 = 0" using none by simp
      then show ?thesis using sane(1) l(2) by (simp add: B_def k_def nat_add_distrib add.assoc add.commute add.left_commute)
    next
      case False
      then have e: "drop (nat b) B = []" using all by blast
      have "k + nat b \<le> request_len c + nat (consumed_content c + b + max n 0)"
        using sane(1) l(2) by (simp add: k_def nat_add_distrib)
      moreover have "data_len c \<le> k + nat b" using e lB by simp
      ultimately show ?thesis using e by simp
    qed
    have "body_stream c' = drop (nat b) B @ incoming net" unfolding tail [symmetric] by (simp add: body_stream_def c')
    moreover have "body_stream c = B @ ds @ incoming net" by (simp add: body_stream_def B_def k_def ds)
    moreover have "take (nat b) B @ ds @ drop (nat b) B = B @ ds" using all none by auto
    ultimately have "body_stream c = take (nat b) B @ ds @ body_stream c'" by (metis append.assoc)
    moreover have "consumed_content c' = consumed_content c + int (length (take (nat b) B @ ds))"
      using nb l(2) n by (auto simp: c')
    ultimately show ?thesis by (intro exI [of _ "take (nat b) B @ ds"]) simp
  qed
qed

subsection \<open>Chunks\<close>

lemma inner_fields:
  "mg_read_inner c len = (r, bs, c') \<Longrightarrow>
   conn_buf c' = conn_buf c \<and> data_len c' = data_len c \<and> request_len c' = request_len c \<and> proto_type c' = proto_type c"
proof -
  define clen where "clen = (if content_len c < 0 then INT64_MAX else content_len c)"
  define left where "left = clen - consumed_content c"
  define len64 where "len64 = min (int len) INT_MAX"
  define l where "l = (if left < len64 then left else len64)"
  define b0 where "b0 = int (data_len c) - int (request_len c) - consumed_content c"
  define b where "b = (if 0 < b0 then min l b0 else 0)"
  obtain n ds net where p: "pull_all (stop_flag c) (net_in c) (nat (l - b)) [] = (n, ds, net)" by (metis prod_cases3)
  assume "mg_read_inner c len = (r, bs, c')"
  then show ?thesis
    unfolding mg_read_inner_def Let_def clen_def [symmetric] left_def [symmetric] len64_def [symmetric]
      l_def [symmetric] b0_def [symmetric] b_def [symmetric]
    by (auto simp: p split: if_splits)
qed

lemma inner_moves: "mg_read_inner c len = (r, bs, c') \<Longrightarrow> moves c c'"
  using mg_read_inner_moves [of c len r bs c'] inner_fields [of c len r bs c'] by (simp add: moves_def)

lemma chunk_head_moves:
  "chunk_head_loop k c lenbuf = (h, c') \<Longrightarrow>
   moves c c' \<and> (is_chunked c' = is_chunked c \<or> is_chunked c' = 2 \<or> is_chunked c' = 3)"
proof (induction k arbitrary: c lenbuf)
  case (Suc k)
  obtain r bs c1 where r: "mg_read_inner (c\<lparr>content_len := content_len c + 1\<rparr>) 1 = (r, bs, c1)" by (metis prod_cases3)
  have m: "moves c c1" "is_chunked c1 = is_chunked c" using inner_moves [OF r] mg_read_inner_facts(2) [OF r] by simp_all
  show ?case
    using Suc.prems(1) [unfolded chunk_head_loop.simps(2), unfolded r Let_def prod.case] m moves_trans [OF m(1)] Suc.IH [of c1]
    by (auto split: if_splits prod.splits)
qed simp

lemma read_chunked_moves:
  "read_chunked c len acc = (r, bs, c') \<Longrightarrow> is_chunked c \<noteq> 0 \<Longrightarrow>
   moves c c' \<and> is_chunked c' \<noteq> 0 \<and> (is_chunked c' = 4 \<longrightarrow> c' = c \<or> consumed_content c' = content_len c')"
proof (induction c len acc arbitrary: r bs c' rule: read_chunked.induct)
  case (1 c len acc)
  show ?case
  proof (cases "len = 0 \<or> 3 \<le> is_chunked c \<or> is_chunked c \<noteq> 1")
    case True
    have "c' = c" using "1.prems"(1) True unfolding read_chunked.simps [of c len acc] by (auto split: if_splits)
    then show ?thesis using "1.prems"(2) by simp
  next
    case False
    then have n: "len \<noteq> 0" "\<not> 3 \<le> is_chunked c" "\<not> is_chunked c \<noteq> 1" by simp_all
    note run = "1.prems"(1) [unfolded read_chunked.simps [of c len acc] if_not_P [OF n(1)] if_not_P [OF n(2)] if_not_P [OF n(3)]]
    show ?thesis
    proof (cases "consumed_content c \<noteq> content_len c")
      case True
      obtain read_ret ds c1 where a: "mg_read_inner c len = (read_ret, ds, c1)" by (metis prod_cases3)
      obtain k x c2 where b: "mg_read_inner (c1\<lparr>content_len := content_len c1 + 2\<rparr>) 2 = (k, x, c2)" by (metis prod_cases3)
      have m1: "moves c c1" "is_chunked c1 = 1" using inner_moves [OF a] mg_read_inner_facts(2) [OF a] n by simp_all
      have m2: "moves c1 c2" "is_chunked c2 = 1"
        using inner_moves [OF b] mg_read_inner_facts(2) [OF b] m1 by simp_all
      have m12: "moves c c2" using moves_trans [OF m1(1) m2(1)] .
      note IH = "1.IH"(1,2) [OF n True a [symmetric] refl refl]
      show ?thesis
      proof (cases "read_ret < 1")
        case True
        then show ?thesis using run \<open>consumed_content c \<noteq> content_len c\<close> m1 by (auto simp: a)
      next
        case ok: False
        show ?thesis
        proof (cases "consumed_content c1 = content_len c1")
          case e: True
          show ?thesis
            using run True ok e m12 m2 IH(1) [OF ok e b [symmetric] refl refl] moves_trans [OF m12] by (auto simp: a b split: if_splits)
        next
          case e: False
          show ?thesis using run True ok e m1 IH(2) [OF ok e] moves_trans [OF m1(1)] by (auto simp: a split: if_splits)
        qed
      qed
    next
      case False
      obtain h c1 where h: "chunk_head_loop 63 c [] = (h, c1)" by fastforce
      have m1: "moves c c1" "is_chunked c1 = 1 \<or> is_chunked c1 = 2 \<or> is_chunked c1 = 3"
        using chunk_head_moves [OF h] n by auto
      show ?thesis
      proof (cases h)
        case (Size chunk e)
        have cc: "consumed_content c1 = content_len c1" using chunk_head_loop_facts [OF h [unfolded Size]] False by simp
        have one: "is_chunked c1 = 1" if "chunk \<noteq> 0" using chunk_head_loop_facts [OF h [unfolded Size]] n that by simp
        obtain k x c2 where b: "mg_read_inner (c1\<lparr>content_len := content_len c1 + 2\<rparr>) 2 = (k, x, c2)" by (metis prod_cases3)
        have m2: "moves c1 c2" "is_chunked c2 = is_chunked c1" "content_len c2 = content_len c1 + 2"
          "consumed_content c2 = consumed_content c1 + max k 0"
          using inner_moves [OF b] mg_read_inner_facts [OF b] m1 by simp_all
        note IH = "1.IH"(3) [OF n False h [symmetric] refl Size]
        show ?thesis
        proof (cases "e \<noteq> CR")
          case True
          then show ?thesis using run False m1 by (auto simp: h Size)
        next
          case e: False
          show ?thesis
          proof (cases "chunk = 0")
            case True
            then show ?thesis
              using run False e m1 m2 cc moves_trans [OF m1(1) m2(1)] by (auto simp: h Size b split: if_splits)
          next
            case c0: False
            then show ?thesis
              using run False e m1 one [OF c0] IH [OF e c0] moves_trans [OF m1(1)] by (auto simp: h Size)
          qed
        qed
      qed (use run False m1 in \<open>auto simp: h\<close>)
    qed
  qed
qed

section \<open>Within the request\<close>

definition body_inv :: "mg_connection \<Rightarrow> bool" where
  "body_inv c \<longleftrightarrow> sane c \<and> (is_chunked c = 0 \<longrightarrow> consumed_content c \<le> content_len c)
     \<and> (is_chunked c = 4 \<longrightarrow> consumed_content c = content_len c)"

text \<open>What a reader of the body may do to the connection.\<close>

definition within :: "mg_connection \<Rightarrow> mg_connection \<Rightarrow> bool" where
  "within c c' \<longleftrightarrow> proto_type c' = proto_type c \<and> (body_inv c \<longrightarrow> moves c c' \<and> body_inv c' \<and> (is_chunked c' = 0 \<longleftrightarrow> is_chunked c = 0)
     \<and> (is_chunked c = 0 \<longrightarrow> content_len c' = content_len c))"

lemma within_refl [simp]: "within c c"
  by (simp add: within_def)

lemma within_trans: "within a b \<Longrightarrow> within b c \<Longrightarrow> within a c"
  unfolding within_def using moves_trans by metis

lemma read_stateD:
  assumes "read_state c' = read_state c"
  shows "conn_buf c' = conn_buf c" "data_len c' = data_len c" "request_len c' = request_len c" "proto_type c' = proto_type c"
    "is_chunked c' = is_chunked c" "content_len c' = content_len c" "consumed_content c' = consumed_content c" "net_in c' = net_in c"
  using assms by (simp_all add: read_state_def)

lemma within_read_state:
  assumes "read_state c' = read_state c"
  shows "within c c'"
  by (simp add: within_def moves_def body_inv_def sane_def body_stream_def read_stateD [OF assms])

lemma within_update [simp]:
  "within c (c'\<lparr>must_close := b\<rparr>) = within c c'" "within c (c'\<lparr>conn_status_code := i\<rparr>) = within c c'"
  "within c (c'\<lparr>request_state := i\<rparr>) = within c c'" "within c (c'\<lparr>throttle := i\<rparr>) = within c c'"
  "within (c\<lparr>must_close := b\<rparr>) c' = within c c'" "within (c\<lparr>conn_status_code := i\<rparr>) c' = within c c'"
  "within (c\<lparr>request_state := i\<rparr>) c' = within c c'" "within (c\<lparr>throttle := i\<rparr>) c' = within c c'"
  "within c (c'\<lparr>response_info := r\<rparr>) = within c c'"
  by (simp_all add: within_def moves_def body_inv_def sane_def body_stream_def)

lemma mg_read_moves:
  assumes "mg_read (Some c) len = (r, bs, Some c')"
  shows "moves c c'"
proof -
  define l where "l = min len (nat INT_MAX)"
  show ?thesis
    using assms inner_moves [of c l r bs c'] read_chunked_moves [of c l "[]" r bs c']
    by (auto simp: mg_read_def l_def [symmetric] Let_def split: prod.splits if_splits)
qed

lemma mg_read_within:
  assumes "mg_read (Some c) len = (r, bs, Some c')"
  shows "within c c'"
  unfolding within_def
proof (intro conjI impI)
  show "proto_type c' = proto_type c" using mg_read_moves [OF assms] by (simp add: moves_def)
next
  assume inv: "body_inv c"
  then have s: "sane c" by (simp add: body_inv_def)
  define l where "l = min len (nat INT_MAX)"
  have m: "moves c c'" by (rule mg_read_moves [OF assms])
  have "body_inv c' \<and> (is_chunked c' = 0 \<longleftrightarrow> is_chunked c = 0) \<and> (is_chunked c = 0 \<longrightarrow> content_len c' = content_len c)"
  proof (cases "is_chunked c = 0")
    case True
    then have run: "mg_read_inner c l = (r, bs, c')" using assms by (simp add: mg_read_def l_def Let_def split: prod.splits)
    have c: "0 \<le> consumed_content c" "consumed_content c \<le> content_len c" "data_len c \<le> length (conn_buf c)"
      using inv True by (auto simp: body_inv_def sane_def)
    show ?thesis
      using mg_read_inner_facts(1,2) [OF run] True mg_read_within_content [OF True c assms] moves_sane [OF m s]
      by (auto simp: body_inv_def)
  next
    case False
    then have run: "read_chunked c l [] = (r, bs, c')" using assms by (simp add: mg_read_def l_def Let_def split: prod.splits)
    from read_chunked_moves [OF run False] show ?thesis using moves_sane [OF m s] inv False by (auto simp: body_inv_def)
  qed
  with m show "moves c c'" "body_inv c'" "(is_chunked c' = 0) = (is_chunked c = 0)" "is_chunked c = 0 \<Longrightarrow> content_len c' = content_len c"
    by auto
qed

lemma discard_within: "within c (discard_unread_request_data c)"
proof (induction c rule: discard_unread_request_data.induct)
  case (1 c)
  have "\<exists>r bs c1. mg_read (Some c) MG_BUF_LEN = (r, bs, Some c1)" by (simp add: mg_read_def Let_def split_beta)
  then obtain r bs c1 where r: "mg_read (Some c) MG_BUF_LEN = (r, bs, Some c1)" by blast
  show ?case
    using within_trans [OF mg_read_within [OF r] "1.IH" [OF r [symmetric] refl refl]] mg_read_within [OF r]
    by (subst discard_unread_request_data.simps) (simp add: r)
qed

section \<open>A request leaves what follows it\<close>

text \<open>The application reads the body by \<open>mg_read\<close>, and does not touch the receiving side otherwise.\<close>

definition app_reads_body :: "'s server \<Rightarrow> bool" where
  "app_reads_body srv \<longleftrightarrow> (\<forall>f d c. within c (snd (s_request_callback srv f d c)))
     \<and> (\<forall>f d c. within c (snd (s_auth_callback srv f d c)))
     \<and> (\<forall>f c. s_begin_request srv = Some f \<longrightarrow> within c (snd (f c)))
     \<and> (\<forall>f c. s_tls_redirect srv = Some f \<longrightarrow> within c (f c))
     \<and> (\<forall>a c. within c (s_act srv a c))
     \<and> (\<forall>f status msg c. error_callback (s_env srv) = Some f \<longrightarrow> within c (snd (f status msg c)))"

lemma send_default_error_within: "send_default_error malloc cfg date status msg c = Some c' \<Longrightarrow> within c c'"
  by (rule within_read_state)
    (auto simp: send_default_error_def Let_def split: if_splits bind_splits dest!: read_state_additional)

lemma http_error_within:
  assumes "\<forall>f status msg c. cb = Some f \<longrightarrow> within c (snd (f status msg c))"
    and "mg_send_http_error malloc cfg date cb in_handler (Some c) status msg = Some (r, c')"
  shows "within c (the c')"
proof (cases cb)
  case None
  then show ?thesis using assms(2) send_default_error_within by (auto simp: mg_send_http_error_def Let_def) fastforce
next
  case (Some f)
  define d where "d = c\<lparr>conn_status_code := status\<rparr>"
  obtain h c1 where h: "f status (take (MG_BUF_LEN - Suc 0) msg) (c\<lparr>conn_status_code := status\<rparr>) = (h, c1)" by fastforce
  have "within d c1" using assms(1) Some h unfolding d_def by (metis snd_conv)
  then have w: "within c c1" by (simp add: d_def)
  show ?thesis
    using assms(2) within_trans [OF w send_default_error_within] w send_default_error_within [of malloc cfg date status _ d]
    by (auto simp: mg_send_http_error_def Some Let_def h d_def split: if_splits)
qed

lemma answer_error_within:
  assumes "app_reads_body srv" "answer_error srv status msg w = Some w'"
  shows "within (w_conn w) (w_conn w')"
proof -
  have "\<forall>f status msg c. error_callback (s_env srv) = Some f \<longrightarrow> within c (snd (f status msg c))"
    using assms(1) by (auto simp: app_reads_body_def)
  from http_error_within [OF this] assms(2) show ?thesis by (auto simp: answer_error_def ws_error_def)
qed

lemma redirect_within: "within c (snd (mg_send_http_redirect malloc c url code))"
  by (rule within_read_state) (simp add: mg_send_http_redirect_def Let_def split_beta)

lemma challenge_within: "challenge srv w = Some w' \<Longrightarrow> within (w_conn w) (w_conn w')"
  by (rule within_read_state)
    (auto simp: challenge_def send_authorization_request_def Let_def split: bind_splits dest!: read_state_additional)

lemma send_options_within: "send_options srv c = Some c' \<Longrightarrow> within c c'"
  by (rule within_read_state) (auto simp: send_options_def Let_def split: bind_splits dest!: read_state_additional)

lemma cors_within: "cors_preflight srv c = Some c' \<Longrightarrow> within c c'"
  by (rule within_read_state) (auto simp: cors_preflight_def Let_def split: bind_splits option.splits)

lemma set_user_challenge: "challenge srv (set_user x w) = Some w' \<Longrightarrow> within (w_conn w) (w_conn w')"
  using challenge_within [of srv "set_user x w" w'] by simp

lemma authorization_within:
  assumes "app_reads_body srv" "authorization srv u put_file path hi w = Some (ok, w')"
  shows "within (w_conn w) (w_conn w')"
proof (cases "fst (get_request_handler AUTH_HANDLER u (w_handlers w))")
  case (Some h)
  have "within c (snd (s_auth_callback srv f d c))" for f d c using assms(1) by (simp add: app_reads_body_def)
  then show ?thesis
    using assms(2) unfolding authorization_def Some option.case
    by (auto simp: split_beta Let_def split: bind_splits if_splits)
next
  case None
  show ?thesis
    using assms(2) answer_error_within [OF assms(1)] set_user_challenge [of srv] unfolding authorization_def None option.case Let_def
    by (auto split: bind_splits if_splits)
qed

lemma serve_file_within:
  assumes "app_reads_body srv" "serve_file srv mem q n tmp r w = Some w'"
  shows "within (w_conn w) (w_conn w')"
proof -
  have act: "within (w_conn w) (w_conn (act srv a w))" for a using assms(1) by (simp add: app_reads_body_def act_def)
  have slash: "within (w_conn w) (w_conn w')" if "slash_redirect srv mem q w = Some w'" for w'
    using that answer_error_within [OF assms(1)] redirect_within by (auto simp: slash_redirect_def Let_def split: if_splits)
  show ?thesis
    using assms(2) act slash answer_error_within [OF assms(1)] send_options_within
    by (auto simp: serve_file_def Let_def split: if_splits bind_splits)
qed

text \<open>A WebSocket session stays one; no other request is kept from what follows it.\<close>

definition served :: "mg_connection \<Rightarrow> mg_connection \<Rightarrow> bool" where
  "served c c' \<longleftrightarrow> proto_type c' = proto_type c \<and> (proto_type c \<noteq> PROTOCOL_TYPE_WEBSOCKET \<longrightarrow> within c c')"

lemma served_within: "within c c' \<Longrightarrow> served c c'"
  by (simp add: served_def within_def)

lemma served_trans: "served a b \<Longrightarrow> served b c \<Longrightarrow> served a c"
  unfolding served_def using within_trans by metis

lemma proto_frame: "frame c' = frame c \<Longrightarrow> proto_type c' = proto_type c"
  using frame_fields(2) .

lemma ws_step_proto:
  assumes "ws_step pp alloc h pc s c = (go_on, pc', s', c')"
  shows "proto_type c' = proto_type c"
proof -
  have deliver: "proto_type c' = proto_type c" if "ws_deliver pp h mop data pc s c = (go_on, pc', s', c')" for mop data pc s c
    using proto_frame [OF ws_deliver_frame [OF that]] .
  have take: "proto_type c1 = proto_type c" if "take_frame alloc hl ml pl c = (f, c1)" for hl ml pl f c1
    using that by (auto simp: take_frame_def Let_def split: if_splits prod.splits)
  have pull: "proto_type c1 = proto_type c" if "ws_pull pp pc c = (g, pc1, c1)" for g pc1 c1
  proof -
    obtain n bs again net where p: "pull_inner (net_in c) (length (conn_buf c) - data_len c) = (n, bs, again, net)"
      by (metis prod_cases4)
    show ?thesis using that proto_frame [OF mg_websocket_write_frame [of "c\<lparr>net_in := net\<rparr>" MG_WEBSOCKET_OPCODE_PING "[]"]]
      by (auto simp: ws_pull_def p Let_def split: if_splits prod.splits)
  qed
  show ?thesis
    using assms deliver by (auto simp: ws_step_def split: option.splits if_splits prod.splits dest: take pull)
qed

lemma ws_loop_proto: "proto_type (snd (ws_loop pp alloc h pc s c)) = proto_type c"
proof (induction pp alloc h pc s c rule: ws_loop.induct)
  case (1 pp alloc h pc s c)
  obtain g pc' s' c' where st: "ws_step pp alloc h pc s c = (g, pc', s', c')" by (metis prod_cases4)
  show ?case
  proof (cases "\<not> stop_flag c \<and> \<not> must_close c")
    case True
    from ws_step_proto [OF st] "1.IH" [OF True, OF st [symmetric] refl refl] show ?thesis
      by (subst ws_loop.simps) (auto simp: st True)
  qed (subst ws_loop.simps, auto)
qed

lemma proto_printf [simp]: "proto_type (mg_printf malloc c s) = proto_type c"
  using proto_frame [OF frame_mg_printf] .

lemma proto_ws_writes [simp]: "proto_type (ws_writes out c) = proto_type c"
  using proto_frame [OF ws_writes_frame] .

lemma handshake_proto: "send_websocket_handshake malloc ctx c key sub = Some (r, c') \<Longrightarrow> proto_type c' = proto_type c"
  by (auto simp: send_websocket_handshake_def Let_def split: if_splits bind_splits option.splits)

lemma mg_read_proto: "mg_read (Some c) n = (r, bs, c') \<Longrightarrow> proto_type (the c') = proto_type c"
  using mg_read_moves [of c n r bs "the c'"] by (auto simp: moves_def mg_read_def Let_def split: prod.splits)

lemma read_websocket_proto: "read_websocket opt alloc h s c = (s', c') \<Longrightarrow> proto_type c' = proto_type c"
  using ws_loop_proto by (metis read_websocket_def snd_conv)

lemma websocket_proto:
  assumes "\<forall>f status msg c. error_callback env = Some f \<longrightarrow> within c (snd (f status msg c))"
    and "handle_websocket_request env is_cb subs cb s c = Some (s', c')"
  shows "proto_type c' = proto_type c"
proof -
  have err: "proto_type d' = proto_type d" if "ws_error env status msg s d = Some (t, d')" for status msg s d t d'
    using http_error_within [OF assms(1)] that by (auto simp: ws_error_def within_def)
  show ?thesis
  proof (cases "mg_get_header (Some c) ''Sec-WebSocket-Key''")
    case None
    obtain n key3 d where r: "mg_read (Some (c\<lparr>content_len := 8\<rparr>)) 8 = (n, key3, d)" by (metis prod_cases3)
    show ?thesis
      using assms(2) mg_read_proto [OF r] unfolding handle_websocket_request_def None option.case
      by (auto simp: r split: if_splits dest!: err)
  next
    case (Some key)
    show ?thesis
      using assms(2) unfolding handle_websocket_request_def Some option.case Let_def
      by (auto split: if_splits bind_splits option.splits prod.splits dest!: err handshake_proto read_websocket_proto)
  qed
qed

lemma interpret_uri_ws: "i_ws (interpret_uri S m c u) \<Longrightarrow> proto_type c = PROTOCOL_TYPE_WEBSOCKET"
proof -
  have e: "i_ws (existing_file S u f r) = i_ws r" for f r
    by (simp add: existing_file_def Let_def split: prod.split option.split)
  have s: "i_ws (sub_resources S r) \<Longrightarrow> i_ws r" for r
    by (auto simp: sub_resources_def cleaned_up_def Let_def split: if_splits prod.splits sub_resource.splits)
  have "i_ws (interpret_uri S m c u) \<Longrightarrow> i_ws (first_outputs m c)"
    by (auto simp: interpret_uri_def Let_def e cleaned_up_def split: if_splits option.splits dest!: s)
  then show "i_ws (interpret_uri S m c u) \<Longrightarrow> proto_type c = PROTOCOL_TYPE_WEBSOCKET" by (simp add: first_outputs_def)
qed

lemma file_resource_served:
  assumes "app_reads_body srv" "file_resource srv mem q n tmp hi w = Some w'"
  shows "served (w_conn w) (w_conn w')"
proof -
  define r where "r = interpret_uri (s_site srv) (request_method (w_auth w)) (w_conn w) (str_at tmp 0)"
  obtain ok w1 where auth: "authorization srv (str_at tmp 0) (i_put r \<and> \<not> i_script r) (i_path r) hi w = Some (ok, w1)"
    using assms(2) by (auto simp: file_resource_def Let_def r_def [symmetric] split: bind_splits)
  have w1: "served (w_conn w) (w_conn w1)" using served_within [OF authorization_within [OF assms(1) auth]] .
  have ws: "i_ws r \<Longrightarrow> proto_type (w_conn w) = PROTOCOL_TYPE_WEBSOCKET"
    unfolding r_def by (rule interpret_uri_ws)
  have err: "\<forall>f status msg c. error_callback (s_env srv) = Some f \<longrightarrow> within c (snd (f status msg c))"
    using assms(1) by (auto simp: app_reads_body_def)
  note run = assms(2) [unfolded file_resource_def Let_def, folded r_def, unfolded auth, simplified]
  have "served (w_conn w1) (w_conn w')" if ok
  proof (cases "i_ws r")
    case True
    then have p: "proto_type (w_conn w1) = PROTOCOL_TYPE_WEBSOCKET" using ws w1 by (simp add: served_def)
    show ?thesis
      using run that True p served_within [OF answer_error_within [OF assms(1)]]
      by (auto simp: served_def split: if_splits dest!: websocket_proto [OF err])
  next
    case False
    then show ?thesis using run that served_within [OF serve_file_within [OF assms(1)]] by simp
  qed
  moreover have "w' = w1" if "\<not> ok" using run that by simp
  ultimately show ?thesis using served_trans [OF w1] w1 by blast
qed

lemma callback_resource_served:
  assumes "app_reads_body srv" "callback_resource srv mem q n tmp is_ws h w = Some w'"
    and "is_ws = (proto_type (w_conn w) = PROTOCOL_TYPE_WEBSOCKET)"
  shows "served (w_conn w) (w_conn w')"
proof -
  define hi where "hi = (if is_ws then None else Some (node h))"
  note run = assms(2) [unfolded callback_resource_def Let_def, folded hi_def]
  obtain ok w1 where auth: "authorization srv (str_at tmp 0) False [] hi w = Some (ok, w1)"
    using run by (auto split: bind_splits)
  have w1: "served (w_conn w) (w_conn w1)" using served_within [OF authorization_within [OF assms(1) auth]] .
  have err: "\<forall>f status msg c. error_callback (s_env srv) = Some f \<longrightarrow> within c (snd (f status msg c))"
    using assms(1) by (auto simp: app_reads_body_def)
  have "served (w_conn w1) (w_conn w')" if okay: ok
  proof (cases is_ws)
    case True
    then have "proto_type (w_conn w1) = PROTOCOL_TYPE_WEBSOCKET" using assms(3) w1 by (simp add: served_def)
    then show ?thesis
      using run auth okay True by (auto simp: served_def dest!: websocket_proto [OF err])
  next
    case False
    obtain f where f: "req_handler h = Some f" using run auth okay False by (auto split: bind_splits if_splits)
    obtain i c2 where call: "s_request_callback srv f (cbdata h) (w_conn w1) = (i, c2)" by fastforce
    have c2: "within (w_conn w1) c2" using assms(1) call unfolding app_reads_body_def by (metis snd_conv)
    define w2 where "w2 = w1\<lparr>w_conn := c2, w_handlers := release_handler_ref hi (w_handlers w1), w_log := w_log w1 @ [Called f (cbdata h)]\<rparr>"
    show ?thesis
    proof (cases "0 < i")
      case True
      have "within (w_conn w1) (discard_unread_request_data (c2\<lparr>conn_status_code := i\<rparr>))"
        using within_trans [OF c2] discard_within [of "c2\<lparr>conn_status_code := i\<rparr>"] by simp
      then show ?thesis
        using run auth okay False f call True c2 by (auto intro: served_within split: if_splits)
    next
      case no: False
      then have "file_resource srv mem q n tmp hi w2 = Some w'"
        using run auth okay False f call by (simp add: w2_def)
      from file_resource_served [OF assms(1) this] show ?thesis
        using served_trans [OF served_within [OF c2]] by (simp add: w2_def)
    qed
  qed
  moreover have "w' = w1" if "\<not> ok" using run auth that by simp
  ultimately show ?thesis using served_trans [OF w1] w1 by blast
qed

lemma route_served:
  assumes "app_reads_body srv" "route srv mem q n tmp w = Some w'"
  shows "served (w_conn w) (w_conn w')"
proof (cases "if request_method (w_auth w) = Some ''OPTIONS'' then cors_preflight srv (w_conn w) else None")
  case (Some c)
  then show ?thesis
    using assms(2) served_within [OF cors_within] by (auto simp: route_def split: if_splits)
next
  case None
  define is_ws where "is_ws = (proto_type (w_conn w) = PROTOCOL_TYPE_WEBSOCKET)"
  obtain h hs where look: "get_request_handler (if is_ws then WEBSOCKET_HANDLER else REQUEST_HANDLER) (str_at tmp 0) (w_handlers w) = (h, hs)"
    by fastforce
  have step: "(case h of Some h \<Rightarrow> callback_resource srv mem q n tmp is_ws h (w\<lparr>w_handlers := hs\<rparr>)
      | None \<Rightarrow> file_resource srv mem q n tmp None (w\<lparr>w_handlers := hs\<rparr>)) = Some w'"
    using assms(2) [unfolded route_def None option.case Let_def, folded is_ws_def] look by simp
  show ?thesis
    using step file_resource_served [OF assms(1), of mem q n tmp None "w\<lparr>w_handlers := hs\<rparr>"]
      callback_resource_served [OF assms(1), of mem q n tmp is_ws _ "w\<lparr>w_handlers := hs\<rparr>"]
    by (auto simp: is_ws_def split: option.splits)
qed

lemma handle_request_served:
  assumes "app_reads_body srv" "handle_request srv mem local w = Some w'"
  shows "served (w_conn w) (w_conn w')"
proof -
  define w0 where "w0 = w\<lparr>w_conn := (w_conn w)\<lparr>request_state := 0\<rparr>\<rparr>"
  have w0: "served (w_conn w) (w_conn w0)" by (rule served_within) (simp add: w0_def)
  obtain mem1 q where q: "split_query mem = (mem1, q)" by fastforce
  show ?thesis
  proof (cases "s_tls_redirect srv")
    case (Some f)
    then have "within c (f c)" for c using assms(1) by (simp add: app_reads_body_def)
    then have "within (w_conn w0) (w_conn w')" using assms(2) Some by (auto simp: handle_request_def Let_def q w0_def simp del: within_update)
    then show ?thesis using served_trans [OF w0 served_within] by blast
  next
    case None
    obtain mem2 n tmp where u: "clean_url (w_conn w) mem1 local q = Some (mem2, n, tmp)"
      using assms(2) by (auto simp: handle_request_def Let_def q None split: bind_splits)
    define w1 where "w1 = w0\<lparr>w_conn := (w_conn w0)\<lparr>throttle := s_throttle srv (str_at tmp 0)\<rparr>\<rparr>"
    have w1: "served (w_conn w) (w_conn w1)" by (rule served_within) (simp add: w1_def w0_def)
    have step: "begin_request_step srv mem2 q n tmp w1 = Some w'"
      using assms(2) by (simp add: handle_request_def Let_def q None u w1_def w0_def)
    have "served (w_conn w1) (w_conn w')"
    proof (cases "s_begin_request srv")
      case None
      then show ?thesis using step route_served [OF assms(1)] by (simp add: begin_request_step_def)
    next
      case (Some f)
      obtain i c where f: "f (w_conn w1) = (i, c)" by fastforce
      have c: "within (w_conn w1) c" using assms(1) Some f unfolding app_reads_body_def by (metis snd_conv)
      have d: "within (w_conn w1) (discard_unread_request_data (c\<lparr>conn_status_code := i\<rparr>))"
        using within_trans [OF c] discard_within [of "c\<lparr>conn_status_code := i\<rparr>"] by simp
      have r: "served (w_conn w1) (w_conn w')" if "route srv mem2 q n tmp (w1\<lparr>w_conn := c\<rparr>) = Some w'"
        using served_trans [OF served_within [OF c]] route_served [OF assms(1) that] by simp
      show ?thesis
        using step c d r by (auto simp: begin_request_step_def Some f Let_def intro: served_within split: if_splits)
    qed
    then show ?thesis using served_trans [OF w1] by blast
  qed
qed

end
