(* ===== verification/Session.thy ===== *)
theory Session
  imports Framing "HOL-Library.Sublist"
begin

text \<open>
  The life of a connection: \<open>read_message\<close> collects bytes until a header is complete,
  \<open>get_request\<close> parses it and determines the length of the body, and
  \<open>process_new_connection\<close> handles one request after the other, as long as the connection is
  kept alive. The bytes of a request that nobody has read are discarded, and what follows in the buffer is the next
  request.

  A server with one domain is modelled; \<open>late n\<close> tells whether the request timeout is over when
  \<open>n\<close> bytes of an incomplete request have come. There is no callback \<open>end_request\<close> and no
  access log. A negative length of a request is stored as 0. The check at the end of the loop that \<open>data_len\<close>
  lies in the buffer never fails (\<open>discard_len_bounds\<close>) and is left out.

  The lemmas follow the bytes: what has been received and what will come is the stream of the connection, and a
  request that keeps it alive takes its header and its body off the front (\<open>serve_request_frames\<close>). From
  this follow that requests do not mix and that a connection ends.
\<close>

section \<open>The code\<close>

subsection \<open>Reading a header\<close>

definition reset_per_request_attributes :: "mg_connection \<Rightarrow> mg_connection" where
  "reset_per_request_attributes conn =
     conn\<lparr>num_bytes_sent := 0, consumed_content := 0, conn_status_code := -1, content_len := -1, is_chunked := 0,
       must_close := False, request_len := 0, request_state := 0, throttle := 0,
       response_info := \<lparr>info_version = None, info_headers = []\<rparr>, request_info := \<lparr>info_version = None, info_headers = []\<rparr>\<rparr>"

text \<open>The loop of \<open>read_message\<close>: \<open>buf\<close> and the \<open>nread\<close> bytes in it; the result, the buffer and what
  the socket will deliver next.\<close>

lemma pull_inner_not_0: "pull_inner net len = (n, bs, again, net') \<Longrightarrow> 0 < len \<Longrightarrow> n \<noteq> 0"
  by (auto simp: pull_inner_def split: list.splits recv_event.splits if_splits)

function read_loop ::
    "bool \<Rightarrow> (nat \<Rightarrow> bool) \<Rightarrow> int \<Rightarrow> char list \<Rightarrow> nat \<Rightarrow> recv_event list \<Rightarrow> int \<times> char list \<times> nat \<times> recv_event list" where
  "read_loop stop late req_len buf nread net =
     (if req_len \<noteq> 0 then (req_len, buf, nread, net)
      else if stop then (-1, buf, nread, net)
      else if length buf \<le> nread then (-2, buf, nread, net)
      else let (n, bs, again, net') = pull_inner net (length buf - nread)
           in if n = -2 then (-1, buf, nread, net')
              else if 0 < n
              then let buf = take nread buf @ bs @ drop (nread + length bs) buf;
                       nread = nread + length bs;
                       req_len = get_http_header_len (take nread buf)
                   in if req_len = 0 \<and> late nread then (-1, buf, nread, net') else read_loop stop late req_len buf nread net'
              else if again then read_loop stop late req_len buf nread net' else (-1, buf, nread, net'))"
  by pat_completeness auto
termination
proof (relation "measures [\<lambda>(stop, late, r, buf, nread, net). length buf - nread, \<lambda>(stop, late, r, buf, nread, net). length net]",
    goal_cases)
  case 1
  show ?case by simp
next
  case (2 stop late r buf nread net x n y bs z again net' buf' nread' r')
  then have "pull_inner net (length buf - nread) = (n, bs, again, net')" by simp
  from pull_inner_length [OF this] 2 have bs: "0 < length bs" "nread + length bs \<le> length buf" by auto
  have "length buf' = length buf" "nread' = nread + length bs" using 2 bs by simp_all
  then have "length buf' - nread' < length buf - nread" using bs by linarith
  then show ?case by simp
next
  case (3 stop late r buf nread net x n y bs z again net')
  then have "pull_inner net (length buf - nread) = (n, bs, again, net')" by simp
  from pull_inner_length [OF this] pull_inner_not_0 [OF this] 3 have "length net' < length net" by simp
  then show ?case by simp
qed

declare read_loop.simps [simp del]

definition read_message :: "(nat \<Rightarrow> bool) \<Rightarrow> mg_connection \<Rightarrow> int \<times> mg_connection" where
  "read_message late conn =
     (let (r, buf, nread, net) = read_loop (stop_flag conn) late (get_http_header_len (take (data_len conn) (conn_buf conn)))
                (conn_buf conn) (data_len conn) (net_in conn)
      in (r, conn\<lparr>conn_buf := buf, data_len := nread, net_in := net\<rparr>))"

text \<open>The result, the text in \<open>ebuf\<close>, the error code and the connection.\<close>

definition get_message :: "(nat \<Rightarrow> bool) \<Rightarrow> mg_connection \<Rightarrow> bool \<times> string \<times> int \<times> mg_connection" where
  "get_message late conn =
     (let (r, conn) = read_message late (reset_per_request_attributes conn);
          conn = conn\<lparr>request_len := nat r\<rparr>
      in if 0 \<le> r \<and> int (data_len conn) < r then (False, ''Invalid message size'', 500, conn)
         else if r = 0 \<and> data_len conn = length (conn_buf conn) then (False, ''Message too large'', 413, conn)
         else if r \<le> 0
         then if 0 < data_len conn then (False, ''Malformed message'', 400, conn)
              else (False, ''No data received'', 0, conn\<lparr>must_close := True\<rparr>)
         else (True, [], 0, conn))"

subsection \<open>A request\<close>

definition get_host_from_request_info :: "mg_header list \<Rightarrow> string option" where
  "get_host_from_request_info hdr =
     (case get_header hdr ''Host'' of
        None \<Rightarrow> None
      | Some host_header \<Rightarrow>
          if deref host_header = CHR ''[''
          then (case strchr host_header (CHR '']'') of
                  None \<Rightarrow> None
                | Some pos \<Rightarrow> Some (take (length host_header - length pos + 1) host_header))
          else Some (takeWhile (\<lambda>c. c \<noteq> CHR '':'') host_header))"

text \<open>\<open>sslhost\<close> is the domain's name on a TLS connection to another domain than the default one.\<close>

definition switch_domain_context :: "string option \<Rightarrow> mg_header list \<Rightarrow> bool" where
  "switch_domain_context sslhost hdr =
     (case get_host_from_request_info hdr of
        None \<Rightarrow> True
      | Some host \<Rightarrow> (case sslhost of
            None \<Rightarrow> True
          | Some s \<Rightarrow> length s = length host \<and> mg_strncasecmp host s (length host) = 0))"

text \<open>The length of the body; the error code is 0 when there is none.\<close>

definition set_content_len :: "mg_connection \<Rightarrow> int \<times> mg_connection" where
  "set_content_len conn =
     (let get = get_header (info_headers (request_info conn));
          transfer = (case get ''Transfer-Encoding'' of None \<Rightarrow> None | Some cl \<Rightarrow> if mg_strcasecmp cl ''identity'' \<noteq> 0 then Some cl else None)
      in case transfer of
           Some cl \<Rightarrow>
             if mg_strcasecmp cl ''chunked'' \<noteq> 0 then (400, conn) else (0, conn\<lparr>is_chunked := 1, content_len := 0\<rparr>)
         | None \<Rightarrow>
             (case get ''Content-Length'' of
                None \<Rightarrow> (0, conn\<lparr>content_len := 0\<rparr>)
              | Some cl \<Rightarrow>
                  let (n, endptr) = strtol10 cl
                  in (if endptr = cl \<or> n < 0 then 411 else 0, conn\<lparr>content_len := n\<rparr>)))"

text \<open>What \<open>get_request\<close> hands over: the method, the target, the version and the header fields.\<close>

type_synonym request = "string \<times> string \<times> string \<times> mg_header list"

definition get_request ::
    "string option \<Rightarrow> (nat \<Rightarrow> bool) \<Rightarrow> mg_request_info \<Rightarrow> mg_connection \<Rightarrow> (bool \<times> string \<times> int \<times> mg_connection \<times> request) option" where
  "get_request sslhost late ri conn =
     (let no_request = ([], [], [], []);
          (ok, ebuf, err, conn) = get_message late (conn\<lparr>conn_type := CONNECTION_TYPE_REQUEST\<rparr>)
      in if \<not> ok then Some (False, ebuf, err, conn, no_request)
         else do {
           (mem, ri, r) \<leftarrow> parse_http_request (conn_buf conn) (length (conn_buf conn)) ri;
           let conn = conn\<lparr>conn_buf := mem\<rparr>;
           let str = (\<lambda>p. case p of None \<Rightarrow> [] | Some p \<Rightarrow> str_at mem p);
           let hdr = map (\<lambda>(n, v). (str_at mem n, str_at mem v)) (http_headers ri);
           let req = (str (mg_request_info.request_method ri), str (request_uri ri), str (http_version ri), hdr);
           if r \<le> 0 then Some (False, ''Bad request'', 400, conn, no_request)
           else let conn = conn\<lparr>request_info := \<lparr>info_version = map_option (str_at mem) (http_version ri), info_headers = hdr\<rparr>\<rparr>
             in if \<not> switch_domain_context sslhost hdr then Some (False, ''Bad request: Host mismatch'', 400, conn, no_request)
                else let (err, conn) = set_content_len conn
                     in Some (if err = 0 then (True, [], 0, conn, req) else (False, ''Bad request'', err, conn, no_request))
         })"

subsection \<open>Request after request\<close>

text \<open>The address the connection came in on.\<close>

record listener =
  lsa_port :: nat
  ENABLE_AUTH_DOMAIN_CHECK :: string
  ssl_host :: "string option"

text \<open>The part of the target that is local to this server, as its position; the text in \<open>ebuf\<close>.\<close>

definition local_part :: "listener \<Rightarrow> string \<Rightarrow> string \<Rightarrow> string \<times> nat option" where
  "local_part lst domain target =
     (let t = get_uri_type target
      in if t = 1 then ([], None)
         else if t = 2 then ([], Some 0)
         else if t = 3 \<or> t = 4
         then ([], map_option (\<lambda>hostend. length target - length hostend)
                 (get_rel_url_at_current_server target (ENABLE_AUTH_DOMAIN_CHECK lst) domain (lsa_port lst)))
         else (''Invalid URI'', None))"

definition protocol_of :: "int \<Rightarrow> protocol_type" where
  "protocol_of t = (if t = 0 \<or> t = 2 then PROTOCOL_TYPE_HTTP1 else if t = 1 then PROTOCOL_TYPE_WEBSOCKET else PROTOCOL_TYPE_UNKNOWN)"

text \<open>Sums of 64 bits, and what is left of one in an \<open>int\<close>.\<close>

definition wrap64 :: "int \<Rightarrow> int" where
  "wrap64 n = (n + 9223372036854775808) mod 18446744073709551616 - 9223372036854775808"

definition wrap32 :: "int \<Rightarrow> int" where
  "wrap32 n = (n + 2147483648) mod 4294967296 - 2147483648"

definition keep_alive :: "mg_connection \<Rightarrow> bool" where
  "keep_alive conn \<longleftrightarrow>
     \<not> stop_flag conn \<and> should_keep_alive (Some conn) \<and> 0 \<le> content_len conn \<and> 0 < request_len conn
     \<and> (is_chunked conn = 4
        \<or> is_chunked conn = 0 \<and> (consumed_content conn = content_len conn
            \<or> wrap64 (int (request_len conn) + content_len conn) \<le> int (data_len conn)))
     \<and> proto_type conn = PROTOCOL_TYPE_HTTP1"

definition discard_len :: "mg_connection \<Rightarrow> int" where
  "discard_len conn =
     (let total = wrap64 (int (request_len conn) + content_len conn)
      in if total < int (data_len conn) then wrap32 total else int (data_len conn))"

definition discard_request :: "mg_connection \<Rightarrow> mg_connection" where
  "discard_request conn =
     (let d = nat (discard_len conn);
          data_len' = data_len conn - d
      in conn\<lparr>data_len := data_len',
           conn_buf := take data_len' (drop d (conn_buf conn)) @ drop data_len' (conn_buf conn)\<rparr>)"

text \<open>Whether the request can be handled: the text in \<open>ebuf\<close> and the position of the target's
  local part. An error is answered.\<close>

definition check_request ::
    "'s server \<Rightarrow> listener \<Rightarrow> bool \<Rightarrow> string \<Rightarrow> int \<Rightarrow> request \<Rightarrow> 's world \<Rightarrow> (string \<times> nat option \<times> 's world) option" where
  "check_request srv lst ok ebuf err req w =
     (case req of (meth, target, version, hdr) \<Rightarrow> do {
       (ebuf, w) \<leftarrow>
         (if \<not> ok
          then if 0 < err then map_option (Pair ebuf) (answer_error srv err ebuf w) else Some (ebuf, w)
          else if version \<noteq> ''1.0'' \<and> version \<noteq> ''1.1''
          then let ebuf = take 99 (''Bad HTTP version: ['' @ version @ '']'') in map_option (Pair ebuf) (answer_error srv 505 ebuf w)
          else Some ([], w));
       if ebuf \<noteq> [] then Some (ebuf, None, w)
       else case local_part lst (AUTHENTICATION_DOMAIN (w_auth w)) target of
              (ebuf, local) \<Rightarrow>
                if ebuf = [] then Some (ebuf, local, w) else map_option (\<lambda>w. (ebuf, local, w)) (answer_error srv 400 ebuf w)
     })"

definition finish_request :: "request list \<Rightarrow> 's world \<Rightarrow> bool \<times> request list \<times> 's world" where
  "finish_request reqs w =
     (let conn = w_conn w;
          conn = conn\<lparr>response_info := (response_info conn)\<lparr>info_headers := []\<rparr>\<rparr>;
          keep = keep_alive conn
      in (keep, reqs, w\<lparr>w_conn := (if keep then discard_request conn else conn), w_user := None\<rparr>))"

text \<open>The body of the loop: whether the connection is kept alive, and the request that has been
  handled.\<close>

definition serve_request ::
    "'s server \<Rightarrow> listener \<Rightarrow> (nat \<Rightarrow> bool) \<Rightarrow> mg_request_info \<Rightarrow> 's world \<Rightarrow> (bool \<times> request list \<times> 's world) option" where
  "serve_request srv lst late ri w =
     do {
       (ok, ebuf, err, conn, req) \<leftarrow> get_request (ssl_host lst) late ri (w_conn w);
       (ebuf, local, w) \<leftarrow> check_request srv lst ok ebuf err req (w\<lparr>w_conn := conn\<rparr>);
       let w = w\<lparr>w_conn := (w_conn w)\<lparr>proto_type :=
             (if ebuf \<noteq> [] then PROTOCOL_TYPE_UNKNOWN else protocol_of (should_switch_to_protocol (w_conn w)))\<rparr>\<rparr>;
       case local of
         None \<Rightarrow> Some (finish_request [] (w\<lparr>w_conn := (w_conn w)\<lparr>must_close := True\<rparr>\<rparr>))
       | Some l \<Rightarrow>
           map_option (finish_request [req])
             (handle_request srv (fst (snd req) @ [NUL]) l (w\<lparr>w_auth := (w_auth w)\<lparr>request_method := Some (fst req)\<rparr>\<rparr>))
     }"

text \<open>The loop: the requests that have been handled, in their order; \<open>None\<close> also when it does not end.\<close>

partial_function (option) process_requests ::
    "'s server \<Rightarrow> listener \<Rightarrow> (nat \<Rightarrow> nat \<Rightarrow> bool) \<Rightarrow> mg_request_info \<Rightarrow> nat \<Rightarrow> 's world \<Rightarrow> (request list \<times> 's world) option" where
  "process_requests srv lst late ri handled_requests w =
     Option.bind (serve_request srv lst (late handled_requests) ri w) (\<lambda>(keep, reqs, w).
       if keep
       then Option.bind (process_requests srv lst late ri (handled_requests + 1) w) (\<lambda>(reqs', w). Some (reqs @ reqs', w))
       else Some (reqs, w))"

definition init_connection :: "mg_connection \<Rightarrow> mg_connection" where
  "init_connection conn =
     (let conn = (if mg_strcasecmp (ENABLE_KEEP_ALIVE conn) ''yes'' \<noteq> 0 then conn\<lparr>must_close := True\<rparr> else conn)
      in conn\<lparr>data_len := 0, conn_type := CONNECTION_TYPE_INVALID\<rparr>)"

definition process_new_connection ::
    "'s server \<Rightarrow> listener \<Rightarrow> (nat \<Rightarrow> nat \<Rightarrow> bool) \<Rightarrow> mg_request_info \<Rightarrow> 's world \<Rightarrow> (request list \<times> 's world) option" where
  "process_new_connection srv lst late ri w =
     process_requests srv lst late ri 0 (w\<lparr>w_conn := init_connection (w_conn w)\<rparr>)"

section \<open>Finding the end of a header\<close>

text \<open>What has been found in a part of the stream is found in the whole.\<close>

lemma header_len_loop_more:
  "get_http_header_len_loop buf i \<noteq> 0 \<Longrightarrow> get_http_header_len_loop (buf @ rest) i = get_http_header_len_loop buf i"
proof (induction buf i rule: get_http_header_len_loop.induct)
  case (1 buf i)
  define c where "c = buf ! i"
  have i: "i < length buf"
  proof (rule ccontr)
    assume "\<not> i < length buf"
    then have "get_http_header_len_loop buf i = 0" by (subst get_http_header_len_loop.simps) simp
    with "1.prems" show False by simp
  qed
  have nth: "(buf @ rest) ! j = buf ! j" if "j < length buf" for j using that by (simp add: nth_append)
  define bad where "bad = (ordc c < 128 \<and> c \<noteq> CR \<and> c \<noteq> LF \<and> \<not> isprint c)"
  define two where "two = (\<lambda>b. i + 1 < length b \<and> b ! i = LF \<and> b ! (i + 1) = LF)"
  define four where "four = (\<lambda>b. i + 3 < length b \<and> b ! i = CR \<and> b ! (i + 1) = LF \<and> b ! (i + 2) = CR \<and> b ! (i + 3) = LF)"
  have loop: "get_http_header_len_loop b i = (if bad then -1 else if two b then int (i + 2) else if four b then int (i + 4)
      else get_http_header_len_loop b (i + 1))" if "i < length b" "b ! i = c" for b
    using that by (subst get_http_header_len_loop.simps) (simp add: Let_def bad_def two_def four_def)
  have short: "get_http_header_len_loop buf (i + 1) = 0" if "two (buf @ rest) \<and> \<not> two buf \<or> four (buf @ rest) \<and> \<not> four buf"
  proof -
    have steps: "get_http_header_len_loop buf j = get_http_header_len_loop buf (j + 1)"
      if "j < length buf" "buf ! j = LF \<or> buf ! j = CR" "\<not> (j + 1 < length buf \<and> buf ! j = LF \<and> buf ! (j + 1) = LF)" "length buf \<le> j + 3" for j
      using that by (subst get_http_header_len_loop.simps) (auto simp: Let_def)
    have past: "get_http_header_len_loop buf j = 0" if "length buf \<le> j" for j
      using that by (subst get_http_header_len_loop.simps) simp
    show ?thesis
    proof (cases "two (buf @ rest) \<and> \<not> two buf")
      case True
      then have "length buf \<le> i + 1" using i by (auto simp: two_def nth_append split: if_splits)
      then show ?thesis by (rule past)
    next
      case False
      with that have f: "four (buf @ rest)" "\<not> four buf" by auto
      then have len: "length buf \<le> i + 3" using i by (auto simp: four_def nth_append split: if_splits)
      have at: "i + 1 < length buf \<longrightarrow> buf ! (i + 1) = LF" "i + 2 < length buf \<longrightarrow> buf ! (i + 2) = CR"
        using f(1) nth by (auto simp: four_def)
      have s2: "get_http_header_len_loop buf (i + 2) = 0"
      proof (cases "i + 2 < length buf")
        case True
        then have "get_http_header_len_loop buf (i + 2) = get_http_header_len_loop buf (i + 2 + 1)"
          using at len by (intro steps) auto
        also have "\<dots> = 0" using len by (intro past) simp
        finally show ?thesis .
      next
        case False
        then show ?thesis by (intro past) simp
      qed
      show ?thesis
      proof (cases "i + 1 < length buf")
        case True
        then have "get_http_header_len_loop buf (i + 1) = get_http_header_len_loop buf (i + 1 + 1)"
          using at len s2 f(2) by (intro steps) auto
        also have "i + 1 + 1 = i + 2" by simp
        finally show ?thesis using s2 by simp
      next
        case False
        then show ?thesis by (intro past) simp
      qed
    qed
  qed
  have mono: "two buf \<Longrightarrow> two (buf @ rest)" "four buf \<Longrightarrow> four (buf @ rest)"
    using nth by (auto simp: two_def four_def)
  have l1: "get_http_header_len_loop buf i = (if bad then -1 else if two buf then int (i + 2) else if four buf then int (i + 4)
      else get_http_header_len_loop buf (i + 1))" using loop [of buf] i by (simp add: c_def)
  have l2: "get_http_header_len_loop (buf @ rest) i = (if bad then -1 else if two (buf @ rest) then int (i + 2)
      else if four (buf @ rest) then int (i + 4) else get_http_header_len_loop (buf @ rest) (i + 1))"
    using loop [of "buf @ rest"] i nth [OF i] by (simp add: c_def)
  have excl: "two (buf @ rest) \<Longrightarrow> \<not> four buf" using nth [OF i] by (auto simp: two_def four_def)
  show ?case
  proof (cases "bad \<or> two buf \<or> four buf")
    case True
    then show ?thesis using l1 l2 mono excl by auto
  next
    case False
    then have ne: "get_http_header_len_loop buf (i + 1) \<noteq> 0" using l1 "1.prems" by simp
    then have "\<not> two (buf @ rest)" "\<not> four (buf @ rest)" using short False by auto
    moreover have "get_http_header_len_loop (buf @ rest) (i + 1) = get_http_header_len_loop buf (i + 1)"
      using "1.IH" [OF i refl _ _ _ ne] False unfolding bad_def two_def four_def c_def by auto
    ultimately show ?thesis using l1 l2 False by simp
  qed
qed

lemma header_len_more: "get_http_header_len buf \<noteq> 0 \<Longrightarrow> get_http_header_len (buf @ rest) = get_http_header_len buf"
  unfolding get_http_header_len_def by (rule header_len_loop_more)


lemma header_len_pos_bounds: "0 < get_http_header_len buf \<Longrightarrow> 2 \<le> get_http_header_len buf \<and> get_http_header_len buf \<le> int (length buf)"
  using get_http_header_len_bounds [of buf 0 "get_http_header_len buf"] by (auto simp: get_http_header_len_def)

text \<open>The header of a request ends where its rendering ends, whatever follows.\<close>

lemma header_len_render:
  assumes "is_valid_http_method meth" "list_all isgraph target" "list_all isgraph version" "\<forall>h \<in> set hs. header_ok h"
  shows "get_http_header_len (render_request meth target version hs @ rest) = int (length (render_request meth target version hs))"
  using header_len_lines [of "request_line meth target version # map header_line hs" "[]" rest] message_lines [OF assms]
  by (simp add: get_http_header_len_def render_request_def)

section \<open>The stream of a connection\<close>

text \<open>What has been received and not yet been used, and what will come.\<close>

definition stream :: "mg_connection \<Rightarrow> char list" where
  "stream c = take (data_len c) (conn_buf c) @ incoming (net_in c)"

lemma pull_inner_incoming:
  assumes "pull_inner net len = (n, bs, again, net')" "0 < len"
  shows "incoming net = bs @ incoming net'" "n \<le> 0 \<Longrightarrow> bs = []" "length bs \<le> len"
  using assms by (auto simp: pull_inner_def split: list.splits recv_event.splits if_splits)

definition sized :: "mg_connection \<Rightarrow> bool" where
  "sized c \<longleftrightarrow> data_len c \<le> length (conn_buf c) \<and> int (length (conn_buf c)) \<le> INT_MAX"

text \<open>Bytes that no parser has cleared yet.\<close>

definition left :: "mg_connection \<Rightarrow> nat" where
  "left c = weight (conn_buf c) + weight (incoming (net_in c))"

lemma read_loop_spec:
  assumes "read_loop stop late r buf nread net = (r', buf', nread', net')" "nread \<le> length buf"
    and "0 < r \<Longrightarrow> r = get_http_header_len (take nread buf)"
  shows "length buf' = length buf \<and> nread' \<le> length buf \<and> take nread' buf' @ incoming net' = take nread buf @ incoming net
    \<and> (0 < r' \<longrightarrow> r' = get_http_header_len (take nread' buf'))
    \<and> weight buf' + weight (incoming net') \<le> weight buf + weight (incoming net)"
  using assms
proof (induction stop late r buf nread net arbitrary: r' buf' nread' net' rule: read_loop.induct)
  case (1 stop late r buf nread net)
  show ?case
  proof (cases "r \<noteq> 0 \<or> stop \<or> length buf \<le> nread")
    case True
    then show ?thesis using "1.prems" by (subst (asm) read_loop.simps) (auto split: if_splits)
  next
    case False
    obtain n bs again net1 where p: "pull_inner net (length buf - nread) = (n, bs, again, net1)" by (metis prod_cases4)
    have l: "0 < length buf - nread" using False by simp
    note q = pull_inner_incoming [OF p l]
    have fit: "nread + length bs \<le> length buf" using q(3) False by linarith
    define buf1 where "buf1 = take nread buf @ bs @ drop (nread + length bs) buf"
    define r1 where "r1 = get_http_header_len (take (nread + length bs) buf1)"
    have t: "take (nread + length bs) buf1 = take nread buf @ bs" "length buf1 = length buf"
      using fit by (simp_all add: buf1_def)
    have "weight buf = weight (take nread buf) + weight (take (length bs) (drop nread buf)) + weight (drop (nread + length bs) buf)"
      using append_take_drop_id [of nread buf] append_take_drop_id [of "length bs" "drop nread buf"] by (metis add.assoc drop_drop weight_append add.commute)
    then have w: "weight buf1 + weight (incoming net1) \<le> weight buf + weight (incoming net)" using q(1) by (simp add: buf1_def)
    note run = "1.prems"(1) [unfolded read_loop.simps [of stop late r buf nread net] p Let_def prod.case, folded buf1_def, folded r1_def]
    have c: "\<not> r \<noteq> 0" "\<not> stop" "\<not> length buf \<le> nread" using False by auto
    consider "n = -2" | "0 < n" "r1 = 0 \<and> late (nread + length bs)" | "0 < n" "\<not> (r1 = 0 \<and> late (nread + length bs))"
      | "n \<noteq> -2" "n \<le> 0" again | "n \<noteq> -2" "n \<le> 0" "\<not> again" by linarith
    then show ?thesis
    proof cases
      case 3
      have n: "n \<noteq> -2" using 3 by simp
      from run c n 3 have "read_loop stop late r1 buf1 (nread + length bs) net1 = (r', buf', nread', net')" by auto
      from "1.IH"(1) [OF c p [symmetric] refl refl refl n 3(1) buf1_def refl _ 3(2) this] show ?thesis
        using t q c w fit by (simp add: r1_def)
    next
      case 4
      then have "read_loop stop late r buf nread net1 = (r', buf', nread', net')" using run c by auto
      from "1.IH"(2) [OF c p [symmetric] refl refl refl 4(1) _ 4(3) this] show ?thesis
        using 4 q c "1.prems"(2) by auto
    qed (use run c q t w "1.prems"(2) in \<open>auto split: if_splits\<close>)
  qed
qed

lemma get_message_spec:
  assumes "get_message late c = (True, ebuf, err, c')" "data_len c \<le> length (conn_buf c)"
  shows "stream c' = stream c" "length (conn_buf c') = length (conn_buf c)" "data_len c' \<le> length (conn_buf c')"
    "0 < request_len c'" "request_len c' \<le> data_len c'" "int (request_len c') = get_http_header_len (take (data_len c') (conn_buf c'))"
    "consumed_content c' = 0" "is_chunked c' = 0" "left c' \<le> left c"
proof -
  obtain r buf n net where l: "read_loop (stop_flag c) late (get_http_header_len (take (data_len c) (conn_buf c)))
      (conn_buf c) (data_len c) (net_in c) = (r, buf, n, net)" by (metis prod_cases4)
  have f: "0 < r" "c' = (reset_per_request_attributes c)\<lparr>conn_buf := buf, data_len := n, net_in := net, request_len := nat r\<rparr>"
    using assms(1) l by (auto simp: get_message_def read_message_def reset_per_request_attributes_def Let_def split: if_splits)
  from read_loop_spec [OF l assms(2)] header_len_pos_bounds [of "take n buf"] f show
    "stream c' = stream c" "length (conn_buf c') = length (conn_buf c)" "data_len c' \<le> length (conn_buf c')"
    "0 < request_len c'" "request_len c' \<le> data_len c'" "int (request_len c') = get_http_header_len (take (data_len c') (conn_buf c'))"
    "consumed_content c' = 0" "is_chunked c' = 0" "left c' \<le> left c"
    by (auto simp: stream_def left_def reset_per_request_attributes_def)
qed

lemma strtol10_bound: "strtol10 s = (n, e) \<Longrightarrow> n \<le> 9223372036854775807"
  unfolding strtol10_def Let_def by (split if_split_asm) (simp_all only: prod.inject, auto)

lemma set_content_len_spec:
  assumes "set_content_len c = (0, c')" "is_chunked c = 0"
  shows "c' = c\<lparr>is_chunked := is_chunked c', content_len := content_len c'\<rparr>" "0 \<le> content_len c'" "is_chunked c' = 0 \<or> is_chunked c' = 1"
    "content_len c' \<le> INT64_MAX"
proof -
  show "c' = c\<lparr>is_chunked := is_chunked c', content_len := content_len c'\<rparr>" "0 \<le> content_len c'" "is_chunked c' = 0 \<or> is_chunked c' = 1"
    using assms by (auto simp: set_content_len_def Let_def split: option.splits if_splits prod.splits)
  show "content_len c' \<le> INT64_MAX"
    using assms strtol10_bound by (auto simp: set_content_len_def INT64_MAX_def Let_def split: option.splits if_splits prod.splits)
qed

lemma get_request_parts:
  assumes "get_request sslhost late ri c = Some (True, ebuf, err, c', req)" "data_len c \<le> length (conn_buf c)"
  obtains c1 mem ri1 r where
    "stream c1 = stream c" "length (conn_buf c1) = length (conn_buf c)" "data_len c1 \<le> length (conn_buf c1)"
    "0 < request_len c1" "request_len c1 \<le> data_len c1" "int (request_len c1) = get_http_header_len (take (data_len c1) (conn_buf c1))"
    "consumed_content c1 = 0" "is_chunked c1 = 0" "left c1 \<le> left c"
    "parse_http_request (conn_buf c1) (length (conn_buf c1)) ri = Some (mem, ri1, r)" "0 < r"
    "req = (case mg_request_info.request_method ri1 of None \<Rightarrow> [] | Some p \<Rightarrow> str_at mem p, case request_uri ri1 of None \<Rightarrow> [] | Some p \<Rightarrow> str_at mem p,
      case http_version ri1 of None \<Rightarrow> [] | Some p \<Rightarrow> str_at mem p, map (\<lambda>(n, v). (str_at mem n, str_at mem v)) (http_headers ri1))"
    "set_content_len (c1\<lparr>conn_buf := mem, request_info := \<lparr>info_version = map_option (str_at mem) (http_version ri1),
      info_headers = map (\<lambda>(n, v). (str_at mem n, str_at mem v)) (http_headers ri1)\<rparr>\<rparr>) = (0, c')"
proof -
  obtain ok eb er c1 where g: "get_message late (c\<lparr>conn_type := CONNECTION_TYPE_REQUEST\<rparr>) = (ok, eb, er, c1)" by (metis prod_cases4)
  have ok using assms(1) g by (cases ok) (simp_all add: get_request_def Let_def)
  then have m: "get_message late (c\<lparr>conn_type := CONNECTION_TYPE_REQUEST\<rparr>) = (True, eb, er, c1)" using g by simp
  have len: "data_len (c\<lparr>conn_type := CONNECTION_TYPE_REQUEST\<rparr>) \<le> length (conn_buf (c\<lparr>conn_type := CONNECTION_TYPE_REQUEST\<rparr>))"
    using assms(2) by simp
  obtain mem ri1 r where p: "parse_http_request (conn_buf c1) (length (conn_buf c1)) ri = Some (mem, ri1, r)"
    using parse_request_memory [of "length (conn_buf c1)" "conn_buf c1" ri] by auto
  have s: "stream (c\<lparr>conn_type := CONNECTION_TYPE_REQUEST\<rparr>) = stream c"
    "length (conn_buf (c\<lparr>conn_type := CONNECTION_TYPE_REQUEST\<rparr>)) = length (conn_buf c)"
    "left (c\<lparr>conn_type := CONNECTION_TYPE_REQUEST\<rparr>) = left c" by (simp_all add: stream_def left_def)
  show thesis
    by (rule that [OF get_message_spec [OF m len, unfolded s] p])
      (use assms(1) m p in \<open>auto simp: get_request_def Let_def split: if_splits prod.splits\<close>)
qed

lemma get_request_bounds:
  assumes "get_request sslhost late ri c = Some (True, ebuf, err, c', req)" "data_len c \<le> length (conn_buf c)"
  shows "body_inv c'" "consumed_content c' = 0" "0 < request_len c'" "length (conn_buf c') = length (conn_buf c)"
    "length (stream c) = request_len c' + length (body_stream c')" "request_len c' \<le> data_len c'"
    "left c' < left c" "content_len c' \<le> INT64_MAX" "length (stream c') = length (stream c)"
    "is_chunked c' = 0 \<or> is_chunked c' = 1" "data_len c' \<le> length (conn_buf c')"
proof -
  obtain c1 mem ri1 r hdr where c1: "stream c1 = stream c" "length (conn_buf c1) = length (conn_buf c)" "data_len c1 \<le> length (conn_buf c1)"
    "0 < request_len c1" "request_len c1 \<le> data_len c1" "consumed_content c1 = 0" "is_chunked c1 = 0" "left c1 \<le> left c"
    "parse_http_request (conn_buf c1) (length (conn_buf c1)) ri = Some (mem, ri1, r)" "0 < r"
    "set_content_len (c1\<lparr>conn_buf := mem, request_info := hdr\<rparr>) = (0, c')"
    using get_request_parts [OF assms(1,2)] by metis
  have c': "c' = c1\<lparr>conn_buf := mem, request_info := hdr, is_chunked := is_chunked c', content_len := content_len c'\<rparr>" "0 \<le> content_len c'"
    "is_chunked c' = 0 \<or> is_chunked c' = 1" "content_len c' \<le> INT64_MAX"
    using set_content_len_spec [OF c1(11)] c1(7) by simp_all
  have m: "length mem = length (conn_buf c1)"
    using parse_request_memory [of "length (conn_buf c1)" "conn_buf c1" ri] c1(9) by auto
  have f: "request_len c' = request_len c1" "data_len c' = data_len c1" "conn_buf c' = mem" "consumed_content c' = 0" "net_in c' = net_in c1"
    using c1(6) by (subst c'; simp)+
  show "content_len c' \<le> INT64_MAX" "is_chunked c' = 0 \<or> is_chunked c' = 1" by (rule c'(4), rule c'(3))
  show "request_len c' \<le> data_len c'" "data_len c' \<le> length (conn_buf c')" using f m c1(3,5) by simp_all
  show "left c' < left c" using weight_parse [OF c1(9,10)] c1(8) f by (simp add: left_def)
  show "length (stream c') = length (stream c)" unfolding c1(1) [symmetric] using f m by (simp add: stream_def)
  from f show "body_inv c'" "consumed_content c' = 0" "0 < request_len c'" "length (conn_buf c') = length (conn_buf c)"
    using c1 m c' by (auto simp: body_inv_def sane_def)
  show "length (stream c) = request_len c' + length (body_stream c')"
    unfolding c1(1) [symmetric] using f m c1(3,5) by (simp add: stream_def body_stream_def)
qed

text \<open>The bytes of a request begin at its first byte, which is not white space.\<close>

definition sound_start :: "char list \<Rightarrow> bool" where
  "sound_start s \<longleftrightarrow> s \<noteq> [] \<longrightarrow> \<not> isspace (hd s)"

lemma get_request_spec:
  assumes "get_request sslhost late ri c = Some (True, ebuf, err, c', req)" "data_len c \<le> length (conn_buf c)" "sound_start (stream c)"
  obtains head where "stream c = head @ body_stream c'" "int (length head) = get_http_header_len (stream c)"
proof -
  obtain c1 mem ri1 r hdr where c1: "stream c1 = stream c" "data_len c1 \<le> length (conn_buf c1)"
    "0 < request_len c1" "request_len c1 \<le> data_len c1" "int (request_len c1) = get_http_header_len (take (data_len c1) (conn_buf c1))"
    "consumed_content c1 = 0" "is_chunked c1 = 0"
    "parse_http_request (conn_buf c1) (length (conn_buf c1)) ri = Some (mem, ri1, r)" "0 < r"
    "set_content_len (c1\<lparr>conn_buf := mem, request_info := hdr\<rparr>) = (0, c')"
    using get_request_parts [OF assms(1,2)] by metis
  have c': "c' = c1\<lparr>conn_buf := mem, request_info := hdr, is_chunked := is_chunked c', content_len := content_len c'\<rparr>"
    using set_content_len_spec [OF c1(10)] c1(7) by simp
  have ne: "conn_buf c1 \<noteq> []" "stream c1 \<noteq> []" "hd (stream c1) = conn_buf c1 ! 0" using c1(2-4) by (auto simp: stream_def hd_append hd_conv_nth)
  have m: "drop (nat r) mem = drop (nat r) (conn_buf c1)" "r = get_http_header_len (conn_buf c1)"
    using parse_request_memory [of "length (conn_buf c1)" "conn_buf c1" ri] c1 ne assms(3) by (auto simp: sound_start_def)
  have l: "get_http_header_len (take (data_len c1) (conn_buf c1) @ rest) = int (request_len c1)" for rest
    using header_len_more [of "take (data_len c1) (conn_buf c1)" rest] c1(3,5) by simp
  have r: "nat r = request_len c1" using l [of "drop (data_len c1) (conn_buf c1)"] m(2) by simp
  have body: "body_stream c' = drop (request_len c1) (take (data_len c1) (conn_buf c1)) @ incoming (net_in c1)"
    using m(1) c1(6) unfolding r by (subst c') (simp add: body_stream_def drop_take)
  show thesis
  proof (rule that)
    show "stream c = take (request_len c1) (conn_buf c1) @ body_stream c'"
      unfolding body c1(1) [symmetric] unfolding stream_def append.assoc [symmetric]
      using append_take_drop_id [of "request_len c1" "take (data_len c1) (conn_buf c1)"] c1(4) by (simp add: min_absorb1)
    show "int (length (take (request_len c1) (conn_buf c1))) = get_http_header_len (stream c)"
      using l [of "incoming (net_in c1)"] c1(1,2,4) by (simp add: stream_def)
  qed
qed

section \<open>One request\<close>

lemma get_request_error:
  assumes "get_request sslhost late ri c = Some (False, ebuf, err, c', req)"
  shows "ebuf \<noteq> []"
proof -
  obtain ok eb er c1 where g: "get_message late (c\<lparr>conn_type := CONNECTION_TYPE_REQUEST\<rparr>) = (ok, eb, er, c1)" by (metis prod_cases4)
  show ?thesis
  proof (cases ok)
    case True
    then show ?thesis using assms g by (auto simp: get_request_def Let_def split: bind_splits if_splits prod.splits)
  next
    case False
    then have "eb \<noteq> []" using g by (auto simp: get_message_def Let_def split: if_splits prod.splits)
    then show ?thesis using False assms g by (auto simp: get_request_def Let_def)
  qed
qed

lemma not_kept: "must_close c \<Longrightarrow> \<not> keep_alive c"
  by (simp add: keep_alive_def should_keep_alive_def)

lemma local_part_error: "local_part lst domain target = (ebuf, local) \<Longrightarrow> ebuf \<noteq> [] \<Longrightarrow> local = None"
  by (auto simp: local_part_def Let_def split: if_splits)

lemma check_request_local:
  assumes "check_request srv lst ok ebuf err req w = Some (e, Some l, w')" "ok \<or> ebuf \<noteq> []"
  shows "ok" "w' = w" "e = []"
  using assms by (auto simp: check_request_def Let_def split: if_splits bind_splits prod.splits dest: local_part_error)

text \<open>A request has been handled, or there is nothing to keep the connection for.\<close>

lemma serve_request_cases:
  assumes "serve_request srv lst late ri w = Some (keep, reqs, w')"
  obtains "\<not> keep" "reqs = []"
  | ebuf err conn req l w1 w2 c2 where
    "get_request (ssl_host lst) late ri (w_conn w) = Some (True, ebuf, err, conn, req)" "reqs = [req]"
    "w_conn w1 = conn\<lparr>proto_type := proto_type (w_conn w1)\<rparr>" "handle_request srv (fst (snd req) @ [NUL]) l w1 = Some w2"
    "c2 = (w_conn w2)\<lparr>response_info := (response_info (w_conn w2))\<lparr>info_headers := []\<rparr>\<rparr>"
    "keep = keep_alive c2" "w_conn w' = (if keep then discard_request c2 else c2)"
proof -
  obtain ok ebuf err conn req where g: "get_request (ssl_host lst) late ri (w_conn w) = Some (ok, ebuf, err, conn, req)"
    using assms by (auto simp: serve_request_def split: bind_splits)
  obtain e local w0 where ch: "check_request srv lst ok ebuf err req (w\<lparr>w_conn := conn\<rparr>) = Some (e, local, w0)"
    using assms g by (auto simp: serve_request_def split: bind_splits)
  have ne: "ok \<or> ebuf \<noteq> []" using get_request_error g by (cases ok) auto
  show thesis
  proof (cases local)
    case None
    then show thesis using assms g ch that(1) not_kept by (auto simp: serve_request_def finish_request_def Let_def)
  next
    case (Some l)
    note s = check_request_local [OF ch [unfolded Some] ne]
    define w1 where "w1 = w\<lparr>w_conn := conn\<lparr>proto_type := protocol_of (should_switch_to_protocol conn)\<rparr>,
      w_auth := (w_auth w)\<lparr>request_method := Some (fst req)\<rparr>\<rparr>"
    obtain w2 where h: "handle_request srv (fst (snd req) @ [NUL]) l w1 = Some w2" "finish_request [req] w2 = (keep, reqs, w')"
      using assms g ch Some s by (auto simp: serve_request_def Let_def w1_def)
    show thesis
      by (rule that(2) [OF _ _ _ h(1) refl]) (use g s h(2) in \<open>auto simp: finish_request_def Let_def w1_def\<close>)
  qed
qed

lemma wrap64_id: "0 \<le> n \<Longrightarrow> n < 9223372036854775808 \<Longrightarrow> wrap64 n = n"
  by (simp add: wrap64_def)

lemma wrap64_over: "9223372036854775808 \<le> n \<Longrightarrow> n < 18446744073709551616 \<Longrightarrow> wrap64 n = n - 18446744073709551616"
  using mod_pos_pos_trivial [of "n - 9223372036854775808" 18446744073709551616]
    minus_mod_self2 [of "n + 9223372036854775808" 18446744073709551616]
  by (simp add: wrap64_def)

lemma wrap32_id: "0 \<le> n \<Longrightarrow> n \<le> INT_MAX \<Longrightarrow> wrap32 n = n"
  by (simp add: wrap32_def INT_MAX_def)

lemma discard_len_exact:
  assumes "sized c" "keep_alive c" "int (request_len c) + content_len c < 9223372036854775808"
  shows "discard_len c = min (int (request_len c) + content_len c) (int (data_len c))"
proof -
  have "wrap64 (int (request_len c) + content_len c) = int (request_len c) + content_len c"
    using assms(2,3) by (intro wrap64_id) (auto simp: keep_alive_def)
  then show ?thesis using assms(1,2) wrap32_id by (auto simp: discard_len_def sized_def keep_alive_def Let_def)
qed

text \<open>An announced length close to \<open>2^63\<close> makes the sum wrap; then less than the header is discarded.\<close>

lemma discard_len_wrapped:
  assumes "sized c" "0 < content_len c" "content_len c \<le> INT64_MAX" "request_len c \<le> data_len c"
    and "9223372036854775808 \<le> int (request_len c) + content_len c"
  shows "discard_len c = int (request_len c) + content_len c - 9223372036854775808"
proof -
  define x where "x = int (request_len c) + content_len c - 9223372036854775808"
  have x: "0 \<le> x" "x < int (request_len c)" "x \<le> INT_MAX" "x < 9223372036854775808"
    using assms by (auto simp: x_def INT64_MAX_def sized_def INT_MAX_def)
  have w: "wrap64 (int (request_len c) + content_len c) = x - 9223372036854775808"
    using x wrap64_over [of "int (request_len c) + content_len c"] assms(5) by (simp add: x_def)
  have "(x - 9223372036854775808 + 2147483648) mod 4294967296 = (x + 2147483648) mod 4294967296"
    using mod_mult_self1 [of "x - 9223372036854775808 + 2147483648" 2147483648 4294967296] by (simp add: add.commute)
  then have "wrap32 (x - 9223372036854775808) = x" using wrap32_id [OF x(1,3)] by (simp add: wrap32_def)
  then show ?thesis using w x by (simp add: discard_len_def Let_def x_def)
qed

lemma discard_len_bounds:
  assumes "sized c" "keep_alive c" "content_len c \<le> INT64_MAX" "request_len c \<le> data_len c"
  shows "0 \<le> discard_len c" "discard_len c \<le> int (data_len c)"
proof -
  have c: "0 \<le> content_len c" using assms(2) by (simp add: keep_alive_def)
  have "0 \<le> discard_len c \<and> discard_len c \<le> int (data_len c)"
  proof (cases "int (request_len c) + content_len c < 9223372036854775808")
    case True
    then show ?thesis using discard_len_exact [OF assms(1,2)] c by simp
  next
    case False
    moreover have "int (request_len c) < 9223372036854775808" using assms(1,4) by (auto simp: sized_def INT_MAX_def)
    ultimately show ?thesis using discard_len_wrapped [OF assms(1) _ assms(3,4)] c assms(3,4) by (auto simp: INT64_MAX_def)
  qed
  then show "0 \<le> discard_len c" "discard_len c \<le> int (data_len c)" by simp_all
qed

lemma stream_discard:
  assumes "sized c"
  shows "stream (discard_request c) = drop (nat (discard_len c)) (take (data_len c) (conn_buf c)) @ incoming (net_in c)"
    "sized (discard_request c)"
proof -
  define d where "d = nat (discard_len c)"
  have s: "data_len c \<le> length (conn_buf c)" using assms by (simp add: sized_def)
  have t: "take (data_len c - d) (drop d (conn_buf c)) = drop d (take (data_len c) (conn_buf c))" by (simp add: drop_take)
  have l: "data_len c - d = length (drop d (take (data_len c) (conn_buf c)))" using s by simp
  have "take (data_len c - d) (take (data_len c - d) (drop d (conn_buf c)) @ z) = drop d (take (data_len c) (conn_buf c))" for z
    unfolding t unfolding l by (simp del: length_drop)
  then show "stream (discard_request c) = drop (nat (discard_len c)) (take (data_len c) (conn_buf c)) @ incoming (net_in c)"
    unfolding d_def [symmetric] by (simp add: stream_def discard_request_def Let_def d_def [symmetric] del: take_append)
  have "length (conn_buf (discard_request c)) = length (conn_buf c)" "data_len (discard_request c) \<le> data_len c"
    using s by (auto simp: discard_request_def Let_def d_def [symmetric])
  then show "sized (discard_request c)" using assms by (simp add: sized_def)
qed

lemma sized_within: "within c c' \<Longrightarrow> body_inv c \<Longrightarrow> sized c \<Longrightarrow> sized c'"
  by (auto simp: within_def moves_def sized_def)

lemma kept_stream:
  assumes "within c c'" "body_inv c" "consumed_content c = 0" "keep_alive c'" "sized c" "is_chunked c = 0"
    and "int (request_len c) + content_len c < 9223372036854775808"
  obtains body where "body_stream c = body @ stream (discard_request c')" "int (length body) = content_len c"
proof -
  have m: "moves c c'" "body_inv c'" "is_chunked c' = 0" "content_len c' = content_len c"
    using assms(1,2,6) by (auto simp: within_def)
  have s: "sane c" "sane c'" using assms(2) m(2) by (simp_all add: body_inv_def)
  obtain x where x: "body_stream c = x @ body_stream c'" "consumed_content c' = int (length x)"
    using m(1) s(1) assms(3) by (auto simp: moves_def)
  define n where "n = nat (content_len c')"
  define k where "k = request_len c'"
  define B where "B = take (data_len c') (conn_buf c')"
  have n: "content_len c' = int n" using assms(4) by (simp add: n_def keep_alive_def)
  have small: "int (request_len c') + content_len c' < 9223372036854775808" using assms(7) m(1,4) by (simp add: moves_def)
  have "drop (nat (min (int k + int n) (int (data_len c')))) B = drop (k + n) B"
    by (cases "k + n \<le> data_len c'") (simp_all add: min_def B_def nat_int_add)
  then have d: "stream (discard_request c') = drop (k + n) B @ incoming (net_in c')"
    using stream_discard(1) [OF sized_within [OF assms(1,2,5)]] discard_len_exact [OF sized_within [OF assms(1,2,5)] assms(4) small] n
    by (simp add: k_def B_def)
  have b: "body_stream c' = drop (k + length x) B @ incoming (net_in c')" using x(2) by (simp add: body_stream_def k_def B_def)
  show thesis
  proof (cases "length x = n")
    case True
    then show thesis using that [of x] x(1) b d n m(4) by simp
  next
    case False
    have "wrap64 (int k + int n) = int k + int n" using small n by (intro wrap64_id) (simp_all add: k_def)
    then have "k + n \<le> data_len c'" using assms(4) False m(3) x(2) n by (auto simp: keep_alive_def k_def)
    moreover have "length x \<le> n" using m(2,3) x(2) n by (simp add: body_inv_def)
    moreover have "length B = data_len c'" using s(2) by (simp add: B_def sane_def)
    ultimately have f: "length (take (n - length x) (drop (k + length x) B)) = n - length x"
      "drop (n - length x) (drop (k + length x) B) = drop (k + n) B" "length x \<le> n" by (auto simp: add.commute)
    have "drop (k + length x) B = take (n - length x) (drop (k + length x) B) @ drop (k + n) B"
      using append_take_drop_id [of "n - length x" "drop (k + length x) B"] f(2) by simp
    then have "body_stream c = (x @ take (n - length x) (drop (k + length x) B)) @ stream (discard_request c')"
      using x(1) b d by simp
    moreover have "length (x @ take (n - length x) (drop (k + length x) B)) = n" using f(1,3) by simp
    ultimately show thesis using that [of "x @ take (n - length x) (drop (k + length x) B)"] n m(4) by simp
  qed
qed

lemma serve_request_handled:
  assumes "app_reads_body srv" "serve_request srv lst late ri w = Some (True, reqs, w')" "sized (w_conn w)"
  obtains ebuf err conn req c2 where
    "get_request (ssl_host lst) late ri (w_conn w) = Some (True, ebuf, err, conn, req)" "reqs = [req]"
    "within (conn\<lparr>proto_type := PROTOCOL_TYPE_HTTP1\<rparr>) c2" "body_inv (conn\<lparr>proto_type := PROTOCOL_TYPE_HTTP1\<rparr>)"
    "sized (conn\<lparr>proto_type := PROTOCOL_TYPE_HTTP1\<rparr>)" "keep_alive c2" "w_conn w' = discard_request c2"
proof -
  obtain ebuf err conn req l w1 w2 c2 where c: "get_request (ssl_host lst) late ri (w_conn w) = Some (True, ebuf, err, conn, req)"
    "reqs = [req]" "w_conn w1 = conn\<lparr>proto_type := proto_type (w_conn w1)\<rparr>" "handle_request srv (fst (snd req) @ [NUL]) l w1 = Some w2"
    "c2 = (w_conn w2)\<lparr>response_info := (response_info (w_conn w2))\<lparr>info_headers := []\<rparr>\<rparr>" "keep_alive c2" "w_conn w' = discard_request c2"
    using serve_request_cases [OF assms(2)] by (metis (full_types))
  have "data_len (w_conn w) \<le> length (conn_buf (w_conn w))" using assms(3) by (simp add: sized_def)
  note h = get_request_bounds [OF c(1) this]
  have p: "proto_type (w_conn w2) = PROTOCOL_TYPE_HTTP1" using c(5,6) by (simp add: keep_alive_def)
  then have w1: "w_conn w1 = conn\<lparr>proto_type := PROTOCOL_TYPE_HTTP1\<rparr>"
    using handle_request_served [OF assms(1) c(4)] c(3) by (simp add: served_def)
  then have "within (conn\<lparr>proto_type := PROTOCOL_TYPE_HTTP1\<rparr>) c2"
    using handle_request_served [OF assms(1) c(4)] c(5) by (simp add: served_def)
  moreover have "body_inv (conn\<lparr>proto_type := PROTOCOL_TYPE_HTTP1\<rparr>)" "sized (conn\<lparr>proto_type := PROTOCOL_TYPE_HTTP1\<rparr>)"
    using h(1,4,11) assms(3) by (simp_all add: body_inv_def sane_def sized_def)
  ultimately show thesis using that [OF c(1,2)] c(6,7) by blast
qed

text \<open>When the connection is kept, header and body of the request are gone, and nothing else.\<close>

lemma serve_request_frames:
  assumes "app_reads_body srv" "serve_request srv lst late ri w = Some (True, reqs, w')" "sized (w_conn w)" "sound_start (stream (w_conn w))"
    and "get_request (ssl_host lst) late ri (w_conn w) = Some (True, ebuf, err, conn, req)" "is_chunked conn = 0"
    and "int (request_len conn) + content_len conn < 9223372036854775808"
  obtains head body where "stream (w_conn w) = head @ body @ stream (w_conn w')"
    "int (length head) = get_http_header_len (stream (w_conn w))" "int (length body) = content_len conn" "sized (w_conn w')"
proof -
  obtain c2 where c: "within (conn\<lparr>proto_type := PROTOCOL_TYPE_HTTP1\<rparr>) c2" "body_inv (conn\<lparr>proto_type := PROTOCOL_TYPE_HTTP1\<rparr>)"
    "sized (conn\<lparr>proto_type := PROTOCOL_TYPE_HTTP1\<rparr>)" "keep_alive c2" "w_conn w' = discard_request c2"
    by (rule serve_request_handled [OF assms(1-3)]) (use assms(5) in simp)
  have len: "data_len (w_conn w) \<le> length (conn_buf (w_conn w))" using assms(3) by (simp add: sized_def)
  obtain head where h: "stream (w_conn w) = head @ body_stream conn" "int (length head) = get_http_header_len (stream (w_conn w))"
    using get_request_spec [OF assms(5) len assms(4)] by metis
  obtain body where "body_stream conn = body @ stream (w_conn w')" "int (length body) = content_len conn"
    using kept_stream [OF c(1,2) _ c(4,3)] get_request_bounds(2) [OF assms(5) len] assms(6,7) c(5) by (auto simp: body_stream_def)
  with h that stream_discard(2) [OF sized_within [OF c(1-3)]] c(5) show thesis by simp
qed

lemma within_incoming:
  assumes "within c c'" "body_inv c" "consumed_content c = 0"
  shows "\<exists>x. incoming (net_in c) = x @ incoming (net_in c')"
proof -
  have m: "moves c c'" "sane c" using assms(1,2) by (auto simp: within_def body_inv_def)
  define B where "B = drop (request_len c) (take (data_len c) (conn_buf c))"
  obtain x where x: "body_stream c = x @ body_stream c'" "consumed_content c' = int (length x)"
    using m assms(3) by (auto simp: moves_def)
  have "B @ incoming (net_in c) = x @ drop (length x) B @ incoming (net_in c')"
    using x m(1) assms(3) by (simp add: body_stream_def B_def moves_def add.commute)
  then have "drop (length x) (B @ incoming (net_in c)) = drop (length x) B @ incoming (net_in c')" by simp
  then have "drop (length x - length B) (incoming (net_in c)) = incoming (net_in c')" by simp
  then show ?thesis by (metis append_take_drop_id)
qed

text \<open>Bytes leave the stream, or at least the parser has cleared some.\<close>

lemma serve_request_shrinks:
  assumes "app_reads_body srv" "serve_request srv lst late ri w = Some (True, reqs, w')" "sized (w_conn w)"
    and "int (length (stream (w_conn w))) < 4611686018427387904"
  shows "sized (w_conn w')" "length (stream (w_conn w')) < length (stream (w_conn w))
    \<or> length (stream (w_conn w')) = length (stream (w_conn w)) \<and> left (w_conn w') < left (w_conn w)"
proof -
  obtain ebuf err conn req c2 where c: "get_request (ssl_host lst) late ri (w_conn w) = Some (True, ebuf, err, conn, req)"
    "within (conn\<lparr>proto_type := PROTOCOL_TYPE_HTTP1\<rparr>) c2" "body_inv (conn\<lparr>proto_type := PROTOCOL_TYPE_HTTP1\<rparr>)"
    "sized (conn\<lparr>proto_type := PROTOCOL_TYPE_HTTP1\<rparr>)" "keep_alive c2" "w_conn w' = discard_request c2"
    using serve_request_handled [OF assms(1-3)] by metis
  define c1 where "c1 = conn\<lparr>proto_type := PROTOCOL_TYPE_HTTP1\<rparr>"
  note c = c [folded c1_def]
  have len: "data_len (w_conn w) \<le> length (conn_buf (w_conn w))" using assms(3) by (simp add: sized_def)
  note h = get_request_bounds [OF c(1) len]
  have c1: "consumed_content c1 = 0" "conn_buf c1 = conn_buf conn" "data_len c1 = data_len conn" "request_len c1 = request_len conn"
    "net_in c1 = net_in conn" "is_chunked c1 = is_chunked conn" "content_len c1 = content_len conn" using h(2) by (simp_all add: c1_def)
  have m: "conn_buf c2 = conn_buf conn" "data_len c2 = data_len conn" "request_len c2 = request_len conn" "body_inv c2" "moves c1 c2"
    using c(2,3) c1 by (auto simp: within_def moves_def)
  have s2: "sized c2" using sized_within [OF c(2-4)] .
  show "sized (w_conn w')" unfolding c(6) by (rule stream_discard(2) [OF s2])
  obtain x where x: "incoming (net_in conn) = x @ incoming (net_in c2)" using within_incoming [OF c(2,3) c1(1)] c1(5) by auto
  have cl: "content_len c2 \<le> INT64_MAX"
  proof (cases "is_chunked conn = 0")
    case True
    then show ?thesis using c(2,3) c1 h(8) by (auto simp: within_def)
  next
    case False
    then have "consumed_content c2 = content_len c2" using c(2,3,5) c1 m(4) by (auto simp: within_def keep_alive_def body_inv_def)
    moreover obtain y where "body_stream c1 = y @ body_stream c2" "consumed_content c2 = int (length y)"
      using m(5) c(3) c1(1) by (auto simp: moves_def body_inv_def)
    moreover have "body_stream c1 = body_stream conn" using c1 h(2) by (simp add: body_stream_def)
    ultimately show ?thesis using h(5) assms(4) by (simp add: INT64_MAX_def)
  qed
  define d where "d = nat (discard_len c2)"
  have d: "d \<le> data_len conn" using discard_len_bounds [OF s2 c(5) cl] m h(6) by (auto simp: d_def)
  have buf: "data_len conn \<le> length (conn_buf conn)" by (rule h(11))
  have st: "stream (w_conn w') = drop d (take (data_len conn) (conn_buf conn)) @ incoming (net_in c2)"
    unfolding c(6) using stream_discard(1) [OF s2] m by (simp add: d_def)
  then have l: "length (stream (w_conn w')) + d + length x = length (stream conn)"
    using d buf by (simp add: stream_def x)
  have "left (w_conn w') \<le> left conn" if "d = 0"
    unfolding c(6) using that m x by (simp add: left_def discard_request_def d_def [symmetric])
  then show "length (stream (w_conn w')) < length (stream (w_conn w))
    \<or> length (stream (w_conn w')) = length (stream (w_conn w)) \<and> left (w_conn w') < left (w_conn w)"
    using l h(7,9) by (cases "d = 0") auto
qed

section \<open>The connection ends\<close>

text \<open>After \<open>n - k\<close> requests that have kept the connection alive, the world is \<open>w'\<close>.\<close>

inductive kept ::
    "'s server \<Rightarrow> listener \<Rightarrow> (nat \<Rightarrow> nat \<Rightarrow> bool) \<Rightarrow> mg_request_info \<Rightarrow> nat \<Rightarrow> 's world \<Rightarrow> nat \<Rightarrow> 's world \<Rightarrow> bool"
  for srv lst late ri k w where
  first: "kept srv lst late ri k w k w"
| another: "kept srv lst late ri k w n w' \<Longrightarrow> serve_request srv lst (late n) ri w' = Some (True, reqs, w'') \<Longrightarrow> kept srv lst late ri k w (n + 1) w''"

lemma kept_before:
  assumes "kept srv lst late ri (k + 1) w1 n w'" "serve_request srv lst (late k) ri w = Some (True, reqs, w1)"
  shows "kept srv lst late ri k w n w'"
  using assms(1)
proof (induction rule: kept.induct)
  case first
  show ?case by (rule kept.another [of srv lst late ri k w k w, OF kept.first assms(2)])
next
  case (another n w' reqs w'')
  then show ?case by (blast intro: kept.another)
qed

lemma process_requests_stuck:
  assumes "kept srv lst late ri k w n w'" "process_requests srv lst late ri n w' = None"
  shows "process_requests srv lst late ri k w = None"
  using assms
proof (induction rule: kept.induct)
  case (another n w' reqs w'')
  then have "process_requests srv lst late ri n w' = None" using process_requests.simps [of srv lst late ri n w'] by simp
  then show ?case by (rule another.IH)
qed

lemma process_requests_ends:
  assumes "app_reads_body srv" "sized (w_conn w)" "int (length (stream (w_conn w))) < 4611686018427387904"
    and "process_requests srv lst late ri k w = None"
  shows "\<exists>n w'. kept srv lst late ri k w n w' \<and> serve_request srv lst (late n) ri w' = None"
  using assms(2-4)
proof (induction w arbitrary: k rule: wf_induct_rule [OF wf_measures [of "[\<lambda>w. length (stream (w_conn w)), \<lambda>w. left (w_conn w)]"]])
  case (1 w)
  show ?case
  proof (cases "serve_request srv lst (late k) ri w")
    case None
    then show ?thesis using kept.first by fastforce
  next
    case (Some r)
    then obtain keep reqs w' where s: "serve_request srv lst (late k) ri w = Some (keep, reqs, w')" by (metis prod_cases3)
    then have keep and stuck: "process_requests srv lst late ri (k + 1) w' = None"
      using 1(4) process_requests.simps [of srv lst late ri k w] by (auto simp: bind_eq_None_conv split: if_splits prod.splits)
    then have s: "serve_request srv lst (late k) ri w = Some (True, reqs, w')" using s by simp
    note shrinks = serve_request_shrinks [OF assms(1) this 1(2,3)]
    then have "int (length (stream (w_conn w'))) < 4611686018427387904" using 1(3) by linarith
    moreover have "(w', w) \<in> measures [\<lambda>w. length (stream (w_conn w)), \<lambda>w. left (w_conn w)]" using shrinks(2) by simp
    ultimately obtain n w1 where "kept srv lst late ri (k + 1) w' n w1" "serve_request srv lst (late n) ri w1 = None"
      using 1(1) shrinks(1) stuck by blast
    then show ?thesis using kept_before [of srv lst late ri k w' n w1 w reqs] s by blast
  qed
qed

subsection \<open>A server of callbacks returns from every request\<close>

text \<open>A server without files and without a password file, and handlers for requests and for authorization, each with its callback.\<close>

definition callback_server :: "'s server \<Rightarrow> bool" where
  "callback_server srv \<longleftrightarrow> DOCUMENT_ROOT (s_site srv) = None \<and> WEBSOCKET_ROOT (s_site srv) = None
     \<and> ADDITIONAL_HEADER (reply_cfg (s_env srv)) = None
     \<and> (\<forall>u. auth_file ((s_protect srv)\<lparr>local_uri := u\<rparr>) (s_files srv) [] = None)"

definition has_callback :: "mg_handler_info \<Rightarrow> bool" where
  "has_callback h \<longleftrightarrow> htype h \<noteq> WEBSOCKET_HANDLER \<and> (htype h = REQUEST_HANDLER \<longrightarrow> req_handler h \<noteq> None)
     \<and> (htype h = AUTH_HANDLER \<longrightarrow> auth_handler h \<noteq> None)"

definition callable :: "mg_handler_info list \<Rightarrow> bool" where
  "callable hs \<longleftrightarrow> (\<forall>h \<in> set hs. has_callback h)"

lemma has_callback_refcount [simp]: "has_callback (h\<lparr>refcount := n\<rparr>) = has_callback h"
  by (simp add: has_callback_def)

lemma callable_refs [simp]: "callable (acquire a hs) = callable hs" "callable (release_handler_ref hi hs) = callable hs"
proof -
  have m: "callable (map g hs) = callable hs" if "\<And>h. has_callback (g h) = has_callback h" for g using that by (simp add: callable_def)
  show "callable (acquire a hs) = callable hs" unfolding acquire_def by (rule m) simp
  show "callable (release_handler_ref hi hs) = callable hs"
    unfolding release_handler_ref_def by (cases hi) (simp_all add: m)
qed

lemma callable_get:
  assumes "get_request_handler t u hs = (res, hs')" "callable hs"
  shows "callable hs'" "\<And>h. res = Some h \<Longrightarrow> h \<in> set hs \<and> htype h = t"
proof -
  have c: "h \<in> set hs \<and> htype h = t" if "h \<in> set (candidates t u hs)" for h using that by (auto simp: candidates_def)
  show "callable hs'" using assms by (auto simp: get_request_handler_candidates split: list.splits if_splits)
  show "h \<in> set hs \<and> htype h = t" if "res = Some h" for h
    using assms(1) that c by (auto simp: get_request_handler_candidates split: list.splits if_splits)
qed

lemma answer_error_returns:
  assumes "callback_server srv"
  shows "\<exists>w'. answer_error srv status msg w = Some w' \<and> w_handlers w' = w_handlers w"
proof -
  have add: "send_additional_header malloc (reply_cfg (s_env srv)) c \<noteq> None" for malloc c
    using assms by (simp add: callback_server_def send_additional_header_def Let_def)
  have "send_default_error malloc (reply_cfg (s_env srv)) date st m c \<noteq> None" for malloc date st m c
    using add by (auto simp: send_default_error_def Let_def bind_eq_None_conv)
  then have "answer_error srv status msg w \<noteq> None"
    by (auto simp: answer_error_def ws_error_def mg_send_http_error_def Let_def split: prod.split option.split)
  then show ?thesis using answer_error_same by blast
qed

lemma authorization_returns:
  assumes "callback_server srv" "callable (w_handlers w)" "put_file \<or> path = []"
  shows "\<exists>ok w'. authorization srv u put_file path hi w = Some (ok, w') \<and> callable (w_handlers w')"
proof -
  obtain res hs' where look: "get_request_handler AUTH_HANDLER u (w_handlers w) = (res, hs')" by fastforce
  show ?thesis
  proof (cases res)
    case (Some h)
    then obtain f where "auth_handler h = Some f"
      using callable_get(2) [OF look assms(2)] assms(2) by (fastforce simp: callable_def has_callback_def)
    then show ?thesis using assms(2) look Some by (auto simp: authorization_def Let_def split: prod.split)
  next
    case None
    have auth: "auth_file ((s_protect srv)\<lparr>local_uri := u\<rparr>) (s_files srv) [] = None" "DOCUMENT_ROOT (s_site srv) = None"
      using assms(1) by (simp_all add: callback_server_def)
    show ?thesis
    proof (cases put_file)
      case True
      then show ?thesis
        using answer_error_returns [OF assms(1), of 405 "the (request_method (w_auth w)) @ '' method not allowed''" w] look None assms(2) auth
        by (auto simp: authorization_def Let_def)
    next
      case False
      then have "path = []" using assms(3) by simp
      then show ?thesis using look None assms(2) auth False
        by (intro exI [of _ True] exI [of _ w]) (simp add: authorization_def check_authorization_def set_user_def Let_def)
    qed
  qed
qed

lemma file_resource_returns:
  assumes "callback_server srv" "callable (w_handlers w)"
  shows "\<exists>w'. file_resource srv mem q n tmp hi w = Some w' \<and> callable (w_handlers w')"
proof -
  define r where "r = interpret_uri (s_site srv) (request_method (w_auth w)) (w_conn w) (str_at tmp 0)"
  have "root_of (s_site srv) (w_conn w) = None" using assms(1) by (simp add: root_of_def callback_server_def)
  then have r: "i_path r = []" "\<not> i_script r" by (simp_all add: r_def interpret_uri_def first_outputs_def Let_def)
  obtain ok w1 where auth: "authorization srv (str_at tmp 0) (i_put r \<and> \<not> i_script r) (i_path r) hi w = Some (ok, w1)" "callable (w_handlers w1)"
    using authorization_returns [OF assms] r(1) by blast
  have err: "\<exists>w'. answer_error srv 404 msg w1 = Some w' \<and> callable (w_handlers w')" for msg
    using answer_error_returns [OF assms(1), of 404 msg w1] auth(2) by auto
  show ?thesis
    using auth err r(2) assms(1)
    by (auto simp: file_resource_def Let_def r_def [symmetric] serve_file_def callback_server_def)
qed

lemma callback_resource_returns:
  assumes "callback_server srv" "callable (w_handlers w)" "req_handler h = Some f"
  shows "\<exists>w'. callback_resource srv mem q n tmp False h w = Some w' \<and> callable (w_handlers w')"
proof -
  obtain ok w1 where auth: "authorization srv (str_at tmp 0) False [] (Some (node h)) w = Some (ok, w1)" "callable (w_handlers w1)"
    using authorization_returns [OF assms(1,2)] by blast
  obtain i c where call: "s_request_callback srv f (cbdata h) (w_conn w1) = (i, c)" by fastforce
  define w2 where "w2 = w1\<lparr>w_conn := c, w_handlers := release_handler_ref (Some (node h)) (w_handlers w1), w_log := w_log w1 @ [Called f (cbdata h)]\<rparr>"
  have "callable (w_handlers w2)" using auth(2) by (simp add: w2_def)
  then obtain w' where answer: "file_resource srv mem q n tmp (Some (node h)) w2 = Some w'" "callable (w_handlers w')"
    using file_resource_returns [OF assms(1)] by blast
  show ?thesis
  proof (cases "ok \<and> i \<le> 0")
    case True
    then have "callback_resource srv mem q n tmp False h w = Some w'"
      using auth(1) assms(3) call answer(1) by (simp add: callback_resource_def w2_def)
    then show ?thesis using answer(2) by blast
  next
    case False
    then show ?thesis using auth assms(3) call by (auto simp: callback_resource_def Let_def)
  qed
qed

lemma route_returns:
  assumes "callback_server srv" "callable (w_handlers w)"
  shows "\<exists>w'. route srv mem q n tmp w = Some w' \<and> callable (w_handlers w')"
proof (cases "if request_method (w_auth w) = Some ''OPTIONS'' then cors_preflight srv (w_conn w) else None")
  case (Some c)
  then show ?thesis using assms(2) by (auto simp: route_def)
next
  case None
  define is_ws where "is_ws = (proto_type (w_conn w) = PROTOCOL_TYPE_WEBSOCKET)"
  obtain res hs where look: "get_request_handler (if is_ws then WEBSOCKET_HANDLER else REQUEST_HANDLER) (str_at tmp 0) (w_handlers w) = (res, hs)"
    by fastforce
  note found = callable_get [OF look assms(2)]
  have step: "route srv mem q n tmp w = (case res of Some h \<Rightarrow> callback_resource srv mem q n tmp is_ws h (w\<lparr>w_handlers := hs\<rparr>)
      | None \<Rightarrow> file_resource srv mem q n tmp None (w\<lparr>w_handlers := hs\<rparr>))"
    unfolding route_def None option.case Let_def is_ws_def [symmetric] using look by simp
  show ?thesis
  proof (cases res)
    case None
    then show ?thesis using file_resource_returns [OF assms(1), of "w\<lparr>w_handlers := hs\<rparr>"] found(1) step by simp
  next
    case (Some h)
    then have "h \<in> set (w_handlers w)" "htype h = (if is_ws then WEBSOCKET_HANDLER else REQUEST_HANDLER)" using found(2) by simp_all
    with assms(2) obtain f where "\<not> is_ws" "req_handler h = Some f" by (cases is_ws) (fastforce simp: callable_def has_callback_def)+
    then show ?thesis using callback_resource_returns [OF assms(1), of "w\<lparr>w_handlers := hs\<rparr>"] found(1) step Some by simp
  qed
qed

lemma mg_url_decode_returns:
  assumes "src + src_len < length mem"
  shows "\<exists>mem' k. mg_url_decode mem src src_len src (src_len + 1) form = Some (mem', k) \<and> length mem' = length mem
    \<and> drop (src + src_len + 1) mem' = drop (src + src_len + 1) mem \<and> (mem ! (src + src_len) = NUL \<longrightarrow> mem' ! (src + src_len) = NUL)"
proof -
  define out where "out = url_decoded form (slice mem src src_len)"
  have "length out \<le> length (slice mem src src_len)" unfolding out_def by (rule url_decoded_length)
  then have lo: "length out \<le> src_len" by (simp add: slice_def)
  then obtain mem' where m: "mg_url_decode mem src src_len src (src_len + 1) form = Some (mem', int (length out))"
    "slice mem' src (length out + 1) = out @ [NUL]" "drop (src + length out + 1) mem' = drop (src + length out + 1) mem" "length mem' = length mem"
    using mg_url_decode_spec [of src src_len mem src "src_len + 1" out form "length out"] assms by (auto simp: out_def)
  have d: "drop (src + src_len + 1) mem' = drop (src + src_len + 1) mem"
    using arg_cong [OF m(3), of "drop (src_len - length out)"] lo by (simp add: add.commute)
  have "mem' ! (src + src_len) = NUL" if "mem ! (src + src_len) = NUL"
  proof (cases "length out = src_len")
    case True
    have "slice mem' src (length out + 1) ! length out = (out @ [NUL]) ! length out" by (simp only: m(2))
    also have "(out @ [NUL]) ! length out = NUL" by (rule nth_append_length)
    finally show ?thesis using True assms m(4) by (simp add: slice_def)
  next
    case False
    then have "src + src_len = (src + length out + 1) + (src_len - length out - 1)" using lo by simp
    moreover have "drop (src + length out + 1) mem' ! (src_len - length out - 1) = drop (src + length out + 1) mem ! (src_len - length out - 1)"
      by (simp only: m(3))
    ultimately show ?thesis using that assms m(4) lo False by (simp add: nth_drop)
  qed
  with m(1,4) d show ?thesis by blast
qed

lemma takeWhile_shorter: "\<exists>x \<in> set xs. \<not> P x \<Longrightarrow> length (takeWhile P xs) < length xs"
  by (induction xs) auto

lemma clean_url_returns:
  assumes "local < length mem" "last mem = NUL" "\<And>k. q = Some k \<Longrightarrow> k < length mem"
  shows "\<exists>mem' n tmp. clean_url c mem local q = Some (mem', n, tmp)"
proof -
  define n where "n = length (str_at mem local)"
  have nul: "mem ! (length mem - 1) = NUL" using assms(1,2) last_conv_nth [of mem] by (cases "mem = []") auto
  have n: "local + n < length mem \<and> mem ! (local + n) = NUL"
  proof -
    have "last (drop local mem) = NUL" "drop local mem \<noteq> []" using assms(1,2) by simp_all
    then have "\<exists>x \<in> set (drop local mem). \<not> x \<noteq> NUL" using last_in_set by metis
    then have "length (takeWhile (\<lambda>c. c \<noteq> NUL) (drop local mem)) < length (drop local mem)" by (rule takeWhile_shorter)
    then show ?thesis using nth_length_takeWhile [of "\<lambda>c. c \<noteq> NUL" "drop local mem"] by (simp add: n_def str_at_def nth_drop)
  qed
  define dec where "dec = (if should_decode_url (Some c) then map_option fst (mg_url_decode mem local n local (n + 1) False) else Some mem)"
  obtain mem1 where m1: "dec = Some mem1" "length mem1 = length mem" "mem1 ! (length mem - 1) = NUL"
  proof (cases "should_decode_url (Some c)")
    case False
    then show ?thesis using that [of mem] nul by (simp add: dec_def)
  next
    case True
    obtain mem1 k where r: "mg_url_decode mem local n local (n + 1) False = Some (mem1, k)" "length mem1 = length mem"
      "drop (local + n + 1) mem1 = drop (local + n + 1) mem" "mem1 ! (local + n) = NUL"
      using mg_url_decode_returns [of local n mem False] n by auto
    have "mem1 ! (length mem - 1) = NUL"
    proof (cases "local + n = length mem - 1")
      case True
      then show ?thesis using r(4) by simp
    next
      case False
      then have i: "length mem - 1 = (local + n + 1) + (length mem - 1 - (local + n + 1))" using n by arith
      have "drop (local + n + 1) mem1 ! (length mem - 1 - (local + n + 1)) = drop (local + n + 1) mem ! (length mem - 1 - (local + n + 1))"
        by (simp only: r(3))
      then show ?thesis using nul n r(2) False by (subst i, subst (asm) (1 2) nth_drop) (use i in \<open>simp_all\<close>)
    qed
    then show ?thesis using that [of mem1] r True by (simp add: dec_def)
  qed
  define query where "query = (case q of None \<Rightarrow> Some mem1 | Some k \<Rightarrow> if should_decode_query_string (Some c) then url_decode_in_place mem1 k else Some mem1)"
  have "query \<noteq> None"
  proof (cases q)
    case None
    then show ?thesis by (simp add: query_def)
  next
    case (Some k)
    then have k: "k \<le> length mem - 1" "length mem - 1 < length mem1" using assms(1,3) m1(2) by auto
    obtain e where e: "scan (\<lambda>c. c \<noteq> NUL) mem1 k = Some e" "k \<le> e" "e \<le> length mem - 1"
      using scan_stops [OF k, of "\<lambda>c. c \<noteq> NUL"] m1(3) by auto
    then have "k + (e - k) < length mem1" using k by simp
    then have "url_decode_in_place mem1 k \<noteq> None" using mg_url_decode_returns [of k "e - k" mem1 True] e(1) by (auto simp: url_decode_in_place_def)
    then show ?thesis using Some by (simp add: query_def)
  qed
  then obtain mem2 where m2: "query = Some mem2" by blast
  obtain tmp where "remove_dot_segments (Some (str_at mem2 local @ [NUL])) = Some (Some tmp)"
    using remove_dot_segments_spec [of "str_at mem2 local" "str_at mem2 local @ [NUL]"] by auto
  then show ?thesis
    unfolding clean_url_def Let_def n_def [symmetric] dec_def [symmetric] m1(1) Option.bind_lunit query_def [symmetric] m2 by simp
qed

lemma handle_request_returns:
  assumes "callback_server srv" "callable (w_handlers w)" "cstring target" "l \<le> length target"
  shows "\<exists>w'. handle_request srv (target @ [NUL]) l w = Some w' \<and> callable (w_handlers w')"
proof -
  define k where "k = length (takeWhile (\<lambda>c. c \<noteq> CHR ''?'') target)"
  have k: "k \<le> length target" by (simp add: k_def length_takeWhile_le)
  obtain mem q where split: "split_query (target @ [NUL]) = (mem, q)" by fastforce
  have at: "str_at (target @ [NUL]) 0 = target" by (rule str_at_0 [OF assms(3)])
  have mem: "length mem = length target + 1" "last mem = NUL" "\<And>j. q = Some j \<Longrightarrow> j < length mem"
    using split k by (auto simp: split_query_def at Let_def k_def [symmetric] list_update_append split: if_splits)
  show ?thesis
  proof (cases "s_tls_redirect srv")
    case (Some f)
    then show ?thesis using assms(2) split by (simp add: handle_request_def Let_def)
  next
    case None
    obtain mem' n tmp where url: "clean_url (w_conn w) mem l q = Some (mem', n, tmp)"
      using clean_url_returns [where local = l and mem = mem and q = q and c = "w_conn w"] mem assms(4) by auto
    define w1 where "w1 = w\<lparr>w_conn := (w_conn w)\<lparr>request_state := 0, throttle := s_throttle srv (str_at tmp 0)\<rparr>\<rparr>"
    have run: "handle_request srv (target @ [NUL]) l w = begin_request_step srv mem' q n tmp w1"
      using None split url by (simp add: handle_request_def w1_def)
    have "callable (w_handlers (w1\<lparr>w_conn := c\<rparr>))" for c using assms(2) by (simp add: w1_def)
    note route = route_returns [OF assms(1) this]
    have "\<exists>w'. begin_request_step srv mem' q n tmp w1 = Some w' \<and> callable (w_handlers w')"
    proof (cases "s_begin_request srv")
      case None
      then show ?thesis using route [of mem' q n tmp "w_conn w1"] by (simp add: begin_request_step_def)
    next
      case (Some f)
      obtain i c where f: "f (w_conn w1) = (i, c)" by fastforce
      have "callable (w_handlers w1)" using assms(2) by (simp add: w1_def)
      then show ?thesis using Some f route [of mem' q n tmp c] by (auto simp: begin_request_step_def Let_def)
    qed
    then show ?thesis by (simp only: run)
  qed
qed

lemma get_request_returns:
  "\<exists>ok ebuf err conn req. get_request sslhost late ri c = Some (ok, ebuf, err, conn, req) \<and> cstring (fst (snd req))"
proof -
  obtain ok eb er c1 where g: "get_message late (c\<lparr>conn_type := CONNECTION_TYPE_REQUEST\<rparr>) = (ok, eb, er, c1)" by (metis prod_cases4)
  obtain mem ri1 r where p: "parse_http_request (conn_buf c1) (length (conn_buf c1)) ri = Some (mem, ri1, r)"
    using parse_request_memory [of "length (conn_buf c1)" "conn_buf c1" ri] by auto
  have nil: "cstring []" by (simp add: cstring_def)
  show ?thesis
    using p nil cstring_str_at by (cases ok; auto simp: get_request_def g Let_def split: prod.split option.split)
qed

lemma serve_request_returns:
  assumes "callback_server srv" "callable (w_handlers w)"
  shows "\<exists>keep reqs w'. serve_request srv lst late ri w = Some (keep, reqs, w') \<and> callable (w_handlers w')"
proof -
  have fin: "\<exists>keep reqs w'. finish_request rs v = (keep, reqs, w') \<and> w_handlers w' = w_handlers v" for rs v
    by (simp add: finish_request_def Let_def)
  obtain ok ebuf e conn meth target version hdr where g: "get_request (ssl_host lst) late ri (w_conn w) = Some (ok, ebuf, e, conn, meth, target, version, hdr)"
    and target: "cstring target" using get_request_returns [of "ssl_host lst" late ri "w_conn w"] by fastforce
  define w1 where "w1 = w\<lparr>w_conn := conn\<rparr>"
  have w1: "w_handlers w1 = w_handlers w" by (simp add: w1_def)
  note err = answer_error_returns [OF assms(1)]
  have "\<exists>eb w2. (if \<not> ok then if 0 < e then map_option (Pair ebuf) (answer_error srv e ebuf w1) else Some (ebuf, w1)
      else if version \<noteq> ''1.0'' \<and> version \<noteq> ''1.1''
      then let ebuf = take 99 (''Bad HTTP version: ['' @ version @ '']'') in map_option (Pair ebuf) (answer_error srv 505 ebuf w1)
      else Some ([], w1)) = Some (eb, w2) \<and> w_handlers w2 = w_handlers w" (is "\<exists>eb w2. ?first = _ \<and> _")
  proof (cases ok)
    case True
    define msg where "msg = take 99 (''Bad HTTP version: ['' @ version @ '']'')"
    show ?thesis using True err [of 505 msg w1] w1 unfolding Let_def msg_def [symmetric] by (cases "version \<noteq> ''1.0'' \<and> version \<noteq> ''1.1''") auto
  next
    case False
    then show ?thesis using err [of e ebuf w1] w1 by (cases "0 < e") auto
  qed
  then obtain eb w2 where first: "?first = Some (eb, w2)" "w_handlers w2 = w_handlers w" by blast
  obtain el local where l: "local_part lst (AUTHENTICATION_DOMAIN (w_auth w2)) target = (el, local)" by fastforce
  have bound: "l \<le> length target" if "local = Some l" for l
    using l that by (auto simp: local_part_def Let_def split: if_splits)
  obtain eb' local' w3 where check: "check_request srv lst ok ebuf e (meth, target, version, hdr) w1 = Some (eb', local', w3)" "w_handlers w3 = w_handlers w"
    "\<And>l. local' = Some l \<Longrightarrow> l \<le> length target"
    using err [of 400 el w2] first(2) bound
    unfolding check_request_def prod.case first(1) Option.bind_lunit l by (cases "eb = []"; cases "el = []") auto
  have run: "\<exists>w'. handle_request srv (target @ [NUL]) l v = Some w' \<and> callable (w_handlers w')" if "l \<le> length target" "callable (w_handlers v)" for l v
    using handle_request_returns [OF assms(1) that(2) target that(1)] .
  show ?thesis
  proof (cases local')
    case None
    then show ?thesis using g check(1,2) fin assms(2) by (fastforce simp: serve_request_def w1_def [symmetric] Let_def)
  next
    case (Some l)
    define w4 where "w4 = w3\<lparr>w_conn := (w_conn w3)\<lparr>proto_type :=
        (if eb' \<noteq> [] then PROTOCOL_TYPE_UNKNOWN else protocol_of (should_switch_to_protocol (w_conn w3)))\<rparr>,
        w_auth := (w_auth w3)\<lparr>request_method := Some meth\<rparr>\<rparr>"
    have "callable (w_handlers w4)" using check(2) assms(2) by (simp add: w4_def)
    then obtain w' where h: "handle_request srv (target @ [NUL]) l w4 = Some w'" "callable (w_handlers w')" using run check(3) [OF Some] by blast
    have "serve_request srv lst late ri w = Some (finish_request [(meth, target, version, hdr)] w')"
      using g check(1) Some h(1) by (simp add: serve_request_def w1_def [symmetric] w4_def)
    with h(2) fin [of "[(meth, target, version, hdr)]" w'] show ?thesis by auto
  qed
qed

lemma kept_callable:
  assumes "kept srv lst late ri k w n w'" "callback_server srv" "callable (w_handlers w)"
  shows "callable (w_handlers w')"
  using assms(1,3)
proof (induction rule: kept.induct)
  case (another n w' reqs w'')
  then show ?case using serve_request_returns [OF assms(2), of w' lst "late n" ri] by fastforce
qed

section \<open>Requests one after the other\<close>

record client_request =
  c_method :: string
  c_target :: string
  c_version :: string
  c_fields :: "(string \<times> string) list"
  c_body :: "char list"

definition header_of :: "client_request \<Rightarrow> char list" where
  "header_of r = render_request (c_method r) (c_target r) (c_version r) (c_fields r)"

definition wire :: "client_request \<Rightarrow> char list" where
  "wire r = header_of r @ c_body r"

definition seen :: "client_request \<Rightarrow> request" where
  "seen r = (c_method r, c_target r, c_version r, c_fields r)"

text \<open>A request as the standard has it, with a body of the length that it says.\<close>

definition client_ok :: "client_request \<Rightarrow> bool" where
  "client_ok r \<longleftrightarrow> is_valid_http_method (c_method r) \<and> c_target r \<noteq> [] \<and> list_all isgraph (c_target r)
     \<and> list_all isgraph (c_version r) \<and> (\<forall>h \<in> set (c_fields r). header_ok h) \<and> length (c_fields r) \<le> MG_MAX_HEADERS
     \<and> get_header (c_fields r) ''Transfer-Encoding'' = None
     \<and> (case get_header (c_fields r) ''Content-Length'' of
          None \<Rightarrow> c_body r = []
        | Some cl \<Rightarrow> cl \<noteq> [] \<and> list_all isdigit cl \<and> digits_value cl = length (c_body r))
     \<and> int (length (wire r)) < 9223372036854775808"

lemma set_content_len_client:
  assumes "client_ok r" "info_headers (request_info c) = c_fields r" "set_content_len c = (0, c')" "is_chunked c = 0"
  shows "is_chunked c' = 0" "content_len c' = int (length (c_body r))"
  using assms strtol10_digits
  by (auto simp: client_ok_def wire_def set_content_len_def Let_def split: option.splits if_splits prod.splits)

lemma client_start:
  assumes "client_ok r"
  shows "header_of r \<noteq> []" "\<not> isspace (hd (header_of r))"
proof -
  have g: "c_method r \<noteq> []" "list_all isgraph (c_method r)" using valid_method_graph [of "c_method r"] assms by (auto simp: client_ok_def)
  then obtain x xs where x: "c_method r = x # xs" "isgraph x" by (cases "c_method r") auto
  then have "header_of r = x # tl (header_of r)" by (simp add: header_of_def render_request_def request_line_def)
  then show "header_of r \<noteq> []" "\<not> isspace (hd (header_of r))" using graph_not [OF x(2)] by (metis list.simps(3), metis list.sel(1))
qed

lemma get_request_client:
  assumes "get_request sslhost late ri c = Some (True, ebuf, err, c', req)" "data_len c \<le> length (conn_buf c)"
    and "prefix (stream c) (header_of r @ rest)" "client_ok r"
  shows "req = seen r" "is_chunked c' = 0" "content_len c' = int (length (c_body r))"
    "get_http_header_len (stream c) = int (length (header_of r))" "sound_start (stream c)" "request_len c' = length (header_of r)"
proof -
  obtain c1 mem ri1 k where c1: "stream c1 = stream c" "data_len c1 \<le> length (conn_buf c1)"
    "0 < request_len c1" "request_len c1 \<le> data_len c1" "int (request_len c1) = get_http_header_len (take (data_len c1) (conn_buf c1))"
    "is_chunked c1 = 0" "parse_http_request (conn_buf c1) (length (conn_buf c1)) ri = Some (mem, ri1, k)"
    and req: "req = (case mg_request_info.request_method ri1 of None \<Rightarrow> [] | Some p \<Rightarrow> str_at mem p, case request_uri ri1 of None \<Rightarrow> [] | Some p \<Rightarrow> str_at mem p,
      case http_version ri1 of None \<Rightarrow> [] | Some p \<Rightarrow> str_at mem p, map (\<lambda>(n, v). (str_at mem n, str_at mem v)) (http_headers ri1))"
    and len: "set_content_len (c1\<lparr>conn_buf := mem, request_info := \<lparr>info_version = map_option (str_at mem) (http_version ri1),
      info_headers = map (\<lambda>(n, v). (str_at mem n, str_at mem v)) (http_headers ri1)\<rparr>\<rparr>) = (0, c')"
    using get_request_parts [OF assms(1,2)] by metis
  have ok: "is_valid_http_method (c_method r)" "c_target r \<noteq> []" "list_all isgraph (c_target r)"
    "list_all isgraph (c_version r)" "\<forall>h \<in> set (c_fields r). header_ok h" "length (c_fields r) \<le> MG_MAX_HEADERS"
    using assms(4) by (auto simp: client_ok_def)
  define B where "B = take (data_len c1) (conn_buf c1)"
  have st: "stream c = B @ incoming (net_in c1)" using c1(1) by (simp add: stream_def B_def)
  have hr: "get_http_header_len (header_of r @ z) = int (length (header_of r))" for z
    unfolding header_of_def by (rule header_len_render [OF ok(1,3,4,5)])
  obtain z where z: "header_of r @ rest = B @ incoming (net_in c1) @ z"
    using assms(3) by (auto simp: prefix_def st)
  have nz: "get_http_header_len B \<noteq> 0" using c1(3,5) by (simp add: B_def)
  have B: "get_http_header_len B = int (length (header_of r))" "get_http_header_len (B @ incoming (net_in c1)) = int (length (header_of r))"
    using header_len_more [OF nz, of "incoming (net_in c1) @ z"] header_len_more [OF nz, of "incoming (net_in c1)"] hr [of rest] z by simp_all
  then show "get_http_header_len (stream c) = int (length (header_of r))" unfolding st by simp
  have rl: "request_len c1 = length (header_of r)" using B(1) c1(5) by (simp add: B_def)
  have "take (length (header_of r)) (B @ incoming (net_in c1) @ z) = take (length (header_of r)) B"
    using rl c1(2,4) by (simp add: B_def)
  then have "take (length (header_of r)) B = header_of r" unfolding z [symmetric] by simp
  then have hB: "B = header_of r @ drop (length (header_of r)) B" by (metis append_take_drop_id)
  have "take (length (header_of r)) (conn_buf c1) = header_of r" using \<open>take (length (header_of r)) B = header_of r\<close> rl c1(4) by (simp add: B_def min_absorb1)
  then have mem: "conn_buf c1 = header_of r @ drop (length (header_of r)) (conn_buf c1)" by (metis append_take_drop_id)
  then have s0: "stream c \<noteq> [] \<and> hd (stream c) = hd (header_of r)"
    unfolding st using client_start(1) [OF assms(4)] by (subst (1 2) hB) simp
  then show "sound_start (stream c)" using client_start(2) [OF assms(4)] by (simp add: sound_start_def)
  obtain mem' ri' where p: "parse_http_request (conn_buf c1) (length (conn_buf c1)) ri = Some (mem', ri', int (length (header_of r)))"
    "map_option (str_at mem') (mg_request_info.request_method ri') = Some (c_method r)" "map_option (str_at mem') (request_uri ri') = Some (c_target r)"
    "map_option (str_at mem') (http_version ri') = Some (c_version r)"
    "map (\<lambda>(n, v). (str_at mem' n, str_at mem' v)) (http_headers ri') = c_fields r"
    using parse_request_spec [OF ok, of "[]" "header_of r" "length (conn_buf c1)" "drop (length (header_of r)) (conn_buf c1)" ri] mem rl c1(2,4)
    by (auto simp: header_of_def [symmetric])
  then have same: "mem' = mem" "ri' = ri1" using c1(7) by simp_all
  show "req = seen r" using p(2-5) unfolding same req seen_def by (auto split: option.splits)
  have "info_headers (request_info (c1\<lparr>conn_buf := mem, request_info := \<lparr>info_version = map_option (str_at mem) (http_version ri1),
      info_headers = map (\<lambda>(n, v). (str_at mem n, str_at mem v)) (http_headers ri1)\<rparr>\<rparr>)) = c_fields r"
    using p(5) unfolding same by simp
  have "request_len c' = request_len c1" by (subst set_content_len_spec(1) [OF len]) (simp_all add: c1(6))
  then show "request_len c' = length (header_of r)" using rl by simp
  from set_content_len_client [OF assms(4) \<open>info_headers _ = _\<close> len] c1(6) show "is_chunked c' = 0" "content_len c' = int (length (c_body r))" by simp_all
qed

lemma serve_request_client:
  assumes "app_reads_body srv" "serve_request srv lst late ri w = Some (keep, reqs, w')"
    and "sized (w_conn w)" "\<forall>r \<in> set rs. client_ok r"
    and "prefix (stream (w_conn w)) (concat (map wire rs))" "reqs \<noteq> [] \<or> keep"
  obtains r rs' where "rs = r # rs'" "reqs = [seen r]"
    "keep \<Longrightarrow> sized (w_conn w') \<and> prefix (stream (w_conn w')) (concat (map wire rs')) \<and> length (stream (w_conn w')) < length (stream (w_conn w))"
proof -
  obtain ebuf err conn req where g: "get_request (ssl_host lst) late ri (w_conn w) = Some (True, ebuf, err, conn, req)" "reqs = [req]"
    using serve_request_cases [OF assms(2)] assms(6) by metis
  have len: "data_len (w_conn w) \<le> length (conn_buf (w_conn w))" using assms(3) by (simp add: sized_def)
  have "0 < length (stream (w_conn w))" using get_request_bounds(3,5) [OF g(1) len] by simp
  then obtain r rs' where rs: "rs = r # rs'" using assms(5) by (cases rs) auto
  then have pre: "prefix (stream (w_conn w)) (header_of r @ c_body r @ concat (map wire rs'))" and ok: "client_ok r"
    using assms(4,5) by (simp_all add: wire_def)
  note c = get_request_client [OF g(1) len pre ok]
  have "sized (w_conn w') \<and> prefix (stream (w_conn w')) (concat (map wire rs')) \<and> length (stream (w_conn w')) < length (stream (w_conn w))" if keep
  proof -
    have sk: "serve_request srv lst late ri w = Some (True, reqs, w')" using assms(2) that by simp
    have small: "int (request_len conn) + content_len conn < 9223372036854775808" using c(3,6) ok by (simp add: client_ok_def wire_def)
    obtain head body where f: "stream (w_conn w) = head @ body @ stream (w_conn w')"
      "int (length head) = get_http_header_len (stream (w_conn w))" "int (length body) = content_len conn" "sized (w_conn w')"
      using serve_request_frames [OF assms(1) sk assms(3) c(5) g(1) c(2) small] by metis
    have l: "length head = length (header_of r)" "length body = length (c_body r)" using f(2,3) c(3,4) by auto
    obtain z where "header_of r @ c_body r @ concat (map wire rs') = head @ body @ stream (w_conn w') @ z"
      using pre f(1) by (auto simp: prefix_def)
    then have "concat (map wire rs') = stream (w_conn w') @ z" using l by (simp add: append_eq_append_conv)
    moreover have "head \<noteq> []" using l(1) client_start(1) [OF ok] by auto
    ultimately show ?thesis using f(1,4) by (simp add: prefix_def)
  qed
  then show thesis using that rs g(2) c(1) by blast
qed

lemma process_requests_client:
  assumes "process_requests srv lst late ri k w = Some (reqs, w')" "app_reads_body srv" "sized (w_conn w)"
    and "\<forall>r \<in> set rs. client_ok r" "prefix (stream (w_conn w)) (concat (map wire rs))"
  shows "prefix reqs (map seen rs)"
  using assms(1,3-5)
proof (induction "length (stream (w_conn w))" arbitrary: k w rs reqs rule: less_induct)
  case less
  obtain keep reqs1 w1 where s: "serve_request srv lst (late k) ri w = Some (keep, reqs1, w1)"
    using less(2) by (subst (asm) process_requests.simps) (auto split: bind_splits)
  show ?case
  proof (cases "reqs1 \<noteq> [] \<or> keep")
    case False
    then have "reqs = []" using less(2) s by (subst (asm) process_requests.simps) simp
    then show ?thesis by simp
  next
    case True
    obtain r rs' where r: "rs = r # rs'" "reqs1 = [seen r]" "keep \<Longrightarrow> sized (w_conn w1) \<and> prefix (stream (w_conn w1)) (concat (map wire rs'))
        \<and> length (stream (w_conn w1)) < length (stream (w_conn w))"
      using serve_request_client [OF assms(2) s less(3-5) True] by metis
    show ?thesis
    proof (cases keep)
      case False
      then have "reqs = reqs1" using less(2) s by (subst (asm) process_requests.simps) simp
      then show ?thesis using r by simp
    next
      case True
      then obtain reqs2 where p: "process_requests srv lst late ri (k + 1) w1 = Some (reqs2, w')" "reqs = reqs1 @ reqs2"
        using less(2) s by (subst (asm) process_requests.simps) (auto split: bind_splits)
      have "prefix reqs2 (map seen rs')" using less(1) [OF _ p(1)] r(1,3) True less(4) by simp
      then show ?thesis using p(2) r by simp
    qed
  qed
qed

text \<open>C3: requests do not mix. Whatever a client sends on one connection, as long as it is a
  sequence of well-formed requests with the lengths of their bodies (any part of it may arrive, in any segmentation,
  behind any number of timeouts), the requests that the server hands to \<open>handle_request\<close> are the first of
  them, in their order, each with its method, target, version and header fields. No byte of a body
  is ever taken for a request, even when the application has read none or a part of it, and no
  request is skipped.\<close>

theorem pipelined_requests:
  assumes "process_new_connection srv lst late ri w = Some (reqs, w')" "app_reads_body srv"
    and "\<forall>r \<in> set rs. client_ok r" "prefix (incoming (net_in (w_conn w))) (concat (map wire rs))"
    and "int (length (conn_buf (w_conn w))) \<le> INT_MAX"
  shows "prefix reqs (map seen rs)"
  using process_requests_client [OF assms(1) [unfolded process_new_connection_def] assms(2) _ assms(3)] assms(4,5)
  by (simp add: stream_def init_connection_def sized_def)

text \<open>A server that answers every request by itself, and two requests, the first one with a body that nobody reads.\<close>

definition example_listener :: listener where
  "example_listener = \<lparr>lsa_port = 8080, ENABLE_AUTH_DOMAIN_CHECK = ''no'', ssl_host = None\<rparr>"

definition example_requests :: "client_request list" where
  "example_requests =
     [\<lparr>c_method = ''POST'', c_target = ''/a'', c_version = ''1.1'', c_fields = [(''Content-Length'', ''2'')], c_body = ''GE''\<rparr>,
      \<lparr>c_method = ''GET'', c_target = ''/b'', c_version = ''1.1'', c_fields = [], c_body = []\<rparr>]"

definition redirecting_srv :: "unit server" where
  "redirecting_srv = example_srv\<lparr>s_tls_redirect := Some (\<lambda>c. c),
     s_env := (s_env example_srv)\<lparr>error_callback := Some (\<lambda>status msg c. (0, c))\<rparr>\<rparr>"

definition example_session :: "unit world" where
  "example_session = example_world\<lparr>w_conn := (w_conn example_world)\<lparr>conn_buf := replicate 100 NUL, ENABLE_KEEP_ALIVE := ''yes'',
     net_in := [Data (take 20 (concat (map wire example_requests))), Quiet True, Data (drop 20 (concat (map wire example_requests)))]\<rparr>\<rparr>"

text \<open>Without the application, a request takes its bytes and no more.\<close>

definition redirected :: "mg_request_info \<Rightarrow> unit world \<Rightarrow> (bool \<times> request list \<times> unit world) option" where
  "redirected ri w =
     (case get_request None (\<lambda>n. False) ri (w_conn w) of
        None \<Rightarrow> None
      | Some (ok, ebuf, err, conn, req) \<Rightarrow>
          if ok \<and> (fst (snd (snd req)) = ''1.1'') \<and> local_part example_listener (AUTHENTICATION_DOMAIN (w_auth w)) (fst (snd req)) = ([], Some 0)
          then Some (finish_request [req] (w\<lparr>w_auth := (w_auth w)\<lparr>request_method := Some (fst req)\<rparr>,
            w_conn := conn\<lparr>proto_type := protocol_of (should_switch_to_protocol conn), request_state := 0\<rparr>\<rparr>))
          else if \<not> ok \<and> err \<le> 0 \<and> ebuf \<noteq> []
          then Some (finish_request [] (w\<lparr>w_conn := conn\<lparr>proto_type := PROTOCOL_TYPE_UNKNOWN, must_close := True\<rparr>\<rparr>))
          else None)"

lemma redirected_serve: "redirected ri w = Some y \<Longrightarrow> serve_request redirecting_srv example_listener (\<lambda>n. False) ri w = Some y"
  by (auto simp: redirected_def serve_request_def check_request_def handle_request_def redirecting_srv_def example_listener_def
      Let_def split: option.splits if_splits prod.splits)

definition no_request_info :: mg_request_info where
  "no_request_info = \<lparr>remote_user = None, request_method = None, request_uri = None, http_version = None, num_headers = 0, http_headers = []\<rparr>"

lemma example_two_requests:
  "(case redirected no_request_info (example_session\<lparr>w_conn := init_connection (w_conn example_session)\<rparr>) of
      None \<Rightarrow> False
    | Some (k1, q1, w1) \<Rightarrow> k1 \<and> (case redirected no_request_info w1 of
        None \<Rightarrow> False
      | Some (k2, q2, w2) \<Rightarrow> k2 \<and> (case redirected no_request_info w2 of
          None \<Rightarrow> False
        | Some (k3, q3, w3) \<Rightarrow> \<not> k3 \<and> q1 @ q2 @ q3 = map seen example_requests)))"
  by code_simp

lemma example_requests_served:
  "\<exists>w'. process_new_connection redirecting_srv example_listener (\<lambda>k n. False) no_request_info example_session = Some (map seen example_requests, w')"
proof -
  obtain k1 q1 w1 where 1: "redirected no_request_info (example_session\<lparr>w_conn := init_connection (w_conn example_session)\<rparr>) = Some (k1, q1, w1)"
    using example_two_requests by (auto split: option.splits)
  note run = example_two_requests [unfolded 1 option.case prod.case]
  then obtain k2 q2 w2 where 2: "redirected no_request_info w1 = Some (k2, q2, w2)" by (auto split: option.splits)
  note run = run [unfolded 2 option.case prod.case]
  then obtain k3 q3 w3 where 3: "redirected no_request_info w2 = Some (k3, q3, w3)" by (auto split: option.splits)
  from run [unfolded 3 option.case prod.case] have q: "k1" "k2" "\<not> k3" "q1 @ q2 @ q3 = map seen example_requests" by auto
  note s = 1 [THEN redirected_serve] 2 [THEN redirected_serve] 3 [THEN redirected_serve]
  show ?thesis
    unfolding process_new_connection_def q(4) [symmetric] using q(1-3)
    by (subst process_requests.simps, simp add: s, subst process_requests.simps, simp add: s, subst process_requests.simps, simp add: s)
qed

lemma redirecting_reads_body: "app_reads_body redirecting_srv"
  by (simp add: app_reads_body_def redirecting_srv_def example_srv_def)

lemma example_names: "mg_strcasecmp ''Transfer-Encoding'' ''Content-Length'' \<noteq> 0" "mg_strcasecmp ''Content-Length'' ''Content-Length'' = 0"
  by code_simp+

lemma example_wire: "length (wire (example_requests ! 0)) = 41" "length (wire (example_requests ! 1)) = 19"
  by (simp_all add: example_requests_def wire_def header_of_def render_request_def request_line_def header_line_def)

lemma example_clients: "\<forall>r \<in> set example_requests. client_ok r"
  using example_wire
  by (simp add: client_ok_def example_requests_def is_valid_http_method_def get_http_method_info_def http_methods_def MG_MAX_HEADERS_def
      header_ok_def name_char_def text_char_def ctype_defs schar_def ordc_def digits_value_def example_names)

lemma example_stream: "incoming (net_in (w_conn example_session)) = concat (map wire example_requests)"
  by (simp add: example_session_def incoming_def)

theorem pipelined_requests_witness:
  "\<exists>reqs w'. process_new_connection redirecting_srv example_listener (\<lambda>k n. False) no_request_info example_session = Some (reqs, w')
    \<and> reqs = map seen example_requests \<and> prefix reqs (map seen example_requests)"
proof -
  obtain w' where run: "process_new_connection redirecting_srv example_listener (\<lambda>k n. False) no_request_info example_session
      = Some (map seen example_requests, w')"
    using example_requests_served by blast
  have "int (length (conn_buf (w_conn example_session))) \<le> INT_MAX" by (simp add: example_session_def INT_MAX_def)
  with pipelined_requests [OF run redirecting_reads_body example_clients] example_stream run show ?thesis by auto
qed

text \<open>C17: every connection ends. Whatever the client
  sends (its bytes are finite), the loop of \<open>process_new_connection\<close> does not go round for ever: it fails to return exactly if some request, after
  finitely many that have kept the connection alive, is not returned from (because \<open>handle_request\<close> leaves a
  buffer or calls a null pointer, as in \<open>escaped_directory_overread\<close>). A server that answers by callbacks, without files, password files and handlers for WebSockets,
  returns from every request, so there \<open>process_new_connection\<close> returns, for every input. The callbacks read the body by \<open>mg_read\<close> and
  return.\<close>

theorem connection_ends:
  assumes "app_reads_body srv"
    and "int (length (conn_buf (w_conn w))) \<le> INT_MAX" "int (length (incoming (net_in (w_conn w)))) < 4611686018427387904"
    and "w0 = w\<lparr>w_conn := init_connection (w_conn w)\<rparr>"
  shows "(process_new_connection srv lst late ri w = None
      \<longleftrightarrow> (\<exists>n w'. kept srv lst late ri 0 w0 n w' \<and> serve_request srv lst (late n) ri w' = None))
    \<and> (callback_server srv \<and> callable (w_handlers w) \<longrightarrow> (\<exists>reqs w'. process_new_connection srv lst late ri w = Some (reqs, w')))"
proof -
  have p: "process_new_connection srv lst late ri w = process_requests srv lst late ri 0 w0" by (simp add: process_new_connection_def assms(4))
  have w0: "sized (w_conn w0)" "int (length (stream (w_conn w0))) < 4611686018427387904" "w_handlers w0 = w_handlers w"
    using assms(2,3) by (simp_all add: assms(4) init_connection_def sized_def stream_def)
  have "process_requests srv lst late ri 0 w0 = None" if "kept srv lst late ri 0 w0 n w'" "serve_request srv lst (late n) ri w' = None" for n w'
    using process_requests_stuck [OF that(1)] process_requests.simps [of srv lst late ri n w'] that(2) by simp
  then have iff: "process_new_connection srv lst late ri w = None
      \<longleftrightarrow> (\<exists>n w'. kept srv lst late ri 0 w0 n w' \<and> serve_request srv lst (late n) ri w' = None)"
    using process_requests_ends [OF assms(1) w0(1,2), of lst late ri 0] unfolding p by blast
  have "process_new_connection srv lst late ri w \<noteq> None" if c: "callback_server srv" "callable (w_handlers w)"
  proof
    assume "process_new_connection srv lst late ri w = None"
    then obtain n w' where "kept srv lst late ri 0 w0 n w'" "serve_request srv lst (late n) ri w' = None" unfolding iff by blast
    then have "callable (w_handlers w')" using kept_callable [of srv lst late ri 0 w0 n w'] c w0(3) by simp
    from serve_request_returns [OF c(1) this, of lst "late n" ri] \<open>serve_request srv lst (late n) ri w' = None\<close> show False by simp
  qed
  with iff show ?thesis by (metis option.exhaust prod.exhaust)
qed

text \<open>A server with one handler, to which a client sends what it likes.\<close>

definition callback_srv :: "unit server" where
  "callback_srv = example_srv\<lparr>s_site := example_site\<lparr>DOCUMENT_ROOT := None\<rparr>\<rparr>"

theorem connection_ends_witness:
  "\<exists>reqs w'. process_new_connection callback_srv example_listener (\<lambda>k n. False) no_request_info
    (example_session\<lparr>w_conn := (w_conn example_session)\<lparr>net_in := [Data ''GET /a?x=%41 HTTP/1.1'', Quiet True, Data (CRLF @ CRLF @ ''POST'')]\<rparr>\<rparr>) = Some (reqs, w')"
proof -
  let ?w = "example_session\<lparr>w_conn := (w_conn example_session)\<lparr>net_in := [Data ''GET /a?x=%41 HTTP/1.1'', Quiet True, Data (CRLF @ CRLF @ ''POST'')]\<rparr>\<rparr>"
  have "app_reads_body callback_srv" by (simp add: app_reads_body_def callback_srv_def example_srv_def example_env_def)
  moreover have "int (length (conn_buf (w_conn ?w))) \<le> INT_MAX" "int (length (incoming (net_in (w_conn ?w)))) < 4611686018427387904"
    by (simp_all add: example_session_def INT_MAX_def incoming_def)
  moreover have "callback_server callback_srv"
    by (simp add: callback_server_def callback_srv_def example_srv_def example_site_def example_env_def plain_config_def auth_file_def open_auth_file_def Let_def
        split: option.split)
  moreover have "callable (w_handlers ?w)"
    by (simp add: callable_def has_callback_def example_session_def example_world_def example_handler_def new_handler_def set_fields_def)
  ultimately show ?thesis using connection_ends [OF _ _ _ refl, of callback_srv ?w example_listener "\<lambda>k n. False" no_request_info] by blast
qed

section \<open>Where the bounds are needed\<close>

text \<open>A length of \<open>2^63 - 1\<close> is accepted; the sum wraps, and the connection is kept although the body has
  not come. All but the last byte of the header is discarded, and the body is read as the next request.\<close>

lemma huge_length_kept:
  assumes "sized c" "0 < request_len c" "request_len c \<le> data_len c" "content_len c = INT64_MAX" "is_chunked c = 0"
    and "\<not> stop_flag c" "should_keep_alive (Some c)" "proto_type c = PROTOCOL_TYPE_HTTP1"
  shows "keep_alive c" "discard_len c = int (request_len c) - 1"
proof -
  have b: "9223372036854775808 \<le> int (request_len c) + content_len c" "int (request_len c) + content_len c < 18446744073709551616"
    using assms(1-4) by (auto simp: INT64_MAX_def sized_def INT_MAX_def)
  have "request_len c \<le> 2147483647" using assms(1,3) by (auto simp: sized_def INT_MAX_def)
  then show "keep_alive c" using assms wrap64_over [OF b] by (simp add: keep_alive_def INT64_MAX_def)
  show "discard_len c = int (request_len c) - 1"
    using discard_len_wrapped [OF assms(1) _ _ assms(3) b(1)] assms(4) by (simp add: INT64_MAX_def)
qed


text \<open>
  Two empty lines in front of a request end a header of four bytes for \<open>read_message\<close>, while
  \<open>parse_http_request\<close> skips them and parses what follows: the request is handled, but the connection goes on four bytes
  after its beginning.
\<close>

lemma blank_lines_misplace_request:
  assumes "client_ok r" "data_len c \<le> length (conn_buf c)" "take (data_len c) (conn_buf c) = CRLF @ CRLF @ header_of r @ rest"
  shows "\<exists>c'. get_request None late ri c = Some (True, [], 0, c', seen r) \<and> request_len c' = 4"
proof -
  have ok: "is_valid_http_method (c_method r)" "c_target r \<noteq> []" "list_all isgraph (c_target r)"
    "list_all isgraph (c_version r)" "\<forall>h \<in> set (c_fields r). header_ok h" "length (c_fields r) \<le> MG_MAX_HEADERS"
    using assms(1) by (auto simp: client_ok_def)
  have four: "get_http_header_len (take (data_len c) (conn_buf c)) = 4"
    using header_len_end [of "[]" "header_of r @ rest"] assms(3) by (simp add: get_http_header_len_def)
  define c1 where "c1 = (reset_per_request_attributes (c\<lparr>conn_type := CONNECTION_TYPE_REQUEST\<rparr>))\<lparr>request_len := 4\<rparr>"
  have dl: "4 \<le> data_len c" using arg_cong [OF assms(3), of length] assms(2) by simp
  have m: "get_message late (c\<lparr>conn_type := CONNECTION_TYPE_REQUEST\<rparr>) = (True, [], 0, c1)"
    using four dl by (simp add: get_message_def read_message_def reset_per_request_attributes_def c1_def Let_def read_loop.simps [of _ _ 4])
  have buf: "conn_buf c1 = (CRLF @ CRLF) @ header_of r @ (rest @ drop (data_len c) (conn_buf c))"
    using append_take_drop_id [of "data_len c" "conn_buf c"] assms(3) by (simp add: c1_def reset_per_request_attributes_def)
  have ws: "list_all isspace (CRLF @ CRLF)" by (simp add: ctype_defs schar_def ordc_def)
  obtain mem ri1 where p: "parse_http_request (conn_buf c1) (length (conn_buf c1)) ri = Some (mem, ri1, int (length ((CRLF @ CRLF) @ header_of r)))"
    "map_option (str_at mem) (mg_request_info.request_method ri1) = Some (c_method r)" "map_option (str_at mem) (request_uri ri1) = Some (c_target r)"
    "map_option (str_at mem) (http_version ri1) = Some (c_version r)"
    "map (\<lambda>(n, v). (str_at mem n, str_at mem v)) (http_headers ri1) = c_fields r"
    using parse_request_spec [OF ok ws header_of_def, of "length (conn_buf c1)" "rest @ drop (data_len c) (conn_buf c)" ri] unfolding buf
    by auto
  define c2 where "c2 = c1\<lparr>conn_buf := mem, request_info := \<lparr>info_version = Some (c_version r), info_headers = c_fields r\<rparr>\<rparr>"
  have "fst (set_content_len c2) = 0"
    using assms(1) strtol10_digits by (auto simp: client_ok_def wire_def set_content_len_def Let_def c2_def split: option.splits)
  then obtain c3 where l: "set_content_len c2 = (0, c3)" by (metis prod.collapse)
  have "request_len c3 = request_len c2" using l by (auto simp: set_content_len_def Let_def split: option.splits if_splits prod.splits)
  then have r4: "request_len c3 = 4" by (simp add: c2_def c1_def)
  have seen: "(case mg_request_info.request_method ri1 of None \<Rightarrow> [] | Some p \<Rightarrow> str_at mem p, case request_uri ri1 of None \<Rightarrow> [] | Some p \<Rightarrow> str_at mem p,
      case http_version ri1 of None \<Rightarrow> [] | Some p \<Rightarrow> str_at mem p, map (\<lambda>(n, v). (str_at mem n, str_at mem v)) (http_headers ri1)) = seen r"
    using p(2-5) by (auto simp: seen_def split: option.splits)
  have "switch_domain_context None hs" for hs by (simp add: switch_domain_context_def split: option.split)
  then have "get_request None late ri c = Some (True, [], 0, c3, seen r)"
    using p(1) l seen unfolding get_request_def m Let_def prod.case c2_def p(4,5) [symmetric] by simp
  then show ?thesis using r4 by blast
qed

end
