(* ===== verification/StaticFile.thy ===== *)
theory StaticFile
  imports Replies Files
begin

text \<open>
  Sending a file: \<open>handle_static_file_request\<close> with the type of the file, a range of it and its
  entity tag, the copying of the data in \<open>send_file_data\<close> (through \<open>sendfile\<close>, or read and
  written in pieces), and \<open>is_not_modified\<close>, which answers from the client's cache.

  A file that is open is its contents; reading a regular file returns as much as asked for until its end, and seeking in
  it succeeds. The C library's formatting and reading of dates, \<open>gmtime\<close> and \<open>timegm\<close>, are parameters, as is
  the text of an error number. There is no TLS and no compression, so \<open>accept_gzip\<close> is never set.
\<close>

section \<open>The code\<close>

subsection \<open>The type of a file\<close>

text \<open>Extensions and types; the length of an extension is that of its text.\<close>

definition builtin_mime_types :: "(string \<times> string) list" where
  "builtin_mime_types =
   [(''.bin'', ''application/octet-stream''), (''.deb'', ''application/octet-stream''),
    (''.dmg'', ''application/octet-stream''), (''.dll'', ''application/octet-stream''),
    (''.doc'', ''application/msword''), (''.eps'', ''application/postscript''),
    (''.exe'', ''application/octet-stream''), (''.iso'', ''application/octet-stream''),
    (''.js'', ''application/javascript''), (''.json'', ''application/json''),
    (''.msi'', ''application/octet-stream''), (''.pdf'', ''application/pdf''),
    (''.ps'', ''application/postscript''), (''.rtf'', ''application/rtf''),
    (''.xhtml'', ''application/xhtml+xml''), (''.xsl'', ''application/xml''),
    (''.xslt'', ''application/xml''), (''.ttf'', ''application/font-sfnt''),
    (''.cff'', ''application/font-sfnt''), (''.otf'', ''application/font-sfnt''),
    (''.aat'', ''application/font-sfnt''), (''.sil'', ''application/font-sfnt''),
    (''.pfr'', ''application/font-tdpfr''), (''.woff'', ''application/font-woff''),
    (''.woff2'', ''application/font-woff2''), (''.mp3'', ''audio/mpeg''), (''.oga'', ''audio/ogg''),
    (''.ogg'', ''audio/ogg''), (''.gif'', ''image/gif''), (''.ief'', ''image/ief''),
    (''.jpeg'', ''image/jpeg''), (''.jpg'', ''image/jpeg''), (''.jpm'', ''image/jpm''),
    (''.jpx'', ''image/jpx''), (''.png'', ''image/png''), (''.svg'', ''image/svg+xml''),
    (''.tif'', ''image/tiff''), (''.tiff'', ''image/tiff''), (''.wrl'', ''model/vrml''),
    (''.css'', ''text/css''), (''.csv'', ''text/csv''), (''.htm'', ''text/html''),
    (''.html'', ''text/html''), (''.sgm'', ''text/sgml''), (''.shtm'', ''text/html''),
    (''.shtml'', ''text/html''), (''.txt'', ''text/plain''), (''.xml'', ''text/xml''),
    (''.mov'', ''video/quicktime''), (''.mp4'', ''video/mp4''), (''.mpeg'', ''video/mpeg''),
    (''.mpg'', ''video/mpeg''), (''.ogv'', ''video/ogg''), (''.qt'', ''video/quicktime''),
    (''.arj'', ''application/x-arj-compressed''), (''.gz'', ''application/x-gunzip''),
    (''.rar'', ''application/x-arj-compressed''), (''.swf'', ''application/x-shockwave-flash''),
    (''.tar'', ''application/x-tar''), (''.tgz'', ''application/x-tar-gz''),
    (''.torrent'', ''application/x-bittorrent''), (''.ppt'', ''application/x-mspowerpoint''),
    (''.xls'', ''application/x-msexcel''), (''.zip'', ''application/x-zip-compressed''),
    (''.aac'', ''audio/aac''), (''.flac'', ''audio/flac''), (''.aif'', ''audio/x-aif''),
    (''.m3u'', ''audio/x-mpegurl''), (''.mid'', ''audio/x-midi''), (''.ra'', ''audio/x-pn-realaudio''),
    (''.ram'', ''audio/x-pn-realaudio''), (''.wav'', ''audio/x-wav''), (''.bmp'', ''image/bmp''),
    (''.ico'', ''image/x-icon''), (''.pct'', ''image/x-pct''), (''.pict'', ''image/pict''),
    (''.rgb'', ''image/x-rgb''), (''.webm'', ''video/webm''), (''.asf'', ''video/x-ms-asf''),
    (''.avi'', ''video/x-msvideo''), (''.m4v'', ''video/x-m4v'')]"

definition mg_get_builtin_mime_type :: "string \<Rightarrow> string" where
  "mg_get_builtin_mime_type path =
     (case find (\<lambda>(extension, mime). length extension < length path
          \<and> mg_strcasecmp (drop (length path - length extension) path) extension = 0) builtin_mime_types of
        Some (extension, mime) \<Rightarrow> mime
      | None \<Rightarrow> ''text/plain'')"

text \<open>The types of the configuration come first; \<open>None\<close> when an extension is longer than the path, which is
  then read before its beginning.\<close>

function extra_mime_type :: "string \<Rightarrow> string \<Rightarrow> string option option" where
  "extra_mime_type list path =
     (case next_option True list of
        None \<Rightarrow> Some None
      | Some (ext_vec, mime_vec, list') \<Rightarrow>
          if length path < length ext_vec then None
          else if mg_strncasecmp (drop (length path - length ext_vec) path) ext_vec (length ext_vec) = 0
          then Some (Some (case mime_vec of None \<Rightarrow> [] | Some m \<Rightarrow> m))
          else extra_mime_type list' path)"
  by pat_completeness auto
termination
  by (relation "measure (\<lambda>(list, path). length list)") (auto dest: next_option_shorter)

declare extra_mime_type.simps [simp del]

definition get_mime_type :: "string option \<Rightarrow> string \<Rightarrow> string option" where
  "get_mime_type extra path =
     (case (case extra of None \<Rightarrow> Some None | Some list \<Rightarrow> extra_mime_type list path) of
        None \<Rightarrow> None
      | Some (Some m) \<Rightarrow> Some m
      | Some None \<Rightarrow> Some (mg_get_builtin_mime_type path))"

subsection \<open>Copying the data\<close>

text \<open>One call of \<open>sendfile\<close> on the open file \<open>f\<close>: how much has been sent.\<close>

definition sendfile :: "mg_connection \<Rightarrow> char list \<Rightarrow> nat \<Rightarrow> nat \<Rightarrow> int \<times> mg_connection" where
  "sendfile conn f offs n =
     (let part = take n (drop offs f)
      in if part = [] then (0, conn)
         else case net_accept conn of
                [] \<Rightarrow> (-1, conn)
              | k # ks \<Rightarrow>
                  if k = 0 then (-1, conn\<lparr>net_accept := ks\<rparr>)
                  else (int (length (take k part)), conn\<lparr>net_accept := ks, net_out := net_out conn @ take k part\<rparr>))"

text \<open>The loop: whether the data has been sent, the offset, and what remains; \<open>first\<close> is \<open>loop_cnt = 0\<close>.\<close>

function sendfile_loop :: "bool \<Rightarrow> mg_connection \<Rightarrow> char list \<Rightarrow> nat \<Rightarrow> int \<Rightarrow> bool \<times> nat \<times> int \<times> mg_connection" where
  "sendfile_loop first conn f offs len =
     (let (sf_sent, conn) = sendfile conn f offs (nat (if len < 2147479552 then len else 2147479552))
      in if 0 < sf_sent
         then let len = len - sf_sent; offs = offs + nat sf_sent
              in if 0 < len then sendfile_loop False conn f offs len else (True, offs, len, conn)
         else if first then (False, offs, len, conn)
         else (sf_sent = 0, offs, len, conn))"
  by pat_completeness auto
termination
  by (relation "measure (\<lambda>(first, conn, f, offs, len). nat len)") auto

declare sendfile_loop.simps [simp del]

text \<open>Read from the file and written, \<open>MG_BUF_LEN\<close> bytes at a time; \<open>rest\<close> is the file from its position on.\<close>

function copy_file :: "mg_connection \<Rightarrow> char list \<Rightarrow> int \<Rightarrow> mg_connection" where
  "copy_file conn rest len =
     (if 0 < len
      then let to_read = (if len < int MG_BUF_LEN then nat len else MG_BUF_LEN);
               buf = take to_read rest
           in if buf = [] then conn
              else let (num_written, c) = mg_write (Some conn) buf
                   in if num_written \<noteq> int (length buf) then the c
                      else copy_file (the c) (drop to_read rest) (len - num_written)
      else conn)"
  by pat_completeness auto
termination
  by (relation "measure (\<lambda>(conn, rest, len). nat len)") auto

declare copy_file.simps [simp del]

definition send_file_data :: "string \<Rightarrow> mg_connection \<Rightarrow> nat \<Rightarrow> char list \<Rightarrow> int \<Rightarrow> int \<Rightarrow> mg_connection" where
  "send_file_data ALLOW_SENDFILE_CALL conn stat_size f offset len =
     (let size = min (int stat_size) INT64_MAX;
          offset = (if offset < 0 then 0 else if size < offset then size else offset)
      in if len \<le> 0 then conn
         else let (sent, offs, len, conn) =
                (if throttle conn = 0 \<and> mg_strcasecmp ALLOW_SENDFILE_CALL ''yes'' = 0
                 then sendfile_loop True conn f (nat offset) len else (False, nat offset, len, conn))
              in if sent then conn else copy_file conn (drop offs f) len)"

subsection \<open>A part of a file\<close>

definition scan_int64 :: "string \<Rightarrow> (int \<times> string) option" where
  "scan_int64 s = (case strtol10 s of (n, rest) \<Rightarrow> if rest = s then None else Some (n, rest))"

text \<open>How many numbers have been read, and the two numbers.\<close>

definition parse_range_header :: "string \<Rightarrow> int \<times> int \<times> int" where
  "parse_range_header header =
     (if take 6 header \<noteq> ''bytes='' then (0, 0, 0)
      else case scan_int64 (drop 6 header) of
             None \<Rightarrow> (0, 0, 0)
           | Some (a, rest) \<Rightarrow>
               (case (if rest \<noteq> [] \<and> hd rest = CHR ''-'' then scan_int64 (tl rest) else None) of
                  None \<Rightarrow> (1, a, 0)
                | Some (b, rest) \<Rightarrow> (2, a, b)))"

text \<open>A signed number in decimal, and the entity tag \<open>"%lx.%lld"\<close> of the time and the size.\<close>

definition print_int :: "int \<Rightarrow> string" where
  "print_int n = (if n < 0 then CHR ''-'' # decimal (nat (- n)) else decimal (nat n))"

definition construct_etag :: "file_stat \<Rightarrow> string" where
  "construct_etag st =
     [DQUOTE] @ hexadecimal (nat (f_modified st mod 18446744073709551616)) @ ''.'' @ print_int (to_int64 (f_size st)) @ [DQUOTE]"

subsection \<open>Sending a file\<close>

record static_config =
  sf_reply :: reply_config
  sf_date :: string
  sf_callback :: "http_error option"
  in_error_handler :: bool
  EXTRA_MIME_TYPES :: "string option"
  ALLOW_SENDFILE_CALL :: string
  CORS_ORIGIN :: "string option"
  gmt_time :: "int \<Rightarrow> string"
  time_gm :: "int \<times> int \<times> int \<times> int \<times> int \<times> int \<Rightarrow> int"
  sf_site :: site
  open_file :: "string \<Rightarrow> char list option"
  open_error :: string

text \<open>Opening for reading, which asks for the file's data again and so forgets that it is compressed.\<close>

definition mg_fopen :: "static_config \<Rightarrow> string \<Rightarrow> (file_stat \<times> char list) option" where
  "mg_fopen cfg path =
     (if mg_path_suspicious path then None
      else case mg_stat (sf_site cfg) path of
             None \<Rightarrow> None
           | Some st \<Rightarrow> map_option (\<lambda>f. (st, f)) (open_file cfg path))"

definition static_error :: "(nat \<Rightarrow> bool) \<Rightarrow> static_config \<Rightarrow> int \<Rightarrow> string \<Rightarrow> mg_connection \<Rightarrow> mg_connection option" where
  "static_error malloc cfg status msg conn =
     map_option (\<lambda>(r, c). the c) (mg_send_http_error malloc (sf_reply cfg) (sf_date cfg) (sf_callback cfg) (in_error_handler cfg) (Some conn) status msg)"

text \<open>The length of what is sent and the text of \<open>Content-Range\<close>, for a range that is accepted; \<open>stat_size\<close> is the size
  of the file that has been opened, \<open>cl\<close> that of the file before.\<close>

definition range_of :: "nat \<Rightarrow> int \<Rightarrow> string option \<Rightarrow> (int \<times> int \<times> string) option" where
  "range_of stat_size cl range_hdr =
     (case range_hdr of
        None \<Rightarrow> None
      | Some h \<Rightarrow>
          let (n, r1, r2) = parse_range_header h
          in if 0 < n \<and> 0 \<le> r1 \<and> 0 \<le> r2
             then let cl' = (if n = 2 then (if cl < r2 then cl else r2) - r1 + 1 else cl - r1)
                  in Some (r1, cl', ''bytes '' @ print_int r1 @ ''-'' @ print_int (r1 + cl' - 1) @ ''/'' @ print_int (to_int64 stat_size))
             else None)"

text \<open>The position from which the data is sent when no range has been accepted: what the reading of the header has left in \<open>r1\<close>.\<close>

definition range_begin :: "string option \<Rightarrow> int" where
  "range_begin range_hdr = (case range_hdr of None \<Rightarrow> 0 | Some h \<Rightarrow> (case parse_range_header h of (n, r1, r2) \<Rightarrow> r1))"

text \<open>The header of the answer, sent; \<open>cl\<close> is the length of the body.\<close>

definition send_static_header ::
    "(nat \<Rightarrow> bool) \<Rightarrow> static_config \<Rightarrow> string \<Rightarrow> file_stat \<Rightarrow> string option \<Rightarrow> int \<Rightarrow> string option \<Rightarrow> string option
     \<Rightarrow> mg_connection \<Rightarrow> mg_connection option" where
  "send_static_header malloc cfg mime st encoding cl content_rng additional_headers conn =
     do {
       let cors = (case CORS_ORIGIN cfg of
           None \<Rightarrow> None
         | Some origin \<Rightarrow> if origin \<noteq> [] \<and> mg_get_header (Some conn) ''Origin'' \<noteq> None then Some origin else None);
       let conn = the (snd (mg_response_header_start (Some conn) (conn_status_code conn)));
       let conn = send_static_cache_header malloc (sf_reply cfg) conn;
       conn \<leftarrow> send_additional_header malloc (sf_reply cfg) conn;
       let conn = the (snd (mg_response_header_add malloc (Some conn) (Some ''Content-Type'') (Some mime) (int (length mime))));
       let conn = (case cors of None \<Rightarrow> conn | Some origin \<Rightarrow> add_header malloc ''Access-Control-Allow-Origin'' origin conn);
       let conn = add_header malloc ''Last-Modified'' (gmt_time cfg (f_modified st)) conn;
       let conn = add_header malloc ''Etag'' (construct_etag st) conn;
       let conn = add_header malloc ''Content-Length'' (print_int cl) conn;
       let conn = add_header malloc ''Accept-Ranges'' ''bytes'' conn;
       let conn = (case encoding of None \<Rightarrow> conn | Some e \<Rightarrow> add_header malloc ''Content-Encoding'' e conn);
       let conn = (case content_rng of None \<Rightarrow> conn | Some t \<Rightarrow> add_header malloc ''Content-Range'' t conn);
       conn \<leftarrow> (case additional_headers of
           None \<Rightarrow> Some conn
         | Some h \<Rightarrow> if h = [] then Some conn else map_option (\<lambda>(r, c). the c) (mg_response_header_add_lines malloc (Some conn) h));
       Some (the (snd (mg_response_header_send malloc (Some conn) (sf_date cfg))))
     }"

definition handle_static_file_request ::
    "(nat \<Rightarrow> bool) \<Rightarrow> static_config \<Rightarrow> string \<Rightarrow> string \<Rightarrow> file_stat \<Rightarrow> string option \<Rightarrow> string option \<Rightarrow> mg_connection
     \<Rightarrow> mg_connection option" where
  "handle_static_file_request malloc cfg meth path st mime_type additional_headers conn =
     do {
       mime \<leftarrow> (case mime_type of None \<Rightarrow> get_mime_type (EXTRA_MIME_TYPES cfg) path | Some m \<Rightarrow> Some m);
       if INT64_MAX < int (f_size st)
       then static_error malloc cfg 500 (''Error: File size is too large to send'' @ [LF] @ print_int (to_int64 (f_size st))) conn
       else let conn = conn\<lparr>conn_status_code := 200\<rparr>;
                gz_path = path @ ''.gz''
       in if f_gzipped st \<and> UTF8_PATH_MAX \<le> length gz_path
          then static_error malloc cfg 500 (''Error: Path of zipped file too long ('' @ path @ '')'') conn
       else let path = (if f_gzipped st then gz_path else path);
                encoding = (if f_gzipped st then Some ''gzip'' else None);
                range_hdr = mg_get_header (Some conn) ''Range'';
                cl = int (f_size st)
       in case mg_fopen cfg path of
            None \<Rightarrow> static_error malloc cfg 500 (''Error: Cannot open file'' @ [LF] @ ''fopen('' @ path @ ''): '' @ open_error cfg) conn
          | Some (opened, f) \<Rightarrow>
              (case range_of (f_size opened) cl range_hdr of
                 None \<Rightarrow> do {
                   conn \<leftarrow> send_static_header malloc cfg mime opened encoding cl None additional_headers conn;
                   Some (if meth = ''HEAD'' then conn else send_file_data (ALLOW_SENDFILE_CALL cfg) conn (f_size opened) f (range_begin range_hdr) cl)
                 }
               | Some (r1, cl, t) \<Rightarrow>
                   if f_gzipped opened
                   then static_error malloc cfg 416 ''Error: Range requests in gzipped files are not supported'' conn
                   else do {
                     conn \<leftarrow> send_static_header malloc cfg mime opened encoding cl (Some t) additional_headers (conn\<lparr>conn_status_code := 206\<rparr>);
                     Some (if meth = ''HEAD'' then conn else send_file_data (ALLOW_SENDFILE_CALL cfg) conn (f_size opened) f r1 cl)
                   })
     }"

text \<open>\<open>None\<close> stands for an access outside a buffer, the result is \<open>-1\<close> when the file cannot be opened.\<close>

definition mg_send_file_body :: "static_config \<Rightarrow> mg_connection \<Rightarrow> string \<Rightarrow> int \<times> mg_connection" where
  "mg_send_file_body cfg conn path =
     (case mg_fopen cfg path of
        None \<Rightarrow> (-1, conn)
      | Some (st, f) \<Rightarrow> (0, send_file_data (ALLOW_SENDFILE_CALL cfg) conn (f_size st) f 0 INT64_MAX))"

subsection \<open>The client's cache\<close>

definition month_names :: "string list" where
  "month_names = [''Jan'', ''Feb'', ''Mar'', ''Apr'', ''May'', ''Jun'', ''Jul'', ''Aug'', ''Sep'', ''Oct'', ''Nov'', ''Dec'']"

definition get_month_index :: "string \<Rightarrow> int" where
  "get_month_index s = (case find (\<lambda>i. month_names ! i = s) [0..<12] of Some i \<Rightarrow> int i | None \<Rightarrow> -1)"

text \<open>The directives of the formats: \<open>%d\<close>, \<open>%3s\<close>, \<open>%*3s\<close>, a character, white space.\<close>

datatype directive = Number | Word3 | Skip3 | Lit char | Blank

definition scan_number :: "string \<Rightarrow> (int \<times> string) option" where
  "scan_number s = map_option (\<lambda>(n, rest). ((n + 2147483648) mod 4294967296 - 2147483648, rest)) (scan_int64 s)"

definition scan_word3 :: "string \<Rightarrow> (string \<times> string) option" where
  "scan_word3 s =
     (let s = dropWhile isspace s; w = takeWhile (\<lambda>c. \<not> isspace c) (take 3 s)
      in if w = [] then None else Some (w, drop (length w) s))"

fun scan_date :: "directive list \<Rightarrow> string \<Rightarrow> int list \<Rightarrow> string \<Rightarrow> (int list \<times> string) option" where
  "scan_date [] s ns month = Some (ns, month)"
| "scan_date (Number # ds) s ns month = (case scan_number s of None \<Rightarrow> None | Some (n, s) \<Rightarrow> scan_date ds s (ns @ [n]) month)"
| "scan_date (Word3 # ds) s ns month = (case scan_word3 s of None \<Rightarrow> None | Some (w, s) \<Rightarrow> scan_date ds s ns w)"
| "scan_date (Skip3 # ds) s ns month = (case scan_word3 s of None \<Rightarrow> None | Some (w, s) \<Rightarrow> scan_date ds s ns month)"
| "scan_date (Lit c # ds) s ns month = (case s of [] \<Rightarrow> None | x # s \<Rightarrow> if x = c then scan_date ds s ns month else None)"
| "scan_date (Blank # ds) s ns month = scan_date ds (dropWhile isspace s) ns month"

definition date_formats :: "directive list list" where
  "date_formats =
     (let time = [Number, Lit CHR '':'', Number, Lit CHR '':'', Number]
      in [[Number, Lit CHR ''/'', Word3, Lit CHR ''/'', Number, Blank] @ time,
          [Number, Blank, Word3, Blank, Number, Blank] @ time,
          [Skip3, Lit CHR '','', Blank, Number, Blank, Word3, Blank, Number, Blank] @ time,
          [Number, Lit CHR ''-'', Word3, Lit CHR ''-'', Number, Blank] @ time])"

fun first_format :: "directive list list \<Rightarrow> string \<Rightarrow> (int list \<times> string) option" where
  "first_format [] s = None"
| "first_format (ds # dss) s = (case scan_date ds s [] [] of None \<Rightarrow> first_format dss s | Some r \<Rightarrow> Some r)"

definition parse_date_string :: "(int \<times> int \<times> int \<times> int \<times> int \<times> int \<Rightarrow> int) \<Rightarrow> string \<Rightarrow> int" where
  "parse_date_string timegm datetime =
     (case first_format date_formats datetime of
        None \<Rightarrow> 0
      | Some (ns, month_str) \<Rightarrow>
          let day = ns ! 0; year = ns ! 1; hour = ns ! 2; minute = ns ! 3; second = ns ! 4;
              month = get_month_index month_str
          in if 0 \<le> month \<and> 1970 \<le> year then timegm (year - 1900, month, day, hour, minute, second) else 0)"

definition is_not_modified :: "static_config \<Rightarrow> mg_connection \<Rightarrow> file_stat \<Rightarrow> bool" where
  "is_not_modified cfg conn st \<longleftrightarrow>
     (\<exists>inm \<in> set_option (mg_get_header (Some conn) ''If-None-Match''). mg_strcasecmp (construct_etag st) inm = 0)
     \<or> (\<exists>ims \<in> set_option (mg_get_header (Some conn) ''If-Modified-Since''). f_modified st \<le> parse_date_string (time_gm cfg) ims)"

definition handle_not_modified_static_file_request ::
    "(nat \<Rightarrow> bool) \<Rightarrow> static_config \<Rightarrow> file_stat \<Rightarrow> mg_connection \<Rightarrow> mg_connection option" where
  "handle_not_modified_static_file_request malloc cfg st conn =
     do {
       let conn = the (snd (mg_response_header_start (Some conn) 304));
       let conn = send_static_cache_header malloc (sf_reply cfg) conn;
       conn \<leftarrow> send_additional_header malloc (sf_reply cfg) conn;
       let conn = add_header malloc ''Last-Modified'' (gmt_time cfg (f_modified st)) conn;
       let conn = add_header malloc ''Etag'' (construct_etag st) conn;
       Some (the (snd (mg_response_header_send malloc (Some conn) (sf_date cfg))))
     }"

text \<open>Steps 16 and 17 of \<open>handle_request\<close>.\<close>

definition static_file :: "(nat \<Rightarrow> bool) \<Rightarrow> static_config \<Rightarrow> string \<Rightarrow> string \<Rightarrow> file_stat \<Rightarrow> mg_connection \<Rightarrow> mg_connection option" where
  "static_file malloc cfg meth path st conn =
     (if \<not> in_error_handler cfg \<and> is_not_modified cfg conn st then handle_not_modified_static_file_request malloc cfg st conn
      else handle_static_file_request malloc cfg meth path st None None conn)"

section \<open>The data of a file\<close>

lemma sendfile_loop_sends:
  "0 < len \<Longrightarrow> offs + nat len \<le> length f \<Longrightarrow> accepts (nat len + m) (net_accept conn) \<Longrightarrow>
   \<exists>offs' len' conn'. sendfile_loop first conn f offs len = (True, offs', len', conn')
     \<and> net_out conn' = net_out conn @ take (nat len) (drop offs f)"
proof (induction first conn f offs len rule: sendfile_loop.induct)
  case (1 first conn f offs len)
  define n where "n = nat (if len < 2147479552 then len else 2147479552)"
  define part where "part = take n (drop offs f)"
  have n: "0 < n" "n \<le> nat len" using "1.prems"(1) by (auto simp: n_def)
  then have part: "length part = n" using "1.prems"(2) by (simp add: part_def)
  obtain k ks where ks: "net_accept conn = k # ks" "0 < k" "list_all (\<lambda>k. 0 < k) ks" "nat len + m \<le> Suc (length ks)"
    using "1.prems"(1,3) by (cases "net_accept conn") (auto simp: accepts_def)
  define conn1 where "conn1 = conn\<lparr>net_accept := ks, net_out := net_out conn @ take k part\<rparr>"
  define t where "t = length (take k part)"
  have t: "0 < t" "t \<le> nat len" "take t (drop offs f) = take k part" using part n ks(2) by (auto simp: t_def part_def min_def)
  have ne: "part \<noteq> []" using part n(1) by auto
  have sf: "sendfile conn f offs n = (int t, conn1)"
    using ks(1,2) ne unfolding sendfile_def part_def [symmetric] by (simp add: Let_def t_def conn1_def)
  show ?case
  proof (cases "0 < len - int t")
    case True
    have ln: "nat (len - int t) = nat len - t" by arith
    have a: "accepts (nat (len - int t) + m) (net_accept conn1)" using ks t True by (simp add: accepts_def conn1_def)
    have b: "offs + t + nat (len - int t) \<le> length f" using "1.prems"(2) t(2) by simp
    obtain offs' len' conn' where r: "sendfile_loop False conn1 f (offs + t) (len - int t) = (True, offs', len', conn')"
      "net_out conn' = net_out conn1 @ take (nat (len - int t)) (drop (offs + t) f)"
      using "1.IH" [OF sf [symmetric, unfolded n_def] refl _ refl refl] True t(1) a b by auto
    have "take (nat len) (drop offs f) = take t (drop offs f) @ take (nat len - t) (drop (offs + t) f)"
      using t(2) by (metis add.commute drop_drop le_add_diff_inverse take_add)
    then have "net_out conn' = net_out conn @ take (nat len) (drop offs f)" using r(2) t(3) ln by (simp add: conn1_def)
    then show ?thesis using r(1) True t(1) sf by (subst sendfile_loop.simps) (simp add: Let_def n_def [symmetric])
  next
    case False
    then have "t = nat len" using t(2) by simp
    then show ?thesis using False t sf by (subst sendfile_loop.simps) (simp add: Let_def n_def [symmetric] conn1_def)
  qed
qed

lemma copy_file_sends:
  "nat len \<le> length rest \<Longrightarrow> writer_ok (nat len + m) conn \<Longrightarrow> net_out (copy_file conn rest len) = net_out conn @ take (nat len) rest"
proof (induction conn rest len rule: copy_file.induct)
  case (1 conn rest len)
  show ?case
  proof (cases "0 < len")
    case False
    then show ?thesis by (subst copy_file.simps) simp
  next
    case True
    define n where "n = (if len < int MG_BUF_LEN then nat len else MG_BUF_LEN)"
    define buf where "buf = take n rest"
    have n: "0 < n" "n \<le> nat len" "n \<le> MG_BUF_LEN" using True by (auto simp: n_def MG_BUF_LEN_def)
    then have buf: "length buf = n" "buf \<noteq> []" using "1.prems"(1) by (auto simp: buf_def)
    have w: "writer_ok (length buf + (nat (len - int n) + m)) conn" using "1.prems"(2) buf n by (simp add: nat_diff_distrib)
    obtain c where c: "mg_write (Some conn) buf = (int n, Some c)" "net_out c = net_out conn @ buf" "writer_ok (nat (len - int n) + m) c"
      using mg_write_accepts [OF w] buf n(3) by (auto simp: INT_MAX_def MG_BUF_LEN_def)
    have l: "nat (len - int n) \<le> length (drop n rest)" using "1.prems"(1) n(2) by (simp add: nat_diff_distrib)
    have IH: "net_out (copy_file c (drop n rest) (len - int n)) = net_out c @ take (nat (len - int n)) (drop n rest)"
      using "1.IH" [OF True n_def buf_def buf(2) c(1) [symmetric]] l c(3) buf(1) by simp
    have "take (nat len) rest = take n rest @ take (nat len - n) (drop n rest)"
      using n(2) by (metis add_diff_inverse_nat linorder_not_less take_add)
    moreover have "rest \<noteq> []" using buf(2) by (auto simp: buf_def)
    ultimately show ?thesis
      using True IH c buf n by (subst copy_file.simps) (simp add: Let_def n_def [symmetric] buf_def [symmetric] nat_diff_distrib)
  qed
qed

lemma send_file_data_sends:
  assumes "0 \<le> offset" "0 \<le> len" "offset + len \<le> int (length f)" "int (length f) \<le> INT64_MAX" "writer_ok (nat len) conn"
  shows "net_out (send_file_data allow conn (length f) f offset len) = net_out conn @ take (nat len) (drop (nat offset) f)"
proof (cases "0 < len")
  case False
  then show ?thesis by (simp add: send_file_data_def)
next
  case True
  have o: "(if offset < 0 then 0 else if min (int (length f)) INT64_MAX < offset then min (int (length f)) INT64_MAX else offset) = offset"
    using assms(1-4) True by auto
  have b: "nat offset + nat len \<le> length f" using assms(1-3) by linarith
  have "accepts (nat len + 0) (net_accept conn)" using assms(5) by (simp add: writer_ok_def)
  from sendfile_loop_sends [OF True b this, of True] copy_file_sends [of len "drop (nat offset) f" 0 conn] show ?thesis
    using True b assms(5) unfolding send_file_data_def Let_def o by auto
qed

section \<open>Ranges\<close>

text \<open>What a client may ask for: all of a file, from a position on, or from one to another.\<close>

datatype selection = All | From nat | Between nat nat

fun range_header :: "selection \<Rightarrow> string option" where
  "range_header All = None"
| "range_header (From a) = Some (''bytes='' @ decimal a @ ''-'')"
| "range_header (Between a b) = Some (''bytes='' @ decimal a @ ''-'' @ decimal b)"

fun in_file :: "selection \<Rightarrow> nat \<Rightarrow> bool" where
  "in_file All n = True"
| "in_file (From a) n \<longleftrightarrow> a < n"
| "in_file (Between a b) n \<longleftrightarrow> a \<le> b \<and> b < n"

fun selected :: "selection \<Rightarrow> 'a list \<Rightarrow> 'a list" where
  "selected All f = f"
| "selected (From a) f = drop a f"
| "selected (Between a b) f = take (b + 1 - a) (drop a f)"

fun range_start :: "selection \<Rightarrow> nat" where
  "range_start All = 0"
| "range_start (From a) = a"
| "range_start (Between a b) = a"

fun content_range :: "selection \<Rightarrow> nat \<Rightarrow> mg_header list" where
  "content_range All n = []"
| "content_range (From a) n = [(''Content-Range'', ''bytes '' @ decimal a @ ''-'' @ decimal (n - 1) @ ''/'' @ decimal n)]"
| "content_range (Between a b) n = [(''Content-Range'', ''bytes '' @ decimal a @ ''-'' @ decimal b @ ''/'' @ decimal n)]"

lemma strtol10_decimal:
  assumes "n < 9223372036854775808" "rest = [] \<or> \<not> isdigit (hd rest)"
  shows "strtol10 (decimal n @ rest) = (int n, rest)"
proof -
  note d = decimal_digits [of n]
  obtain x xs where x: "decimal n = x # xs" using d by (cases "decimal n") auto
  then have nd: "\<not> isspace x" "x \<noteq> CHR ''-''" "x \<noteq> CHR ''+''" using isdigit_facts [of x] d by auto
  have tw: "takeWhile isdigit (decimal n @ rest) = decimal n" "dropWhile isdigit (decimal n @ rest) = rest"
    using d assms(2) by (cases rest; simp add: list_all_iff takeWhile_append2 dropWhile_append2)+
  have "dropWhile isspace (decimal n @ rest) = decimal n @ rest" "deref (decimal n @ rest) = x" using x nd by simp_all
  then show ?thesis using nd d assms(1) unfolding strtol10_def Let_def by (simp add: tw)
qed

lemma scan_decimal:
  assumes "n < 9223372036854775808" "rest = [] \<or> \<not> isdigit (hd rest)"
  shows "scan_int64 (decimal n @ rest) = Some (int n, rest)"
  using strtol10_decimal [OF assms] decimal_digits [of n] by (simp add: scan_int64_def)

lemma parse_range_header_ok:
  assumes "a < 9223372036854775808" "b < 9223372036854775808"
  shows "parse_range_header (''bytes='' @ decimal a @ ''-'') = (1, int a, 0)"
    "parse_range_header (''bytes='' @ decimal a @ ''-'' @ decimal b) = (2, int a, int b)"
proof -
  have m: "\<not> isdigit CHR ''-''" by (simp add: isdigit_def ordc_def)
  have e: "scan_int64 [] = None" by (simp add: scan_int64_def strtol10_def)
  show "parse_range_header (''bytes='' @ decimal a @ ''-'') = (1, int a, 0)"
    using scan_decimal [OF assms(1), of "''-''"] m e by (simp add: parse_range_header_def)
  show "parse_range_header (''bytes='' @ decimal a @ ''-'' @ decimal b) = (2, int a, int b)"
    using scan_decimal [OF assms(1), of "CHR ''-'' # decimal b"] scan_decimal [OF assms(2), of "[]"] m by (simp add: parse_range_header_def)
qed

lemma mg_fopen_plain: "mg_fopen cfg path = Some (st, f) \<Longrightarrow> \<not> f_gzipped st"
  by (auto simp: mg_fopen_def mg_stat_def split: if_splits option.splits)

lemma to_int64_small: "int n \<le> INT64_MAX \<Longrightarrow> to_int64 n = int n"
  by (simp add: to_int64_def INT64_MAX_def)

lemma range_of_selection:
  assumes "in_file sel n" "int n \<le> INT64_MAX"
  shows "range_of n (int n) (range_header sel) = (if sel = All then None
    else Some (int (range_start sel), int (length (selected sel (replicate n x))), snd (hd (content_range sel n))))"
proof (cases sel)
  case All
  then show ?thesis by (simp add: range_of_def)
next
  case (From a)
  have "a < 9223372036854775808" using assms From by (simp add: INT64_MAX_def)
  moreover have "nat (int n - 1) = n - 1" "int a + (int n - int a) - 1 = int n - 1" by simp_all
  ultimately show ?thesis
    using assms From parse_range_header_ok(1) [of a 0] by (simp add: range_of_def print_int_def of_nat_diff Let_def to_int64_small)
next
  case (Between a b)
  have ab: "a < 9223372036854775808" "b < 9223372036854775808" "a \<le> b" "b < n" using assms Between by (auto simp: INT64_MAX_def)
  have "length (selected sel (replicate n x)) = b + 1 - a" using Between ab by simp
  moreover have "int (b + 1 - a) = int b - int a + 1" using ab by simp
  ultimately show ?thesis using Between ab parse_range_header_ok(2) [OF ab(1,2)] assms(2) by (simp add: range_of_def print_int_def Let_def to_int64_small)
qed

text \<open>A range that ends behind the file is announced with one byte too many, and one that begins behind it with a
  length below zero.\<close>

lemma range_past_end:
  assumes "a \<le> n" "n \<le> b" "b < 9223372036854775808"
  shows "range_of n (int n) (range_header (Between a b)) = Some (int a, int (n - a + 1),
    ''bytes '' @ decimal a @ ''-'' @ decimal n @ ''/'' @ decimal n)"
  using assms parse_range_header_ok(2) [of a b] by (auto simp: range_of_def print_int_def Let_def of_nat_diff to_int64_def)

lemma range_behind_end:
  assumes "n < a" "a < 9223372036854775808"
  shows "\<exists>t. range_of n (int n) (range_header (From a)) = Some (int a, int n - int a, t)"
  using assms parse_range_header_ok(1) [of a 0] by (simp add: range_of_def Let_def)

text \<open>A second number below zero makes the range unacceptable, but the first one stays in use: the answer is 200 and announces the whole
  file, and the data begins at the first number.\<close>

lemma refused_range_skips_data:
  assumes "mg_get_header (Some conn) ''Range'' = Some ''bytes=5--3''" "conn_type conn = CONNECTION_TYPE_REQUEST"
    and "get_mime_type (EXTRA_MIME_TYPES cfg) path = Some mime"
    and "mg_fopen cfg path = Some (st, f)" "\<not> f_gzipped st" "int (f_size st) \<le> INT64_MAX"
    and "send_static_header malloc cfg mime st None (int (f_size st)) None None (conn\<lparr>conn_status_code := 200\<rparr>) = Some c2"
  shows "handle_static_file_request malloc cfg ''GET'' path st None None conn
    = Some (send_file_data (ALLOW_SENDFILE_CALL cfg) c2 (f_size st) f 5 (int (f_size st)))"
proof -
  have p: "parse_range_header ''bytes=5--3'' = (2, 5, -3)" by code_simp
  have h: "mg_get_header (Some (conn\<lparr>conn_status_code := 200\<rparr>)) ''Range'' = Some ''bytes=5--3''"
    using assms(1,2) by (simp add: mg_get_header_def)
  show ?thesis using assms(3-7) h p by (simp add: handle_static_file_request_def Let_def range_of_def range_begin_def)
qed

lemma selected_part:
  assumes "in_file sel (length f)"
  shows "selected sel f = take (length (selected sel f)) (drop (range_start sel) f)"
    "range_start sel + length (selected sel f) \<le> length f" "length (selected sel (replicate (length f) x)) = length (selected sel f)"
  using assms by (cases sel; auto simp: min_def)+

section \<open>The response\<close>

definition with_fields :: "mg_connection \<Rightarrow> mg_header list \<Rightarrow> mg_connection" where
  "with_fields c hs = c\<lparr>response_info := (response_info c)\<lparr>info_headers := hs\<rparr>\<rparr>"

definition adding :: "mg_connection \<Rightarrow> bool" where
  "adding c \<longleftrightarrow> conn_type c = CONNECTION_TYPE_REQUEST \<and> proto_type c = PROTOCOL_TYPE_HTTP1 \<and> request_state c = 1"

lemma add_header_fields:
  assumes "adding c" "length hs < MG_MAX_HEADERS"
  shows "add_header (\<lambda>n. True) h v (with_fields c hs) = with_fields c (hs @ [(h, v)])"
    "the (snd (mg_response_header_add (\<lambda>n. True) (Some (with_fields c hs)) (Some h) (Some v) (int (length v)))) = with_fields c (hs @ [(h, v)])"
  using assms by (simp_all add: adding_def with_fields_def add_header_def mg_response_header_add_def)

definition cache_fields :: "reply_config \<Rightarrow> mg_header list" where
  "cache_fields cfg = (let max_age = atoi (STATIC_FILE_MAX_AGE cfg)
     in if max_age \<le> 0 then no_cache else [(''Cache-Control'', ''max-age='' @ decimal (nat max_age))])"

lemma cache_fields_length: "length (cache_fields cfg) \<le> 3"
  by (simp add: cache_fields_def Let_def no_cache_def)

lemma static_cache_fields:
  assumes "adding c" "STATIC_FILE_CACHE_CONTROL cfg = None"
  shows "send_static_cache_header (\<lambda>n. True) cfg (with_fields c []) = with_fields c (cache_fields cfg)"
  using assms by (simp add: send_static_cache_header_def cache_fields_def Let_def send_no_cache_header_def add_header_fields
      no_cache_def MG_MAX_HEADERS_def) (simp add: with_fields_def adding_def)

definition static_fields :: "static_config \<Rightarrow> string \<Rightarrow> file_stat \<Rightarrow> selection \<Rightarrow> mg_header list" where
  "static_fields cfg mime st sel =
     cache_fields (sf_reply cfg)
     @ [(''Content-Type'', mime), (''Last-Modified'', gmt_time cfg (f_modified st)), (''Etag'', construct_etag st),
        (''Content-Length'', decimal (length (selected sel (replicate (f_size st) NUL)))), (''Accept-Ranges'', ''bytes'')]
     @ content_range sel (f_size st)"

text \<open>A text that may stand as the value of a field.\<close>

definition value_ok :: "string \<Rightarrow> bool" where
  "value_ok v \<longleftrightarrow> list_all text_char v \<and> (v = [] \<or> hd v \<noteq> CHR '' '')"

lemma graph_value: "list_all isgraph v \<Longrightarrow> value_ok v"
  using isgraph_text by (cases v) (auto simp: value_ok_def list_all_iff isgraph_def ordc_def)

lemma hexadecimal_graph: "list_all isgraph (hexadecimal n)"
  using hexadecimal_digits [of n] by (auto simp: list_all_iff isxdigit_def isdigit_def isgraph_def)

lemma etag_graph: "list_all isgraph (construct_etag st)"
proof -
  have "isgraph DQUOTE" "isgraph CHR ''.''" "isgraph CHR ''-''" by (simp_all add: isgraph_def ordc_def)
  then show ?thesis using hexadecimal_graph decimal_graph(1) by (auto simp: construct_etag_def print_int_def)
qed

lemma static_fields_ok:
  assumes "value_ok mime" "value_ok (gmt_time cfg (f_modified st))"
  shows "\<forall>h \<in> set (static_fields cfg mime st sel). header_ok h" "length (static_fields cfg mime st sel) \<le> 9"
proof -
  have names: "list_all name_char ''Cache-Control''" "list_all name_char ''Content-Type''" "list_all name_char ''Last-Modified''"
    "list_all name_char ''Etag''" "list_all name_char ''Content-Length''" "list_all name_char ''Accept-Ranges''"
    "list_all name_char ''Content-Range''" by code_simp+
  have ok: "header_ok (n, v) \<longleftrightarrow> n \<noteq> [] \<and> list_all name_char n \<and> value_ok v" for n v by (auto simp: header_ok_def value_ok_def)
  have nc: "\<forall>h \<in> set no_cache. header_ok h" by code_simp
  have bytes: "value_ok ''bytes''" by code_simp
  have g: "list_all isgraph ''max-age=''" "isgraph CHR ''-''" "isgraph CHR ''/''" by (simp_all add: isgraph_def ordc_def)
  have age: "value_ok (''max-age='' @ decimal n)" for n using g(1) decimal_graph(1) by (intro graph_value) simp
  have "list_all text_char ''bytes ''" by code_simp
  then have range: "value_ok (''bytes '' @ decimal a @ ''-'' @ decimal b @ ''/'' @ decimal n)" for a b n
    using g decimal_graph(1) isgraph_text by (auto simp: value_ok_def list_all_iff)
  have "\<forall>h \<in> set (cache_fields (sf_reply cfg)). header_ok h" using nc age names(1) by (simp add: cache_fields_def Let_def ok)
  moreover have "\<forall>h \<in> set (content_range sel (f_size st)). header_ok h" using range names(7) by (cases sel) (simp_all add: ok)
  ultimately show "\<forall>h \<in> set (static_fields cfg mime st sel). header_ok h"
    using names assms graph_value [OF etag_graph] graph_value [OF decimal_graph(1)] bytes by (auto simp: static_fields_def ok)
  have "length (content_range sel (f_size st)) \<le> 1" by (cases sel) simp_all
  then show "length (static_fields cfg mime st sel) \<le> 9" using cache_fields_length [of "sf_reply cfg"] by (simp add: static_fields_def)
qed

lemma handle_static_file_request_sends:
  assumes "conn_type conn = CONNECTION_TYPE_REQUEST" "proto_type conn = PROTOCOL_TYPE_HTTP1" "request_state conn = 0"
    and "version = (case info_version (request_info conn) of None \<Rightarrow> ''1.0'' | Some v \<Rightarrow> v)"
    and "ADDITIONAL_HEADER (sf_reply cfg) = None" "STRICT_HTTPS_MAX_AGE (sf_reply cfg) = None"
    and "STATIC_FILE_CACHE_CONTROL (sf_reply cfg) = None" "CORS_ORIGIN cfg = None"
    and "get_mime_type (EXTRA_MIME_TYPES cfg) path = Some mime" "value_ok mime" "value_ok (gmt_time cfg (f_modified st))"
    and "mg_fopen cfg path = Some (st, f)" "f_size st = length f" "\<not> f_gzipped st" "int (length f) \<le> INT64_MAX"
    and "mg_get_header (Some conn) ''Range'' = range_header sel" "in_file sel (length f)"
    and "status = (if sel = All then 200 else 206)"
    and "head = render_response version (nat status) (mg_get_response_code_text status)
      (completed conn (sf_date cfg) (static_fields cfg mime st sel))"
    and "body = (if meth = ''HEAD'' then [] else selected sel f)"
    and "writer_ok (length (head @ body)) conn" "int (length head) \<le> INT_MAX"
  shows "\<exists>c'. handle_static_file_request (\<lambda>n. True) cfg meth path st None None conn = Some c' \<and> net_out c' = net_out conn @ head @ body"
proof -
  define c1 where "c1 = conn\<lparr>conn_status_code := status, request_state := 1\<rparr>"
  have c1: "adding c1" using assms(1,2) by (simp add: adding_def c1_def)
  have status: "100 \<le> status" "status < 600" by (simp_all add: assms(18))
  define fs where "fs = static_fields cfg mime st sel"
  have start: "the (snd (mg_response_header_start (Some (conn\<lparr>conn_status_code := status\<rparr>)) status)) = with_fields c1 []"
    using assms(1-3) status by (simp add: mg_response_header_start_def free_buffered_response_header_list_def c1_def with_fields_def)
  have range: "range_of (f_size st) (int (f_size st)) (range_header sel) = (if sel = All then None
      else Some (int (range_start sel), int (length (selected sel f)), snd (hd (content_range sel (f_size st)))))"
    using range_of_selection [of sel "f_size st" NUL] assms(13,15,17) selected_part(3) [OF assms(17), of NUL] by simp
  have add: "the (snd (mg_response_header_add (\<lambda>n. True) (Some (with_fields c1 (cache_fields (sf_reply cfg)))) (Some ''Content-Type'') (Some mime)
      (int (length mime)))) = with_fields c1 (cache_fields (sf_reply cfg) @ [(''Content-Type'', mime)])"
    using add_header_fields(2) [OF c1] cache_fields_length [of "sf_reply cfg"] by (simp add: MG_MAX_HEADERS_def)
  have len: "print_int (int n) = decimal n" for n by (simp add: print_int_def)
  have more: "add_header (\<lambda>n. True) h v (with_fields c1 (cache_fields (sf_reply cfg) @ hs)) = with_fields c1 (cache_fields (sf_reply cfg) @ hs @ [(h, v)])"
    if "length hs < 60" for h v hs
    using add_header_fields(1) [OF c1, of "cache_fields (sf_reply cfg) @ hs"] that cache_fields_length [of "sf_reply cfg"]
    by (simp add: MG_MAX_HEADERS_def)
  have range_field: "content_range sel n = [(''Content-Range'', snd (hd (content_range sel n)))]" if "sel \<noteq> All" for n
    using that by (cases sel) simp_all
  have hok: "\<forall>h \<in> set (info_headers (response_info (with_fields c1 fs))). header_ok h"
    using static_fields_ok(1) [OF assms(10,11)] by (simp add: with_fields_def fs_def)
  have "suggest_connection_header (Some (with_fields c1 fs)) = suggest_connection_header (Some conn)"
    using assms(1) by (intro suggest_same) (simp_all add: with_fields_def c1_def)
  then have comp: "completed (with_fields c1 fs) (sf_date cfg) fs = completed conn (sf_date cfg) fs" by (simp add: completed_def)
  have w: "writer_ok (length head + length body) (with_fields c1 fs)" using assms(21) by (simp add: writer_ok_def with_fields_def c1_def)
  obtain c2 where c2: "mg_response_header_send (\<lambda>n. True) (Some (with_fields c1 fs)) (sf_date cfg) = (0, Some c2)"
    "net_out c2 = net_out conn @ head" "writer_ok (length body) c2"
    using send_spec [of "with_fields c1 fs" version head "sf_date cfg" "length body", OF _ _ _ _ _ _ hok _ w assms(22)] assms(1,2,4,19) status comp
    by (auto simp: with_fields_def c1_def fs_def)
  have h1: "mg_get_header (Some (conn\<lparr>conn_status_code := n\<rparr>)) ''Range'' = range_header sel" for n
    using assms(1,16) by (simp add: mg_get_header_def)
  have sent: "net_out (send_file_data (ALLOW_SENDFILE_CALL cfg) c2 (f_size st) f (int (range_start sel)) (int (length (selected sel f))))
      = net_out conn @ head @ body" if "meth \<noteq> ''HEAD''"
    using send_file_data_sends [of "int (range_start sel)" "int (length (selected sel f))" f c2] selected_part [OF assms(17)] assms(13,15,20) c2(2,3) that
    by simp
  define c' where "c' = (if meth = ''HEAD'' then c2
    else send_file_data (ALLOW_SENDFILE_CALL cfg) c2 (f_size st) f (int (range_start sel)) (int (length (selected sel f))))"
  have header: "send_static_header (\<lambda>n. True) cfg mime st None (int (length (selected sel f)))
      (if sel = All then None else Some (snd (hd (content_range sel (f_size st))))) None (conn\<lparr>conn_status_code := status\<rparr>) = Some c2"
  proof -
    have sel: "fs = (cache_fields (sf_reply cfg) @ [(''Content-Type'', mime), (''Last-Modified'', gmt_time cfg (f_modified st)),
        (''Etag'', construct_etag st), (''Content-Length'', decimal (length (selected sel f))), (''Accept-Ranges'', ''bytes'')])
        @ (if sel = All then [] else [(''Content-Range'', snd (hd (content_range sel (f_size st))))])"
      using selected_part(3) [OF assms(17), of NUL] range_field [of "f_size st"] by (auto simp: fs_def static_fields_def assms(13))
    have u: "conn_status_code (conn\<lparr>conn_status_code := status\<rparr>) = status" by simp
    show ?thesis
      unfolding send_static_header_def assms(8) option.case Let_def u start static_cache_fields [OF c1 assms(7)] plain_reply [OF assms(5,6)]
        Option.bind_lunit add
      using c2(1) assms(14) unfolding sel by (cases "sel = All") (simp_all add: more len)
  qed
  have "handle_static_file_request (\<lambda>n. True) cfg meth path st None None conn = Some c'"
    using header assms(5,8,9,12,14) not_less [THEN iffD2, OF assms(15)] selected_part(2) [OF assms(17)] range assms(18)
    by (cases "sel = All") (simp_all add: handle_static_file_request_def Let_def h1 c'_def assms(13) range_begin_def)
  moreover have "net_out c' = net_out conn @ head @ body" using sent c2(2) assms(20) by (simp add: c'_def)
  ultimately show ?thesis by blast
qed


definition example_static :: static_config where
  "example_static = \<lparr>sf_reply = plain_config, sf_date = ''now'', sf_callback = None, in_error_handler = False, EXTRA_MIME_TYPES = None, ALLOW_SENDFILE_CALL = ''yes'',
     CORS_ORIGIN = None, gmt_time = (\<lambda>t. ''then''), time_gm = (\<lambda>x. 0),
     sf_site = \<lparr>DOCUMENT_ROOT = Some ''/www'', WEBSOCKET_ROOT = None, URL_REWRITE_PATTERN = None, INDEX_FILES = None, CGI_PATTERNS = [],
       SSI_EXTENSIONS = None, ALLOW_INDEX_SCRIPT_SUB_RES = ''no'', HIDE_FILES = None,
       stat_call = (\<lambda>p. if p = ''/www/a.css'' then Some \<lparr>f_size = 5, f_modified = 7, f_directory = False, f_gzipped = False\<rparr> else None),
       alloc_path = True\<rparr>,
     open_file = (\<lambda>p. if p = ''/www/a.css'' then Some ''hello'' else None), open_error = ''No such file''\<rparr>"

definition example_client :: mg_connection where
  "example_client = example_server\<lparr>net_accept := replicate 600 7, throttle := 0,
     request_info := \<lparr>info_version = Some ''1.1'', info_headers = [(''range'', ''bytes=1-3'')]\<rparr>\<rparr>"


section \<open>The client's copy\<close>

lemma hexadecimal_lower: "list_all (\<lambda>c. \<not> isupper c \<and> c \<noteq> CHR ''.'' \<and> c \<noteq> NUL) (hexadecimal n)"
proof (induction n rule: hexadecimal.induct)
  case (1 n)
  have d: "\<not> isupper (hexdigit m) \<and> hexdigit m \<noteq> CHR ''.'' \<and> hexdigit m \<noteq> NUL" if "m < 16" for m
  proof -
    have "\<forall>m \<in> set [0..<16]. \<not> isupper (hexdigit m) \<and> hexdigit m \<noteq> CHR ''.'' \<and> hexdigit m \<noteq> NUL" by code_simp
    then show ?thesis using that by simp
  qed
  show ?case using 1 d [of n] d [of "n mod 16"] by (subst hexadecimal.simps) auto
qed

lemma digits_lower: "list_all isdigit ds \<Longrightarrow> list_all (\<lambda>c. \<not> isupper c \<and> c \<noteq> NUL) ds"
  by (auto simp: list_all_iff isdigit_def isupper_def ordc_def)

lemma print_int_inject: "print_int m = print_int n \<longleftrightarrow> m = n"
proof -
  have dec: "decimal a = decimal b \<longleftrightarrow> a = b" for a b by (metis decimal_digits)
  have "\<not> isdigit CHR ''-''" by (simp add: isdigit_def ordc_def)
  then have "decimal a \<noteq> CHR ''-'' # s" for a s using decimal_digits [of a] by auto
  then show ?thesis using dec by (auto simp: print_int_def) (metis list.inject)
qed

lemma etag_fold: "fold_case (construct_etag st) = construct_etag st" "cstring (construct_etag st)"
proof -
  define P where "P = (\<lambda>c. \<not> isupper c \<and> c \<noteq> NUL)"
  have d: "list_all P (decimal n)" for n using digits_lower decimal_digits unfolding P_def by blast
  have c: "P DQUOTE" "P CHR ''.''" "P CHR ''-''" by (simp_all add: P_def isupper_def ordc_def)
  have "list_all P (print_int n)" for n using d c by (simp add: print_int_def)
  moreover have "list_all P (hexadecimal n)" for n
    by (rule list_all_mono' [OF hexadecimal_lower]) (simp add: P_def)
  ultimately have all: "list_all P (construct_etag st)" using c by (simp add: construct_etag_def)
  then have "tolower c = c" if "c \<in> set (construct_etag st)" for c using that by (simp add: list_all_iff P_def tolower_def)
  then show "fold_case (construct_etag st) = construct_etag st" by (simp add: map_idI)
  have "NUL \<notin> set (construct_etag st)" using all by (auto simp: list_all_iff P_def)
  then show "cstring (construct_etag st)" by (simp add: cstring_def)
qed

lemma etag_inject:
  "construct_etag st = construct_etag st' \<longleftrightarrow> f_modified st mod 18446744073709551616 = f_modified st' mod 18446744073709551616
    \<and> to_int64 (f_size st) = to_int64 (f_size st')"
proof
  define h where "h = (\<lambda>st :: file_stat. hexadecimal (nat (f_modified st mod 18446744073709551616)))"
  assume "construct_etag st = construct_etag st'"
  then have e: "h st @ CHR ''.'' # print_int (to_int64 (f_size st)) = h st' @ CHR ''.'' # print_int (to_int64 (f_size st'))"
    by (simp add: construct_etag_def h_def)
  have tw: "takeWhile (\<lambda>c. c \<noteq> CHR ''.'') (h st @ CHR ''.'' # s) = h st" for st s
    using hexadecimal_lower by (auto simp: h_def list_all_iff takeWhile_append2)
  have "h st = h st'" using arg_cong [OF e, of "takeWhile (\<lambda>c. c \<noteq> CHR ''.'')"] unfolding tw .
  then have "nat (f_modified st mod 18446744073709551616) = nat (f_modified st' mod 18446744073709551616)"
    unfolding h_def by (metis hexadecimal_digits)
  moreover have "print_int (to_int64 (f_size st)) = print_int (to_int64 (f_size st'))" using e \<open>h st = h st'\<close> by simp
  ultimately show "f_modified st mod 18446744073709551616 = f_modified st' mod 18446744073709551616
    \<and> to_int64 (f_size st) = to_int64 (f_size st')" by (simp add: print_int_inject)
qed (simp add: construct_etag_def)

text \<open>C39: the client's copy of a file. A client that asks with the entity tag it has received for a version \<open>st'\<close> of the file, and with or
  without a date in \<open>If-Modified-Since\<close>,
  is told that nothing has changed exactly when the file's time and size are still the same, or there is such a date and the file's time
  is not after it. So the tag alone decides for a client that sends no date, and a client that sends a date is told so, too, for a file that has
  been replaced by an older one, whatever its tag.\<close>

theorem etag_revalidation:
  assumes "mg_get_header (Some conn) ''If-None-Match'' = Some (construct_etag st')" "mg_get_header (Some conn) ''If-Modified-Since'' = ims"
    and "0 \<le> f_modified st" "f_modified st < 18446744073709551616" "0 \<le> f_modified st'" "f_modified st' < 18446744073709551616"
    and "f_size st < 18446744073709551616" "f_size st' < 18446744073709551616"
  shows "is_not_modified cfg conn st \<longleftrightarrow> f_modified st = f_modified st' \<and> f_size st = f_size st'
    \<or> (case ims of None \<Rightarrow> False | Some d \<Rightarrow> f_modified st \<le> parse_date_string (time_gm cfg) d)"
proof -
  have s: "to_int64 a = to_int64 b \<longleftrightarrow> a = b" if "a < 18446744073709551616" "b < 18446744073709551616" for a b
    using that by (auto simp: to_int64_def split: if_splits)
  have "is_not_modified cfg conn st \<longleftrightarrow> mg_strcasecmp (construct_etag st) (construct_etag st') = 0
      \<or> (case ims of None \<Rightarrow> False | Some d \<Rightarrow> f_modified st \<le> parse_date_string (time_gm cfg) d)"
    using assms(1,2) by (simp add: is_not_modified_def split: option.split)
  also have "mg_strcasecmp (construct_etag st) (construct_etag st') = 0 \<longleftrightarrow> construct_etag st = construct_etag st'"
    by (simp add: mg_strcasecmp_eq etag_fold)
  finally show ?thesis using assms(3-8) s by (simp add: etag_inject)
qed

text \<open>A client that asks for a file with the tag and the date of its version from the year 2001. The file is now one from before that.\<close>

definition returning_client :: "file_stat \<Rightarrow> mg_header list \<Rightarrow> mg_connection" where
  "returning_client st dates = example_client\<lparr>request_info := \<lparr>info_version = Some ''1.1'',
     info_headers = (''If-None-Match'', construct_etag st) # dates\<rparr>\<rparr>"

definition seconds_per_year :: "static_config" where
  "seconds_per_year = example_static\<lparr>time_gm := (\<lambda>(y, _). (y - 70) * 31536000)\<rparr>"

lemma returning_headers:
  "mg_get_header (Some (returning_client st [])) ''If-None-Match'' = Some (construct_etag st)"
  "mg_get_header (Some (returning_client st [])) ''If-Modified-Since'' = None"
  "mg_get_header (Some (returning_client st [(''If-Modified-Since'', d)])) ''If-None-Match'' = Some (construct_etag st)"
  "mg_get_header (Some (returning_client st [(''If-Modified-Since'', d)])) ''If-Modified-Since'' = Some d"
proof -
  have "mg_strcasecmp ''If-None-Match'' ''If-None-Match'' = 0" "mg_strcasecmp ''If-Modified-Since'' ''If-None-Match'' \<noteq> 0"
    "mg_strcasecmp ''If-Modified-Since'' ''If-Modified-Since'' = 0" by code_simp+
  then show "mg_get_header (Some (returning_client st [])) ''If-None-Match'' = Some (construct_etag st)"
    "mg_get_header (Some (returning_client st [])) ''If-Modified-Since'' = None"
    "mg_get_header (Some (returning_client st [(''If-Modified-Since'', d)])) ''If-None-Match'' = Some (construct_etag st)"
    "mg_get_header (Some (returning_client st [(''If-Modified-Since'', d)])) ''If-Modified-Since'' = Some d"
    by (simp_all add: mg_get_header_def returning_client_def example_client_def example_server_def example_writer_def)
qed

lemma jan_2001: "parse_date_string (time_gm seconds_per_year) ''Mon, 01 Jan 2001 00:00:00 GMT'' = 977616000"
proof -
  have "first_format date_formats ''Mon, 01 Jan 2001 00:00:00 GMT'' = Some ([1, 2001, 0, 0, 0], ''Jan'')" by code_simp
  moreover have "get_month_index ''Jan'' = 0" by code_simp
  ultimately show ?thesis by (simp add: parse_date_string_def seconds_per_year_def)
qed

text \<open>The file has changed, in time and size, and the client is told that it has not.\<close>

lemma changed_file_not_modified:
  "is_not_modified seconds_per_year
     (returning_client \<lparr>f_size = 5, f_modified = 977616000, f_directory = False, f_gzipped = False\<rparr>
       [(''If-Modified-Since'', ''Mon, 01 Jan 2001 00:00:00 GMT'')])
     \<lparr>f_size = 6, f_modified = 977615999, f_directory = False, f_gzipped = False\<rparr>"
  by (simp add: is_not_modified_def returning_headers jan_2001)

theorem etag_revalidation_witness:
  "\<not> is_not_modified example_static (returning_client \<lparr>f_size = 5, f_modified = 7, f_directory = False, f_gzipped = False\<rparr> [])
      \<lparr>f_size = 5, f_modified = 6, f_directory = False, f_gzipped = False\<rparr>
    \<and> \<not> is_not_modified seconds_per_year
      (returning_client \<lparr>f_size = 5, f_modified = 977616000, f_directory = False, f_gzipped = False\<rparr>
        [(''If-Modified-Since'', ''Mon, 01 Jan 2001 00:00:00 GMT'')])
      \<lparr>f_size = 5, f_modified = 977616001, f_directory = False, f_gzipped = False\<rparr>
    \<and> is_not_modified seconds_per_year
      (returning_client \<lparr>f_size = 5, f_modified = 977616000, f_directory = False, f_gzipped = False\<rparr>
        [(''If-Modified-Since'', ''Mon, 01 Jan 2001 00:00:00 GMT'')])
      \<lparr>f_size = 6, f_modified = 977615999, f_directory = False, f_gzipped = False\<rparr>"
  using etag_revalidation [OF returning_headers(1,2), of "\<lparr>f_size = 5, f_modified = 6, f_directory = False, f_gzipped = False\<rparr>"
      "\<lparr>f_size = 5, f_modified = 7, f_directory = False, f_gzipped = False\<rparr>" example_static]
    etag_revalidation [OF returning_headers(3,4), of "\<lparr>f_size = 5, f_modified = 977616001, f_directory = False, f_gzipped = False\<rparr>"
      "\<lparr>f_size = 5, f_modified = 977616000, f_directory = False, f_gzipped = False\<rparr>" seconds_per_year "''Mon, 01 Jan 2001 00:00:00 GMT''"]
    etag_revalidation [OF returning_headers(3,4), of "\<lparr>f_size = 6, f_modified = 977615999, f_directory = False, f_gzipped = False\<rparr>"
      "\<lparr>f_size = 5, f_modified = 977616000, f_directory = False, f_gzipped = False\<rparr>" seconds_per_year "''Mon, 01 Jan 2001 00:00:00 GMT''"]
  by (simp add: jan_2001)

end
