(* ===== verification/Spec2Isabelle.thy ===== *)
theory Spec2Isabelle
  imports Sha1 Md5 UrlCodec Uri Response Websocket Queue Handlers Handshake Auth Timers Acl App Session StaticFile
begin

text \<open>
  A verification development of the web server of this repository: the program \<^verbatim>\<open>civetwebapp.c\<close>, which shows
  the state of the AlienInvasion simulation as a web page, on CivetWeb 1.15, which is vendored as source under
  \<^verbatim>\<open>civetweb-1.15/\<close> and carries the logic. File names below are relative to
  \<^verbatim>\<open>civetweb-1.15/src/\<close>; functions without a file are in \<^verbatim>\<open>civetweb.c\<close>.

  \<^bold>\<open>The program.\<close> The master thread accepts sockets, checks them against the access control list and queues them; a worker
  thread takes one and runs \<open>process_new_connection\<close> on it: a header is collected from the socket and parsed in
  place, the URI is decoded and cleaned, \<open>handle_request\<close> finds the application's handler or the file for it, checks the
  authorization, and the handler answers through the response functions; then what is left of the
  request is discarded and the next one is read from the same buffer. A timer thread runs periodic actions.

  \<^bold>\<open>The theories\<close>, from the bottom to the top.

  \<^item> \<^theory_text>\<open>Prelude\<close>, \<^theory_text>\<open>CString\<close>, \<^theory_text>\<open>Stdio\<close>: characters, C strings, buffers with bounds
    (\<open>rd\<close>, \<open>wr\<close>, \<open>scan\<close> give \<open>None\<close> outside the list), \<open>strtol\<close>, \<open>fgets\<close>, \<open>strtok\<close>, and \<open>mg_strlcpy\<close>,
    \<open>mg_strcasecmp\<close>, \<open>mg_strcasestr\<close>.
  \<^item> \<^theory_text>\<open>Block_Stream\<close>, \<^theory_text>\<open>Sha1\<close> (\<^verbatim>\<open>sha1.inl\<close>), \<^theory_text>\<open>Md5\<close> (\<^verbatim>\<open>md5.inl\<close>): the digests as unrolled
    code on 32-bit words; both equal their standard for every chunking of the message. The locale of
    the first theory is the shared argument about partial blocks and the length counter.
  \<^item> \<^theory_text>\<open>Codec\<close>, \<^theory_text>\<open>UrlCodec\<close>, \<^theory_text>\<open>Base64\<close>: percent-encoding, form variables, cookies, Base64; the round
    trips interpret the locale \<open>codec\<close>.
  \<^item> \<^theory_text>\<open>Uri\<close>: \<open>remove_dot_segments\<close> in place, refining the normalisation on strings; \<open>get_uri_type\<close>,
    \<open>get_rel_url_at_current_server\<close>.
  \<^item> \<^theory_text>\<open>HttpParse\<close>, \<^theory_text>\<open>HttpResponseParse\<close>: the parsers of requests and responses, which write terminators
    into the receive buffer. Memory safety on every input, and parsing inverts rendering.
  \<^item> \<^theory_text>\<open>Connection\<close>: the record \<open>mg_connection\<close> and the socket; \<open>pull_inner\<close>, \<open>pull_all\<close>,
    \<open>push_all\<close>. \<^theory_text>\<open>Headers\<close>: header fields, keep-alive, patterns. \<^theory_text>\<open>Body\<close>: \<open>mg_read\<close> with chunked
    decoding, \<open>mg_write\<close> with the bandwidth limit, \<open>mg_send_chunk\<close>. \<^theory_text>\<open>Discard\<close>: \<open>discard_unread_request_data\<close>.
  \<^item> \<^theory_text>\<open>Response\<close> (\<^verbatim>\<open>response.inl\<close>), \<^theory_text>\<open>Replies\<close>: the response's state machine and the replies built on it.
    What they send is parsed back by the library's own parser.
  \<^item> \<^theory_text>\<open>Websocket\<close>, \<^theory_text>\<open>Handshake\<close>: frames, the reading loop with pings, and the session from the upgrade
    request to the close callback.
  \<^item> \<^theory_text>\<open>AuthHeader\<close>, \<^theory_text>\<open>Passwords\<close>, \<^theory_text>\<open>Auth\<close>: the Authorization header, password files as a map, digest
    authentication from the challenge to the decision.
  \<^item> \<^theory_text>\<open>Handlers\<close>: the registry of handlers with its reference counts; \<^theory_text>\<open>Queue\<close>: the socket queue under
    every interleaving of the threads; \<^theory_text>\<open>Timers\<close> (\<^verbatim>\<open>timer.inl\<close>): the timer list and its thread;
    \<^theory_text>\<open>Acl\<close>: the access control list. The first is a map, the second a bounded FIFO queue (locales \<open>registry\<close>
    and \<open>bounded_fifo\<close> of their theories); the third keeps a sorted list. Where the code's locking does not reach (the
    second release of a handler that has declined, the clock that \<open>timer_add\<close> reads before it has the lock, the loop that cancels the
    remaining timers) the step relations have the steps, lemmas show what goes wrong, and the invariants say on which runs they hold.
  \<^item> \<^theory_text>\<open>Files\<close>, \<^theory_text>\<open>Dispatch\<close>: from the URI to a file (\<open>interpret_uri\<close>), and \<open>handle_request\<close>, which composes
    the components above. \<^theory_text>\<open>StaticFile\<close>: sending a file, whole or a range of it, and answering from the client's
    cache. \<^theory_text>\<open>Framing\<close>, \<^theory_text>\<open>Session\<close>: what a request does to the receiving side of its
    connection, and the connection loop. \<^theory_text>\<open>App\<close> (\<^verbatim>\<open>../../civetwebapp.c\<close>): the application's handler
    and its registration.

  \<^bold>\<open>How the code is modelled.\<close> Structures are records with the names of their fields, as far as the
  modelled code uses them. A function that changes memory takes it and returns it changed; a pointer into a buffer that is
  written is an index, into a string that is only read the suffix. \<open>None\<close> is undefined behaviour (an access
  outside a buffer, a call through a null pointer), never an error that the code reports: those are the code's return values.
  Counters that wrap are words or carry an explicit modulus; \<open>int\<close> and \<open>nat\<close> elsewhere stand for values
  that the code's own bounds keep in range, and the theorems say so where it is an assumption (\<open>INT_MAX\<close>); the length that
  \<open>mg_url_encode\<close> returns is exact below 2 GB.
  Concurrency is a step relation whose steps are the critical sections and what happens between them (\<^theory_text>\<open>Queue\<close>, \<^theory_text>\<open>Timers\<close>,
  \<^theory_text>\<open>Handlers\<close>). Memory for the copy of the URI in \<open>handle_request\<close> is taken to be there.

  \<^bold>\<open>The properties\<close> are the theorems marked C1, C2, \<open>\<dots>\<close>, in the order of their importance. About the
  whole server: what a request may cause is authorized by what is registered for it, and stays in the document root
  (\<open>Dispatch.only_authorized_actions\<close>, \<open>Dispatch.requests_stay_in_root\<close>); pipelined requests are never mixed, and the loop over the
  requests of a connection ends (\<open>Session.pipelined_requests\<close>, \<open>Session.connection_ends\<close>); the application's page arrives
  as a valid response (\<open>app_page_served\<close>). About the components: their round trips, refinements, invariants and memory safety.
  Every theorem with hypotheses is followed by a theorem \<open>\<dots>_witness\<close> that applies it to a concrete input.

  \<^bold>\<open>Bounds, fuel and termination.\<close> Most loops are total functions with a measure. The loops that might not
  end (URI cleaning in place, the padding of SHA-1, the indices of the queue, the search for a cookie, the connection loop)
  are \<open>partial_function\<close>s, and their theorems state that they return (the connection loop: unless a request makes it leave a
  buffer, and without condition for a server of callbacks); \<open>mg_get_cookie\<close> with an empty name really
  does not. A counter that bounds a loop is the code's own: 64 header fields, 63 characters of the size line of a chunk,
  9 nested password files (\<open>INITIAL_DEPTH\<close>). The only fuel is that of \<open>throttle_loop\<close>: the length of the data, and every
  round sends a byte.

  \<^bold>\<open>Parameters\<close>, for what is not in the repository or not part of the modelled build: what the system calls return
  (received data and accepted lengths, \<open>stat\<close>, the contents of files, the clock, whether an allocation succeeds), the
  conversion of dates, and the application's callbacks. The build is the default one on Linux: WebSockets,
  no Lua, Duktape, HTTP/2, zlib, IPv6 or server statistics.

  \<^bold>\<open>Not modelled:\<close> starting and stopping the server, threads and sockets themselves and the parsing of the configuration
  (system calls; the options are fields of records); how a file is stored, listed or run as CGI
  or SSI (file and process I/O: \<open>handle_request\<close> decides about it here, and the action is its parameter; sending a file
  is such an action, in \<^theory_text>\<open>StaticFile\<close>); TLS and outgoing
  connections; HTTP/2, compression and scripting (not compiled in); multipart forms (\<^verbatim>\<open>handle_form.inl\<close>); the C++ wrapper, the
  stand-alone server, examples and tests; the Java simulation, whose log file is the application's input.
\<close>

section \<open>Who reads from the connection\<close>

text \<open>The application's handler and the sending of a file only write, so they leave the stream of requests alone, as
  the theorems about the connection demand of them.\<close>

lemma read_state_fold: "read_state (fold (\<lambda>s c. mg_printf malloc c (t s)) ss c) = read_state c"
  by (induction ss arbitrary: c) simp_all

lemma handler_reads_body: "within c (snd (handler malloc fopen c))"
proof (rule within_read_state)
  have words: "read_state (print_words malloc line c) = read_state c" for line c
    by (simp add: print_words_def read_state_fold)
  have lines: "read_state (fold (print_words malloc) ls c) = read_state c" for ls c
    using words by (induction ls arbitrary: c) simp_all
  show "read_state (snd (handler malloc fopen c)) = read_state c"
    by (simp add: handler_def Let_def read_state_fold [of malloc "\<lambda>s. s"] print_lines_pieces lines split: option.split)
qed

lemma read_state_net [simp]: "read_state (c\<lparr>net_accept := x\<rparr>) = read_state c" "read_state (c\<lparr>net_out := y\<rparr>) = read_state c"
  by (simp_all add: read_state_def)

lemma read_state_sendfile: "sendfile c f offs n = (k, c') \<Longrightarrow> read_state c' = read_state c"
  by (auto simp: sendfile_def Let_def split: list.splits if_splits)

lemma read_state_sendfile_loop: "sendfile_loop first c f offs len = (sent, o', len', c') \<Longrightarrow> read_state c' = read_state c"
proof (induction first c f offs len rule: sendfile_loop.induct)
  case (1 first c f offs len)
  obtain k c1 where k: "sendfile c f offs (nat (if len < 2147479552 then len else 2147479552)) = (k, c1)" by fastforce
  show ?case
    using "1.prems" "1.IH" [OF k [symmetric] refl] read_state_sendfile [OF k]
    by (subst (asm) sendfile_loop.simps) (auto simp: k Let_def split: if_splits)
qed

lemma read_state_copy_file: "read_state (copy_file c rest len) = read_state c"
proof (induction c rest len rule: copy_file.induct)
  case (1 c rest len)
  define n where "n = (if len < int MG_BUF_LEN then nat len else MG_BUF_LEN)"
  define buf where "buf = take n rest"
  have ne: "buf \<noteq> [] \<longleftrightarrow> 0 < n \<and> rest \<noteq> []" by (simp add: buf_def)
  obtain k c1 where k: "mg_write (Some c) buf = (k, c1)" by fastforce
  show ?case
    using "1.IH" [OF _ n_def buf_def _ k [symmetric]] read_state_mg_write [OF k]
    by (subst copy_file.simps) (auto simp: Let_def n_def [symmetric] buf_def [symmetric] k ne)
qed

lemma read_state_send_file: "read_state (send_file_data allow c n f offset len) = read_state c"
  using read_state_sendfile_loop [of True c f] read_state_copy_file
  by (auto simp: send_file_data_def Let_def split: prod.split)

lemma read_state_static_cache [simp]: "read_state (send_static_cache_header malloc cfg c) = read_state c"
  by (simp add: send_static_cache_header_def Let_def split: option.split)

lemma read_state_static_header:
  "send_static_header malloc cfg mime st enc cl rng None c = Some c' \<Longrightarrow> read_state c' = read_state c"
  by (auto simp: send_static_header_def Let_def split: bind_splits option.splits if_splits dest!: read_state_additional)

lemma static_file_reads_body:
  assumes "static_file malloc cfg meth path st c = Some c'" "sf_callback cfg = None"
  shows "within c c'"
proof -
  have err0: "within c c'" if "static_error malloc cfg status msg c = Some c'" for status msg c c'
    using that http_error_within [of None] assms(2) by (auto simp: static_error_def)
  have status: "within c (c\<lparr>conn_status_code := k\<rparr>)" for c k by (rule within_read_state) (simp add: read_state_def)
  have err: "within c c'" if "static_error malloc cfg status msg (c\<lparr>conn_status_code := k\<rparr>) = Some c'" for status msg c c' k
    using within_trans [OF status err0 [OF that]] .
  have sent: "within c c2" "within c (send_file_data allow c2 n f offset len)"
    if "send_static_header malloc cfg mime st enc cl rng None (c\<lparr>conn_status_code := k\<rparr>) = Some c2"
    for c mime st enc cl rng k c2 allow n f offset len
    using read_state_static_header [OF that] read_state_send_file by (simp_all add: within_read_state)
  have static: "within c c'" if run: "handle_static_file_request malloc cfg meth path st None None c = Some c'"
    using run unfolding handle_static_file_request_def Let_def
    by (auto split: bind_splits if_splits option.splits prod.splits simp: err0 err sent)
  have "within c c'" if "handle_not_modified_static_file_request malloc cfg st c = Some c'"
    by (rule within_read_state)
      (use that in \<open>auto simp: handle_not_modified_static_file_request_def Let_def split: bind_splits dest!: read_state_additional\<close>)
  then show ?thesis using assms(1) static by (simp add: static_file_def split: if_splits)
qed

section \<open>The application on the server\<close>

text \<open>The server when \<open>main\<close> has registered the application's handler at the address \<open>a\<close>.\<close>

lemma app_registered:
  assumes "register_app (Some a) h arg [] = (again, hs)"
  shows "\<exists>g. hs = [g] \<and> node g = a \<and> htype g = REQUEST_HANDLER \<and> req_handler g = Some h \<and> cbdata g = Some arg
    \<and> get_request_handler REQUEST_HANDLER app_uri hs = (Some g, acquire (node g) hs)"
proof -
  have "valid_request \<lparr>r_uri = app_uri, r_type = REQUEST_HANDLER, r_delete = False, r_handler = Some h, r_ws = no_handlers,
      r_auth = None, r_cbdata = Some arg\<rparr>" (is "valid_request ?r")
    by (simp add: valid_request_def no_ws_def no_handlers_def)
  then have hs: "hs = [new_handler ?r a]"
    using assms by (simp add: register_app_def mg_set_request_handler_def mg_set_handler_type_def)
  have f: "uri (new_handler ?r a) = app_uri" "htype (new_handler ?r a) = REQUEST_HANDLER" "\<not> removing (new_handler ?r a)"
    "req_handler (new_handler ?r a) = Some h" "cbdata (new_handler ?r a) = Some arg" "node (new_handler ?r a) = a"
    by (simp_all add: new_handler_def set_fields_def Let_def)
  have "candidates REQUEST_HANDLER app_uri hs = new_handler ?r a # concat (map (\<lambda>step. filter (\<lambda>h. htype h = REQUEST_HANDLER \<and> matched step h app_uri) hs) [1, 2])"
    using f unfolding candidates_def by (simp add: hs matched_exact)
  then show ?thesis using f by (auto simp: get_request_handler_candidates hs)
qed

lemma plain_uri:
  assumes "cstring s" "CHR ''?'' \<notin> set s"
  shows "split_query (s @ NUL # post) = (s @ NUL # post, None)"
proof -
  have k: "takeWhile (\<lambda>c. c \<noteq> CHR ''?'') s = s" using assms(2) by auto
  show ?thesis unfolding split_query_def str_at_0 [OF assms(1)] k by simp
qed

lemma app_uri_clean: "cstring app_uri" "CHR ''?'' \<notin> set app_uri" "decoded_path c app_uri = app_uri" "normal_path app_uri = app_uri"
proof -
  show s: "cstring app_uri" "CHR ''?'' \<notin> set app_uri" by (simp_all add: app_uri_def cstring_def)
  have "url_decoded False app_uri = app_uri" by (simp add: app_uri_def)
  then show "decoded_path c app_uri = app_uri" using s(1) by (auto simp: decoded_path_def cstring_def)
  have "clean_path app_uri" by code_simp
  then show "normal_path app_uri = app_uri" by (rule normal_path_clean)
qed

lemma nothing_to_discard:
  assumes "content_len c = 0" "consumed_content c = 0" "is_chunked c = 0"
  shows "discard_unread_request_data c = c"
  using assms by (subst discard_unread_request_data.simps) (simp add: mg_read_def mg_read_inner_def)

text \<open>C4: the application as a whole. After \<open>main\<close> has registered its handler, every \<open>GET\<close> for
  \<open>/AlienInvasion\<close> that nothing protects is routed to it and answered with one response, which a
  client parses as \<open>HTTP/1.1 200 OK\<close> with the two header fields, and whose body is the page: for
  a log of lines that fit into the buffer, a heading for every field of every line, in their
  order. The handler's reference is given back.\<close>

theorem app_page_served:
  assumes "register_app (Some a) h arg [] = (again, w_handlers w)"
    and "s_tls_redirect srv = None" "s_begin_request srv = None" "s_request_callback srv h (Some arg) = handler (\<lambda>n. True) fopen"
    and "auth_file ((s_protect srv)\<lparr>local_uri := app_uri\<rparr>) (s_files srv) [] = None" "request_method (w_auth w) = Some ''GET''"
    and "c = (w_conn w)\<lparr>request_state := 0, throttle := s_throttle srv app_uri\<rparr>"
    and "proto_type c = PROTOCOL_TYPE_HTTP1" "content_len c = 0" "consumed_content c = 0" "is_chunked c = 0" "w_log w = []"
    and "fopen log_file = Some (concat (map (\<lambda>l. l @ [LF]) ls))"
    and "\<forall>l \<in> set ls. LF \<notin> set l \<and> NUL \<notin> set l \<and> length l + 1 < line_size"
    and "page = concat page_start @ heading [] @ concat (map heading (concat (map (\<lambda>l. filter (\<lambda>w. w \<noteq> []) (split_on CHR '','' (l @ [LF]))) ls)))
      @ concat page_end"
    and "writer_ok (length (response_head @ page)) c" "int (length (response_head @ page)) \<le> INT_MAX"
  shows "\<exists>w' mem ri. handle_request srv (app_uri @ NUL # post) 0 w = Some w'
    \<and> net_out (w_conn w') = net_out (w_conn w) @ response_head @ page \<and> conn_status_code (w_conn w') = 200
    \<and> w_handlers w' = w_handlers w \<and> w_log w' = [Called h (Some arg)]
    \<and> parse_http_response (response_head @ page) (length (response_head @ page)) ri0 = Some (mem, ri, int (length response_head))
    \<and> map_option (str_at mem) (rsp_http_version ri) = Some ''1.1'' \<and> rsp_status_code ri = 200
    \<and> map_option (str_at mem) (rsp_status_text ri) = Some ''OK''
    \<and> map (\<lambda>(n, v). (str_at mem n, str_at mem v)) (rsp_http_headers ri) = [(''Content-Type'', ''text/html''), (''Connection'', ''close'')]"
proof -
  obtain g where g: "w_handlers w = [g]" "node g = a" "htype g = REQUEST_HANDLER" "req_handler g = Some h" "cbdata g = Some arg"
    "get_request_handler REQUEST_HANDLER app_uri (w_handlers w) = (Some g, acquire (node g) (w_handlers w))"
    using app_registered [OF assms(1)] by auto
  obtain mem tmp where url: "clean_url (w_conn w) (app_uri @ NUL # post) 0 None = Some (mem, length app_uri, tmp)"
    "str_at tmp 0 = app_uri"
    using clean_url_spec [OF app_uri_clean(1), of None "w_conn w" "[]" post] app_uri_clean(3,4) by auto
  have page: "concat (page_parts (fopen log_file)) = page"
    by (simp add: assms(13,15) page_parts_def log_headings_lines [OF assms(14)])
  obtain c1 where run: "handler (\<lambda>n. True) fopen c = (200, c1)" "net_out c1 = net_out c @ response_head @ page" "frame c1 = frame c"
    using handler_page [of fopen 0 c] assms(16,17) by (auto simp: page)
  define c2 where "c2 = c1\<lparr>conn_status_code := 200\<rparr>"
  have "discard_unread_request_data c2 = c2"
    using frame_body [OF run(3)] assms(9-11) by (intro nothing_to_discard) (simp_all add: c2_def)
  then have "handle_request srv (app_uri @ NUL # post) 0 w = Some (w\<lparr>w_conn := c2, w_log := [Called h (Some arg)]\<rparr>)"
    using handled_by_callback [OF assms(2,3) _ _ plain_uri [OF app_uri_clean(1,2)] url g(6) _ assms(5) g(4), of 200 c1]
      run(1) assms(4,6,7,8,12) g(1,3,5) by (simp add: c2_def)
  moreover have "net_out c2 = net_out (w_conn w) @ response_head @ page" using run(2) by (simp add: c2_def assms(7))
  moreover have "\<exists>mem ri. parse_http_response (response_head @ page) (length (response_head @ page)) ri0 = Some (mem, ri, int (length response_head))
    \<and> map_option (str_at mem) (rsp_http_version ri) = Some ''1.1'' \<and> rsp_status_code ri = 200
    \<and> map_option (str_at mem) (rsp_status_text ri) = Some ''OK''
    \<and> map (\<lambda>(n, v). (str_at mem n, str_at mem v)) (rsp_http_headers ri) = [(''Content-Type'', ''text/html''), (''Connection'', ''close'')]"
  proof -
    have "list_all isgraph ''1.1''" "reason_ok ''OK''"
      "\<forall>h \<in> set [(''Content-Type'', ''text/html''), (''Connection'', ''close'')]. header_ok h" by code_simp+
    from parse_response_spec [OF _ this(1) _ _ this(2,3) _ _ response_head_render, of "[]" "length (response_head @ page)" page ri0]
    show ?thesis by (auto simp: MG_MAX_HEADERS_def)
  qed
  ultimately show ?thesis by (auto simp: c2_def)
qed

definition app_server :: "unit server" where
  "app_server = example_srv\<lparr>s_request_callback :=
     (\<lambda>f d. handler (\<lambda>n. True) (\<lambda>p. if p = log_file then Some (''north,42'' @ [LF]) else None))\<rparr>"

definition app_world :: "unit world" where
  "app_world = example_world\<lparr>w_conn := example_conn\<lparr>net_accept := replicate 1000 9\<rparr>,
     w_handlers := snd (register_app (Some 7) 100 200 [])\<rparr>"

theorem app_page_served_witness:
  "\<exists>w'. handle_request app_server (app_uri @ [NUL]) 0 app_world = Some w'
    \<and> net_out (w_conn w') = response_head @ concat page_start @ heading [] @ heading ''north'' @ heading (''42'' @ [LF]) @ concat page_end
    \<and> w_log w' = [Called 100 (Some 200)]"
proof -
  let ?ls = "[''north,42'']"
  define page where "page = concat page_start @ heading [] @ concat (map heading (concat (map (\<lambda>l. filter (\<lambda>w. w \<noteq> []) (split_on CHR '','' (l @ [LF]))) ?ls)))
      @ concat page_end"
  have p: "page = concat page_start @ heading [] @ heading ''north'' @ heading (''42'' @ [LF]) @ concat page_end"
    by (simp add: page_def)
  have len: "length (response_head @ page) \<le> 1000"
    unfolding p by (simp add: response_head_def page_start_def page_end_def heading_def)
  obtain again where reg: "register_app (Some 7) 100 200 [] = (again, w_handlers app_world)"
    by (simp add: app_world_def) (metis prod.collapse)
  have srv: "s_tls_redirect app_server = None" "s_begin_request app_server = None"
    "s_request_callback app_server 100 (Some 200) = handler (\<lambda>n. True) (\<lambda>p. if p = log_file then Some (''north,42'' @ [LF]) else None)"
    "auth_file ((s_protect app_server)\<lparr>local_uri := app_uri\<rparr>) (s_files app_server) [] = None"
    using example_unprotected [of app_uri "[]"] by (simp_all add: app_server_def example_srv_def)
  define c where "c = (w_conn app_world)\<lparr>request_state := 0, throttle := s_throttle app_server app_uri\<rparr>"
  have w: "request_method (w_auth app_world) = Some ''GET''" "proto_type c = PROTOCOL_TYPE_HTTP1" "content_len c = 0"
    "consumed_content c = 0" "is_chunked c = 0" "w_log app_world = []" "net_out (w_conn app_world) = []"
    by (simp_all add: app_world_def example_world_def bob_context_def c_def example_conn_def)
  have "writer_ok (length (response_head @ page)) c" "int (length (response_head @ page)) \<le> INT_MAX"
    using len by (simp_all add: writer_ok_def accepts_def list_all_iff c_def app_world_def app_server_def example_srv_def example_conn_def INT_MAX_def)
  from app_page_served [OF reg srv w(1) c_def w(2-6) _ _ page_def this, of "[]"]
  show ?thesis unfolding p by (simp add: w(7) line_size_def) blast
qed

end
